(* ===== verification/Prelude.thy ===== *)
theory Prelude
  imports Complex_Main "HOL-Library.Sublist" "HOL-Library.Char_ord"
begin

text \<open>
  What every component of the development shares: the collections of rewrite rules the
  component proofs use, the result type that carries Python's exceptions, the few
  operations of Python's \<open>str\<close> and \<open>list\<close> types the code calls, and generic
  lemmas about lists.

  Python integers are \<open>nat\<close> or \<open>int\<close>; names, modes and specs are \<open>string\<close>
  (tensor names, modes and roles are ASCII throughout the repository, so a character is
  one code point); an exception is the left side of a sum.
\<close>

named_theorems orka_simps "defining equations that the component proofs unfold"
named_theorems codec_intros "conditions under which an encoder is undone by its decoder"

section \<open>Errors as values\<close>

text \<open>
  \<open>bind_err\<close> sequences two computations that may raise: an exception of the first one
  skips the second, as in Python. \<open>ensure c e\<close> is \<open>if not c: raise e\<close>.
\<close>

definition bind_err :: "'e + 'a \<Rightarrow> ('a \<Rightarrow> 'e + 'b) \<Rightarrow> 'e + 'b" where
  "bind_err m f = (case m of Inl e \<Rightarrow> Inl e | Inr x \<Rightarrow> f x)"

definition ensure :: "bool \<Rightarrow> 'e \<Rightarrow> 'e + unit" where
  "ensure c e = (if c then Inr () else Inl e)"

lemma bind_err_simps [simp]:
  "bind_err (Inl e) f = Inl e"
  "bind_err (Inr x) f = f x"
  by (simp_all add: bind_err_def)

lemma bind_err_eq_Inr:
  "bind_err m f = Inr y \<longleftrightarrow> (\<exists>x. m = Inr x \<and> f x = Inr y)"
  by (cases m) auto

lemma bind_err_eq_Inl:
  "bind_err m f = Inl e \<longleftrightarrow> m = Inl e \<or> (\<exists>x. m = Inr x \<and> f x = Inl e)"
  by (cases m) auto

lemma ensure_simps [simp]:
  "ensure True e = Inr ()"
  "ensure False e = Inl e"
  by (simp_all add: ensure_def)

lemma ensure_eq_Inr [simp]: "ensure c e = Inr u \<longleftrightarrow> c"
  by (simp add: ensure_def)

lemma ensure_eq_Inl [simp]: "ensure c e = Inl e' \<longleftrightarrow> \<not> c \<and> e' = e"
  by (auto simp: ensure_def)

text \<open>A loop over a list whose body may raise: the first exception ends the loop.\<close>

fun foldM :: "('s \<Rightarrow> 'a \<Rightarrow> 'e + 's) \<Rightarrow> 's \<Rightarrow> 'a list \<Rightarrow> 'e + 's" where
  "foldM f s [] = Inr s"
| "foldM f s (x # xs) = bind_err (f s x) (\<lambda>s'. foldM f s' xs)"

lemma foldM_append: "foldM f s (xs @ ys) = bind_err (foldM f s xs) (\<lambda>s'. foldM f s' ys)"
proof (induction xs arbitrary: s)
  case Nil
  show ?case by simp
next
  case (Cons x xs)
  then show ?case by (cases "f s x") simp_all
qed

lemma foldM_invariant:
  assumes "foldM f s xs = Inr s'" and "P s"
    and "\<And>s x s'. x \<in> set xs \<Longrightarrow> P s \<Longrightarrow> f s x = Inr s' \<Longrightarrow> P s'"
  shows "P s'"
  using assms
proof (induction xs arbitrary: s)
  case Nil
  then show ?case by simp
next
  case (Cons x xs)
  from Cons.prems(1) obtain s1 where s1: "f s x = Inr s1" "foldM f s1 xs = Inr s'"
    by (auto simp: bind_err_eq_Inr)
  have "P s1" using Cons.prems(2) s1(1) Cons.prems(3) [of x s s1] by simp
  moreover have "\<And>y t t'. y \<in> set xs \<Longrightarrow> P t \<Longrightarrow> f t y = Inr t' \<Longrightarrow> P t'"
    by (meson Cons.prems(3) list.set_intros(2))
  ultimately show ?case using Cons.IH [OF s1(2)] by blast
qed

text \<open>Mapping a function that may raise, and a counted loop that collects one result a round.\<close>

fun mapM :: "('x \<Rightarrow> 'e + 'y) \<Rightarrow> 'x list \<Rightarrow> 'e + 'y list" where
  "mapM f [] = Inr []"
| "mapM f (x # xs) = bind_err (f x) (\<lambda>y. bind_err (mapM f xs) (\<lambda>ys. Inr (y # ys)))"

lemma mapM_Inr: "(\<And>x. x \<in> set xs \<Longrightarrow> f x = Inr (g x)) \<Longrightarrow> mapM f xs = Inr (map g xs)"
  by (induction xs) simp_all

lemma length_mapM: "mapM f xs = Inr ys \<Longrightarrow> length ys = length xs"
  by (induction xs arbitrary: ys) (auto simp: bind_err_eq_Inr)

lemma mapM_nth: "mapM f xs = Inr ys \<Longrightarrow> i < length xs \<Longrightarrow> f (xs ! i) = Inr (ys ! i)"
proof (induction xs arbitrary: ys i)
  case (Cons x xs)
  then show ?case by (cases i) (auto simp: bind_err_eq_Inr)
qed simp

fun repeatM :: "nat \<Rightarrow> ('s \<Rightarrow> 'e + 'a \<times> 's) \<Rightarrow> 's \<Rightarrow> 'e + 'a list \<times> 's" where
  "repeatM 0 f s = Inr ([], s)"
| "repeatM (Suc n) f s =
     bind_err (f s) (\<lambda>(x, s'). bind_err (repeatM n f s') (\<lambda>(xs, s''). Inr (x # xs, s'')))"

section \<open>Python strings\<close>

definition lower_char :: "char \<Rightarrow> char" where
  "lower_char c =
     (let n = of_char c :: nat in if 65 \<le> n \<and> n \<le> 90 then char_of (n + 32) else c)"

definition py_lower :: "string \<Rightarrow> string" where
  "py_lower s = map lower_char s"

text \<open>\<open>m in s\<close> for strings.\<close>

fun contains :: "string \<Rightarrow> string \<Rightarrow> bool" where
  "contains m [] = (m = [])"
| "contains m (c # cs) = (prefix m (c # cs) \<or> contains m cs)"

definition any_in :: "string list \<Rightarrow> string \<Rightarrow> bool" where
  "any_in ms s = list_ex (\<lambda>m. contains m s) ms"

abbreviation starts_with :: "string \<Rightarrow> string \<Rightarrow> bool" where
  "starts_with s p \<equiv> prefix p s"

abbreviation ends_with :: "string \<Rightarrow> string \<Rightarrow> bool" where
  "ends_with s p \<equiv> suffix p s"

lemma contains_iff: "contains m s \<longleftrightarrow> (\<exists>u v. s = u @ m @ v)"
proof (induction s)
  case Nil
  show ?case by auto
next
  case (Cons c cs)
  show ?case
  proof
    assume "contains m (c # cs)"
    then consider "prefix m (c # cs)" | "contains m cs" by auto
    then show "\<exists>u v. c # cs = u @ m @ v"
    proof cases
      case 1
      then obtain v where "c # cs = [] @ m @ v" by (auto simp: prefix_def)
      then show ?thesis by blast
    next
      case 2
      with Cons.IH obtain u v where "cs = u @ m @ v" by auto
      then have "c # cs = (c # u) @ m @ v" by simp
      then show ?thesis by blast
    qed
  next
    assume "\<exists>u v. c # cs = u @ m @ v"
    then obtain u v where uv: "c # cs = u @ m @ v" by blast
    show "contains m (c # cs)"
    proof (cases u)
      case Nil
      with uv have "prefix m (c # cs)" by (auto simp: prefix_def)
      then show ?thesis by simp
    next
      case (Cons d u')
      with uv have "cs = u' @ m @ v" by simp
      with Cons.IH show ?thesis by auto
    qed
  qed
qed

lemma contains_append: "contains m s \<Longrightarrow> contains m (s @ t)"
  by (auto simp: contains_iff) (metis append.assoc)

lemma contains_prepend: "contains m s \<Longrightarrow> contains m (t @ s)"
  by (auto simp: contains_iff) (metis append.assoc)

text \<open>\<open>s.split(sep)\<close> for a one-character separator: never empty, keeps empty parts.\<close>

fun py_split :: "char \<Rightarrow> string \<Rightarrow> string list" where
  "py_split sep [] = [[]]"
| "py_split sep (c # cs) =
     (if c = sep then [] # py_split sep cs
      else (case py_split sep cs of [] \<Rightarrow> [[c]] | p # ps \<Rightarrow> (c # p) # ps))"

text \<open>\<open>sep.join(parts)\<close> for a one-character separator.\<close>

fun py_join :: "char \<Rightarrow> string list \<Rightarrow> string" where
  "py_join sep [] = []"
| "py_join sep [p] = p"
| "py_join sep (p # q # ps) = p @ sep # py_join sep (q # ps)"

lemma py_split_not_Nil [simp]: "py_split sep s \<noteq> []"
  by (induction s) (auto split: list.splits)

lemma py_split_single: "sep \<notin> set s \<Longrightarrow> py_split sep s = [s]"
  by (induction s) auto

lemma py_split_append_sep: "sep \<notin> set s \<Longrightarrow> py_split sep (s @ sep # t) = s # py_split sep t"
  by (induction s) auto

lemma py_split_join:
  assumes "ps \<noteq> []" and "\<forall>p \<in> set ps. sep \<notin> set p"
  shows "py_split sep (py_join sep ps) = ps"
  using assms
  by (induction sep ps rule: py_join.induct) (auto simp: py_split_single py_split_append_sep)

definition is_digit :: "char \<Rightarrow> bool" where
  "is_digit c = (let n = of_char c :: nat in 48 \<le> n \<and> n \<le> 57)"

text \<open>\<open>s.isdigit()\<close> is false for the empty string.\<close>

definition py_isdigit :: "string \<Rightarrow> bool" where
  "py_isdigit s = (s \<noteq> [] \<and> list_all is_digit s)"

definition digit_val :: "char \<Rightarrow> nat" where
  "digit_val c = of_char c - 48"

definition digits_val :: "string \<Rightarrow> nat" where
  "digits_val s = foldl (\<lambda>n c. 10 * n + digit_val c) 0 s"

definition digit_char :: "nat \<Rightarrow> char" where
  "digit_char d = char_of (48 + d)"

text \<open>\<open>str(n)\<close> for a natural number.\<close>

fun nat_str :: "nat \<Rightarrow> string" where
  "nat_str n = (if n < 10 then [digit_char n] else nat_str (n div 10) @ [digit_char (n mod 10)])"

declare nat_str.simps [simp del]

lemma of_char_digit_char: "d < 10 \<Longrightarrow> of_char (digit_char d) = (48 + d :: nat)"
  by (simp add: digit_char_def)

lemma is_digit_digit_char [simp]: "d < 10 \<Longrightarrow> is_digit (digit_char d)"
  by (simp add: is_digit_def of_char_digit_char)

lemma digit_val_digit_char [simp]: "d < 10 \<Longrightarrow> digit_val (digit_char d) = d"
  by (simp add: digit_val_def of_char_digit_char)

lemma nat_str_not_Nil [simp]: "nat_str n \<noteq> []"
  by (subst nat_str.simps) simp

lemma nat_str_digits: "list_all is_digit (nat_str n)"
proof (induction n rule: nat_str.induct)
  case (1 n)
  then show ?case by (subst nat_str.simps) auto
qed

lemma py_isdigit_nat_str [simp]: "py_isdigit (nat_str n)"
  by (simp add: py_isdigit_def nat_str_digits)

lemma digits_val_nat_str [simp]: "digits_val (nat_str n) = n"
proof (induction n rule: nat_str.induct)
  case (1 n)
  show ?case
  proof (cases "n < 10")
    case True
    then show ?thesis by (subst nat_str.simps) (simp add: digits_val_def)
  next
    case False
    with 1 have "digits_val (nat_str (n div 10)) = n div 10" by simp
    with False show ?thesis by (subst nat_str.simps) (simp add: digits_val_def)
  qed
qed

lemma nat_str_no_char: "\<not> is_digit c \<Longrightarrow> c \<notin> set (nat_str n)"
  using nat_str_digits [of n] by (auto simp: list_all_iff)

section \<open>Lists\<close>

text \<open>Splitting into consecutive blocks of \<open>k\<close> elements, the last one possibly shorter.\<close>

function blocks_of :: "nat \<Rightarrow> 'a list \<Rightarrow> 'a list list" where
  "blocks_of k xs = (if xs = [] \<or> k = 0 then [] else take k xs # blocks_of k (drop k xs))"
  by pat_completeness auto
termination
  by (relation "measure (\<lambda>(k, xs). length xs)") auto

declare blocks_of.simps [simp del]

lemma blocks_of_Nil [simp]: "blocks_of k [] = []"
  by (simp add: blocks_of.simps)

lemma concat_blocks_of [simp]: "0 < k \<Longrightarrow> concat (blocks_of k xs) = xs"
proof (induction k xs rule: blocks_of.induct)
  case (1 k xs)
  then show ?case by (cases "xs = []") (simp_all add: blocks_of.simps [of k xs])
qed

lemma blocks_of_append:
  assumes "length xs = k" and "0 < k"
  shows "blocks_of k (xs @ ys) = xs # blocks_of k ys"
proof -
  have "xs \<noteq> []" using assms by auto
  with assms show ?thesis by (simp add: blocks_of.simps [of k "xs @ ys"])
qed

lemma blocks_of_concat:
  assumes "\<forall>b \<in> set bs. length b = k" and "0 < k"
  shows "blocks_of k (concat bs) = bs"
  using assms by (induction bs) (auto simp: blocks_of_append)

lemma blocks_of_dvd:
  assumes "0 < k" and "k dvd length xs"
  shows "length (blocks_of k xs) = length xs div k \<and> (\<forall>b \<in> set (blocks_of k xs). length b = k)"
  using assms
proof (induction k xs rule: blocks_of.induct)
  case (1 k xs)
  show ?case
  proof (cases "xs = []")
    case True
    then show ?thesis by simp
  next
    case False
    with "1.prems" have le: "k \<le> length xs" by (auto dest: dvd_imp_le)
    with "1.prems" have "k dvd length (drop k xs)" by (simp add: dvd_diff_nat)
    then have IH: "length (blocks_of k (drop k xs)) = length (drop k xs) div k \<and>
        (\<forall>b \<in> set (blocks_of k (drop k xs)). length b = k)"
      using False "1.prems"(1) by (intro "1.IH") simp_all
    have unf: "blocks_of k xs = take k xs # blocks_of k (drop k xs)"
      using False "1.prems"(1) by (simp add: blocks_of.simps [of k xs])
    have "length xs div k = Suc ((length xs - k) div k)"
      using "1.prems"(1) le by (rule le_div_geq)
    with IH have "length (blocks_of k xs) = length xs div k"
      by (simp only: unf list.size length_drop)
    moreover have "\<forall>b \<in> set (blocks_of k xs). length b = k"
      using IH le unfolding unf by (metis (mono_tags, lifting) length_take min.absorb2 set_ConsD)
    ultimately show ?thesis by blast
  qed
qed

text \<open>Python's \<open>math.ceil(a / b)\<close> on naturals.\<close>

definition ceil_div :: "nat \<Rightarrow> nat \<Rightarrow> nat" where
  "ceil_div a b = (a + b - 1) div b"

lemma ceil_div_mult_ge: "0 < b \<Longrightarrow> a \<le> b * ceil_div a b"
proof -
  assume b: "0 < b"
  have "a + b - 1 = b * ceil_div a b + (a + b - 1) mod b"
    by (simp add: ceil_div_def)
  moreover have "(a + b - 1) mod b < b" using b by simp
  ultimately show ?thesis by linarith
qed

lemma ceil_div_exact: "0 < b \<Longrightarrow> ceil_div (q * b) b = q"
  using div_mult_self2 [of b "b - 1" q] by (simp add: ceil_div_def ac_simps)

lemma ceil_div_mult_less: "0 < b \<Longrightarrow> 0 < a \<Longrightarrow> b * (ceil_div a b - 1) < a"
proof -
  assume b: "0 < b" and a: "0 < a"
  have "b * ceil_div a b \<le> a + b - 1"
    by (simp add: ceil_div_def)
  then have "b * ceil_div a b - b < a" using a b by linarith
  then show ?thesis by (simp add: diff_mult_distrib2)
qed

text \<open>
  Indexing as Python and numpy do it: a negative index counts from the end, anything out of
  range raises \<open>IndexError\<close>, passed in as \<open>e\<close>. \<open>py_slice_ix n i\<close> is the position a
  slice bound \<open>i\<close> stands for in a sequence of length \<open>n\<close>; slices never raise.
\<close>

definition py_get :: "'e \<Rightarrow> 'a list \<Rightarrow> int \<Rightarrow> 'e + 'a" where
  "py_get e xs i =
     (let k = (if i < 0 then int (length xs) + i else i)
      in if k < 0 \<or> int (length xs) \<le> k then Inl e else Inr (xs ! nat k))"

lemma py_get_nonneg [simp]: "0 \<le> i \<Longrightarrow> i < int (length xs) \<Longrightarrow> py_get e xs i = Inr (xs ! nat i)"
  by (simp add: py_get_def)

lemma py_get_nat: "i < length xs \<Longrightarrow> py_get e xs (int i) = Inr (xs ! i)"
  by simp

definition py_slice_ix :: "nat \<Rightarrow> int \<Rightarrow> nat" where
  "py_slice_ix n i = (if i < 0 then nat (int n + i) else min n (nat i))"

text \<open>\<open>np.argmax\<close>: the first position of the largest element.\<close>

fun argmax :: "'a::linorder list \<Rightarrow> nat" where
  "argmax [] = 0"
| "argmax [x] = 0"
| "argmax (x # y # xs) =
     (let j = Suc (argmax (y # xs)) in if (y # xs) ! (j - 1) \<le> x then 0 else j)"

lemma argmax_less: "xs \<noteq> [] \<Longrightarrow> argmax xs < length xs"
  by (induction xs rule: argmax.induct) (auto simp: Let_def)

lemma argmax_max: "x \<in> set xs \<Longrightarrow> x \<le> xs ! argmax xs"
proof (induction xs rule: argmax.induct)
  case (3 y z xs)
  then show ?case by (auto simp: Let_def not_le dest: less_imp_le intro: order_trans)
qed simp_all

lemma argmax_first: "i < argmax xs \<Longrightarrow> xs ! i < xs ! argmax xs"
proof (induction xs arbitrary: i rule: argmax.induct)
  case (3 y z xs)
  let ?j = "argmax (z # xs)"
  show ?case
  proof (cases "(z # xs) ! ?j \<le> y")
    case True
    with "3.prems" show ?thesis by simp
  next
    case False
    then have am: "argmax (y # z # xs) = Suc ?j" by (simp add: Let_def)
    with "3.prems" have i: "i < Suc ?j" by simp
    show ?thesis
    proof (cases i)
      case 0
      with False am show ?thesis by simp
    next
      case (Suc k)
      with i have "k < ?j" by simp
      then have "(z # xs) ! k < (z # xs) ! ?j" by (rule "3.IH")
      with Suc am show ?thesis by simp
    qed
  qed
qed simp_all

text \<open>
  \<open>math.ceil(math.log2(n))\<close>, exactly (double-precision \<open>log2\<close> agrees far beyond any
  codebook size or alphabet the code meets).
\<close>

fun clog2 :: "nat \<Rightarrow> nat" where
  "clog2 n = (if n \<le> 1 then 0 else Suc (clog2 ((n + 1) div 2)))"

declare clog2.simps [simp del]

lemma clog2_upper: "n \<le> 2 ^ clog2 n"
proof (induction n rule: clog2.induct)
  case (1 n)
  show ?case
  proof (cases "n \<le> 1")
    case True
    then show ?thesis by (simp add: clog2.simps)
  next
    case False
    with 1 have "(n + 1) div 2 \<le> 2 ^ clog2 ((n + 1) div 2)" by simp
    then have "n \<le> 2 * 2 ^ clog2 ((n + 1) div 2)" by linarith
    with False show ?thesis by (simp add: clog2.simps [of n])
  qed
qed

lemma clog2_lower: "b < clog2 n \<Longrightarrow> 2 ^ b < n"
proof (induction n arbitrary: b rule: clog2.induct)
  case (1 n)
  show ?case
  proof (cases "n \<le> 1")
    case True
    with "1.prems" show ?thesis by (simp add: clog2.simps)
  next
    case False
    show ?thesis
    proof (cases b)
      case 0
      with False show ?thesis by simp
    next
      case (Suc c)
      with False "1.prems" have "c < clog2 ((n + 1) div 2)" by (simp add: clog2.simps [of n])
      with False "1.IH" have "2 ^ c < (n + 1) div 2" by simp
      then have "2 * 2 ^ c < n" by linarith
      with Suc show ?thesis by simp
    qed
  qed
qed

lemma clog2_le_iff: "clog2 n \<le> b \<longleftrightarrow> n \<le> 2 ^ b"
proof
  assume "clog2 n \<le> b"
  then have "(2::nat) ^ clog2 n \<le> 2 ^ b" by simp
  with clog2_upper [of n] show "n \<le> 2 ^ b" by linarith
next
  assume "n \<le> 2 ^ b"
  then show "clog2 n \<le> b" using clog2_lower [of b n] by linarith
qed

lemma clog2_eq_ceiling_log:
  assumes "1 \<le> n"
  shows "int (clog2 n) = \<lceil>log 2 (real n)\<rceil>"
proof (rule antisym)
  show "\<lceil>log 2 (real n)\<rceil> \<le> int (clog2 n)"
  proof -
    have "log 2 (real n) \<le> real (clog2 n)"
      using assms clog2_upper [of n] by (intro log2_of_power_le) auto
    then show ?thesis by (simp add: ceiling_le_iff)
  qed
  show "int (clog2 n) \<le> \<lceil>log 2 (real n)\<rceil>"
  proof (cases "clog2 n")
    case 0
    have "0 \<le> log 2 (real n)" using assms by simp
    with 0 show ?thesis by linarith
  next
    case (Suc b)
    then have "2 ^ b < n" by (intro clog2_lower) simp
    then have "real b < log 2 (real n)" by (rule less_log2_of_power)
    then have "int b < \<lceil>log 2 (real n)\<rceil>" by (simp add: less_ceiling_iff)
    with Suc show ?thesis by simp
  qed
qed

lemma sum_list_update:
  fixes xs :: "'a::ab_group_add list"
  assumes "i < length xs"
  shows "sum_list (xs[i := y]) = sum_list xs - xs ! i + y"
  using assms
proof (induction xs arbitrary: i)
  case Nil
  then show ?case by simp
next
  case (Cons x xs)
  show ?case
  proof (cases i)
    case 0
    then show ?thesis by (simp add: algebra_simps)
  next
    case (Suc j)
    with Cons show ?thesis by (simp add: algebra_simps)
  qed
qed

lemma fold_max_upper: "(x :: 'a :: linorder) \<in> set xs \<or> x \<le> a \<Longrightarrow> x \<le> fold max xs a"
proof (induction xs arbitrary: a)
  case (Cons y ys)
  then have "x \<in> set ys \<or> x \<le> max y a" by (auto simp: le_max_iff_disj)
  then have "x \<le> fold max ys (max y a)" by (rule Cons.IH)
  then show ?case by simp
qed simp

section \<open>Dictionaries with an order\<close>

text \<open>\<open>d[k] = v\<close> on a dict as its list of items: an existing key keeps its place.\<close>

definition dict_put :: "'k \<Rightarrow> 'v \<Rightarrow> ('k \<times> 'v) list \<Rightarrow> ('k \<times> 'v) list" where
  "dict_put k v d =
     (if k \<in> set (map fst d) then map (\<lambda>(k', w). (k', if k' = k then v else w)) d else d @ [(k, v)])"

lemma map_of_replace:
  "map_of (map (\<lambda>(k', w). (k', if k' = k then v else w)) d) x =
    (if x = k then map_option (\<lambda>_. v) (map_of d x) else map_of d x)"
  by (induction d) auto

lemma map_of_dict_put [simp]: "map_of (dict_put k v d) = (map_of d)(k \<mapsto> v)"
proof (rule ext)
  fix x
  show "map_of (dict_put k v d) x = ((map_of d)(k \<mapsto> v)) x"
  proof (cases "k \<in> set (map fst d)")
    case True
    then have "map_of d k \<noteq> None" by (simp add: map_of_eq_None_iff)
    then show ?thesis using True unfolding dict_put_def by (auto simp: map_of_replace)
  next
    case False
    then have "map_of d k = None" by (simp add: map_of_eq_None_iff)
    then show ?thesis using False by (auto simp: dict_put_def map_add_def split: option.split)
  qed
qed

section \<open>Rows of equal width\<close>

definition rows_shape :: "nat \<Rightarrow> nat \<Rightarrow> 'a list list \<Rightarrow> bool" where
  "rows_shape g m rows \<longleftrightarrow> length rows = m \<and> (\<forall>r \<in> set rows. length r = g)"

lemma rows_shape_concat: "rows_shape g m rows \<Longrightarrow> length (concat rows) = m * g"
proof (induction rows arbitrary: m)
  case (Cons r rows)
  from Cons.prems obtain k where "m = Suc k" "rows_shape g k rows" by (cases m) (auto simp: rows_shape_def)
  with Cons show ?case by (simp add: rows_shape_def)
qed (simp add: rows_shape_def)

lemma concat_row_op:
  assumes "rows_shape g m xs" and "rows_shape g m ys"
  shows "concat (map2 (map2 f) xs ys) = map2 f (concat xs) (concat ys)" and "rows_shape g m (map2 (map2 f) xs ys)"
proof -
  have "length xs = length ys" using assms by (simp add: rows_shape_def)
  then show "concat (map2 (map2 f) xs ys) = map2 f (concat xs) (concat ys)"
    using assms unfolding rows_shape_def
    by (induction xs ys arbitrary: m rule: list_induct2) (auto simp: zip_append)
  show "rows_shape g m (map2 (map2 f) xs ys)"
    using assms by (auto simp: rows_shape_def in_set_zip)
qed

lemma blocks_of_map2:
  assumes "0 < k" and "length xs = length ys"
  shows "blocks_of k (map2 f xs ys) = map2 (map2 f) (blocks_of k xs) (blocks_of k ys)"
  using assms(2)
proof (induction xs arbitrary: ys rule: length_induct)
  case (1 xs)
  show ?case
  proof (cases "xs = []")
    case False
    then have ys: "ys \<noteq> []" using 1(2) by auto
    have "length (drop k xs) < length xs" "length (drop k xs) = length (drop k ys)" using False ys assms(1) 1(2) by (simp_all add: length_greater_0_conv [symmetric] del: length_greater_0_conv)
    then have IH: "blocks_of k (map2 f (drop k xs) (drop k ys)) = map2 (map2 f) (blocks_of k (drop k xs)) (blocks_of k (drop k ys))"
      using 1(1) by blast
    have step: "blocks_of k zs = take k zs # blocks_of k (drop k zs)" if "zs \<noteq> []" for zs :: "'z list"
      using that assms(1) by (subst blocks_of.simps) simp
    show ?thesis using IH False ys 1(2) step [of xs] step [of ys] step [of "map2 f xs ys"]
      by (simp add: take_map drop_map take_zip drop_zip)
  qed (use 1(2) in simp)
qed

end
