(* ===== verification/Bytes.thy ===== *)
theory Bytes
  imports Prelude "HOL-Library.Word"
begin

text \<open>
  Byte strings and the little-endian integers the file formats are made of: what
  \<open>struct.pack\<close>/\<open>struct.unpack\<close> with \<open>"<"\<close> formats and the \<open>tobytes\<close> of a
  little-endian numpy array write, and what \<open>np.frombuffer\<close> reads back.
\<close>

type_synonym byte = "8 word"

text \<open>The \<open>k\<close> low bytes of \<open>v\<close>, least significant first.\<close>

fun le_bytes :: "nat \<Rightarrow> nat \<Rightarrow> byte list" where
  "le_bytes 0 v = []"
| "le_bytes (Suc k) v = word_of_nat v # le_bytes k (v div 256)"

fun le_val :: "byte list \<Rightarrow> nat" where
  "le_val [] = 0"
| "le_val (b # bs) = unat b + 256 * le_val bs"

lemma length_le_bytes [simp]: "length (le_bytes k v) = k"
  by (induction k arbitrary: v) simp_all

lemma unat_byte: "unat (word_of_nat v :: byte) = v mod 256"
  by (simp add: unat_of_nat)

lemma le_val_le_bytes_mod: "le_val (le_bytes k v) = v mod 256 ^ k"
proof (induction k arbitrary: v)
  case 0
  show ?case by simp
next
  case (Suc k)
  have "v mod (256 * 256 ^ k) = 256 * (v div 256 mod 256 ^ k) + v mod 256"
    by (rule mod_mult2_eq)
  with Suc show ?case by (simp add: unat_byte)
qed

lemma le_val_le_bytes: "v < 256 ^ k \<Longrightarrow> le_val (le_bytes k v) = v"
  by (simp add: le_val_le_bytes_mod)

lemma le_val_less: "le_val bs < 256 ^ length bs"
proof (induction bs)
  case (Cons b bs)
  have "unat b < 256" using unsigned_less [of b] by simp
  with Cons show ?case by simp
qed simp

lemma le_bytes_le_val: "le_bytes (length bs) (le_val bs) = bs"
proof (induction bs)
  case (Cons b bs)
  have "unat b < 256" using unsigned_less [of b] by simp
  moreover have "word_of_nat (unat b + 256 * le_val bs) = b"
    using calculation by (simp add: word_unat_eq_iff unat_byte del: of_nat_add of_nat_mult)
  ultimately show ?case using Cons by simp
qed simp

text \<open>A numpy array of \<open>k\<close>-byte unsigned integers as its bytes, and back.\<close>

definition array_bytes :: "nat \<Rightarrow> nat list \<Rightarrow> byte list" where
  "array_bytes k vs = concat (map (le_bytes k) vs)"

definition array_of_bytes :: "nat \<Rightarrow> byte list \<Rightarrow> nat list" where
  "array_of_bytes k bs = map le_val (blocks_of k bs)"

lemma length_array_bytes [simp]: "length (array_bytes k vs) = k * length vs"
  by (induction vs) (simp_all add: array_bytes_def)

lemma array_bytes_Nil [simp]: "array_bytes k [] = []"
  by (simp add: array_bytes_def)

lemma array_bytes_Cons [simp]: "array_bytes k (v # vs) = le_bytes k v @ array_bytes k vs"
  by (simp add: array_bytes_def)

lemma array_bytes_append [simp]:
  "array_bytes k (vs @ ws) = array_bytes k vs @ array_bytes k ws"
  by (simp add: array_bytes_def)

lemma array_roundtrip_mod:
  assumes "0 < k"
  shows "array_of_bytes k (array_bytes k vs) = map (\<lambda>v. v mod 256 ^ k) vs"
proof -
  have "blocks_of k (array_bytes k vs) = map (le_bytes k) vs"
    unfolding array_bytes_def using assms by (intro blocks_of_concat) auto
  then show ?thesis
    by (simp add: array_of_bytes_def le_val_le_bytes_mod)
qed

lemma array_roundtrip:
  assumes "0 < k" and "\<forall>v \<in> set vs. v < 256 ^ k"
  shows "array_of_bytes k (array_bytes k vs) = vs"
proof -
  have "map (\<lambda>v. v mod 256 ^ k) vs = map (\<lambda>v. v) vs"
    using assms(2) by (intro map_cong) auto
  then show ?thesis using assms(1) by (simp add: array_roundtrip_mod)
qed

end
