(* ===== verification/Rans.thy ===== *)
theory Rans
  imports Bytes
begin

unbundle bit_operations_syntax

text \<open>
  \<open>orka/quant/ans.py\<close>: the static range-ANS coder for quantization indices: the
  frequency table, the scalar reference coder, the interleaved (batched) coder, and the
  self-contained blob around it.

  Coder states and words are Python or int64 integers, hence \<open>int\<close>; the batched coder's
  states stay below \<open>2 ^ 32\<close> (lemma \<open>enc_step_range\<close>), so int64 never wraps. A renormalisation
  loop that would not end is the error \<open>Diverges\<close>; reads outside an array are
  \<open>IndexError\<close>.
\<close>

section \<open>Data\<close>

definition RANS_L :: int where "RANS_L = push_bit 16 1"
definition RENORM_BITS :: nat where "RENORM_BITS = 16"
definition RENORM_MASK :: int where "RENORM_MASK = push_bit RENORM_BITS 1 - 1"

datatype rans_error =
    BadPrecision | FreqTooLarge | NotRansBlob | StructError | ZeroDivision | BadIndex | Diverges

section \<open>The frequency table\<close>

text \<open>
  \<open>rnd h M n\<close> stands for \<open>np.round(h * (M / n))\<close>, a floating-point computation: the
  table's properties hold for whatever integer it returns.
\<close>

definition n_symbols :: "nat list \<Rightarrow> nat" where
  "n_symbols symbols = (if symbols = [] then 1 else fold max symbols 0 + 1)"

definition bincount :: "nat list \<Rightarrow> nat \<Rightarrow> nat list" where
  "bincount symbols minlength = map (count_list symbols) [0..<max minlength (n_symbols symbols)]"

definition scaled_freq :: "(nat \<Rightarrow> nat \<Rightarrow> nat \<Rightarrow> int) \<Rightarrow> nat \<Rightarrow> nat list \<Rightarrow> int list" where
  "scaled_freq rnd M hist =
     map (\<lambda>h. if 0 < h then max 1 (rnd h M (sum_list hist)) else 0) hist"

definition fix_total :: "nat \<Rightarrow> nat list \<Rightarrow> int list \<Rightarrow> int list" where
  "fix_total M hist freq =
     (let diff = int M - sum_list freq
      in if diff \<noteq> 0 then
           (let j = argmax freq; freq1 = freq[j := freq ! j + diff]
            in if freq1 ! j < 1 then
                 (let freq2 = map2 (\<lambda>h f. if 0 < h then 1 else f) hist freq1; m = argmax hist
                  in freq2[m := freq2 ! m + (int M - sum_list freq2)])
               else freq1)
         else freq)"

fun cumsum :: "int \<Rightarrow> int list \<Rightarrow> int list" where
  "cumsum a [] = []"
| "cumsum a (x # xs) = (a + x) # cumsum (a + x) xs"

definition build_freq_table ::
  "(nat \<Rightarrow> nat \<Rightarrow> nat \<Rightarrow> int) \<Rightarrow> nat list \<Rightarrow> nat \<Rightarrow> rans_error + int list \<times> int list \<times> nat" where
  "build_freq_table rnd symbols precision =
     (if precision < 1 \<or> 16 < precision then Inl BadPrecision
      else
        (let M = push_bit precision 1;
             n_sym = n_symbols symbols;
             hist = bincount symbols n_sym;
             freq = fix_total M hist (scaled_freq rnd M hist);
             cum = 0 # cumsum 0 freq
         in Inr (freq, cum, n_sym)))"

text \<open>\<open>lut[start:c] = s\<close> with Python's slice bounds.\<close>

definition fill_slice :: "'a list \<Rightarrow> int \<Rightarrow> int \<Rightarrow> 'a \<Rightarrow> 'a list" where
  "fill_slice xs start stop v =
     (let a = py_slice_ix (length xs) start; b = py_slice_ix (length xs) stop
      in map (\<lambda>i. if a \<le> i \<and> i < b then v else xs ! i) [0..<length xs])"

fun fill_lut :: "int list \<Rightarrow> int \<Rightarrow> nat \<Rightarrow> int list \<Rightarrow> int list" where
  "fill_lut lut start s [] = lut"
| "fill_lut lut start s (c # cs) = fill_lut (fill_slice lut start c (int s)) c (Suc s) cs"

definition slot_to_symbol :: "int list \<Rightarrow> nat \<Rightarrow> int list" where
  "slot_to_symbol freq precision = fill_lut (replicate (push_bit precision 1) 0) 0 0 (cumsum 0 freq)"

section \<open>The scalar reference coder\<close>

text \<open>\<open>while x >= x_max: out.append(x & MASK); x >>= 16\<close>; \<open>None\<close> when the loop never ends.\<close>

partial_function (option) renorm_emit :: "int \<Rightarrow> int \<Rightarrow> int list \<Rightarrow> (int \<times> int list) option" where
  "renorm_emit x_max x out =
     (if x \<ge> x_max then renorm_emit x_max (drop_bit RENORM_BITS x) (out @ [x AND RENORM_MASK])
      else Some (x, out))"

definition encode_symbol ::
  "int list \<Rightarrow> int list \<Rightarrow> nat \<Rightarrow> int \<times> int list \<Rightarrow> nat \<Rightarrow> rans_error + int \<times> int list" where
  "encode_symbol freq cum precision st s =
     (case st of (x, out) \<Rightarrow>
        if s \<ge> length freq \<or> s \<ge> length cum then Inl BadIndex
        else
          (let f = freq ! s; x_max = push_bit RENORM_BITS (drop_bit precision RANS_L) * f
           in case renorm_emit x_max x out of
                None \<Rightarrow> Inl Diverges
              | Some (x', out') \<Rightarrow>
                  if f = 0 then Inl ZeroDivision
                  else Inr (push_bit precision (x' div f) + x' mod f + cum ! s, out')))"

definition rans_encode_scalar ::
  "nat list \<Rightarrow> int list \<Rightarrow> int list \<Rightarrow> nat \<Rightarrow> rans_error + int list" where
  "rans_encode_scalar symbols freq cum precision =
     bind_err (foldM (encode_symbol freq cum precision) (RANS_L, []) (rev symbols))
       (\<lambda>(x, out). Inr (out @ [x AND RENORM_MASK, drop_bit RENORM_BITS x AND RENORM_MASK]))"

text \<open>
  The decoder's refill loop \<open>while x < RANS_L\<close> reads one word per round and goes down the
  word list, so it ends with a state or with \<open>IndexError\<close>.
\<close>

function refill :: "int list \<Rightarrow> int \<Rightarrow> int \<Rightarrow> rans_error + int \<times> int" where
  "refill words x pos =
     (if x < RANS_L then
        (case py_get BadIndex words pos of
           Inl e \<Rightarrow> Inl e
         | Inr w \<Rightarrow> refill words (push_bit RENORM_BITS x OR w) (pos - 1))
      else Inr (x, pos))"
  by pat_completeness auto
termination
  by (relation "measure (\<lambda>(words, x, pos). nat (pos + int (length words) + 1))")
     (auto simp: py_get_def Let_def split: if_splits)

declare refill.simps [simp del]

definition decode_symbol ::
  "int list \<Rightarrow> int list \<Rightarrow> int list \<Rightarrow> int list \<Rightarrow> nat \<Rightarrow> int \<times> int
    \<Rightarrow> rans_error + int \<times> int \<times> int" where
  "decode_symbol words freq cum lut precision st =
     (case st of (x, pos) \<Rightarrow>
        (let mask = push_bit precision 1 - 1; slot = x AND mask
         in bind_err (py_get BadIndex lut slot) (\<lambda>s.
            bind_err (py_get BadIndex freq s) (\<lambda>f.
            bind_err (py_get BadIndex cum s) (\<lambda>c.
            bind_err (refill words (f * drop_bit precision x + slot - c) pos)
              (\<lambda>(x', pos'). Inr (s, x', pos')))))))"

definition rans_decode_scalar ::
  "int list \<Rightarrow> int list \<Rightarrow> int list \<Rightarrow> int list \<Rightarrow> nat \<Rightarrow> nat \<Rightarrow> rans_error + int list" where
  "rans_decode_scalar words freq cum lut n precision =
     (let pos = int (length words) - 1
      in bind_err (py_get BadIndex words pos) (\<lambda>hi.
         bind_err (py_get BadIndex words (pos - 1)) (\<lambda>lo.
         bind_err (repeatM n (decode_symbol words freq cum lut precision)
                     (push_bit RENORM_BITS hi OR lo, pos - 2))
           (\<lambda>(out, _). Inr out))))"

section \<open>The interleaved coder\<close>

text \<open>
  Every tensor operation of the batched loops acts on each of the \<open>K\<close> streams on its own,
  so a batch is the list of its lanes: the state, the output row of \<open>maxw\<close> words and the
  write position of one stream.
\<close>

record lane =
  lane_x :: int
  lane_out :: "int list"
  lane_wpos :: nat

definition lane_emit :: "int \<Rightarrow> lane \<Rightarrow> rans_error + lane" where
  "lane_emit x_max l =
     (if lane_x l \<ge> x_max then
        (if lane_wpos l \<ge> length (lane_out l) then Inl BadIndex
         else Inr (l\<lparr>lane_out := (lane_out l)[lane_wpos l := lane_x l AND RENORM_MASK],
                     lane_wpos := lane_wpos l + 1,
                     lane_x := drop_bit RENORM_BITS (lane_x l)\<rparr>))
      else Inr l)"

definition lane_encode_symbol ::
  "int list \<Rightarrow> int list \<Rightarrow> nat \<Rightarrow> lane \<Rightarrow> nat \<Rightarrow> rans_error + lane" where
  "lane_encode_symbol freq cum precision l s =
     (if s \<ge> length freq \<or> s \<ge> length cum then Inl BadIndex
      else
        (let f = freq ! s; c = cum ! s;
             base = push_bit RENORM_BITS (drop_bit precision RANS_L)
         in bind_err (lane_emit (base * f) l)
              (\<lambda>l'. if f = 0 then Inl ZeroDivision
                    else Inr (l'\<lparr>lane_x := push_bit precision (lane_x l' div f)
                                             + lane_x l' mod f + c\<rparr>))))"

definition lane_flush_word :: "lane \<Rightarrow> rans_error + lane" where
  "lane_flush_word l =
     (if lane_wpos l \<ge> length (lane_out l) then Inl BadIndex
      else Inr (l\<lparr>lane_out := (lane_out l)[lane_wpos l := lane_x l AND RENORM_MASK],
                  lane_wpos := lane_wpos l + 1,
                  lane_x := drop_bit RENORM_BITS (lane_x l)\<rparr>))"

definition lane_encode ::
  "int list \<Rightarrow> int list \<Rightarrow> nat \<Rightarrow> nat list \<Rightarrow> rans_error + lane" where
  "lane_encode freq cum precision stream =
     (let maxw = length stream + 2;
          l = \<lparr>lane_x = RANS_L, lane_out = replicate maxw 0, lane_wpos = 0\<rparr>
      in bind_err (foldM (lane_encode_symbol freq cum precision) l (rev stream)) (\<lambda>l1.
         bind_err (lane_flush_word l1) lane_flush_word))"

text \<open>\<open>cum[:-1] if cum.shape[0] == freq.shape[0] + 1 else cum\<close>\<close>

definition trim_cum :: "int list \<Rightarrow> int list \<Rightarrow> int list" where
  "trim_cum freq cum = (if length cum = length freq + 1 then butlast cum else cum)"

definition stream_of :: "nat list \<Rightarrow> nat \<Rightarrow> nat \<Rightarrow> nat \<Rightarrow> nat list" where
  "stream_of symb K L_s k = map (\<lambda>t. symb ! (t * K + k)) [0..<L_s]"

definition rans_encode_gpu ::
  "nat list \<Rightarrow> int list \<Rightarrow> int list \<Rightarrow> nat \<Rightarrow> nat
    \<Rightarrow> rans_error + int list list \<times> nat list \<times> nat \<times> nat" where
  "rans_encode_gpu symbols freq cum precision K =
     (if K = 0 then Inl ZeroDivision
      else
        (let n = length symbols; L_s = (n + K - 1) div K; pad = L_s * K - n;
             symb = symbols @ replicate pad (argmax freq);
             cum_t = trim_cum freq cum
         in bind_err (mapM (\<lambda>k. lane_encode freq cum_t precision (stream_of symb K L_s k)) [0..<K])
              (\<lambda>lanes. Inr (map lane_out lanes, map lane_wpos lanes, n, L_s))))"

definition lane_refill :: "int list \<Rightarrow> int \<Rightarrow> int \<Rightarrow> rans_error + int \<times> int" where
  "lane_refill row x rpos =
     (if x < RANS_L then
        bind_err (py_get BadIndex row rpos) (\<lambda>w. Inr (push_bit RENORM_BITS x OR w, rpos - 1))
      else Inr (x, rpos))"

definition lane_decode_symbol ::
  "int list \<Rightarrow> int list \<Rightarrow> int list \<Rightarrow> int list \<Rightarrow> nat \<Rightarrow> int \<times> int
    \<Rightarrow> rans_error + int \<times> int \<times> int" where
  "lane_decode_symbol row freq cum lut precision st =
     (case st of (x, rpos) \<Rightarrow>
        (let mask = push_bit precision 1 - 1; slot = x AND mask
         in bind_err (py_get BadIndex lut slot) (\<lambda>s.
            bind_err (py_get BadIndex freq s) (\<lambda>f.
            bind_err (py_get BadIndex cum s) (\<lambda>c.
            bind_err (lane_refill row (f * drop_bit precision x + slot - c) rpos)
              (\<lambda>(x', rpos'). Inr (s, x', rpos')))))))"

definition lane_decode ::
  "int list \<Rightarrow> int list \<Rightarrow> int list \<Rightarrow> nat \<Rightarrow> nat \<Rightarrow> int list \<Rightarrow> int \<Rightarrow> rans_error + int list" where
  "lane_decode freq cum lut precision L_s row wpos =
     bind_err (py_get BadIndex row (wpos - 1)) (\<lambda>hi.
     bind_err (py_get BadIndex row (wpos - 2)) (\<lambda>lo.
     bind_err (repeatM L_s (lane_decode_symbol row freq cum lut precision)
                 (push_bit RENORM_BITS hi OR lo, wpos - 3))
       (\<lambda>(out, _). Inr out)))"

definition interleave :: "int list list \<Rightarrow> nat \<Rightarrow> nat \<Rightarrow> int list" where
  "interleave streams K L_s = concat (map (\<lambda>t. map (\<lambda>k. streams ! k ! t) [0..<K]) [0..<L_s])"

definition rans_decode_gpu ::
  "int list list \<Rightarrow> int list \<Rightarrow> int list \<Rightarrow> int list \<Rightarrow> int list \<Rightarrow> nat \<Rightarrow> nat \<Rightarrow> nat \<Rightarrow> nat
    \<Rightarrow> rans_error + int list" where
  "rans_decode_gpu rows wpos freq cum lut n L_s precision K =
     bind_err (mapM (\<lambda>k. lane_decode freq (trim_cum freq cum) lut precision L_s (rows ! k) (wpos ! k))
                [0..<K])
       (\<lambda>streams. Inr (take n (interleave streams K L_s)))"

section \<open>The blob\<close>

definition MAGIC :: "byte list" where
  "MAGIC = [0x72, 0x41, 0x4E, 0x53]"

definition auto_K :: "nat \<Rightarrow> nat" where
  "auto_K n = max 64 (min 16384 (n div 512))"

definition auto_precision :: "nat \<Rightarrow> nat" where
  "auto_precision n_sym = min 16 (max 12 (clog2 (max 2 n_sym) + 1))"

text \<open>\<open>struct.pack("<QIBI", n, K, precision, n_sym)\<close>\<close>

definition pack_header :: "nat \<Rightarrow> nat \<Rightarrow> nat \<Rightarrow> nat \<Rightarrow> rans_error + byte list" where
  "pack_header n K precision n_sym =
     (if n < 256 ^ 8 \<and> K < 256 ^ 4 \<and> precision < 256 \<and> n_sym < 256 ^ 4
      then Inr (le_bytes 8 n @ le_bytes 4 K @ le_bytes 1 precision @ le_bytes 4 n_sym)
      else Inl StructError)"

definition ans_compress ::
  "(nat \<Rightarrow> nat \<Rightarrow> nat \<Rightarrow> int) \<Rightarrow> nat list \<Rightarrow> nat option \<Rightarrow> nat option \<Rightarrow> rans_error + byte list" where
  "ans_compress rnd symb precision_arg K_arg =
     (let n = length symb;
          precision = (case precision_arg of Some p \<Rightarrow> p | None \<Rightarrow> auto_precision (n_symbols symb))
      in if n = 0 then bind_err (pack_header 0 0 precision 0) (\<lambda>h. Inr (MAGIC @ h))
         else
           (let K = (case K_arg of Some k \<Rightarrow> (if k = 0 then auto_K n else k) | None \<Rightarrow> auto_K n)
            in bind_err (build_freq_table rnd symb precision) (\<lambda>(freq, cum, n_sym).
               if Max (set freq) > 65535 then Inl FreqTooLarge
               else
                 bind_err (rans_encode_gpu symb freq cum precision K) (\<lambda>(out, wpos, n_ret, L_s).
                 (let words = concat (map2 take wpos out)
                  in bind_err (pack_header n K precision n_sym) (\<lambda>h.
                       Inr (MAGIC @ h @ array_bytes 2 (map (\<lambda>f. nat (f mod 65536)) freq)
                            @ array_bytes 4 wpos
                            @ array_bytes 2 (map (\<lambda>w. nat (w mod 65536)) words))))))))"

text \<open>\<open>np.frombuffer(blob, dtype=u<8k>, count=n, offset=off)\<close>: too short a buffer raises.\<close>

definition frombuffer :: "nat \<Rightarrow> nat \<Rightarrow> byte list \<Rightarrow> rans_error + nat list" where
  "frombuffer k n bs =
     (if k * n \<le> length bs then Inr (array_of_bytes k (take (k * n) bs)) else Inl StructError)"

definition offsets :: "nat list \<Rightarrow> nat list" where
  "offsets wpos = map (\<lambda>k. sum_list (take k wpos)) [0..<length wpos + 1]"

definition scatter_row :: "nat list \<Rightarrow> nat \<Rightarrow> nat \<Rightarrow> nat \<Rightarrow> rans_error + int list" where
  "scatter_row words maxw off w =
     (if off + w \<le> length words
      then Inr (map int (take w (drop off words)) @ replicate (maxw - w) 0)
      else Inl BadIndex)"

definition ans_decompress :: "byte list \<Rightarrow> rans_error + int list" where
  "ans_decompress blob =
     (if take 4 blob \<noteq> MAGIC then Inl NotRansBlob
      else if length blob < 21 then Inl StructError
      else
        (let n = le_val (take 8 (drop 4 blob)); K = le_val (take 4 (drop 12 blob));
             precision = le_val (take 1 (drop 16 blob)); n_sym = le_val (take 4 (drop 17 blob))
         in if n = 0 then Inr []
            else
              bind_err (frombuffer 2 n_sym (drop 21 blob)) (\<lambda>freq_u.
              bind_err (frombuffer 4 K (drop (21 + n_sym * 2) blob)) (\<lambda>wpos.
              (let rest = drop (21 + n_sym * 2 + K * 4) blob
               in if odd (length rest) \<or> wpos = [] then Inl StructError
                  else
                    (let words = array_of_bytes 2 rest; freq = map int freq_u;
                         cum = 0 # cumsum 0 freq; lut = slot_to_symbol freq precision;
                         maxw = Max (set wpos); offs = offsets wpos
                     in bind_err (mapM (\<lambda>k. scatter_row words maxw (offs ! k) (wpos ! k)) [0..<K])
                          (\<lambda>out. rans_decode_gpu out (map int wpos) freq cum lut n
                                   ((n + K - 1) div K) precision K))))))) "

section \<open>The arithmetic of one symbol\<close>

lemma RANS_L_eq [simp]: "RANS_L = 65536"
  by (simp add: RANS_L_def push_bit_eq_mult)

lemma and_renorm_mask [simp]: "x AND RENORM_MASK = x mod 65536"
proof -
  have "RENORM_MASK = mask 16"
    by (simp add: RENORM_MASK_def RENORM_BITS_def mask_eq_exp_minus_1 push_bit_eq_mult)
  then have "x AND RENORM_MASK = take_bit 16 x" by (simp only: take_bit_eq_mask)
  then show ?thesis by (simp add: take_bit_eq_mod)
qed

lemma push_renorm [simp]: "push_bit RENORM_BITS x = x * 65536"
  by (simp add: RENORM_BITS_def push_bit_eq_mult)

lemma drop_renorm [simp]: "drop_bit RENORM_BITS x = x div 65536"
  by (simp add: RENORM_BITS_def drop_bit_eq_div)

lemma shift_or_word:
  fixes x w :: int
  assumes "0 \<le> w" and "w < 65536"
  shows "x * 65536 OR w = x * 65536 + w"
proof -
  have "w = take_bit 16 w" using assms by (simp add: take_bit_eq_mod)
  then have "push_bit 16 x AND w = 0"
    by (metis (no_types, lifting) bit_eqI bit_and_iff bit_push_bit_iff bit_take_bit_iff
        bit_0_eq bot_apply bot_bool_def not_le)
  then have "push_bit 16 x OR w = push_bit 16 x + w" by (rule disjunctive_add_eq_or [symmetric])
  then show ?thesis by (simp add: push_bit_eq_mult)
qed

lemma and_mask_mod: "x AND (2 ^ p - 1 :: int) = x mod 2 ^ p"
proof -
  have "2 ^ p - 1 = (mask p :: int)" by (simp add: mask_eq_exp_minus_1)
  then have "x AND (2 ^ p - 1) = take_bit p x" by (simp only: take_bit_eq_mask)
  then show ?thesis by (simp add: take_bit_eq_mod)
qed

text \<open>
  One symbol of frequency \<open>f\<close> and start \<open>c\<close>: \<open>emit_state\<close> is the state after the
  renormalisation, \<open>put_state\<close> the state after the symbol. They are the specification the
  coders are compared with, not code of their own.
\<close>

definition x_limit :: "nat \<Rightarrow> int \<Rightarrow> int" where
  "x_limit p f = 65536 div 2 ^ p * 65536 * f"

definition emit_state :: "nat \<Rightarrow> int \<Rightarrow> int \<Rightarrow> int" where
  "emit_state p f x = (if x \<ge> x_limit p f then x div 65536 else x)"

definition emit_words :: "nat \<Rightarrow> int \<Rightarrow> int \<Rightarrow> int list" where
  "emit_words p f x = (if x \<ge> x_limit p f then [x mod 65536] else [])"

definition put_state :: "nat \<Rightarrow> int \<Rightarrow> int \<Rightarrow> int \<Rightarrow> int" where
  "put_state p f c x =
     (let x' = emit_state p f x in x' div f * 2 ^ p + x' mod f + c)"

definition state_ok :: "int \<Rightarrow> bool" where
  "state_ok x \<longleftrightarrow> 65536 \<le> x \<and> x < 4294967296"

definition freq_ok :: "nat \<Rightarrow> int \<Rightarrow> int \<Rightarrow> bool" where
  "freq_ok p f c \<longleftrightarrow> p \<le> 16 \<and> 1 \<le> f \<and> 0 \<le> c \<and> c + f \<le> 2 ^ p"

lemma quotient_times: "p \<le> 16 \<Longrightarrow> 65536 div 2 ^ p * 2 ^ p = (65536 :: int)"
proof -
  assume "p \<le> 16"
  then have "(2::int) ^ p dvd 2 ^ 16" by (rule le_imp_power_dvd)
  then show ?thesis by simp
qed

lemma quotient_pos: "p \<le> 16 \<Longrightarrow> 1 \<le> 65536 div (2 :: int) ^ p"
proof -
  assume p: "p \<le> 16"
  have "0 < 65536 div (2 :: int) ^ p"
  proof (rule ccontr)
    assume "\<not> 0 < 65536 div (2 :: int) ^ p"
    then have "65536 div (2 :: int) ^ p * 2 ^ p \<le> 0"
      by (simp add: mult_nonpos_nonneg)
    with quotient_times [OF p] show False by simp
  qed
  then show ?thesis by simp
qed

lemma x_limit_ge:
  assumes "freq_ok p f c"
  shows "65536 \<le> x_limit p f"
proof -
  have "1 * 65536 * 1 \<le> 65536 div 2 ^ p * 65536 * f"
    using assms quotient_pos [of p] by (intro mult_mono) (auto simp: freq_ok_def)
  then show ?thesis by (simp add: x_limit_def)
qed

lemma emit_state_bounds:
  assumes ok: "freq_ok p f c" and x: "state_ok x"
  shows "65536 div 2 ^ p * f \<le> emit_state p f x" and "emit_state p f x < x_limit p f"
proof -
  let ?q = "65536 div (2::int) ^ p"
  have "?q * f \<le> ?q * 2 ^ p"
    using ok quotient_pos [of p] by (intro mult_left_mono) (auto simp: freq_ok_def)
  then have small: "?q * f \<le> 65536" using ok quotient_times [of p] by (simp add: freq_ok_def)
  show "?q * f \<le> emit_state p f x"
  proof (cases "x \<ge> x_limit p f")
    case True
    then have "?q * f * 65536 \<le> x" by (simp add: x_limit_def algebra_simps)
    then have "?q * f \<le> x div 65536" by simp
    with True show ?thesis by (simp add: emit_state_def)
  next
    case False
    with small x show ?thesis by (simp add: emit_state_def state_ok_def)
  qed
  show "emit_state p f x < x_limit p f"
    using x x_limit_ge [OF ok] by (auto simp: emit_state_def state_ok_def)
qed

lemma put_state_parts:
  assumes ok: "freq_ok p f c" and x: "state_ok x"
  defines "x' \<equiv> emit_state p f x" and "y \<equiv> put_state p f c x"
  shows "y mod 2 ^ p = x' mod f + c" and "y div 2 ^ p = x' div f"
    and "f * (y div 2 ^ p) + y mod 2 ^ p - c = x'"
proof -
  have f: "0 < f" using ok by (simp add: freq_ok_def)
  then have r: "0 \<le> x' mod f" "x' mod f < f" by simp_all
  have rem: "0 \<le> x' mod f + c" "x' mod f + c < 2 ^ p" using ok r by (auto simp: freq_ok_def)
  have y: "y = (x' mod f + c) + x' div f * 2 ^ p"
    by (simp add: y_def x'_def put_state_def Let_def)
  show m: "y mod 2 ^ p = x' mod f + c" using rem by (simp add: y)
  show d: "y div 2 ^ p = x' div f" using rem by (simp add: y)
  show "f * (y div 2 ^ p) + y mod 2 ^ p - c = x'" by (simp add: m d)
qed

lemma put_state_ok:
  assumes ok: "freq_ok p f c" and x: "state_ok x"
  shows "state_ok (put_state p f c x)"
proof -
  let ?q = "65536 div (2::int) ^ p" and ?M = "(2::int) ^ p"
  let ?x = "emit_state p f x" and ?y = "put_state p f c x"
  have f: "0 < f" and p: "p \<le> 16" using ok by (auto simp: freq_ok_def)
  have "?q * f div f \<le> ?x div f"
    using emit_state_bounds(1) [OF ok x] f by (intro zdiv_mono1)
  then have lo: "?q \<le> ?x div f" using f by simp
  have hi: "?x div f < ?q * 65536"
  proof (rule ccontr)
    assume "\<not> ?x div f < ?q * 65536"
    then have "?q * 65536 * f \<le> ?x div f * f" using f by (intro mult_right_mono) auto
    also have "\<dots> \<le> ?x"
      using div_mult_mod_eq [of ?x f] pos_mod_sign [OF f, of ?x] by linarith
    finally show False using emit_state_bounds(2) [OF ok x] by (simp add: x_limit_def)
  qed
  have rem: "0 \<le> ?y mod ?M" "?y mod ?M < ?M" by simp_all
  have y: "?y = ?x div f * ?M + ?y mod ?M"
    using put_state_parts(2) [OF ok x] div_mult_mod_eq [of ?y ?M] by simp
  have "65536 = ?q * ?M" using quotient_times [OF p] by simp
  also have "\<dots> \<le> ?x div f * ?M" using lo by (intro mult_right_mono) auto
  finally have "65536 \<le> ?y" using y rem by linarith
  moreover have "?y < 4294967296"
  proof -
    have "(?x div f + 1) * ?M \<le> ?q * 65536 * ?M" using hi by (intro mult_right_mono) auto
    also have "\<dots> = 4294967296" using quotient_times [OF p] by (simp add: mult.commute mult.left_commute)
    finally have "?x div f * ?M + ?M \<le> 4294967296" by (simp only: distrib_right mult_1)
    with y rem(2) show ?thesis by linarith
  qed
  ultimately show ?thesis by (simp add: state_ok_def)
qed

lemma emit_state_small_iff:
  assumes "freq_ok p f c" and "state_ok x"
  shows "emit_state p f x < 65536 \<longleftrightarrow> x \<ge> x_limit p f"
  using assms by (auto simp: emit_state_def state_ok_def)

lemma refill_emitted:
  assumes "freq_ok p f c" and "state_ok x"
  shows "emit_state p f x < 65536 \<Longrightarrow> emit_state p f x * 65536 + x mod 65536 = x"
  using assms by (auto simp: emit_state_def state_ok_def)

section \<open>The coders, one symbol at a time\<close>

lemma renorm_emit_once:
  assumes "0 < x_max" and "x < 65536 * x_max"
  shows "renorm_emit x_max x out =
    Some (if x \<ge> x_max then (x div 65536, out @ [x mod 65536]) else (x, out))"
proof (cases "x \<ge> x_max")
  case True
  have "\<not> x_max \<le> x div 65536" using assms by linarith
  with True show ?thesis by (simp add: renorm_emit.simps)
next
  case False
  then show ?thesis by (simp add: renorm_emit.simps)
qed

definition table_ok :: "int list \<Rightarrow> int list \<Rightarrow> int list \<Rightarrow> nat \<Rightarrow> nat \<Rightarrow> bool" where
  "table_ok freq cum lut p s \<longleftrightarrow>
     s < length freq \<and> s < length cum \<and> freq_ok p (freq ! s) (cum ! s) \<and>
     length lut = 2 ^ p \<and>
     (\<forall>i. cum ! s \<le> int i \<and> int i < cum ! s + freq ! s \<longrightarrow> lut ! i = int s)"

lemma encode_symbol_eq:
  assumes t: "table_ok freq cum lut p s" and x: "state_ok x"
  shows "encode_symbol freq cum p (x, out) s =
    Inr (put_state p (freq ! s) (cum ! s) x, out @ emit_words p (freq ! s) x)"
proof -
  let ?f = "freq ! s" and ?c = "cum ! s"
  have ok: "freq_ok p ?f ?c" using t by (simp add: table_ok_def)
  have lim: "push_bit RENORM_BITS (drop_bit p RANS_L) * ?f = x_limit p ?f"
    by (simp add: drop_bit_eq_div x_limit_def)
  have "x < 65536 * x_limit p ?f" and "0 < x_limit p ?f"
    using x x_limit_ge [OF ok] by (auto simp: state_ok_def)
  then have "renorm_emit (x_limit p ?f) x out =
      Some (emit_state p ?f x, out @ emit_words p ?f x)"
    by (simp add: renorm_emit_once emit_state_def emit_words_def)
  moreover have "?f \<noteq> 0" using ok by (auto simp: freq_ok_def)
  ultimately show ?thesis
    using t unfolding encode_symbol_def Let_def prod.case lim
    by (simp add: table_ok_def put_state_def Let_def push_bit_eq_mult)
qed

lemma emit_words_range: "w \<in> set (emit_words p f x) \<Longrightarrow> 0 \<le> w \<and> w < 65536"
  by (cases "x \<ge> x_limit p f") (simp_all add: emit_words_def)

text \<open>
  The words written so far are the decoder's stack: reading at position \<open>length out - 1\<close>
  takes the word that was appended last.
\<close>

lemma refill_emit_words:
  assumes ok: "freq_ok p f c" and x: "state_ok x"
  shows "refill (out @ emit_words p f x @ rest) (emit_state p f x)
           (int (length (out @ emit_words p f x)) - 1) = Inr (x, int (length out) - 1)"
proof (cases "x \<ge> x_limit p f")
  case True
  then have small: "emit_state p f x < 65536"
    using emit_state_small_iff [OF ok x] by simp
  have w: "0 \<le> x mod 65536" "x mod 65536 < 65536" by simp_all
  have get: "py_get BadIndex (out @ emit_words p f x @ rest) (int (length out)) = Inr (x mod 65536)"
    using True by (simp add: emit_words_def)
  have st: "push_bit RENORM_BITS (emit_state p f x) OR x mod 65536 = x"
    using refill_emitted [OF ok x small] shift_or_word [OF w, of "emit_state p f x"] by simp
  have big: "\<not> x < 65536" using x by (simp add: state_ok_def)
  have "refill (out @ emit_words p f x @ rest) (emit_state p f x) (int (length out)) =
    Inr (x, int (length out) - 1)"
    using small big st
    by (subst refill.simps) (simp add: get refill.simps [of _ x])
  with True show ?thesis by (simp add: emit_words_def)
next
  case False
  then have "\<not> emit_state p f x < 65536" and "emit_state p f x = x"
    using emit_state_small_iff [OF ok x] by (auto simp: emit_state_def)
  with False show ?thesis by (simp add: emit_words_def refill.simps)
qed

lemma put_state_slot:
  assumes t: "table_ok freq cum lut p s" and x: "state_ok x"
  defines "y \<equiv> put_state p (freq ! s) (cum ! s) x"
  shows "py_get BadIndex lut (y mod 2 ^ p) = Inr (int s)"
    and "freq ! s * (y div 2 ^ p) + y mod 2 ^ p - cum ! s = emit_state p (freq ! s) x"
proof -
  let ?f = "freq ! s" and ?c = "cum ! s" and ?M = "(2::int) ^ p"
  have ok: "freq_ok p ?f ?c" and len: "length lut = 2 ^ p"
    using t by (auto simp: table_ok_def)
  have f: "0 < ?f" using ok by (simp add: freq_ok_def)
  have slot: "y mod ?M = emit_state p ?f x mod ?f + ?c"
    unfolding y_def by (rule put_state_parts(1) [OF ok x])
  have range: "0 \<le> y mod ?M" "y mod ?M < ?M" by simp_all
  have span: "?c \<le> y mod ?M" "y mod ?M < ?c + ?f"
    using f by (simp_all add: slot)
  have "lut ! nat (y mod ?M) = int s"
    using t range span by (simp add: table_ok_def)
  then show "py_get BadIndex lut (y mod ?M) = Inr (int s)"
    using range len by (subst py_get_nonneg) simp_all
  show "?f * (y div ?M) + y mod ?M - ?c = emit_state p ?f x"
    unfolding y_def by (rule put_state_parts(3) [OF ok x])
qed

lemma decode_symbol_put:
  assumes t: "table_ok freq cum lut p s" and x: "state_ok x"
  defines "ws \<equiv> emit_words p (freq ! s) x"
  shows "decode_symbol (out @ ws @ rest) freq cum lut p
           (put_state p (freq ! s) (cum ! s) x, int (length (out @ ws)) - 1)
         = Inr (int s, x, int (length out) - 1)"
  using t x put_state_slot [OF t x] refill_emit_words [OF _ x, of p "freq ! s" "cum ! s" out rest]
  by (simp add: decode_symbol_def and_mask_mod drop_bit_eq_div py_get_nat ws_def table_ok_def)

lemma lane_refill_emit_words:
  assumes ok: "freq_ok p f c" and x: "state_ok x"
  shows "lane_refill (out @ emit_words p f x @ rest) (emit_state p f x)
           (int (length (out @ emit_words p f x)) - 1) = Inr (x, int (length out) - 1)"
proof (cases "x \<ge> x_limit p f")
  case True
  then have small: "emit_state p f x < 65536"
    using emit_state_small_iff [OF ok x] by simp
  have w: "0 \<le> x mod 65536" "x mod 65536 < 65536" by simp_all
  have "emit_state p f x * 65536 OR x mod 65536 = x"
    using refill_emitted [OF ok x small] shift_or_word [OF w, of "emit_state p f x"] by simp
  with True small show ?thesis by (simp add: emit_words_def lane_refill_def)
next
  case False
  then have "\<not> emit_state p f x < 65536" and "emit_state p f x = x"
    using emit_state_small_iff [OF ok x] by (auto simp: emit_state_def)
  with False show ?thesis by (simp add: emit_words_def lane_refill_def)
qed

lemma lane_decode_symbol_put:
  assumes t: "table_ok freq cum lut p s" and x: "state_ok x"
  defines "ws \<equiv> emit_words p (freq ! s) x"
  shows "lane_decode_symbol (out @ ws @ rest) freq cum lut p
           (put_state p (freq ! s) (cum ! s) x, int (length (out @ ws)) - 1)
         = Inr (int s, x, int (length out) - 1)"
  using t x put_state_slot [OF t x] lane_refill_emit_words [OF _ x, of p "freq ! s" "cum ! s" out rest]
  by (simp add: lane_decode_symbol_def and_mask_mod drop_bit_eq_div py_get_nat ws_def table_ok_def)

section \<open>The interface of a stack coder\<close>

text \<open>
  Both coders are stacks: encoding pushes symbols in reverse, decoding pops them. What the
  decoding loop relies on is that a push succeeds and that the pop on any medium holding the
  words written so far gives the symbol and the state before the push. Everything about whole
  symbol sequences follows from these two laws.
\<close>

locale stack_coder =
  fixes push :: "'t \<Rightarrow> 's \<Rightarrow> 'a \<Rightarrow> 'e + 's"
    and pop :: "'t \<Rightarrow> 'm \<Rightarrow> 'd \<Rightarrow> 'e + 'b \<times> 'd"
    and view :: "'s \<Rightarrow> 'd"
    and fits :: "'s \<Rightarrow> 'm \<Rightarrow> bool"
    and val :: "'a \<Rightarrow> 'b"
    and inv :: "'s \<Rightarrow> bool"
    and ok :: "'t \<Rightarrow> 'a \<Rightarrow> bool"
  assumes push_total: "ok t a \<Longrightarrow> inv s \<Longrightarrow> \<exists>s'. push t s a = Inr s' \<and> inv s'"
    and pop_push: "ok t a \<Longrightarrow> inv s \<Longrightarrow> push t s a = Inr s' \<Longrightarrow> fits s' m \<Longrightarrow>
      fits s m \<and> pop t m (view s') = Inr (val a, view s)"
begin

lemma run_total:
  assumes "\<forall>a \<in> set as. ok t a" and "inv s"
  shows "\<exists>s'. foldM (push t) s as = Inr s' \<and> inv s'"
  using assms
proof (induction as arbitrary: s)
  case Nil
  then show ?case by simp
next
  case (Cons a as)
  then obtain s1 where "push t s a = Inr s1" "inv s1" using push_total by fastforce
  with Cons show ?case by simp
qed

lemma run_roundtrip:
  assumes "\<forall>a \<in> set as. ok t a" and "inv s"
    and "foldM (push t) s (rev as) = Inr s'" and "fits s' m"
  shows "fits s m \<and> repeatM (length as) (pop t m) (view s') = Inr (map val as, view s)"
  using assms
proof (induction as arbitrary: s')
  case Nil
  then show ?case by simp
next
  case (Cons a as)
  obtain s1 where s1: "foldM (push t) s (rev as) = Inr s1" "inv s1"
    using Cons.prems(1,2) run_total [of "rev as" t s] by auto
  have push: "push t s1 a = Inr s'"
    using Cons.prems(3) s1(1) by (auto simp: foldM_append bind_err_eq_Inr)
  have step: "fits s1 m" "pop t m (view s') = Inr (val a, view s1)"
    using pop_push [OF _ s1(2) push Cons.prems(4)] Cons.prems(1) by auto
  then have "fits s m \<and> repeatM (length as) (pop t m) (view s1) = Inr (map val as, view s)"
    using Cons.IH [OF _ Cons.prems(2) s1(1)] Cons.prems(1) by simp
  with step show ?case by simp
qed

end

text \<open>The scalar coder is a stack coder over its word list.\<close>

type_synonym table = "int list \<times> int list \<times> int list \<times> nat"

definition push_scalar :: "table \<Rightarrow> int \<times> int list \<Rightarrow> nat \<Rightarrow> rans_error + int \<times> int list" where
  "push_scalar t = (case t of (freq, cum, lut, p) \<Rightarrow> encode_symbol freq cum p)"

definition pop_scalar :: "table \<Rightarrow> int list \<Rightarrow> int \<times> int \<Rightarrow> rans_error + int \<times> int \<times> int" where
  "pop_scalar t words = (case t of (freq, cum, lut, p) \<Rightarrow> decode_symbol words freq cum lut p)"

definition pop_lane :: "table \<Rightarrow> int list \<Rightarrow> int \<times> int \<Rightarrow> rans_error + int \<times> int \<times> int" where
  "pop_lane t row = (case t of (freq, cum, lut, p) \<Rightarrow> lane_decode_symbol row freq cum lut p)"

definition view_top :: "int \<times> int list \<Rightarrow> int \<times> int" where
  "view_top st = (case st of (x, out) \<Rightarrow> (x, int (length out) - 1))"

definition in_words :: "int \<times> int list \<Rightarrow> int list \<Rightarrow> bool" where
  "in_words st words = prefix (snd st) words"

definition coder_inv :: "int \<times> int list \<Rightarrow> bool" where
  "coder_inv st \<longleftrightarrow> state_ok (fst st) \<and> (\<forall>w \<in> set (snd st). 0 \<le> w \<and> w < 65536)"

definition table_symbol_ok :: "table \<Rightarrow> nat \<Rightarrow> bool" where
  "table_symbol_ok t s = (case t of (freq, cum, lut, p) \<Rightarrow> table_ok freq cum lut p s)"

lemma push_scalar_eq:
  assumes "table_symbol_ok (freq, cum, lut, p) s" and "coder_inv (x, out)"
  shows "push_scalar (freq, cum, lut, p) (x, out) s =
    Inr (put_state p (freq ! s) (cum ! s) x, out @ emit_words p (freq ! s) x)"
  using assms by (simp add: push_scalar_def table_symbol_ok_def coder_inv_def encode_symbol_eq)

lemma push_scalar_total:
  assumes "table_symbol_ok t s" and "coder_inv st"
  shows "\<exists>st'. push_scalar t st s = Inr st' \<and> coder_inv st'"
proof -
  obtain freq cum lut p where t: "t = (freq, cum, lut, p)" by (cases t) auto
  obtain x out where st: "st = (x, out)" by (cases st)
  have ok: "freq_ok p (freq ! s) (cum ! s)" and x: "state_ok x"
    using assms by (auto simp: t st table_symbol_ok_def table_ok_def coder_inv_def)
  show ?thesis
    using assms put_state_ok [OF ok x]
    by (auto simp: t st push_scalar_eq coder_inv_def dest: emit_words_range)
qed

lemma pop_scalar_push:
  assumes "table_symbol_ok t s" and "coder_inv st"
    and "push_scalar t st s = Inr st'" and "in_words st' words"
  shows "in_words st words \<and> pop_scalar t words (view_top st') = Inr (int s, view_top st)"
proof -
  obtain freq cum lut p where t: "t = (freq, cum, lut, p)" by (cases t) auto
  obtain x out where st: "st = (x, out)" by (cases st)
  let ?ws = "emit_words p (freq ! s) x"
  have st': "st' = (put_state p (freq ! s) (cum ! s) x, out @ ?ws)"
    using assms push_scalar_eq by (auto simp: t st)
  then obtain rest where "words = out @ ?ws @ rest"
    using assms(4) by (auto simp: in_words_def prefix_def)
  then show ?thesis
    using assms(1,2) decode_symbol_put [of freq cum lut p s x out rest]
    by (simp add: t st st' in_words_def pop_scalar_def view_top_def table_symbol_ok_def coder_inv_def)
qed

interpretation scalar_coder: stack_coder
  push_scalar pop_scalar view_top in_words int coder_inv table_symbol_ok
  by unfold_locales (use push_scalar_total pop_scalar_push in blast)+

lemma pop_lane_push:
  assumes "table_symbol_ok t s" and "coder_inv st"
    and "push_scalar t st s = Inr st'" and "in_words st' row"
  shows "in_words st row \<and> pop_lane t row (view_top st') = Inr (int s, view_top st)"
proof -
  obtain freq cum lut p where t: "t = (freq, cum, lut, p)" by (cases t) auto
  obtain x out where st: "st = (x, out)" by (cases st)
  let ?ws = "emit_words p (freq ! s) x"
  have st': "st' = (put_state p (freq ! s) (cum ! s) x, out @ ?ws)"
    using assms push_scalar_eq by (auto simp: t st)
  then obtain rest where "row = out @ ?ws @ rest"
    using assms(4) by (auto simp: in_words_def prefix_def)
  then show ?thesis
    using assms(1,2) lane_decode_symbol_put [of freq cum lut p s x out rest]
    by (simp add: t st st' in_words_def pop_lane_def view_top_def table_symbol_ok_def coder_inv_def)
qed

text \<open>The batched decoder pops what the scalar encoder pushed: it reads at most one word a symbol.\<close>

interpretation lane_coder: stack_coder
  push_scalar pop_lane view_top in_words int coder_inv table_symbol_ok
  by unfold_locales (use push_scalar_total pop_lane_push in blast)+

section \<open>The scalar coder on whole sequences\<close>

lemma split_words:
  assumes "state_ok x"
  shows "(x div 65536 mod 65536) * 65536 OR x mod 65536 = x"
proof -
  have "0 \<le> x mod 65536" "x mod 65536 < 65536" by simp_all
  moreover have "x div 65536 mod 65536 = x div 65536"
    using assms by (intro mod_pos_pos_trivial) (auto simp: state_ok_def)
  ultimately show ?thesis by (simp add: shift_or_word)
qed

lemma coder_inv_start: "coder_inv (RANS_L, [])"
  by (simp add: coder_inv_def state_ok_def)

lemma scalar_encode_runs:
  assumes "\<forall>s \<in> set symbols. table_ok freq cum lut p s"
  obtains x out where "foldM (encode_symbol freq cum p) (RANS_L, []) (rev symbols) = Inr (x, out)"
    and "coder_inv (x, out)"
    and "rans_encode_scalar symbols freq cum p = Inr (out @ [x mod 65536, x div 65536 mod 65536])"
proof -
  have "\<exists>st. foldM (push_scalar (freq, cum, lut, p)) (RANS_L, []) (rev symbols) = Inr st \<and> coder_inv st"
    using assms by (intro scalar_coder.run_total coder_inv_start) (auto simp: table_symbol_ok_def)
  then obtain x out where
    "foldM (push_scalar (freq, cum, lut, p)) (RANS_L, []) (rev symbols) = Inr (x, out)"
    and inv: "coder_inv (x, out)" by auto
  then have "foldM (encode_symbol freq cum p) (RANS_L, []) (rev symbols) = Inr (x, out)"
    by (simp add: push_scalar_def)
  with inv that show thesis by (simp add: rans_encode_scalar_def)
qed

lemma scalar_roundtrip:
  assumes ok: "\<forall>s \<in> set symbols. table_ok freq cum lut p s"
  shows "\<exists>words. rans_encode_scalar symbols freq cum p = Inr words \<and>
    rans_decode_scalar words freq cum lut (length symbols) p = Inr (map int symbols)"
proof -
  obtain x out where run: "foldM (encode_symbol freq cum p) (RANS_L, []) (rev symbols) = Inr (x, out)"
    and inv: "coder_inv (x, out)"
    and enc: "rans_encode_scalar symbols freq cum p = Inr (out @ [x mod 65536, x div 65536 mod 65536])"
    using ok by (rule scalar_encode_runs)
  let ?words = "out @ [x mod 65536, x div 65536 mod 65536]" and ?t = "(freq, cum, lut, p)"
  have "foldM (push_scalar ?t) (RANS_L, []) (rev symbols) = Inr (x, out)"
    using run by (simp add: push_scalar_def)
  then have "repeatM (length symbols) (pop_scalar ?t ?words) (view_top (x, out)) =
      Inr (map int symbols, view_top (RANS_L, []))"
    using scalar_coder.run_roundtrip [of symbols ?t "(RANS_L, [])" "(x, out)" ?words]
      ok coder_inv_start
    by (auto simp: table_symbol_ok_def in_words_def)
  moreover have "state_ok x" using inv by (simp add: coder_inv_def)
  moreover have "py_get BadIndex ?words (int (length ?words) - 1) = Inr (x div 65536 mod 65536)"
    and "py_get BadIndex ?words (int (length ?words) - 1 - 1) = Inr (x mod 65536)"
    by (simp_all add: nth_append nat_add_distrib)
  ultimately have "rans_decode_scalar ?words freq cum lut (length symbols) p = Inr (map int symbols)"
    by (simp add: rans_decode_scalar_def pop_scalar_def view_top_def split_words Let_def del: py_get_nonneg)
  with enc show ?thesis by blast
qed

section \<open>The frequency table\<close>

lemma length_cumsum [simp]: "length (cumsum a xs) = length xs"
  by (induction a xs rule: cumsum.induct) simp_all

lemma cumsum_nth: "i < length xs \<Longrightarrow> cumsum a xs ! i = a + sum_list (take (Suc i) xs)"
proof (induction a xs arbitrary: i rule: cumsum.induct)
  case (2 a x xs)
  then show ?case by (cases i) (simp_all add: algebra_simps)
qed simp

lemma cum_nth: "i \<le> length xs \<Longrightarrow> (0 # cumsum 0 xs) ! i = sum_list (take i xs)"
  by (cases i) (simp_all add: cumsum_nth)

lemma length_fill_slice [simp]: "length (fill_slice xs a b v) = length xs"
  by (simp add: fill_slice_def Let_def)

lemma length_fill_lut [simp]: "length (fill_lut lut start s cs) = length lut"
  by (induction lut start s cs rule: fill_lut.induct) simp_all

lemma fill_slice_nth:
  assumes "i < length xs" and "0 \<le> start" and "0 \<le> stop"
  shows "fill_slice xs start stop v ! i =
    (if start \<le> int i \<and> int i < stop then v else xs ! i)"
  using assms by (auto simp: fill_slice_def Let_def py_slice_ix_def min_def nat_le_iff split: if_splits)

lemma fill_lut_below:
  assumes "\<forall>f \<in> set fs. 0 \<le> f" and "0 \<le> start" and "i < length lut" and "int i < start"
  shows "fill_lut lut start s (cumsum start fs) ! i = lut ! i"
  using assms
proof (induction fs arbitrary: lut start s)
  case (Cons f fs)
  then have "fill_lut (fill_slice lut start (start + f) (int s)) (start + f) (Suc s)
      (cumsum (start + f) fs) ! i = fill_slice lut start (start + f) (int s) ! i"
    by (intro Cons.IH) auto
  with Cons.prems show ?case by (simp add: fill_slice_nth)
qed simp

lemma fill_lut_nth:
  assumes "\<forall>f \<in> set fs. 0 \<le> f" and "0 \<le> start" and "i < length lut" and "k < length fs"
    and "start + sum_list (take k fs) \<le> int i" and "int i < start + sum_list (take (Suc k) fs)"
  shows "fill_lut lut start s (cumsum start fs) ! i = int (s + k)"
  using assms
proof (induction fs arbitrary: lut start s k)
  case (Cons f fs)
  let ?lut = "fill_slice lut start (start + f) (int s)"
  show ?case
  proof (cases k)
    case 0
    have "fill_lut ?lut (start + f) (Suc s) (cumsum (start + f) fs) ! i = ?lut ! i"
      using Cons.prems 0 by (intro fill_lut_below) auto
    with Cons.prems 0 show ?thesis by (simp add: fill_slice_nth)
  next
    case (Suc j)
    have "fill_lut ?lut (start + f) (Suc s) (cumsum (start + f) fs) ! i = int (Suc s + j)"
      using Cons.prems Suc by (intro Cons.IH) auto
    with Suc show ?thesis by simp
  qed
qed simp

lemma slot_to_symbol_nth:
  assumes "\<forall>f \<in> set freq. 0 \<le> f" and "sum_list freq \<le> 2 ^ p" and "s < length freq"
    and "sum_list (take s freq) \<le> int i" and "int i < sum_list (take s freq) + freq ! s"
  shows "slot_to_symbol freq p ! i = int s"
proof -
  have step: "sum_list (take (Suc s) freq) = sum_list (take s freq) + freq ! s"
    using assms(3) by (simp add: take_Suc_conv_app_nth)
  have split: "sum_list freq = sum_list (take (Suc s) freq) + sum_list (drop (Suc s) freq)"
    by (metis append_take_drop_id sum_list_append)
  have "0 \<le> sum_list (drop (Suc s) freq)"
    using assms(1) by (intro sum_list_nonneg) (auto dest: in_set_dropD)
  with assms(2,5) step split have "int i < 2 ^ p" by linarith
  then have "i < 2 ^ p" by (metis of_nat_less_iff of_nat_numeral of_nat_power)
  then show ?thesis
    using assms step by (simp add: slot_to_symbol_def fill_lut_nth)
qed

lemma length_slot_to_symbol [simp]: "length (slot_to_symbol freq p) = 2 ^ p"
  by (simp add: slot_to_symbol_def push_bit_eq_mult)

lemma table_ok_cum:
  assumes nonneg: "\<forall>f \<in> set freq. 0 \<le> f" and sum: "sum_list freq \<le> 2 ^ p"
    and p: "p \<le> 16" and s: "s < length freq" and f: "1 \<le> freq ! s"
  shows "table_ok freq (0 # cumsum 0 freq) (slot_to_symbol freq p) p s"
proof -
  have cum: "(0 # cumsum 0 freq) ! s = sum_list (take s freq)"
    using s by (simp add: cum_nth)
  have "0 \<le> sum_list (take s freq)"
    using nonneg by (intro sum_list_nonneg) (auto dest: in_set_takeD)
  moreover have "sum_list (take s freq) + freq ! s \<le> 2 ^ p"
  proof -
    have "sum_list freq = sum_list (take s freq) + freq ! s + sum_list (drop (Suc s) freq)"
      using s by (metis append_take_drop_id sum_list_append take_Suc_conv_app_nth
          sum_list.Cons sum_list.Nil add.right_neutral)
    moreover have "0 \<le> sum_list (drop (Suc s) freq)"
      using nonneg by (intro sum_list_nonneg) (auto dest: in_set_dropD)
    ultimately show ?thesis using sum by linarith
  qed
  ultimately have "freq_ok p (freq ! s) ((0 # cumsum 0 freq) ! s)"
    using p f by (simp add: freq_ok_def cum)
  moreover have "\<forall>i. (0 # cumsum 0 freq) ! s \<le> int i \<and> int i < (0 # cumsum 0 freq) ! s + freq ! s \<longrightarrow>
      slot_to_symbol freq p ! i = int s"
    unfolding cum using slot_to_symbol_nth [OF nonneg sum s] by blast
  ultimately show ?thesis using s by (simp add: table_ok_def)
qed


lemma length_fix_total [simp]: "length hist = length freq \<Longrightarrow> length (fix_total M hist freq) = length freq"
  by (simp add: fix_total_def Let_def)

lemma fix_total_sum:
  assumes len: "length hist = length freq" and ne: "freq \<noteq> []"
  shows "sum_list (fix_total M hist freq) = int M"
proof -
  have "hist \<noteq> []" using len ne by auto
  then have "argmax freq < length freq" and "argmax hist < length freq"
    using argmax_less [of freq] argmax_less [of hist] len ne by auto
  then show ?thesis
    using len by (simp add: fix_total_def Let_def sum_list_update)
qed

text \<open>The fallback of \<open>fix_total\<close> resets every used symbol to 1 and gives the rest to one of them.\<close>

lemma fix_total_fallback:
  assumes len: "length hist = length freq" and unused: "\<forall>i < length hist. hist ! i = 0 \<longrightarrow> freq ! i = 0"
    and j: "j < length hist" "0 < hist ! j"
  shows "map2 (\<lambda>h f. if 0 < h then 1 else f) hist (freq[j := v]) =
    map (\<lambda>h. if 0 < h then 1 else 0) (hist :: nat list)"
  using assms by (auto intro!: nth_equalityI simp: nth_list_update)

lemma sum_indicator: "sum_list (map (\<lambda>h. if 0 < h then 1 else 0 :: int) (hist :: nat list)) =
    int (length (filter (\<lambda>h. 0 < h) hist))"
  by (induction hist) simp_all

lemma fix_total_pos:
  assumes len: "length hist = length freq"
    and used: "\<forall>i < length hist. 0 < hist ! i \<longrightarrow> 1 \<le> freq ! i"
    and unused: "\<forall>i < length hist. hist ! i = 0 \<longrightarrow> freq ! i = 0"
    and some: "s < length hist" "0 < hist ! s"
    and fits: "length (filter (\<lambda>h. 0 < h) hist) \<le> M"
    and i: "i < length hist"
  shows "0 \<le> fix_total M hist freq ! i \<and> (0 < hist ! i \<longrightarrow> 1 \<le> fix_total M hist freq ! i)"
proof -
  let ?j = "argmax freq" and ?m = "argmax hist" and ?diff = "int M - sum_list freq"
  have base: "0 \<le> freq ! i \<and> (0 < hist ! i \<longrightarrow> 1 \<le> freq ! i)"
    using used unused i by (cases "0 < hist ! i") auto
  have ne: "freq \<noteq> []" "hist \<noteq> []" using some len by auto
  have j: "?j < length hist" using argmax_less [OF ne(1)] len by simp
  have m: "?m < length hist" using argmax_less [OF ne(2)] by simp
  have "freq ! s \<le> freq ! ?j" using some len by (intro argmax_max) auto
  then have "1 \<le> freq ! ?j" using used some by fastforce
  then have ju: "0 < hist ! ?j" using unused j by (cases "0 < hist ! ?j") auto
  have "hist ! s \<le> hist ! ?m" using some by (intro argmax_max) auto
  then have mu: "0 < hist ! ?m" using some by linarith
  let ?one = "map (\<lambda>h. if 0 < h then 1 else 0 :: int) hist"
  show ?thesis
  proof (cases "?diff = 0 \<or> 1 \<le> freq ! ?j + ?diff")
    case True
    then show ?thesis
      using base j len i by (auto simp: fix_total_def Let_def nth_list_update)
  next
    case False
    then have "fix_total M hist freq = ?one[?m := 1 + (int M - sum_list ?one)]"
      using fix_total_fallback [OF len unused j ju] j m mu len by (simp add: fix_total_def Let_def)
    then show ?thesis
      using fits i m mu by (auto simp: sum_indicator nth_list_update)
  qed
qed

lemma fold_max_ge: "(x :: nat) \<in> set xs \<or> x \<le> a \<Longrightarrow> x \<le> fold max xs a"
proof (induction xs arbitrary: a)
  case (Cons y ys)
  then have "x \<in> set ys \<or> x \<le> max y a" by (auto simp: le_max_iff_disj)
  then have "x \<le> fold max ys (max y a)" by (rule Cons.IH)
  then show ?case by simp
qed simp

lemma n_symbols_bound: "s \<in> set symbols \<Longrightarrow> s < n_symbols symbols"
  using fold_max_ge [of s symbols 0] by (auto simp: n_symbols_def less_Suc_eq_le)

lemma length_bincount [simp]: "length (bincount symbols (n_symbols symbols)) = n_symbols symbols"
  by (simp add: bincount_def)

lemma bincount_nth: "i < n_symbols symbols \<Longrightarrow>
    bincount symbols (n_symbols symbols) ! i = count_list symbols i"
  by (simp add: bincount_def)

lemma bincount_pos: "i < n_symbols symbols \<Longrightarrow>
    0 < bincount symbols (n_symbols symbols) ! i \<longleftrightarrow> i \<in> set symbols"
  by (metis bincount_nth count_list_0_iff neq0_conv)

lemma bincount_used:
  "length (filter (\<lambda>h. 0 < h) (bincount symbols (n_symbols symbols))) = card (set symbols)"
proof -
  have "{i. i < n_symbols symbols \<and> 0 < bincount symbols (n_symbols symbols) ! i} = set symbols"
    using n_symbols_bound by (auto simp: bincount_pos)
  then show ?thesis by (simp add: length_filter_conv_card)
qed

lemma n_symbols_pos: "0 < n_symbols symbols"
  by (simp add: n_symbols_def)

definition freq_table_ok :: "nat list \<Rightarrow> nat \<Rightarrow> int list \<Rightarrow> bool" where
  "freq_table_ok symbols p freq \<longleftrightarrow>
     length freq = n_symbols symbols \<and> sum_list freq = 2 ^ p \<and>
     (\<forall>f \<in> set freq. 0 \<le> f) \<and> (\<forall>s \<in> set symbols. 1 \<le> freq ! s)"

lemma build_freq_table_correct:
  assumes p: "1 \<le> p" "p \<le> 16" and ne: "symbols \<noteq> []" and fits: "card (set symbols) \<le> 2 ^ p"
  shows "\<exists>freq. build_freq_table rnd symbols p = Inr (freq, 0 # cumsum 0 freq, n_symbols symbols)
    \<and> freq_table_ok symbols p freq"
proof -
  let ?n = "n_symbols symbols"
  let ?hist = "bincount symbols ?n"
  let ?sc = "scaled_freq rnd (2 ^ p) ?hist"
  let ?freq = "fix_total (2 ^ p) ?hist ?sc"
  obtain s where s: "s \<in> set symbols" using ne by (cases symbols) auto
  have len: "length ?hist = length ?sc" by (simp add: scaled_freq_def)
  have pos: "0 \<le> ?freq ! i \<and> (0 < ?hist ! i \<longrightarrow> 1 \<le> ?freq ! i)" if "i < ?n" for i
  proof (rule fix_total_pos [OF len])
    show "s < length ?hist" "0 < ?hist ! s"
      using s n_symbols_bound bincount_pos by auto
  qed (use that fits in \<open>auto simp: scaled_freq_def bincount_used\<close>)
  have lenf: "length ?freq = ?n" using len by (simp add: scaled_freq_def)
  then have "\<forall>f \<in> set ?freq. 0 \<le> f" using pos by (metis in_set_conv_nth)
  moreover have "\<forall>s \<in> set symbols. 1 \<le> ?freq ! s"
    using pos bincount_pos n_symbols_bound by blast
  moreover have "sum_list ?freq = 2 ^ p"
  proof -
    have "?sc \<noteq> []" using len n_symbols_pos [of symbols] by auto
    then show ?thesis using fix_total_sum [OF len, of "2 ^ p"] by simp
  qed
  ultimately have "freq_table_ok symbols p ?freq"
    using lenf by (simp add: freq_table_ok_def)
  with p show ?thesis by (simp add: build_freq_table_def Let_def push_bit_eq_mult)
qed

lemma freq_table_symbols_ok:
  assumes "freq_table_ok symbols p freq" and "p \<le> 16" and "s < length freq" and "1 \<le> freq ! s"
  shows "table_ok freq (0 # cumsum 0 freq) (slot_to_symbol freq p) p s"
  using assms by (intro table_ok_cum) (auto simp: freq_table_ok_def)

section \<open>A lane of the interleaved coder is the scalar coder\<close>

text \<open>
  \<open>lane_sim\<close> is the simulation between a lane's output row and the scalar coder's growing
  word list: the words written so far are the first \<open>wpos\<close> entries of the row.
\<close>

definition lane_sim :: "lane \<Rightarrow> int \<times> int list \<Rightarrow> nat \<Rightarrow> bool" where
  "lane_sim l st maxw \<longleftrightarrow>
     lane_x l = fst st \<and> lane_wpos l = length (snd st) \<and> length (lane_out l) = maxw \<and>
     take (lane_wpos l) (lane_out l) = snd st"

lemma take_update_snoc: "i < length xs \<Longrightarrow> take (Suc i) (xs[i := v]) = take i xs @ [v]"
  by (simp add: take_Suc_conv_app_nth)

lemma lane_encode_symbol_sim:
  assumes t: "table_ok freq cum lut p s" and inv: "coder_inv st"
    and sim: "lane_sim l st maxw" and room: "length (snd st) < maxw"
  shows "\<exists>l' st'. lane_encode_symbol freq cum p l s = Inr l' \<and> encode_symbol freq cum p st s = Inr st' \<and>
    lane_sim l' st' maxw \<and> coder_inv st' \<and> length (snd st') \<le> Suc (length (snd st))"
proof -
  obtain x out where st: "st = (x, out)" by (cases st)
  have ok: "freq_ok p (freq ! s) (cum ! s)" and x: "state_ok x"
    using t inv by (auto simp: table_ok_def coder_inv_def st)
  let ?st = "(put_state p (freq ! s) (cum ! s) x, out @ emit_words p (freq ! s) x)"
  have enc: "encode_symbol freq cum p st s = Inr ?st"
    using t x by (simp add: st encode_symbol_eq)
  have lim: "push_bit RENORM_BITS (drop_bit p RANS_L) * freq ! s = x_limit p (freq ! s)"
    by (simp add: drop_bit_eq_div x_limit_def)
  have f: "freq ! s \<noteq> 0" using ok by (auto simp: freq_ok_def)
  have "\<exists>l'. lane_encode_symbol freq cum p l s = Inr l' \<and> lane_sim l' ?st maxw"
    using t sim room f unfolding lane_encode_symbol_def Let_def lim
    by (auto simp: table_ok_def lane_emit_def lane_sim_def st put_state_def emit_state_def
        emit_words_def push_bit_eq_mult Let_def take_update_snoc)
  moreover have "coder_inv ?st"
    using inv put_state_ok [OF ok x] by (auto simp: coder_inv_def st dest: emit_words_range)
  moreover have "length (snd ?st) \<le> Suc (length (snd st))"
    by (simp add: st emit_words_def)
  ultimately show ?thesis using enc by blast
qed

lemma lane_run_sim:
  assumes "\<forall>s \<in> set symb. table_ok freq cum lut p s" and "coder_inv st"
    and "lane_sim l st maxw" and "length (snd st) + length symb \<le> maxw"
  shows "\<exists>l' st'. foldM (lane_encode_symbol freq cum p) l symb = Inr l' \<and>
    foldM (encode_symbol freq cum p) st symb = Inr st' \<and>
    lane_sim l' st' maxw \<and> coder_inv st' \<and> length (snd st') \<le> length (snd st) + length symb"
  using assms
proof (induction symb arbitrary: l st)
  case Nil
  then show ?case by simp
next
  case (Cons s symb)
  obtain l1 st1 where step: "lane_encode_symbol freq cum p l s = Inr l1"
    "encode_symbol freq cum p st s = Inr st1" "lane_sim l1 st1 maxw" "coder_inv st1"
    "length (snd st1) \<le> Suc (length (snd st))"
    using lane_encode_symbol_sim [of freq cum lut p s st l maxw] Cons.prems by auto
  with Cons.prems obtain l' st' where "foldM (lane_encode_symbol freq cum p) l1 symb = Inr l'"
    "foldM (encode_symbol freq cum p) st1 symb = Inr st'"
    "lane_sim l' st' maxw" "coder_inv st'" "length (snd st') \<le> length (snd st1) + length symb"
    using Cons.IH [of st1 l1] by auto
  with step show ?case by fastforce
qed

lemma lane_flush_sim:
  assumes "lane_sim l (x, out) maxw" and "length out < maxw"
  shows "\<exists>l'. lane_flush_word l = Inr l' \<and> lane_sim l' (x div 65536, out @ [x mod 65536]) maxw"
  using assms by (auto simp: lane_flush_word_def lane_sim_def take_update_snoc)

lemma lane_encode_scalar:
  assumes ok: "\<forall>s \<in> set symb. table_ok freq cum lut p s"
  shows "\<exists>l words. lane_encode freq cum p symb = Inr l \<and> rans_encode_scalar symb freq cum p = Inr words \<and>
    lane_wpos l = length words \<and> take (lane_wpos l) (lane_out l) = words \<and>
    length (lane_out l) = length symb + 2 \<and> length words \<le> length symb + 2 \<and>
    2 \<le> length words \<and> (\<forall>w \<in> set words. 0 \<le> w \<and> w < 65536)"
proof -
  let ?maxw = "length symb + 2"
  let ?l0 = "\<lparr>lane_x = RANS_L, lane_out = replicate ?maxw 0, lane_wpos = 0\<rparr>"
  have sim0: "lane_sim ?l0 (RANS_L, []) ?maxw" by (simp add: lane_sim_def)
  obtain l1 st1 where run: "foldM (lane_encode_symbol freq cum p) ?l0 (rev symb) = Inr l1"
    "foldM (encode_symbol freq cum p) (RANS_L, []) (rev symb) = Inr st1"
    "lane_sim l1 st1 ?maxw" "coder_inv st1" "length (snd st1) \<le> length symb"
    using lane_run_sim [of "rev symb" freq cum lut p "(RANS_L, [])" ?l0 ?maxw] ok coder_inv_start sim0
    by auto
  obtain x out where st1: "st1 = (x, out)" by (cases st1)
  have x: "x div 65536 mod 65536 = x div 65536"
    using run(4) by (intro mod_pos_pos_trivial) (auto simp: st1 coder_inv_def state_ok_def)
  obtain l2 where l2: "lane_flush_word l1 = Inr l2"
    "lane_sim l2 (x div 65536, out @ [x mod 65536]) ?maxw"
    using lane_flush_sim [of l1 x out ?maxw] run by (auto simp: st1)
  obtain l3 where l3: "lane_flush_word l2 = Inr l3"
    "lane_sim l3 (x div 65536 div 65536, out @ [x mod 65536, x div 65536 mod 65536]) ?maxw"
    using lane_flush_sim [OF l2(2)] run(5) by (auto simp: st1)
  have "lane_encode freq cum p symb = Inr l3"
    using run(1) l2(1) l3(1) by (simp add: lane_encode_def Let_def del: replicate.simps)
  moreover have "rans_encode_scalar symb freq cum p = Inr (out @ [x mod 65536, x div 65536 mod 65536])"
    using run(2) by (simp add: rans_encode_scalar_def st1)
  moreover have "\<forall>w \<in> set (out @ [x mod 65536, x div 65536 mod 65536]). 0 \<le> w \<and> w < 65536"
    using run(4) by (auto simp: st1 coder_inv_def)
  moreover have "lane_wpos l3 = length (out @ [x mod 65536, x div 65536 mod 65536])"
    and "take (lane_wpos l3) (lane_out l3) = out @ [x mod 65536, x div 65536 mod 65536]"
    and "length (lane_out l3) = length symb + 2"
    using l3(2) unfolding lane_sim_def snd_conv by blast+
  moreover have "length (out @ [x mod 65536, x div 65536 mod 65536]) \<le> length symb + 2"
    and "2 \<le> length (out @ [x mod 65536, x div 65536 mod 65536])"
    using run(5) by (simp_all add: st1)
  ultimately show ?thesis by blast
qed

lemma lane_decode_words:
  assumes ok: "\<forall>s \<in> set symb. table_ok freq cum lut p s"
    and enc: "rans_encode_scalar symb freq cum p = Inr words" and pre: "prefix words row"
  shows "lane_decode freq cum lut p (length symb) row (int (length words)) = Inr (map int symb)"
proof -
  obtain x out where run: "foldM (encode_symbol freq cum p) (RANS_L, []) (rev symb) = Inr (x, out)"
    and inv: "coder_inv (x, out)"
    and enc': "rans_encode_scalar symb freq cum p = Inr (out @ [x mod 65536, x div 65536 mod 65536])"
    using ok by (rule scalar_encode_runs)
  let ?t = "(freq, cum, lut, p)"
  have words: "words = out @ [x mod 65536, x div 65536 mod 65536]" using enc enc' by simp
  then obtain rest where row: "row = out @ [x mod 65536, x div 65536 mod 65536] @ rest"
    using pre by (auto simp: prefix_def)
  have "foldM (push_scalar ?t) (RANS_L, []) (rev symb) = Inr (x, out)"
    using run by (simp add: push_scalar_def)
  then have "repeatM (length symb) (pop_lane ?t row) (view_top (x, out)) =
      Inr (map int symb, view_top (RANS_L, []))"
    using lane_coder.run_roundtrip [of symb ?t "(RANS_L, [])" "(x, out)" row] ok coder_inv_start
    by (auto simp: table_symbol_ok_def in_words_def row)
  moreover have "state_ok x" using inv by (simp add: coder_inv_def)
  moreover have "py_get BadIndex row (int (length words) - 1) = Inr (x div 65536 mod 65536)"
    and "py_get BadIndex row (int (length words) - 2) = Inr (x mod 65536)"
    by (simp_all add: row words nth_append nat_add_distrib)
  moreover have "int (length words) - 3 = int (length out) - 1" by (simp add: words)
  ultimately show ?thesis
    by (simp add: lane_decode_def pop_lane_def view_top_def split_words del: py_get_nonneg)
qed

section \<open>The batched coder\<close>

lemma trim_cum_table:
  assumes "table_ok freq (0 # cumsum 0 freq) lut p s"
  shows "table_ok freq (trim_cum freq (0 # cumsum 0 freq)) lut p s"
proof -
  have "s < length freq" using assms by (simp add: table_ok_def)
  moreover have trim: "trim_cum freq (0 # cumsum 0 freq) = butlast (0 # cumsum 0 freq)"
    by (simp add: trim_cum_def)
  ultimately have "trim_cum freq (0 # cumsum 0 freq) ! s = (0 # cumsum 0 freq) ! s"
    and "s < length (trim_cum freq (0 # cumsum 0 freq))"
    unfolding trim by (simp_all only: nth_butlast length_butlast list.size length_cumsum)
  with assms show ?thesis by (simp add: table_ok_def)
qed

lemma stream_slot:
  assumes "t < L_s" and "k < (K :: nat)"
  shows "t * K + k < L_s * K"
proof -
  have "t * K + k < Suc t * K" using assms(2) by simp
  also have "\<dots> \<le> L_s * K" using assms(1) by (intro mult_right_mono) auto
  finally show ?thesis .
qed

lemma interleave_streams:
  assumes len: "length symb = L_s * K"
  shows "interleave (map (\<lambda>k. map int (stream_of symb K L_s k)) [0..<K]) K L_s = map int symb"
proof -
  have row: "map (\<lambda>k. map (\<lambda>k. map int (stream_of symb K L_s k)) [0..<K] ! k ! t) [0..<K] =
      map (\<lambda>k. int (symb ! (t * K + k))) [0..<K]" if "t < L_s" for t
    using that by (simp add: stream_of_def)
  have "concat (map (\<lambda>t. map (\<lambda>k. int (symb ! (t * K + k))) [0..<K]) [0..<m]) =
      map (\<lambda>i. int (symb ! i)) [0..<m * K]" for m
  proof (induction m)
    case (Suc m)
    have "map (\<lambda>k. m * K + k) [0..<K] = [m * K..<m * K + K]"
      using map_add_upt [of "m * K" K] by (simp only: add.commute)
    then have split: "[0..<Suc m * K] = [0..<m * K] @ map (\<lambda>k. m * K + k) [0..<K]"
      using upt_add_eq_append [of 0 "m * K" K] by (simp only: mult_Suc add.commute le0)
    show ?case unfolding split using Suc by (simp only: upt_Suc_append le0 map_append concat_append map_map comp_def) simp
  qed simp
  then have "concat (map (\<lambda>t. map (\<lambda>k. int (symb ! (t * K + k))) [0..<K]) [0..<L_s]) = map int symb"
    using len map_nth [of symb] by (metis (no_types, lifting) list.map_comp map_eq_conv comp_apply)
  moreover have "interleave (map (\<lambda>k. map int (stream_of symb K L_s k)) [0..<K]) K L_s =
      concat (map (\<lambda>t. map (\<lambda>k. int (symb ! (t * K + k))) [0..<K]) [0..<L_s])"
    unfolding interleave_def using row by (intro arg_cong [of _ _ concat] map_cong) auto
  ultimately show ?thesis by simp
qed

text \<open>What the encoder's loop over the streams produces, stream by stream.\<close>

definition padded :: "nat list \<Rightarrow> int list \<Rightarrow> nat \<Rightarrow> nat list" where
  "padded symbols freq K =
     symbols @ replicate (ceil_div (length symbols) K * K - length symbols) (argmax freq)"

lemma length_padded:
  assumes "0 < K"
  shows "length (padded symbols freq K) = ceil_div (length symbols) K * K"
  using ceil_div_mult_ge [OF assms, of "length symbols"] by (simp add: padded_def mult.commute)

lemma take_padded [simp]: "take (length symbols) (padded symbols freq K) = symbols"
  by (simp add: padded_def)

lemma rans_encode_gpu_streams:
  fixes symbols p freq K
  defines "cum \<equiv> trim_cum freq (0 # cumsum 0 freq)"
    and "str \<equiv> stream_of (padded symbols freq K) K (ceil_div (length symbols) K)"
  assumes K: "0 < K"
    and ok: "\<forall>s \<in> set (padded symbols freq K). table_ok freq cum lut p s"
  shows "\<exists>lanes :: lane list. rans_encode_gpu symbols freq (0 # cumsum 0 freq) p K =
      Inr (map lane_out lanes, map lane_wpos lanes, length symbols, ceil_div (length symbols) K) \<and>
    length lanes = K \<and>
    (\<forall>k < K. \<exists>words. rans_encode_scalar (str k) freq cum p = Inr words \<and>
       lane_wpos (lanes ! k) = length words \<and> take (lane_wpos (lanes ! k)) (lane_out (lanes ! k)) = words \<and>
       length words \<le> ceil_div (length symbols) K + 2 \<and>
       (\<forall>w \<in> set words. 0 \<le> w \<and> w < 65536))"
proof -
  let ?L = "ceil_div (length symbols) K"
  have inset: "\<forall>s \<in> set (str k). table_ok freq cum lut p s" if "k < K" for k
    using ok that K stream_slot [of _ ?L k K] by (auto simp: str_def stream_of_def length_padded)
  have lenstr: "length (str k) = ?L" for k by (simp add: str_def stream_of_def)
  have "\<exists>l. lane_encode freq cum p (str k) = Inr l" if "k < K" for k
    using lane_encode_scalar [OF inset [OF that]] by blast
  then obtain g where g: "\<And>k. k < K \<Longrightarrow> lane_encode freq cum p (str k) = Inr (g k)" by metis
  then have "mapM (\<lambda>k. lane_encode freq cum p (str k)) [0..<K] = Inr (map g [0..<K])"
    by (intro mapM_Inr) simp
  then have "rans_encode_gpu symbols freq (0 # cumsum 0 freq) p K =
      Inr (map lane_out (map g [0..<K]), map lane_wpos (map g [0..<K]), length symbols, ?L)"
    using K by (simp add: rans_encode_gpu_def Let_def padded_def str_def cum_def ceil_div_def)
  moreover have "\<exists>words. rans_encode_scalar (str k) freq cum p = Inr words \<and>
       lane_wpos (map g [0..<K] ! k) = length words \<and>
       take (lane_wpos (map g [0..<K] ! k)) (lane_out (map g [0..<K] ! k)) = words \<and>
       length words \<le> ?L + 2 \<and> (\<forall>w \<in> set words. 0 \<le> w \<and> w < 65536)" if "k < K" for k
  proof -
    have "map g [0..<K] ! k = g k" using that by simp
    then show ?thesis
      using lane_encode_scalar [OF inset [OF that]] g [OF that] lenstr [of k] by auto
  qed
  moreover have "length (map g [0..<K]) = K" by simp
  ultimately show ?thesis by blast
qed

lemma rans_decode_gpu_streams:
  fixes symbols p freq K
  defines "cum \<equiv> trim_cum freq (0 # cumsum 0 freq)"
    and "str \<equiv> stream_of (padded symbols freq K) K (ceil_div (length symbols) K)"
  assumes K: "0 < K"
    and ok: "\<forall>s \<in> set (padded symbols freq K). table_ok freq cum lut p s"
    and rows: "\<And>k. k < K \<Longrightarrow> \<exists>words. rans_encode_scalar (str k) freq cum p = Inr words \<and>
      wpos ! k = int (length words) \<and> prefix words (rows ! k)"
  shows "rans_decode_gpu rows wpos freq (0 # cumsum 0 freq) lut (length symbols)
           (ceil_div (length symbols) K) p K = Inr (map int symbols)"
proof -
  let ?L = "ceil_div (length symbols) K"
  have lenstr: "length (str k) = ?L" for k by (simp add: str_def stream_of_def)
  have "lane_decode freq cum lut p ?L (rows ! k) (wpos ! k) = Inr (map int (str k))" if "k < K" for k
  proof -
    have "\<forall>s \<in> set (str k). table_ok freq cum lut p s"
      using ok that K stream_slot [of _ ?L k K] by (auto simp: str_def stream_of_def length_padded)
    then show ?thesis
      using rows [OF that] lane_decode_words [of "str k" freq cum lut p] by (auto simp: lenstr)
  qed
  then have "mapM (\<lambda>k. lane_decode freq cum lut p ?L (rows ! k) (wpos ! k)) [0..<K] =
      Inr (map (\<lambda>k. map int (str k)) [0..<K])"
    by (intro mapM_Inr) simp
  moreover have "take (length symbols) (interleave (map (\<lambda>k. map int (str k)) [0..<K]) K ?L) = map int symbols"
    unfolding str_def using K
    by (subst interleave_streams) (simp_all add: length_padded take_padded take_map)
  ultimately show ?thesis by (simp add: rans_decode_gpu_def cum_def)
qed

lemma padded_ok:
  assumes "freq_table_ok symbols p freq" and "p \<le> 16" and "symbols \<noteq> []"
  shows "\<forall>s \<in> set (padded symbols freq K).
    table_ok freq (trim_cum freq (0 # cumsum 0 freq)) (slot_to_symbol freq p) p s"
proof
  fix s assume "s \<in> set (padded symbols freq K)"
  then have "s \<in> set symbols \<or> s = argmax freq" by (auto simp: padded_def split: if_splits)
  moreover obtain s0 where s0: "s0 \<in> set symbols" using assms(3) by (cases symbols) auto
  moreover have "s0 < length freq"
    using s0 assms(1) by (auto simp: freq_table_ok_def n_symbols_bound)
  moreover have "freq ! s0 \<le> freq ! argmax freq" "argmax freq < length freq"
    using calculation by (auto intro!: argmax_max argmax_less)
  ultimately have "s < length freq" and "1 \<le> freq ! s"
    using assms(1) n_symbols_bound unfolding freq_table_ok_def by fastforce+
  with assms(1,2) show "table_ok freq (trim_cum freq (0 # cumsum 0 freq)) (slot_to_symbol freq p) p s"
    by (intro trim_cum_table freq_table_symbols_ok)
qed

section \<open>The blob\<close>

lemma concat_slice:
  "k < length xss \<Longrightarrow>
    take (length (xss ! k)) (drop (sum_list (take k (map length xss))) (concat xss)) = xss ! k"
proof (induction xss arbitrary: k)
  case (Cons xs xss)
  then show ?case by (cases k) simp_all
qed simp

lemma concat_slice_end:
  "k < length xss \<Longrightarrow>
    sum_list (take k (map length xss)) + length (xss ! k) \<le> length (concat xss)"
proof (induction xss arbitrary: k)
  case (Cons xs xss)
  then show ?case by (cases k) simp_all
qed simp

lemma length_pack_header: "pack_header n K p n_sym = Inr h \<Longrightarrow> length h = 17"
  by (auto simp: pack_header_def split: if_splits)

lemma unpack_header:
  assumes "pack_header n K p n_sym = Inr h"
  shows "le_val (take 8 h) = n" and "le_val (take 4 (drop 8 h)) = K"
    and "le_val (take 1 (drop 12 h)) = p" and "le_val (take 4 (drop 13 h)) = n_sym"
  using assms by (auto simp: pack_header_def le_val_le_bytes unat_byte split: if_splits)

text \<open>Reading a blob whose sections are known: one step of the parse after another.\<close>

lemma ans_decompress_sections:
  assumes h: "pack_header n K p (length fs) = Inr h" and n: "n \<noteq> 0"
    and fs: "\<forall>f \<in> set fs. f < 256 ^ 2" and wpos: "length wpos = K" "\<forall>w \<in> set wpos. w < 256 ^ 4" "wpos \<noteq> []"
    and words: "\<forall>w \<in> set words. w < 256 ^ 2"
  shows "ans_decompress (MAGIC @ h @ array_bytes 2 fs @ array_bytes 4 wpos @ array_bytes 2 words) =
    bind_err (mapM (\<lambda>k. scatter_row words (Max (set wpos)) (offsets wpos ! k) (wpos ! k)) [0..<K])
      (\<lambda>out. rans_decode_gpu out (map int wpos) (map int fs) (0 # cumsum 0 (map int fs))
        (slot_to_symbol (map int fs) p) n ((n + K - 1) div K) p K)"
proof -
  let ?blob = "MAGIC @ h @ array_bytes 2 fs @ array_bytes 4 wpos @ array_bytes 2 words"
  have lh: "length h = 17" using h by (rule length_pack_header)
  have lm: "length MAGIC = 4" by (simp add: MAGIC_def)
  have d: "drop (4 + i) ?blob = drop i (h @ array_bytes 2 fs @ array_bytes 4 wpos @ array_bytes 2 words)" for i
    by (simp add: lm)
  have fields: "le_val (take 8 (drop 4 ?blob)) = n" "le_val (take 4 (drop 12 ?blob)) = K"
    "le_val (take 1 (drop 16 ?blob)) = p" "le_val (take 4 (drop 17 ?blob)) = length fs"
    using unpack_header [OF h] d [of 8] d [of 12] d [of 13] by (simp_all add: lh lm)
  have d21: "drop 21 ?blob = array_bytes 2 fs @ array_bytes 4 wpos @ array_bytes 2 words"
    using d [of 17] by (simp add: lh)
  have drest: "drop (21 + i) ?blob = drop i (array_bytes 2 fs @ array_bytes 4 wpos @ array_bytes 2 words)" for i
    by (simp add: lh lm)
  have fb1: "frombuffer 2 (length fs) (drop 21 ?blob) = Inr fs"
    unfolding d21 using fs by (simp add: frombuffer_def array_roundtrip)
  have fb2: "frombuffer 4 K (drop (21 + length fs * 2) ?blob) = Inr wpos"
    unfolding drest using wpos by (simp add: frombuffer_def array_roundtrip)
  have rest: "drop (21 + length fs * 2 + K * 4) ?blob = array_bytes 2 words"
    using drest [of "length fs * 2 + K * 4"] wpos by (simp add: add.assoc)
  have aw: "array_of_bytes 2 (array_bytes 2 words) = words" using words by (simp add: array_roundtrip)
  have magic: "take 4 ?blob = MAGIC" and long: "\<not> length ?blob < 21" by (simp_all add: lm lh)
  show ?thesis
    unfolding ans_decompress_def Let_def fields magic fb1 fb2 rest bind_err_simps aw
    using long n wpos(3) by simp
qed

lemma scatter_rows:
  assumes "length xss = K"
  shows "mapM (\<lambda>k. scatter_row (concat xss) maxw (offsets (map length xss) ! k) (map length xss ! k)) [0..<K]
    = Inr (map (\<lambda>k. map int (xss ! k) @ replicate (maxw - length (xss ! k)) 0) [0..<K])"
proof (rule mapM_Inr)
  fix k assume "k \<in> set [0..<K]"
  with assms have k: "k < length xss" by simp
  then show "scatter_row (concat xss) maxw (offsets (map length xss) ! k) (map length xss ! k) =
      Inr (map int (xss ! k) @ replicate (maxw - length (xss ! k)) 0)"
    using concat_slice [OF k] concat_slice_end [OF k]
    by (simp add: scatter_row_def offsets_def del: upt_Suc)
qed

text \<open>
  The main theorem of the codec: whatever \<open>np.round\<close> does to the scaled histogram, a blob that
  \<open>ans_compress\<close> writes decodes to the symbols it was given.
\<close>

lemma rans_streams_words:
  assumes tab: "freq_table_ok symbols p freq" and p: "p \<le> 16" and ne: "symbols \<noteq> []" and K: "0 < K"
  defines "cum \<equiv> 0 # cumsum 0 freq"
  shows "\<exists>(lanes :: lane list) wss. rans_encode_gpu symbols freq cum p K =
      Inr (map lane_out lanes, map length wss, length symbols, ceil_div (length symbols) K) \<and>
    length lanes = K \<and> length wss = K \<and> map2 take (map length wss) (map lane_out lanes) = wss \<and>
    (\<forall>ws \<in> set wss. length ws \<le> ceil_div (length symbols) K + 2 \<and> (\<forall>w \<in> set ws. 0 \<le> w \<and> w < 65536)) \<and>
    (\<forall>k < K. rans_encode_scalar (stream_of (padded symbols freq K) K (ceil_div (length symbols) K) k)
       freq (trim_cum freq cum) p = Inr (wss ! k))"
proof -
  let ?L = "ceil_div (length symbols) K"
  let ?str = "stream_of (padded symbols freq K) K ?L"
  obtain lanes :: "lane list" where enc: "rans_encode_gpu symbols freq cum p K =
      Inr (map lane_out lanes, map lane_wpos lanes, length symbols, ?L)" and len: "length lanes = K"
    and each: "\<forall>k < K. \<exists>words. rans_encode_scalar (?str k) freq (trim_cum freq cum) p = Inr words \<and>
       lane_wpos (lanes ! k) = length words \<and> take (lane_wpos (lanes ! k)) (lane_out (lanes ! k)) = words \<and>
       length words \<le> ?L + 2 \<and> (\<forall>w \<in> set words. 0 \<le> w \<and> w < 65536)"
    using rans_encode_gpu_streams [OF K padded_ok [OF tab p ne]] unfolding cum_def by blast
  let ?wss = "map (\<lambda>l. take (lane_wpos l) (lane_out l)) lanes"
  have wpos: "map length ?wss = map lane_wpos lanes"
    using each len by (intro nth_equalityI) auto
  have "map2 take (map lane_wpos lanes) (map lane_out lanes) = ?wss"
    by (intro nth_equalityI) auto
  moreover have "\<forall>ws \<in> set ?wss. length ws \<le> ?L + 2 \<and> (\<forall>w \<in> set ws. 0 \<le> w \<and> w < 65536)"
  proof
    fix ws assume "ws \<in> set ?wss"
    then obtain k where "k < K" and ws: "ws = take (lane_wpos (lanes ! k)) (lane_out (lanes ! k))"
      using len by (auto simp: in_set_conv_nth)
    then show "length ws \<le> ?L + 2 \<and> (\<forall>w \<in> set ws. 0 \<le> w \<and> w < 65536)"
      using each by auto
  qed
  moreover have "\<forall>k < K. rans_encode_scalar (?str k) freq (trim_cum freq cum) p = Inr (?wss ! k)"
    using each len by auto
  ultimately show ?thesis
    using enc len wpos by (intro exI [of _ lanes] exI [of _ ?wss]) (simp only: wpos length_map simp_thms)
qed

lemma map_int_nat_mod:
  assumes "\<forall>w \<in> set ws. 0 \<le> w \<and> w < m"
  shows "map int (map (\<lambda>w. nat (w mod m)) ws) = ws"
proof -
  have "map int (map (\<lambda>w. nat (w mod m)) ws) = map (\<lambda>w. w) ws"
    unfolding map_map comp_def using assms by (intro map_cong) auto
  then show ?thesis by simp
qed

lemma ans_roundtrip_table:
  assumes tab: "freq_table_ok symbols p freq" and p: "p \<le> 16" and ne: "symbols \<noteq> []" and K: "0 < K"
    and small: "\<forall>f \<in> set freq. f \<le> 65535" and short: "length symbols < 2 ^ 31 - 2"
    and enc: "rans_encode_gpu symbols freq (0 # cumsum 0 freq) p K = Inr (out, wpos, n_ret, L_s)"
    and h: "pack_header (length symbols) K p (n_symbols symbols) = Inr h"
  shows "ans_decompress (MAGIC @ h @ array_bytes 2 (map (\<lambda>f. nat (f mod 65536)) freq)
    @ array_bytes 4 wpos @ array_bytes 2 (map (\<lambda>w. nat (w mod 65536)) (concat (map2 take wpos out))))
    = Inr (map int symbols)"
proof -
  let ?L = "ceil_div (length symbols) K"
  let ?cum = "0 # cumsum 0 freq"
  obtain lanes :: "lane list" and wss where e: "rans_encode_gpu symbols freq ?cum p K =
      Inr (map lane_out lanes, map length wss, length symbols, ?L)"
    and len: "length lanes = K" "length wss = K"
    and words: "map2 take (map length wss) (map lane_out lanes) = wss"
    and range: "\<forall>ws \<in> set wss. length ws \<le> ?L + 2 \<and> (\<forall>w \<in> set ws. 0 \<le> w \<and> w < 65536)"
    and scalar: "\<forall>k < K. rans_encode_scalar (stream_of (padded symbols freq K) K ?L k)
       freq (trim_cum freq ?cum) p = Inr (wss ! k)"
    using rans_streams_words [OF tab p ne K] by blast
  have wo: "wpos = map length wss" "out = map lane_out lanes" using enc e by auto
  let ?nss = "map (map (\<lambda>w. nat (w mod 65536))) wss"
  let ?fs = "map (\<lambda>f. nat (f mod 65536)) freq"
  have fs: "map int ?fs = freq"
    using tab small by (intro map_int_nat_mod) (auto simp: freq_table_ok_def)
  have nss: "\<forall>k < K. map int (?nss ! k) = wss ! k"
  proof (intro allI impI)
    fix k assume k: "k < K"
    with len range have "\<forall>w \<in> set (wss ! k). 0 \<le> w \<and> w < 65536" by auto
    then have "map int (map (\<lambda>w. nat (w mod 65536)) (wss ! k)) = wss ! k" by (rule map_int_nat_mod)
    with k len show "map int (?nss ! k) = wss ! k" by simp
  qed
  have lens: "map length ?nss = map length wss" by simp
  have cat: "map (\<lambda>w. nat (w mod 65536)) (concat wss) = concat ?nss" by (simp add: map_concat)
  have "?L \<le> length symbols"
  proof -
    have "?L \<le> K * (?L - 1) + 1" using K by (cases ?L) auto
    moreover have "K * (?L - 1) < length symbols" using K ne by (intro ceil_div_mult_less) auto
    ultimately show ?thesis by linarith
  qed
  then have "\<forall>w \<in> set (map length wss). w < 256 ^ 4"
    using range short by fastforce
  moreover have "map length wss \<noteq> []" using len K by auto
  moreover have "\<forall>w \<in> set (concat ?nss). w < 256 ^ 2" by (auto simp: nat_less_iff)
  moreover have "\<forall>f \<in> set ?fs. f < 256 ^ 2" by (auto simp: nat_less_iff)
  moreover have "pack_header (length symbols) K p (length ?fs) = Inr h"
    using h tab by (simp add: freq_table_ok_def)
  ultimately have "ans_decompress (MAGIC @ h @ array_bytes 2 ?fs @ array_bytes 4 (map length wss) @ array_bytes 2 (concat ?nss)) =
    bind_err (mapM (\<lambda>k. scatter_row (concat ?nss) (Max (set (map length wss))) (offsets (map length wss) ! k) (map length wss ! k)) [0..<K])
      (\<lambda>out. rans_decode_gpu out (map int (map length wss)) (map int ?fs) (0 # cumsum 0 (map int ?fs))
        (slot_to_symbol (map int ?fs) p) (length symbols) ((length symbols + K - 1) div K) p K)"
    using ne len by (intro ans_decompress_sections) auto
  also have "\<dots> = rans_decode_gpu
      (map (\<lambda>k. map int (?nss ! k) @ replicate (Max (set (map length wss)) - length (?nss ! k)) 0) [0..<K])
      (map int (map length wss)) freq ?cum (slot_to_symbol freq p) (length symbols) ?L p K"
    using scatter_rows [of ?nss K "Max (set (map length wss))"] len
    unfolding lens fs by (simp add: ceil_div_def)
  also have "\<dots> = Inr (map int symbols)"
  proof (rule rans_decode_gpu_streams [OF K padded_ok [OF tab p ne]])
    fix k assume k: "k < K"
    then show "\<exists>words. rans_encode_scalar (stream_of (padded symbols freq K) K ?L k) freq (trim_cum freq ?cum) p = Inr words \<and>
      map int (map length wss) ! k = int (length words) \<and>
      prefix words (map (\<lambda>k. map int (?nss ! k) @ replicate (Max (set (map length wss)) - length (?nss ! k)) 0) [0..<K] ! k)"
      using scalar nss len by (intro exI [of _ "wss ! k"]) auto
  qed
  finally show ?thesis unfolding wo words cat .
qed

definition ans_precision :: "nat list \<Rightarrow> nat option \<Rightarrow> nat" where
  "ans_precision symbols prec = (case prec of Some p \<Rightarrow> p | None \<Rightarrow> auto_precision (n_symbols symbols))"

definition ans_streams :: "nat list \<Rightarrow> nat option \<Rightarrow> nat" where
  "ans_streams symbols K =
     (case K of Some k \<Rightarrow> (if k = 0 then auto_K (length symbols) else k) | None \<Rightarrow> auto_K (length symbols))"

lemma ans_streams_pos: "0 < ans_streams symbols K"
  by (auto simp: ans_streams_def auto_K_def max_def split: option.split)

lemma ans_compress_table:
  assumes ne: "symbols \<noteq> []" and p: "1 \<le> ans_precision symbols prec" "ans_precision symbols prec \<le> 16"
    and fits: "card (set symbols) \<le> 2 ^ ans_precision symbols prec"
  obtains freq where "freq_table_ok symbols (ans_precision symbols prec) freq"
    and "ans_compress rnd symbols prec K =
      (if Max (set freq) > 65535 then Inl FreqTooLarge
       else bind_err (rans_encode_gpu symbols freq (0 # cumsum 0 freq) (ans_precision symbols prec)
             (ans_streams symbols K)) (\<lambda>(out, wpos, n_ret, L_s).
         bind_err (pack_header (length symbols) (ans_streams symbols K) (ans_precision symbols prec)
             (n_symbols symbols)) (\<lambda>h.
           Inr (MAGIC @ h @ array_bytes 2 (map (\<lambda>f. nat (f mod 65536)) freq) @ array_bytes 4 wpos
             @ array_bytes 2 (map (\<lambda>w. nat (w mod 65536)) (concat (map2 take wpos out)))))))"
proof -
  obtain freq where b: "build_freq_table rnd symbols (ans_precision symbols prec) =
      Inr (freq, 0 # cumsum 0 freq, n_symbols symbols)"
    and ok: "freq_table_ok symbols (ans_precision symbols prec) freq"
    using build_freq_table_correct [OF p ne fits] by blast
  show thesis
    using ne by (intro that [OF ok]) (simp add: ans_compress_def Let_def ans_precision_def [symmetric]
        ans_streams_def [symmetric] b cong: if_cong)
qed

lemma ans_roundtrip_general:
  assumes enc: "ans_compress rnd symbols prec K = Inr blob"
    and fits: "card (set symbols) \<le> 2 ^ ans_precision symbols prec"
    and short: "length symbols < 2 ^ 31 - 2"
  shows "ans_decompress blob = Inr (map int symbols)"
proof (cases "symbols = []")
  case True
  then obtain h where h: "pack_header 0 0 (ans_precision symbols prec) 0 = Inr h" and "blob = MAGIC @ h"
    using enc by (auto simp: ans_compress_def Let_def ans_precision_def bind_err_eq_Inr)
  then show ?thesis
    using True unpack_header(1) [OF h] length_pack_header [OF h]
    by (simp add: ans_decompress_def Let_def MAGIC_def)
next
  case False
  have "ans_precision symbols prec \<ge> 1 \<and> ans_precision symbols prec \<le> 16"
  proof (rule ccontr)
    assume "\<not> ?thesis"
    then have "build_freq_table rnd symbols (ans_precision symbols prec) = Inl BadPrecision"
      by (auto simp: build_freq_table_def)
    with enc False show False by (simp add: ans_compress_def Let_def ans_precision_def)
  qed
  then have p: "1 \<le> ans_precision symbols prec" "ans_precision symbols prec \<le> 16" by auto
  obtain freq where tab: "freq_table_ok symbols (ans_precision symbols prec) freq"
    and eq: "ans_compress rnd symbols prec K =
      (if Max (set freq) > 65535 then Inl FreqTooLarge
       else bind_err (rans_encode_gpu symbols freq (0 # cumsum 0 freq) (ans_precision symbols prec)
             (ans_streams symbols K)) (\<lambda>(out, wpos, n_ret, L_s).
         bind_err (pack_header (length symbols) (ans_streams symbols K) (ans_precision symbols prec)
             (n_symbols symbols)) (\<lambda>h.
           Inr (MAGIC @ h @ array_bytes 2 (map (\<lambda>f. nat (f mod 65536)) freq) @ array_bytes 4 wpos
             @ array_bytes 2 (map (\<lambda>w. nat (w mod 65536)) (concat (map2 take wpos out)))))))"
    using ans_compress_table [OF False p fits] by blast
  have "\<not> Max (set freq) > 65535" using enc eq by (auto split: if_splits)
  then have small: "\<forall>f \<in> set freq. f \<le> 65535"
    by (meson List.finite_set Max_ge not_less order_trans)
  from enc eq obtain out wpos n_ret L_s h where
    "rans_encode_gpu symbols freq (0 # cumsum 0 freq) (ans_precision symbols prec)
       (ans_streams symbols K) = Inr (out, wpos, n_ret, L_s)"
    and "pack_header (length symbols) (ans_streams symbols K) (ans_precision symbols prec)
       (n_symbols symbols) = Inr h"
    and "blob = MAGIC @ h @ array_bytes 2 (map (\<lambda>f. nat (f mod 65536)) freq) @ array_bytes 4 wpos
       @ array_bytes 2 (map (\<lambda>w. nat (w mod 65536)) (concat (map2 take wpos out)))"
    by (auto simp: bind_err_eq_Inr split: if_splits)
  then show ?thesis
    using ans_roundtrip_table [OF tab p(2) False ans_streams_pos small short] by blast
qed

lemma card_set_le_n_symbols: "card (set symbols) \<le> n_symbols symbols"
proof -
  have "set symbols \<subseteq> {..<n_symbols symbols}" using n_symbols_bound by auto
  then have "card (set symbols) \<le> card {..<n_symbols symbols}" by (intro card_mono) auto
  then show ?thesis by simp
qed

text \<open>An entry of a usable table that does not fit 16 bits is the whole table: precision 16 and one symbol.\<close>

lemma freq_too_large:
  assumes tab: "freq_table_ok symbols p freq" and p: "p \<le> 16" and ne: "symbols \<noteq> []" and big: "65535 < Max (set freq)"
  shows "p = 16 \<and> card (set symbols) = 1"
proof -
  have nonneg: "\<forall>f \<in> set freq. 0 \<le> f" and total: "sum_list freq = 2 ^ p" and used: "\<forall>s \<in> set symbols. 1 \<le> freq ! s"
    and len: "length freq = n_symbols symbols"
    using tab by (auto simp: freq_table_ok_def)
  have "freq \<noteq> []" using len n_symbols_pos [of symbols] by auto
  then obtain j where j: "j < length freq" "65535 < freq ! j" using big by (metis Max_in List.finite_set in_set_conv_nth set_empty)
  have "freq ! j \<le> sum_list freq" using j(1) nonneg by (intro member_le_sum_list) auto
  then have "(2 :: int) ^ p > 2 ^ 16 - 1" using j(2) total by simp
  then have p16: "p = 16"
  proof (cases "p = 16")
    case False
    then have "(2 :: int) ^ p \<le> 2 ^ 15" using p by (intro power_increasing) auto
    then show ?thesis using \<open>(2 :: int) ^ p > 2 ^ 16 - 1\<close> by simp
  qed
  have "s = j" if s: "s \<in> set symbols" for s
  proof (rule ccontr)
    assume "s \<noteq> j"
    have "s < length freq" using s n_symbols_bound len by simp
    have "(\<Sum>i \<in> {s, j}. freq ! i) \<le> (\<Sum>i < length freq. freq ! i)"
      using \<open>s < length freq\<close> j(1) nonneg by (intro sum_mono2) auto
    also have "\<dots> = sum_list freq" by (simp add: sum_list_sum_nth atLeast0LessThan)
    finally have "(\<Sum>i \<in> {s, j}. freq ! i) \<le> 2 ^ 16" using total p16 by simp
    then show False using \<open>s \<noteq> j\<close> used s j(2) by fastforce
  qed
  then have "set symbols = {j}" using ne by (metis equals0I insertI1 set_empty singleton_iff subsetI subset_antisym empty_subsetI insert_subset)
  then show ?thesis using p16 by simp
qed

lemma ans_compress_total:
  assumes p: "1 \<le> ans_precision symbols prec" "ans_precision symbols prec \<le> 16"
    and fits: "card (set symbols) \<le> 2 ^ ans_precision symbols prec"
    and header: "length symbols < 256 ^ 8" "n_symbols symbols < 256 ^ 4" "ans_streams symbols K < 256 ^ 4"
  shows "(\<exists>blob. ans_compress rnd symbols prec K = Inr blob) \<or>
    ans_compress rnd symbols prec K = Inl FreqTooLarge \<and> ans_precision symbols prec = 16 \<and> card (set symbols) = 1"
proof (cases "symbols = []")
  case True
  then show ?thesis using p by (simp add: ans_compress_def pack_header_def ans_precision_def)
next
  case False
  let ?p = "ans_precision symbols prec" and ?K = "ans_streams symbols K"
  obtain freq where tab: "freq_table_ok symbols ?p freq"
    and eq: "ans_compress rnd symbols prec K =
      (if Max (set freq) > 65535 then Inl FreqTooLarge
       else bind_err (rans_encode_gpu symbols freq (0 # cumsum 0 freq) ?p ?K) (\<lambda>(out, wpos, n_ret, L_s).
         bind_err (pack_header (length symbols) ?K ?p (n_symbols symbols)) (\<lambda>h.
           Inr (MAGIC @ h @ array_bytes 2 (map (\<lambda>f. nat (f mod 65536)) freq) @ array_bytes 4 wpos
             @ array_bytes 2 (map (\<lambda>w. nat (w mod 65536)) (concat (map2 take wpos out)))))))"
    using ans_compress_table [OF False p fits] by blast
  show ?thesis
  proof (cases "Max (set freq) > 65535")
    case True
    then show ?thesis using eq freq_too_large [OF tab p(2) False] by simp
  next
    case small: False
    have "\<exists>h. pack_header (length symbols) ?K ?p (n_symbols symbols) = Inr h" using p header by (simp add: pack_header_def)
    moreover obtain out wpos n_ret L_s where "rans_encode_gpu symbols freq (0 # cumsum 0 freq) ?p ?K = Inr (out, wpos, n_ret, L_s)"
      using rans_streams_words [OF tab p(2) False ans_streams_pos [of symbols K]] by blast
    ultimately show ?thesis using eq small by auto
  qed
qed

section \<open>Properties\<close>

text \<open>C1: For any precision in 1..16 and any number of streams, given or chosen by the defaults, when no more than \<open>2 ^ precision\<close>
  distinct symbols are used and the header's fields hold the sizes (fewer than \<open>2 ^ 31 - 2\<close> symbols, streams and alphabet
  below \<open>2 ^ 32\<close>): whatever the floating-point rounding of the histogram does, \<open>ans_compress\<close> returns a blob that
  \<open>ans_decompress\<close> turns back into exactly the sequence, or it refuses with \<open>FreqTooLarge\<close>, and the latter only when the
  precision is 16 and a single symbol value makes up the sequence.\<close>

theorem ans_roundtrip:
  assumes "1 \<le> ans_precision symbols prec" and "ans_precision symbols prec \<le> 16"
    and "card (set symbols) \<le> 2 ^ ans_precision symbols prec"
    and "length symbols < 2 ^ 31 - 2" and "n_symbols symbols < 2 ^ 32" and "ans_streams symbols K < 2 ^ 32"
  shows "case ans_compress rnd symbols prec K of
      Inr blob \<Rightarrow> ans_decompress blob = Inr (map int symbols)
    | Inl err \<Rightarrow> err = FreqTooLarge \<and> ans_precision symbols prec = 16 \<and> card (set symbols) = 1"
proof -
  have "(\<exists>blob. ans_compress rnd symbols prec K = Inr blob) \<or>
      ans_compress rnd symbols prec K = Inl FreqTooLarge \<and> ans_precision symbols prec = 16 \<and> card (set symbols) = 1"
    by (rule ans_compress_total) (use assms in simp_all)
  then show ?thesis using ans_roundtrip_general [OF _ assms(3,4)] by auto
qed

definition round_down :: "nat \<Rightarrow> nat \<Rightarrow> nat \<Rightarrow> int" where
  "round_down h M n = int (h * M div n)"

theorem ans_roundtrip_witness:
  "case ans_compress round_down [3, 0, 3, 3, 5, 0, 3] (Some 2) (Some 3) of
      Inr blob \<Rightarrow> ans_decompress blob = Inr [3, 0, 3, 3, 5, 0, 3]
    | Inl err \<Rightarrow> False"
  using ans_roundtrip [of "[3, 0, 3, 3, 5, 0, 3]" "Some 2" "Some 3" round_down]
  by (auto simp: n_symbols_def ans_precision_def ans_streams_def card_insert_if split: sum.splits)

text \<open>C10: the batched coder is the scalar reference coder run on each interleaved stream: stream
  \<open>k\<close> of \<open>rans_encode_gpu\<close> holds in its first \<open>wpos[k]\<close> entries the words
  \<open>rans_encode_scalar\<close> produces for the symbols at positions \<open>t * K + k\<close> of the padded
  sequence, at most one word a symbol plus the two flush words, each of 16 bits; and
  \<open>rans_decode_gpu\<close> on those rows returns the symbols.\<close>

theorem rans_gpu_refines_scalar:
  assumes b: "build_freq_table rnd symbols p = Inr (freq, cum, n_sym)"
    and fits: "card (set symbols) \<le> 2 ^ p" and ne: "symbols \<noteq> []" and K: "0 < K"
  shows "\<exists>rows wpos L_s. rans_encode_gpu symbols freq cum p K = Inr (rows, wpos, length symbols, L_s) \<and>
    (\<forall>k < K. \<exists>words. rans_encode_scalar (stream_of (padded symbols freq K) K L_s k) freq (trim_cum freq cum) p
        = Inr words \<and> take (wpos ! k) (rows ! k) = words \<and> wpos ! k = length words \<and>
        length words \<le> L_s + 2 \<and> (\<forall>w \<in> set words. 0 \<le> w \<and> w < 65536)) \<and>
    rans_decode_gpu rows (map int wpos) freq cum (slot_to_symbol freq p) (length symbols) L_s p K
      = Inr (map int symbols)"
proof -
  have p: "1 \<le> p" "p \<le> 16" using b by (auto simp: build_freq_table_def Let_def split: if_splits)
  have tab: "freq_table_ok symbols p freq" and cum: "cum = 0 # cumsum 0 freq"
    using build_freq_table_correct [OF p ne fits, of rnd] b by auto
  obtain lanes :: "lane list" and wss where e: "rans_encode_gpu symbols freq cum p K =
      Inr (map lane_out lanes, map length wss, length symbols, ceil_div (length symbols) K)"
    and len: "length lanes = K" "length wss = K"
    and words: "map2 take (map length wss) (map lane_out lanes) = wss"
    and range: "\<forall>ws \<in> set wss. length ws \<le> ceil_div (length symbols) K + 2 \<and> (\<forall>w \<in> set ws. 0 \<le> w \<and> w < 65536)"
    and scalar: "\<forall>k < K. rans_encode_scalar (stream_of (padded symbols freq K) K (ceil_div (length symbols) K) k)
       freq (trim_cum freq cum) p = Inr (wss ! k)"
    using rans_streams_words [OF tab p(2) ne K] unfolding cum by blast
  have row: "take (map length wss ! k) (map lane_out lanes ! k) = wss ! k" if "k < K" for k
  proof -
    have "map2 take (map length wss) (map lane_out lanes) ! k = wss ! k" by (simp only: words)
    then show ?thesis using that len by simp
  qed
  have "rans_decode_gpu (map lane_out lanes) (map int (map length wss)) freq cum (slot_to_symbol freq p)
      (length symbols) (ceil_div (length symbols) K) p K = Inr (map int symbols)"
    unfolding cum
  proof (rule rans_decode_gpu_streams [OF K padded_ok [OF tab p(2) ne]])
    fix k assume k: "k < K"
    then have "prefix (wss ! k) (map lane_out lanes ! k)" using row [OF k] by (metis take_is_prefix)
    then show "\<exists>words. rans_encode_scalar (stream_of (padded symbols freq K) K (ceil_div (length symbols) K) k)
        freq (trim_cum freq (0 # cumsum 0 freq)) p = Inr words \<and>
      map int (map length wss) ! k = int (length words) \<and> prefix words (map lane_out lanes ! k)"
      using scalar k len by (simp add: cum)
  qed
  moreover have "\<forall>k < K. \<exists>words. rans_encode_scalar (stream_of (padded symbols freq K) K (ceil_div (length symbols) K) k)
        freq (trim_cum freq cum) p = Inr words \<and>
      take (map length wss ! k) (map lane_out lanes ! k) = words \<and> map length wss ! k = length words \<and>
      length words \<le> ceil_div (length symbols) K + 2 \<and> (\<forall>w \<in> set words. 0 \<le> w \<and> w < 65536)"
    using scalar row range len by auto
  ultimately show ?thesis using e by blast
qed

theorem rans_gpu_refines_scalar_witness:
  "\<exists>freq cum n_sym rows wpos L_s.
    build_freq_table round_down [1, 0, 1, 1, 2] 4 = Inr (freq, cum, n_sym) \<and>
    rans_encode_gpu [1, 0, 1, 1, 2] freq cum 4 2 = Inr (rows, wpos, 5, L_s) \<and>
    rans_decode_gpu rows (map int wpos) freq cum (slot_to_symbol freq 4) 5 L_s 4 2 = Inr [1, 0, 1, 1, 2]"
proof -
  obtain freq where b: "build_freq_table round_down [1, 0, 1, 1, 2] 4 =
      Inr (freq, 0 # cumsum 0 freq, n_symbols [1, 0, 1, 1, 2])"
    using build_freq_table_correct [of 4 "[1, 0, 1, 1, 2]" round_down] by (auto simp: card_insert_if)
  have "card (set [1, 0, 1, 1, 2 :: nat]) \<le> 2 ^ 4" by (simp add: card_insert_if)
  then obtain rows wpos L_s where
    "rans_encode_gpu [1, 0, 1, 1, 2] freq (0 # cumsum 0 freq) 4 2 =
      Inr (rows, wpos, length [1, 0, 1, 1, 2 :: nat], L_s)"
    and "rans_decode_gpu rows (map int wpos) freq (0 # cumsum 0 freq) (slot_to_symbol freq 4)
      (length [1, 0, 1, 1, 2 :: nat]) L_s 4 2 = Inr (map int [1, 0, 1, 1, 2])"
    using rans_gpu_refines_scalar [OF b, of 2] by auto
  moreover have "length [1, 0, 1, 1, 2 :: nat] = 5" "map int [1, 0, 1, 1, 2] = [1, 0, 1, 1, 2]" by simp_all
  ultimately show ?thesis using b by metis
qed

lemma freq_table_ok_card:
  assumes "freq_table_ok symbols p freq"
  shows "card (set symbols) \<le> 2 ^ p"
proof -
  have sub: "set symbols \<subseteq> {..<length freq}"
    using assms n_symbols_bound by (auto simp: freq_table_ok_def)
  have "int (card (set symbols)) = (\<Sum>s \<in> set symbols. 1)" by simp
  also have "\<dots> \<le> (\<Sum>s \<in> set symbols. freq ! s)"
    using assms by (intro sum_mono) (auto simp: freq_table_ok_def)
  also have "\<dots> \<le> (\<Sum>s < length freq. freq ! s)"
    using assms sub by (intro sum_mono2) (auto simp: freq_table_ok_def)
  also have "\<dots> = 2 ^ p"
  proof -
    have "(\<Sum>s < length freq. freq ! s) = sum_list freq"
      by (simp add: sum_list_sum_nth atLeast0LessThan)
    then show ?thesis using assms by (simp only: freq_table_ok_def)
  qed
  finally show ?thesis by (metis of_nat_le_iff of_nat_numeral of_nat_power)
qed

text \<open>C11: \<open>build_freq_table\<close> never raises for a precision in 1..16, and the table it returns
  sums to \<open>2 ^ precision\<close> with every used symbol at frequency 1 or more and no negative entry
  exactly when the sequence uses at most \<open>2 ^ precision\<close> distinct symbols; with more of them it
  still returns a table, and that table is not usable.\<close>

theorem build_freq_table_iff:
  assumes p: "1 \<le> p" "p \<le> 16" and ne: "symbols \<noteq> []"
  shows "\<exists>freq. build_freq_table rnd symbols p = Inr (freq, 0 # cumsum 0 freq, n_symbols symbols) \<and>
    (freq_table_ok symbols p freq \<longleftrightarrow> card (set symbols) \<le> 2 ^ p)"
proof (cases "card (set symbols) \<le> 2 ^ p")
  case True
  then show ?thesis using build_freq_table_correct [OF p ne] by blast
next
  case False
  then show ?thesis
    using p freq_table_ok_card [of symbols p] by (auto simp: build_freq_table_def Let_def)
qed

theorem build_freq_table_iff_witness:
  "\<exists>freq. build_freq_table round_down [0, 1, 2] 1 = Inr (freq, 0 # cumsum 0 freq, 3) \<and>
    \<not> freq_table_ok [0, 1, 2] 1 freq"
proof -
  have "n_symbols [0, 1, 2] = 3" by (simp add: n_symbols_def)
  moreover have "\<not> card (set [0, 1, 2 :: nat]) \<le> 2 ^ 1" by (simp add: card_insert_if)
  ultimately show ?thesis using build_freq_table_iff [of 1 "[0, 1, 2]" round_down] by simp
qed

text \<open>The refusal is real: a stream of one value at precision 16, the default for large values, has no 16-bit table.\<close>

lemma constant_stream_refused: "ans_compress rnd [0] (Some 16) K = Inl FreqTooLarge"
  by (simp add: ans_compress_def Let_def build_freq_table_def n_symbols_def bincount_def scaled_freq_def fix_total_def)

end
