(* ===== verification/Bitstream.thy ===== *)
theory Bitstream
  imports Bytes
begin

unbundle bit_operations_syntax

text \<open>
  \<open>orka/core/_format.py\<close>, the index streams: \<open>_pack_indices\<close>/\<open>_unpack_indices\<close> (the
  exact-width big-endian bitstream, processed in chunks), \<open>_pack_index_planes\<close> and its inverse
  (the low byte plane and the packed high plane the GPU kernels read), and the byte-aligned arrays.
  The three layouts are instances of one interface, the locale \<open>index_codec\<close>.
\<close>

datatype format_error =
    UnsupportedDtype string | BitsTooWide nat | ShapeMismatch | UnknownEncoding string
  | UnknownCodec nat | BadStream | SizeMismatch nat nat | NotFound string | IndexOutOfRange | EmptyReduction

section \<open>Bits and bytes\<close>

text \<open>The \<open>w\<close> low bits of \<open>v\<close>, most significant first, and the value of such a bit row.\<close>

fun msb_bits :: "nat \<Rightarrow> nat \<Rightarrow> bool list" where
  "msb_bits 0 v = []"
| "msb_bits (Suc w) v = odd (v div 2 ^ w) # msb_bits w v"

fun msb_val :: "bool list \<Rightarrow> nat" where
  "msb_val [] = 0"
| "msb_val (b # bs) = (if b then 2 ^ length bs else 0) + msb_val bs"

text \<open>\<open>np.packbits\<close>: bytes of eight bits, the last one padded with zeros; and \<open>np.unpackbits\<close>.\<close>

definition pack_byte :: "bool list \<Rightarrow> byte" where
  "pack_byte bs = word_of_nat (msb_val (bs @ replicate (8 - length bs) False))"

definition packbits :: "bool list \<Rightarrow> byte list" where
  "packbits bs = map pack_byte (blocks_of 8 bs)"

definition unpackbits :: "byte list \<Rightarrow> bool list" where
  "unpackbits bytes = concat (map (\<lambda>b. msb_bits 8 (unat b)) bytes)"

lemma length_msb_bits [simp]: "length (msb_bits w v) = w"
  by (induction w) simp_all

lemma msb_val_msb_bits: "msb_val (msb_bits w v) = v mod 2 ^ w"
proof (induction w)
  case (Suc w)
  have "v mod 2 ^ Suc w = v mod 2 ^ w + 2 ^ w * (v div 2 ^ w mod 2)"
    using mod_mult2_eq [of v "2 ^ w" 2] by (simp add: mult.commute add.commute)
  with Suc show ?case by (simp add: odd_iff_mod_2_eq_one)
qed simp

lemma msb_val_less: "msb_val bs < 2 ^ length bs"
  by (induction bs) auto

lemma msb_bits_add_multiple: "msb_bits w (v + 2 ^ w * k) = msb_bits w v"
proof (induction w arbitrary: k)
  case (Suc w)
  have "(v + 2 ^ w * (2 * k)) div 2 ^ w = 2 * k + v div 2 ^ w"
    by (intro div_mult_self2) simp
  then have "(v + 2 ^ Suc w * k) div 2 ^ w = v div 2 ^ w + 2 * k"
    by (simp add: mult.assoc mult.left_commute)
  moreover have "msb_bits w (v + 2 ^ w * (2 * k)) = msb_bits w v" by (rule Suc.IH)
  ultimately show ?case by (simp add: mult.assoc mult.left_commute)
qed simp

lemma msb_bits_msb_val: "msb_bits (length bs) (msb_val bs) = bs"
proof (induction bs)
  case (Cons b bs)
  have "msb_bits (length bs) (msb_val bs + 2 ^ length bs * (if b then 1 else 0)) = bs"
    using Cons by (simp only: msb_bits_add_multiple)
  then have "msb_bits (length bs) (msb_val (b # bs)) = bs"
    by (cases b) (simp_all add: add.commute)
  moreover have "odd (msb_val (b # bs) div 2 ^ length bs) = b"
    using msb_val_less [of bs] by auto
  ultimately show ?case by simp
qed simp

lemma msb_bits_pack_byte:
  assumes "length bs \<le> 8"
  shows "msb_bits 8 (unat (pack_byte bs)) = bs @ replicate (8 - length bs) False"
proof -
  let ?p = "bs @ replicate (8 - length bs) False"
  have len: "length ?p = 8" using assms by simp
  have "unat (pack_byte bs) = msb_val ?p"
    using msb_val_less [of ?p] by (simp only: pack_byte_def unat_byte len) simp
  then show ?thesis using msb_bits_msb_val [of ?p] len by simp
qed

lemma packbits_append: "8 dvd length a \<Longrightarrow> packbits (a @ b) = packbits a @ packbits b"
proof (induction "8 :: nat" a rule: blocks_of.induct)
  case (1 xs)
  show ?case
  proof (cases "xs = []")
    case True
    then show ?thesis by (simp add: packbits_def)
  next
    case False
    with 1 have "8 \<le> length xs" by (auto dest: dvd_imp_le)
    then have split: "xs = take 8 xs @ drop 8 xs" and len: "length (take 8 xs) = 8" by simp_all
    have "packbits (drop 8 xs @ b) = packbits (drop 8 xs) @ packbits b"
      using 1 False by (simp add: dvd_diff_nat)
    moreover have "packbits (take 8 xs @ ys) = pack_byte (take 8 xs) # packbits ys" for ys
      using len by (simp add: packbits_def blocks_of_append)
    ultimately show ?thesis using split by (metis append.assoc append_Cons)
  qed
qed

lemma ceil8_step: "0 < m \<Longrightarrow> Suc ((m - 8 + 7) div 8) = (m + 7) div 8" for m :: nat
proof (cases "m < 8")
  case True
  moreover assume "0 < m"
  ultimately have "(m + 7) div 8 = 1" by (intro div_nat_eqI) auto
  with True show ?thesis by simp
next
  case False
  then have "m + 7 = (m - 8 + 7) + 8" by simp
  then show ?thesis by (metis add_Suc_right add_0_right div_add_self2 Suc_eq_plus1 zero_neq_numeral)
qed

lemma length_packbits: "length (packbits bs) = (length bs + 7) div 8"
proof (induction "8 :: nat" bs rule: blocks_of.induct)
  case (1 xs)
  show ?case
  proof (cases "xs = []")
    case True
    then show ?thesis by (simp add: packbits_def)
  next
    case False
    then have "length (packbits xs) = Suc (length (packbits (drop 8 xs)))"
      by (simp add: packbits_def blocks_of.simps [of 8 xs])
    moreover have "length (packbits (drop 8 xs)) = (length (drop 8 xs) + 7) div 8"
      using 1 False by simp
    ultimately have "length (packbits xs) = Suc ((length xs - 8 + 7) div 8)"
      by (simp only: length_drop)
    also have "\<dots> = (length xs + 7) div 8" using False by (intro ceil8_step) simp
    finally show ?thesis .
  qed
qed

lemma unpackbits_packbits:
  "\<exists>k. unpackbits (packbits bs) = bs @ replicate k False"
proof (induction "8 :: nat" bs rule: blocks_of.induct)
  case (1 xs)
  show ?case
  proof (cases "xs = []")
    case True
    then show ?thesis by (simp add: packbits_def unpackbits_def)
  next
    case False
    then obtain k where IH: "unpackbits (packbits (drop 8 xs)) = drop 8 xs @ replicate k False"
      using 1 by auto
    have unf: "packbits xs = pack_byte (take 8 xs) # packbits (drop 8 xs)"
      using False by (simp add: packbits_def blocks_of.simps [of 8 xs])
    have "unpackbits (packbits xs) =
        (take 8 xs @ replicate (8 - length xs) False) @ drop 8 xs @ replicate k False"
      using IH unfolding unf by (simp add: unpackbits_def msb_bits_pack_byte)
    then show ?thesis
    proof (cases "8 \<le> length xs")
      case True
      then show ?thesis
        using \<open>unpackbits (packbits xs) = _\<close> append_take_drop_id [of 8 xs]
        by (intro exI [of _ k]) (metis append.assoc append_self_conv diff_is_0_eq replicate_0)
    next
      case short: False
      then show ?thesis
        using \<open>unpackbits (packbits xs) = _\<close>
        by (intro exI [of _ "8 - length xs + k"]) (simp only: replicate_add, simp)
    qed
  qed
qed

section \<open>The exact-width bitstream\<close>

definition PACK_CHUNK_INDICES :: nat where "PACK_CHUNK_INDICES = 2 ^ 22"

text \<open>
  The whole-stream packing the chunked loop must agree with: every index in its \<open>bits\<close> low bits.
\<close>

definition bit_matrix :: "nat \<Rightarrow> nat list \<Rightarrow> bool list" where
  "bit_matrix bits seg = concat (map (msb_bits bits) seg)"

text \<open>
  \<open>out[pos : pos + packed.size] = packed\<close> into an array of \<open>cap\<close> bytes: numpy refuses a
  slice of another size unless the source has one element, which it broadcasts.
\<close>

definition store_chunk :: "nat \<Rightarrow> byte list \<Rightarrow> byte list \<Rightarrow> format_error + byte list" where
  "store_chunk cap out packed =
     (let room = min (length packed) (cap - length out)
      in if room = length packed then Inr (out @ packed)
         else if length packed = 1 then Inr (out @ replicate room (hd packed))
         else Inl ShapeMismatch)"

definition pack_indices :: "nat list \<Rightarrow> nat \<Rightarrow> nat \<Rightarrow> format_error + byte list" where
  "pack_indices indices bits chunk_rows =
     (let arr = map (\<lambda>v. v mod 2 ^ 64) indices; n = length arr
      in if n = 0 then Inr []
         else foldM (\<lambda>out seg. store_chunk ((n * bits + 7) div 8) out (packbits (bit_matrix bits seg)))
                [] (blocks_of chunk_rows arr))"

text \<open>\<open>v.astype(np.int64)\<close> of an unsigned 64-bit value.\<close>

definition as_int64 :: "nat \<Rightarrow> int" where
  "as_int64 v = (let u = v mod 2 ^ 64 in if u < 2 ^ 63 then int u else int u - 2 ^ 64)"

text \<open>
  \<open>bits_chunk.reshape(rows, bits)\<close> and the weighted row sums; too few bits make numpy's
  \<open>reshape\<close> raise.
\<close>

definition decode_rows :: "nat \<Rightarrow> nat \<Rightarrow> bool list \<Rightarrow> format_error + int list" where
  "decode_rows rows bits bs =
     (if length bs = rows * bits
      then Inr (map (\<lambda>r. as_int64 (msb_val (take bits (drop (r * bits) bs)))) [0..<rows])
      else Inl ShapeMismatch)"

definition unpack_chunk :: "byte list \<Rightarrow> nat \<Rightarrow> nat \<Rightarrow> nat \<Rightarrow> format_error + int list" where
  "unpack_chunk raw bits i j =
     (let byte_lo = i * bits div 8; byte_hi = (j * bits + 7) div 8
      in decode_rows (j - i) bits
           (take ((j - i) * bits) (unpackbits (take (byte_hi - byte_lo) (drop byte_lo raw)))))"

function unpack_from :: "byte list \<Rightarrow> nat \<Rightarrow> nat \<Rightarrow> nat \<Rightarrow> nat \<Rightarrow> format_error + int list" where
  "unpack_from raw bits count chunk_rows i =
     (if i < count \<and> 0 < chunk_rows then
        bind_err (unpack_chunk raw bits i (min (i + chunk_rows) count)) (\<lambda>vals.
        bind_err (unpack_from raw bits count chunk_rows (i + chunk_rows)) (\<lambda>rest. Inr (vals @ rest)))
      else Inr [])"
  by pat_completeness auto
termination
  by (relation "measure (\<lambda>(raw, bits, count, chunk_rows, i). count - i)") auto

declare unpack_from.simps [simp del]

definition unpack_indices :: "byte list \<Rightarrow> nat \<Rightarrow> nat \<Rightarrow> nat \<Rightarrow> format_error + int list" where
  "unpack_indices packed bits count chunk_rows =
     (if count = 0 then Inr [] else unpack_from packed bits count chunk_rows 0)"

lemma length_bit_matrix [simp]: "length (bit_matrix bits seg) = length seg * bits"
  by (induction seg) (simp_all add: bit_matrix_def)

lemma bit_matrix_simps [simp]:
  "bit_matrix bits [] = []"
  "bit_matrix bits (x # xs) = msb_bits bits x @ bit_matrix bits xs"
  by (simp_all add: bit_matrix_def)

lemma bit_matrix_append: "bit_matrix bits (a @ b) = bit_matrix bits a @ bit_matrix bits b"
  by (simp add: bit_matrix_def)

lemma bit_matrix_drop: "drop (i * bits) (bit_matrix bits xs) = bit_matrix bits (drop i xs)"
proof (cases "i \<le> length xs")
  case True
  then have "bit_matrix bits xs = bit_matrix bits (take i xs) @ bit_matrix bits (drop i xs)"
    by (simp flip: bit_matrix_append)
  moreover have "length (bit_matrix bits (take i xs)) = i * bits" using True by simp
  ultimately show ?thesis by (metis append_eq_conv_conj)
next
  case False
  then show ?thesis by simp
qed

lemma bit_matrix_row:
  assumes "i < length xs"
  shows "take bits (drop (i * bits) (bit_matrix bits xs)) = msb_bits bits (xs ! i)"
proof -
  have "bit_matrix bits (drop i xs) = msb_bits bits (xs ! i) @ bit_matrix bits (drop (Suc i) xs)"
    using assms by (simp flip: Cons_nth_drop_Suc)
  then show ?thesis by (simp add: bit_matrix_drop)
qed

lemma as_int64_small: "v < 2 ^ 63 \<Longrightarrow> as_int64 v = int v"
  by (simp add: as_int64_def)

lemma decode_rows_bit_matrix:
  assumes "\<forall>x \<in> set xs. x < 2 ^ bits" and "bits \<le> 63"
  shows "decode_rows (length xs) bits (bit_matrix bits xs) = Inr (map int xs)"
proof -
  have small: "x < 2 ^ 63" if "x \<in> set xs" for x
    using assms that power_increasing [of bits 63 "2 :: nat"] by fastforce
  have "map (\<lambda>r. as_int64 (msb_val (take bits (drop (r * bits) (bit_matrix bits xs))))) [0..<length xs]
    = map int xs"
    using assms(1) small
    by (intro nth_equalityI) (simp_all add: bit_matrix_row msb_val_msb_bits as_int64_small)
  then show ?thesis by (simp add: decode_rows_def)
qed

text \<open>The chunked loop produces the whole-stream bytes: chunk boundaries fall on byte boundaries.\<close>

lemma store_chunk_fits:
  "length out + length p \<le> cap \<Longrightarrow> store_chunk cap out p = Inr (out @ p)"
  by (cases "p = []") (auto simp: store_chunk_def Let_def min_def)

lemma packbits_Nil [simp]: "packbits [] = []"
  by (simp add: packbits_def)

lemma store_chunks:
  assumes k: "0 < k" "8 dvd k" and room: "length out + length (packbits (bit_matrix bits xs)) \<le> cap"
  shows "foldM (\<lambda>out seg. store_chunk cap out (packbits (bit_matrix bits seg))) out (blocks_of k xs) =
    Inr (out @ packbits (bit_matrix bits xs))"
  using assms
proof (induction k xs arbitrary: out rule: blocks_of.induct)
  case (1 k xs)
  show ?case
  proof (cases "xs = []")
    case True
    then show ?thesis by (simp add: bit_matrix_def packbits_def)
  next
    case False
    show ?thesis
    proof (cases "length xs \<le> k")
      case True
      then have "blocks_of k xs = [xs]"
        using False "1.prems"(1) by (simp add: blocks_of.simps [of k xs])
      then show ?thesis using "1.prems"(3) by (simp add: store_chunk_fits)
    next
      case long: False
      let ?a = "take k xs" and ?b = "drop k xs"
      have pack: "packbits (bit_matrix bits xs) = packbits (bit_matrix bits ?a) @ packbits (bit_matrix bits ?b)"
        using "1.prems"(2) long bit_matrix_append [of bits ?a ?b]
        by (simp add: packbits_append)
      have "blocks_of k xs = ?a # blocks_of k ?b"
        using False "1.prems"(1) by (simp add: blocks_of.simps [of k xs])
      moreover have "store_chunk cap out (packbits (bit_matrix bits ?a)) = Inr (out @ packbits (bit_matrix bits ?a))"
        using "1.prems"(3) pack by (intro store_chunk_fits) simp
      ultimately show ?thesis
        using "1.IH" [of "out @ packbits (bit_matrix bits ?a)"] False "1.prems" pack by simp
    qed
  qed
qed

lemma pack_indices_eq:
  assumes "0 < chunk" and "8 dvd chunk" and "\<forall>x \<in> set xs. x < 2 ^ 64"
  shows "pack_indices xs bits chunk = Inr (packbits (bit_matrix bits xs))"
proof -
  have "map (\<lambda>v. v mod 2 ^ 64) xs = map (\<lambda>v. v) xs"
    using assms(3) by (intro map_cong) auto
  then show ?thesis
    using assms(1,2) store_chunks [of chunk "[]" bits xs "(length xs * bits + 7) div 8"]
    by (auto simp: pack_indices_def Let_def length_packbits)
qed

lemma unpackbits_Nil [simp]: "unpackbits [] = []"
  by (simp add: unpackbits_def)

lemma unpackbits_append [simp]: "unpackbits (a @ b) = unpackbits a @ unpackbits b"
  by (simp add: unpackbits_def)

lemma length_unpackbits [simp]: "length (unpackbits bs) = 8 * length bs"
  by (induction bs) (simp_all add: unpackbits_def)

lemma unpackbits_drop: "unpackbits (drop n bs) = drop (8 * n) (unpackbits bs)"
proof (cases "n \<le> length bs")
  case True
  then have "unpackbits bs = unpackbits (take n bs) @ unpackbits (drop n bs)"
    by (simp flip: unpackbits_append)
  moreover have "length (unpackbits (take n bs)) = 8 * n" using True by simp
  ultimately show ?thesis by (metis append_eq_conv_conj)
next
  case False
  then show ?thesis by simp
qed

lemma unpackbits_take: "unpackbits (take n bs) = take (8 * n) (unpackbits bs)"
proof (cases "n \<le> length bs")
  case True
  then have "unpackbits bs = unpackbits (take n bs) @ unpackbits (drop n bs)"
    by (simp flip: unpackbits_append)
  moreover have "length (unpackbits (take n bs)) = 8 * n" using True by simp
  ultimately show ?thesis by (metis append_eq_conv_conj)
next
  case False
  then show ?thesis by simp
qed

lemma unpack_chunk_eq:
  assumes raw: "raw = packbits (bit_matrix bits xs)" and i: "8 dvd i" and ij: "i \<le> j" "j \<le> length xs"
    and vals: "\<forall>x \<in> set xs. x < 2 ^ bits" and bits: "bits \<le> 63"
  shows "unpack_chunk raw bits i j = Inr (map int (take (j - i) (drop i xs)))"
proof -
  let ?lo = "i * bits div 8" and ?hi = "(j * bits + 7) div 8"
  have lo: "8 * ?lo = i * bits" using i by (simp add: dvd_mult2)
  obtain k where un: "unpackbits raw = bit_matrix bits xs @ replicate k False"
    using unpackbits_packbits raw by blast
  have ge: "(j - i) * bits \<le> 8 * (?hi - ?lo)"
  proof -
    have "j * bits \<le> 8 * ?hi" by simp
    moreover have "(j - i) * bits = j * bits - i * bits" by (simp add: diff_mult_distrib)
    ultimately show ?thesis using lo by (simp add: diff_mult_distrib2)
  qed
  have room: "(j - i) * bits \<le> length (bit_matrix bits (drop i xs))"
    unfolding length_bit_matrix using ij by (intro mult_right_mono) auto
  have "take ((j - i) * bits) (unpackbits (take (?hi - ?lo) (drop ?lo raw)))
      = take ((j - i) * bits) (drop (i * bits) (unpackbits raw))"
    using ge by (simp add: unpackbits_take unpackbits_drop lo min_absorb1)
  also have "drop (i * bits) (unpackbits raw) = bit_matrix bits (drop i xs) @ replicate k False"
    using ij unfolding un by (simp add: bit_matrix_drop)
  also have "take ((j - i) * bits) (bit_matrix bits (drop i xs) @ replicate k False) =
      bit_matrix bits (take (j - i) (drop i xs))"
  proof -
    have "bit_matrix bits (drop i xs) =
        bit_matrix bits (take (j - i) (drop i xs)) @ bit_matrix bits (drop (j - i) (drop i xs))"
      by (simp only: bit_matrix_append [symmetric] append_take_drop_id)
    moreover have "length (bit_matrix bits (take (j - i) (drop i xs))) = (j - i) * bits"
      using ij by (simp add: min_absorb2)
    ultimately show ?thesis by (simp only: append_assoc append_eq_conv_conj [symmetric] take_append) simp
  qed
  finally have "unpack_chunk raw bits i j = decode_rows (j - i) bits (bit_matrix bits (take (j - i) (drop i xs)))"
    by (simp add: unpack_chunk_def Let_def)
  moreover have "length (take (j - i) (drop i xs)) = j - i" using ij by simp
  moreover have "\<forall>x \<in> set (take (j - i) (drop i xs)). x < 2 ^ bits"
    using vals by (meson in_set_dropD in_set_takeD)
  ultimately show ?thesis using decode_rows_bit_matrix [OF _ bits] by metis
qed

lemma unpack_from_eq:
  assumes "raw = packbits (bit_matrix bits xs)" and "8 dvd i" and "0 < chunk" "8 dvd chunk"
    and "\<forall>x \<in> set xs. x < 2 ^ bits" and "bits \<le> 63"
  shows "unpack_from raw bits (length xs) chunk i = Inr (map int (drop i xs))"
  using assms(2)
proof (induction "length xs - i" arbitrary: i rule: less_induct)
  case less
  show ?case
  proof (cases "i < length xs")
    case False
    then show ?thesis by (simp add: unpack_from.simps)
  next
    case True
    let ?j = "min (i + chunk) (length xs)"
    have chunk: "unpack_chunk raw bits i ?j = Inr (map int (take (?j - i) (drop i xs)))"
      using True assms less.prems by (intro unpack_chunk_eq) auto
    have "unpack_from raw bits (length xs) chunk (i + chunk) = Inr (map int (drop (i + chunk) xs))"
      using True assms(3,4) less.prems by (intro less.hyps) auto
    moreover have "take (?j - i) (drop i xs) @ drop (i + chunk) xs = drop i xs"
    proof -
      have "take (?j - i) (drop i xs) = take chunk (drop i xs)"
        by (auto simp: min_def)
      moreover have "drop (i + chunk) xs = drop chunk (drop i xs)" by (simp add: add.commute)
      ultimately show ?thesis by (metis append_take_drop_id)
    qed
    ultimately show ?thesis
      using True assms(3) chunk
      by (subst unpack_from.simps) (simp flip: map_append)
  qed
qed

lemma unpack_pack_indices:
  assumes "0 < chunk" and "8 dvd chunk" and "\<forall>x \<in> set xs. x < 2 ^ bits" and "bits \<le> 63"
  shows "\<exists>packed. pack_indices xs bits chunk = Inr packed \<and>
    length packed = (length xs * bits + 7) div 8 \<and>
    unpack_indices packed bits (length xs) chunk = Inr (map int xs)"
proof -
  have "\<forall>x \<in> set xs. x < 2 ^ 64"
    using assms(3,4) power_increasing [of bits 64 "2 :: nat"] by fastforce
  then have "pack_indices xs bits chunk = Inr (packbits (bit_matrix bits xs))"
    using assms(1,2) by (intro pack_indices_eq)
  moreover have "unpack_indices (packbits (bit_matrix bits xs)) bits (length xs) chunk = Inr (map int xs)"
    using unpack_from_eq [OF refl _ assms, of 0] by (simp add: unpack_indices_def)
  ultimately show ?thesis by (simp add: length_packbits)
qed

section \<open>The two byte planes\<close>

definition pack_index_planes :: "nat \<Rightarrow> nat list \<Rightarrow> format_error + byte list \<times> byte list" where
  "pack_index_planes width indices =
     (let arr = map (\<lambda>v. v mod 2 ^ 64) indices; lo = map (\<lambda>v. word_of_nat (v mod 256)) arr
      in if width \<le> 8 then Inr (lo, [])
         else bind_err (pack_indices (map (\<lambda>v. v div 256) arr) (width - 8) PACK_CHUNK_INDICES)
                (\<lambda>hi. Inr (lo, hi)))"

text \<open>
  The bitwise \<open>lo | (hi << 8)\<close> works on \<open>uint64\<close> and is numpy's broadcasting sum of two rows
  of the same length; a row shorter than \<open>count\<close> makes the \<open>|\<close> raise.
\<close>

definition unpack_index_planes ::
  "nat \<Rightarrow> nat \<Rightarrow> byte list \<times> byte list \<Rightarrow> format_error + int list" where
  "unpack_index_planes width count planes =
     (case planes of (lo, hi_packed) \<Rightarrow>
        if count = 0 then Inr []
        else
          (let idx = map unat (take count lo)
           in if width > 8 then
                bind_err (unpack_indices hi_packed (width - 8) count PACK_CHUNK_INDICES) (\<lambda>hi.
                  if length idx \<noteq> count then Inl ShapeMismatch
                  else Inr (map2 (\<lambda>l h. as_int64 (unat ((word_of_nat l :: 64 word) OR
                                          push_bit 8 (word_of_int h)))) idx hi))
              else Inr (map as_int64 idx)))"

lemma plane_or:
  assumes "l < 256" and "h < 2 ^ 55"
  shows "unat ((word_of_nat l :: 64 word) OR push_bit 8 (word_of_int (int h))) = l + 256 * h"
proof -
  have h: "word_of_int (int h) = (word_of_nat h :: 64 word)" by simp
  have "take_bit 64 (push_bit 8 h) = push_bit 8 h"
    using assms(2) by (simp add: push_bit_eq_mult take_bit_eq_mod)
  moreover have "take_bit 64 l = l" using assms(1) by (simp add: take_bit_eq_mod)
  ultimately have "unat ((word_of_nat l :: 64 word) OR push_bit 8 (word_of_nat h)) = l OR push_bit 8 h"
    by (simp add: unsigned_or_eq unsigned_push_bit_eq unsigned_of_nat take_bit_push_bit)
  moreover have "l AND push_bit 8 h = 0"
  proof -
    have "l = take_bit 8 l" using assms(1) by (simp add: take_bit_eq_mod)
    then show ?thesis
      by (metis (no_types, lifting) bit_eqI bit_and_iff bit_push_bit_iff bit_take_bit_iff
        bit_0_eq bot_apply bot_bool_def not_le)
  qed
  then have "l OR push_bit 8 h = l + push_bit 8 h" by (rule disjunctive_add_eq_or [symmetric])
  ultimately show ?thesis unfolding h by (simp add: push_bit_eq_mult mult.commute)
qed

lemma planes_roundtrip:
  assumes vals: "\<forall>x \<in> set xs. x < 2 ^ width" and width: "width \<le> 63"
  shows "\<exists>planes. pack_index_planes width xs = Inr planes \<and>
    unpack_index_planes width (length xs) planes = Inr (map int xs) \<and>
    length (fst planes) = length xs \<and>
    length (snd planes) = (length xs * (width - 8) + 7) div 8"
proof -
  have "map (\<lambda>v. v mod 2 ^ 64) xs = map (\<lambda>v. v) xs"
    using assms power_increasing [of width 64 "2 :: nat"] by (intro map_cong) fastforce+
  then have arr: "map (\<lambda>v. v mod 2 ^ 64) xs = xs" by simp
  show ?thesis
  proof (cases "width \<le> 8")
    case True
    have small: "x < 256" if "x \<in> set xs" for x
      using vals True that power_increasing [of width 8 "2 :: nat"] by fastforce
    then have "map (as_int64 \<circ> (unat \<circ> (\<lambda>v. word_of_nat (v mod 256) :: byte))) xs = map int xs"
      by (intro map_cong) (fastforce simp: unat_byte as_int64_small)+
    then have "unpack_index_planes width (length xs) (map (\<lambda>v. word_of_nat (v mod 256)) xs, []) = Inr (map int xs)"
      using True by (simp add: unpack_index_planes_def)
    then show ?thesis
      using True by (simp only: pack_index_planes_def arr Let_def if_True) auto
  next
    case False
    let ?hi = "map (\<lambda>v. v div 256) xs"
    have "v div 256 < 2 ^ (width - 8)" if "v \<in> set xs" for v
    proof -
      have "v < 2 ^ (width - 8) * 256"
      proof -
        have "(2 :: nat) ^ width = 2 ^ (width - 8) * 256"
          using False power_add [of "2 :: nat" "width - 8" 8] by simp
        then show ?thesis using vals that by metis
      qed
      then show ?thesis by (simp add: less_mult_imp_div_less)
    qed
    then have hivals: "\<forall>x \<in> set ?hi. x < 2 ^ (width - 8)" by auto
    have chunk: "0 < PACK_CHUNK_INDICES" "8 dvd PACK_CHUNK_INDICES" by (simp_all add: PACK_CHUNK_INDICES_def)
    obtain packed where packed: "pack_indices ?hi (width - 8) PACK_CHUNK_INDICES = Inr packed"
      "length packed = (length xs * (width - 8) + 7) div 8"
      "unpack_indices packed (width - 8) (length xs) PACK_CHUNK_INDICES = Inr (map int ?hi)"
    proof -
      have "width - 8 \<le> 63" using width by linarith
      from unpack_pack_indices [OF chunk hivals this] show thesis by (auto intro: that)
    qed
    have each: "as_int64 (unat ((word_of_nat (unat (word_of_nat (x mod 256) :: byte)) :: 64 word) OR
        push_bit 8 (word_of_int (int (x div 256))))) = int x" if "x \<in> set xs" for x
    proof -
      have x: "x < 2 ^ 63" using vals width that power_increasing [of width 63 "2 :: nat"] by fastforce
      then have "x div 256 < 2 ^ 55" by (simp add: less_mult_imp_div_less)
      then have "unat ((word_of_nat (unat (word_of_nat (x mod 256) :: byte)) :: 64 word) OR
          push_bit 8 (word_of_int (int (x div 256)))) = x mod 256 + 256 * (x div 256)"
        by (subst plane_or) (simp_all add: unat_byte)
      with x show ?thesis by (simp only: mod_mult_div_eq as_int64_small)
    qed
    show ?thesis
    proof (cases "xs = []")
      case True
      with packed False show ?thesis
        by (auto simp: pack_index_planes_def unpack_index_planes_def)
    next
      case ne: False
      let ?lo = "map (\<lambda>v. word_of_nat (v mod 256) :: byte) xs"
      have "map2 (\<lambda>l h. as_int64 (unat ((word_of_nat l :: 64 word) OR push_bit 8 (word_of_int h))))
          (map unat ?lo) (map int ?hi) = map int xs"
        using each by (intro nth_equalityI) (simp_all del: of_nat_mod of_nat_div)
      then have "unpack_index_planes width (length xs) (?lo, packed) = Inr (map int xs)"
        using False ne packed(3) by (simp add: unpack_index_planes_def Let_def)
      moreover have "pack_index_planes width xs = Inr (?lo, packed)"
        using False packed(1) by (simp only: pack_index_planes_def arr Let_def if_False bind_err_simps)
      ultimately show ?thesis using packed(2) by auto
    qed
  qed
qed

section \<open>The interface of an index layout\<close>

text \<open>
  What the sidecar files rely on, whatever the layout: indices of the declared width survive, and
  so two streams of one length with the same encoding are the same stream.
\<close>

locale index_codec =
  fixes enc :: "nat \<Rightarrow> nat list \<Rightarrow> format_error + 'p"
    and dec :: "nat \<Rightarrow> nat \<Rightarrow> 'p \<Rightarrow> format_error + int list"
    and ok :: "nat \<Rightarrow> bool"
  assumes dec_enc: "ok w \<Longrightarrow> \<forall>x \<in> set xs. x < 2 ^ w \<Longrightarrow>
    \<exists>p. enc w xs = Inr p \<and> dec w (length xs) p = Inr (map int xs)"
begin

lemma enc_total:
  assumes "ok w" and "\<forall>x \<in> set xs. x < 2 ^ w"
  obtains p where "enc w xs = Inr p" and "dec w (length xs) p = Inr (map int xs)"
  using dec_enc [OF assms] by blast

lemma enc_inj:
  assumes "ok w" and "\<forall>x \<in> set xs. x < 2 ^ w" and "\<forall>x \<in> set ys. x < 2 ^ w"
    and "length xs = length ys" and "enc w xs = enc w ys"
  shows "xs = ys"
proof -
  obtain p where p: "enc w xs = Inr p" "dec w (length xs) p = Inr (map int xs)"
    using assms(1,2) by (rule enc_total)
  obtain q where "enc w ys = Inr q" "dec w (length ys) q = Inr (map int ys)"
    using assms(1,3) by (rule enc_total)
  with p assms(4,5) have "map int xs = map int ys" by simp
  then show ?thesis by (simp add: inj_map_eq_map inj_of_nat)
qed

text \<open>A layout may be wrapped in any lossless byte transformation.\<close>

lemma wrapped:
  assumes "ok w" and "\<forall>x \<in> set xs. x < 2 ^ w" and "\<And>p. unwrap (wrap p) = p"
  shows "\<exists>p. enc w xs = Inr p \<and> dec w (length xs) (unwrap (wrap p)) = Inr (map int xs)"
  using dec_enc [OF assms(1,2)] assms(3) by simp

end

definition bits_enc :: "nat \<Rightarrow> nat list \<Rightarrow> format_error + byte list" where
  "bits_enc w xs = pack_indices xs w PACK_CHUNK_INDICES"

definition bits_dec :: "nat \<Rightarrow> nat \<Rightarrow> byte list \<Rightarrow> format_error + int list" where
  "bits_dec w n p = unpack_indices p w n PACK_CHUNK_INDICES"

interpretation bit_layout: index_codec bits_enc bits_dec "\<lambda>w. w \<le> 63"
proof
  fix w and xs :: "nat list" assume w: "w \<le> 63" and xs: "\<forall>x \<in> set xs. x < 2 ^ w"
  have "0 < PACK_CHUNK_INDICES" "8 dvd PACK_CHUNK_INDICES"
    by (simp_all add: PACK_CHUNK_INDICES_def)
  from unpack_pack_indices [OF this xs w]
  show "\<exists>p. bits_enc w xs = Inr p \<and> bits_dec w (length xs) p = Inr (map int xs)"
    by (auto simp: bits_enc_def bits_dec_def)
qed

interpretation plane_layout: index_codec pack_index_planes unpack_index_planes "\<lambda>w. w \<le> 63"
  by unfold_locales (use planes_roundtrip in blast)

text \<open>Byte-aligned widths: \<open>_INDEX_BIT_SPECS\<close> picks the narrowest numpy type that holds them.\<close>

definition index_bit_spec :: "nat \<Rightarrow> format_error + nat \<times> string \<times> string" where
  "index_bit_spec index_bits =
     (if index_bits \<le> 8 then Inr (8, ''<u1'', ''<B'')
      else if index_bits \<le> 16 then Inr (16, ''<u2'', ''<H'')
      else if index_bits \<le> 32 then Inr (32, ''<u4'', ''<I'')
      else if index_bits \<le> 64 then Inr (64, ''<u8'', ''<Q'')
      else Inl (BitsTooWide index_bits))"

text \<open>The item size of a little-endian numpy type string.\<close>

definition itemsize :: "string \<Rightarrow> nat" where
  "itemsize dt = digit_val (last dt)"

definition array_enc :: "nat \<Rightarrow> nat list \<Rightarrow> format_error + byte list" where
  "array_enc index_bits indices =
     bind_err (index_bit_spec index_bits) (\<lambda>(_, np_dtype, _). Inr (array_bytes (itemsize np_dtype) indices))"

definition frombuffer_dt :: "string \<Rightarrow> byte list \<Rightarrow> format_error + nat list" where
  "frombuffer_dt dt bs =
     (if length bs mod itemsize dt = 0 then Inr (array_of_bytes (itemsize dt) bs) else Inl ShapeMismatch)"

definition array_dec :: "nat \<Rightarrow> nat \<Rightarrow> byte list \<Rightarrow> format_error + int list" where
  "array_dec index_bits expected_count data =
     bind_err (index_bit_spec index_bits) (\<lambda>(_, np_dtype, _).
     bind_err (frombuffer_dt np_dtype data) (\<lambda>arr.
       if length arr \<noteq> expected_count then Inl (SizeMismatch expected_count (length arr))
       else Inr (map int arr)))"

lemma index_bit_spec_wide:
  assumes "w \<le> 64"
  obtains c dt fmt where "index_bit_spec w = Inr (c, dt, fmt)" and "0 < itemsize dt"
    and "c = 8 * itemsize dt" and "w \<le> c"
proof -
  consider "w \<le> 8" | "8 < w" "w \<le> 16" | "16 < w" "w \<le> 32" | "32 < w" using assms by linarith
  then show thesis
    using assms that by cases (auto simp: index_bit_spec_def itemsize_def digit_val_def)
qed

interpretation array_layout: index_codec array_enc array_dec "\<lambda>w. w \<le> 64"
proof
  fix w and xs :: "nat list" assume w: "w \<le> 64" and xs: "\<forall>x \<in> set xs. x < 2 ^ w"
  obtain c dt fmt where spec: "index_bit_spec w = Inr (c, dt, fmt)" "0 < itemsize dt"
    "c = 8 * itemsize dt" "w \<le> c" using w by (rule index_bit_spec_wide)
  have "(2 :: nat) ^ w \<le> 256 ^ itemsize dt"
  proof -
    have "(256 :: nat) ^ itemsize dt = 2 ^ c" unfolding spec(3) power_mult by simp
    then show ?thesis using spec(4) by (simp add: power_increasing)
  qed
  with xs have "\<forall>x \<in> set xs. x < 256 ^ itemsize dt" by fastforce
  then show "\<exists>p. array_enc w xs = Inr p \<and> array_dec w (length xs) p = Inr (map int xs)"
    using spec by (simp add: array_enc_def array_dec_def frombuffer_dt_def array_roundtrip)
qed

section \<open>Properties\<close>

text \<open>\<open>_pack_indices\<close> is chunked, but for every chunk size that is a multiple of 8 its bytes
  are those of packing the whole bit matrix at once, exactly \<open>ceil(n * bits / 8)\<close> of them.\<close>

theorem pack_indices_single_shot:
  assumes "0 < chunk_rows" and "8 dvd chunk_rows" and "\<forall>x \<in> set xs. x < 2 ^ 64"
  shows "pack_indices xs bits chunk_rows = Inr (packbits (bit_matrix bits xs)) \<and>
    length (packbits (bit_matrix bits xs)) = (length xs * bits + 7) div 8"
  using pack_indices_eq [OF assms] by (simp add: length_packbits)

theorem pack_indices_single_shot_witness:
  "pack_indices [5, 2, 7, 1, 0, 3, 6, 4, 5] 3 8 = Inr (packbits (bit_matrix 3 [5, 2, 7, 1, 0, 3, 6, 4, 5])) \<and>
    length (packbits (bit_matrix 3 [5, 2, 7, 1, 0, 3, 6, 4, 5])) = 4"
  using pack_indices_single_shot [of 8 "[5, 2, 7, 1, 0, 3, 6, 4, 5]" 3] by simp

text \<open>\<open>_unpack_indices\<close> and \<open>_unpack_index_planes\<close> are lossless inverses of their packers for
  every width up to 63 bits: the packed stream occupies \<open>ceil(n * width / 8)\<close> bytes, the planes
  one byte an index plus \<open>width - 8\<close> bits.\<close>

theorem index_layouts_lossless:
  assumes "\<forall>x \<in> set xs. x < 2 ^ width" and "width \<le> 63"
  shows "(\<exists>packed. pack_indices xs width PACK_CHUNK_INDICES = Inr packed \<and>
      length packed = (length xs * width + 7) div 8 \<and>
      unpack_indices packed width (length xs) PACK_CHUNK_INDICES = Inr (map int xs)) \<and>
    (\<exists>lo hi. pack_index_planes width xs = Inr (lo, hi) \<and> length lo = length xs \<and>
      length hi = (length xs * (width - 8) + 7) div 8 \<and>
      unpack_index_planes width (length xs) (lo, hi) = Inr (map int xs))"
proof -
  have "0 < PACK_CHUNK_INDICES" "8 dvd PACK_CHUNK_INDICES" by (simp_all add: PACK_CHUNK_INDICES_def)
  then show ?thesis
    using unpack_pack_indices [OF _ _ assms] planes_roundtrip [OF assms] by fastforce
qed

theorem index_layouts_lossless_witness:
  "(\<exists>packed. pack_indices [1000, 3, 2047] 11 PACK_CHUNK_INDICES = Inr packed \<and> length packed = 5 \<and>
      unpack_indices packed 11 3 PACK_CHUNK_INDICES = Inr [1000, 3, 2047]) \<and>
    (\<exists>lo hi. pack_index_planes 11 [1000, 3, 2047] = Inr (lo, hi) \<and>
      unpack_index_planes 11 3 (lo, hi) = Inr [1000, 3, 2047])"
  using index_layouts_lossless [of "[1000, 3, 2047]" 11] by (auto simp: numeral_3_eq_3)

end
