(* ===== verification/Sidecars.thy ===== *)
theory Sidecars
  imports Bitstream
begin

text \<open>
  \<open>orka/core/_format.py\<close>, the files: index streams with their recorded encoding, the
  self-describing blobs, float vectors with the fp16/f32 fallback, delta-coded outliers, SLRQ
  salient sidecars, pillars and int8 codebooks.

  A directory of files is a map from paths to bytes. What the code takes from libraries is the
  record \<open>env\<close>: \<open>zlib\<close>'s compress and decompress, and numpy's conversions between a
  float32 value (type \<open>'f\<close>) and the bit patterns of fp16 and float32. \<open>env_ok\<close> states what
  their documentation promises: decompression undoes compression, float32 bits are exact, and a
  value rounded to fp16 is a fixed point of the rounding and still in range. \<open>torch_tie\<close> picks among
  the positions of equal maxima, which torch leaves to the device; nothing is assumed of it.
\<close>

type_synonym store = "string \<rightharpoonup> byte list"

record 'f env =
  zcompress :: "byte list \<Rightarrow> byte list"
  zdecompress :: "byte list \<Rightarrow> byte list option"
  fits16 :: "'f \<Rightarrow> bool"
  to16 :: "'f \<Rightarrow> nat"
  of16 :: "nat \<Rightarrow> 'f"
  to32 :: "'f \<Rightarrow> nat"
  of32 :: "nat \<Rightarrow> 'f"
  torch_tie :: "'f list \<Rightarrow> nat"

definition zlib_ok :: "'f env \<Rightarrow> bool" where
  "zlib_ok e \<longleftrightarrow> (\<forall>bs. zdecompress e (zcompress e bs) = Some bs)"

definition round16 :: "'f env \<Rightarrow> 'f \<Rightarrow> 'f" where
  "round16 e v = of16 e (to16 e v)"

definition env_ok :: "'f env \<Rightarrow> bool" where
  "env_ok e \<longleftrightarrow> zlib_ok e \<and>
     (\<forall>v. to32 e v < 2 ^ 32 \<and> of32 e (to32 e v) = v \<and> to16 e v < 2 ^ 16 \<and>
       (fits16 e v \<longrightarrow> fits16 e (round16 e v) \<and> round16 e (round16 e v) = round16 e v))"

section \<open>Data type tables\<close>

definition smallest_unsigned_dtype :: "nat \<Rightarrow> string" where
  "smallest_unsigned_dtype max_value =
     (if max_value \<le> 255 then ''uint8'' else if max_value \<le> 65535 then ''uint16''
      else if max_value \<le> 4294967295 then ''uint32'' else ''uint64'')"

definition FLOAT_VALUE_DTYPES :: "string \<rightharpoonup> string" where
  "FLOAT_VALUE_DTYPES = map_of [(''float16'', ''<f2''), (''float32'', ''<f4'')]"

definition UNSIGNED_VALUE_DTYPES :: "string \<rightharpoonup> string" where
  "UNSIGNED_VALUE_DTYPES =
     map_of [(''uint8'', ''<u1''), (''uint16'', ''<u2''), (''uint32'', ''<u4''), (''uint64'', ''<u8'')]"

definition float_value_dtype :: "string \<Rightarrow> format_error + string" where
  "float_value_dtype value_dtype =
     (case FLOAT_VALUE_DTYPES value_dtype of Some d \<Rightarrow> Inr d | None \<Rightarrow> Inl (UnsupportedDtype value_dtype))"

definition unsigned_value_dtype :: "string \<Rightarrow> format_error + string" where
  "unsigned_value_dtype value_dtype =
     (case UNSIGNED_VALUE_DTYPES value_dtype of Some d \<Rightarrow> Inr d | None \<Rightarrow> Inl (UnsupportedDtype value_dtype))"

text \<open>
  \<open>max(|values|)\<close> is not finite or above 65504 exactly when some value is not finite or out of
  range (numpy's maximum of an array with a NaN is NaN), so the test is one of the elements.
\<close>

definition compact_float_dtype :: "'f env \<Rightarrow> 'f list \<Rightarrow> string \<Rightarrow> string" where
  "compact_float_dtype e values requested =
     (if requested \<noteq> ''float16'' then requested
      else if values = [] then ''float16''
      else if list_ex (\<lambda>v. \<not> fits16 e v) values then ''float32'' else ''float16'')"

section \<open>Blobs\<close>

definition write_blob :: "'f env \<Rightarrow> string \<Rightarrow> byte list \<Rightarrow> store \<Rightarrow> store" where
  "write_blob e path raw s =
     (let comp = zcompress e raw
      in if length comp < length raw then s(path \<mapsto> 1 # comp) else s(path \<mapsto> 0 # raw))"

definition read_blob :: "'f env \<Rightarrow> string \<Rightarrow> store \<Rightarrow> format_error + byte list" where
  "read_blob e path s =
     (case s path of
        None \<Rightarrow> Inl (NotFound path)
      | Some [] \<Rightarrow> Inr []
      | Some (codec # payload) \<Rightarrow>
          if codec = 1 then
            (case zdecompress e payload of Some bs \<Rightarrow> Inr bs | None \<Rightarrow> Inl BadStream)
          else if codec = 0 then Inr payload
          else Inl (UnknownCodec (unat codec)))"

section \<open>Index files\<close>

definition write_indices ::
  "'f env \<Rightarrow> string \<Rightarrow> nat list \<Rightarrow> nat \<Rightarrow> string option \<Rightarrow> store
    \<Rightarrow> format_error + store \<times> bool \<times> string" where
  "write_indices e path indices index_bits encoding s =
     bind_err
       (if index_bits mod 8 \<noteq> 0
        then bind_err (bits_enc index_bits indices) (\<lambda>raw. Inr (raw, True))
        else bind_err (array_enc index_bits indices) (\<lambda>raw. Inr (raw, False)))
       (\<lambda>(raw, bit_packed).
          case encoding of
            None \<Rightarrow>
              (let compressed = zcompress e raw;
                   enc = (if length compressed < length raw then ''zlib'' else ''raw'');
                   payload = (if enc = ''zlib'' then compressed else raw)
               in Inr (s(path \<mapsto> payload), bit_packed, enc))
          | Some enc \<Rightarrow>
              if enc = ''zlib'' then Inr (s(path \<mapsto> zcompress e raw), bit_packed, enc)
              else if enc = ''raw'' then Inr (s(path \<mapsto> raw), bit_packed, enc)
              else Inl (UnknownEncoding enc))"

definition read_indices ::
  "'f env \<Rightarrow> string \<Rightarrow> nat \<Rightarrow> nat \<Rightarrow> bool \<Rightarrow> string \<Rightarrow> store \<Rightarrow> format_error + int list" where
  "read_indices e path index_bits expected_count packed encoding s =
     (case s path of
        None \<Rightarrow> Inl (NotFound path)
      | Some data \<Rightarrow>
          bind_err
            (if encoding = ''zlib'' then
               (case zdecompress e data of Some bs \<Rightarrow> Inr bs | None \<Rightarrow> Inl BadStream)
             else if encoding \<noteq> ''raw'' then Inl (UnknownEncoding encoding)
             else Inr data)
            (\<lambda>raw. if packed then bits_dec index_bits expected_count raw
                    else array_dec index_bits expected_count raw))"

text \<open>
  The background writer's task: \<open>stage_meta\<close> keeps the encoding the first write picked, and
  every later write of the stage is forced to it.
\<close>

definition write_stage_indices ::
  "'f env \<Rightarrow> string \<Rightarrow> nat \<Rightarrow> store \<times> string option \<Rightarrow> nat list
    \<Rightarrow> format_error + store \<times> string option" where
  "write_stage_indices e path index_bits st indices =
     (case st of (s, meta) \<Rightarrow>
        bind_err (write_indices e path indices index_bits meta s)
          (\<lambda>(s', _, encoding). Inr (s', Some encoding)))"

section \<open>Float vectors\<close>

definition float_bytes :: "'f env \<Rightarrow> string \<Rightarrow> 'f list \<Rightarrow> byte list" where
  "float_bytes e dt values =
     (if dt = ''<f2'' then array_bytes 2 (map (to16 e) values) else array_bytes 4 (map (to32 e) values))"

definition floats_of_bytes :: "'f env \<Rightarrow> string \<Rightarrow> byte list \<Rightarrow> format_error + 'f list" where
  "floats_of_bytes e dt bs =
     bind_err (frombuffer_dt dt bs) (\<lambda>ns. Inr (map (if dt = ''<f2'' then of16 e else of32 e) ns))"

definition write_float_vector ::
  "'f env \<Rightarrow> string \<Rightarrow> 'f list \<Rightarrow> string \<Rightarrow> store \<Rightarrow> format_error + store \<times> string" where
  "write_float_vector e path values dtype s =
     (let actual = compact_float_dtype e values dtype
      in bind_err (float_value_dtype actual)
           (\<lambda>dt. Inr (write_blob e path (float_bytes e dt values) s, actual)))"

definition write_f32_vector :: "'f env \<Rightarrow> string \<Rightarrow> 'f list \<Rightarrow> store \<Rightarrow> format_error + store" where
  "write_f32_vector e path values s =
     bind_err (write_float_vector e path values ''float32'' s) (\<lambda>(s', _). Inr s')"

definition read_float_vector ::
  "'f env \<Rightarrow> string \<Rightarrow> nat \<Rightarrow> string \<Rightarrow> store \<Rightarrow> format_error + 'f list" where
  "read_float_vector e path expected_count dtype s =
     bind_err (read_blob e path s) (\<lambda>bs.
     bind_err (float_value_dtype dtype) (\<lambda>dt.
     bind_err (floats_of_bytes e dt bs) (\<lambda>arr.
       if length arr \<noteq> expected_count then Inl (SizeMismatch expected_count (length arr)) else Inr arr)))"

definition read_f32_vector :: "'f env \<Rightarrow> string \<Rightarrow> nat \<Rightarrow> store \<Rightarrow> format_error + 'f list" where
  "read_f32_vector e path expected_count s = read_float_vector e path expected_count ''float32'' s"

definition fp16_storage_roundtrip :: "'f env \<Rightarrow> 'f list option \<Rightarrow> 'f list option" where
  "fp16_storage_roundtrip e values =
     (case values of
        None \<Rightarrow> None
      | Some arr \<Rightarrow>
          if compact_float_dtype e arr ''float16'' = ''float32'' then Some arr
          else Some (map (round16 e) arr))"

section \<open>Outliers\<close>

text \<open>\<open>np.diff(xs, prepend=0)\<close> on \<open>uint64\<close> and \<open>np.cumsum\<close> of its result.\<close>

fun diffs :: "nat \<Rightarrow> nat list \<Rightarrow> nat list" where
  "diffs prev [] = []"
| "diffs prev (x # xs) = (x + 2 ^ 64 - prev) mod 2 ^ 64 # diffs x xs"

fun cumsum64 :: "nat \<Rightarrow> nat list \<Rightarrow> nat list" where
  "cumsum64 acc [] = []"
| "cumsum64 acc (d # ds) = (acc + d) mod 2 ^ 64 # cumsum64 ((acc + d) mod 2 ^ 64) ds"

definition write_outliers ::
  "'f env \<Rightarrow> string \<Rightarrow> string \<Rightarrow> nat list \<Rightarrow> 'f list \<Rightarrow> string \<Rightarrow> store
    \<Rightarrow> format_error + store \<times> string \<times> string" where
  "write_outliers e idx_path val_path positions values value_dtype s =
     (if length values < length positions then Inl IndexOutOfRange
      else
        (let entries = sort_key fst (zip (map (\<lambda>p. p mod 2 ^ 64) positions) values);
             pos_sorted = map fst entries; val_sorted = map snd entries;
             delta = diffs 0 pos_sorted;
             position_dtype = smallest_unsigned_dtype (if delta = [] then 0 else Max (set delta))
         in bind_err (unsigned_value_dtype position_dtype) (\<lambda>dt.
            bind_err (write_float_vector e val_path val_sorted value_dtype
                        (write_blob e idx_path (array_bytes (itemsize dt) delta) s))
              (\<lambda>(s', vd). Inr (s', position_dtype, vd)))))"

definition read_outliers ::
  "'f env \<Rightarrow> string \<Rightarrow> string \<Rightarrow> nat \<Rightarrow> string \<Rightarrow> string \<Rightarrow> store
    \<Rightarrow> format_error + nat list \<times> 'f list" where
  "read_outliers e idx_path val_path count position_dtype value_dtype s =
     bind_err (read_blob e idx_path s) (\<lambda>bs.
     bind_err (unsigned_value_dtype position_dtype) (\<lambda>dt.
     bind_err (frombuffer_dt dt bs) (\<lambda>delta.
     bind_err (read_float_vector e val_path count value_dtype s) (\<lambda>values.
       (let positions = cumsum64 0 delta
        in if length positions \<noteq> length values
           then Inl (SizeMismatch (length positions) (length values))
           else Inr (positions, values))))))"

section \<open>Salient sidecars and pillars\<close>

definition write_salient ::
  "'f env \<Rightarrow> string \<Rightarrow> string \<Rightarrow> nat list \<Rightarrow> 'f list \<Rightarrow> nat \<Rightarrow> string \<Rightarrow> store
    \<Rightarrow> format_error + store \<times> string" where
  "write_salient e idx_path val_path salient_indices salient_weights index_bits weight_dtype s =
     bind_err (bits_enc index_bits salient_indices) (\<lambda>packed.
       write_float_vector e val_path salient_weights weight_dtype (write_blob e idx_path packed s))"

definition read_salient ::
  "'f env \<Rightarrow> string \<Rightarrow> string \<Rightarrow> nat \<Rightarrow> nat \<Rightarrow> string \<Rightarrow> store
    \<Rightarrow> format_error + int list \<times> 'f list" where
  "read_salient e idx_path val_path count index_bits weight_dtype s =
     bind_err (read_blob e idx_path s) (\<lambda>raw.
     bind_err (bits_dec index_bits count raw) (\<lambda>s_idx.
     bind_err (read_float_vector e val_path count weight_dtype s) (\<lambda>s_val. Inr (s_idx, s_val))))"

text \<open>\<open>clip\<close> is \<open>np.clip(v, -65504, 65504)\<close> and \<open>too_big\<close> is \<open>|v| > 65504\<close>.\<close>

definition write_pillars ::
  "'f env \<Rightarrow> ('f \<Rightarrow> bool) \<Rightarrow> ('f \<Rightarrow> 'f) \<Rightarrow> string \<Rightarrow> string \<Rightarrow> nat list \<Rightarrow> 'f list \<Rightarrow> store
    \<Rightarrow> format_error + store" where
  "write_pillars e too_big clip idx_path val_path positions values s =
     (if values = [] then Inl EmptyReduction
      else
        (let vals = (if list_ex too_big values then map clip values else values)
         in Inr (s(idx_path \<mapsto> array_bytes 4 positions,
                   val_path \<mapsto> float_bytes e ''<f2'' vals))))"

definition fromfile :: "nat \<Rightarrow> string \<Rightarrow> store \<Rightarrow> format_error + nat list" where
  "fromfile k path s =
     (case s path of None \<Rightarrow> Inl (NotFound path)
      | Some bs \<Rightarrow> Inr (array_of_bytes k (take (length bs div k * k) bs)))"

definition read_pillars :: "'f env \<Rightarrow> string \<Rightarrow> string \<Rightarrow> store \<Rightarrow> format_error + nat list \<times> 'f list" where
  "read_pillars e idx_path val_path s =
     bind_err (fromfile 4 idx_path s) (\<lambda>positions.
     bind_err (fromfile 2 val_path s) (\<lambda>bits. Inr (positions, map (of16 e) bits)))"

section \<open>The interface of a sidecar\<close>

text \<open>
  A sidecar is written to one path together with a record \<open>k\<close> that the manifest keeps (encoding,
  dtype, count). Its two promises: with that record the reader gets back what was written, and no
  other file is touched, so sidecars do not disturb one another.
\<close>

locale sidecar =
  fixes put :: "'e \<Rightarrow> string \<Rightarrow> 'a \<Rightarrow> store \<Rightarrow> format_error + store \<times> 'k"
    and get :: "'e \<Rightarrow> string \<Rightarrow> 'k \<Rightarrow> store \<Rightarrow> format_error + 'b"
    and ok :: "'e \<Rightarrow> 'a \<Rightarrow> bool"
    and seen :: "'e \<Rightarrow> 'a \<Rightarrow> 'b"
  assumes written: "ok e x \<Longrightarrow> \<exists>s' k. put e p x s = Inr (s', k) \<and> get e p k s' = Inr (seen e x)"
    and others: "put e p x s = Inr (s', k) \<Longrightarrow> q \<noteq> p \<Longrightarrow> s' q = s q"
    and reads_only: "s p = s' p \<Longrightarrow> get e p k s = get e p k s'"
begin

lemma survives:
  assumes "ok e x" and "put e p x s = Inr (s1, k)" and "s2 p = s1 p"
  shows "get e p k s2 = Inr (seen e x)"
proof -
  have "get e p k s1 = Inr (seen e x)" using written [OF assms(1), of p s] assms(2) by auto
  then show ?thesis using reads_only [of s2 p s1] assms(3) by simp
qed

lemma overwritten:
  assumes "ok e y" and "put e p x s = Inr (s1, k)" and "put e p y s1 = Inr (s2, k')"
  shows "get e p k' s2 = Inr (seen e y)"
  using survives [OF assms(1,3)] by simp

end

locale two_sidecars =
  a: sidecar write1 read1 ok1 seen1 + b: sidecar write2 read2 ok2 seen2
  for write1 :: "'e \<Rightarrow> string \<Rightarrow> 'a \<Rightarrow> store \<Rightarrow> format_error + store \<times> 'k"
    and read1 :: "'e \<Rightarrow> string \<Rightarrow> 'k \<Rightarrow> store \<Rightarrow> format_error + 'b"
    and ok1 :: "'e \<Rightarrow> 'a \<Rightarrow> bool" and seen1 :: "'e \<Rightarrow> 'a \<Rightarrow> 'b"
    and write2 :: "'e \<Rightarrow> string \<Rightarrow> 'c \<Rightarrow> store \<Rightarrow> format_error + store \<times> 'l"
    and read2 :: "'e \<Rightarrow> string \<Rightarrow> 'l \<Rightarrow> store \<Rightarrow> format_error + 'd"
    and ok2 :: "'e \<Rightarrow> 'c \<Rightarrow> bool" and seen2 :: "'e \<Rightarrow> 'c \<Rightarrow> 'd"
begin

lemma both:
  assumes "ok1 e x" and "ok2 e y" and "p \<noteq> q"
  shows "\<exists>s1 k s2 l. write1 e p x s = Inr (s1, k) \<and> write2 e q y s1 = Inr (s2, l) \<and>
    read1 e p k s2 = Inr (seen1 e x) \<and> read2 e q l s2 = Inr (seen2 e y)"
proof -
  obtain s1 k where 1: "write1 e p x s = Inr (s1, k)" using a.written [OF assms(1)] by blast
  obtain s2 l where 2: "write2 e q y s1 = Inr (s2, l)" "read2 e q l s2 = Inr (seen2 e y)"
    using b.written [OF assms(2)] by blast
  have "read1 e p k s2 = Inr (seen1 e x)"
    using a.survives [OF assms(1) 1] b.others [OF 2(1) assms(3)] by simp
  with 1 2 show ?thesis by blast
qed

end

subsection \<open>Blobs\<close>

definition blob_put :: "'f env \<Rightarrow> string \<Rightarrow> byte list \<Rightarrow> store \<Rightarrow> format_error + store \<times> unit" where
  "blob_put e p raw s = Inr (write_blob e p raw s, ())"

definition blob_get :: "'f env \<Rightarrow> string \<Rightarrow> unit \<Rightarrow> store \<Rightarrow> format_error + byte list" where
  "blob_get e p k s = read_blob e p s"

lemma read_write_blob: "zlib_ok e \<Longrightarrow> read_blob e p (write_blob e p raw s) = Inr raw"
  by (simp add: read_blob_def write_blob_def zlib_ok_def Let_def)

lemma read_blob_cong: "s p = s' p \<Longrightarrow> read_blob e p s = read_blob e p s'"
  by (simp add: read_blob_def)

lemma write_blob_other: "q \<noteq> p \<Longrightarrow> write_blob e p raw s q = s q"
  by (simp add: write_blob_def Let_def)

interpretation blob: sidecar blob_put blob_get "\<lambda>e _. zlib_ok e" "\<lambda>_ raw. raw"
  by unfold_locales
    (auto simp: blob_put_def blob_get_def read_write_blob write_blob_other intro: read_blob_cong)

subsection \<open>Float vectors\<close>

definition floats_put ::
  "'f env \<Rightarrow> string \<Rightarrow> 'f list \<times> string \<Rightarrow> store \<Rightarrow> format_error + store \<times> string \<times> nat" where
  "floats_put e p x s =
     bind_err (write_float_vector e p (fst x) (snd x) s)
       (\<lambda>(s', dtype). Inr (s', dtype, length (fst x)))"

definition floats_get :: "'f env \<Rightarrow> string \<Rightarrow> string \<times> nat \<Rightarrow> store \<Rightarrow> format_error + 'f list" where
  "floats_get e p k s = read_float_vector e p (snd k) (fst k) s"

text \<open>What a reader of the vector sees: the values, rounded to fp16 if they all fit and fp16 is asked.\<close>

definition stored_floats :: "'f env \<Rightarrow> 'f list \<times> string \<Rightarrow> 'f list" where
  "stored_floats e x =
     (if compact_float_dtype e (fst x) (snd x) = ''float16'' then map (round16 e) (fst x) else fst x)"

text \<open>Values that survive as float32: under \<open>env_ok\<close> all of them, in a wider type those numpy's cast does not change.\<close>

definition storable :: "'f env \<Rightarrow> 'f list \<Rightarrow> bool" where
  "storable e vs \<longleftrightarrow> list_all (\<lambda>v. to32 e v < 2 ^ 32 \<and> of32 e (to32 e v) = v \<and> to16 e v < 2 ^ 16) vs"

lemma env_ok_storable [simp]: "env_ok e \<Longrightarrow> zlib_ok e" "env_ok e \<Longrightarrow> storable e vs"
  by (simp_all add: env_ok_def storable_def list_all_iff)

lemma storable_set: "set vs \<subseteq> set ws \<Longrightarrow> storable e ws \<Longrightarrow> storable e vs"
  by (auto simp: storable_def list_all_iff)

definition floats_ok :: "'f env \<Rightarrow> 'f list \<times> string \<Rightarrow> bool" where
  "floats_ok e x \<longleftrightarrow> zlib_ok e \<and> storable e (fst x) \<and> (snd x = ''float16'' \<or> snd x = ''float32'')"

lemma itemsize_dtypes [simp]:
  "itemsize ''<f2'' = 2" "itemsize ''<f4'' = 4"
  "itemsize ''<u1'' = 1" "itemsize ''<u2'' = 2" "itemsize ''<u4'' = 4" "itemsize ''<u8'' = 8"
  by (simp_all add: itemsize_def digit_val_def)

lemma float_value_dtype_simps [simp]:
  "float_value_dtype ''float16'' = Inr ''<f2''"
  "float_value_dtype ''float32'' = Inr ''<f4''"
  by (simp_all add: float_value_dtype_def FLOAT_VALUE_DTYPES_def)

lemma floats_of_float_bytes:
  assumes "storable e values"
  shows "floats_of_bytes e ''<f2'' (float_bytes e ''<f2'' values) = Inr (map (round16 e) values)"
    and "floats_of_bytes e ''<f4'' (float_bytes e ''<f4'' values) = Inr values"
proof -
  have lt: "\<forall>n \<in> set (map (to16 e) values). n < 256 ^ 2" "\<forall>n \<in> set (map (to32 e) values). n < 256 ^ 4"
    and same: "map (of32 e \<circ> to32 e) values = values"
    using assms by (auto simp: storable_def list_all_iff intro: map_idI)
  show "floats_of_bytes e ''<f2'' (float_bytes e ''<f2'' values) = Inr (map (round16 e) values)"
    using array_roundtrip [OF _ lt(1)]
    by (simp add: floats_of_bytes_def float_bytes_def frombuffer_dt_def round16_def comp_def)
  show "floats_of_bytes e ''<f4'' (float_bytes e ''<f4'' values) = Inr values"
    using array_roundtrip [OF _ lt(2)] same
    by (simp add: floats_of_bytes_def float_bytes_def frombuffer_dt_def)
qed

lemma compact_float_dtype_cases:
  assumes "requested = ''float16'' \<or> requested = ''float32''"
  shows "compact_float_dtype e values requested = ''float16'' \<or>
    compact_float_dtype e values requested = ''float32''"
  using assms by (auto simp: compact_float_dtype_def)

lemma floats_put_get:
  assumes "floats_ok e x"
  shows "\<exists>s' k. floats_put e p x s = Inr (s', k) \<and> floats_get e p k s' = Inr (stored_floats e x)"
proof -
  obtain vs dtype where x: "x = (vs, dtype)" by (cases x)
  have env: "storable e vs" and zok: "zlib_ok e" and req: "dtype = ''float16'' \<or> dtype = ''float32''"
    using assms by (auto simp: floats_ok_def x)
  from compact_float_dtype_cases [OF req, of e vs] show ?thesis
    using floats_of_float_bytes [OF env] zok
    by (auto simp: floats_put_def floats_get_def x write_float_vector_def read_float_vector_def
        Let_def read_write_blob stored_floats_def)
qed

lemma write_float_vector_other:
  assumes "write_float_vector e p values dtype s = Inr (s', d)" and "q \<noteq> p"
  shows "s' q = s q"
  using assms by (auto simp: write_float_vector_def Let_def bind_err_eq_Inr write_blob_other)

lemma read_float_vector_cong:
  assumes "s p = s' p"
  shows "read_float_vector e p n dtype s = read_float_vector e p n dtype s'"
  unfolding read_float_vector_def read_blob_cong [of s p s', OF assms] ..

lemma floats_put_other:
  assumes "floats_put e p x s = Inr (s', k)" and "q \<noteq> p"
  shows "s' q = s q"
  using assms by (auto simp: floats_put_def bind_err_eq_Inr write_float_vector_other)

lemma floats_get_cong: "s p = s' p \<Longrightarrow> floats_get e p k s = floats_get e p k s'"
  unfolding floats_get_def by (rule read_float_vector_cong)

interpretation floats: sidecar floats_put floats_get floats_ok stored_floats
  by unfold_locales
    (rule floats_put_get floats_put_other floats_get_cong; assumption)+

subsection \<open>Index streams\<close>

definition index_put ::
  "'f env \<Rightarrow> string \<Rightarrow> nat list \<times> nat \<times> string option \<Rightarrow> store
    \<Rightarrow> format_error + store \<times> nat \<times> nat \<times> bool \<times> string" where
  "index_put e p x s =
     (case x of (indices, bits, encoding) \<Rightarrow>
        bind_err (write_indices e p indices bits encoding s)
          (\<lambda>(s', packed, enc). Inr (s', bits, length indices, packed, enc)))"

definition index_get ::
  "'f env \<Rightarrow> string \<Rightarrow> nat \<times> nat \<times> bool \<times> string \<Rightarrow> store \<Rightarrow> format_error + int list" where
  "index_get e p k s =
     (case k of (bits, count, packed, enc) \<Rightarrow> read_indices e p bits count packed enc s)"

definition index_ok :: "'f env \<Rightarrow> nat list \<times> nat \<times> string option \<Rightarrow> bool" where
  "index_ok e x \<longleftrightarrow>
     (case x of (indices, bits, encoding) \<Rightarrow>
        zlib_ok e \<and> bits \<le> 64 \<and> (\<forall>i \<in> set indices. i < 2 ^ bits) \<and>
        (encoding = None \<or> encoding = Some ''zlib'' \<or> encoding = Some ''raw''))"

lemma write_read_indices:
  assumes z: "zlib_ok e" and bits: "bits \<le> 64" and vals: "\<forall>i \<in> set indices. i < 2 ^ bits"
    and enc: "encoding = None \<or> encoding = Some ''zlib'' \<or> encoding = Some ''raw''"
  shows "\<exists>s' packed enc'. write_indices e p indices bits encoding s = Inr (s', packed, enc') \<and>
    packed = (bits mod 8 \<noteq> 0) \<and> (enc' = ''zlib'' \<or> enc' = ''raw'') \<and> (encoding = None \<or> encoding = Some enc') \<and>
    read_indices e p bits (length indices) packed enc' s' = Inr (map int indices)"
proof -
  have "\<exists>raw. (if bits mod 8 \<noteq> 0 then bind_err (bits_enc bits indices) (\<lambda>raw. Inr (raw, True))
      else bind_err (array_enc bits indices) (\<lambda>raw. Inr (raw, False))) = Inr (raw, bits mod 8 \<noteq> 0) \<and>
    (if bits mod 8 \<noteq> 0 then bits_dec bits (length indices) raw else array_dec bits (length indices) raw)
      = Inr (map int indices)"
  proof (cases "bits mod 8 = 0")
    case True
    then show ?thesis using array_layout.dec_enc [OF bits vals] by auto
  next
    case False
    then have "bits \<noteq> 64" by auto
    with bits have "bits \<le> 63" by simp
    with False show ?thesis using bit_layout.dec_enc [OF _ vals] by auto
  qed
  then obtain raw where raw: "(if bits mod 8 \<noteq> 0 then bind_err (bits_enc bits indices) (\<lambda>raw. Inr (raw, True))
      else bind_err (array_enc bits indices) (\<lambda>raw. Inr (raw, False))) = Inr (raw, bits mod 8 \<noteq> 0)"
    and dec: "(if bits mod 8 \<noteq> 0 then bits_dec bits (length indices) raw else array_dec bits (length indices) raw)
      = Inr (map int indices)" by blast
  have un: "zdecompress e (zcompress e raw) = Some raw" using z by (simp add: zlib_ok_def)
  from enc show ?thesis
    unfolding write_indices_def raw bind_err_simps prod.case
    using dec un by (auto simp: Let_def read_indices_def)
qed

lemma write_indices_other:
  assumes "write_indices e p indices bits encoding s = Inr (s', r)" and "q \<noteq> p"
  shows "s' q = s q"
proof -
  obtain raw bp where "(case encoding of
            None \<Rightarrow>
              (let compressed = zcompress e raw;
                   enc = (if length compressed < length raw then ''zlib'' else ''raw'');
                   payload = (if enc = ''zlib'' then compressed else raw)
               in Inr (s(p \<mapsto> payload), bp, enc))
          | Some enc \<Rightarrow>
              if enc = ''zlib'' then Inr (s(p \<mapsto> zcompress e raw), bp, enc)
              else if enc = ''raw'' then Inr (s(p \<mapsto> raw), bp, enc)
              else Inl (UnknownEncoding enc)) = Inr (s', r)"
    using assms(1) unfolding write_indices_def bind_err_eq_Inr by fastforce
  then show ?thesis using assms(2) by (auto simp: Let_def split: option.splits if_splits)
qed

lemma index_put_get:
  assumes "index_ok e x"
  shows "\<exists>s' k. index_put e p x s = Inr (s', k) \<and> index_get e p k s' = Inr (map int (fst x))"
proof -
  obtain indices bits encoding where x: "x = (indices, bits, encoding)" by (cases x) auto
  obtain s' packed enc' where "write_indices e p indices bits encoding s = Inr (s', packed, enc')"
    and "read_indices e p bits (length indices) packed enc' s' = Inr (map int indices)"
    using write_read_indices [of e bits indices encoding p s] assms by (auto simp: index_ok_def x)
  then show ?thesis by (simp add: index_put_def index_get_def x)
qed

lemma index_put_other:
  assumes "index_put e p x s = Inr (s', k)" and "q \<noteq> p"
  shows "s' q = s q"
  using assms by (auto simp: index_put_def bind_err_eq_Inr write_indices_other split: prod.splits)

lemma index_get_cong:
  assumes "s p = s' p"
  shows "index_get e p k s = index_get e p k s'"
  using assms by (simp add: index_get_def read_indices_def split: prod.split)

interpretation index_file: sidecar index_put index_get index_ok "\<lambda>_ x. map int (fst x)"
  by unfold_locales (rule index_put_get index_put_other index_get_cong; assumption)+

interpretation blob_floats: two_sidecars
  blob_put blob_get "\<lambda>e _. zlib_ok e" "\<lambda>_ raw. raw" floats_put floats_get floats_ok stored_floats
  by unfold_locales

section \<open>Stage rewrites\<close>

lemma write_stage_reads_back:
  assumes z: "zlib_ok e" and bits: "bits \<le> 64" and meta: "meta = None \<or> meta = Some ''zlib'' \<or> meta = Some ''raw''"
    and vals: "\<forall>i \<in> set indices. i < 2 ^ bits"
  shows "\<exists>s' enc. write_stage_indices e p bits (s, meta) indices = Inr (s', Some enc) \<and>
    (enc = ''zlib'' \<or> enc = ''raw'') \<and> (meta = None \<or> meta = Some enc) \<and>
    read_indices e p bits (length indices) (bits mod 8 \<noteq> 0) enc s' = Inr (map int indices)"
proof -
  obtain s' packed enc' where w: "write_indices e p indices bits meta s = Inr (s', packed, enc')"
    "packed = (bits mod 8 \<noteq> 0)" "enc' = ''zlib'' \<or> enc' = ''raw''" "meta = None \<or> meta = Some enc'"
    "read_indices e p bits (length indices) packed enc' s' = Inr (map int indices)"
    using write_read_indices [OF z bits vals meta] by blast
  then show ?thesis by (auto simp: write_stage_indices_def)
qed

section \<open>Outliers\<close>

lemma cumsum_diffs:
  assumes "sorted (prev # xs)" and "\<forall>x \<in> set xs. x < 2 ^ 64"
  shows "cumsum64 prev (diffs prev xs) = xs"
  using assms
proof (induction xs arbitrary: prev)
  case (Cons x xs)
  then have "prev \<le> x" and x: "x < 2 ^ 64" by auto
  then have "(x + 2 ^ 64 - prev) mod 2 ^ 64 = x - prev"
    by (metis Nat.add_diff_assoc2 less_imp_diff_less mod_add_self2 mod_less)
  with \<open>prev \<le> x\<close> x Cons show ?case by simp
qed simp

lemma smallest_unsigned_dtype_holds:
  assumes "v < 2 ^ 64"
  obtains dt where "unsigned_value_dtype (smallest_unsigned_dtype v) = Inr dt"
    and "v < 256 ^ itemsize dt" and "0 < itemsize dt"
proof -
  consider "v \<le> 255" | "255 < v" "v \<le> 65535" | "65535 < v" "v \<le> 4294967295" | "4294967295 < v"
    by linarith
  then show thesis
    using assms that
    by cases (auto simp: smallest_unsigned_dtype_def unsigned_value_dtype_def UNSIGNED_VALUE_DTYPES_def)
qed

lemma diffs_less: "d \<in> set (diffs prev xs) \<Longrightarrow> d < 2 ^ 64"
  by (induction xs arbitrary: prev) auto

text \<open>Sorting by position carries the values along, whatever is done to them.\<close>

lemma insort_key_map_snd:
  "insort_key fst (p, g v) (map (\<lambda>(p, v). (p, g v)) xs) = map (\<lambda>(p, v). (p, g v)) (insort_key fst (p, v) xs)"
  by (induction xs) auto

lemma sort_key_map_snd:
  "sort_key fst (map (\<lambda>(p, v). (p, g v)) xs) = map (\<lambda>(p, v). (p, g v)) (sort_key fst xs)"
  by (induction xs) (auto simp: insort_key_map_snd)

lemma zip_map_fst_snd:
  "zip (map fst xs) (map g (map snd xs)) = map (\<lambda>(p, v). (p, g v)) xs"
  by (induction xs) auto

text \<open>Re-injecting positions and values into a tensor: later entries overwrite earlier ones.\<close>

definition scatter :: "(nat \<Rightarrow> 'f option) \<Rightarrow> (nat \<times> 'f) list \<Rightarrow> nat \<Rightarrow> 'f option" where
  "scatter m xs = foldl (\<lambda>m (p, v). m(p \<mapsto> v)) m xs"

lemma scatter_last:
  "scatter m xs p = (case filter (\<lambda>x. fst x = p) xs of [] \<Rightarrow> m p | ys \<Rightarrow> Some (snd (last ys)))"
proof (induction xs arbitrary: m)
  case (Cons x xs)
  obtain q v where x: "x = (q, v)" by (cases x)
  define m' where "m' = m(q \<mapsto> v)"
  have "scatter m (x # xs) = scatter m' xs" by (simp add: scatter_def x m'_def)
  moreover have "m' p = (if p = q then Some v else m p)" by (simp add: m'_def)
  ultimately show ?case using Cons [of m'] by (simp add: x split: list.split)
qed (simp add: scatter_def)

lemma scatter_sorted: "scatter m (sort_key fst xs) = scatter m xs"
proof
  fix p
  have "filter (\<lambda>x. fst x = p) (sort_key fst xs) = filter (\<lambda>x. fst x = p) xs"
    by (rule sort_key_stable)
  then show "scatter m (sort_key fst xs) p = scatter m xs p" by (simp add: scatter_last)
qed

lemma write_outliers_read:
  assumes e: "zlib_ok e" "storable e vals" and paths: "ip \<noteq> vp" and len: "length vals = length pos"
    and pos: "\<forall>p \<in> set pos. p < 2 ^ 64" and dt: "dtype = ''float16'' \<or> dtype = ''float32''"
  defines "entries \<equiv> sort_key fst (zip pos vals)"
  shows "\<exists>s' pd vd. write_outliers e ip vp pos vals dtype s = Inr (s', pd, vd) \<and>
    read_outliers e ip vp (length vals) pd vd s' =
      Inr (map fst entries, stored_floats e (map snd entries, dtype))"
proof -
  have "map (\<lambda>p. p mod 2 ^ 64) pos = map (\<lambda>p. p) pos" using pos by (intro map_cong) auto
  then have mod: "map (\<lambda>p. p mod 2 ^ 64) pos = pos" by simp
  let ?pos = "map fst entries" and ?vals = "map snd entries"
  let ?delta = "diffs 0 ?pos"
  let ?pd = "smallest_unsigned_dtype (if ?delta = [] then 0 else Max (set ?delta))"
  have ent: "set ?pos \<subseteq> set pos" by (auto simp: entries_def dest: set_zip_leftD)
  have "sorted (0 # ?pos)" by (simp add: entries_def)
  then have cum: "cumsum64 0 ?delta = ?pos" using ent pos by (intro cumsum_diffs) auto
  have "(if ?delta = [] then 0 else Max (set ?delta)) < 2 ^ 64"
    using diffs_less by (auto simp: Max_less_iff)
  then obtain dt where dt': "unsigned_value_dtype ?pd = Inr dt"
    "(if ?delta = [] then 0 else Max (set ?delta)) < 256 ^ itemsize dt" "0 < itemsize dt"
    by (rule smallest_unsigned_dtype_holds)
  have "d < 256 ^ itemsize dt" if "d \<in> set ?delta" for d
    using that dt'(2) by (auto simp: Max_less_iff split: if_splits)
  then have arr: "array_of_bytes (itemsize dt) (array_bytes (itemsize dt) ?delta) = ?delta"
    using dt'(3) by (intro array_roundtrip) auto
  have lens: "length ?vals = length vals" "length ?pos = length vals"
    using len by (simp_all add: entries_def)
  have "storable e ?vals" by (rule storable_set [OF _ e(2)]) (auto simp: entries_def dest: set_zip_rightD)
  then obtain s2 vd where w: "write_float_vector e vp ?vals dtype
      (write_blob e ip (array_bytes (itemsize dt) ?delta) s) = Inr (s2, vd)"
    and r: "read_float_vector e vp (length vals) vd s2 = Inr (stored_floats e (?vals, dtype))"
    and b: "read_blob e ip s2 = Inr (array_bytes (itemsize dt) ?delta)"
    using blob_floats.both [of e "(?vals, dtype)" ip vp "array_bytes (itemsize dt) ?delta" s] e dt paths lens
    by (auto simp: blob_put_def blob_get_def floats_put_def floats_get_def bind_err_eq_Inr floats_ok_def)
  have sl: "length (stored_floats e (?vals, dtype)) = length vals"
    using lens by (simp add: stored_floats_def)
  have "write_outliers e ip vp pos vals dtype s = Inr (s2, ?pd, vd)"
    using len w dt'(1) unfolding write_outliers_def mod entries_def [symmetric] Let_def by simp
  moreover have "read_outliers e ip vp (length vals) ?pd vd s2 = Inr (?pos, stored_floats e (?vals, dtype))"
    using b r dt' arr cum sl lens by (simp add: read_outliers_def frombuffer_dt_def Let_def)
  ultimately show ?thesis by blast
qed

section \<open>Properties\<close>

text \<open>whatever sequence of index rewrites a stage receives, the first one with its automatic
  choice of encoding and the later ones forced to it, every write succeeds, the encoding recorded
  in the metadata is never changed once set, and reading the file with that metadata returns the
  indices of the last write.\<close>

theorem stage_rewrites_read_last:
  assumes "zlib_ok e" and "bits \<le> 64"
    and "\<forall>ixs \<in> set (rewrites @ [final]). \<forall>i \<in> set ixs. i < 2 ^ bits"
  shows "\<exists>s' enc. foldM (write_stage_indices e p bits) (s, None) (rewrites @ [final]) = Inr (s', Some enc) \<and>
    read_indices e p bits (length final) (bits mod 8 \<noteq> 0) enc s' = Inr (map int final)"
proof -
  have "\<exists>s1 meta. foldM (write_stage_indices e p bits) (s, m) ws = Inr (s1, meta) \<and>
      (meta = None \<or> meta = Some ''zlib'' \<or> meta = Some ''raw'')"
    if "\<forall>ixs \<in> set ws. \<forall>i \<in> set ixs. i < 2 ^ bits" and "m = None \<or> m = Some ''zlib'' \<or> m = Some ''raw''"
    for ws m s
    using that
  proof (induction ws arbitrary: m s)
    case (Cons w ws)
    obtain s' enc where "write_stage_indices e p bits (s, m) w = Inr (s', Some enc)"
      "enc = ''zlib'' \<or> enc = ''raw''"
      using write_stage_reads_back [OF assms(1,2) Cons.prems(2), of w p s] Cons.prems(1) by auto
    with Cons show ?case by auto
  qed simp
  then obtain s1 meta where run: "foldM (write_stage_indices e p bits) (s, None) rewrites = Inr (s1, meta)"
    and meta: "meta = None \<or> meta = Some ''zlib'' \<or> meta = Some ''raw''"
    using assms(3) by (metis (no_types, lifting) Un_iff set_append)
  obtain s' enc where "write_stage_indices e p bits (s1, meta) final = Inr (s', Some enc)"
    "read_indices e p bits (length final) (bits mod 8 \<noteq> 0) enc s' = Inr (map int final)"
    using write_stage_reads_back [OF assms(1,2) meta, of final p s1] assms(3) by auto
  with run show ?thesis by (simp add: foldM_append)
qed

text \<open>
  A concrete environment for the examples: the "compressor" shortens only the stream of eight
  zero bytes, float32 values are their bit patterns, and fp16 keeps multiples of 8 below \<open>2 ^ 19\<close>.
\<close>

definition toy_env :: "32 word env" where
  "toy_env = \<lparr>zcompress = \<lambda>bs. (if bs = replicate 8 0 then [1] else 0 # bs),
     zdecompress = \<lambda>bs. (if bs = [1] then Some (replicate 8 0) else if bs = [] then None else Some (tl bs)),
     fits16 = \<lambda>v. unat v < 2 ^ 19, to16 = \<lambda>v. unat v div 8 mod 2 ^ 16,
     of16 = \<lambda>n. word_of_nat (8 * n), to32 = unat, of32 = word_of_nat, torch_tie = \<lambda>_. 0\<rparr>"

lemma toy_env_zlib: "zlib_ok toy_env"
  by (simp add: zlib_ok_def toy_env_def)

lemma toy_env_ok: "env_ok toy_env"
  unfolding env_ok_def
proof (intro conjI allI toy_env_zlib impI)
  fix v :: "32 word"
  have v: "unat v < 2 ^ 32" using unsigned_less [of v] by simp
  show "to32 toy_env v < 2 ^ 32" using v by (simp add: toy_env_def)
  show "of32 toy_env (to32 toy_env v) = v" by (simp add: toy_env_def)
  show "to16 toy_env v < 2 ^ 16" by (simp add: toy_env_def)
  assume "fits16 toy_env v"
  then have "unat v div 8 mod 65536 = unat v div 8" and le: "unat v div 8 < 65536"
    by (simp_all add: toy_env_def)
  moreover have "unat (word_of_nat (8 * n) :: 32 word) = 8 * n" if "n < 65536" for n
    using that by (simp add: unat_of_nat del: of_nat_mult)
  ultimately show "fits16 toy_env (round16 toy_env v)"
    and "round16 toy_env (round16 toy_env v) = round16 toy_env v"
    by (simp_all add: toy_env_def round16_def del: of_nat_mult)
qed

theorem stage_rewrites_read_last_witness:
  "\<exists>s' enc. foldM (write_stage_indices toy_env ''i'' 8) (Map.empty, None)
      ([replicate 8 0] @ [[7, 255, 0]]) = Inr (s', Some enc) \<and>
    read_indices toy_env ''i'' 8 (length [7, 255, 0 :: nat]) (8 mod 8 \<noteq> (0 :: nat)) enc s' = Inr (map int [7, 255, 0])"
  by (rule stage_rewrites_read_last [OF toy_env_zlib]) auto

text \<open>outlier sidecars: positions come back sorted with their values, in the smallest position
  type that holds the gaps, values exactly as a float vector of that type is stored; and scattering
  them into a tensor gives the same tensor as scattering the original list, duplicates included.\<close>

theorem outliers_roundtrip:
  assumes e: "env_ok e" and paths: "ip \<noteq> vp" and len: "length vals = length pos"
    and pos: "\<forall>p \<in> set pos. p < 2 ^ 64" and dt: "dtype = ''float16'' \<or> dtype = ''float32''"
  shows "\<exists>s' pd vd pos' vals'. write_outliers e ip vp pos vals dtype s = Inr (s', pd, vd) \<and>
    read_outliers e ip vp (length vals) pd vd s' = Inr (pos', vals') \<and> sorted pos' \<and>
    scatter m (zip pos' vals') = scatter m (zip pos (stored_floats e (vals, dtype)))"
proof -
  let ?entries = "sort_key fst (zip pos vals)"
  obtain s' pd vd where w: "write_outliers e ip vp pos vals dtype s = Inr (s', pd, vd)"
    "read_outliers e ip vp (length vals) pd vd s' =
      Inr (map fst ?entries, stored_floats e (map snd ?entries, dtype))"
    using write_outliers_read [OF env_ok_storable(1) [OF e] env_ok_storable(2) [OF e] paths len pos dt] by blast
  let ?g = "if compact_float_dtype e vals dtype = ''float16'' then round16 e else id"
  have set: "set (map snd ?entries) = set vals"
    using len by (auto simp: set_zip_rightD image_iff) (metis in_set_impl_in_set_zip2 snd_conv)
  then have "compact_float_dtype e (map snd ?entries) dtype = compact_float_dtype e vals dtype"
  proof -
    have "map snd ?entries = [] \<longleftrightarrow> vals = []" using set by (metis set_empty)
    then show ?thesis unfolding compact_float_dtype_def list_ex_iff set by simp
  qed
  then have st: "stored_floats e (map snd ?entries, dtype) = map ?g (map snd ?entries)"
    "stored_floats e (vals, dtype) = map ?g vals"
    by (auto simp: stored_floats_def)
  have "zip (map fst ?entries) (map ?g (map snd ?entries)) = sort_key fst (zip pos (map ?g vals))"
    by (simp only: zip_map_fst_snd zip_map2 [of pos] sort_key_map_snd)
  then have "scatter m (zip (map fst ?entries) (stored_floats e (map snd ?entries, dtype))) =
      scatter m (zip pos (stored_floats e (vals, dtype)))"
    unfolding st by (simp only: scatter_sorted)
  moreover have "sorted (map fst ?entries)" by simp
  ultimately show ?thesis using w by blast
qed


theorem outliers_roundtrip_witness:
  "\<exists>s' pd vd pos' vals'.
    write_outliers toy_env ''i'' ''v'' [70000, 3, 3] [16, 8, 24] ''float16'' Map.empty = Inr (s', pd, vd) \<and>
    read_outliers toy_env ''i'' ''v'' (length [16, 8, 24 :: 32 word]) pd vd s' = Inr (pos', vals') \<and> sorted pos' \<and>
    scatter Map.empty (zip pos' vals') =
      scatter Map.empty (zip [70000, 3, 3] (stored_floats toy_env ([16, 8, 24], ''float16'')))"
  by (rule outliers_roundtrip [OF toy_env_ok]) simp_all

text \<open>what the pipeline computes with is what decode reads back: values passed through
  \<open>_fp16_storage_roundtrip\<close> survive \<open>_write_float_vector\<close> with its default fp16 request and
  \<open>_read_float_vector\<close> with the recorded dtype and count unchanged, overflow fallback included.\<close>

theorem storage_roundtrip_exact:
  assumes e: "env_ok e" and v: "fp16_storage_roundtrip e (Some values0) = Some vals"
  shows "\<exists>s' dtype. write_float_vector e p vals ''float16'' s = Inr (s', dtype) \<and>
    read_float_vector e p (length values0) dtype s' = Inr vals"
proof -
  have ok: "floats_ok e (vals, ''float16'')" using e by (simp add: floats_ok_def)
  have len: "length vals = length values0"
    using v by (auto simp: fp16_storage_roundtrip_def split: if_splits)
  have "stored_floats e (vals, ''float16'') = vals"
  proof (cases "compact_float_dtype e values0 ''float16'' = ''float32''")
    case True
    with v show ?thesis by (simp add: fp16_storage_roundtrip_def stored_floats_def)
  next
    case False
    then have fit: "\<forall>x \<in> set values0. fits16 e x"
      by (auto simp: compact_float_dtype_def list_ex_iff split: if_splits)
    have vals: "vals = map (round16 e) values0"
      using False v by (simp add: fp16_storage_roundtrip_def)
    have "map (round16 e) vals = vals"
      using fit e unfolding vals by (auto simp: env_ok_def)
    then show ?thesis by (simp add: stored_floats_def)
  qed
  then show ?thesis
    using floats_put_get [OF ok, of p s] len
    by (auto simp: floats_put_def floats_get_def bind_err_eq_Inr)
qed

theorem storage_roundtrip_exact_witness:
  "fp16_storage_roundtrip toy_env (Some [17, 40]) = Some [16, 40] \<and>
   (\<exists>s' dtype. write_float_vector toy_env ''w'' [16, 40] ''float16'' Map.empty = Inr (s', dtype) \<and>
    read_float_vector toy_env ''w'' (length [17, 40 :: 32 word]) dtype s' = Inr [16, 40])"
proof -
  have v: "fp16_storage_roundtrip toy_env (Some [17, 40]) = Some [16, 40]"
    by (simp add: fp16_storage_roundtrip_def compact_float_dtype_def toy_env_def round16_def)
  show ?thesis using v storage_roundtrip_exact [OF toy_env_ok v] by blast
qed

end
