(* ===== verification/Numerics.thy ===== *)
theory Numerics
  imports Prelude
begin

text \<open>
  Rounding and small vector arithmetic on rationals: \<open>np.round\<close>/\<open>torch.round\<close>, \<open>clip\<close>, and
  the squared distance of two rows.
\<close>

type_synonym 'a matrix = "'a list list"

text \<open>\<open>np.round\<close> and \<open>torch.round\<close>: to the nearest integer, halves to the even one.\<close>

definition np_round :: "'a :: floor_ceiling \<Rightarrow> int" where
  "np_round x =
     (let f = \<lfloor>x\<rfloor>; d = x - of_int f
      in if d < 1 / 2 then f else if d > 1 / 2 then f + 1 else if even f then f else f + 1)"

definition clip :: "int \<Rightarrow> int \<Rightarrow> int \<Rightarrow> int" where
  "clip lo hi x = max lo (min hi x)"

lemma np_round_int [simp]: "np_round (of_int k) = k"
  by (simp add: np_round_def)

lemma np_round_close: "\<bar>x - of_int (np_round x)\<bar> \<le> 1 / 2"
proof -
  have "of_int \<lfloor>x\<rfloor> \<le> x" "x < of_int \<lfloor>x\<rfloor> + 1" by linarith+
  then show ?thesis by (auto simp: np_round_def Let_def)
qed

lemma clip_range: "lo \<le> hi \<Longrightarrow> lo \<le> clip lo hi x \<and> clip lo hi x \<le> hi"
  by (auto simp: clip_def)

lemma clip_idem: "lo \<le> x \<Longrightarrow> x \<le> hi \<Longrightarrow> clip lo hi x = x"
  by (simp add: clip_def)

text \<open>\<open>((x - y) ** 2).sum(-1)\<close>\<close>

definition dist2 :: "rat list \<Rightarrow> rat list \<Rightarrow> rat" where
  "dist2 x y = (\<Sum>(a, b)\<leftarrow>zip x y. (a - b) ^ 2)"

lemma dist2_simps [simp]:
  "dist2 [] y = 0" "dist2 x [] = 0" "dist2 (a # x) (b # y) = (a - b) ^ 2 + dist2 x y"
  by (simp_all add: dist2_def)

lemma dist2_nonneg: "0 \<le> dist2 x y"
  by (induction x y rule: list_induct2') auto

lemma dist2_self [simp]: "dist2 x x = 0"
  by (induction x) auto

lemma dist2_zero: "length x = length y \<Longrightarrow> dist2 x y = 0 \<Longrightarrow> x = y"
proof (induction x y rule: list_induct2)
  case (Cons a x b y)
  have "0 \<le> (a - b) ^ 2" "0 \<le> dist2 x y" by (simp_all add: dist2_nonneg)
  with Cons show ?case by (simp add: add_nonneg_eq_0_iff)
qed simp

lemma dist2_nth:
  "length x = length y \<Longrightarrow> dist2 x y = (\<Sum>i\<leftarrow>[0..<length x]. (x ! i - y ! i) ^ 2)"
proof (induction x y rule: list_induct2)
  case (Cons a x b y)
  have "[0..<length (a # x)] = 0 # map Suc [0..<length x]"
    by (simp only: list.size map_Suc_upt upt_conv_Cons [of 0] add_Suc_right add_0_right zero_less_Suc)
  with Cons show ?case by (simp add: comp_def del: upt_Suc)
qed simp

lemma dist2_translate:
  "length x = length y \<Longrightarrow> dist2 (map (\<lambda>a. a + c) x) (map (\<lambda>a. a + c) y) = dist2 x y"
  by (induction x y rule: list_induct2) auto

lemma dist2_update:
  assumes "length x = length y" and "j < length x"
  shows "dist2 x (y[j := v]) = dist2 x y - (x ! j - y ! j) ^ 2 + (x ! j - v) ^ 2"
proof -
  have "map (\<lambda>i. (x ! i - y[j := v] ! i) ^ 2) [0..<length x] =
      (map (\<lambda>i. (x ! i - y ! i) ^ 2) [0..<length x])[j := (x ! j - v) ^ 2]"
    using assms by (auto intro!: nth_equalityI simp: nth_list_update)
  then show ?thesis using assms by (simp add: dist2_nth sum_list_update)
qed

lemma dist2_mono:
  assumes "length x = length y" and "length x = length z"
    and "\<And>i. i < length x \<Longrightarrow> (x ! i - y ! i) ^ 2 \<le> (x ! i - z ! i) ^ 2"
  shows "dist2 x y \<le> dist2 x z"
  using assms by (auto simp: dist2_nth intro!: sum_list_mono)

end
