(* ===== verification/Codebook_Store.thy ===== *)
theory Codebook_Store
  imports Sidecars Numerics
begin

text \<open>
  \<open>orka/core/_format.py\<close>, the codebooks: \<open>_quantize_codebook_int8\<close>,
  \<open>_cast_codebook_storage\<close>, \<open>_write_codebook\<close> and \<open>_read_codebook\<close>.

  Codebook entries are finite float32 values, hence rationals. Rounding is numpy's: \<open>r16\<close> is the
  value of a conversion to fp16, \<open>r32\<close> the float32 rounding of an arithmetic result, and
  \<open>to16\<close>/\<open>of16\<close>/\<open>to32\<close>/\<open>of32\<close> the bit patterns. \<open>float_laws\<close> states the facts of IEEE arithmetic that the
  storage format relies on: conversions are idempotent, and the product of an fp16 number with
  an integer of seven bits is exact in float32.
\<close>

record floats =
  r16 :: "rat \<Rightarrow> rat"
  r32 :: "rat \<Rightarrow> rat"
  bits16 :: "rat \<Rightarrow> nat"
  val16 :: "nat \<Rightarrow> rat"
  bits32 :: "rat \<Rightarrow> nat"
  val32 :: "nat \<Rightarrow> rat"

definition float_laws :: "floats \<Rightarrow> bool" where
  "float_laws fl \<longleftrightarrow>
     (\<forall>x. r16 fl (r16 fl x) = r16 fl x \<and> r32 fl (r32 fl x) = r32 fl x \<and>
       bits16 fl x < 2 ^ 16 \<and> val16 fl (bits16 fl (r16 fl x)) = r16 fl x \<and>
       bits32 fl x < 2 ^ 32 \<and> val32 fl (bits32 fl (r32 fl x)) = r32 fl x) \<and>
     (\<forall>x (k :: int). \<bar>k\<bar> \<le> 127 \<longrightarrow> r32 fl (of_int k * r16 fl x) = of_int k * r16 fl x \<and>
       r32 fl (of_int k) = of_int k)"

definition max_list :: "rat list \<Rightarrow> rat" where
  "max_list xs = fold max (tl xs) (hd xs)"

definition col_max :: "rat matrix \<Rightarrow> nat \<Rightarrow> rat" where
  "col_max arr j = max_list (map (\<lambda>row. \<bar>row ! j\<bar>) arr)"

definition int8_scale :: "floats \<Rightarrow> rat \<Rightarrow> rat" where
  "int8_scale fl m = r16 fl (if m > 0 then r32 fl (m / 127) else 1)"

text \<open>
  \<open>arr / scales\<close> for a scale that underflowed to 0 is an infinity, which the clip turns into
  \<open>\<plusminus>127\<close>, or a NaN, whose conversion to int8 is 0 on the supported platforms.
\<close>

definition int8_entry :: "floats \<Rightarrow> rat \<Rightarrow> rat \<Rightarrow> int" where
  "int8_entry fl a s =
     (if s = 0 then (if a > 0 then 127 else if a < 0 then -127 else 0)
      else clip (-127) 127 (np_round (r32 fl (a / s))))"

definition quantize_codebook_int8 :: "floats \<Rightarrow> nat \<Rightarrow> rat matrix \<Rightarrow> format_error + int matrix \<times> rat list" where
  "quantize_codebook_int8 fl grp arr =
     (if arr = [] then Inl EmptyReduction
      else
        (let scales = map (\<lambda>j. int8_scale fl (col_max arr j)) [0..<grp]
         in Inr (map (\<lambda>row. map (\<lambda>j. int8_entry fl (row ! j) (scales ! j)) [0..<grp]) arr, scales)))"

definition dequantize_int8 :: "floats \<Rightarrow> int matrix \<Rightarrow> rat list \<Rightarrow> rat matrix" where
  "dequantize_int8 fl q scales = map (\<lambda>row. map2 (\<lambda>k s. r32 fl (of_int k * s)) row scales) q"

definition cast_codebook_storage ::
  "floats \<Rightarrow> nat \<Rightarrow> rat matrix \<Rightarrow> string \<Rightarrow> format_error + rat matrix \<times> string" where
  "cast_codebook_storage fl grp codebook dtype =
     (if dtype = ''float32'' then Inr (codebook, ''float32'')
      else if dtype = ''int8'' then
        bind_err (quantize_codebook_int8 fl grp codebook)
          (\<lambda>(q, scales). Inr (dequantize_int8 fl q scales, ''int8''))
      else if dtype = ''float16'' \<and> list_ex (\<lambda>x. \<bar>x\<bar> > 65504) (concat codebook) then Inr (codebook, ''float32'')
      else Inr (map (map (r16 fl)) codebook, ''float16''))"

definition int8_byte :: "int \<Rightarrow> byte" where
  "int8_byte k = word_of_int k"

definition byte_int8 :: "byte \<Rightarrow> int" where
  "byte_int8 b = sint b"

definition write_codebook ::
  "floats \<Rightarrow> string \<Rightarrow> nat \<Rightarrow> rat matrix \<Rightarrow> string \<Rightarrow> store \<Rightarrow> format_error + store" where
  "write_codebook fl path grp codebook dtype s =
     (if dtype = ''int8'' then
        bind_err (quantize_codebook_int8 fl grp codebook) (\<lambda>(q, scales).
          Inr (s(path \<mapsto> array_bytes 2 (map (bits16 fl) scales) @ map int8_byte (concat q))))
      else
        bind_err (float_value_dtype dtype) (\<lambda>dt.
          Inr (s(path \<mapsto> (if dt = ''<f2'' then array_bytes 2 (map (bits16 fl \<circ> r16 fl) (concat codebook))
                       else array_bytes 4 (map (bits32 fl) (concat codebook)))))))"

text \<open>\<open>.reshape(-1, grp)\<close>\<close>

definition reshape_rows :: "nat \<Rightarrow> 'a list \<Rightarrow> format_error + 'a matrix" where
  "reshape_rows grp xs =
     (if grp = 0 \<or> length xs mod grp \<noteq> 0 then Inl ShapeMismatch else Inr (blocks_of grp xs))"

definition read_codebook :: "floats \<Rightarrow> string \<Rightarrow> nat \<Rightarrow> string \<Rightarrow> store \<Rightarrow> format_error + rat matrix" where
  "read_codebook fl path grp dtype s =
     (case s path of
        None \<Rightarrow> Inl (NotFound path)
      | Some raw \<Rightarrow>
          if dtype = ''int8'' then
            bind_err (frombuffer_dt ''<f2'' (take (grp * 2) raw)) (\<lambda>sc.
            bind_err (reshape_rows grp (map byte_int8 (drop (grp * 2) raw))) (\<lambda>q.
              if length sc \<noteq> grp \<and> length sc \<noteq> 1 then Inl ShapeMismatch
              else Inr (dequantize_int8 fl q
                     (if length sc = grp then map (val16 fl) sc else replicate grp (val16 fl (hd sc))))))
          else
            bind_err (float_value_dtype dtype) (\<lambda>dt.
              reshape_rows grp (map (if dt = ''<f2'' then val16 fl else val32 fl)
                (array_of_bytes (itemsize dt) (take (length raw div itemsize dt * itemsize dt) raw)))))"

section \<open>Re-quantisation recovers the stored codebook\<close>

lemma fold_max_in: "fold max xs (a :: rat) \<in> insert a (set xs)"
proof (induction xs arbitrary: a)
  case (Cons y ys)
  have "fold max (y # ys) a = fold max ys (max y a)" by simp
  moreover have "fold max ys (max y a) \<in> insert (max y a) (set ys)" by (rule Cons.IH)
  moreover have "max y a = y \<or> max y a = a" by linarith
  ultimately show ?case by auto
qed simp

lemma max_list_eqI:
  assumes "m \<in> set xs" and "\<And>x. x \<in> set xs \<Longrightarrow> x \<le> m"
  shows "max_list xs = m"
proof (cases xs)
  case Nil
  with assms show ?thesis by simp
next
  case (Cons y ys)
  have "m \<le> max_list xs" using assms(1) Cons fold_max_upper [of m ys y] by (auto simp: max_list_def)
  moreover have "max_list xs \<in> set xs" using fold_max_in [of ys y] by (auto simp: max_list_def Cons)
  ultimately show ?thesis using assms(2) by fastforce
qed

lemma r16_idem: "float_laws fl \<Longrightarrow> r16 fl (r16 fl x) = r16 fl x"
  unfolding float_laws_def by blast

lemma val16_r16: "float_laws fl \<Longrightarrow> val16 fl (bits16 fl (r16 fl x)) = r16 fl x"
  unfolding float_laws_def by blast

lemma int8_entry_range: "\<bar>int8_entry fl a s\<bar> \<le> 127"
  using clip_range [of "-127" 127 "np_round (r32 fl (a / s))"] by (auto simp: int8_entry_def)

lemma int8_entry_fixed:
  assumes "float_laws fl" and "\<bar>k\<bar> \<le> 127" and "s = r16 fl x" and "s \<noteq> 0"
  shows "int8_entry fl (of_int k * s) s = k"
proof -
  have "of_int k * s / s = of_int k" using assms(4) by simp
  moreover have "r32 fl (of_int k) = of_int k" using assms(1,2) by (simp add: float_laws_def)
  ultimately show ?thesis using assms(2,4) by (auto simp: int8_entry_def clip_def)
qed

text \<open>
  A column whose scale is positive and one of whose entries is stored as \<open>\<plusminus>127\<close> has the same
  scale when it is quantised again.
\<close>

definition full_scale :: "int matrix \<Rightarrow> rat list \<Rightarrow> nat \<Rightarrow> bool" where
  "full_scale q scales j \<longleftrightarrow> 0 < scales ! j \<and> (\<exists>row \<in> set q. \<bar>row ! j\<bar> = 127)"

definition int8_pair :: "floats \<Rightarrow> nat \<Rightarrow> int matrix \<Rightarrow> rat list \<Rightarrow> bool" where
  "int8_pair fl grp q scales \<longleftrightarrow>
     length scales = grp \<and> (\<forall>s \<in> set scales. \<exists>x. s = r16 fl x) \<and>
     (\<forall>row \<in> set q. length row = grp \<and> (\<forall>k \<in> set row. \<bar>k\<bar> \<le> 127))"

lemma quantize_int8_pair:
  assumes "quantize_codebook_int8 fl grp cb = Inr (q, scales)"
  shows "int8_pair fl grp q scales" and "q \<noteq> []"
  using assms int8_entry_range
  by (auto simp: quantize_codebook_int8_def int8_pair_def Let_def int8_scale_def split: if_splits)

lemma dequantize_exact:
  assumes "float_laws fl" and "int8_pair fl grp q scales"
  shows "dequantize_int8 fl q scales = map (\<lambda>row. map (\<lambda>j. of_int (row ! j) * scales ! j) [0..<grp]) q"
proof -
  have "map2 (\<lambda>k s. r32 fl (of_int k * s)) row scales = map (\<lambda>j. of_int (row ! j) * scales ! j) [0..<grp]"
    if row: "row \<in> set q" for row
  proof (rule nth_equalityI)
    show "length (map2 (\<lambda>k s. r32 fl (of_int k * s)) row scales) = length (map (\<lambda>j. of_int (row ! j) * scales ! j) [0..<grp])"
      using assms(2) row by (simp add: int8_pair_def)
  next
    fix j assume "j < length (map2 (\<lambda>k s. r32 fl (of_int k * s)) row scales)"
    then have j: "j < grp" and len: "length row = grp" "length scales = grp"
      using assms(2) row by (auto simp: int8_pair_def)
    then have "row ! j \<in> set row" "scales ! j \<in> set scales" by auto
    then obtain x where "\<bar>row ! j\<bar> \<le> 127" "scales ! j = r16 fl x"
      using assms(2) row by (auto simp: int8_pair_def)
    then have "r32 fl (of_int (row ! j) * scales ! j) = of_int (row ! j) * scales ! j"
      using assms(1) by (simp add: float_laws_def)
    with j len show "map2 (\<lambda>k s. r32 fl (of_int k * s)) row scales ! j =
        map (\<lambda>j. of_int (row ! j) * scales ! j) [0..<grp] ! j" by simp
  qed
  then show ?thesis by (auto simp: dequantize_int8_def)
qed

lemma col_max_full_scale:
  assumes laws: "float_laws fl" and pair: "int8_pair fl grp q scales" and j: "j < grp"
    and full: "full_scale q scales j"
  shows "col_max (dequantize_int8 fl q scales) j = 127 * scales ! j"
  unfolding col_max_def dequantize_exact [OF laws pair]
proof (rule max_list_eqI)
  have s: "0 < scales ! j" using full by (simp add: full_scale_def)
  obtain row where row: "row \<in> set q" "\<bar>row ! j\<bar> = 127" using full by (auto simp: full_scale_def)
  then have "\<bar>of_int (row ! j) * scales ! j\<bar> = 127 * scales ! j"
    using s by (simp add: abs_mult flip: of_int_abs)
  with row j show "127 * scales ! j \<in> set (map (\<lambda>row. \<bar>row ! j\<bar>)
      (map (\<lambda>row. map (\<lambda>j. of_int (row ! j) * scales ! j) [0..<grp]) q))"
    by (force simp: image_iff)
  fix x assume "x \<in> set (map (\<lambda>row. \<bar>row ! j\<bar>)
      (map (\<lambda>row. map (\<lambda>j. of_int (row ! j) * scales ! j) [0..<grp]) q))"
  then obtain r where r: "r \<in> set q" and x: "x = \<bar>of_int (r ! j) * scales ! j\<bar>" using j by auto
  then have "r ! j \<in> set r" and k: "\<bar>r ! j\<bar> \<le> 127" using pair j by (auto simp: int8_pair_def)
  have "x = of_int \<bar>r ! j\<bar> * scales ! j" using s by (simp add: x abs_mult)
  also have "\<dots> \<le> 127 * scales ! j"
  proof (rule mult_right_mono)
    show "of_int \<bar>r ! j\<bar> \<le> (127 :: rat)" using k by (metis of_int_le_iff of_int_numeral)
  qed (use s in simp)
  finally show "x \<le> 127 * scales ! j" .
qed

lemma requantize_int8:
  assumes laws: "float_laws fl" and pair: "int8_pair fl grp q scales" and ne: "q \<noteq> []"
    and full: "\<forall>j < grp. full_scale q scales j"
  shows "quantize_codebook_int8 fl grp (dequantize_int8 fl q scales) = Inr (q, scales)"
proof -
  let ?d = "dequantize_int8 fl q scales"
  have len: "length scales = grp" using pair by (simp add: int8_pair_def)
  have scale: "int8_scale fl (col_max ?d j) = scales ! j" if j: "j < grp" for j
  proof -
    have s: "0 < scales ! j" using full j by (simp add: full_scale_def)
    obtain x where x: "scales ! j = r16 fl x" using pair j by (metis int8_pair_def nth_mem)
    have "r32 fl (of_int 1 * r16 fl x) = of_int 1 * r16 fl x"
      using laws unfolding float_laws_def by (metis abs_1 one_le_numeral)
    then have "r32 fl (scales ! j) = scales ! j" by (simp add: x)
    moreover have "r16 fl (scales ! j) = scales ! j"
      unfolding x using laws by (rule r16_idem)
    moreover have "col_max ?d j = 127 * scales ! j"
      using full j by (intro col_max_full_scale [OF laws pair j]) simp
    moreover have "127 * scales ! j / 127 = scales ! j" "0 < 127 * scales ! j" using s by simp_all
    ultimately show ?thesis by (simp only: int8_scale_def if_True)
  qed
  have sc: "map (\<lambda>j. int8_scale fl (col_max ?d j)) [0..<grp] = scales"
    using scale len by (intro nth_equalityI) auto
  have row: "map (\<lambda>j. int8_entry fl (map (\<lambda>j. of_int (row ! j) * scales ! j) [0..<grp] ! j) (scales ! j)) [0..<grp] = row"
    if r: "row \<in> set q" for row
  proof (rule nth_equalityI)
    show "length (map (\<lambda>j. int8_entry fl (map (\<lambda>j. of_int (row ! j) * scales ! j) [0..<grp] ! j) (scales ! j)) [0..<grp]) = length row"
      using pair r by (simp add: int8_pair_def)
    fix j assume "j < length (map (\<lambda>j. int8_entry fl (map (\<lambda>j. of_int (row ! j) * scales ! j) [0..<grp] ! j) (scales ! j)) [0..<grp])"
    then have j: "j < grp" by simp
    moreover obtain x where "scales ! j = r16 fl x" using pair j by (metis int8_pair_def nth_mem)
    moreover have "\<bar>row ! j\<bar> \<le> 127" using pair r j by (auto simp: int8_pair_def)
    moreover have "scales ! j \<noteq> 0" using full j by (auto simp: full_scale_def)
    ultimately show "map (\<lambda>j. int8_entry fl (map (\<lambda>j. of_int (row ! j) * scales ! j) [0..<grp] ! j) (scales ! j)) [0..<grp] ! j = row ! j"
      using int8_entry_fixed [OF laws] by simp
  qed
  have "map (\<lambda>row. map (\<lambda>j. int8_entry fl (row ! j) (scales ! j)) [0..<grp]) ?d = q"
    unfolding dequantize_exact [OF laws pair] map_map comp_def using row by (simp add: map_idI)
  moreover have "?d \<noteq> []" using ne by (simp add: dequantize_int8_def)
  ultimately show ?thesis by (simp add: quantize_codebook_int8_def sc)
qed

lemma byte_int8_byte: "\<bar>k\<bar> \<le> 127 \<Longrightarrow> byte_int8 (int8_byte k) = k"
  by (auto simp: byte_int8_def int8_byte_def signed_of_int intro!: signed_take_bit_int_eq_self)

lemma int8_file:
  assumes laws: "float_laws fl" and pair: "int8_pair fl grp q scales" and g: "0 < grp"
    and raw: "s p = Some (array_bytes 2 (map (bits16 fl) scales) @ map int8_byte (concat q))"
  shows "read_codebook fl p grp ''int8'' s = Inr (dequantize_int8 fl q scales)"
proof -
  have len: "length scales = grp" and rows: "\<forall>row \<in> set q. length row = grp"
    using pair by (auto simp: int8_pair_def)
  have "val16 fl (bits16 fl x) = x" if x: "x \<in> set scales" for x
  proof -
    obtain y where "x = r16 fl y" using pair x by (auto simp: int8_pair_def)
    then show ?thesis using val16_r16 [OF laws] by simp
  qed
  then have sc: "map (val16 fl) (map (bits16 fl) scales) = scales"
    unfolding map_map by (intro map_idI) simp
  have q: "map byte_int8 (map int8_byte (concat q)) = concat q"
    unfolding map_map using pair by (intro map_idI) (auto simp: int8_pair_def byte_int8_byte)
  have "frombuffer_dt ''<f2'' (array_bytes 2 (map (bits16 fl) scales)) = Inr (map (bits16 fl) scales)"
    using laws by (auto simp: frombuffer_dt_def array_roundtrip float_laws_def)
  moreover have "length (concat q) mod grp = 0"
    using rows by (induction q) auto
  then have "reshape_rows grp (concat q) = Inr q"
    using rows g by (simp add: reshape_rows_def blocks_of_concat)
  moreover have "take (grp * 2) (array_bytes 2 (map (bits16 fl) scales) @ map int8_byte (concat q))
      = array_bytes 2 (map (bits16 fl) scales)"
    and "drop (grp * 2) (array_bytes 2 (map (bits16 fl) scales) @ map int8_byte (concat q))
      = map int8_byte (concat q)"
    by (simp_all add: len mult.commute)
  ultimately show ?thesis
    unfolding read_codebook_def raw option.case using sc q len by simp
qed

section \<open>Properties\<close>

text \<open>an int8 codebook file holds exactly the codebook the pipeline assigned with: casting a
  codebook to int8 storage, writing the cast codebook (which derives scales and entries a second
  time) and reading it back returns the cast codebook, provided every column has a positive scale
  and an entry stored as 127 or -127.\<close>

theorem int8_codebook_roundtrip:
  assumes "float_laws fl" and "0 < grp"
    and "quantize_codebook_int8 fl grp cb = Inr (q, scales)"
    and "\<forall>j < grp. full_scale q scales j"
  shows "\<exists>cast s'. cast_codebook_storage fl grp cb ''int8'' = Inr (cast, ''int8'') \<and>
    write_codebook fl p grp cast ''int8'' s = Inr s' \<and> read_codebook fl p grp ''int8'' s' = Inr cast"
proof -
  let ?cast = "dequantize_int8 fl q scales"
  have pair: "int8_pair fl grp q scales" and ne: "q \<noteq> []"
    using quantize_int8_pair [OF assms(3)] by blast+
  have "quantize_codebook_int8 fl grp ?cast = Inr (q, scales)"
    using requantize_int8 [OF assms(1) pair ne assms(4)] .
  then have "write_codebook fl p grp ?cast ''int8'' s =
      Inr (s(p \<mapsto> array_bytes 2 (map (bits16 fl) scales) @ map int8_byte (concat q)))"
    by (simp add: write_codebook_def)
  moreover have "cast_codebook_storage fl grp cb ''int8'' = Inr (?cast, ''int8'')"
    using assms(3) by (simp add: cast_codebook_storage_def)
  ultimately show ?thesis
    using int8_file [OF assms(1) pair assms(2)] by auto
qed

text \<open>Floats that are the integers of a bounded range, for an example: 4 and 12 bits.\<close>

definition int_floats :: floats where
  "int_floats = \<lparr>r16 = \<lambda>x. of_int (clip (-8) 7 (np_round x)), r32 = \<lambda>x. of_int (clip (-2048) 2047 (np_round x)),
     bits16 = \<lambda>x. nat (clip (-8) 7 (np_round x) + 8), val16 = \<lambda>n. of_int (int n - 8),
     bits32 = \<lambda>x. nat (clip (-2048) 2047 (np_round x) + 2048), val32 = \<lambda>n. of_int (int n - 2048)\<rparr>"

lemma int_floats_laws: "float_laws int_floats"
proof -
  have c8: "-8 \<le> clip (-8) 7 k \<and> clip (-8) 7 k \<le> 7" for k by (rule clip_range) simp
  have c11: "-2048 \<le> clip (-2048) 2047 k \<and> clip (-2048) 2047 k \<le> 2047" for k by (rule clip_range) simp
  have prod: "clip (-2048) 2047 (np_round (of_int k * of_int (clip (-8) 7 m) :: rat)) = k * clip (-8) 7 m"
    if "\<bar>k\<bar> \<le> 127" for k m
  proof -
    have "\<bar>clip (-8) 7 m\<bar> \<le> 8" using c8 [of m] by linarith
    with that have "\<bar>k\<bar> * \<bar>clip (-8) 7 m\<bar> \<le> 127 * 8" by (intro mult_mono) auto
    then have "\<bar>k * clip (-8) 7 m\<bar> \<le> 1016" by (simp add: abs_mult)
    then have "clip (-2048) 2047 (k * clip (-8) 7 m) = k * clip (-8) 7 m" by (intro clip_idem) auto
    then show ?thesis using np_round_int [of "k * clip (-8) 7 m", where ?'a = rat] by simp
  qed
  have small: "clip (-2048) 2047 k = k" if "\<bar>k\<bar> \<le> 127" for k
    using that by (intro clip_idem) auto
  have nat8: "int (nat (clip (-8) 7 k + 8)) = clip (-8) 7 k + 8" "nat (clip (-8) 7 k + 8) < 2 ^ 16" for k
    using c8 [of k] by auto
  have nat11: "int (nat (clip (-2048) 2047 k + 2048)) = clip (-2048) 2047 k + 2048"
    "nat (clip (-2048) 2047 k + 2048) < 2 ^ 32" for k
    using c11 [of k] by auto
  have idem: "clip (-8) 7 (clip (-8) 7 k) = clip (-8) 7 k"
    "clip (-2048) 2047 (clip (-2048) 2047 k) = clip (-2048) 2047 k" for k
    using c8 [of k] c11 [of k] by (simp_all add: clip_idem)
  show ?thesis
    unfolding float_laws_def int_floats_def floats.simps np_round_int idem nat8(1) nat11(1)
    using prod small nat8(2) nat11(2) by simp
qed

theorem int8_codebook_roundtrip_witness:
  "\<exists>cast s'. cast_codebook_storage int_floats 1 [[254], [-20], [100]] ''int8'' = Inr (cast, ''int8'') \<and>
    write_codebook int_floats ''c'' 1 cast ''int8'' Map.empty = Inr s' \<and>
    read_codebook int_floats ''c'' 1 ''int8'' s' = Inr cast"
proof (rule int8_codebook_roundtrip [OF int_floats_laws])
  show "quantize_codebook_int8 int_floats 1 [[254], [-20], [100]] = Inr ([[127], [-10], [50]], [2])"
    by code_simp
  show "\<forall>j < 1. full_scale [[127], [-10], [50]] [2] j" by (simp add: full_scale_def)
qed simp

text \<open>
  A concrete rounding for examples: fp16 below \<open>2 ^ -13\<close> is the grid of multiples of
  \<open>2 ^ -24\<close>, and the arithmetic is exact.
\<close>

definition grid16 :: floats where
  "grid16 = \<lparr>r16 = \<lambda>x. of_int (np_round (x * 2 ^ 24)) / 2 ^ 24, r32 = \<lambda>x. x,
     bits16 = \<lambda>x. nat \<lfloor>x * 2 ^ 24\<rfloor> mod 2 ^ 16, val16 = \<lambda>n. of_nat n / 2 ^ 24,
     bits32 = \<lambda>x. 0, val32 = \<lambda>n. 0\<rparr>"

lemma grid16_simps:
  "r16 grid16 x = of_int (np_round (x * 2 ^ 24)) / 2 ^ 24" "r32 grid16 x = x"
  "bits16 grid16 x = nat \<lfloor>x * 2 ^ 24\<rfloor> mod 2 ^ 16" "val16 grid16 n = of_nat n / 2 ^ 24"
  by (simp_all add: grid16_def)

text \<open>without that condition the claim in \<open>_write_codebook\<close> that re-deriving the scales
  "recovers the exact same values" fails: a column whose largest entry lies where fp16 is
  subnormal (scale 63.6 times \<open>2 ^ -24\<close>, stored as 64) is stored with largest entry 126, and
  writing it derives the scale 63, so reading returns a codebook different from the one the
  pipeline assigned with.\<close>

theorem int8_codebook_drifts:
  "\<exists>cast. cast_codebook_storage grid16 1 [[127 * 636 / 10 / 2 ^ 24]] ''int8'' = Inr (cast, ''int8'') \<and>
    cast = [[8064 / 2 ^ 24]] \<and>
    quantize_codebook_int8 grid16 1 cast = Inr ([[127]], [63 / 2 ^ 24]) \<and>
    (\<exists>s'. write_codebook grid16 ''c'' 1 cast ''int8'' Map.empty = Inr s' \<and>
      read_codebook grid16 ''c'' 1 ''int8'' s' = Inr [[8001 / 2 ^ 24]])"
proof -
  have q: "quantize_codebook_int8 grid16 1 [[127 * 636 / 10 / 2 ^ 24]] = Inr ([[126]], [64 / 2 ^ 24])"
  proof -
    have "\<lfloor>318 / 5 :: rat\<rfloor> = 63" "\<lfloor>20193 / 160 :: rat\<rfloor> = 126" by (simp_all add: floor_unique)
    then have "np_round (318 / 5 :: rat) = 64" "np_round (20193 / 160 :: rat) = 126"
      by (simp_all add: np_round_def Let_def)
    then have "int8_scale grid16 (20193 / 41943040) = 1 / 262144"
      and "int8_entry grid16 (20193 / 41943040) (1 / 262144) = 126"
      by (simp_all add: int8_scale_def int8_entry_def grid16_simps clip_def)
    note [simp] = this
    show ?thesis by (simp add: quantize_codebook_int8_def Let_def col_max_def max_list_def)
  qed
  have d: "dequantize_int8 grid16 [[126]] [64 / 2 ^ 24] = [[8064 / 2 ^ 24]]"
    by (simp add: dequantize_int8_def grid16_simps)
  have q2: "quantize_codebook_int8 grid16 1 [[8064 / 2 ^ 24]] = Inr ([[127]], [63 / 2 ^ 24])"
  proof -
    have "\<lfloor>8064 / 127 :: rat\<rfloor> = 63" by (simp add: floor_unique)
    then have "np_round (8064 / 127 :: rat) = 63" "np_round (128 :: rat) = 128"
      using np_round_int [of 128, where ?'a = rat] by (simp_all add: np_round_def Let_def)
    then have "int8_scale grid16 (63 / 131072) = 63 / 16777216"
      and "int8_entry grid16 (63 / 131072) (63 / 16777216) = 127"
      by (simp_all add: int8_scale_def int8_entry_def grid16_simps clip_def)
    note [simp] = this
    show ?thesis by (simp add: quantize_codebook_int8_def Let_def col_max_def max_list_def)
  qed
  have "read_codebook grid16 ''c'' 1 ''int8''
      (Map.empty(''c'' \<mapsto> array_bytes 2 (map (bits16 grid16) [63 / 2 ^ 24]) @ map int8_byte (concat [[127]])))
    = Inr [[8001 / 2 ^ 24]]"
  proof -
    have "bits16 grid16 (63 / 2 ^ 24) = 63" "val16 grid16 63 = 63 / 2 ^ 24" by (simp_all add: grid16_simps)
    moreover have "frombuffer_dt ''<f2'' (array_bytes 2 [63]) = Inr [63]"
      unfolding frombuffer_dt_def using array_roundtrip [of 2 "[63]"] by simp
    moreover have "reshape_rows 1 [127 :: int] = Inr [[127]]"
      by (simp add: reshape_rows_def blocks_of.simps)
    moreover have "byte_int8 (int8_byte 127) = 127" by (simp add: byte_int8_byte)
    moreover have "dequantize_int8 grid16 [[127]] [63 / 2 ^ 24] = [[8001 / 2 ^ 24]]"
      by (simp add: dequantize_int8_def grid16_simps)
    moreover have "take (1 * 2) (array_bytes 2 [63] @ [int8_byte 127]) = array_bytes 2 [63]"
      "drop (1 * 2) (array_bytes 2 [63] @ [int8_byte 127]) = [int8_byte 127]"
      by simp_all
    ultimately show ?thesis
      by (simp only: read_codebook_def fun_upd_same option.case list.map concat.simps append_Nil2
          bind_err_simps list.size simp_thms if_True) simp
  qed
  then show ?thesis
    using q d q2 by (simp add: cast_codebook_storage_def write_codebook_def)
qed

end
