(* ===== verification/Quant_Spec.thy ===== *)
theory Quant_Spec
  imports Bitstream
begin

text \<open>
  \<open>orka/quant/spec.py\<close> and the utilities of \<open>orka/core/_util.py\<close> it builds on: the quantization
  spec language (\<open>vq-12\<close>, \<open>rvq-8-s4\<close>, \<open>rvq-mixed\<close>), its printer, the per-family mixed specs, and
  the payload estimate.
\<close>

datatype spec_error =
    BadPrefix | EmptyStage | InvalidScalarBits string | NonIntegerBits string | BitsOutOfRange
  | TotalBitsTooHigh | ScalarBitsTooHigh nat | SingleStageOnly | Invalid string

text \<open>A stage is a codebook size (\<open>int\<close>) or a scalar plane (\<open>'s4'\<close>, kept as text).\<close>

datatype stage = Codebook nat | Scalar string

definition QUANT_SPEC_MAX_PER_STAGE_BITS :: nat where "QUANT_SPEC_MAX_PER_STAGE_BITS = 64"
definition QUANT_SPEC_MAX_TOTAL_BITS :: nat where "QUANT_SPEC_MAX_TOTAL_BITS = 64"
definition QUANT_SPEC_MAX_SCALAR_BITS_PER_WEIGHT :: nat where
  "QUANT_SPEC_MAX_SCALAR_BITS_PER_WEIGHT = 32"

section \<open>The payload estimate\<close>

record payload_estimate =
  params :: nat
  group_size :: nat
  codebook_size :: nat
  index_bits :: nat
  vector_count :: nat
  index_bytes :: nat
  scale_block_vectors :: nat
  scale_bytes :: nat
  bits_per_weight :: rat
  total_payload_bytes :: nat

definition estimate_payload ::
  "int \<Rightarrow> int \<Rightarrow> int \<Rightarrow> int \<Rightarrow> int \<Rightarrow> spec_error + payload_estimate" where
  "estimate_payload n_params g_size cb_size scale_block scale_bits =
     (if n_params \<le> 0 then Inl (Invalid ''params'')
      else if g_size \<le> 0 then Inl (Invalid ''group_size'')
      else if cb_size \<le> 1 then Inl (Invalid ''codebook_size'')
      else if scale_block \<le> 0 then Inl (Invalid ''scale_block_vectors'')
      else if scale_bits < 0 then Inl (Invalid ''scale_bits'')
      else
        (let ib = clog2 (nat cb_size);
             vc = ceil_div (nat n_params) (nat g_size);
             ibytes = ceil_div (vc * ib) 8;
             scale_count = ceil_div vc (nat scale_block);
             sbytes = ceil_div (scale_count * nat scale_bits) 8
         in Inr \<lparr>params = nat n_params, group_size = nat g_size, codebook_size = nat cb_size,
                 index_bits = ib, vector_count = vc, index_bytes = ibytes,
                 scale_block_vectors = nat scale_block, scale_bytes = sbytes,
                 bits_per_weight = of_nat (ibytes + sbytes) * 8 / of_nat (nat n_params),
                 total_payload_bytes = ibytes + sbytes\<rparr>))"

section \<open>Mixed specs\<close>

text \<open>A width of the mixed table: a codebook's bits or a scalar plane.\<close>

datatype width = Bits nat | Plane string

definition RVQ_MIXED_FAMILY_BITS :: "(string \<times> width list) list" where
  "RVQ_MIXED_FAMILY_BITS =
     [(''embedding'', [Bits 12, Plane ''s4'', Plane ''s4'']),
      (''shared_expert'', [Bits 16, Bits 8]),
      (''expert'', [Bits 12, Plane ''s4'']),
      (''router'', [Bits 16, Bits 16]),
      (''attention'', [Bits 16, Bits 8]),
      (''mlp'', [Bits 16, Bits 8]),
      (''other'', [Bits 16])]"

text \<open>
  A plane string that does not start with \<open>s\<close> would go through \<open>int\<close>; the table has none, and
  \<open>int\<close> of a non-digit string raises.
\<close>

fun mixed_stage :: "width \<Rightarrow> stage option" where
  "mixed_stage (Plane b) =
     (if starts_with b ''s'' then Some (Scalar b)
      else if py_isdigit b then Some (Codebook (2 ^ digits_val b)) else None)"
| "mixed_stage (Bits b) = Some (Codebook (2 ^ b))"

definition rvq_mixed_family_stages :: "(string \<times> stage option list) list" where
  "rvq_mixed_family_stages = map (\<lambda>(fam, bits). (fam, map mixed_stage bits)) RVQ_MIXED_FAMILY_BITS"

definition is_rvq_mixed_spec :: "string option \<Rightarrow> bool" where
  "is_rvq_mixed_spec spec = (spec = Some ''rvq-mixed'')"

section \<open>Parsing and printing specs\<close>

text \<open>The loop's state: the stages so far, the summed bits, the summed scalar bits.\<close>

definition parse_stage :: "stage list \<times> nat \<times> nat \<Rightarrow> string \<Rightarrow> spec_error + stage list \<times> nat \<times> nat" where
  "parse_stage st p =
     (case st of (stages, tot, scalar_bits) \<Rightarrow>
        bind_err
          (if starts_with p ''s'' then
             (let b_str = drop 1 p
              in if \<not> py_isdigit b_str then Inl (InvalidScalarBits p)
                 else Inr (Scalar p, digits_val b_str, digits_val b_str))
           else if \<not> py_isdigit p then Inl (NonIntegerBits p)
           else Inr (Codebook (push_bit (digits_val p) 1), digits_val p, 0))
          (\<lambda>(stage, b, sb).
             if b < 1 \<or> b > QUANT_SPEC_MAX_PER_STAGE_BITS then Inl BitsOutOfRange
             else Inr (stages @ [stage], tot + b, scalar_bits + sb)))"

definition parse_quant_spec :: "string \<Rightarrow> spec_error + stage list" where
  "parse_quant_spec spec =
     bind_err
       (if starts_with spec ''rvq-'' then Inr (drop 4 spec, False)
        else if starts_with spec ''vq-'' then Inr (drop 3 spec, True)
        else Inl BadPrefix)
       (\<lambda>(body, single).
          (let parts = py_split (CHR ''-'') body
           in if parts = [] \<or> list_ex (\<lambda>p. p = []) parts then Inl EmptyStage
              else
                bind_err (foldM parse_stage ([], 0, 0) parts) (\<lambda>(stages, total_bits, scalar_bits).
                  if total_bits > QUANT_SPEC_MAX_TOTAL_BITS then Inl TotalBitsTooHigh
                  else if scalar_bits > QUANT_SPEC_MAX_SCALAR_BITS_PER_WEIGHT
                  then Inl (ScalarBitsTooHigh scalar_bits)
                  else if single \<and> length stages > 1 then Inl SingleStageOnly
                  else Inr stages)))"

definition index_bits_for_size :: "nat \<Rightarrow> nat" where
  "index_bits_for_size cb_size = (if cb_size > 1 then clog2 cb_size else 1)"

text \<open>\<open>int(k)\<close> of a stage text that is not a plane raises unless it is digits.\<close>

fun stage_part :: "stage \<Rightarrow> spec_error + string" where
  "stage_part (Codebook k) = Inr (nat_str (index_bits_for_size k))"
| "stage_part (Scalar t) =
     (if starts_with t ''s'' then Inr t
      else if py_isdigit t then Inr (nat_str (index_bits_for_size (digits_val t)))
      else Inl (NonIntegerBits t))"

definition quant_spec_from_sizes :: "stage list \<Rightarrow> spec_error + string" where
  "quant_spec_from_sizes sizes =
     bind_err (mapM stage_part sizes) (\<lambda>parts.
       Inr ((if length parts = 1 then ''vq-'' else ''rvq-'') @ py_join (CHR ''-'') parts))"

definition resolve_quant_stages ::
  "string option \<Rightarrow> nat list option \<Rightarrow> nat \<Rightarrow> spec_error + stage list" where
  "resolve_quant_stages quant_mode codebook_sizes cb_size =
     (case codebook_sizes of
        Some (k # ks) \<Rightarrow> Inr (map Codebook (k # ks))
      | _ \<Rightarrow>
          (case quant_mode of
             Some (c # cs) \<Rightarrow> parse_quant_spec (c # cs)
           | _ \<Rightarrow> Inr [Codebook cb_size]))"

section \<open>What a parsed spec promises\<close>

text \<open>The bits a stage costs, for the stages the parser produces.\<close>

fun stage_bits :: "stage \<Rightarrow> nat" where
  "stage_bits (Codebook k) = clog2 k"
| "stage_bits (Scalar t) = digits_val (drop 1 t)"

fun scalar_bits_of :: "stage \<Rightarrow> nat" where
  "scalar_bits_of (Codebook k) = 0"
| "scalar_bits_of (Scalar t) = digits_val (drop 1 t)"

fun stage_ok :: "stage \<Rightarrow> bool" where
  "stage_ok (Codebook k) = (\<exists>b \<in> {1..QUANT_SPEC_MAX_PER_STAGE_BITS}. k = 2 ^ b)"
| "stage_ok (Scalar t) =
     (starts_with t ''s'' \<and> py_isdigit (drop 1 t) \<and>
      1 \<le> digits_val (drop 1 t) \<and> digits_val (drop 1 t) \<le> QUANT_SPEC_MAX_PER_STAGE_BITS)"

definition spec_ok :: "stage list \<Rightarrow> bool" where
  "spec_ok stages \<longleftrightarrow> stages \<noteq> [] \<and> (\<forall>s \<in> set stages. stage_ok s) \<and>
     sum_list (map stage_bits stages) \<le> QUANT_SPEC_MAX_TOTAL_BITS \<and>
     sum_list (map scalar_bits_of stages) \<le> QUANT_SPEC_MAX_SCALAR_BITS_PER_WEIGHT"

lemma clog2_power [simp]: "clog2 (2 ^ b) = b"
proof (rule antisym)
  show "clog2 (2 ^ b) \<le> b" by (simp add: clog2_le_iff)
  show "b \<le> clog2 (2 ^ b)"
    using clog2_upper [of "2 ^ b"] by (metis one_less_numeral_iff power_increasing_iff semiring_norm(76))
qed

lemma parse_stage_ok:
  assumes "parse_stage (stages, tot, sb) p = Inr (stages', tot', sb')"
  shows "\<exists>s. stages' = stages @ [s] \<and> stage_ok s \<and> tot' = tot + stage_bits s \<and> sb' = sb + scalar_bits_of s"
  using assms
  by (auto simp: parse_stage_def bind_err_eq_Inr Let_def push_bit_eq_mult split: if_splits)

lemma parse_stages_ok:
  assumes "foldM parse_stage (stages, tot, sb) parts = Inr (stages', tot', sb')"
    and "\<forall>s \<in> set stages. stage_ok s"
    and "tot = sum_list (map stage_bits stages)" and "sb = sum_list (map scalar_bits_of stages)"
  shows "(\<forall>s \<in> set stages'. stage_ok s) \<and> tot' = sum_list (map stage_bits stages') \<and>
    sb' = sum_list (map scalar_bits_of stages') \<and> length stages' = length stages + length parts"
  using assms
proof (induction parts arbitrary: stages tot sb)
  case (Cons p parts)
  obtain st1 t1 s1 where step: "parse_stage (stages, tot, sb) p = Inr (st1, t1, s1)"
    and rest: "foldM parse_stage (st1, t1, s1) parts = Inr (stages', tot', sb')"
    using Cons.prems(1) by (auto simp: bind_err_eq_Inr)
  obtain s where s: "st1 = stages @ [s]" "stage_ok s" "t1 = tot + stage_bits s" "s1 = sb + scalar_bits_of s"
    using parse_stage_ok [OF step] by blast
  have "\<forall>s \<in> set st1. stage_ok s" "t1 = sum_list (map stage_bits st1)"
    "s1 = sum_list (map scalar_bits_of st1)"
    using s Cons.prems(2-4) by simp_all
  from Cons.IH [OF rest this] show ?case using s(1) by simp
qed simp

lemma parse_part:
  assumes "stage_ok s" and "stage_part s = Inr p"
  shows "parse_stage (stages, tot, sb) p = Inr (stages @ [s], tot + stage_bits s, sb + scalar_bits_of s)"
proof (cases s)
  case (Codebook k)
  then obtain b where b: "1 \<le> b" "b \<le> QUANT_SPEC_MAX_PER_STAGE_BITS" and k: "k = 2 ^ b"
    using assms(1) by auto
  have "k > 1" using b k by (metis one_less_power one_less_numeral_iff semiring_norm(76) less_le_trans zero_less_one)
  then have p: "p = nat_str b" using assms(2) Codebook k by (simp add: index_bits_for_size_def)
  have "\<not> prefix ''s'' (nat_str b)"
  proof
    assume "prefix ''s'' (nat_str b)"
    then have "CHR ''s'' \<in> set (nat_str b)" by (auto simp: prefix_def)
    then show False using nat_str_no_char [of "CHR ''s''" b] by (simp add: is_digit_def)
  qed
  with b p show ?thesis
    by (simp add: parse_stage_def Codebook k push_bit_eq_mult)
next
  case (Scalar t)
  with assms show ?thesis by (auto simp: parse_stage_def Let_def)
qed

lemma parse_parts:
  assumes "\<forall>s \<in> set ss. stage_ok s" and "mapM stage_part ss = Inr parts"
  shows "foldM parse_stage (stages, tot, sb) parts =
    Inr (stages @ ss, tot + sum_list (map stage_bits ss), sb + sum_list (map scalar_bits_of ss))"
  using assms
proof (induction ss arbitrary: parts stages tot sb)
  case (Cons s ss)
  obtain p ps where p: "stage_part s = Inr p" "mapM stage_part ss = Inr ps" "parts = p # ps"
    using Cons.prems(2) by (auto simp: bind_err_eq_Inr)
  have "parse_stage (stages, tot, sb) p = Inr (stages @ [s], tot + stage_bits s, sb + scalar_bits_of s)"
    using Cons.prems(1) p(1) by (intro parse_part) auto
  with p(3) Cons.IH [OF _ p(2)] Cons.prems(1) show ?case by (simp add: add.assoc)
qed simp

lemma stage_part_ok:
  assumes "stage_ok s"
  shows "\<exists>p. stage_part s = Inr p \<and> p \<noteq> [] \<and> CHR ''-'' \<notin> set p"
proof (cases s)
  case (Codebook k)
  then show ?thesis
    using nat_str_no_char [of "CHR ''-''"] by (auto simp: is_digit_def)
next
  case (Scalar t)
  then have "prefix ''s'' t" and "py_isdigit (drop 1 t)" using assms by auto
  then obtain u where t: "t = CHR ''s'' # u" and "list_all is_digit u"
    by (auto simp: prefix_def py_isdigit_def)
  then have "CHR ''-'' \<notin> set u" by (auto simp: list_all_iff is_digit_def)
  with Scalar t show ?thesis by simp
qed

lemma stage_parts_ok:
  assumes "\<forall>s \<in> set ss. stage_ok s"
  obtains parts where "mapM stage_part ss = Inr parts" and "length parts = length ss"
    and "\<forall>p \<in> set parts. p \<noteq> [] \<and> CHR ''-'' \<notin> set p"
proof -
  have "\<exists>parts. mapM stage_part ss = Inr parts \<and> length parts = length ss \<and>
    (\<forall>p \<in> set parts. p \<noteq> [] \<and> CHR ''-'' \<notin> set p)"
    using assms
  proof (induction ss)
    case (Cons s ss)
    then obtain p ps where "stage_part s = Inr p" "p \<noteq> []" "CHR ''-'' \<notin> set p"
      "mapM stage_part ss = Inr ps" "length ps = length ss" "\<forall>p \<in> set ps. p \<noteq> [] \<and> CHR ''-'' \<notin> set p"
      using stage_part_ok [of s] by auto
    then show ?case by simp
  qed simp
  with that show thesis by blast
qed

text \<open>The specs this module prints are the ones it parses: what every writer of a spec relies on.\<close>

lemma print_parse:
  assumes "spec_ok stages"
  obtains spec where "quant_spec_from_sizes stages = Inr spec" and "parse_quant_spec spec = Inr stages"
proof -
  obtain parts where parts: "mapM stage_part stages = Inr parts" "length parts = length stages"
    "\<forall>p \<in> set parts. p \<noteq> [] \<and> CHR ''-'' \<notin> set p"
    using assms stage_parts_ok [of stages] by (auto simp: spec_ok_def)
  have ne: "parts \<noteq> []" using assms parts(2) by (auto simp: spec_ok_def)
  let ?body = "py_join (CHR ''-'') parts"
  have split: "py_split (CHR ''-'') ?body = parts" using ne parts(3) by (intro py_split_join) auto
  have run: "foldM parse_stage ([], 0, 0) parts =
      Inr (stages, sum_list (map stage_bits stages), sum_list (map scalar_bits_of stages))"
    using parse_parts [OF _ parts(1), of "[]" 0 0] assms by (simp add: spec_ok_def)
  have nonempty: "\<not> list_ex (\<lambda>p. p = []) parts" using parts(3) by (auto simp: list_ex_iff)
  have "\<exists>spec. quant_spec_from_sizes stages = Inr spec \<and> parse_quant_spec spec = Inr stages"
  proof (cases "length parts = 1")
    case True
    then have "quant_spec_from_sizes stages = Inr (''vq-'' @ ?body)"
      using parts(1) by (simp add: quant_spec_from_sizes_def)
    moreover have "parse_quant_spec (''vq-'' @ ?body) = Inr stages"
      using assms True split run ne nonempty parts(2) by (simp add: parse_quant_spec_def spec_ok_def Let_def)
    ultimately show ?thesis by blast
  next
    case False
    then have "quant_spec_from_sizes stages = Inr (''rvq-'' @ ?body)"
      using parts(1) by (simp add: quant_spec_from_sizes_def)
    moreover have "parse_quant_spec (''rvq-'' @ ?body) = Inr stages"
      using assms split run ne nonempty by (simp add: parse_quant_spec_def spec_ok_def Let_def)
    ultimately show ?thesis by blast
  qed
  then show ?thesis using that by blast
qed

section \<open>Properties\<close>

text \<open>every spec \<open>parse_quant_spec\<close> accepts has at least one stage; each stage is a
  power-of-two codebook or a plane of 1..64 bits; the summed bits are at most 64 and the scalar
  bits at most 32; and a \<open>vq-\<close> spec has exactly one stage.\<close>

theorem parse_quant_spec_ok:
  assumes "parse_quant_spec spec = Inr stages"
  shows "spec_ok stages \<and> (starts_with spec ''vq-'' \<longrightarrow> length stages = 1)"
proof -
  obtain body single where body: "(if starts_with spec ''rvq-'' then Inr (drop 4 spec, False)
      else if starts_with spec ''vq-'' then Inr (drop 3 spec, True) else Inl BadPrefix) = Inr (body, single)"
    using assms by (auto simp: parse_quant_spec_def bind_err_eq_Inr)
  then obtain tot sb where run: "foldM parse_stage ([], 0, 0) (py_split (CHR ''-'') body) = Inr (stages, tot, sb)"
    and lim: "tot \<le> QUANT_SPEC_MAX_TOTAL_BITS" "sb \<le> QUANT_SPEC_MAX_SCALAR_BITS_PER_WEIGHT"
    and one: "single \<longrightarrow> length stages \<le> 1"
    using assms unfolding parse_quant_spec_def body
    by (auto simp: bind_err_eq_Inr Let_def split: if_splits)
  have st: "(\<forall>s \<in> set stages. stage_ok s) \<and> tot = sum_list (map stage_bits stages) \<and>
    sb = sum_list (map scalar_bits_of stages) \<and> length stages = length (py_split (CHR ''-'') body)"
    using parse_stages_ok [OF run] by simp
  then have ne: "stages \<noteq> []" by auto
  have "starts_with spec ''vq-'' \<Longrightarrow> single"
    using body by (auto simp: prefix_def split: if_splits)
  with one ne have "starts_with spec ''vq-'' \<longrightarrow> length stages = 1"
    by (cases stages) auto
  with st ne lim show ?thesis by (simp add: spec_ok_def)
qed

theorem parse_quant_spec_ok_witness:
  "parse_quant_spec ''rvq-12-s4-s4'' = Inr [Codebook 4096, Scalar ''s4'', Scalar ''s4''] \<and>
    spec_ok [Codebook 4096, Scalar ''s4'', Scalar ''s4'']"
proof -
  have p: "parse_quant_spec ''rvq-12-s4-s4'' = Inr [Codebook 4096, Scalar ''s4'', Scalar ''s4'']"
    by code_simp
  show ?thesis using p parse_quant_spec_ok [OF p] by blast
qed

text \<open>\<open>quant_spec_from_sizes\<close> and \<open>parse_quant_spec\<close> are inverses on the specs the parser
  accepts: printing the stages and parsing the text gives the stages back.\<close>

theorem quant_spec_roundtrip:
  assumes "spec_ok stages"
  shows "\<exists>spec. quant_spec_from_sizes stages = Inr spec \<and> parse_quant_spec spec = Inr stages"
  using print_parse [OF assms] by blast

theorem quant_spec_roundtrip_witness:
  "\<exists>spec. quant_spec_from_sizes [Codebook 256, Scalar ''s4''] = Inr spec \<and>
    parse_quant_spec spec = Inr [Codebook 256, Scalar ''s4'']"
proof (rule quant_spec_roundtrip)
  have "parse_quant_spec ''rvq-8-s4'' = Inr [Codebook 256, Scalar ''s4'']" by code_simp
  moreover have "clog2 256 = 8" using clog2_power [of 8] by simp
  moreover have "stage_ok (Codebook 256)" by (auto intro!: bexI [of _ 8] simp: QUANT_SPEC_MAX_PER_STAGE_BITS_def)
  moreover have "stage_ok (Scalar ''s4'')" by code_simp
  moreover have "digits_val ''4'' = 4" by code_simp
  ultimately show "spec_ok [Codebook 256, Scalar ''s4'']"
    by (simp add: spec_ok_def QUANT_SPEC_MAX_TOTAL_BITS_def QUANT_SPEC_MAX_SCALAR_BITS_PER_WEIGHT_def)
qed

text \<open>the index bytes \<open>estimate_payload\<close> announces are the bytes \<open>_pack_indices\<close> writes: for
  every accepted input and every stream of \<open>vector_count\<close> codebook indices, the packed stream has
  exactly \<open>index_bytes\<close> bytes; and the groups cover the parameters with less than one group to spare.\<close>

theorem estimate_payload_exact:
  assumes est: "estimate_payload n g k sb bits = Inr e"
    and "length xs = vector_count e" and "\<forall>x \<in> set xs. x < codebook_size e" and "k \<le> 2 ^ 63"
  shows "\<exists>packed. pack_indices xs (index_bits e) PACK_CHUNK_INDICES = Inr packed \<and>
      length packed = index_bytes e \<and>
      unpack_indices packed (index_bits e) (vector_count e) PACK_CHUNK_INDICES = Inr (map int xs) \<and>
      params e \<le> group_size e * vector_count e \<and>
      group_size e * (vector_count e - 1) < params e"
proof -
  have k: "1 < k" and n: "0 < n" and g: "0 < g" using est by (auto simp: estimate_payload_def split: if_splits)
  have e: "index_bits e = clog2 (nat k)" "codebook_size e = nat k" "vector_count e = ceil_div (nat n) (nat g)"
    "index_bytes e = ceil_div (vector_count e * index_bits e) 8" "params e = nat n" "group_size e = nat g"
    using est by (auto simp: estimate_payload_def Let_def split: if_splits)
  have "nat k \<le> 2 ^ 63" using assms(4) by (simp add: nat_le_iff)
  then have b: "index_bits e \<le> 63" by (simp add: e clog2_le_iff)
  have "\<forall>x \<in> set xs. x < 2 ^ index_bits e"
    using assms(3) clog2_upper [of "nat k"] unfolding e by (auto intro: less_le_trans)
  then obtain packed where "pack_indices xs (index_bits e) PACK_CHUNK_INDICES = Inr packed"
    "length packed = (length xs * index_bits e + 7) div 8"
    "unpack_indices packed (index_bits e) (length xs) PACK_CHUNK_INDICES = Inr (map int xs)"
    using unpack_pack_indices [of PACK_CHUNK_INDICES xs "index_bits e"] b by (auto simp: PACK_CHUNK_INDICES_def)
  moreover have "nat n \<le> nat g * ceil_div (nat n) (nat g)" using g by (intro ceil_div_mult_ge) simp
  moreover have "nat g * (ceil_div (nat n) (nat g) - 1) < nat n" using g n by (intro ceil_div_mult_less) simp_all
  moreover have "ceil_div m 8 = (m + 7) div 8" for m by (simp add: ceil_div_def)
  ultimately show ?thesis using assms(2) e by simp
qed

theorem estimate_payload_exact_witness:
  "\<exists>e packed. estimate_payload 20 8 5 64 0 = Inr e \<and>
    pack_indices [4, 0, 3] (index_bits e) PACK_CHUNK_INDICES = Inr packed \<and> length packed = index_bytes e"
proof -
  obtain e where e: "estimate_payload 20 8 5 64 0 = Inr e"
    by (simp add: estimate_payload_def Let_def)
  then have "vector_count e = 3" "codebook_size e = 5"
    by (auto simp: estimate_payload_def Let_def ceil_div_def)
  then show ?thesis using e estimate_payload_exact [OF e, of "[4, 0, 3]"] by auto
qed

end
