(* ===== verification/Names.thy ===== *)
theory Names
  imports Prelude "HOL-Library.Multiset"
begin

text \<open>
  Tensor names. \<open>orka/core/_util.py\<close> (safe file names), \<open>orka/core/_constants.py\<close> and
  \<open>_checkpoint.py\<close> (quantization candidates), \<open>orka/quant/family.py\<close> (families),
  \<open>orka/quant/arch.py\<close> (output heads and recurrent blocks, the \<open>ArchProfile\<close>),
  \<open>orka/autoquant/roles.py\<close> (roles) and \<open>orka/pipeline/sequential.py\<close> (block order).

  A checkpoint's name-to-shape dictionary is an association list in insertion order without
  duplicate keys; confidences are rationals.
\<close>

type_synonym shape = "nat list"
type_synonym shapes = "(string \<times> shape) list"

section \<open>File names\<close>

definition safe_char :: "char \<Rightarrow> bool" where
  "safe_char c =
     (let n = of_char c :: nat
      in (65 \<le> n \<and> n \<le> 90) \<or> (97 \<le> n \<and> n \<le> 122) \<or> is_digit c \<or> c = CHR ''_'' \<or> c = CHR ''.'' \<or> c = CHR ''-'')"

text \<open>\<open>re.sub(r"[^A-Za-z0-9_.-]+", "_", name)\<close>: every maximal run of other characters is one \<open>_\<close>.\<close>

fun sub_runs :: "bool \<Rightarrow> string \<Rightarrow> string" where
  "sub_runs in_run [] = []"
| "sub_runs in_run (c # cs) =
     (if safe_char c then c # sub_runs False cs
      else if in_run then sub_runs True cs else CHR ''_'' # sub_runs True cs)"

definition strip_chars :: "string \<Rightarrow> string \<Rightarrow> string" where
  "strip_chars cs s = rev (dropWhile (\<lambda>c. c \<in> set cs) (rev (dropWhile (\<lambda>c. c \<in> set cs) s)))"

definition safe_tensor_name :: "string \<Rightarrow> string" where
  "safe_tensor_name nm =
     (let s = strip_chars ''._'' (sub_runs False nm) in if s = [] then ''tensor'' else s)"

section \<open>Quantization candidates\<close>

definition NON_CANDIDATE_MARKERS :: "string list" where
  "NON_CANDIDATE_MARKERS = [''.bias'', ''.norm'', ''.layernorm'', ''rotary_emb'', ''attention.bias'']"

definition is_quant_candidate :: "string \<Rightarrow> shape \<Rightarrow> bool" where
  "is_quant_candidate nm shp \<longleftrightarrow> length shp \<ge> 2 \<and> \<not> any_in NON_CANDIDATE_MARKERS (py_lower nm)"

text \<open>\<open>inspect_checkpoint\<close>: one entry per non-empty tensor, and the total parameter count.\<close>

record tensor_info =
  ti_name :: string
  ti_shape :: shape
  ti_numel :: nat
  ti_candidate :: bool

definition inspect_step ::
  "tensor_info list \<times> nat \<Rightarrow> string \<times> shape \<times> nat \<Rightarrow> tensor_info list \<times> nat" where
  "inspect_step st t =
     (case t of (nm, shp, numel) \<Rightarrow> case st of (tensors, total_params) \<Rightarrow>
        if numel = 0 then (tensors, total_params)
        else (tensors @ [\<lparr>ti_name = nm, ti_shape = shp, ti_numel = numel,
                          ti_candidate = is_quant_candidate nm shp\<rparr>], total_params + numel))"

definition inspect_checkpoint :: "(string \<times> shape \<times> nat) list \<Rightarrow> tensor_info list \<times> nat" where
  "inspect_checkpoint tensors = foldl inspect_step ([], 0) tensors"

section \<open>Families\<close>

definition EMBED_MARKERS :: "string list" where
  "EMBED_MARKERS = [''embed'', ''embedding'', ''wte'', ''wpe'', ''lm_head'', ''embed_out'']"

definition FFN_MARKERS :: "string list" where
  "FFN_MARKERS = [''gate_proj'', ''up_proj'', ''down_proj'', ''c_fc'', ''fc1'', ''fc2'', ''fc_in'', ''fc_out'',
     ''.wi'', ''.wo'', ''.w1'', ''.w2'', ''.w3'']"

definition MLP_MARKERS :: "string list" where
  "MLP_MARKERS = [''.mlp.'', ''mlp'', ''gate_proj'', ''up_proj'', ''down_proj'', ''c_fc'',
     ''fc1'', ''fc2'', ''fc_in'', ''fc_out'', ''.wi'', ''.wo'', ''.w1'', ''.w2'', ''.w3'']"

definition ATTN_MARKERS :: "string list" where
  "ATTN_MARKERS = [''attn'', ''attention'', ''q_proj'', ''k_proj'', ''v_proj'', ''o_proj'', ''qkv'',
     ''query_key_value'', ''c_attn'', ''c_proj'', ''out_proj'']"

definition classify_tensor_family :: "string \<Rightarrow> string" where
  "classify_tensor_family nm =
     (let lowered = py_lower nm
      in if any_in EMBED_MARKERS lowered
            \<or> lowered = ''output.weight''
            \<or> (ends_with lowered ''.output.weight'' \<and> \<not> any_in [''attn'', ''attention'', ''mlp'', ''layer''] lowered)
         then ''embedding''
         else if any_in [''shared_expert'', ''sharedexpert''] lowered then ''shared_expert''
         else if any_in [''.experts.'', ''experts/''] lowered then ''expert''
         else if any_in FFN_MARKERS lowered then ''mlp''
         else if any_in [''.gate'', ''.router'', ''.gating''] lowered then ''router''
         else if any_in MLP_MARKERS lowered then ''mlp''
         else if any_in ATTN_MARKERS lowered then ''attention''
         else ''other'')"

definition FAMILIES :: "string list" where
  "FAMILIES = [''embedding'', ''shared_expert'', ''expert'', ''mlp'', ''router'', ''attention'', ''other'']"

section \<open>Architecture profile\<close>

definition OUTPUT_HEAD_MARKERS :: "string list" where
  "OUTPUT_HEAD_MARKERS = [''lm_head'', ''embed_out'', ''output.weight'']"

definition RECURRENT_MARKERS :: "string list" where
  "RECURRENT_MARKERS = [''mamba'', ''mixer'', ''ssm'', ''state_space'', ''state-space'']"

definition RECURRENCE_STATE_PARAMS :: "string list" where
  "RECURRENCE_STATE_PARAMS =
     [''a_log'', ''dt_bias'', ''dt_proj'', ''time_decay'', ''time_mix'', ''time_maa'', ''time_faaaa'']"

definition base :: "string \<Rightarrow> string" where
  "base nm = (if ends_with nm ''.weight'' then take (length nm - 7) nm else nm)"

definition is_output_head :: "string \<Rightarrow> bool" where
  "is_output_head nm = any_in OUTPUT_HEAD_MARKERS (py_lower nm)"

definition is_recurrent_block :: "string \<Rightarrow> bool" where
  "is_recurrent_block nm = any_in RECURRENT_MARKERS (py_lower nm)"

text \<open>\<open>n.rsplit(".", 1)\<close>: the parts before and after the last dot; without a dot both are the name.\<close>

definition rsplit_last :: "string \<Rightarrow> string" where
  "rsplit_last nm = last (py_split (CHR ''.'') nm)"

definition rsplit_first :: "string \<Rightarrow> string" where
  "rsplit_first nm =
     (if CHR ''.'' \<in> set nm then py_join (CHR ''.'') (butlast (py_split (CHR ''.'') nm)) else nm)"

definition recurrent_block_names :: "string list \<Rightarrow> string list" where
  "recurrent_block_names names =
     (let blocks = map rsplit_first (filter (\<lambda>n. py_lower (rsplit_last n) \<in> set RECURRENCE_STATE_PARAMS) names)
      in if blocks = [] then []
         else filter (\<lambda>n. list_ex (\<lambda>b. starts_with n (b @ ''.'')) blocks) names)"

text \<open>A vocab size of \<open>None\<close> or 0 is falsy.\<close>

definition output_head_names :: "shapes \<Rightarrow> nat option \<Rightarrow> string list" where
  "output_head_names tensor_shapes vocab_size =
     (let twod = filter (\<lambda>(n, s). length s = 2) tensor_shapes
      in if twod = [] then []
         else
           (let vocab = (case vocab_size of Some v \<Rightarrow> (if v = 0 then Max (set (map (\<lambda>(n, s). hd s) twod)) else v)
                         | None \<Rightarrow> Max (set (map (\<lambda>(n, s). hd s) twod)))
            in map fst (filter (\<lambda>(n, s). hd s = vocab) twod)))"

record arch_profile =
  vocab_size :: "nat option"
  head_names :: "string list"
  recurrent_names :: "string list"

definition from_shapes :: "shapes \<Rightarrow> nat option \<Rightarrow> arch_profile" where
  "from_shapes tensor_shapes vocab =
     (let twod = filter (\<lambda>s. length s = 2) (map snd tensor_shapes);
          largest = fold max (map hd twod) 0;
          resolved = (case vocab of Some v \<Rightarrow> (if v = 0 then (if largest = 0 then None else Some largest) else Some v)
                      | None \<Rightarrow> (if largest = 0 then None else Some largest))
      in \<lparr>vocab_size = resolved,
          head_names = map base (output_head_names tensor_shapes resolved),
          recurrent_names = map base (recurrent_block_names (map fst tensor_shapes))\<rparr>)"

definition profile_is_output_head :: "arch_profile \<Rightarrow> string \<Rightarrow> shape option \<Rightarrow> bool" where
  "profile_is_output_head pr nm shp =
     (base nm \<in> set (head_names pr) \<or>
      (case shp of None \<Rightarrow> False
       | Some s \<Rightarrow> length s = 2 \<and> (case vocab_size pr of None \<Rightarrow> False | Some v \<Rightarrow> v \<noteq> 0 \<and> hd s = v)) \<or>
      is_output_head nm)"

definition profile_is_recurrent :: "arch_profile \<Rightarrow> string \<Rightarrow> bool" where
  "profile_is_recurrent pr nm = (base nm \<in> set (recurrent_names pr) \<or> is_recurrent_block nm)"

datatype skip_reason = OutputHead | RecurrentBlock

definition error_comp_skip_reason :: "arch_profile \<Rightarrow> string \<Rightarrow> skip_reason option" where
  "error_comp_skip_reason pr nm =
     (if profile_is_output_head pr nm None then Some OutputHead
      else if profile_is_recurrent pr nm then Some RecurrentBlock
      else None)"

section \<open>Roles\<close>

definition OUT_HEAD :: "string list" where
  "OUT_HEAD = [''lm_head'', ''embed_out'', ''output.weight'']"

definition IN_EMBED :: "string list" where
  "IN_EMBED = [''embed_in'', ''wte'', ''embed_tokens'', ''word_embeddings'', ''embedding'']"

definition conv_role :: "string \<Rightarrow> shape \<Rightarrow> (string \<times> rat) option" where
  "conv_role n shp =
     (if length shp = 3 \<and> shp ! 1 = 1 then Some (''conv.depthwise'', 9 / 10)
      else if length shp \<noteq> 2 then None
      else if \<not> any_in [''conv'', ''mixer'', ''ssm'', ''short_conv''] n then None
      else if contains ''in_proj'' n \<or> contains ''up_proj'' n \<or> contains ''x_proj'' n then Some (''conv.in'', 85 / 100)
      else if contains ''out_proj'' n \<or> contains ''down_proj'' n then Some (''conv.out'', 85 / 100)
      else Some (''conv.in'', 5 / 10))"

definition classify_role :: "string \<Rightarrow> shape \<Rightarrow> bool \<Rightarrow> arch_profile option \<Rightarrow> string \<times> rat" where
  "classify_role nm shp tied profile =
     (let n = py_lower nm; fam = classify_tensor_family nm;
          conv = (if fam = ''other'' \<or> fam = ''attention'' then conv_role n shp else None);
          structural = (case profile of None \<Rightarrow> False | Some pr \<Rightarrow> profile_is_output_head pr nm (Some shp))
      in if ends_with n ''.bias'' \<or> ends_with n ''_bias'' then (''bias'', 1)
         else if contains ''norm'' n \<or> contains ''ln_'' n \<or> ends_with n ''.ln.weight'' then (''norm'', 1)
         else if conv \<noteq> None then the conv
         else if fam = ''embedding'' then
           (if any_in OUT_HEAD n then (''out-head'', 1)
            else if any_in IN_EMBED n then (''in-embed'', 1)
            else if structural then (if tied then (''in-embed'', 8 / 10) else (''out-head'', 9 / 10))
            else (''unknown'', 3 / 10))
         else if fam = ''attention'' then
           (if any_in [''q_proj'', ''query''] n then (''attn.q'', 9 / 10)
            else if any_in [''k_proj'', ''key''] n then (''attn.k'', 9 / 10)
            else if any_in [''v_proj'', ''value''] n then (''attn.v'', 9 / 10)
            else if any_in [''o_proj'', ''out_proj'', ''c_proj'', ''.dense''] n then (''attn.o'', 9 / 10)
            else (''attn.o'', 5 / 10))
         else if fam = ''mlp'' then
           (if any_in [''down'', ''fc2'', ''fc_out'', ''.wo'', ''.w2''] n then (''mlp.down'', 9 / 10)
            else if any_in [''gate'', ''.w1''] n then (''mlp.gate'', 9 / 10)
            else if any_in [''up'', ''fc1'', ''fc_in'', ''.wi'', ''c_fc'', ''.w3''] n then (''mlp.up'', 9 / 10)
            else (''mlp.up'', 5 / 10))
         else if structural \<and> fam \<noteq> ''attention'' \<and> fam \<noteq> ''mlp'' then (''out-head'', 85 / 100)
         else (''unknown'', 3 / 10))"

definition ROLES :: "string list" where
  "ROLES = [''bias'', ''norm'', ''conv.depthwise'', ''conv.in'', ''conv.out'', ''out-head'', ''in-embed'',
     ''attn.q'', ''attn.k'', ''attn.v'', ''attn.o'', ''mlp.down'', ''mlp.gate'', ''mlp.up'', ''unknown'']"

section \<open>Block order\<close>

definition FINAL_BLOCK :: int where "FINAL_BLOCK = 2 ^ 30"

text \<open>The first match of \<open>\.(\d+)\.\<close>: a non-empty run of digits between two dots.\<close>

fun digit_run :: "string \<Rightarrow> string \<Rightarrow> string option" where
  "digit_run acc [] = None"
| "digit_run acc (c # cs) =
     (if is_digit c then digit_run (acc @ [c]) cs
      else if c = CHR ''.'' \<and> acc \<noteq> [] then Some acc else None)"

fun layer_match :: "string \<Rightarrow> string option" where
  "layer_match [] = None"
| "layer_match (c # cs) =
     (if c = CHR ''.'' then (case digit_run [] cs of Some d \<Rightarrow> Some d | None \<Rightarrow> layer_match cs)
      else layer_match cs)"

definition block_key :: "string \<Rightarrow> int" where
  "block_key nm =
     (let lowered = py_lower nm
      in if contains ''lm_head'' lowered \<or> contains ''embed_out'' lowered then FINAL_BLOCK
         else (case layer_match nm of Some d \<Rightarrow> int (digits_val d) | None \<Rightarrow> -1))"

text \<open>\<open>blocks.setdefault(key, []).append(name)\<close>, then the values in the order of the sorted keys.\<close>

definition group_tensors_by_block :: "string list \<Rightarrow> string list list" where
  "group_tensors_by_block names =
     map (\<lambda>k. filter (\<lambda>n. block_key n = k) names) (sorted_list_of_set (set (map block_key names)))"

section \<open>Lemmas\<close>

lemma set_dropWhile_rev: "c \<in> set (strip_chars cs s) \<Longrightarrow> c \<in> set s"
  unfolding strip_chars_def by (auto dest!: set_dropWhileD)

lemma sub_runs_safe: "c \<in> set (sub_runs b s) \<Longrightarrow> safe_char c"
  by (induction b s rule: sub_runs.induct) (auto simp: safe_char_def split: if_splits)

lemma sub_runs_id: "\<forall>c \<in> set s. safe_char c \<Longrightarrow> sub_runs b s = s"
  by (induction s arbitrary: b) auto

lemma strip_ends:
  assumes "strip_chars cs s \<noteq> []"
  shows "hd (strip_chars cs s) \<notin> set cs" and "last (strip_chars cs s) \<notin> set cs"
proof -
  let ?l = "dropWhile (\<lambda>c. c \<in> set cs) s"
  let ?r = "dropWhile (\<lambda>c. c \<in> set cs) (rev ?l)"
  have r: "?r \<noteq> []" using assms by (simp add: strip_chars_def)
  then show "last (strip_chars cs s) \<notin> set cs"
    using hd_dropWhile [of "\<lambda>c. c \<in> set cs" "rev ?l"] by (simp add: strip_chars_def last_rev)
  obtain t where t: "rev ?l = t @ ?r" by (metis takeWhile_dropWhile_id)
  then have l: "?l = rev ?r @ rev t" by (metis rev_append rev_rev_ident)
  then have "?l \<noteq> []" using r by (metis append_is_Nil_conv rev_is_Nil_conv)
  then have "hd ?l \<notin> set cs" by (rule hd_dropWhile)
  moreover have "hd ?l = hd (rev ?r)" using l r by (metis hd_append2 rev_is_Nil_conv)
  ultimately show "hd (strip_chars cs s) \<notin> set cs" by (simp add: strip_chars_def)
qed

lemma strip_id:
  assumes "s \<noteq> []" and "hd s \<notin> set cs" and "last s \<notin> set cs"
  shows "strip_chars cs s = s"
proof -
  have "dropWhile (\<lambda>c. c \<in> set cs) s = s" using assms by (cases s) auto
  moreover have "dropWhile (\<lambda>c. c \<in> set cs) (rev s) = rev s"
    using assms by (cases "rev s") (auto simp: last_rev [symmetric] rev_swap)
  ultimately show ?thesis by (simp add: strip_chars_def)
qed

lemma family_cases: "classify_tensor_family nm \<in> set FAMILIES"
  by (simp add: classify_tensor_family_def FAMILIES_def Let_def)

lemma any_inI: "m \<in> set ms \<Longrightarrow> contains m s \<Longrightarrow> any_in ms s"
  by (auto simp: any_in_def list_ex_iff)

lemma base_weight [simp]: "base (p @ ''.weight'') = p"
  by (simp add: base_def suffix_def)

text \<open>The part before the last dot, and the module prefix it makes.\<close>

lemma py_join_snoc: "ps \<noteq> [] \<Longrightarrow> py_join c (ps @ [p]) = py_join c ps @ c # p"
  by (induction c ps rule: py_join.induct) auto

lemma py_join_split [simp]: "py_join c (py_split c s) = s"
proof (induction s)
  case (Cons d s)
  obtain p ps where ps: "py_split c s = p # ps" by (cases "py_split c s") auto
  with Cons show ?case by (cases ps) auto
qed simp

lemma py_split_module:
  assumes "CHR ''.'' \<notin> set leaf"
  shows "py_split (CHR ''.'') (block @ CHR ''.'' # leaf) = py_split (CHR ''.'') block @ [leaf]"
proof -
  have "py_split c (u @ c # v) = py_split c u @ py_split c v" for c and u v :: string
  proof (induction u)
    case (Cons d u)
    obtain p ps where "py_split c u = p # ps" by (cases "py_split c u") auto
    with Cons show ?case by simp
  qed simp
  with assms show ?thesis by (simp add: py_split_single)
qed

lemma rsplit_module:
  assumes "CHR ''.'' \<notin> set leaf"
  shows "rsplit_last (block @ CHR ''.'' # leaf) = leaf" and "rsplit_first (block @ CHR ''.'' # leaf) = block"
  using py_split_module [OF assms, of block] by (simp_all add: rsplit_last_def rsplit_first_def)

lemma recurrent_siblings:
  assumes "block @ ''.'' @ state \<in> set names" and "CHR ''.'' \<notin> set state"
    and "py_lower state \<in> set RECURRENCE_STATE_PARAMS" and "block @ ''.'' @ rest \<in> set names"
  shows "block @ ''.'' @ rest \<in> set (recurrent_block_names names)"
proof -
  let ?sel = "filter (\<lambda>n. py_lower (rsplit_last n) \<in> set RECURRENCE_STATE_PARAMS) names"
  have "block @ ''.'' @ state \<in> set ?sel"
    using assms(1-3) rsplit_module(1) [of state block] by simp
  moreover have "rsplit_first (block @ ''.'' @ state) = block"
    using rsplit_module(2) [OF assms(2), of block] by simp
  ultimately have b: "block \<in> set (map rsplit_first ?sel)" by (metis image_eqI set_map)
  moreover have "prefix (block @ ''.'') (block @ ''.'' @ rest)" by (simp add: prefix_def)
  moreover have "map rsplit_first ?sel \<noteq> []" using b by (metis empty_iff empty_set)
  ultimately show ?thesis
    using assms(4) b unfolding recurrent_block_names_def Let_def by (simp only: if_False set_filter list_ex_iff) blast
qed

lemma digits_val_nonneg_key: "-1 \<le> block_key nm"
  by (simp add: block_key_def FINAL_BLOCK_def Let_def split: option.split)

section \<open>Properties\<close>

text \<open>\<open>_safe_tensor_name\<close> always yields a usable file name: not empty, only letters, digits,
  \<open>_\<close>, \<open>.\<close> and \<open>-\<close>, neither starting nor ending with a dot or an underscore; and it leaves a name
  that is already of that form unchanged, so two such tensors never share a file.\<close>

theorem safe_tensor_name_ok:
  "safe_tensor_name nm \<noteq> [] \<and> (\<forall>c \<in> set (safe_tensor_name nm). safe_char c) \<and>
   hd (safe_tensor_name nm) \<notin> {CHR ''.'', CHR ''_''} \<and> last (safe_tensor_name nm) \<notin> {CHR ''.'', CHR ''_''} \<and>
   (nm \<noteq> [] \<and> (\<forall>c \<in> set nm. safe_char c) \<and> hd nm \<notin> {CHR ''.'', CHR ''_''} \<and>
     last nm \<notin> {CHR ''.'', CHR ''_''} \<longrightarrow> safe_tensor_name nm = nm)"
proof -
  let ?s = "strip_chars ''._'' (sub_runs False nm)"
  have safe: "\<forall>c \<in> set ?s. safe_char c" using set_dropWhile_rev sub_runs_safe by blast
  have tensor: "\<forall>c \<in> set ''tensor''. safe_char c" by code_simp
  have "safe_tensor_name nm \<noteq> []" by (simp add: safe_tensor_name_def Let_def)
  moreover have "\<forall>c \<in> set (safe_tensor_name nm). safe_char c"
    using safe tensor by (auto simp: safe_tensor_name_def Let_def)
  moreover have "hd (safe_tensor_name nm) \<notin> {CHR ''.'', CHR ''_''}"
    using strip_ends(1) [of "''._''" "sub_runs False nm"] by (simp add: safe_tensor_name_def Let_def)
  moreover have "last (safe_tensor_name nm) \<notin> {CHR ''.'', CHR ''_''}"
    using strip_ends(2) [of "''._''" "sub_runs False nm"] by (simp add: safe_tensor_name_def Let_def)
  moreover have "safe_tensor_name nm = nm"
    if "nm \<noteq> []" "\<forall>c \<in> set nm. safe_char c" "hd nm \<notin> {CHR ''.'', CHR ''_''}" "last nm \<notin> {CHR ''.'', CHR ''_''}"
    using that strip_id [of nm "''._''"] by (simp add: safe_tensor_name_def sub_runs_id Let_def)
  ultimately show ?thesis by blast
qed

theorem safe_tensor_name_ok_witness:
  "safe_tensor_name ''/blk 0//w.'' = ''blk_0_w'' \<and> safe_tensor_name ''blk_0_w'' = ''blk_0_w''"
proof -
  have "safe_tensor_name ''/blk 0//w.'' = ''blk_0_w''" by code_simp
  moreover have "\<forall>c \<in> set ''blk_0_w''. safe_char c" by code_simp
  moreover have "''blk_0_w'' \<noteq> []" "hd ''blk_0_w'' \<notin> {CHR ''.'', CHR ''_''}" "last ''blk_0_w'' \<notin> {CHR ''.'', CHR ''_''}"
    by simp_all
  ultimately show ?thesis using safe_tensor_name_ok [of "''blk_0_w''"] by blast
qed

definition role_answer_ok :: "string \<times> rat \<Rightarrow> bool" where
  "role_answer_ok r \<longleftrightarrow>
     fst r \<in> set ROLES \<and> 3 / 10 \<le> snd r \<and> snd r \<le> 1 \<and> (fst r = ''unknown'' \<longleftrightarrow> snd r < 1 / 2)"

lemma role_answers [simp]:
  "role_answer_ok (''bias'', 1)" "role_answer_ok (''norm'', 1)" "role_answer_ok (''out-head'', 1)"
  "role_answer_ok (''in-embed'', 1)" "role_answer_ok (''in-embed'', 8 / 10)"
  "role_answer_ok (''out-head'', 9 / 10)" "role_answer_ok (''out-head'', 85 / 100)"
  "role_answer_ok (''unknown'', 3 / 10)" "role_answer_ok (''attn.q'', 9 / 10)"
  "role_answer_ok (''attn.k'', 9 / 10)" "role_answer_ok (''attn.v'', 9 / 10)"
  "role_answer_ok (''attn.o'', 9 / 10)" "role_answer_ok (''attn.o'', 5 / 10)"
  "role_answer_ok (''mlp.down'', 9 / 10)" "role_answer_ok (''mlp.gate'', 9 / 10)"
  "role_answer_ok (''mlp.up'', 9 / 10)" "role_answer_ok (''mlp.up'', 5 / 10)"
  "role_answer_ok (''conv.depthwise'', 9 / 10)" "role_answer_ok (''conv.in'', 85 / 100)"
  "role_answer_ok (''conv.out'', 85 / 100)" "role_answer_ok (''conv.in'', 5 / 10)"
  unfolding role_answer_ok_def ROLES_def by (simp_all only: fst_conv snd_conv) simp_all

definition optional_answer_ok :: "(string \<times> rat) option \<Rightarrow> bool" where
  "optional_answer_ok r = (case r of None \<Rightarrow> True | Some a \<Rightarrow> role_answer_ok a)"

lemma optional_answers: "optional_answer_ok None" "role_answer_ok a \<Longrightarrow> optional_answer_ok (Some a)"
  by (simp_all add: optional_answer_ok_def)

lemma answer_if:
  "(c \<Longrightarrow> role_answer_ok a) \<Longrightarrow> (\<not> c \<Longrightarrow> role_answer_ok b) \<Longrightarrow> role_answer_ok (if c then a else b)"
  "(c \<Longrightarrow> optional_answer_ok x) \<Longrightarrow> (\<not> c \<Longrightarrow> optional_answer_ok y) \<Longrightarrow> optional_answer_ok (if c then x else y)"
  by simp_all

lemma conv_role_ok: "optional_answer_ok (conv_role n shp)"
  unfolding conv_role_def by (intro answer_if optional_answers role_answers)

lemma conv_role_the:
  "(if c then conv_role n shp else None) \<noteq> None \<Longrightarrow> role_answer_ok (the (if c then conv_role n shp else None))"
  using conv_role_ok [of n shp] by (auto simp: optional_answer_ok_def split: option.splits if_splits)

lemma classify_role_ok: "role_answer_ok (classify_role nm shp tied profile)"
  unfolding classify_role_def Let_def
  by (intro answer_if role_answers; (erule conv_role_the)?)

text \<open>\<open>classify_role\<close> answers with one of its fifteen roles for every name, shape and profile,
  with a confidence between 0.3 and 1; a confidence below one half is given exactly to \<open>unknown\<close>.\<close>

theorem classify_role_total:
  "case classify_role nm shp tied profile of (role, conf) \<Rightarrow>
     role \<in> set ROLES \<and> 3 / 10 \<le> conf \<and> conf \<le> 1 \<and> (role = ''unknown'' \<longleftrightarrow> conf < 1 / 2)"
  using classify_role_ok [of nm shp tied profile]
  by (simp only: role_answer_ok_def case_prod_beta)

text \<open>structural recurrent detection keys on siblings, not on block names: when a module owns a
  recurrence state parameter, every tensor of that module is skipped by error compensation (unless
  it is an output head, which is skipped as such), whatever the module is called.\<close>

theorem recurrent_siblings_skipped:
  assumes "block @ ''.'' @ state \<in> set (map fst shps)" and "CHR ''.'' \<notin> set state"
    and "py_lower state \<in> set RECURRENCE_STATE_PARAMS" and "block @ ''.'' @ rest \<in> set (map fst shps)"
  shows "error_comp_skip_reason (from_shapes shps vocab) (block @ ''.'' @ rest) \<in>
    {Some OutputHead, Some RecurrentBlock}"
proof -
  have "base (block @ ''.'' @ rest) \<in> set (recurrent_names (from_shapes shps vocab))"
    using recurrent_siblings [OF assms] by (simp add: from_shapes_def Let_def)
  then show ?thesis by (simp add: error_comp_skip_reason_def profile_is_recurrent_def)
qed

theorem recurrent_siblings_skipped_witness:
  "error_comp_skip_reason (from_shapes [(''b.7.A_log'', [16]), (''b.7.in_proj.weight'', [64, 8])] None)
     ''b.7.in_proj.weight'' \<in> {Some OutputHead, Some RecurrentBlock}"
proof -
  have "py_lower ''A_log'' \<in> set RECURRENCE_STATE_PARAMS" by code_simp
  then show ?thesis
    using recurrent_siblings_skipped [of "''b.7''" "''A_log''"
        "[(''b.7.A_log'', [16]), (''b.7.in_proj.weight'', [64, 8])]" "''in_proj.weight''" None]
    by simp
qed

text \<open>every 2-D tensor of a checkpoint whose output dimension is the profile's vocabulary size
  is an output head for the profile, under its state-dict name and under its module path alike, so
  block error compensation is skipped for it; and with no configured vocabulary the profile takes
  the largest output dimension.\<close>

theorem vocab_width_is_output_head:
  assumes "(nm, [v, d]) \<in> set shps" and "vocab_size (from_shapes shps vocab) = Some v"
  shows "profile_is_output_head (from_shapes shps vocab) nm None \<and>
    profile_is_output_head (from_shapes shps vocab) (base nm) (Some [v, d]) \<and>
    error_comp_skip_reason (from_shapes shps vocab) nm = Some OutputHead \<and>
    (vocab = None \<longrightarrow> (\<forall>(n, s) \<in> set shps. length s = 2 \<longrightarrow> hd s \<le> v))"
proof -
  let ?p = "from_shapes shps vocab"
  have le: "x \<le> fold max xs a" if "x \<in> set xs \<or> x \<le> a" for x a and xs :: "nat list"
    using that
  proof (induction xs arbitrary: a)
    case (Cons y ys)
    then have "x \<in> set ys \<or> x \<le> max y a" by (auto simp: le_max_iff_disj)
    then have "x \<le> fold max ys (max y a)" by (rule Cons.IH)
    then show ?case by simp
  qed simp
  have v: "v \<noteq> 0" using assms(2) by (auto simp: from_shapes_def Let_def split: option.splits if_splits)
  have two: "(nm, [v, d]) \<in> set (filter (\<lambda>(n, s). length s = 2) shps)" using assms(1) by simp
  then have "filter (\<lambda>(n, s). length s = 2) shps \<noteq> []" by (metis empty_iff empty_set)
  moreover have "nm \<in> set (map fst (filter (\<lambda>(n, s). hd s = v) (filter (\<lambda>(n, s). length s = 2) shps)))"
    using two by force
  ultimately have "nm \<in> set (output_head_names shps (Some v))"
    using v by (simp only: output_head_names_def Let_def option.case if_False)
  then have base: "base nm \<in> set (head_names ?p)"
    using assms(2) by (auto simp: from_shapes_def Let_def)
  then have "profile_is_output_head ?p nm None" by (simp add: profile_is_output_head_def)
  moreover have "profile_is_output_head ?p (base nm) (Some [v, d])"
    using assms(2) v by (simp add: profile_is_output_head_def)
  moreover have "hd s \<le> v" if "vocab = None" "(n, s) \<in> set shps" "length s = 2" for n s
  proof -
    have "hd s \<in> set (map hd (filter (\<lambda>s. length s = 2) (map snd shps)))"
      using that by (force simp: image_iff)
    then have "hd s \<le> fold max (map hd (filter (\<lambda>s. length s = 2) (map snd shps))) 0"
      by (intro le disjI1)
    then show ?thesis
      using that(1) assms(2) by (auto simp: from_shapes_def Let_def split: if_splits)
  qed
  ultimately show ?thesis by (auto simp: error_comp_skip_reason_def)
qed

theorem vocab_width_is_output_head_witness:
  "profile_is_output_head (from_shapes [(''tok.weight'', [900, 8]), (''a.q.weight'', [8, 8])] None) ''tok.weight'' None"
proof -
  have "vocab_size (from_shapes [(''tok.weight'', [900, 8]), (''a.q.weight'', [8, 8])] None) = Some 900"
    by (simp add: from_shapes_def Let_def)
  then show ?thesis using vocab_width_is_output_head [of "''tok.weight''" 900 8] by fastforce
qed

text \<open>sequential packing visits every tensor exactly once, block by block in strictly increasing
  block order, each block holding exactly the tensors of its key in checkpoint order; the output
  projections form the last block and unindexed tensors the first.\<close>

theorem group_tensors_by_block_partition:
  fixes names
  defines "blocks \<equiv> group_tensors_by_block names"
  shows "mset (concat blocks) = mset names \<and>
    (\<forall>b \<in> set blocks. b \<noteq> [] \<and> (\<exists>k. b = filter (\<lambda>n. block_key n = k) names)) \<and>
    sorted_wrt (\<lambda>a b. \<forall>x \<in> set a. \<forall>y \<in> set b. block_key x < block_key y) blocks \<and>
    (\<forall>n \<in> set names. -1 \<le> block_key n)"
proof -
  let ?keys = "sorted_list_of_set (set (map block_key names))"
  have keys: "set ?keys = block_key ` set names" "distinct ?keys" "sorted ?keys" by simp_all
  have mset: "mset (concat (map (\<lambda>k. filter (\<lambda>n. block_key n = k) ns) ks)) =
      mset (filter (\<lambda>n. block_key n \<in> set ks) ns)" if "distinct ks" for ks ns
    using that
  proof (induction ks)
    case (Cons k ks)
    have "mset (filter (\<lambda>n. block_key n \<in> set (k # ks)) ns) =
        mset (filter (\<lambda>n. block_key n = k) ns) + mset (filter (\<lambda>n. block_key n \<in> set ks) ns)"
      using Cons.prems by (induction ns) auto
    with Cons show ?case by simp
  qed simp
  have "filter (\<lambda>n. block_key n \<in> set ?keys) names = names"
    unfolding keys(1) by (simp add: filter_id_conv)
  then have 1: "mset (concat blocks) = mset names"
    using mset [OF keys(2), of names] by (simp add: blocks_def group_tensors_by_block_def)
  have 2: "\<forall>b \<in> set blocks. b \<noteq> [] \<and> (\<exists>k. b = filter (\<lambda>n. block_key n = k) names)"
    by (auto simp: blocks_def group_tensors_by_block_def filter_empty_conv)
  have "sorted_wrt (<) ?keys" using keys by (simp add: strict_sorted_iff)
  then have 3: "sorted_wrt (\<lambda>a b. \<forall>x \<in> set a. \<forall>y \<in> set b. block_key x < block_key y) blocks"
    unfolding blocks_def group_tensors_by_block_def sorted_wrt_map
    by (rule sorted_wrt_mono_rel [rotated]) auto
  from 1 2 3 digits_val_nonneg_key show ?thesis by blast
qed

theorem group_tensors_by_block_partition_witness:
  "mset (concat (group_tensors_by_block [''lm_head.weight'', ''h.1.w.x'', ''wte.weight''])) =
    mset [''lm_head.weight'', ''h.1.w.x'', ''wte.weight''] \<and> -1 \<le> block_key ''wte.weight''"
  using group_tensors_by_block_partition [of "[''lm_head.weight'', ''h.1.w.x'', ''wte.weight'']"] by simp
text \<open>
  Two observations about \<open>roles.py\<close>. A fused \<open>query_key_value\<close> projection is meant to fall to the
  conservative \<open>attn.o\<close> answer, but the name contains \<open>query\<close> and is answered \<open>attn.q\<close> with
  confidence 0.9. And the \<open>up_proj\<close> and \<open>down_proj\<close> cases of \<open>_conv_role\<close> are never reached for
  2-D weights, because such names are already in the family \<open>mlp\<close>, \<open>expert\<close>, \<open>shared_expert\<close> or
  \<open>embedding\<close>.
\<close>

lemma fused_qkv_is_attn_q:
  "classify_role ''h.0.self_attention.query_key_value.weight'' [12, 4] False None = (''attn.q'', 9 / 10)"
  by code_simp

lemma conv_up_down_unreachable:
  assumes "contains ''up_proj'' (py_lower nm) \<or> contains ''down_proj'' (py_lower nm)"
  shows "classify_tensor_family nm \<notin> {''other'', ''attention''}"
proof -
  have "any_in FFN_MARKERS (py_lower nm)"
    using assms by (auto simp: any_in_def FFN_MARKERS_def)
  then show ?thesis by (simp add: classify_tensor_family_def Let_def)
qed

end
