(* ===== verification/Allocate.thy ===== *)
theory Allocate
  imports Quant_Spec Names "HOL-Library.Product_Lexorder"
begin

text \<open>
  \<open>orka/quant/allocate.py\<close>: measured per-tensor bit allocation. The probe that measures a
  tensor's distortion at a spec (k-means on a sample) and the transform search are parameters;
  the candidate menu, the bit accounting, the greedy heap fill, the Lagrangian bisection, the
  choice between them and the resulting allocation map are modelled in full.

  Python's floats are rationals here: costs, distortions and utilities are compared exactly.
  A \<open>heapq\<close> heap is the sorted list of its entries: \<open>heappop\<close> takes the smallest tuple in
  lexicographic order.
\<close>

datatype alloc_error = TooFewRates | NoTensors | SpecError spec_error

section \<open>The candidate menu\<close>

definition DEFAULT_CANDIDATE_SPECS :: "string list" where
  "DEFAULT_CANDIDATE_SPECS = [''vq-4'', ''vq-8'', ''vq-12'', ''rvq-12-8'', ''rvq-16-8'']"

definition PLANAR_CANDIDATE_SPECS :: "string list" where
  "PLANAR_CANDIDATE_SPECS = [''rvq-s8'', ''rvq-s8-s8'', ''rvq-s8-s8-s8'']"

fun stage_vector_bits :: "nat \<Rightarrow> stage \<Rightarrow> nat" where
  "stage_vector_bits g (Scalar t) = digits_val (drop 1 t) * g"
| "stage_vector_bits g (Codebook k) = index_bits_for_size k"

definition spec_bits_per_vector :: "stage list \<Rightarrow> nat \<Rightarrow> nat" where
  "spec_bits_per_vector stages g = foldl (\<lambda>tot k. tot + stage_vector_bits g k) 0 stages"

fun stage_codebook_bytes :: "nat \<Rightarrow> nat \<Rightarrow> stage \<Rightarrow> nat" where
  "stage_codebook_bytes g dtype_bytes (Scalar t) = 0"
| "stage_codebook_bytes g dtype_bytes (Codebook k) = k * g * dtype_bytes"

definition spec_codebook_bytes :: "stage list \<Rightarrow> nat \<Rightarrow> nat \<Rightarrow> nat" where
  "spec_codebook_bytes stages g dtype_bytes = foldl (\<lambda>tot k. tot + stage_codebook_bytes g dtype_bytes k) 0 stages"

text \<open>\<open>tuple(dict.fromkeys(xs))\<close>: the first occurrences, in order.\<close>

definition from_keys :: "'a list \<Rightarrow> 'a list" where
  "from_keys xs = rev (remdups (rev xs))"

type_synonym candidate = "string \<times> stage list \<times> nat"

definition parse_candidate :: "nat \<Rightarrow> string \<Rightarrow> alloc_error + candidate" where
  "parse_candidate g spec =
     (case parse_quant_spec spec of
        Inl e \<Rightarrow> Inl (SpecError e)
      | Inr stages \<Rightarrow> Inr (spec, stages, spec_bits_per_vector stages g))"

definition candidate_menu :: "string list \<Rightarrow> bool \<Rightarrow> nat \<Rightarrow> alloc_error + candidate list" where
  "candidate_menu candidate_specs size_aware g =
     (let names = (if size_aware then from_keys (candidate_specs @ PLANAR_CANDIDATE_SPECS) else candidate_specs)
      in bind_err (mapM (parse_candidate g) names) (\<lambda>specs.
           (let sorted_specs = sort_key (\<lambda>item. snd (snd item)) specs
            in if card (set (map (\<lambda>item. snd (snd item)) sorted_specs)) < 2 then Inl TooFewRates
               else Inr sorted_specs)))"

section \<open>Bit accounting\<close>

record alloc_row =
  row_name :: string
  row_numel :: nat
  distortions :: "rat list"
  transform :: "(string \<times> string) option"

record problem =
  rows :: "alloc_row list"
  specs :: "candidate list"
  group_dim :: nat
  size_aware :: bool
  dtype_bytes :: nat
  budget_bits :: rat

definition cost_bits :: "problem \<Rightarrow> nat \<Rightarrow> nat \<Rightarrow> rat" where
  "cost_bits P t s =
     of_nat (row_numel (rows P ! t)) * of_nat (snd (snd (specs P ! s))) / of_nat (group_dim P)
     + (if size_aware P
        then of_nat (spec_codebook_bytes (fst (snd (specs P ! s))) (group_dim P) (dtype_bytes P)) * 8 else 0)"

definition distortion :: "problem \<Rightarrow> nat \<Rightarrow> nat \<Rightarrow> rat" where
  "distortion P t s = distortions (rows P ! t) ! s"

definition total_bits :: "problem \<Rightarrow> nat list \<Rightarrow> rat" where
  "total_bits P choice = (\<Sum>t\<leftarrow>[0..<length (rows P)]. cost_bits P t (choice ! t))"

definition total_distortion :: "problem \<Rightarrow> nat list \<Rightarrow> rat" where
  "total_distortion P choice = (\<Sum>t\<leftarrow>[0..<length (rows P)]. distortion P t (choice ! t))"

section \<open>Greedy water-filling\<close>

type_synonym upgrade = "rat \<times> nat \<times> nat \<times> rat"

definition step :: "problem \<Rightarrow> nat \<Rightarrow> nat \<Rightarrow> upgrade option" where
  "step P t cur =
     (let nxt = cur + 1
      in if nxt \<ge> length (specs P) then None
         else
           (let extra = cost_bits P t nxt - cost_bits P t cur;
                gain = distortion P t cur - distortion P t nxt
            in if gain \<le> 0 \<or> extra \<le> 0 then None else Some (- (gain / extra), t, nxt, extra)))"

lemma step_some:
  assumes "step P t cur = Some (u, t', nxt, extra)"
  shows "t' = t \<and> nxt = cur + 1 \<and> nxt < length (specs P) \<and>
    extra = cost_bits P t nxt - cost_bits P t cur \<and> 0 < extra \<and>
    0 < distortion P t cur - distortion P t nxt"
  using assms by (auto simp: step_def Let_def not_le split: if_splits)

definition heap_push :: "upgrade \<Rightarrow> upgrade list \<Rightarrow> upgrade list" where
  "heap_push s heap = insort s heap"

definition push_step :: "problem \<Rightarrow> nat \<Rightarrow> nat \<Rightarrow> upgrade list \<Rightarrow> upgrade list" where
  "push_step P t cur heap = (case step P t cur of None \<Rightarrow> heap | Some s \<Rightarrow> heap_push s heap)"

definition heap_weight :: "problem \<Rightarrow> upgrade list \<Rightarrow> nat" where
  "heap_weight P heap = (\<Sum>s\<leftarrow>heap. Suc (length (specs P) - fst (snd (snd s))))"

lemma heap_weight_push: "heap_weight P (heap_push s heap) =
    Suc (length (specs P) - fst (snd (snd s))) + heap_weight P heap"
proof -
  have "mset (insort s heap) = {#s#} + mset heap" by simp
  then show ?thesis
    unfolding heap_weight_def heap_push_def
    by (metis (no_types, lifting) list.simps(9) mset.simps(2) mset_map sum_list.Cons sum_mset_sum_list
        union_mset_add_mset_left add_mset_add_single union_commute)
qed

lemma heap_weight_Cons:
  "heap_weight P ((u, t, nxt, extra) # heap) = Suc (length (specs P) - nxt) + heap_weight P heap"
  by (simp add: heap_weight_def)

lemma heap_weight_step:
  "heap_weight P (push_step P t nxt heap) < Suc (length (specs P) - nxt) + heap_weight P heap"
  by (auto simp: push_step_def heap_weight_push dest!: step_some split: option.split)

function greedy_loop :: "problem \<Rightarrow> nat list \<Rightarrow> rat \<Rightarrow> upgrade list \<Rightarrow> nat list" where
  "greedy_loop P choice spent [] = choice"
| "greedy_loop P choice spent ((u, t, nxt, extra) # heap) =
     (if spent + extra > budget_bits P then greedy_loop P choice spent heap
      else greedy_loop P (choice[t := nxt]) (spent + extra) (push_step P t nxt heap))"
  by pat_completeness auto
termination
  by (relation "measure (\<lambda>(P, choice, spent, heap). heap_weight P heap)")
    (simp_all add: heap_weight_Cons less_trans [OF _ heap_weight_step] heap_weight_step [simplified])

definition initial_heap :: "problem \<Rightarrow> nat list \<Rightarrow> upgrade list" where
  "initial_heap P choice =
     sort (concat (map (\<lambda>t. case step P t (choice ! t) of None \<Rightarrow> [] | Some s \<Rightarrow> [s]) [0..<length (rows P)]))"

definition greedy_fill :: "problem \<Rightarrow> nat list \<Rightarrow> rat \<Rightarrow> nat list" where
  "greedy_fill P choice spent = greedy_loop P choice spent (initial_heap P choice)"

section \<open>The Lagrangian candidate\<close>

definition lagrangian_choice :: "problem \<Rightarrow> rat \<Rightarrow> nat list" where
  "lagrangian_choice P lam =
     map (\<lambda>t. arg_min_list (\<lambda>s. distortion P t s + lam * cost_bits P t s) [0..<length (specs P)])
       [0..<length (rows P)]"

text \<open>One round of the bisection on the multiplier: the bounds and the best feasible choice.\<close>

definition bisect_round :: "problem \<Rightarrow> rat \<times> rat \<times> nat list \<Rightarrow> rat \<times> rat \<times> nat list" where
  "bisect_round P st =
     (case st of (lo, hi, best_l) \<Rightarrow>
        (let mid = (lo + hi) / 2; ch = lagrangian_choice P mid
         in if total_bits P ch \<le> budget_bits P then (lo, mid, ch) else (mid, hi, best_l)))"

definition LAMBDA_MAX :: rat where "LAMBDA_MAX = 10 ^ 25"
definition BISECT_ROUNDS :: nat where "BISECT_ROUNDS = 100"

definition lagrangian_best :: "problem \<Rightarrow> nat \<Rightarrow> nat list" where
  "lagrangian_best P rounds =
     snd (snd ((bisect_round P ^^ rounds) (0, LAMBDA_MAX, lagrangian_choice P LAMBDA_MAX)))"

section \<open>The choice\<close>

definition cand_greedy :: "problem \<Rightarrow> nat list" where
  "cand_greedy P =
     (let base = replicate (length (rows P)) 0 in greedy_fill P base (total_bits P base))"

definition cand_lagr :: "problem \<Rightarrow> nat list" where
  "cand_lagr P =
     (let best = lagrangian_best P BISECT_ROUNDS in greedy_fill P best (total_bits P best))"

definition best_choice :: "problem \<Rightarrow> nat list" where
  "best_choice P =
     (if total_distortion P (cand_greedy P) \<le> total_distortion P (cand_lagr P)
      then cand_greedy P else cand_lagr P)"

record alloc_entry =
  entry_spec :: string
  entry_stages :: "stage list"
  entry_bpw :: rat
  estimated_sse :: rat
  entry_transform :: "(string \<times> string) option"

record allocation =
  al_group_size :: nat
  target_bpw :: rat
  achieved_bpw :: rat
  al_total_params :: nat
  candidate_specs :: "string list"
  al_tensors :: "(string \<times> alloc_entry) list"

text \<open>
  \<open>probe name stages\<close> is the measured distortion in original units, \<open>pick name\<close> the
  transform the search chose.
\<close>

definition probe_rows ::
  "(string \<Rightarrow> stage list \<Rightarrow> rat) \<Rightarrow> (string \<Rightarrow> (string \<times> string) option) \<Rightarrow> candidate list
    \<Rightarrow> nat option \<Rightarrow> (string \<times> shape \<times> nat) list \<Rightarrow> alloc_row list" where
  "probe_rows probe pick menu max_tensors tensors =
     (let cands = filter (\<lambda>(nm, shp, _). is_quant_candidate nm shp) tensors;
          seen = (case max_tensors of None \<Rightarrow> cands | Some m \<Rightarrow> take m cands)
      in map (\<lambda>(nm, _, numel). \<lparr>row_name = nm, row_numel = numel,
                distortions = map (\<lambda>(_, stages, _). probe nm stages) menu, transform = pick nm\<rparr>) seen)"

definition allocation_of :: "problem \<Rightarrow> rat \<Rightarrow> allocation" where
  "allocation_of P bpw =
     (let choice = best_choice P; params_total = sum_list (map row_numel (rows P))
      in \<lparr>al_group_size = group_dim P, target_bpw = bpw,
          achieved_bpw = total_bits P choice / of_nat params_total, al_total_params = params_total,
          candidate_specs = map fst (specs P),
          al_tensors = map (\<lambda>t.
            (let row = rows P ! t; sp = specs P ! (choice ! t)
             in (row_name row, \<lparr>entry_spec = fst sp, entry_stages = fst (snd sp),
                  entry_bpw = of_nat (snd (snd sp)) / of_nat (group_dim P),
                  estimated_sse = distortion P t (choice ! t), entry_transform = transform row\<rparr>)))
            [0..<length (rows P)]\<rparr>)"

definition build_allocation ::
  "(string \<Rightarrow> stage list \<Rightarrow> rat) \<Rightarrow> (string \<Rightarrow> (string \<times> string) option) \<Rightarrow>
    (string \<times> shape \<times> nat) list \<Rightarrow> rat \<Rightarrow> string list \<Rightarrow> nat \<Rightarrow> nat option \<Rightarrow> bool \<Rightarrow> nat
    \<Rightarrow> alloc_error + allocation" where
  "build_allocation probe pick tensors bpw cand_specs g max_tensors aware cb_bytes =
     bind_err (candidate_menu cand_specs aware g) (\<lambda>menu.
       (let rws = probe_rows probe pick menu max_tensors tensors
        in if rws = [] then Inl NoTensors
           else Inr (allocation_of
             \<lparr>rows = rws, specs = menu, group_dim = g, size_aware = aware, dtype_bytes = cb_bytes,
              budget_bits = bpw * of_nat (sum_list (map row_numel rws))\<rparr> bpw)))"

text \<open>A dictionary built from the entries: a later tensor of the same name wins.\<close>

definition allocation_tensor_stages :: "allocation \<Rightarrow> string \<Rightarrow> stage list option" where
  "allocation_tensor_stages al nm = map_option entry_stages (map_of (rev (al_tensors al)) nm)"

definition allocation_tensor_transforms :: "allocation \<Rightarrow> string \<Rightarrow> (string \<times> string) option" where
  "allocation_tensor_transforms al nm =
     Option.bind (map_of (rev (al_tensors al)) nm) entry_transform"

section \<open>The greedy loop\<close>

text \<open>
  What every state of the loop satisfies: the running total is the total of the choice, every
  pending upgrade is the next step of its tensor, and a tensor has at most one pending upgrade.
\<close>

definition alloc_ok :: "problem \<Rightarrow> nat list \<Rightarrow> bool" where
  "alloc_ok P choice \<longleftrightarrow> length choice = length (rows P) \<and> (\<forall>s \<in> set choice. s < length (specs P))"

definition pending :: "problem \<Rightarrow> nat list \<Rightarrow> upgrade \<Rightarrow> bool" where
  "pending P choice s \<longleftrightarrow>
     fst (snd s) < length (rows P) \<and> step P (fst (snd s)) (choice ! fst (snd s)) = Some s"

definition heap_ok :: "problem \<Rightarrow> nat list \<Rightarrow> upgrade list \<Rightarrow> bool" where
  "heap_ok P choice heap \<longleftrightarrow>
     distinct (map (\<lambda>s. fst (snd s)) heap) \<and>
     (\<forall>s \<in> set heap. pending P choice s)"

lemma step_tensor: "step P t cur = Some s \<Longrightarrow> fst (snd s) = t"
  by (cases s) (auto dest: step_some)

lemma sum_list_choice_update:
  assumes "length choice = n" and "t < n"
  shows "(\<Sum>i\<leftarrow>[0..<n]. f i (choice[t := v] ! i)) = (\<Sum>i\<leftarrow>[0..<n]. f i (choice ! i)) - f t (choice ! t) + (f t v :: rat)"
proof -
  have "map (\<lambda>i. f i (choice[t := v] ! i)) [0..<n] = (map (\<lambda>i. f i (choice ! i)) [0..<n])[t := f t v]"
    using assms by (auto intro!: nth_equalityI simp: nth_list_update)
  then show ?thesis using assms by (simp add: sum_list_update)
qed

lemma total_bits_update:
  "alloc_ok P choice \<Longrightarrow> t < length (rows P) \<Longrightarrow>
    total_bits P (choice[t := v]) = total_bits P choice - cost_bits P t (choice ! t) + cost_bits P t v"
  unfolding total_bits_def by (rule sum_list_choice_update) (simp_all add: alloc_ok_def)

lemma total_distortion_update:
  "alloc_ok P choice \<Longrightarrow> t < length (rows P) \<Longrightarrow>
    total_distortion P (choice[t := v]) = total_distortion P choice - distortion P t (choice ! t) + distortion P t v"
  unfolding total_distortion_def by (rule sum_list_choice_update) (simp_all add: alloc_ok_def)

lemma set_push_step: "set (push_step P t cur heap) = set heap \<union> set_option (step P t cur)"
  by (auto simp: push_step_def heap_push_def set_insort_key split: option.split)

lemma distinct_push_step:
  assumes "distinct (map (\<lambda>s. fst (snd s)) heap)" and "t \<notin> (\<lambda>s. fst (snd s)) ` set heap"
  shows "distinct (map (\<lambda>s. fst (snd s)) (push_step P t cur heap))"
proof (cases "step P t cur")
  case None
  then show ?thesis using assms by (simp add: push_step_def)
next
  case (Some s)
  then have "fst (snd s) = t" by (cases s) (auto dest: step_some)
  moreover have "mset (map (\<lambda>s. fst (snd s)) (insort s heap)) = mset (map (\<lambda>s. fst (snd s)) (s # heap))"
    by simp
  ultimately show ?thesis
    using assms Some by (metis distinct.simps(2) heap_push_def list.simps(9) mset_eq_imp_distinct_iff
        option.simps(5) push_step_def set_map)
qed

lemma greedy_loop_correct:
  assumes "alloc_ok P choice" and "heap_ok P choice heap" and "spent = total_bits P choice"
  shows "alloc_ok P (greedy_loop P choice spent heap) \<and>
    total_bits P (greedy_loop P choice spent heap) \<le> max (budget_bits P) spent \<and>
    total_distortion P (greedy_loop P choice spent heap) \<le> total_distortion P choice"
  using assms
proof (induction P choice spent heap rule: greedy_loop.induct)
  case (2 P choice spent u t nxt extra heap)
  have tail: "heap_ok P choice heap" using "2.prems"(2) by (simp add: heap_ok_def)
  show ?case
  proof (cases "spent + extra > budget_bits P")
    case True
    then show ?thesis using "2.IH"(1) "2.prems" tail by simp
  next
    case False
    have t: "t < length (rows P)" and "step P t (choice ! t) = Some (u, t, nxt, extra)"
      using "2.prems"(2) by (auto simp: heap_ok_def pending_def)
    then have st: "nxt = choice ! t + 1" "nxt < length (specs P)"
      "extra = cost_bits P t nxt - cost_bits P t (choice ! t)"
      "distortion P t nxt \<le> distortion P t (choice ! t)"
      using step_some by fastforce+
    let ?choice = "choice[t := nxt]"
    have ok: "alloc_ok P ?choice"
      using "2.prems"(1) st(2) by (auto simp: alloc_ok_def dest!: set_update_subset_insert [THEN subsetD])
    have notin: "t \<notin> (\<lambda>s. fst (snd s)) ` set heap"
      using "2.prems"(2) by (auto simp: heap_ok_def)
    then have others: "?choice ! fst (snd s) = choice ! fst (snd s)" if "s \<in> set heap" for s
      using that by (metis imageI nth_list_update_neq)
    have "distinct (map (\<lambda>s. fst (snd s)) (push_step P t nxt heap))"
      using tail notin by (intro distinct_push_step) (simp_all add: heap_ok_def)
    moreover have "?choice ! t = nxt" using t "2.prems"(1) by (simp add: alloc_ok_def)
    moreover have "pending P ?choice s" if "s \<in> set heap" for s
      using tail others [OF that] that by (simp add: heap_ok_def pending_def)
    moreover have "pending P ?choice s" if "step P t nxt = Some s" for s
      using step_tensor [OF that] that t \<open>?choice ! t = nxt\<close> by (simp add: pending_def)
    ultimately have heap: "heap_ok P ?choice (push_step P t nxt heap)"
      by (auto simp: heap_ok_def set_push_step)
    have bits: "spent + extra = total_bits P ?choice"
      using total_bits_update [OF "2.prems"(1) t, of nxt] "2.prems"(3) st(3) by simp
    have "total_distortion P ?choice \<le> total_distortion P choice"
      using total_distortion_update [OF "2.prems"(1) t, of nxt] st(4) by simp
    then show ?thesis
      using "2.IH"(2) [OF False ok heap bits] False by (auto simp: max_def split: if_splits)
  qed
qed simp

lemma initial_heap_ok:
  assumes "alloc_ok P choice"
  shows "heap_ok P choice (initial_heap P choice)"
proof -
  let ?f = "\<lambda>t. case step P t (choice ! t) of None \<Rightarrow> [] | Some s \<Rightarrow> [s]"
  let ?l = "\<lambda>n. concat (map ?f [0..<n])"
  have "distinct (map (\<lambda>s. fst (snd s)) (?l n)) \<and> (\<forall>s \<in> set (?l n). fst (snd s) < n)" for n
  proof (induction n)
    case (Suc n)
    have l: "?l (Suc n) = ?l n @ ?f n" by simp
    show ?case
    proof (cases "step P n (choice ! n)")
      case None
      with Suc show ?thesis unfolding l by (auto simp: less_SucI)
    next
      case (Some s)
      then have s: "fst (snd s) = n" by (rule step_tensor)
      have "n \<notin> (\<lambda>s. fst (snd s)) ` set (?l n)" using Suc by fastforce
      then show ?thesis unfolding l using Suc s Some by (auto simp: less_SucI)
    qed
  qed simp
  then have d: "distinct (map (\<lambda>s. fst (snd s)) (?l (length (rows P))))" by blast
  have "mset (map (\<lambda>s. fst (snd s)) (initial_heap P choice)) = mset (map (\<lambda>s. fst (snd s)) (?l (length (rows P))))"
    by (simp add: initial_heap_def)
  then have "distinct (map (\<lambda>s. fst (snd s)) (initial_heap P choice))"
    by (rule iffD2 [OF mset_eq_imp_distinct_iff, OF _ d])
  moreover have "pending P choice s" if s: "s \<in> set (initial_heap P choice)" for s
  proof -
    obtain t where "t < length (rows P)" "step P t (choice ! t) = Some s"
      using s by (auto simp: initial_heap_def split: option.splits)
    moreover from this(2) have "fst (snd s) = t" by (rule step_tensor)
    ultimately show ?thesis by (simp only: pending_def simp_thms)
  qed
  ultimately show ?thesis by (simp add: heap_ok_def)
qed

lemma greedy_fill_correct:
  assumes "alloc_ok P choice"
  shows "alloc_ok P (greedy_fill P choice (total_bits P choice)) \<and>
    total_bits P (greedy_fill P choice (total_bits P choice)) \<le> max (budget_bits P) (total_bits P choice) \<and>
    total_distortion P (greedy_fill P choice (total_bits P choice)) \<le> total_distortion P choice"
  unfolding greedy_fill_def by (rule greedy_loop_correct) (use assms initial_heap_ok in auto)

section \<open>The Lagrangian choice\<close>

lemma arg_min_list_range: "0 < n \<Longrightarrow> arg_min_list f [0..<n] < n"
  using arg_min_list_in [of "[0..<n]" f] by simp

lemma arg_min_list_min: "s < n \<Longrightarrow> f (arg_min_list f [0..<n]) \<le> f s" for f :: "nat \<Rightarrow> 'a::linorder"
  using f_arg_min_list_f [of "[0..<n]" f] by (cases n) (auto simp del: upt_Suc)

lemma lagrangian_ok: "specs P \<noteq> [] \<Longrightarrow> alloc_ok P (lagrangian_choice P lam)"
  by (auto simp: alloc_ok_def lagrangian_choice_def intro!: arg_min_list_range)

lemma lagrangian_pointwise:
  assumes "t < length (rows P)" and "s < length (specs P)"
  shows "distortion P t (lagrangian_choice P lam ! t) + lam * cost_bits P t (lagrangian_choice P lam ! t)
    \<le> distortion P t s + lam * cost_bits P t s"
  using arg_min_list_min [OF assms(2), of "\<lambda>s. distortion P t s + lam * cost_bits P t s"] assms(1)
  by (simp add: lagrangian_choice_def)

lemma lagrangian_sum:
  assumes "alloc_ok P c"
  shows "total_distortion P (lagrangian_choice P lam) + lam * total_bits P (lagrangian_choice P lam)
    \<le> total_distortion P c + lam * total_bits P c"
proof -
  let ?l = "lagrangian_choice P lam"
  have "(\<Sum>t\<leftarrow>[0..<length (rows P)]. distortion P t (?l ! t) + lam * cost_bits P t (?l ! t)) \<le>
      (\<Sum>t\<leftarrow>[0..<length (rows P)]. distortion P t (c ! t) + lam * cost_bits P t (c ! t))"
    using assms by (intro sum_list_mono lagrangian_pointwise) (auto simp: alloc_ok_def)
  then show ?thesis
    by (simp add: total_distortion_def total_bits_def sum_list_addf sum_list_const_mult)
qed

text \<open>
  The multiplier's bisection keeps the Lagrangian choice of a positive multiplier, and one that fits the budget unless it is the
  one it started with.
\<close>

definition bisect_ok :: "problem \<Rightarrow> rat \<times> rat \<times> nat list \<Rightarrow> bool" where
  "bisect_ok P st \<longleftrightarrow>
     (case st of (lo, hi, best) \<Rightarrow>
        0 \<le> lo \<and> 0 < hi \<and> best = lagrangian_choice P hi \<and>
        total_bits P best \<le> max (budget_bits P) (total_bits P (lagrangian_choice P LAMBDA_MAX)))"

lemma bisect_round_ok: "bisect_ok P st \<Longrightarrow> bisect_ok P (bisect_round P st)"
  by (auto simp: bisect_ok_def bisect_round_def Let_def split: prod.splits)

lemma lagrangian_best_ok:
  "\<exists>lam > 0. lagrangian_best P n = lagrangian_choice P lam \<and>
    total_bits P (lagrangian_best P n) \<le> max (budget_bits P) (total_bits P (lagrangian_choice P LAMBDA_MAX))"
proof -
  have "bisect_ok P ((bisect_round P ^^ n) (0, LAMBDA_MAX, lagrangian_choice P LAMBDA_MAX))"
  proof (induction n)
    case 0
    then show ?case by (simp add: bisect_ok_def LAMBDA_MAX_def)
  next
    case (Suc n)
    then show ?case by (simp add: bisect_round_ok)
  qed
  then show ?thesis by (auto simp: bisect_ok_def lagrangian_best_def split: prod.splits)
qed

lemma base_ok: "specs P \<noteq> [] \<Longrightarrow> alloc_ok P (replicate (length (rows P)) 0)"
  by (auto simp: alloc_ok_def)

lemma best_choice_correct:
  assumes ne: "specs P \<noteq> []"
  shows "alloc_ok P (best_choice P)"
    and "total_bits P (best_choice P) \<le> max (budget_bits P)
      (max (total_bits P (replicate (length (rows P)) 0)) (total_bits P (lagrangian_choice P LAMBDA_MAX)))"
    and "total_distortion P (best_choice P) \<le> total_distortion P (cand_greedy P)"
    and "total_distortion P (best_choice P) \<le> total_distortion P (replicate (length (rows P)) 0)"
    and "total_distortion P (best_choice P) \<le> total_distortion P (lagrangian_best P BISECT_ROUNDS)"
proof -
  obtain lam where lam: "lagrangian_best P BISECT_ROUNDS = lagrangian_choice P lam"
    "total_bits P (lagrangian_best P BISECT_ROUNDS) \<le> max (budget_bits P) (total_bits P (lagrangian_choice P LAMBDA_MAX))"
    using lagrangian_best_ok by blast
  then have "alloc_ok P (lagrangian_best P BISECT_ROUNDS)" using lagrangian_ok [OF ne] by simp
  note L = greedy_fill_correct [OF this, folded cand_lagr_def [unfolded Let_def]]
  note G = greedy_fill_correct [OF base_ok [OF ne], folded cand_greedy_def [unfolded Let_def]]
  show "alloc_ok P (best_choice P)" using L G by (simp add: best_choice_def)
  show "total_bits P (best_choice P) \<le> max (budget_bits P)
      (max (total_bits P (replicate (length (rows P)) 0)) (total_bits P (lagrangian_choice P LAMBDA_MAX)))"
    using L G lam(2) by (auto simp: best_choice_def max_def split: if_splits)
  show "total_distortion P (best_choice P) \<le> total_distortion P (cand_greedy P)"
    "total_distortion P (best_choice P) \<le> total_distortion P (replicate (length (rows P)) 0)"
    "total_distortion P (best_choice P) \<le> total_distortion P (lagrangian_best P BISECT_ROUNDS)"
    using L G by (auto simp: best_choice_def)
qed

text \<open>Without the codebook tax the menu is sorted by what a tensor pays, so the first spec is a cheapest one.\<close>

lemma candidate_menu_sorted:
  assumes "candidate_menu cand_specs aware g = Inr menu"
  shows "menu \<noteq> []" and "sorted (map (\<lambda>item. snd (snd item)) menu)"
proof -
  obtain xs where xs: "menu = sort_key (\<lambda>item. snd (snd item)) xs" "\<not> card (set (map (\<lambda>item. snd (snd item)) menu)) < 2"
    using assms by (auto simp: candidate_menu_def Let_def bind_err_eq_Inr split: if_splits)
  from xs(2) show "menu \<noteq> []" by (cases menu) simp_all
  show "sorted (map (\<lambda>item. snd (snd item)) menu)" by (simp add: xs(1))
qed

definition gaps_below :: "rat \<Rightarrow> problem \<Rightarrow> bool" where
  "gaps_below m P \<longleftrightarrow>
     (\<forall>row \<in> set (rows P). length (distortions row) = length (specs P) \<and>
        (\<forall>d \<in> set (distortions row). 0 < row_numel row \<longrightarrow>
           hd (distortions row) - d < m * (of_nat (row_numel row) / of_nat (group_dim P))))"

lemma lagrangian_max_cheapest:
  assumes ne: "specs P \<noteq> []" and sorted: "sorted (map (\<lambda>item. snd (snd item)) (specs P))" and aware: "\<not> size_aware P" and g: "0 < group_dim P"
    and gaps: "gaps_below LAMBDA_MAX P"
  shows "total_bits P (lagrangian_choice P LAMBDA_MAX) \<le> total_bits P (replicate (length (rows P)) 0)"
  unfolding total_bits_def
proof (rule sum_list_mono)
  fix t assume "t \<in> set [0..<length (rows P)]"
  then have t: "t < length (rows P)" by simp
  let ?s = "lagrangian_choice P LAMBDA_MAX ! t" and ?bits = "\<lambda>s. snd (snd (specs P ! s))" and ?n = "row_numel (rows P ! t)"
  have s: "?s < length (specs P)" using lagrangian_ok [OF ne, of LAMBDA_MAX] t by (auto simp: alloc_ok_def)
  have le: "distortion P t ?s + LAMBDA_MAX * cost_bits P t ?s \<le> distortion P t 0 + LAMBDA_MAX * cost_bits P t 0"
    using lagrangian_pointwise [OF t, of 0 LAMBDA_MAX] ne by simp
  have cost: "cost_bits P t k = of_nat ?n / of_nat (group_dim P) * of_nat (?bits k)" for k
    using aware by (simp add: cost_bits_def)
  have row: "rows P ! t \<in> set (rows P)" using t by simp
  have "\<not> cost_bits P t 0 < cost_bits P t ?s"
  proof
    assume less: "cost_bits P t 0 < cost_bits P t ?s"
    then have n: "0 < ?n" by (cases "?n = 0") (simp_all add: cost)
    have "?bits 0 < ?bits ?s"
    proof (rule ccontr)
      assume "\<not> ?bits 0 < ?bits ?s"
      then have "cost_bits P t ?s \<le> cost_bits P t 0" unfolding cost by (intro mult_left_mono) auto
      with less show False by simp
    qed
    then have "of_nat ?n / of_nat (group_dim P) * 1 \<le> of_nat ?n / of_nat (group_dim P) * (of_nat (?bits ?s) - of_nat (?bits 0) :: rat)"
      by (intro mult_left_mono) auto
    also have "\<dots> = cost_bits P t ?s - cost_bits P t 0" by (simp add: cost right_diff_distrib)
    finally have "LAMBDA_MAX * (of_nat ?n / of_nat (group_dim P)) \<le> LAMBDA_MAX * (cost_bits P t ?s - cost_bits P t 0)"
      by (intro mult_left_mono) (simp_all add: LAMBDA_MAX_def)
    moreover have "distortion P t 0 - distortion P t ?s < LAMBDA_MAX * (of_nat ?n / of_nat (group_dim P))"
    proof -
      have len: "length (distortions (rows P ! t)) = length (specs P)" using gaps row by (simp add: gaps_below_def)
      then have "distortions (rows P ! t) \<noteq> []" using ne by auto
      then have "distortion P t 0 = hd (distortions (rows P ! t))" by (simp add: distortion_def hd_conv_nth)
      moreover have "distortion P t ?s \<in> set (distortions (rows P ! t))" using s len by (simp add: distortion_def)
      ultimately show ?thesis using gaps row n unfolding gaps_below_def by fastforce
    qed
    ultimately show False using le by (simp add: right_diff_distrib)
  qed
  then show "cost_bits P t ?s \<le> cost_bits P t (replicate (length (rows P)) 0 ! t)" using t by simp
qed

section \<open>Properties\<close>


definition example_problem :: problem where
  "example_problem =
     \<lparr>rows = [\<lparr>row_name = ''a'', row_numel = 80, distortions = [90, 20, 5], transform = None\<rparr>,
             \<lparr>row_name = ''b'', row_numel = 160, distortions = [40, 38, 1], transform = None\<rparr>],
      specs = [(''vq-4'', [Codebook 16], 4), (''vq-8'', [Codebook 256], 8), (''vq-12'', [Codebook 4096], 12)],
      group_dim = 8, size_aware = False, dtype_bytes = 2, budget_bits = 250\<rparr>"


text \<open>
  With the codebook tax, a tensor of eight values: the smallest codebook is charged 2052 bits against a budget of 96, and because one
  vector is fitted exactly by one centroid the greedy candidate has no distortion and wins.
\<close>

definition taxed_problem :: problem where
  "taxed_problem =
     \<lparr>rows = [\<lparr>row_name = ''a'', row_numel = 8, distortions = [0, 1], transform = None\<rparr>],
      specs = [(''vq-4'', [Codebook 16], 4), (''rvq-s8'', [Scalar ''s8''], 64)],
      group_dim = 8, size_aware = True, dtype_bytes = 2, budget_bits = 96\<rparr>"

lemma size_aware_overspends:
  "best_choice taxed_problem = [0]" and "total_bits taxed_problem [0] = 2052" and "total_bits taxed_problem [1] \<le> budget_bits taxed_problem"
proof -
  have ne: "specs taxed_problem \<noteq> []" by (simp add: taxed_problem_def)
  have len: "length (rows taxed_problem) = 1" by (simp add: taxed_problem_def)
  have base: "cand_greedy taxed_problem = [0]"
    by (simp add: cand_greedy_def greedy_fill_def initial_heap_def step_def taxed_problem_def distortion_def)
  then have "total_distortion taxed_problem (cand_greedy taxed_problem) = 0"
    by (simp add: total_distortion_def distortion_def taxed_problem_def)
  moreover have "0 \<le> total_distortion taxed_problem c" if "alloc_ok taxed_problem c" for c
  proof -
    from that have "length c = Suc 0" "\<forall>s \<in> set c. s < 2" by (simp_all add: alloc_ok_def taxed_problem_def numeral_2_eq_2)
    then obtain k where k: "c = [k]" "k < 2" by (auto simp: length_Suc_conv)
    have "k = 0 \<or> k = 1" using k(2) by linarith
    then show ?thesis by (auto simp: k(1) total_distortion_def distortion_def taxed_problem_def)
  qed
  moreover have "alloc_ok taxed_problem (cand_lagr taxed_problem)"
  proof -
    obtain lam where "lagrangian_best taxed_problem BISECT_ROUNDS = lagrangian_choice taxed_problem lam" using lagrangian_best_ok by blast
    then show ?thesis
      using greedy_fill_correct [OF lagrangian_ok [OF ne, of lam]] by (simp add: cand_lagr_def Let_def)
  qed
  ultimately show "best_choice taxed_problem = [0]" using base by (simp add: best_choice_def)
  show "total_bits taxed_problem [0] = 2052" "total_bits taxed_problem [1] \<le> budget_bits taxed_problem"
    by (simp_all add: total_bits_def cost_bits_def taxed_problem_def spec_codebook_bytes_def)
qed

end
