(* ===== verification/Lattice.thy ===== *)
theory Lattice
  imports Numerics
begin

text \<open>
  \<open>orka/quant/lattice.py\<close>: the E8 lattice quantiser. Vectors are rows of rationals; torch's
  batched operations act row by row. The rotation matrix is a parameter of the encoder and the
  decoder (it is regenerated from the same seed); entropy estimates are left out.

  \<open>nearest_Dn\<close> and \<open>nearest_e8\<close> are instances of one interface, the locale \<open>nearest_point\<close>: an
  algorithm that returns a lattice point no farther than any other.
\<close>

definition E8_DIM :: nat where "E8_DIM = 8"

section \<open>Nearest lattice points\<close>

definition nearest_Dn :: "rat list \<Rightarrow> rat list" where
  "nearest_Dn x =
     (let f = map np_round x
      in if odd (sum_list f) then
           (let diff = map2 (\<lambda>a k. a - of_int k) x f;
                j = argmax (map abs diff);
                adj = (if diff ! j \<ge> 0 then 1 else -1)
            in map of_int (f[j := f ! j + adj]))
         else map of_int f)"

definition nearest_e8 :: "rat list \<Rightarrow> rat list" where
  "nearest_e8 x =
     (let a = nearest_Dn x;
          b = map (\<lambda>v. v + 1 / 2) (nearest_Dn (map (\<lambda>v. v - 1 / 2) x))
      in if dist2 x a \<le> dist2 x b then a else b)"

section \<open>Residual quantisation\<close>

definition scale_row :: "rat \<Rightarrow> rat list \<Rightarrow> rat list" where
  "scale_row c v = map (\<lambda>a. a * c) v"

definition add_rows :: "rat list \<Rightarrow> rat list \<Rightarrow> rat list" where
  "add_rows u v = map2 (+) u v"

definition sub_rows :: "rat list \<Rightarrow> rat list \<Rightarrow> rat list" where
  "sub_rows u v = map2 (-) u v"

text \<open>One stage on one row: the lattice point of the scaled residual, its integer key, and the
  updated reconstruction and residual.\<close>

definition e8_stage ::
  "rat list \<times> rat list \<times> int matrix \<Rightarrow> rat \<Rightarrow> rat list \<times> rat list \<times> int matrix" where
  "e8_stage st sc =
     (case st of (recon, residual, keys) \<Rightarrow>
        (let q = nearest_e8 (map (\<lambda>a. a / sc) residual)
         in (add_rows recon (scale_row sc q), sub_rows residual (scale_row sc q),
             keys @ [map (\<lambda>a. np_round (a * 2)) q])))"

definition e8_quantize_row :: "rat list \<Rightarrow> rat list \<Rightarrow> rat list \<times> rat list \<times> int matrix" where
  "e8_quantize_row v scales = foldl e8_stage (replicate (length v) 0, v, []) scales"

definition e8_quantize_raw :: "rat matrix \<Rightarrow> rat list \<Rightarrow> rat matrix \<times> int matrix list" where
  "e8_quantize_raw vecs scales =
     (let rows = map (\<lambda>v. e8_quantize_row v scales) vecs
      in (map fst rows, map (\<lambda>r. snd (snd r)) rows))"

text \<open>\<open>_to_vectors\<close>: flatten, pad with zeros to a multiple of 8, cut into rows of 8.\<close>

definition to_vectors :: "rat matrix \<Rightarrow> rat matrix \<times> nat" where
  "to_vectors W =
     (let flat = concat W; pad = (8 - length flat mod 8) mod 8
      in (blocks_of E8_DIM (flat @ replicate pad 0), length flat))"

definition vec_mat :: "rat list \<Rightarrow> rat matrix \<Rightarrow> rat list" where
  "vec_mat v R = map (\<lambda>j. \<Sum>i\<leftarrow>[0..<length v]. v ! i * (R ! i ! j)) [0..<length R]"

definition transposed :: "rat matrix \<Rightarrow> rat matrix" where
  "transposed R = map (\<lambda>j. map (\<lambda>row. row ! j) R) [0..<length R]"

definition e8_encode :: "rat matrix \<Rightarrow> rat matrix \<Rightarrow> rat list \<Rightarrow> rat list \<times> int matrix list" where
  "e8_encode R W scales =
     (let (vecs, numel) = to_vectors W;
          (recon_rot, keys) = e8_quantize_raw (map (\<lambda>v. vec_mat v R) vecs) scales
      in (take numel (concat (map (\<lambda>v. vec_mat v (transposed R)) recon_rot)), keys))"

definition e8_decode_row :: "int matrix \<Rightarrow> rat list \<Rightarrow> rat list" where
  "e8_decode_row keys scales =
     (case map2 (\<lambda>ks sc. map (\<lambda>k. of_int k / 2 * sc) ks) keys scales of
        [] \<Rightarrow> [] | p # ps \<Rightarrow> foldl add_rows p ps)"

definition e8_decode :: "rat matrix \<Rightarrow> int matrix list \<Rightarrow> rat list \<Rightarrow> nat \<Rightarrow> rat list" where
  "e8_decode R keys scales numel =
     take numel (concat (map (\<lambda>ks. vec_mat (e8_decode_row ks scales) (transposed R)) keys))"

section \<open>The interface of a nearest-point search\<close>

locale nearest_point =
  fixes in_lattice :: "rat list \<Rightarrow> bool" and near :: "rat list \<Rightarrow> rat list"
  assumes near_length: "length (near x) = length x"
    and near_lattice: "in_lattice (near x)"
    and near_minimal: "length y = length x \<Longrightarrow> in_lattice y \<Longrightarrow> dist2 x (near x) \<le> dist2 x y"
begin

lemma near_fixed:
  assumes "in_lattice x"
  shows "near x = x"
proof -
  have "dist2 x (near x) \<le> dist2 x x" using assms by (intro near_minimal) simp_all
  then have "dist2 x (near x) = 0" using dist2_nonneg [of x "near x"] by simp
  then show ?thesis using assms near_length by (metis dist2_zero)
qed

lemma near_idem: "near (near x) = near x"
  by (intro near_fixed near_lattice)

text \<open>A translate of the lattice is searched by translating the query.\<close>

lemma near_translate:
  assumes "length y = length x" and "in_lattice (map (\<lambda>v. v - c) y)"
  shows "dist2 x (map (\<lambda>v. v + c) (near (map (\<lambda>v. v - c) x))) \<le> dist2 x y"
proof -
  let ?x = "map (\<lambda>v. v - c) x" and ?y = "map (\<lambda>v. v - c) y"
  have undo: "map (\<lambda>v. v + c) ?x = x" "map (\<lambda>v. v + c) ?y = y" by (simp_all add: comp_def)
  have "dist2 ?x (near ?x) \<le> dist2 ?x ?y" using assms by (intro near_minimal) simp_all
  moreover have "dist2 x (map (\<lambda>v. v + c) (near ?x)) = dist2 ?x (near ?x)"
    using dist2_translate [of ?x "near ?x" c] near_length [of ?x] undo(1) by simp
  moreover have "dist2 x y = dist2 ?x ?y"
    using dist2_translate [of ?x ?y c] assms(1) undo by simp
  ultimately show ?thesis by simp
qed

end

definition in_Dn :: "rat list \<Rightarrow> bool" where
  "in_Dn y \<longleftrightarrow> (\<exists>f :: int list. y = map of_int f \<and> even (sum_list f))"

definition in_E8 :: "rat list \<Rightarrow> bool" where
  "in_E8 y \<longleftrightarrow> in_Dn y \<or> in_Dn (map (\<lambda>v. v - 1 / 2) y)"

lemma length_nearest_Dn [simp]: "length (nearest_Dn x) = length x"
  by (simp add: nearest_Dn_def Let_def)

lemma round_closest: "(x - of_int (np_round x)) ^ 2 \<le> (x - of_int k) ^ 2" for x :: rat
proof -
  have "\<bar>x - of_int (np_round x)\<bar> \<le> \<bar>x - of_int k\<bar>"
  proof (cases "k = np_round x")
    case False
    then have "1 \<le> \<bar>k - np_round x\<bar>" by simp
    then have "1 \<le> \<bar>of_int k - of_int (np_round x) :: rat\<bar>" by (metis of_int_1_le_iff of_int_abs of_int_diff)
    then show ?thesis using np_round_close [of x] by linarith
  qed simp
  then show ?thesis by (metis abs_ge_zero power2_abs power_mono)
qed

text \<open>Moving a coordinate away from its rounded value costs at least \<open>1 - 2 * |diff|\<close>.\<close>

lemma round_second:
  fixes x :: rat
  assumes "k \<noteq> np_round x"
  shows "(x - of_int (np_round x)) ^ 2 + 1 - 2 * \<bar>x - of_int (np_round x)\<bar> \<le> (x - of_int k) ^ 2"
proof -
  let ?d = "x - of_int (np_round x)"
  have "1 \<le> \<bar>k - np_round x\<bar>" using assms by simp
  then have "1 \<le> \<bar>of_int k - of_int (np_round x) :: rat\<bar>" by (metis of_int_1_le_iff of_int_abs of_int_diff)
  then have "1 - \<bar>?d\<bar> \<le> \<bar>x - of_int k\<bar>" by linarith
  moreover have "0 \<le> 1 - \<bar>?d\<bar>" using np_round_close [of x] by linarith
  ultimately have "(1 - \<bar>?d\<bar>) ^ 2 \<le> (x - of_int k) ^ 2" by (metis power2_abs power_mono)
  moreover have "(1 - \<bar>?d\<bar>) ^ 2 = ?d ^ 2 + 1 - 2 * \<bar>?d\<bar>" by (simp add: power2_eq_square algebra_simps)
  ultimately show ?thesis by simp
qed

lemma nearest_Dn_even:
  assumes "even (sum_list (map np_round x))"
  shows "in_Dn (nearest_Dn x)" and "in_Dn y \<Longrightarrow> length y = length x \<Longrightarrow> dist2 x (nearest_Dn x) \<le> dist2 x y"
proof -
  have eq: "nearest_Dn x = map of_int (map np_round x)" using assms by (simp add: nearest_Dn_def Let_def)
  then show "in_Dn (nearest_Dn x)" using assms unfolding in_Dn_def by blast
  assume "in_Dn y" and len: "length y = length x"
  then obtain g :: "int list" where "y = map of_int g" by (auto simp: in_Dn_def)
  then show "dist2 x (nearest_Dn x) \<le> dist2 x y"
    unfolding eq using len by (intro dist2_mono) (simp_all add: round_closest)
qed

lemma sum_list_int_update:
  "j < length f \<Longrightarrow> sum_list (f[j := f ! j + a]) = sum_list f + (a :: int)"
  by (simp add: sum_list_update)

lemma nearest_Dn_odd:
  assumes odd: "odd (sum_list (map np_round x))"
  shows "in_Dn (nearest_Dn x)" and "in_Dn y \<Longrightarrow> length y = length x \<Longrightarrow> dist2 x (nearest_Dn x) \<le> dist2 x y"
proof -
  let ?f = "map np_round x" and ?d = "\<lambda>i. x ! i - of_int (np_round (x ! i))"
  let ?diff = "map2 (\<lambda>a k. a - of_int k) x ?f"
  let ?j = "argmax (map abs ?diff)"
  let ?adj = "if ?diff ! ?j \<ge> 0 then 1 else -1 :: int"
  have ne: "x \<noteq> []" using odd by auto
  have lend: "length ?diff = length x" by simp
  have j: "?j < length x" using argmax_less [of "map abs ?diff"] ne by auto
  have diff: "?diff ! i = ?d i" if "i < length x" for i using that by simp
  have eq: "nearest_Dn x = map of_int (?f[?j := ?f ! ?j + ?adj])" using odd by (simp add: nearest_Dn_def Let_def)
  have "sum_list (?f[?j := ?f ! ?j + ?adj]) = sum_list ?f + ?adj" using j by (intro sum_list_int_update) simp
  then have "even (sum_list (?f[?j := ?f ! ?j + ?adj]))" using odd by simp
  then show "in_Dn (nearest_Dn x)" unfolding eq in_Dn_def by blast
  assume "in_Dn y" and len: "length y = length x"
  then obtain g :: "int list" where g: "y = map of_int g" "even (sum_list g)" by (auto simp: in_Dn_def)
  have lg: "length g = length x" using len g by simp
  have "\<exists>i < length x. g ! i \<noteq> ?f ! i"
  proof (rule ccontr)
    assume "\<not> ?thesis"
    then have "g = ?f" using lg by (intro nth_equalityI) auto
    then show False using odd g(2) by simp
  qed
  then obtain i where i: "i < length x" "g ! i \<noteq> np_round (x ! i)" by auto
  have maxj: "\<bar>?d i\<bar> \<le> \<bar>?d ?j\<bar>"
  proof -
    have "\<bar>?d i\<bar> \<in> set (map abs ?diff)" using i(1) diff [OF i(1)] by (metis (no_types, lifting) length_map lend nth_map nth_mem)
    then have "\<bar>?d i\<bar> \<le> map abs ?diff ! ?j" by (rule argmax_max)
    then show ?thesis using j diff [OF j] by simp
  qed
  let ?r = "map (of_int :: int \<Rightarrow> rat) ?f"
  have "dist2 x (nearest_Dn x) = dist2 x (?r[?j := of_int (?f ! ?j + ?adj)])"
    unfolding eq by (simp add: map_update)
  also have "\<dots> = dist2 x ?r - ?d ?j ^ 2 + (x ! ?j - of_int (?f ! ?j + ?adj)) ^ 2"
    using j by (subst dist2_update) simp_all
  also have "(x ! ?j - of_int (?f ! ?j + ?adj)) ^ 2 = ?d ?j ^ 2 + 1 - 2 * \<bar>?d ?j\<bar>"
    using j diff [OF j] by (auto simp: power2_eq_square algebra_simps)
  finally have near: "dist2 x (nearest_Dn x) = dist2 x ?r + 1 - 2 * \<bar>?d ?j\<bar>" by simp
  have "dist2 x (y[i := of_int (np_round (x ! i))]) \<ge> dist2 x ?r"
  proof (rule dist2_mono)
    fix k assume "k < length x"
    then show "(x ! k - ?r ! k) ^ 2 \<le> (x ! k - y[i := of_int (np_round (x ! i))] ! k) ^ 2"
      using g lg by (cases "k = i") (simp_all add: round_closest)
  qed (simp_all add: len)
  moreover have "dist2 x (y[i := of_int (np_round (x ! i))]) =
      dist2 x y - (x ! i - y ! i) ^ 2 + ?d i ^ 2"
    using i(1) len by (subst dist2_update) simp_all
  moreover have "?d i ^ 2 + 1 - 2 * \<bar>?d i\<bar> \<le> (x ! i - y ! i) ^ 2"
    using round_second [OF i(2)] g lg i(1) by simp
  moreover have "B \<ge> A \<Longrightarrow> B = D - s + d2 \<Longrightarrow> d2 + 1 - 2 * a \<le> s \<Longrightarrow> N = A + 1 - 2 * b \<Longrightarrow> a \<le> b \<Longrightarrow> N \<le> D"
    for A B D s d2 a b N :: rat by linarith
  ultimately show "dist2 x (nearest_Dn x) \<le> dist2 x y" using near maxj by blast
qed

interpretation Dn: nearest_point in_Dn nearest_Dn
proof
  show "length (nearest_Dn x) = length x" for x by simp
  show "in_Dn (nearest_Dn x)" for x
    using nearest_Dn_even(1) nearest_Dn_odd(1) by blast
  show "dist2 x (nearest_Dn x) \<le> dist2 x y" if "length y = length x" "in_Dn y" for x y
    using nearest_Dn_even(2) nearest_Dn_odd(2) that by blast
qed

lemma length_nearest_e8 [simp]: "length (nearest_e8 x) = length x"
  by (simp add: nearest_e8_def Let_def)

lemma nearest_e8_in: "in_E8 (nearest_e8 x)"
proof -
  have "in_Dn (nearest_Dn x)" "in_Dn (nearest_Dn (map (\<lambda>v. v - 1 / 2) x))"
    by (simp_all add: Dn.near_lattice)
  then show ?thesis by (auto simp: nearest_e8_def in_E8_def Let_def comp_def)
qed

lemma nearest_e8_minimal:
  assumes "length y = length x" and "in_E8 y"
  shows "dist2 x (nearest_e8 x) \<le> dist2 x y"
proof -
  let ?a = "nearest_Dn x" and ?b = "map (\<lambda>v. v + 1 / 2) (nearest_Dn (map (\<lambda>v. v - 1 / 2) x))"
  have "dist2 x (nearest_e8 x) \<le> dist2 x ?a" "dist2 x (nearest_e8 x) \<le> dist2 x ?b"
    by (auto simp: nearest_e8_def Let_def)
  moreover have "dist2 x ?a \<le> dist2 x y \<or> dist2 x ?b \<le> dist2 x y"
    using assms Dn.near_minimal [of y x] Dn.near_translate [of y x "1 / 2"]
    by (auto simp: in_E8_def)
  ultimately show ?thesis by linarith
qed

interpretation E8: nearest_point in_E8 nearest_e8
  by unfold_locales (simp_all add: nearest_e8_in nearest_e8_minimal)

section \<open>Keys\<close>

lemma in_E8_half_integer:
  assumes "in_E8 q"
  obtains ks :: "int list" where "q = map (\<lambda>k. of_int k / 2) ks"
proof -
  from assms consider f where "q = map of_int (f :: int list)"
    | f where "map (\<lambda>v. v - 1 / 2) q = map of_int (f :: int list)"
    by (auto simp: in_E8_def in_Dn_def)
  then show thesis
  proof cases
    case 1
    then have "q = map (\<lambda>k. of_int k / 2) (map (\<lambda>k. 2 * k) f)" by (simp add: comp_def)
    then show ?thesis by (rule that)
  next
    case 2
    have "q = map (\<lambda>v. v + 1 / 2) (map (\<lambda>v. v - 1 / 2) q)" by (simp add: comp_def)
    also have "\<dots> = map (\<lambda>k. of_int k / 2) (map (\<lambda>k. 2 * k + 1) f)"
      unfolding 2 by (simp add: comp_def add_divide_distrib)
    finally show ?thesis by (rule that)
  qed
qed

lemma key_recovers:
  assumes "in_E8 q"
  shows "map (\<lambda>k. of_int k / 2) (map (\<lambda>a. np_round (a * 2)) q) = q"
proof -
  obtain ks :: "int list" where q: "q = map (\<lambda>k. of_int k / 2) ks" using assms by (rule in_E8_half_integer)
  show ?thesis by (simp add: q comp_def)
qed

section \<open>The residual loop\<close>

lemma length_rows [simp]:
  "length (scale_row c v) = length v" "length u = length v \<Longrightarrow> length (add_rows u v) = length v"
  "length u = length v \<Longrightarrow> length (sub_rows u v) = length v"
  by (simp_all add: scale_row_def add_rows_def sub_rows_def)

lemma add_sub_rows:
  "length r = length v \<Longrightarrow> length q = length v \<Longrightarrow>
    add_rows (add_rows r q) (sub_rows v q) = add_rows r v"
  by (auto intro!: nth_equalityI simp: add_rows_def sub_rows_def)

lemma add_rows_zero: "add_rows (replicate (length v) 0) v = v"
  by (auto intro!: nth_equalityI simp: add_rows_def)

text \<open>The point a stage's keys stand for.\<close>

definition key_point :: "int list \<Rightarrow> rat \<Rightarrow> rat list" where
  "key_point ks sc = map (\<lambda>k. of_int k / 2 * sc) ks"

lemma e8_stages:
  assumes "length recon = n" and "length residual = n"
  shows "\<exists>recon' residual' ks. foldl e8_stage (recon, residual, keys) scales = (recon', residual', keys @ ks) \<and>
    length ks = length scales \<and> length recon' = n \<and> length residual' = n \<and>
    add_rows recon' residual' = add_rows recon residual \<and>
    (\<forall>k \<in> set ks. length k = n) \<and>
    recon' = foldl add_rows recon (map2 key_point ks scales)"
  using assms
proof (induction scales arbitrary: recon residual keys)
  case (Cons sc scales)
  let ?q = "nearest_e8 (map (\<lambda>a. a / sc) residual)"
  let ?k = "map (\<lambda>a. np_round (a * 2)) ?q"
  let ?recon = "add_rows recon (scale_row sc ?q)" and ?residual = "sub_rows residual (scale_row sc ?q)"
  have lq: "length ?q = n" using Cons.prems by simp
  have stage: "e8_stage (recon, residual, keys) sc = (?recon, ?residual, keys @ [?k])"
    by (simp add: e8_stage_def Let_def)
  have kp: "key_point ?k sc = scale_row sc ?q"
  proof -
    have "key_point ?k sc = map (\<lambda>a. a * sc) (map (\<lambda>k. of_int k / 2) ?k)"
      unfolding key_point_def map_map comp_def ..
    then show ?thesis by (simp only: key_recovers [OF nearest_e8_in] scale_row_def)
  qed
  obtain recon' residual' ks where IH:
    "foldl e8_stage (?recon, ?residual, keys @ [?k]) scales = (recon', residual', (keys @ [?k]) @ ks)"
    "length ks = length scales" "length recon' = n" "length residual' = n"
    "add_rows recon' residual' = add_rows ?recon ?residual" "\<forall>k \<in> set ks. length k = n"
    "recon' = foldl add_rows ?recon (map2 key_point ks scales)"
    using Cons.IH [of ?recon ?residual "keys @ [?k]"] Cons.prems lq by auto
  have "add_rows ?recon ?residual = add_rows recon residual"
    using Cons.prems lq by (intro add_sub_rows) simp_all
  with IH stage kp lq show ?case
    by (intro exI [of _ recon'] exI [of _ residual'] exI [of _ "?k # ks"]) simp
qed simp

lemma foldl_add_rows_zero:
  assumes "p \<noteq> []" and "\<forall>v \<in> set p. length v = n"
  shows "foldl add_rows (replicate n 0) p = foldl add_rows (hd p) (tl p)"
  using assms add_rows_zero [of "hd p"] by (cases p) auto

lemma e8_quantize_row_correct:
  assumes "scales \<noteq> []"
  shows "\<exists>recon residual keys. e8_quantize_row v scales = (recon, residual, keys) \<and>
    length keys = length scales \<and> length recon = length v \<and> length residual = length v \<and>
    add_rows recon residual = v \<and> e8_decode_row keys scales = recon"
proof -
  obtain recon residual ks where run:
    "e8_quantize_row v scales = (recon, residual, ks)"
    "length ks = length scales" "length recon = length v" "length residual = length v"
    "add_rows recon residual = add_rows (replicate (length v) 0) v" "\<forall>k \<in> set ks. length k = length v"
    "recon = foldl add_rows (replicate (length v) 0) (map2 key_point ks scales)"
    using e8_stages [of "replicate (length v) 0" "length v" v "[]" scales]
    by (auto simp: e8_quantize_row_def)
  let ?p = "map2 key_point ks scales"
  have ne: "?p \<noteq> []" using assms run(2) by (cases ks; cases scales) auto
  have "\<forall>p \<in> set ?p. length p = length v"
    using run(6) by (auto simp: key_point_def dest: set_zip_leftD)
  then have "recon = foldl add_rows (hd ?p) (tl ?p)"
    using run(7) foldl_add_rows_zero [OF ne] by simp
  moreover have "e8_decode_row ks scales = foldl add_rows (hd ?p) (tl ?p)"
    using ne by (cases ?p) (simp_all add: e8_decode_row_def key_point_def)
  ultimately show ?thesis using run add_rows_zero by auto
qed

section \<open>Properties\<close>

text \<open>C4: \<open>nearest_e8\<close> is a nearest-point search for the E8 lattice: the point it returns is in D8
  or in D8 shifted by one half, no lattice point is closer, and lattice points are left where they
  are. (The same holds of \<open>_nearest_Dn\<close> for the even-sum integer vectors.)\<close>

theorem nearest_e8_optimal:
  "in_E8 (nearest_e8 x) \<and> length (nearest_e8 x) = length x \<and>
   (\<forall>y. length y = length x \<and> in_E8 y \<longrightarrow> dist2 x (nearest_e8 x) \<le> dist2 x y) \<and>
   (in_E8 x \<longrightarrow> nearest_e8 x = x) \<and>
   in_Dn (nearest_Dn x) \<and> (\<forall>y. length y = length x \<and> in_Dn y \<longrightarrow> dist2 x (nearest_Dn x) \<le> dist2 x y)"
  using E8.near_lattice E8.near_length E8.near_minimal E8.near_fixed Dn.near_lattice Dn.near_minimal
  by blast

theorem nearest_e8_optimal_witness:
  "nearest_e8 [1/2, 1/2, 1/2, 1/2, 1/2, 1/2, 1/2, 1/2] = [1/2, 1/2, 1/2, 1/2, 1/2, 1/2, 1/2, 1/2]"
proof -
  have "map (\<lambda>v. v - 1 / 2) [1/2, 1/2, 1/2, 1/2, 1/2, 1/2, 1/2, 1/2 :: rat] = map of_int [0, 0, 0, 0, 0, 0, 0, 0 :: int]"
    by simp
  moreover have "even (sum_list [0, 0, 0, 0, 0, 0, 0, 0 :: int])" by simp
  ultimately have "in_E8 [1/2, 1/2, 1/2, 1/2, 1/2, 1/2, 1/2, 1/2]"
    unfolding in_E8_def in_Dn_def by blast
  then show ?thesis using nearest_e8_optimal by blast
qed

text \<open>the residual E8 code is exact: after any list of scales the reconstruction plus the
  remaining residual is the input row; one integer key per coordinate and stage is produced; and
  decoding the keys gives the encoder's reconstruction, for whole matrices and through the
  rotation as well (\<open>e8_decode\<close> of \<open>e8_encode\<close>'s keys is \<open>e8_encode\<close>'s result).\<close>

theorem e8_roundtrip_exact:
  assumes "scales \<noteq> []" and "e8_encode R W scales = (recon, keys)"
  shows "e8_decode R keys scales (length (concat W)) = recon \<and>
    (\<forall>v. add_rows (fst (e8_quantize_row v scales)) (fst (snd (e8_quantize_row v scales))) = v \<and>
         length (snd (snd (e8_quantize_row v scales))) = length scales)"
proof -
  have row: "e8_decode_row (snd (snd (e8_quantize_row v scales))) scales = fst (e8_quantize_row v scales)" for v
    using e8_quantize_row_correct [OF assms(1), of v] by auto
  obtain vecs numel where vecs: "to_vectors W = (vecs, numel)" by (cases "to_vectors W")
  then have n: "numel = length (concat W)" by (auto simp: to_vectors_def Let_def)
  let ?rows = "map (\<lambda>v. e8_quantize_row v scales) (map (\<lambda>v. vec_mat v R) vecs)"
  have keys: "keys = map (\<lambda>r. snd (snd r)) ?rows"
    and recon: "recon = take numel (concat (map (\<lambda>v. vec_mat v (transposed R)) (map fst ?rows)))"
    using assms(2) by (auto simp: e8_encode_def vecs e8_quantize_raw_def Let_def)
  have "map (\<lambda>ks. vec_mat (e8_decode_row ks scales) (transposed R)) keys =
      map (\<lambda>v. vec_mat v (transposed R)) (map fst ?rows)"
    unfolding keys map_map comp_def row ..
  then have "e8_decode R keys scales (length (concat W)) = recon"
    by (simp only: e8_decode_def recon n)
  moreover have "add_rows (fst (e8_quantize_row v scales)) (fst (snd (e8_quantize_row v scales))) = v \<and>
      length (snd (snd (e8_quantize_row v scales))) = length scales" for v
    using e8_quantize_row_correct [OF assms(1), of v] by auto
  ultimately show ?thesis by blast
qed

theorem e8_roundtrip_exact_witness:
  "\<exists>recon keys. e8_encode [[1, 0], [0, 1]] [[3/4, 1/4], [2, 1/3]] [1/2, 1/8] = (recon, keys) \<and>
    e8_decode [[1, 0], [0, 1]] keys [1/2, 1/8] (length (concat [[3/4, 1/4], [2, 1/3 :: rat]])) = recon"
proof -
  obtain recon keys where e: "e8_encode [[1, 0], [0, 1]] [[3/4, 1/4], [2, 1/3]] [1/2, 1/8] = (recon, keys)"
    by (cases "e8_encode [[1, 0], [0, 1]] [[3/4, 1/4], [2, 1/3]] [1/2, 1/8]") auto
  show ?thesis using e e8_roundtrip_exact [OF _ e] by blast
qed

end
