(* ===== verification/Trellis.thy ===== *)
theory Trellis
  imports Numerics
begin

text \<open>
  \<open>orka/quant/trellis.py\<close>: trellis-coded quantisation. Torch runs the Viterbi recursion for all
  rows at once and each row on its own, so the model is one row. The levels are a parameter (they
  depend on the standard deviation, a square root); weights, levels and costs are rationals.
\<close>

definition SUBSET :: "nat list list" where "SUBSET = [[0, 2], [1, 3], [2, 0], [3, 1]]"
definition NEXT :: "nat list list" where "NEXT = [[0, 1], [2, 3], [1, 0], [3, 2]]"
definition TCQ_INF :: rat where "TCQ_INF = 10 ^ 30"

text \<open>\<open>torch.arange(nlev) * step - limit\<close>\<close>

definition uniform_levels :: "nat \<Rightarrow> rat \<Rightarrow> rat list" where
  "uniform_levels R limit =
     (let nlev = 2 ^ (R + 1); stepw = 2 * limit / of_nat (nlev - 1)
      in map (\<lambda>i. of_nat i * stepw - limit) [0..<nlev])"

text \<open>The members of a subset, and the best of them for a weight: \<open>dist.min(0)\<close> is the first minimum.\<close>

definition members :: "rat list \<Rightarrow> nat \<Rightarrow> nat list" where
  "members levels s = filter (\<lambda>i. i mod 4 = s) [0..<length levels]"

definition level_cost :: "rat list \<Rightarrow> rat \<Rightarrow> nat \<Rightarrow> rat" where
  "level_cost levels w i = (w - levels ! i) ^ 2"

definition best_level :: "rat list \<Rightarrow> nat \<Rightarrow> rat \<Rightarrow> nat" where
  "best_level levels s w = arg_min_list (level_cost levels w) (members levels s)"

definition subset_cost :: "rat list \<Rightarrow> nat \<Rightarrow> rat \<Rightarrow> rat" where
  "subset_cost levels s w = level_cost levels w (best_level levels s w)"

section \<open>The forward pass\<close>

type_synonym backpointers = "(nat \<times> nat) list"

text \<open>Relaxing one branch: keep the strictly better cost and remember its source and subset.\<close>

definition relax :: "rat list \<Rightarrow> rat list \<Rightarrow> rat \<Rightarrow> rat list \<times> backpointers \<Rightarrow> nat \<times> nat \<Rightarrow> rat list \<times> backpointers" where
  "relax levels pc w st edge =
     (case st of (npc, bp) \<Rightarrow> case edge of (s, b) \<Rightarrow>
        (let ns = NEXT ! s ! b; ss = SUBSET ! s ! b; cand = pc ! s + subset_cost levels ss w
         in if cand < npc ! ns then (npc[ns := cand], bp[ns := (s, ss)]) else (npc, bp)))"

definition EDGES :: "(nat \<times> nat) list" where
  "EDGES = concat (map (\<lambda>s. map (\<lambda>b. (s, b)) [0..<2]) [0..<4])"

definition forward_step ::
  "rat list \<Rightarrow> rat list \<times> backpointers list \<Rightarrow> rat \<Rightarrow> rat list \<times> backpointers list" where
  "forward_step levels st w =
     (case st of (pc, bps) \<Rightarrow>
        (let (npc, bp) = foldl (relax levels pc w) (replicate 4 TCQ_INF, replicate 4 (0, 0)) EDGES
         in (npc, bps @ [bp])))"

definition forward :: "rat list \<Rightarrow> rat list \<Rightarrow> rat list \<times> backpointers list" where
  "forward levels ws = foldl (forward_step levels) ([0, TCQ_INF, TCQ_INF, TCQ_INF], []) ws"

section \<open>The traceback\<close>

text \<open>From the last position to the first: the level chosen there and the state before it.\<close>

fun traceback :: "rat list \<Rightarrow> (backpointers \<times> rat) list \<Rightarrow> nat \<Rightarrow> nat list" where
  "traceback levels [] st = []"
| "traceback levels ((bp, w) # earlier) st =
     traceback levels earlier (fst (bp ! st)) @ [best_level levels (snd (bp ! st)) w]"

definition tcq_encode :: "rat list \<Rightarrow> rat list \<Rightarrow> nat list" where
  "tcq_encode levels ws =
     (let (pc, bps) = forward levels ws
      in traceback levels (rev (zip bps ws)) (arg_min_list (\<lambda>s. pc ! s) [0..<4]))"

definition tcq_decode :: "rat list \<Rightarrow> nat list \<Rightarrow> rat list" where
  "tcq_decode levels level_idx = map (\<lambda>i. levels ! i) level_idx"

section \<open>Trellis paths\<close>

text \<open>
  What the decoder accepts: \<open>trellis s ws is s'\<close> holds when the level indices \<open>is\<close> follow the
  trellis from state \<open>s\<close> to state \<open>s'\<close>, one level for each weight.
\<close>

inductive trellis :: "nat \<Rightarrow> nat list \<Rightarrow> nat \<Rightarrow> bool" where
  start: "trellis 0 [] 0"
| branch: "trellis 0 is s \<Longrightarrow> b < 2 \<Longrightarrow> i mod 4 = SUBSET ! s ! b \<Longrightarrow> trellis 0 (is @ [i]) (NEXT ! s ! b)"

inductive_cases trellis_snocE: "trellis 0 (is @ [i]) s"
inductive_cases trellis_NilE: "trellis 0 [] s"

definition path_cost :: "rat list \<Rightarrow> rat list \<Rightarrow> nat list \<Rightarrow> rat" where
  "path_cost levels ws is = (\<Sum>(w, i)\<leftarrow>zip ws is. level_cost levels w i)"

lemma trellis_state: "trellis s0 is s \<Longrightarrow> s0 = 0 \<and> s < 4"
proof (induction rule: trellis.induct)
  case (branch "is" s b i)
  then have "s < 4" by simp
  then have "s = 0 \<or> s = 1 \<or> s = 2 \<or> s = 3" by linarith
  with branch(2) show ?case by (auto simp: NEXT_def less_2_cases_iff)
qed simp

lemma edge_ranges:
  assumes "s < 4" and "b < 2"
  shows "NEXT ! s ! b < 4" and "SUBSET ! s ! b < 4" and "(s, b) \<in> set EDGES"
proof -
  have "s = 0 \<or> s = 1 \<or> s = 2 \<or> s = 3" "b = 0 \<or> b = 1" using assms by linarith+
  then show "NEXT ! s ! b < 4" "SUBSET ! s ! b < 4" by (auto simp: NEXT_def SUBSET_def)
  show "(s, b) \<in> set EDGES" using assms by (force simp: EDGES_def)
qed

lemma set_EDGES: "set EDGES = {(s, b). s < 4 \<and> b < 2}"
  by (auto simp: EDGES_def)

text \<open>A level of the subset is never cheaper than the best one.\<close>

lemma best_level_member:
  assumes "4 \<le> length levels" and "s < 4"
  shows "best_level levels s w mod 4 = s" and "best_level levels s w < length levels"
proof -
  have "s \<in> set (members levels s)" using assms by (simp add: members_def)
  then have "members levels s \<noteq> []" by auto
  then have "best_level levels s w \<in> set (members levels s)"
    unfolding best_level_def by (rule arg_min_list_in)
  then show "best_level levels s w mod 4 = s" "best_level levels s w < length levels"
    by (simp_all add: members_def)
qed

lemma subset_cost_le:
  assumes "i < length levels" and "i mod 4 = s"
  shows "subset_cost levels s w \<le> level_cost levels w i"
proof -
  have i: "i \<in> set (members levels s)" using assms by (simp add: members_def)
  then have "members levels s \<noteq> []" by auto
  then have "subset_cost levels s w = Min (level_cost levels w ` set (members levels s))"
    unfolding subset_cost_def best_level_def by (rule f_arg_min_list_f)
  with i show ?thesis by simp
qed

section \<open>One step of the recursion\<close>

text \<open>
  After relaxing some branches, the cost at a state is at most the cost of each of them, and it is
  either still infinite or the cost of the branch its backpointer names.
\<close>

definition relaxed :: "rat list \<Rightarrow> rat list \<Rightarrow> rat \<Rightarrow> (nat \<times> nat) set \<Rightarrow> rat list \<times> backpointers \<Rightarrow> bool" where
  "relaxed levels pc w E st \<longleftrightarrow>
     (case st of (npc, bp) \<Rightarrow> length npc = 4 \<and> length bp = 4 \<and>
        (\<forall>(s, b) \<in> E. npc ! (NEXT ! s ! b) \<le> pc ! s + subset_cost levels (SUBSET ! s ! b) w) \<and>
        (\<forall>ns < 4. npc ! ns = TCQ_INF \<or>
           (\<exists>s b. s < 4 \<and> b < 2 \<and> NEXT ! s ! b = ns \<and> bp ! ns = (s, SUBSET ! s ! b) \<and>
              npc ! ns = pc ! s + subset_cost levels (SUBSET ! s ! b) w)))"

lemma relax_ok:
  assumes "relaxed levels pc w E st" and "s < 4" and "b < 2"
  shows "relaxed levels pc w (insert (s, b) E) (relax levels pc w st (s, b))"
proof -
  obtain npc bp where st: "st = (npc, bp)" by (cases st)
  let ?ns = "NEXT ! s ! b" and ?c = "pc ! s + subset_cost levels (SUBSET ! s ! b) w"
  have ns: "?ns < 4" using assms edge_ranges by blast
  show ?thesis
  proof (cases "?c < npc ! ?ns")
    case False
    then show ?thesis using assms(1) by (auto simp: relaxed_def relax_def st Let_def not_less)
  next
    case True
    have len: "length npc = 4" "length bp = 4" using assms(1) by (auto simp: relaxed_def st)
    have le: "npc[?ns := ?c] ! k \<le> npc ! k" for k
      using True len ns by (cases "k = ?ns") auto
    have "\<forall>(s', b') \<in> insert (s, b) E.
        npc[?ns := ?c] ! (NEXT ! s' ! b') \<le> pc ! s' + subset_cost levels (SUBSET ! s' ! b') w"
    proof (rule ballI, clarify)
      fix s' b' assume "(s', b') \<in> insert (s, b) E"
      then consider "(s', b') = (s, b)" | "(s', b') \<in> E" by blast
      then show "npc[?ns := ?c] ! (NEXT ! s' ! b') \<le> pc ! s' + subset_cost levels (SUBSET ! s' ! b') w"
      proof cases
        case 1
        then show ?thesis using len ns by simp
      next
        case 2
        then have "npc ! (NEXT ! s' ! b') \<le> pc ! s' + subset_cost levels (SUBSET ! s' ! b') w"
          using assms(1) by (auto simp: relaxed_def st)
        then show ?thesis using le order_trans by blast
      qed
    qed
    moreover have "npc[?ns := ?c] ! k = TCQ_INF \<or>
        (\<exists>s' b'. s' < 4 \<and> b' < 2 \<and> NEXT ! s' ! b' = k \<and> bp[?ns := (s, SUBSET ! s ! b)] ! k = (s', SUBSET ! s' ! b') \<and>
          npc[?ns := ?c] ! k = pc ! s' + subset_cost levels (SUBSET ! s' ! b') w)" if "k < 4" for k
    proof (cases "k = ?ns")
      case True
      then show ?thesis using len ns assms(2,3) by (intro disjI2 exI [of _ s] exI [of _ b]) simp
    next
      case False
      then show ?thesis using assms(1) that by (auto simp: relaxed_def st)
    qed
    moreover have "relax levels pc w st (s, b) = (npc[?ns := ?c], bp[?ns := (s, SUBSET ! s ! b)])"
      using True by (simp add: relax_def st Let_def)
    ultimately show ?thesis by (simp add: relaxed_def len)
  qed
qed

lemma relax_all:
  assumes "relaxed levels pc w E st" and "\<forall>(s, b) \<in> set es. s < 4 \<and> b < 2"
  shows "relaxed levels pc w (E \<union> set es) (foldl (relax levels pc w) st es)"
  using assms
proof (induction es arbitrary: st E)
  case (Cons e es)
  obtain s b where e: "e = (s, b)" by (cases e)
  have "relaxed levels pc w (insert (s, b) E) (relax levels pc w st (s, b))"
    using Cons.prems e by (intro relax_ok) auto
  then have "relaxed levels pc w (insert (s, b) E \<union> set es) (foldl (relax levels pc w) (relax levels pc w st (s, b)) es)"
    using Cons.prems(2) by (intro Cons.IH) auto
  then show ?case by (simp add: e)
qed simp

lemma forward_step_relaxed:
  obtains npc bp where "forward_step levels (pc, bps) w = (npc, bps @ [bp])"
    and "relaxed levels pc w {(s, b). s < 4 \<and> b < 2} (npc, bp)"
proof -
  have "relaxed levels pc w {} (replicate 4 TCQ_INF, replicate 4 (0, 0))" by (simp add: relaxed_def)
  then have "relaxed levels pc w ({} \<union> set EDGES)
      (foldl (relax levels pc w) (replicate 4 TCQ_INF, replicate 4 (0, 0)) EDGES)"
    by (rule relax_all) (simp add: set_EDGES)
  then show thesis
    using that by (cases "foldl (relax levels pc w) (replicate 4 TCQ_INF, replicate 4 (0, 0)) EDGES")
      (auto simp: forward_step_def set_EDGES)
qed

section \<open>Optimality\<close>

lemma path_cost_snoc:
  "length ws = length is \<Longrightarrow> path_cost levels (ws @ [w]) (is @ [i]) = path_cost levels ws is + level_cost levels w i"
  by (simp add: path_cost_def)

lemma trellis_length_snoc: "trellis 0 is s \<Longrightarrow> length is = Suc n \<Longrightarrow>
    \<exists>is' i s' b. is = is' @ [i] \<and> trellis 0 is' s' \<and> b < 2 \<and> i mod 4 = SUBSET ! s' ! b \<and> s = NEXT ! s' ! b"
  by (erule trellis.cases) auto

text \<open>
  The invariant of the forward pass over the weights \<open>ws\<close>: the cost of a state bounds every path
  that ends there from below, and a finite cost is the cost of the path its backpointers spell.
\<close>

definition viterbi_inv :: "rat list \<Rightarrow> rat list \<Rightarrow> rat list \<times> backpointers list \<Rightarrow> bool" where
  "viterbi_inv levels ws st \<longleftrightarrow>
     (case st of (pc, bps) \<Rightarrow> length pc = 4 \<and> length bps = length ws \<and>
        (\<forall>is s. trellis 0 is s \<longrightarrow> length is = length ws \<longrightarrow> (\<forall>i \<in> set is. i < length levels) \<longrightarrow>
           pc ! s \<le> path_cost levels ws is) \<and>
        (\<forall>s < 4. pc ! s < TCQ_INF \<longrightarrow>
           (let is = traceback levels (rev (zip bps ws)) s
            in trellis 0 is s \<and> length is = length ws \<and> (\<forall>i \<in> set is. i < length levels) \<and>
               path_cost levels ws is = pc ! s)))"

lemma subset_cost_nonneg: "0 \<le> subset_cost levels s w"
  by (simp add: subset_cost_def level_cost_def)

lemma viterbi_step:
  assumes inv: "viterbi_inv levels ws (pc, bps)" and lev: "4 \<le> length levels"
  shows "viterbi_inv levels (ws @ [w]) (forward_step levels (pc, bps) w)"
proof -
  obtain npc bp where step: "forward_step levels (pc, bps) w = (npc, bps @ [bp])"
    and rel: "relaxed levels pc w {(s, b). s < 4 \<and> b < 2} (npc, bp)"
    by (rule forward_step_relaxed)
  have lens: "length pc = 4" "length bps = length ws" using inv by (simp_all add: viterbi_inv_def)
  have lower: "npc ! s \<le> path_cost levels (ws @ [w]) is"
    if p: "trellis 0 is s" "length is = length (ws @ [w])" "\<forall>i \<in> set is. i < length levels" for "is" s
  proof -
    obtain is' i s' b where is': "is = is' @ [i]" "trellis 0 is' s'" "b < 2" "i mod 4 = SUBSET ! s' ! b" "s = NEXT ! s' ! b"
      using trellis_length_snoc [OF p(1), of "length ws"] p(2) by auto
    have s': "s' < 4" using trellis_state [OF is'(2)] by simp
    have "pc ! s' \<le> path_cost levels ws is'"
      using inv is' p by (auto simp: viterbi_inv_def)
    moreover have "subset_cost levels (SUBSET ! s' ! b) w \<le> level_cost levels w i"
      using is' p(3) by (intro subset_cost_le) auto
    moreover have "npc ! s \<le> pc ! s' + subset_cost levels (SUBSET ! s' ! b) w"
      using rel is' s' by (auto simp: relaxed_def)
    moreover have "path_cost levels (ws @ [w]) is = path_cost levels ws is' + level_cost levels w i"
      using is' p(2) by (simp add: path_cost_snoc)
    ultimately show ?thesis by linarith
  qed
  have upper: "let is = traceback levels (rev (zip (bps @ [bp]) (ws @ [w]))) s
      in trellis 0 is s \<and> length is = length (ws @ [w]) \<and> (\<forall>i \<in> set is. i < length levels) \<and>
         path_cost levels (ws @ [w]) is = npc ! s" if p: "s < 4" "npc ! s < TCQ_INF" for s
  proof -
    obtain s' b where e: "s' < 4" "b < 2" "NEXT ! s' ! b = s" "bp ! s = (s', SUBSET ! s' ! b)"
      "npc ! s = pc ! s' + subset_cost levels (SUBSET ! s' ! b) w"
      using rel p by (auto simp: relaxed_def)
    have "pc ! s' < TCQ_INF" using e(5) p(2) subset_cost_nonneg [of levels "SUBSET ! s' ! b" w] by linarith
    then have prev: "let is = traceback levels (rev (zip bps ws)) s'
        in trellis 0 is s' \<and> length is = length ws \<and> (\<forall>i \<in> set is. i < length levels) \<and>
           path_cost levels ws is = pc ! s'"
      using inv e(1) by (simp add: viterbi_inv_def)
    let ?i = "best_level levels (SUBSET ! s' ! b) w"
    have i: "?i mod 4 = SUBSET ! s' ! b" "?i < length levels"
      using best_level_member [OF lev edge_ranges(2) [OF e(1,2)]] by blast+
    have tb: "traceback levels (rev (zip (bps @ [bp]) (ws @ [w]))) s =
        traceback levels (rev (zip bps ws)) s' @ [?i]"
      using lens e(4) by simp
    have "trellis 0 (traceback levels (rev (zip bps ws)) s' @ [?i]) s"
      using prev branch [OF _ e(2) i(1)] e(3) by (auto simp: Let_def)
    then show ?thesis
      unfolding tb using prev i e(5) by (auto simp: Let_def path_cost_snoc subset_cost_def)
  qed
  have "length npc = 4" using rel by (simp add: relaxed_def)
  then show ?thesis
    unfolding step viterbi_inv_def using lower upper lens by simp
qed

lemma viterbi_all:
  assumes "viterbi_inv levels ws st" and "4 \<le> length levels"
  shows "viterbi_inv levels (ws @ vs) (foldl (forward_step levels) st vs)"
  using assms(1)
proof (induction vs arbitrary: ws st)
  case (Cons v vs)
  have "viterbi_inv levels (ws @ [v]) (forward_step levels st v)"
    using viterbi_step [OF _ assms(2)] Cons.prems by (cases st) auto
  then show ?case using Cons.IH [of "ws @ [v]"] by simp
qed simp

lemma viterbi_start: "viterbi_inv levels [] ([0, TCQ_INF, TCQ_INF, TCQ_INF], [])"
proof -
  have "[0, TCQ_INF, TCQ_INF, TCQ_INF] ! s \<le> 0" if "trellis 0 [] s" for s
    using that by (auto elim: trellis_NilE)
  moreover have "s = 0" if "s < 4" "[0, TCQ_INF, TCQ_INF, TCQ_INF] ! s < TCQ_INF" for s
  proof -
    have "s = 0 \<or> s = 1 \<or> s = 2 \<or> s = 3" using that(1) by linarith
    with that(2) show ?thesis by auto
  qed
  ultimately show ?thesis
    by (fastforce simp: viterbi_inv_def path_cost_def intro: trellis.start)
qed

section \<open>Properties\<close>

text \<open>C3: \<open>tcq_encode\<close> is optimal: whenever some level sequence that follows the trellis has a
  squared error below the code's infinity of \<open>10 ^ 30\<close>, the encoder's sequence follows the trellis
  itself, uses existing levels, has one level per weight, and no sequence that follows the trellis
  has a smaller squared error; that error is the squared distance of the decoded row.\<close>

theorem tcq_encode_optimal:
  assumes lev: "4 \<le> length levels"
    and path: "trellis 0 is s" "length is = length ws" "\<forall>i \<in> set is. i < length levels"
    and finite: "path_cost levels ws is < TCQ_INF"
  defines "out \<equiv> tcq_encode levels ws"
  shows "(\<exists>s'. trellis 0 out s') \<and> length out = length ws \<and> (\<forall>i \<in> set out. i < length levels) \<and>
    path_cost levels ws out = dist2 ws (tcq_decode levels out) \<and>
    path_cost levels ws out \<le> path_cost levels ws is"
proof -
  obtain pc bps where fw: "forward levels ws = (pc, bps)" by (cases "forward levels ws")
  have inv: "viterbi_inv levels ws (pc, bps)"
    using viterbi_all [OF viterbi_start lev, of ws] fw by (simp add: forward_def)
  let ?s = "arg_min_list (\<lambda>s. pc ! s) [0..<4]"
  have s4: "?s < 4" using arg_min_list_in [of "[0..<4]" "\<lambda>s. pc ! s"] by simp
  have "s < 4" using trellis_state [OF path(1)] by simp
  then have "pc ! ?s \<le> pc ! s" using f_arg_min_list_f [of "[0..<4]" "\<lambda>s. pc ! s"] by simp
  moreover have "pc ! s \<le> path_cost levels ws is" using inv path by (auto simp: viterbi_inv_def)
  ultimately have le: "pc ! ?s \<le> path_cost levels ws is" by linarith
  then have "pc ! ?s < TCQ_INF" using finite by linarith
  moreover have "out = traceback levels (rev (zip bps ws)) ?s" by (simp add: out_def tcq_encode_def fw)
  ultimately have out: "trellis 0 out ?s" "length out = length ws" "\<forall>i \<in> set out. i < length levels"
    "path_cost levels ws out = pc ! ?s"
    using inv s4 by (auto simp: viterbi_inv_def Let_def)
  have "path_cost levels ws out = dist2 ws (tcq_decode levels out)"
    unfolding path_cost_def dist2_def tcq_decode_def level_cost_def zip_map2
    by (auto simp: comp_def case_prod_beta intro!: arg_cong [of _ _ sum_list])
  with out le show ?thesis by auto
qed

theorem tcq_encode_optimal_witness:
  "path_cost (uniform_levels 1 3) [1/2, -2] (tcq_encode (uniform_levels 1 3) [1/2, -2])
    \<le> path_cost (uniform_levels 1 3) [1/2, -2] [2, 1]"
proof (rule tcq_encode_optimal [THEN conjunct2, THEN conjunct2, THEN conjunct2, THEN conjunct2])
  have "trellis 0 ([] @ [2]) (NEXT ! 0 ! 1)" by (rule branch [OF start]) (simp_all add: SUBSET_def)
  then have "trellis 0 ([2] @ [1]) (NEXT ! 1 ! 0)"
    using branch [of "[2]" 1 0 1] by (simp add: NEXT_def SUBSET_def)
  then show "trellis 0 [2, 1] 2" by (simp add: NEXT_def)
qed (simp_all add: uniform_levels_def path_cost_def level_cost_def TCQ_INF_def power2_eq_square)

end
