(* ===== verification/Autoquant.thy ===== *)
theory Autoquant
  imports Quant_Spec Names Numerics
begin

text \<open>
  \<open>orka/autoquant\<close>: the deterministic policy and the closed refinement loop: \<open>schema.py\<close>,
  \<open>priors.py\<close>, \<open>probes.py\<close>, \<open>policy.py\<close>, \<open>validation.py\<close>, \<open>escalation.py\<close>, \<open>orchestrator.py\<close>,
  \<open>harness.py\<close> (its result) and \<open>refine.py\<close>.

  The measurement of a tensor at a bit width (a logarithm of a power ratio) is a parameter, as are
  the language model, the packer, the quality measurement and the hash of a signature. A dictionary
  keyed by tensor name is an association list in insertion order.
\<close>

section \<open>Configurations\<close>

record tensor_config =
  quant_method :: string
  bits :: nat
  stages :: nat
  normalization :: string
  keep_fp16 :: bool
  source :: string
  confidence :: rat
  rationale :: string

record packer_entry =
  pe_spec :: string
  pe_stages :: "nat list"
  pe_bpw :: rat
  pe_normalization :: string

record dense_entry =
  de_method :: string
  de_keep_fp16 :: bool

record packer_allocation =
  pa_group_size :: nat
  pa_tensors :: "(string \<times> packer_entry) list"
  pa_dense :: "(string \<times> dense_entry) list"

definition config_spec :: "tensor_config \<Rightarrow> string" where
  "config_spec c =
     (if stages c = 1 then ''vq-'' @ nat_str (bits c)
      else ''rvq-'' @ py_join (CHR ''-'') (replicate (stages c) (nat_str (bits c))))"

definition packer_entry_of :: "nat \<Rightarrow> tensor_config \<Rightarrow> packer_entry" where
  "packer_entry_of g c =
     \<lparr>pe_spec = config_spec c, pe_stages = replicate (stages c) (push_bit (bits c) 1),
      pe_bpw = of_nat (bits c * stages c) / of_nat g, pe_normalization = normalization c\<rparr>"

definition to_packer_allocation :: "(string \<times> tensor_config) list \<Rightarrow> nat \<Rightarrow> packer_allocation" where
  "to_packer_allocation cfgs g =
     \<lparr>pa_group_size = g,
      pa_tensors = map (\<lambda>(nm, c). (nm, packer_entry_of g c)) (filter (\<lambda>(nm, c). quant_method c = ''rvq'') cfgs),
      pa_dense = map (\<lambda>(nm, c). (nm, \<lparr>de_method = quant_method c, de_keep_fp16 = keep_fp16 c\<rparr>))
        (filter (\<lambda>(nm, c). quant_method c \<noteq> ''rvq'') cfgs)\<rparr>"

section \<open>Priors\<close>

definition SQNR_TARGET_DB :: rat where "SQNR_TARGET_DB = 30"

record prior =
  pr_method :: string
  allow_rvq :: bool
  pr_confidence :: rat
  extra_stage :: bool

definition prior_of :: "string \<Rightarrow> bool \<Rightarrow> rat \<Rightarrow> bool \<Rightarrow> prior" where
  "prior_of m a c x = \<lparr>pr_method = m, allow_rvq = a, pr_confidence = c, extra_stage = x\<rparr>"

definition ROLE_PRIORS :: "(string \<times> prior) list" where
  "ROLE_PRIORS =
     [(''out-head'', prior_of ''int8'' False 1 False),
      (''in-embed'', prior_of ''rvq'' True (8 / 10) False),
      (''norm'', prior_of ''fp16'' False 1 False),
      (''bias'', prior_of ''fp16'' False 1 False),
      (''attn.q'', prior_of ''rvq'' True (7 / 10) False),
      (''attn.k'', prior_of ''rvq'' True (7 / 10) False),
      (''attn.v'', prior_of ''rvq'' True (6 / 10) True),
      (''attn.o'', prior_of ''rvq'' True (7 / 10) False),
      (''mlp.up'', prior_of ''rvq'' True (7 / 10) False),
      (''mlp.gate'', prior_of ''rvq'' True (7 / 10) False),
      (''mlp.down'', prior_of ''rvq'' True (6 / 10) True),
      (''conv.in'', prior_of ''rvq'' True (7 / 10) False),
      (''conv.out'', prior_of ''rvq'' True (6 / 10) True),
      (''conv.depthwise'', prior_of ''fp16'' False (9 / 10) False),
      (''unknown'', prior_of ''fp16'' False 0 False)]"

definition role_prior :: "string \<Rightarrow> prior" where
  "role_prior role =
     (case map_of ROLE_PRIORS role of Some p \<Rightarrow> p | None \<Rightarrow> the (map_of ROLE_PRIORS ''unknown''))"

section \<open>Signals\<close>

definition BITS_LADDER :: "nat list" where "BITS_LADDER = [2, 3, 4, 6, 8]"

record signals =
  sqnr_curve :: "(nat \<times> rat) list"
  rd_knee_bits :: nat
  sensitivity :: rat

text \<open>\<open>min(curve, key=...)\<close>: the first of the nearest bit widths.\<close>

definition nearest_sqnr :: "(nat \<times> rat) list \<Rightarrow> nat \<Rightarrow> rat" where
  "nearest_sqnr curve b = the (map_of curve (arg_min_list (\<lambda>k. \<bar>int k - int b\<bar>) (map fst curve)))"

definition sqnr_at :: "signals \<Rightarrow> nat \<Rightarrow> rat" where
  "sqnr_at s b = (case map_of (sqnr_curve s) b of Some v \<Rightarrow> v | None \<Rightarrow> nearest_sqnr (sqnr_curve s) b)"

text \<open>A weight of one or two dimensions; \<open>probe_rows\<close> is the reshape of a vector to one row.\<close>

datatype weight = Vec "rat list" | Mat "rat matrix"

fun weight_shape :: "weight \<Rightarrow> shape" where
  "weight_shape (Vec v) = [length v]"
| "weight_shape (Mat m) = [length m, length (hd m)]"

fun weight_rows :: "weight \<Rightarrow> rat matrix" where
  "weight_rows (Vec v) = [v]"
| "weight_rows (Mat m) = m"

definition sqnr_qmax :: "nat \<Rightarrow> int" where
  "sqnr_qmax b = 2 ^ (b - 1) - 1"

definition row_scale :: "int \<Rightarrow> rat list \<Rightarrow> rat" where
  "row_scale qmax row =
     (let s = fold max (map abs row) 0 / of_int (max qmax 1) in if s = 0 then 1 else s)"

definition probe_row :: "int \<Rightarrow> rat list \<Rightarrow> rat list" where
  "probe_row qmax row =
     (let s = row_scale qmax row
      in map (\<lambda>x. of_int (clip (- qmax) qmax (np_round (x / s))) * s) row)"

definition energy :: "rat matrix \<Rightarrow> rat" where
  "energy W = (\<Sum>row\<leftarrow>W. \<Sum>x\<leftarrow>row. x ^ 2)"

definition probe_error :: "rat matrix \<Rightarrow> nat \<Rightarrow> rat" where
  "probe_error W b = (\<Sum>row\<leftarrow>W. dist2 row (probe_row (sqnr_qmax b) row))"

text \<open>\<open>db x\<close> is \<open>10 * log10(x)\<close> in floating point; a zero error counts as \<open>1e-12\<close>.\<close>

definition sqnr_db :: "(rat \<Rightarrow> rat) \<Rightarrow> rat matrix \<Rightarrow> nat \<Rightarrow> rat" where
  "sqnr_db db W b =
     (let e = probe_error W b in db (energy W / (if e = 0 then 1 / 10 ^ 12 else e)))"

definition mean_abs :: "rat matrix \<Rightarrow> rat" where
  "mean_abs W = sum_list (map abs (concat W)) / of_nat (length (concat W))"

definition probe_tensor :: "(rat \<Rightarrow> rat) \<Rightarrow> weight \<Rightarrow> rat \<Rightarrow> signals" where
  "probe_tensor db w target_db =
     (let W = weight_rows w;
          curve = map (\<lambda>b. (b, sqnr_db db W b)) BITS_LADDER;
          knee = (case find (\<lambda>b. the (map_of curve b) \<ge> target_db) BITS_LADDER of Some b \<Rightarrow> b | None \<Rightarrow> 16)
      in \<lparr>sqnr_curve = curve, rd_knee_bits = knee, sensitivity = mean_abs W\<rparr>)"

section \<open>Policy and validation\<close>

definition decide :: "string \<Rightarrow> signals \<Rightarrow> tensor_config \<times> rat" where
  "decide role s =
     (let p = role_prior role; conf = pr_confidence p
      in if pr_method p = ''fp16'' then
           (\<lparr>quant_method = ''fp16'', bits = 16, stages = 0, normalization = ''none'', keep_fp16 = True,
             source = ''policy'', confidence = conf, rationale = role @ '': fp16 prior''\<rparr>, conf)
         else if pr_method p = ''int8'' then
           (\<lparr>quant_method = ''int8'', bits = 8, stages = 0, normalization = ''block-max'', keep_fp16 = False,
             source = ''policy'', confidence = conf, rationale = role @ '': int8 prior (RVQ-fragile)''\<rparr>, conf)
         else
           (let b = rd_knee_bits s; st = 2 + (if extra_stage p then 1 else 0)
            in (\<lparr>quant_method = ''rvq'', bits = b, stages = st, normalization = ''block-max'', keep_fp16 = False,
                  source = ''policy'', confidence = conf,
                  rationale = role @ '': rvq '' @ nat_str b @ ''b/'' @ nat_str st @ ''st at SQNR knee''\<rparr>, conf)))"

datatype config_error =
    UnsupportedMethod string | OutHeadRvq | MustRemainFp16 string | UnsupportedRvq | Fp16NeedsKeep

definition validate_config :: "string \<Rightarrow> tensor_config \<Rightarrow> config_error + unit" where
  "validate_config role c =
     (if quant_method c \<notin> {''rvq'', ''int8'', ''fp16''} then Inl (UnsupportedMethod (quant_method c))
      else if role = ''out-head'' \<and> quant_method c = ''rvq'' then Inl OutHeadRvq
      else if role \<in> {''norm'', ''bias''} \<and> (quant_method c \<noteq> ''fp16'' \<or> \<not> keep_fp16 c) then Inl (MustRemainFp16 role)
      else if quant_method c = ''rvq'' \<and> (bits c \<notin> {2, 3, 4, 6, 8} \<or> stages c < 1) then Inl UnsupportedRvq
      else if quant_method c = ''fp16'' \<and> \<not> keep_fp16 c then Inl Fp16NeedsKeep
      else Inr ())"

definition role_in :: "(string \<times> string) list \<Rightarrow> string \<Rightarrow> string" where
  "role_in roles nm = (case map_of roles nm of Some r \<Rightarrow> r | None \<Rightarrow> ''unknown'')"

definition validate_configs ::
  "(string \<times> tensor_config) list \<Rightarrow> (string \<times> string) list \<Rightarrow> config_error + unit" where
  "validate_configs cfgs roles =
     foldM (\<lambda>_ (nm, c). validate_config (role_in roles nm) c) () cfgs"

section \<open>Escalation\<close>

definition CONF_THRESHOLD :: rat where "CONF_THRESHOLD = 6 / 10"

definition signals_conflict :: "signals \<Rightarrow> bool" where
  "signals_conflict s \<longleftrightarrow> rd_knee_bits s \<le> 3 \<and> Min (set (map snd (sqnr_curve s))) < 10"

definition should_escalate :: "rat \<Rightarrow> signals \<Rightarrow> rat \<Rightarrow> bool \<Rightarrow> bool" where
  "should_escalate role_conf s policy_conf regressed \<longleftrightarrow>
     role_conf < CONF_THRESHOLD \<or> policy_conf < CONF_THRESHOLD \<or> signals_conflict s \<or> regressed"

definition bucket :: "rat \<Rightarrow> nat" where
  "bucket x = length (filter (\<lambda>e. x > e) [5 / 1000, 2 / 100, 5 / 100, 1 / 10])"

text \<open>The text that is hashed, as the tuple of its fields; \<open>sha\<close> is the hash.\<close>

definition signature ::
  "(string \<times> shape \<times> nat \<times> nat \<times> string \<Rightarrow> string) \<Rightarrow> string \<Rightarrow> shape \<Rightarrow> signals \<Rightarrow> string \<Rightarrow> string" where
  "signature sha role shp s objective = sha (role, shp, rd_knee_bits s, bucket (sensitivity s), objective)"

type_synonym cache = "string \<rightharpoonup> tensor_config"

text \<open>The verdict a cache keeps: five fields; the others are rebuilt when it is read.\<close>

definition verdict_fields :: "tensor_config \<Rightarrow> string \<times> nat \<times> nat \<times> string \<times> bool" where
  "verdict_fields c = (quant_method c, bits c, stages c, normalization c, keep_fp16 c)"

definition from_cache :: "tensor_config \<Rightarrow> tensor_config" where
  "from_cache c = c\<lparr>source := ''cache'', confidence := 3 / 4, rationale := ''cached''\<rparr>"

text \<open>
  One tensor of \<open>derive_config\<close>. \<open>llm\<close> is \<open>decide_with_llm\<close> on the injected model, \<open>None\<close> when its
  answer is rejected with \<open>ValueError\<close>; \<open>llm = None\<close> when no model is injected.
\<close>

type_synonym hash = "string \<times> shape \<times> nat \<times> nat \<times> string \<Rightarrow> string"
type_synonym reasoner = "string \<Rightarrow> shape \<Rightarrow> signals \<Rightarrow> string \<Rightarrow> tensor_config option"

definition derive_one ::
  "(rat \<Rightarrow> rat) \<Rightarrow> bool \<Rightarrow> hash \<Rightarrow> reasoner option \<Rightarrow> string \<Rightarrow> cache \<Rightarrow> string \<times> weight \<Rightarrow>
    tensor_config \<times> cache" where
  "derive_one db use_llm sha llm objective cch nw =
     (case nw of (nm, w) \<Rightarrow>
        (let (role, role_conf) = classify_role nm (weight_shape w) False None;
             s = probe_tensor db w SQNR_TARGET_DB;
             (cfg, policy_conf) = decide role s
         in if use_llm \<and> should_escalate role_conf s policy_conf False then
              (let sig = signature sha role (weight_shape w) s objective
               in case cch sig of
                    Some v \<Rightarrow> (from_cache v, cch)
                  | None \<Rightarrow>
                      (case llm of
                         None \<Rightarrow> (cfg, cch)
                       | Some f \<Rightarrow>
                           (case f role (weight_shape w) s objective of
                              None \<Rightarrow> (cfg, cch)
                            | Some c \<Rightarrow> (c, cch(sig \<mapsto> c)))))
            else (cfg, cch)))"

fun derive_config ::
  "(rat \<Rightarrow> rat) \<Rightarrow> bool \<Rightarrow> hash \<Rightarrow> reasoner option \<Rightarrow> string \<Rightarrow> cache \<Rightarrow> (string \<times> weight) list \<Rightarrow>
    (string \<times> tensor_config) list \<times> cache" where
  "derive_config db use_llm sha llm objective cch [] = ([], cch)"
| "derive_config db use_llm sha llm objective cch (w # ws) =
     (let (cfg, cch1) = derive_one db use_llm sha llm objective cch w;
          (rest, cch2) = derive_config db use_llm sha llm objective cch1 ws
      in ((fst w, cfg) # rest, cch2))"

section \<open>Refinement\<close>

record quality =
  kl :: rat
  top1 :: rat

definition meets :: "quality \<Rightarrow> string \<Rightarrow> rat option \<Rightarrow> bool" where
  "meets q objective target =
     (case target of None \<Rightarrow> False
      | Some t \<Rightarrow>
          if objective = ''min-bits'' then kl q \<le> t
          else if objective = ''max-quality'' then True
          else if objective = ''knee'' then kl q \<le> t
          else False)"

definition attribute_worst ::
  "(string \<times> tensor_config) list \<Rightarrow> (string \<rightharpoonup> signals) \<Rightarrow> nat \<Rightarrow> string list" where
  "attribute_worst cfg sigs k =
     (let scored = concat (map (\<lambda>(nm, c). case sigs nm of
                 Some s \<Rightarrow> if quant_method c = ''rvq'' then [(nm, sqnr_at s (bits c))] else []
               | None \<Rightarrow> []) cfg)
      in take k (map fst (sort_key snd scored)))"

definition escalate_cfg :: "tensor_config \<Rightarrow> tensor_config" where
  "escalate_cfg c =
     (if quant_method c \<noteq> ''rvq'' then c
      else
        (case filter (\<lambda>b. b > bits c) BITS_LADDER of
           b # _ \<Rightarrow> c\<lparr>bits := b, source := ''refine'', rationale := rationale c @ ''; bumped bits->'' @ nat_str b\<rparr>
         | [] \<Rightarrow> c\<lparr>stages := stages c + 1, source := ''refine'',
                    rationale := rationale c @ ''; +stage->'' @ nat_str (stages c + 1)\<rparr>))"

text \<open>\<open>for name in offenders: cfg[name] = escalate_cfg(cfg[name])\<close>: names are dictionary keys, so each
  one is escalated once.\<close>

definition escalate_named :: "string list \<Rightarrow> (string \<times> tensor_config) list \<Rightarrow> (string \<times> tensor_config) list" where
  "escalate_named names cfg = map (\<lambda>(nm, c). (nm, if nm \<in> set names then escalate_cfg c else c)) cfg"

text \<open>
  The loop with \<open>fuel = max_rounds - r\<close> rounds left; \<open>measure\<close> is \<open>pulse_fn(pack_fn(cfg))\<close>.
\<close>

fun refine_loop ::
  "((string \<times> tensor_config) list \<Rightarrow> quality) \<Rightarrow> (string \<rightharpoonup> signals) \<Rightarrow> string \<Rightarrow> rat option \<Rightarrow> nat \<Rightarrow>
    nat \<Rightarrow> (string \<times> tensor_config) list \<Rightarrow> quality \<Rightarrow> (string \<times> tensor_config) list \<times> quality \<times> nat" where
  "refine_loop measured sigs objective target max_rounds 0 cfg q = (cfg, q, max_rounds)"
| "refine_loop measured sigs objective target max_rounds (Suc fuel) cfg q =
     (let r = max_rounds - Suc fuel
      in if meets q objective target then (cfg, q, r)
         else
           (let offenders = attribute_worst cfg sigs 3
            in if offenders = [] then (cfg, q, max_rounds)
               else
                 (let cfg' = escalate_named offenders cfg; new_q = measured cfg'
                  in if kl new_q \<ge> kl q then (cfg', q, r + 1)
                     else refine_loop measured sigs objective target max_rounds fuel cfg' new_q)))"

definition refine ::
  "((string \<times> tensor_config) list \<Rightarrow> quality) \<Rightarrow> (string \<times> tensor_config) list \<Rightarrow> (string \<rightharpoonup> signals) \<Rightarrow>
    string \<Rightarrow> rat option \<Rightarrow> nat \<Rightarrow> (string \<times> tensor_config) list \<times> quality \<times> nat" where
  "refine measured cfg sigs objective target max_rounds =
     refine_loop measured sigs objective target max_rounds max_rounds cfg (measured cfg)"

section \<open>Lemmas\<close>

lemma role_prior_in: "role_prior role \<in> snd ` set ROLE_PRIORS"
proof (cases "map_of ROLE_PRIORS role")
  case (Some p)
  then have "(role, p) \<in> set ROLE_PRIORS" by (rule map_of_SomeD)
  then show ?thesis using Some by (force simp: role_prior_def)
next
  case None
  have "(''unknown'', prior_of ''fp16'' False 0 False) \<in> set ROLE_PRIORS" by (simp add: ROLE_PRIORS_def)
  moreover have "map_of ROLE_PRIORS ''unknown'' = Some (prior_of ''fp16'' False 0 False)"
    by (simp add: ROLE_PRIORS_def)
  ultimately show ?thesis using None by (force simp: role_prior_def)
qed

lemma prior_methods: "list_all (\<lambda>p. pr_method (snd p) \<in> {''rvq'', ''int8'', ''fp16''}) ROLE_PRIORS"
  by (simp add: ROLE_PRIORS_def prior_of_def)

lemma prior_fixed_roles:
  "pr_method (role_prior ''out-head'') = ''int8''"
  "pr_method (role_prior ''norm'') = ''fp16''" "pr_method (role_prior ''bias'') = ''fp16''"
  by (simp_all add: role_prior_def ROLE_PRIORS_def prior_of_def)

lemma prior_method: "pr_method (role_prior role) \<in> {''rvq'', ''int8'', ''fp16''}"
  using role_prior_in [of role] prior_methods by (auto simp only: list_all_iff)

lemma validate_rvq_role:
  "validate_config role c = Inr () \<Longrightarrow> quant_method c = ''rvq'' \<Longrightarrow>
    role \<notin> {''out-head'', ''norm'', ''bias''} \<and> bits c \<in> {2, 3, 4, 6, 8} \<and> 1 \<le> stages c"
  by (auto simp: validate_config_def split: if_splits)

lemma decide_method: "quant_method (fst (decide role s)) = pr_method (role_prior role)"
  using prior_method [of role] by (auto simp: decide_def Let_def)

lemma decide_valid_iff:
  "validate_config role (fst (decide role s)) = Inr () \<longleftrightarrow>
    pr_method (role_prior role) \<noteq> ''rvq'' \<or> rd_knee_bits s \<in> {2, 3, 4, 6, 8}"
proof -
  consider "pr_method (role_prior role) = ''fp16''" | "pr_method (role_prior role) = ''int8''"
    | "pr_method (role_prior role) = ''rvq''" using prior_method [of role] by auto
  then show ?thesis
  proof cases
    case 1
    then show ?thesis by (simp add: decide_def Let_def validate_config_def)
  next
    case 2
    then have "role \<notin> {''norm'', ''bias''}" using prior_fixed_roles by auto
    with 2 show ?thesis by (simp add: decide_def Let_def validate_config_def)
  next
    case 3
    then have "role \<notin> {''out-head'', ''norm'', ''bias''}" using prior_fixed_roles by auto
    with 3 show ?thesis by (simp add: decide_def Let_def validate_config_def)
  qed
qed

lemma probe_knee:
  "rd_knee_bits (probe_tensor db w target) =
    (case find (\<lambda>b. sqnr_db db (weight_rows w) b \<ge> target) BITS_LADDER of Some b \<Rightarrow> b | None \<Rightarrow> 16)"
  by (simp add: probe_tensor_def BITS_LADDER_def Let_def)

lemma probe_knee_valid:
  "rd_knee_bits (probe_tensor db w target) \<in> {2, 3, 4, 6, 8} \<longleftrightarrow>
    (\<exists>b \<in> set BITS_LADDER. sqnr_db db (weight_rows w) b \<ge> target)"
  by (simp add: probe_knee BITS_LADDER_def)

lemma escalate_valid:
  assumes "validate_config role c = Inr ()"
  shows "validate_config role (escalate_cfg c) = Inr ()"
proof (cases "quant_method c = ''rvq''")
  case False
  with assms show ?thesis by (simp add: escalate_cfg_def)
next
  case True
  then have v: "role \<notin> {''out-head'', ''norm'', ''bias''}" "bits c \<in> {2, 3, 4, 6, 8}" "1 \<le> stages c"
    using validate_rvq_role [OF assms] by blast+
  then show ?thesis using True by (auto simp: escalate_cfg_def BITS_LADDER_def validate_config_def)
qed

text \<open>What a tensor costs per weight vector: the bits of all its stages.\<close>

definition spend :: "tensor_config \<Rightarrow> nat" where
  "spend c = bits c * stages c"

lemma escalate_spends:
  assumes "validate_config role c = Inr ()" and "quant_method c = ''rvq''"
  shows "spend c < spend (escalate_cfg c)" and "quant_method (escalate_cfg c) = ''rvq''"
proof -
  have v: "bits c \<in> {2, 3, 4, 6, 8}" "1 \<le> stages c" using validate_rvq_role [OF assms] by blast+
  then show "spend c < spend (escalate_cfg c)"
    using assms(2) by (auto simp: escalate_cfg_def BITS_LADDER_def spend_def)
  show "quant_method (escalate_cfg c) = ''rvq''"
    using assms(2) by (simp add: escalate_cfg_def split: list.split)
qed

lemma escalate_keeps_dense: "quant_method c \<noteq> ''rvq'' \<Longrightarrow> escalate_cfg c = c"
  by (simp add: escalate_cfg_def)

text \<open>How a refined configuration map relates to the one it started from.\<close>

definition refined :: "(string \<times> string) list \<Rightarrow> (string \<times> tensor_config) list \<Rightarrow> (string \<times> tensor_config) list \<Rightarrow> bool" where
  "refined roles cfg cfg' \<longleftrightarrow>
     map fst cfg' = map fst cfg \<and>
     (\<forall>i < length cfg. validate_config (role_in roles (fst (cfg' ! i))) (snd (cfg' ! i)) = Inr () \<and>
        quant_method (snd (cfg' ! i)) = quant_method (snd (cfg ! i)) \<and> spend (snd (cfg ! i)) \<le> spend (snd (cfg' ! i)) \<and>
        (quant_method (snd (cfg ! i)) \<noteq> ''rvq'' \<longrightarrow> cfg' ! i = cfg ! i))"

lemma refined_refl:
  "\<forall>(nm, c) \<in> set cfg. validate_config (role_in roles nm) c = Inr () \<Longrightarrow> refined roles cfg cfg"
  by (auto simp: refined_def dest!: nth_mem split: prod.splits)

lemma refined_length: "refined roles cfg cfg' \<Longrightarrow> length cfg' = length cfg"
  by (metis length_map refined_def)

lemma escalate_named_nth:
  "i < length cfg \<Longrightarrow> escalate_named ns cfg ! i =
    (fst (cfg ! i), if fst (cfg ! i) \<in> set ns then escalate_cfg (snd (cfg ! i)) else snd (cfg ! i))"
  by (simp add: escalate_named_def case_prod_beta)

lemma refined_escalate:
  assumes "refined roles cfg cfg'"
  shows "refined roles cfg (escalate_named ns cfg')"
proof -
  have len: "length cfg' = length cfg" using assms by (rule refined_length)
  have "map fst (escalate_named ns cfg') = map fst cfg"
    using assms by (simp add: refined_def escalate_named_def comp_def case_prod_beta)
  moreover have "validate_config (role_in roles (fst (escalate_named ns cfg' ! i))) (snd (escalate_named ns cfg' ! i)) = Inr () \<and>
        quant_method (snd (escalate_named ns cfg' ! i)) = quant_method (snd (cfg ! i)) \<and>
        spend (snd (cfg ! i)) \<le> spend (snd (escalate_named ns cfg' ! i)) \<and>
        (quant_method (snd (cfg ! i)) \<noteq> ''rvq'' \<longrightarrow> escalate_named ns cfg' ! i = cfg ! i)" if i: "i < length cfg" for i
  proof -
    let ?c = "snd (cfg' ! i)"
    have base: "validate_config (role_in roles (fst (cfg' ! i))) ?c = Inr ()"
      "quant_method ?c = quant_method (snd (cfg ! i))" "spend (snd (cfg ! i)) \<le> spend ?c"
      "quant_method (snd (cfg ! i)) \<noteq> ''rvq'' \<longrightarrow> cfg' ! i = cfg ! i"
      using assms i by (auto simp: refined_def)
    show ?thesis
    proof (cases "quant_method ?c = ''rvq''")
      case True
      then show ?thesis
        using base i len escalate_valid [OF base(1)] escalate_spends [OF base(1) True]
        by (auto simp: escalate_named_nth)
    next
      case False
      then show ?thesis using base i len by (auto simp: escalate_named_nth escalate_keeps_dense)
    qed
  qed
  ultimately show ?thesis by (simp add: refined_def)
qed

lemma refine_loop_correct:
  assumes "refine_loop measured sigs objective target mr fuel cfg q = (cfg', q', r)"
    and "fuel \<le> mr" and "q = measured cfg" and "refined roles cfg0 cfg"
  shows "refined roles cfg0 cfg' \<and> r \<le> mr \<and> kl q' \<le> kl q \<and>
    (q' = measured cfg' \<or>
      (\<exists>c ns. refined roles cfg0 c \<and> q' = measured c \<and> cfg' = escalate_named ns c \<and> \<not> meets q' objective target \<and>
        kl q' \<le> kl (measured cfg')))"
  using assms
proof (induction measured sigs objective target mr fuel cfg q rule: refine_loop.induct)
  case (2 measured sigs objective target mr fuel cfg q)
  let ?off = "attribute_worst cfg sigs 3"
  let ?cfg' = "escalate_named ?off cfg"
  have ref: "refined roles cfg0 ?cfg'" using "2.prems"(4) by (rule refined_escalate)
  consider (met) "meets q objective target" | (none) "\<not> meets q objective target" "?off = []"
    | (stuck) "\<not> meets q objective target" "?off \<noteq> []" "kl (measured ?cfg') \<ge> kl q"
    | (go) "\<not> meets q objective target" "?off \<noteq> []" "\<not> kl (measured ?cfg') \<ge> kl q" by blast
  then show ?case
  proof cases
    case met
    then show ?thesis using "2.prems" by (auto simp: Let_def)
  next
    case none
    then show ?thesis using "2.prems" by (auto simp: Let_def)
  next
    case stuck
    then show ?thesis using "2.prems" ref by (auto simp: Let_def)
  next
    case go
    then have "refine_loop measured sigs objective target mr fuel ?cfg' (measured ?cfg') = (cfg', q', r)"
      using "2.prems"(1) by (simp add: Let_def)
    moreover have "fuel \<le> mr" using "2.prems"(2) by simp
    ultimately show ?thesis
      using "2.IH" [OF refl go(1) refl go(2) refl refl go(3)] ref go(3) by fastforce
  qed
qed auto

text \<open>A profile changes the role of a tensor only where the name alone says nothing.\<close>

definition roles_agree :: "string \<times> rat \<Rightarrow> string \<times> rat \<Rightarrow> bool" where
  "roles_agree a b \<longleftrightarrow> a = b \<or> fst b = ''unknown''"

lemma roles_agree_intros:
  "roles_agree a a" "roles_agree a (''unknown'', x)"
  "roles_agree a a' \<Longrightarrow> roles_agree b b' \<Longrightarrow> roles_agree (if c then a else b) (if c then a' else b')"
  by (simp_all add: roles_agree_def)

lemma profile_roles_agree: "roles_agree (classify_role nm shp tied profile) (classify_role nm shp False None)"
  unfolding classify_role_def Let_def
  by (simp only: option.case if_False simp_thms) (intro roles_agree_intros)

lemma unknown_stays_dense: "fst (decide ''unknown'' s) =
    \<lparr>quant_method = ''fp16'', bits = 16, stages = 0, normalization = ''none'', keep_fp16 = True,
     source = ''policy'', confidence = 0, rationale = ''unknown: fp16 prior''\<rparr>"
  by (simp add: decide_def Let_def role_prior_def ROLE_PRIORS_def prior_of_def)

text \<open>The spec text of an allocation entry.\<close>

lemma config_spec_eq:
  assumes "1 \<le> bits c" and "1 \<le> stages c"
  shows "quant_spec_from_sizes (replicate (stages c) (Codebook (2 ^ bits c))) = Inr (config_spec c)"
proof -
  have "(1::nat) < 2 ^ bits c" using assms(1) by (intro one_less_power) auto
  then have "stage_part (Codebook (2 ^ bits c)) = Inr (nat_str (bits c))"
    by (simp add: index_bits_for_size_def)
  then have "mapM stage_part (replicate (stages c) (Codebook (2 ^ bits c))) =
      Inr (replicate (stages c) (nat_str (bits c)))"
    using mapM_Inr [of "replicate (stages c) (Codebook (2 ^ bits c))" stage_part "\<lambda>_. nat_str (bits c)"]
    by (simp add: map_replicate_const)
  then show ?thesis using assms(2) by (auto simp: quant_spec_from_sizes_def config_spec_def numeral_eq_Suc)
qed

lemma config_stages_ok:
  assumes "1 \<le> bits c" and "1 \<le> stages c" and "bits c * stages c \<le> QUANT_SPEC_MAX_TOTAL_BITS"
  shows "spec_ok (replicate (stages c) (Codebook (2 ^ bits c)))"
proof -
  have "bits c \<le> bits c * stages c" using assms(2) by simp
  then have "bits c \<le> QUANT_SPEC_MAX_PER_STAGE_BITS"
    using assms(3) unfolding QUANT_SPEC_MAX_TOTAL_BITS_def QUANT_SPEC_MAX_PER_STAGE_BITS_def
    by (rule order_trans)
  then show ?thesis using assms
    by (auto simp: spec_ok_def sum_list_replicate mult.commute)
qed

text \<open>What one derivation leaves in the cache is what a later one finds there.\<close>

definition answers :: "reasoner \<Rightarrow> bool" where
  "answers f \<longleftrightarrow> (\<forall>role shp s objective. f role shp s objective \<noteq> None)"

lemma from_cache_verdict [simp]: "verdict_fields (from_cache c) = verdict_fields c"
  by (simp add: verdict_fields_def from_cache_def)

lemma derive_one_replays:
  assumes "derive_one db True sha (Some f) objective cch nw = (c, cch1)" and "answers f"
  shows "cch \<subseteq>\<^sub>m cch1 \<and>
    (cch1 \<subseteq>\<^sub>m cch2 \<longrightarrow>
      (\<exists>c'. derive_one db True sha llm objective cch2 nw = (c', cch2) \<and> verdict_fields c' = verdict_fields c))"
proof -
  obtain nm w where nw: "nw = (nm, w)" by (cases nw)
  obtain role role_conf where r: "classify_role nm (weight_shape w) False None = (role, role_conf)"
    by (cases "classify_role nm (weight_shape w) False None")
  let ?s = "probe_tensor db w SQNR_TARGET_DB"
  obtain cfg pc where d: "decide role ?s = (cfg, pc)" by (cases "decide role ?s")
  let ?sig = "signature sha role (weight_shape w) ?s objective"
  show ?thesis
  proof (cases "should_escalate role_conf ?s pc False")
    case False
    then show ?thesis using assms(1) by (auto simp: derive_one_def nw r d Let_def)
  next
    case True
    note esc = True
    show ?thesis
    proof (cases "cch ?sig")
      case (Some v)
      then have "cch1 = cch" "c = from_cache v" using assms(1) esc by (auto simp: derive_one_def nw r d Let_def)
      moreover have "cch \<subseteq>\<^sub>m cch2 \<Longrightarrow> cch2 ?sig = Some v" using Some by (auto simp: map_le_def dom_def)
      ultimately show ?thesis using esc by (auto simp: derive_one_def nw r d Let_def)
    next
      case None
      obtain a where a: "f role (weight_shape w) ?s objective = Some a"
        using assms(2) unfolding answers_def by (meson option.exhaust)
      then have res: "cch1 = cch(?sig \<mapsto> a)" "c = a"
        using assms(1) esc None by (auto simp: derive_one_def nw r d Let_def)
      have "cch \<subseteq>\<^sub>m cch1" using None res by (auto simp: map_le_def dom_def)
      moreover have "cch1 \<subseteq>\<^sub>m cch2 \<Longrightarrow> cch2 ?sig = Some a" using res by (auto simp: map_le_def dom_def)
      ultimately show ?thesis using esc res by (auto simp: derive_one_def nw r d Let_def)
    qed
  qed
qed

lemma derive_config_replays:
  assumes "derive_config db True sha (Some f) objective cch ws = (cfgs, cch1)" and "answers f"
  shows "cch \<subseteq>\<^sub>m cch1 \<and>
    (cch1 \<subseteq>\<^sub>m cch2 \<longrightarrow>
      (\<exists>cfgs'. derive_config db True sha llm objective cch2 ws = (cfgs', cch2) \<and>
        map (\<lambda>(n, c). (n, verdict_fields c)) cfgs' = map (\<lambda>(n, c). (n, verdict_fields c)) cfgs))"
  using assms(1)
proof (induction ws arbitrary: cch cfgs)
  case Nil
  then show ?case by simp
next
  case (Cons w ws)
  obtain c m where one: "derive_one db True sha (Some f) objective cch w = (c, m)"
    by (cases "derive_one db True sha (Some f) objective cch w")
  obtain rest m' where more: "derive_config db True sha (Some f) objective m ws = (rest, m')"
    by (cases "derive_config db True sha (Some f) objective m ws")
  have res: "cch1 = m'" "cfgs = (fst w, c) # rest" using Cons.prems one more by simp_all
  note first = derive_one_replays [OF one assms(2), of cch2 llm]
  note later = Cons.IH [OF more [folded res(1)]]
  have le: "m \<subseteq>\<^sub>m cch1" using later res by simp
  show ?case
  proof (intro conjI impI)
    show "cch \<subseteq>\<^sub>m cch1" using first le map_le_trans by blast
    assume sub: "cch1 \<subseteq>\<^sub>m cch2"
    then have "m \<subseteq>\<^sub>m cch2" using le map_le_trans by blast
    with first obtain c' where "derive_one db True sha llm objective cch2 w = (c', cch2)"
      "verdict_fields c' = verdict_fields c" by blast
    moreover obtain rest' where "derive_config db True sha llm objective cch2 ws = (rest', cch2)"
      "map (\<lambda>(n, c). (n, verdict_fields c)) rest' = map (\<lambda>(n, c). (n, verdict_fields c)) rest"
      using later sub res by blast
    ultimately show "\<exists>cfgs'. derive_config db True sha llm objective cch2 (w # ws) = (cfgs', cch2) \<and>
        map (\<lambda>(n, c). (n, verdict_fields c)) cfgs' = map (\<lambda>(n, c). (n, verdict_fields c)) cfgs"
      using res by simp
  qed
qed

section \<open>The probe\<close>

lemma row_scale_pos: "0 < row_scale qmax row"
proof -
  have "0 \<le> fold max (map abs row) 0" by (rule fold_max_upper) simp
  then show ?thesis by (auto simp: row_scale_def Let_def order.order_iff_strict)
qed

lemma row_scale_covers:
  assumes "x \<in> set row" and "1 \<le> qmax"
  shows "\<bar>x / row_scale qmax row\<bar> \<le> of_int qmax"
proof -
  let ?m = "fold max (map abs row) 0"
  have m: "\<bar>x\<bar> \<le> ?m" using assms(1) by (intro fold_max_upper) auto
  have q: "(0::rat) < of_int qmax" using assms(2) by simp
  have "max qmax 1 = qmax" using assms(2) by simp
  then have "?m \<le> of_int qmax * row_scale qmax row"
    using q by (simp add: row_scale_def Let_def)
  with m have "\<bar>x\<bar> \<le> of_int qmax * row_scale qmax row" by (rule order_trans)
  then have "\<bar>x\<bar> / row_scale qmax row \<le> of_int qmax"
    using row_scale_pos [of qmax row] by (subst pos_divide_le_eq)
  then show ?thesis using row_scale_pos [of qmax row] by (simp only: abs_divide abs_of_pos)
qed

lemma probe_entry_close:
  assumes "x \<in> set row" and "1 \<le> qmax"
  defines "s \<equiv> row_scale qmax row"
  shows "(x - of_int (clip (- qmax) qmax (np_round (x / s))) * s) ^ 2 \<le> (s / 2) ^ 2"
proof -
  let ?k = "np_round (x / s)"
  have sp: "0 < s" unfolding s_def by (rule row_scale_pos)
  have r: "\<bar>x / s\<bar> \<le> of_int qmax" unfolding s_def using assms(1,2) by (rule row_scale_covers)
  have c: "\<bar>x / s - of_int ?k\<bar> \<le> 1 / 2" by (rule np_round_close)
  have "\<bar>of_int ?k\<bar> \<le> of_int qmax + (1 / 2 :: rat)" using r c by linarith
  then have "- qmax \<le> ?k" "?k \<le> qmax" by linarith+
  then have k: "clip (- qmax) qmax ?k = ?k" by (rule clip_idem)
  have "x - of_int ?k * s = (x / s - of_int ?k) * s" using sp by (simp add: left_diff_distrib)
  then have "\<bar>x - of_int ?k * s\<bar> = \<bar>x / s - of_int ?k\<bar> * s" using sp by (simp only: abs_mult abs_of_pos)
  also have "\<dots> \<le> 1 / 2 * s" using c sp by (intro mult_right_mono) auto
  finally have "\<bar>x - of_int ?k * s\<bar> \<le> \<bar>s / 2\<bar>" using sp by simp
  then show ?thesis unfolding k by (simp only: abs_le_square_iff)
qed

lemma dist2_map_le:
  assumes "\<And>x. x \<in> set row \<Longrightarrow> (x - f x) ^ 2 \<le> b"
  shows "dist2 row (map f row) \<le> of_nat (length row) * b"
  using assms
proof (induction row)
  case (Cons x row)
  have "(x - f x) ^ 2 \<le> b" "dist2 row (map f row) \<le> of_nat (length row) * b" using Cons by auto
  then show ?case by (simp add: distrib_right)
qed simp

lemma probe_row_error:
  assumes "1 \<le> qmax"
  shows "dist2 row (probe_row qmax row) \<le> of_nat (length row) * (row_scale qmax row / 2) ^ 2"
  unfolding probe_row_def Let_def
  by (intro dist2_map_le probe_entry_close) (use assms in auto)

section \<open>Properties\<close>

text \<open>the probe behind the bit choice: the squared error \<open>_sqnr_db\<close> measures for a tensor is at
  most a quarter of the squared step of each row, per entry. The clip never costs anything, since
  the step is the row's largest magnitude over the largest code.\<close>

theorem probe_error_bounded:
  assumes "2 \<le> b"
  shows "probe_error W b \<le>
    (\<Sum>row\<leftarrow>W. of_nat (length row) * (row_scale (sqnr_qmax b) row / 2) ^ 2)"
proof -
  have "(2::int) ^ 1 \<le> 2 ^ (b - 1)" using assms by (intro power_increasing) auto
  then have "1 \<le> sqnr_qmax b" by (simp add: sqnr_qmax_def)
  then show ?thesis unfolding probe_error_def by (intro sum_list_mono probe_row_error)
qed

theorem probe_error_bounded_witness:
  "probe_error [[1, - 3, 2], [0, 0, 0]] 2 \<le>
    (\<Sum>row\<leftarrow>[[1, - 3, 2], [0, 0, 0]]. of_nat (length row) * (row_scale (sqnr_qmax 2) row / 2) ^ 2)"
  by (rule probe_error_bounded) simp

text \<open>the policy's decision on a probed tensor passes the safety rails exactly when the role does
  not use RVQ or some rung of the bits ladder reaches the target; it then takes the smallest such
  rung. When no rung does, the knee is 16 bits, which the rails refuse.\<close>

theorem policy_valid_iff:
  "validate_config role (fst (decide role (probe_tensor db w target))) =
     (if pr_method (role_prior role) = ''rvq'' \<and>
         find (\<lambda>b. target \<le> sqnr_db db (weight_rows w) b) BITS_LADDER = None
      then Inl UnsupportedRvq else Inr ()) \<and>
   bits (fst (decide role (probe_tensor db w target))) =
     (if pr_method (role_prior role) = ''rvq'' then
        case_option 16 id (find (\<lambda>b. target \<le> sqnr_db db (weight_rows w) b) BITS_LADDER)
      else if pr_method (role_prior role) = ''fp16'' then 16 else 8)"
proof -
  let ?knee = "find (\<lambda>b. target \<le> sqnr_db db (weight_rows w) b) BITS_LADDER"
  let ?c = "fst (decide role (probe_tensor db w target))"
  have knee: "rd_knee_bits (probe_tensor db w target) = case_option 16 id ?knee"
    by (simp add: probe_knee split: option.split)
  have rung: "?knee = Some b \<Longrightarrow> b \<in> {2, 3, 4, 6, 8}" for b
    by (auto simp: BITS_LADDER_def split: if_splits)
  have pm: "pr_method (role_prior role) \<in> {''rvq'', ''int8'', ''fp16''}" by (rule prior_method)
  then have bits: "bits ?c = (if pr_method (role_prior role) = ''rvq'' then case_option 16 id ?knee
      else if pr_method (role_prior role) = ''fp16'' then 16 else 8)"
    using knee by (auto simp: decide_def Let_def)
  show ?thesis
  proof (cases "pr_method (role_prior role) = ''rvq'' \<and> ?knee = None")
    case True
    then have "role \<notin> {''out-head'', ''norm'', ''bias''}" using prior_fixed_roles by auto
    moreover have "quant_method ?c = ''rvq''" "bits ?c = 16" using True bits by (simp_all add: decide_method)
    ultimately have "validate_config role ?c = Inl UnsupportedRvq" by (simp add: validate_config_def)
    then show ?thesis using True bits by simp
  next
    case False
    then have "validate_config role ?c = Inr ()"
      using rung by (auto simp: decide_valid_iff knee)
    then show ?thesis using False bits by simp
  qed
qed

text \<open>The decision for one tensor against the role inspection recorded for it.\<close>

lemma decided_passes_iff:
  assumes "map_of roles nm = Some (fst (classify_role nm (weight_shape w) tied profile))"
  shows "validate_config (role_in roles nm)
      (fst (decide (fst (classify_role nm (weight_shape w) False None)) (probe_tensor db w SQNR_TARGET_DB))) = Inr () \<longleftrightarrow>
    (pr_method (role_prior (fst (classify_role nm (weight_shape w) False None))) = ''rvq'' \<longrightarrow>
      list_ex (\<lambda>b. SQNR_TARGET_DB \<le> sqnr_db db (weight_rows w) b) BITS_LADDER)"
proof -
  let ?role = "fst (classify_role nm (weight_shape w) False None)"
  consider "role_in roles nm = ?role" | "?role = ''unknown''"
    using profile_roles_agree [of nm "weight_shape w" tied profile] assms by (auto simp: roles_agree_def role_in_def)
  then show ?thesis
  proof cases
    case 1
    have "(find (\<lambda>b. SQNR_TARGET_DB \<le> sqnr_db db (weight_rows w) b) BITS_LADDER = None) \<longleftrightarrow>
        \<not> list_ex (\<lambda>b. SQNR_TARGET_DB \<le> sqnr_db db (weight_rows w) b) BITS_LADDER"
      by (auto simp: find_None_iff list_ex_iff)
    then show ?thesis unfolding 1 using policy_valid_iff [of ?role db w SQNR_TARGET_DB] by simp
  next
    case 2
    have "pr_method (role_prior ''unknown'') \<noteq> ''rvq''" by (simp add: role_prior_def ROLE_PRIORS_def prior_of_def)
    then show ?thesis unfolding 2 by (simp add: unknown_stays_dense validate_config_def)
  qed
qed

text \<open>C13: Deciding by policy, without the model (\<open>use_llm\<close> off), against the roles \<open>inspect_tool\<close> recorded with the checkpoint's
  architecture profile, which \<open>derive_config\<close> does not see: the derived map passes \<open>validate_configs\<close> exactly when every tensor
  whose role is quantized by RVQ reaches the SQNR target on some rung of the bits ladder. The profile never makes a difference.\<close>

theorem derived_configs_pass_inspection:
  assumes "\<forall>(nm, w) \<in> set ws. map_of roles nm = Some (fst (classify_role nm (weight_shape w) tied profile))"
  shows "validate_configs (fst (derive_config db False sha llm objective cch ws)) roles = Inr () \<longleftrightarrow>
    (\<forall>(nm, w) \<in> set ws. pr_method (role_prior (fst (classify_role nm (weight_shape w) False None))) = ''rvq'' \<longrightarrow>
      list_ex (\<lambda>b. SQNR_TARGET_DB \<le> sqnr_db db (weight_rows w) b) BITS_LADDER)"
  using assms
proof (induction ws arbitrary: cch)
  case (Cons nw ws)
  obtain nm w where nw: "nw = (nm, w)" by (cases nw)
  let ?role = "fst (classify_role nm (weight_shape w) False None)"
  have one: "derive_one db False sha llm objective cch nw = (fst (decide ?role (probe_tensor db w SQNR_TARGET_DB)), cch)"
    by (simp add: derive_one_def nw Let_def case_prod_beta)
  have "validate_config (role_in roles nm) (fst (decide ?role (probe_tensor db w SQNR_TARGET_DB))) = Inr () \<longleftrightarrow>
      (pr_method (role_prior ?role) = ''rvq'' \<longrightarrow> list_ex (\<lambda>b. SQNR_TARGET_DB \<le> sqnr_db db (weight_rows w) b) BITS_LADDER)"
    by (rule decided_passes_iff) (use Cons.prems nw in simp)
  moreover note Cons.IH [of cch]
  ultimately show ?case
    using Cons.prems by (auto simp: one [unfolded nw] validate_configs_def nw split_beta bind_err_eq_Inr)
qed (simp add: validate_configs_def)

theorem derived_configs_pass_inspection_witness:
  "validate_configs (fst (derive_config (\<lambda>x. x) False (\<lambda>_. ''h'') None ''knee'' Map.empty
       [(''h.0.mlp.fc1.weight'', Mat [[1, 0, 0, - 1], [1, 1, 0, 1]])]))
     [(''h.0.mlp.fc1.weight'', fst (classify_role ''h.0.mlp.fc1.weight'' [2, 4] False None))] = Inr ()"
proof -
  have "SQNR_TARGET_DB \<le> sqnr_db (\<lambda>x. x) [[1, 0, 0, - 1], [1, 1, 0, 1]] 2" by code_simp
  then show ?thesis
    by (intro derived_configs_pass_inspection [where tied = False and profile = None, THEN iffD2])
      (auto simp: BITS_LADDER_def numeral_eq_Suc)
qed

text \<open>what \<open>to_packer_allocation\<close> writes for an RVQ tensor is consistent: its spec text parses, with
  the packer's own parser, to exactly the codebook sizes of its \<open>stages\<close> list, within the parser's
  limit of 64 bits; and every tensor of the map is listed once, as a packed or as a dense one.\<close>

theorem packer_allocation_specs_parse:
  assumes "1 \<le> bits c" and "1 \<le> stages c" and "bits c * stages c \<le> QUANT_SPEC_MAX_TOTAL_BITS"
  shows "parse_quant_spec (pe_spec (packer_entry_of g c)) = Inr (map Codebook (pe_stages (packer_entry_of g c))) \<and>
    mset (map fst (pa_tensors (to_packer_allocation cfgs g)) @ map fst (pa_dense (to_packer_allocation cfgs g))) =
      mset (map fst cfgs)"
proof -
  obtain spec where spec: "quant_spec_from_sizes (replicate (stages c) (Codebook (2 ^ bits c))) = Inr spec"
    "parse_quant_spec spec = Inr (replicate (stages c) (Codebook (2 ^ bits c)))"
    using print_parse [OF config_stages_ok [OF assms]] by blast
  then have "spec = config_spec c" using config_spec_eq [OF assms(1,2)] by simp
  with spec(2) have "parse_quant_spec (pe_spec (packer_entry_of g c)) =
      Inr (map Codebook (pe_stages (packer_entry_of g c)))"
    by (simp add: packer_entry_of_def push_bit_eq_mult)
  moreover have "mset (map fst (filter P cfgs)) + mset (map fst (filter (\<lambda>x. \<not> P x) cfgs)) = mset (map fst cfgs)" for P
    by (induction cfgs) auto
  from this [of "\<lambda>(nm, c). quant_method c = ''rvq''"]
  have "mset (map fst (pa_tensors (to_packer_allocation cfgs g)) @ map fst (pa_dense (to_packer_allocation cfgs g))) =
      mset (map fst cfgs)"
    by (simp add: to_packer_allocation_def comp_def case_prod_beta)
  ultimately show ?thesis by blast
qed

theorem packer_allocation_specs_parse_witness:
  "parse_quant_spec (pe_spec (packer_entry_of 8 (fst (decide ''attn.v'' \<lparr>sqnr_curve = [(4, 31)], rd_knee_bits = 4, sensitivity = 0\<rparr>)))) =
    Inr [Codebook 16, Codebook 16, Codebook 16]"
proof -
  let ?c = "fst (decide ''attn.v'' \<lparr>sqnr_curve = [(4, 31)], rd_knee_bits = 4, sensitivity = 0\<rparr>)"
  have c: "bits ?c = 4" "stages ?c = 3"
    by (simp_all add: decide_def Let_def role_prior_def ROLE_PRIORS_def prior_of_def)
  then have "map Codebook (pe_stages (packer_entry_of 8 ?c)) = [Codebook 16, Codebook 16, Codebook 16]"
    by (simp add: packer_entry_of_def push_bit_eq_mult numeral_3_eq_3)
  then show ?thesis
    using packer_allocation_specs_parse [of ?c 8] c by (simp add: QUANT_SPEC_MAX_TOTAL_BITS_def)
qed

text \<open>verdicts are reproducible: after a derivation with a model that answers every call, the
  cache keeps everything it held, and deriving the same tensors again from it, with another model or
  none at all, gives every tensor the same verdict and leaves the cache as it is.\<close>

theorem cached_verdicts_replay:
  assumes "derive_config db True sha (Some f) objective cch ws = (cfgs, cch1)" and "answers f"
  shows "cch \<subseteq>\<^sub>m cch1 \<and>
    (\<exists>cfgs'. derive_config db True sha llm objective cch1 ws = (cfgs', cch1) \<and>
      map (\<lambda>(n, c). (n, verdict_fields c)) cfgs' = map (\<lambda>(n, c). (n, verdict_fields c)) cfgs)"
  using derive_config_replays [OF assms, of cch1 llm] by simp

theorem cached_verdicts_replay_witness:
  "\<exists>cfgs cch1 cfgs'.
     derive_config (\<lambda>x. x) True (\<lambda>(role, _). role) (Some (\<lambda>role shp s objective. Some \<lparr>quant_method = ''int8'', bits = 8,
         stages = 0, normalization = ''none'', keep_fp16 = False, source = ''llm'', confidence = 3 / 4,
         rationale = ''llm''\<rparr>)) ''knee'' Map.empty [(''a.weight'', Vec [1, 2])] = (cfgs, cch1) \<and>
     derive_config (\<lambda>x. x) True (\<lambda>(role, _). role) None ''knee'' cch1 [(''a.weight'', Vec [1, 2])] = (cfgs', cch1) \<and>
     map (\<lambda>(n, c). (n, verdict_fields c)) cfgs' = map (\<lambda>(n, c). (n, verdict_fields c)) cfgs"
proof -
  let ?f = "\<lambda>role shp s objective. Some \<lparr>quant_method = ''int8'', bits = 8, stages = 0, normalization = ''none'',
      keep_fp16 = False, source = ''llm'', confidence = 3 / 4, rationale = ''llm''\<rparr>"
  obtain cfgs cch1 where run: "derive_config (\<lambda>x. x) True (\<lambda>(role, _). role) (Some ?f) ''knee'' Map.empty
      [(''a.weight'', Vec [1, 2])] = (cfgs, cch1)" by fastforce
  have "answers ?f" by (simp add: answers_def)
  from cached_verdicts_replay [OF run this, of None] run show ?thesis by blast
qed

text \<open>C12: The refinement loop on a map that passes the safety rails, whatever packing and measuring answer: the returned map has the
  names, methods and dense entries it started with, passes the rails, spends no fewer bits on any tensor; the rounds stay within the
  bound; the reported divergence never exceeds the first measurement. It is the measurement of the returned map, or the last round did
  not help: then the returned map is one escalation beyond the map that was measured, it measured no better, and the reported quality
  misses the objective. So a quality that meets the objective is always that of the returned map.\<close>

theorem refine_correct:
  assumes "refine measured cfg sigs objective target max_rounds = (cfg', q', r)"
    and "\<forall>(nm, c) \<in> set cfg. validate_config (role_in roles nm) c = Inr ()"
  shows "refined roles cfg cfg' \<and> r \<le> max_rounds \<and> kl q' \<le> kl (measured cfg) \<and>
    (q' = measured cfg' \<or>
      (\<exists>c ns. refined roles cfg c \<and> q' = measured c \<and> cfg' = escalate_named ns c \<and> \<not> meets q' objective target \<and>
        kl q' \<le> kl (measured cfg')))"
  using refine_loop_correct [OF assms(1) [unfolded refine_def] le_refl refl refined_refl [OF assms(2)]] .

theorem refine_correct_witness:
  "\<exists>cfg' q' r. refine (\<lambda>cfg. \<lparr>kl = 10 / of_nat (spend (snd (hd cfg))), top1 = 1\<rparr>)
      [(''a'', \<lparr>quant_method = ''rvq'', bits = 3, stages = 2, normalization = ''block-max'', keep_fp16 = False,
         source = ''policy'', confidence = 7 / 10, rationale = ''r''\<rparr>)]
      [''a'' \<mapsto> \<lparr>sqnr_curve = [(3, 9)], rd_knee_bits = 3, sensitivity = 0\<rparr>] ''min-bits'' (Some (9 / 10)) 5 = (cfg', q', r) \<and>
     r \<le> 5 \<and> kl q' \<le> 10 / 6"
proof -
  let ?cfg = "[(''a'', \<lparr>quant_method = ''rvq'', bits = 3, stages = 2, normalization = ''block-max'', keep_fp16 = False,
         source = ''policy'', confidence = 7 / 10, rationale = ''r''\<rparr>)]"
  obtain cfg' q' r where run: "refine (\<lambda>cfg. \<lparr>kl = 10 / of_nat (spend (snd (hd cfg))), top1 = 1\<rparr>) ?cfg
      [''a'' \<mapsto> \<lparr>sqnr_curve = [(3, 9)], rd_knee_bits = 3, sensitivity = 0\<rparr>] ''min-bits'' (Some (9 / 10)) 5 = (cfg', q', r)"
    using prod_cases3 by blast
  have "\<forall>(nm, c) \<in> set ?cfg. validate_config (role_in [] nm) c = Inr ()"
    by (simp add: validate_config_def role_in_def)
  from refine_correct [OF run this] run show ?thesis by (auto simp: spend_def)
qed

text \<open>The round that does not help returns the escalated map: here the map returned measures 9 and the quality reported with it is 1.\<close>

lemma stuck_round_returns_escalated:
  defines "c \<equiv> \<lparr>quant_method = ''rvq'', bits = 3, stages = 2, normalization = ''block-max'', keep_fp16 = False,
         source = ''policy'', confidence = 7 / 10, rationale = ''r''\<rparr>"
    and "measured \<equiv> \<lambda>cfg. \<lparr>kl = (if bits (snd (hd cfg)) = 3 then 1 else 9), top1 = 1\<rparr> :: quality"
  shows "\<exists>cfg' q'. refine measured [(''a'', c)] [''a'' \<mapsto> \<lparr>sqnr_curve = [(3, 9)], rd_knee_bits = 3, sensitivity = 0\<rparr>] ''min-bits''
      (Some (1 / 2)) 5 = (cfg', q', 1) \<and> kl q' = 1 \<and> kl (measured cfg') = 9"
  by (simp add: refine_def numeral_eq_Suc Let_def meets_def attribute_worst_def escalate_named_def escalate_cfg_def BITS_LADDER_def
      sqnr_at_def assms)

end
