(* ===== verification/Transitions.thy ===== *)
theory Transitions
  imports Prelude
begin

text \<open>
  The one interface every stateful component of the library offers: a set of initial states, a step
  relation and an invariant that holds initially and survives each step. A component proves the two
  laws for its own steps and gets the invariant for every reachable state and every run.
\<close>

locale guarded_steps =
  fixes init :: "'s \<Rightarrow> bool" and next_state :: "'s \<Rightarrow> 's \<Rightarrow> bool" and inv :: "'s \<Rightarrow> bool"
  assumes initially: "init s \<Longrightarrow> inv s"
    and kept: "inv s \<Longrightarrow> next_state s s' \<Longrightarrow> inv s'"
begin

lemma always: "next_state\<^sup>*\<^sup>* s t \<Longrightarrow> init s \<Longrightarrow> inv t"
proof (induction rule: rtranclp_induct)
  case base
  then show ?case by (rule initially)
next
  case (step t u)
  then show ?case using kept by blast
qed

lemma kept_run: "next_state\<^sup>*\<^sup>* s t \<Longrightarrow> inv s \<Longrightarrow> inv t"
  by (induction rule: rtranclp_induct) (auto intro: kept)

end

end
