(* ===== verification/Harness.thy ===== *)
theory Harness
  imports Autoquant Transitions
begin

text \<open>
  \<open>orka/autoquant\<close>: the bounded reasoning loop that lets a language model drive the quantizer:
  \<open>harness_schema.py\<close>, \<open>gratis.py\<close>, \<open>tools.py\<close> and \<open>runner.py\<close>.

  The reasoner's transport, the packer, the quality probe, the verifier, the clock, \<open>json.loads\<close>
  and the tensors of the source are parameters. Tool errors are values: \<open>ValueErr\<close> is the exception
  the loop catches, \<open>OtherErr\<close> one that no handler of the run names, which leaves \<open>run_autoquant\<close> itself.
\<close>

section \<open>Contracts\<close>

datatype run_status = RUNNING | SUCCEEDED | FAILED

record run_config =
  gratis_base_url :: string
  rc_model :: string
  max_usd :: rat
  max_steps :: int
  timeout_seconds :: int
  rc_objective :: string
  rc_target :: rat
  rc_group_size :: nat

datatype config_refusal =
  NoEndpoint | NoModel | BadBudget | BadSteps | BadTimeout | UnsupportedObjective string

definition check_run_config :: "run_config \<Rightarrow> config_refusal + unit" where
  "check_run_config c =
     (if gratis_base_url c = [] then Inl NoEndpoint
      else if rc_model c = [] then Inl NoModel
      else if max_usd c \<le> 0 then Inl BadBudget
      else if max_steps c < 1 then Inl BadSteps
      else if timeout_seconds c < 1 then Inl BadTimeout
      else if rc_objective c \<notin> {''min-bits'', ''max-quality'', ''knee''}
      then Inl (UnsupportedObjective (rc_objective c))
      else Inr ())"

text \<open>A quality dictionary: empty, or a measurement with its verdict.\<close>

datatype quality_report = EmptyQuality | Measured (measured_quality: quality) (objective_met: bool)

fun met :: "quality_report option \<Rightarrow> bool" where
  "met (Some (Measured q b)) = b"
| "met _ = False"

text \<open>What a verifier answers, and the dictionary kept of it.\<close>

record verifier_answer =
  va_ok :: "bool option"
  va_passed :: "bool option"

record verification =
  ver_ok :: "bool option"
  ver_passed :: bool

record tool_result =
  r_ok :: bool
  r_error :: "string option"
  r_accepted :: bool
  r_candidate :: "(string \<times> tensor_config) list option"
  r_roles :: "(string \<times> string) list option"
  r_allocation :: "packer_allocation option"
  r_quality :: "quality_report option"
  r_verification :: "verification option"

definition plain_result :: tool_result where
  "plain_result = \<lparr>r_ok = True, r_error = None, r_accepted = False, r_candidate = None, r_roles = None,
     r_allocation = None, r_quality = None, r_verification = None\<rparr>"

text \<open>The arguments of a tool call: text to be parsed, an object, or something else.\<close>

datatype raw_arguments = ArgText string | ArgObject | ArgOther

record action =
  function_name :: "string option"
  function_arguments :: "raw_arguments option"
  action_name :: "string option"
  action_arguments :: "raw_arguments option"

record harness_state =
  status :: run_status
  step_count :: int
  spent_usd :: rat
  trace :: "(action \<times> tool_result) list"
  candidate :: "(string \<times> tensor_config) list option"
  roles :: "(string \<times> string) list"
  allocation :: "packer_allocation option"
  hs_quality :: "quality_report option"
  hs_verification :: "verification option"
  failure_reason :: "string option"

definition running :: harness_state where
  "running = \<lparr>status = RUNNING, step_count = 0, spent_usd = 0, trace = [], candidate = None, roles = [],
     allocation = None, hs_quality = None, hs_verification = None, failure_reason = None\<rparr>"

text \<open>\<open>HarnessState.record\<close>: an absent field of the result leaves the state's field.\<close>

definition keep_or :: "'a option \<Rightarrow> 'a option \<Rightarrow> 'a option" where
  "keep_or new old = (case new of None \<Rightarrow> old | Some x \<Rightarrow> Some x)"

definition record_result :: "action \<Rightarrow> tool_result \<Rightarrow> harness_state \<Rightarrow> harness_state" where
  "record_result act res st =
     st\<lparr>trace := trace st @ [(act, res)], step_count := step_count st + 1,
        candidate := keep_or (r_candidate res) (candidate st),
        roles := (case r_roles res of None \<Rightarrow> roles st | Some r \<Rightarrow> r),
        allocation := keep_or (r_allocation res) (allocation st),
        hs_quality := keep_or (r_quality res) (hs_quality st),
        hs_verification := keep_or (r_verification res) (hs_verification st)\<rparr>"

definition succeed :: "harness_state \<Rightarrow> harness_state" where
  "succeed st = st\<lparr>status := SUCCEEDED, failure_reason := None\<rparr>"

definition fail :: "string \<Rightarrow> harness_state \<Rightarrow> harness_state" where
  "fail reason st = st\<lparr>status := FAILED, failure_reason := Some reason\<rparr>"

section \<open>The reasoner's client\<close>

text \<open>
  One request: the transport fails with a message, the (test) transport is exhausted, or it answers
  with a cost and the tool calls of its first choice.
\<close>

datatype response = TransportError string | Exhausted | Answer (response_cost: rat) (tool_calls: "action list")

record client =
  cl_max_usd :: rat
  cl_spent_usd :: rat

datatype client_error = GratisError string | StopIteration

definition next_action :: "response \<Rightarrow> client \<Rightarrow> (client_error + action) \<times> client" where
  "next_action resp c =
     (case resp of
        TransportError msg \<Rightarrow> (Inl (GratisError (''Gratis request failed: '' @ msg)), c)
      | Exhausted \<Rightarrow> (Inl StopIteration, c)
      | Answer cost calls \<Rightarrow>
          (if cl_spent_usd c + cost > cl_max_usd c then (Inl (GratisError ''Gratis budget exhausted''), c)
           else
             (let c' = c\<lparr>cl_spent_usd := cl_spent_usd c + cost\<rparr>
              in case calls of
                   [a] \<Rightarrow> (Inr a, c')
                 | _ \<Rightarrow> (Inl (GratisError ''Gratis response must contain exactly one tool action''), c'))))"

section \<open>Tools\<close>

datatype tool_error = ValueErr string | OtherErr

text \<open>
  The context of the tools. \<open>source_tensors\<close> and \<open>source_weights\<close> are what the checkpoint readers
  return; \<open>pack_fn\<close>, \<open>pulse_fn\<close> and \<open>verify_fn\<close> are the injected operations. An artifact is a value of the packer's
  choice, a regular file or a directory (\<open>is_file\<close>); the packer is called with what is at the path and answers with its
  exception, if any, and with what it leaves there.
\<close>

record 'art tool_context =
  ctx_config :: run_config
  source_tensors :: "(string \<times> shape \<times> nat) list"
  source_weights :: "(string \<times> weight) list"
  ctx_db :: "rat \<Rightarrow> rat"
  pack_fn :: "(string \<times> nat list) list \<Rightarrow> 'art option \<Rightarrow> (tool_error + unit) \<times> 'art option"
  is_file :: "'art \<Rightarrow> bool"
  pulse_fn :: "(harness_state \<Rightarrow> tool_error + quality) option"
  verify_fn :: "'art \<Rightarrow> tool_error + verifier_answer"
  error_text :: "config_error \<Rightarrow> string"
  json_object :: "string \<Rightarrow> (string + bool)"

text \<open>The files a run writes: the artifact, the allocation map and the report.\<close>

record 'art files =
  artifact_file :: "'art option"
  allocation_file :: "packer_allocation option"
  report_file :: "harness_state option"

type_synonym 'art tool = "harness_state \<Rightarrow> 'art files \<Rightarrow> (tool_error + tool_result) \<times> 'art files"

definition cfgs_of :: "harness_state \<Rightarrow> tool_error + (string \<times> tensor_config) list" where
  "cfgs_of st =
     (case candidate st of
        Some (c # cs) \<Rightarrow> Inr (c # cs)
      | _ \<Rightarrow> Inl (ValueErr ''no candidate allocation yet; call derive first''))"

definition checked ::
  "'art tool_context \<Rightarrow> (string \<times> tensor_config) list \<Rightarrow> (string \<times> string) list \<Rightarrow> tool_error + unit" where
  "checked ctx cfgs rls =
     (case validate_configs cfgs rls of Inl e \<Rightarrow> Inl (ValueErr (error_text ctx e)) | Inr u \<Rightarrow> Inr u)"

text \<open>The roles of the checkpoint's tensors by name, shape and architecture profile, and by name and shape alone.\<close>

definition inspected_roles :: "'art tool_context \<Rightarrow> (string \<times> string) list" where
  "inspected_roles ctx =
     (let report = fst (inspect_checkpoint (source_tensors ctx));
          shapes = map (\<lambda>t. (ti_name t, ti_shape t)) report;
          profile = from_shapes shapes None;
          tied = (length (filter (\<lambda>(_, s). length s = 2 \<and>
                    (case vocab_size profile of Some v \<Rightarrow> v \<noteq> 0 \<and> hd s = v | None \<Rightarrow> False)) shapes) = 1)
      in map (\<lambda>(nm, s). (nm, fst (classify_role nm s tied (Some profile)))) shapes)"

definition named_roles :: "'art tool_context \<Rightarrow> (string \<times> string) list" where
  "named_roles ctx = map (\<lambda>(nm, w). (nm, fst (classify_role nm (weight_shape w) False None))) (source_weights ctx)"

definition inspect_tool :: "'art tool_context \<Rightarrow> 'art tool" where
  "inspect_tool ctx st fs = (Inr (plain_result\<lparr>r_roles := Some (inspected_roles ctx)\<rparr>), fs)"

definition derive_tool :: "'art tool_context \<Rightarrow> 'art tool" where
  "derive_tool ctx st fs =
     (let cfgs = fst (derive_config (ctx_db ctx) False (\<lambda>_. []) None (rc_objective (ctx_config ctx)) Map.empty
                        (source_weights ctx));
          rls = (if roles st \<noteq> [] then roles st else named_roles ctx)
      in (bind_err (checked ctx cfgs rls)
            (\<lambda>_. Inr (plain_result\<lparr>r_candidate := Some cfgs, r_roles := Some rls\<rparr>)), fs))"

definition allocate_tool :: "'art tool_context \<Rightarrow> 'art tool" where
  "allocate_tool ctx st fs =
     (case bind_err (cfgs_of st) (\<lambda>cfgs. bind_err (checked ctx cfgs (roles st)) (\<lambda>_. Inr cfgs)) of
        Inl e \<Rightarrow> (Inl e, fs)
      | Inr cfgs \<Rightarrow>
          (let alloc = to_packer_allocation cfgs (rc_group_size (ctx_config ctx))
           in (Inr (plain_result\<lparr>r_allocation := Some alloc\<rparr>), fs\<lparr>allocation_file := Some alloc\<rparr>)))"

definition stages_map :: "packer_allocation \<Rightarrow> (string \<times> nat list) list" where
  "stages_map a = map (\<lambda>(nm, e). (nm, pe_stages e)) (pa_tensors a)"

text \<open>An old artifact that is a regular file is unlinked before the packer runs; a directory is left to it.\<close>

definition pack_tool :: "'art tool_context \<Rightarrow> 'art tool" where
  "pack_tool ctx st fs =
     (case allocation st of
        None \<Rightarrow> (Inl (ValueErr ''no allocation yet; call allocate first''), fs)
      | Some alloc \<Rightarrow>
          (let old = (case artifact_file fs of None \<Rightarrow> None | Some art \<Rightarrow> if is_file ctx art then None else Some art)
           in case pack_fn ctx (stages_map alloc) old of
                (Inl e, left) \<Rightarrow> (Inl e, fs\<lparr>artifact_file := left\<rparr>)
              | (Inr u, left) \<Rightarrow> (Inr plain_result, fs\<lparr>artifact_file := left\<rparr>)))"

definition pulse_check_tool :: "'art tool_context \<Rightarrow> 'art tool" where
  "pulse_check_tool ctx st fs =
     (bind_err (case pulse_fn ctx of Some f \<Rightarrow> f st | None \<Rightarrow> Inr \<lparr>kl = 0, top1 = 1\<rparr>)
        (\<lambda>q. Inr (plain_result\<lparr>r_quality :=
           Some (Measured q (meets q (rc_objective (ctx_config ctx)) (Some (rc_target (ctx_config ctx)))))\<rparr>)), fs)"

definition dummy_signals :: signals where
  "dummy_signals = \<lparr>sqnr_curve = [(2, 8), (3, 12), (4, 20), (6, 28), (8, 35)], rd_knee_bits = 4, sensitivity = 2 / 100\<rparr>"

definition refine_tool :: "'art tool_context \<Rightarrow> 'art tool" where
  "refine_tool ctx st fs =
     (bind_err (cfgs_of st) (\<lambda>cfgs.
        let sigs = (\<lambda>nm. case map_of cfgs nm of
                      Some c \<Rightarrow> if quant_method c = ''rvq'' then Some dummy_signals else None | None \<Rightarrow> None);
            cfgs' = escalate_named (attribute_worst cfgs sigs 3) cfgs
        in bind_err (checked ctx cfgs' (roles st)) (\<lambda>_. Inr (plain_result\<lparr>r_candidate := Some cfgs'\<rparr>))), fs)"

definition answer_passed :: "verifier_answer \<Rightarrow> bool" where
  "answer_passed a = (case va_ok a of Some b \<Rightarrow> b | None \<Rightarrow> (case va_passed a of Some b \<Rightarrow> b | None \<Rightarrow> False))"

definition verify_tool :: "'art tool_context \<Rightarrow> 'art tool" where
  "verify_tool ctx st fs =
     (case artifact_file fs of
        None \<Rightarrow> (Inl (ValueErr ''no artifact to verify; call pack first''), fs)
      | Some art \<Rightarrow>
          (bind_err (verify_fn ctx art) (\<lambda>a.
             let passed = answer_passed a;
                 q = (case hs_quality st of Some q \<Rightarrow> q | None \<Rightarrow> EmptyQuality)
             in Inr (plain_result\<lparr>r_ok := passed, r_accepted := passed \<and> met (Some q),
                       r_verification := Some \<lparr>ver_ok = va_ok a, ver_passed = passed\<rparr>, r_quality := Some q\<rparr>)), fs))"

definition TOOLS :: "'art tool_context \<Rightarrow> (string \<times> 'art tool) list" where
  "TOOLS ctx =
     [(''inspect'', inspect_tool ctx), (''derive'', derive_tool ctx), (''allocate'', allocate_tool ctx),
      (''pack'', pack_tool ctx), (''pulse_check'', pulse_check_tool ctx), (''refine'', refine_tool ctx),
      (''verify'', verify_tool ctx)]"

section \<open>The loop\<close>

text \<open>\<open>fn.get("name") or action.get("name")\<close>, then \<open>str(...)\<close>.\<close>

definition action_tool :: "action \<Rightarrow> string" where
  "action_tool a =
     (case function_name a of
        Some (c # cs) \<Rightarrow> c # cs
      | _ \<Rightarrow> (case action_name a of Some n \<Rightarrow> n | None \<Rightarrow> ''None''))"

definition raw_of :: "action \<Rightarrow> raw_arguments" where
  "raw_of a =
     (case function_arguments a of
        Some r \<Rightarrow> r
      | None \<Rightarrow> (case action_arguments a of Some r \<Rightarrow> r | None \<Rightarrow> ArgText ''{}''))"

text \<open>\<open>json_object text\<close> is \<open>json.loads\<close>: an error message, or whether the value is an object.\<close>

definition parse_action :: "(string \<Rightarrow> string + bool) \<Rightarrow> action \<Rightarrow> tool_error + string" where
  "parse_action loads a =
     bind_err
       (case raw_of a of
          ArgText t \<Rightarrow> (if t = [] then Inr True else (case loads t of Inl m \<Rightarrow> Inl (ValueErr m) | Inr b \<Rightarrow> Inr b))
        | ArgObject \<Rightarrow> Inr True
        | ArgOther \<Rightarrow> Inl (ValueErr ''tool arguments must be an object''))
       (\<lambda>is_object. if is_object then Inr (action_tool a)
                    else Inl (ValueErr ''tool arguments must be an object''))"

definition execute_validated :: "'art tool_context \<Rightarrow> action \<Rightarrow> 'art tool" where
  "execute_validated ctx a st fs =
     (case parse_action (json_object ctx) a of
        Inl e \<Rightarrow> (Inl e, fs)
      | Inr nm \<Rightarrow>
          (case map_of (TOOLS ctx) nm of
             None \<Rightarrow> (Inl (ValueErr ''unregistered_tool''), fs)
           | Some tool \<Rightarrow> tool st fs))"

definition acceptance_gate :: "harness_state \<Rightarrow> bool" where
  "acceptance_gate st \<longleftrightarrow>
     (case hs_verification st of Some v \<Rightarrow> ver_passed v \<or> ver_ok v = Some True | None \<Rightarrow> False) \<and>
     met (hs_quality st)"

definition finish :: "harness_state \<Rightarrow> 'art files \<Rightarrow> string option \<Rightarrow> harness_state \<times> 'art files" where
  "finish st fs reason =
     (let st1 = (case reason of Some r \<Rightarrow> fail r st | None \<Rightarrow> st);
          st2 = (if status st1 = RUNNING then fail ''incomplete'' st1 else st1)
      in (st2, fs\<lparr>report_file := Some st2\<rparr>))"

text \<open>
  How a run ends: with a final state and its files, or with an exception that leaves the function
  before any report is written.
\<close>

datatype 'art outcome = Finished harness_state "'art files" client | Escaped harness_state "'art files"

definition gratis_reason :: "string \<Rightarrow> string" where
  "gratis_reason msg =
     (if contains ''budget'' (py_lower msg) then ''gratis_budget_exhausted'' else ''gratis_unavailable'')"

definition finished :: "harness_state \<Rightarrow> 'art files \<Rightarrow> client \<Rightarrow> string option \<Rightarrow> 'art outcome" where
  "finished st fs c reason = (case finish st fs reason of (st', fs') \<Rightarrow> Finished st' fs' c)"

text \<open>
  The loop with \<open>n\<close> steps left. \<open>elapsed i\<close> is the clock at step \<open>i\<close>; \<open>reason\<close> answers the messages,
  which are a function of the trace.
\<close>

fun run_loop ::
  "'art tool_context \<Rightarrow> (nat \<Rightarrow> rat) \<Rightarrow> ((action \<times> tool_result) list \<Rightarrow> response) \<Rightarrow> nat \<Rightarrow>
    harness_state \<Rightarrow> 'art files \<Rightarrow> client \<Rightarrow> 'art outcome" where
  "run_loop ctx elapsed reasoner 0 st fs c = finished st fs c (Some ''step_limit_exceeded'')"
| "run_loop ctx elapsed reasoner (Suc n) st fs c =
     (if elapsed (nat (step_count st)) > of_int (timeout_seconds (ctx_config ctx))
      then finished st fs c (Some ''timeout_exceeded'')
      else
        (case next_action (reasoner (trace st)) c of
           (Inl (GratisError msg), c') \<Rightarrow> finished st fs c' (Some (gratis_reason msg))
         | (Inl StopIteration, c') \<Rightarrow> finished st fs c' (Some ''gratis_unavailable'')
         | (Inr act, c') \<Rightarrow>
             (let st1 = st\<lparr>spent_usd := cl_spent_usd c'\<rparr>
              in case execute_validated ctx act st1 fs of
                   (Inl OtherErr, fs') \<Rightarrow> Escaped st1 fs'
                 | (Inl (ValueErr msg), fs') \<Rightarrow>
                     (if msg = ''unregistered_tool'' then finished st1 fs' c' (Some ''unregistered_tool'')
                      else
                        (let st2 = record_result act (plain_result\<lparr>r_ok := False, r_error := Some msg\<rparr>) st1
                         in if acceptance_gate st2 then finished (succeed st2) fs' c' None
                            else run_loop ctx elapsed reasoner n st2 fs' c'))
                 | (Inr res, fs') \<Rightarrow>
                     (let st2 = record_result act res st1
                      in if acceptance_gate st2 \<or> r_accepted res then finished (succeed st2) fs' c' None
                         else run_loop ctx elapsed reasoner n st2 fs' c'))))"

definition run_autoquant ::
  "'art tool_context \<Rightarrow> (nat \<Rightarrow> rat) \<Rightarrow> ((action \<times> tool_result) list \<Rightarrow> response) \<Rightarrow> 'art files \<Rightarrow> client \<Rightarrow> 'art outcome" where
  "run_autoquant ctx elapsed reasoner fs c =
     run_loop ctx elapsed reasoner (nat (max_steps (ctx_config ctx))) running fs c"

section \<open>What each tool call does\<close>

text \<open>An allocation the safety rails have passed against the roles of the source, an artifact the packer left when it was called with
  one, and a verdict on one.\<close>

definition railed_by :: "'art tool_context \<Rightarrow> (string \<times> string) list \<Rightarrow> packer_allocation \<Rightarrow> bool" where
  "railed_by ctx rls al \<longleftrightarrow> (\<exists>cfgs. validate_configs cfgs rls = Inr () \<and>
     al = to_packer_allocation cfgs (rc_group_size (ctx_config ctx)))"

definition railed :: "'art tool_context \<Rightarrow> packer_allocation \<Rightarrow> bool" where
  "railed ctx al \<longleftrightarrow> railed_by ctx (inspected_roles ctx) al \<or> railed_by ctx (named_roles ctx) al"

definition packed :: "'art tool_context \<Rightarrow> 'art \<Rightarrow> bool" where
  "packed ctx art \<longleftrightarrow> (\<exists>al old r. railed ctx al \<and> pack_fn ctx (stages_map al) old = (r, Some art))"

definition judged :: "'art tool_context \<Rightarrow> 'art \<Rightarrow> verification \<Rightarrow> bool" where
  "judged ctx art v \<longleftrightarrow>
     (\<exists>a. verify_fn ctx art = Inr a \<and> v = \<lparr>ver_ok = va_ok a, ver_passed = answer_passed a\<rparr>)"

definition sound_files :: "'art tool_context \<Rightarrow> harness_state \<Rightarrow> 'art files \<Rightarrow> 'art files \<Rightarrow> bool" where
  "sound_files ctx st fs fs' \<longleftrightarrow>
     report_file fs' = report_file fs \<and>
     (artifact_file fs' = artifact_file fs \<or> artifact_file fs' = None \<or>
      (\<exists>al old r art. allocation st = Some al \<and> pack_fn ctx (stages_map al) old = (r, Some art) \<and> artifact_file fs' = Some art))"

definition sound_result :: "'art tool_context \<Rightarrow> harness_state \<Rightarrow> 'art files \<Rightarrow> tool_result \<Rightarrow> 'art files \<Rightarrow> bool" where
  "sound_result ctx st fs res fs' \<longleftrightarrow>
     (case r_allocation res of
        Some al \<Rightarrow> railed_by ctx (roles st) al \<and> candidate st \<noteq> None \<and> allocation_file fs' = Some al
      | None \<Rightarrow> allocation_file fs' = allocation_file fs) \<and>
     (case r_roles res of
        Some rls \<Rightarrow> rls = roles st \<and> roles st \<noteq> [] \<or> rls = inspected_roles ctx \<or> rls = named_roles ctx
      | None \<Rightarrow> r_candidate res = None \<or> candidate st \<noteq> None) \<and>
     (case r_verification res of
        Some v \<Rightarrow> fs' = fs \<and> (\<exists>art. artifact_file fs = Some art \<and> judged ctx art v) \<and>
                  r_quality res = Some (case hs_quality st of Some q \<Rightarrow> q | None \<Rightarrow> EmptyQuality) \<and>
                  (r_accepted res \<longrightarrow> ver_passed v \<and> met (hs_quality st))
      | None \<Rightarrow> \<not> r_accepted res)"

definition sound_call :: "'art tool_context \<Rightarrow> harness_state \<Rightarrow> 'art files \<Rightarrow>
    (tool_error + tool_result) \<times> 'art files \<Rightarrow> bool" where
  "sound_call ctx st fs r \<longleftrightarrow> sound_files ctx st fs (snd r) \<and>
     (case fst r of Inl e \<Rightarrow> allocation_file (snd r) = allocation_file fs
      | Inr res \<Rightarrow> sound_result ctx st fs res (snd r))"

lemmas sound_defs = sound_call_def sound_files_def sound_result_def plain_result_def

lemma sound_refused [simp]: "sound_call ctx st fs (Inl e, fs)"
  by (simp add: sound_defs)

definition plain_roles :: "'art tool_context \<Rightarrow> harness_state \<Rightarrow> tool_result \<Rightarrow> bool" where
  "plain_roles ctx st res \<longleftrightarrow> r_allocation res = None \<and> r_verification res = None \<and> \<not> r_accepted res \<and>
     (case r_roles res of
        Some rls \<Rightarrow> rls = roles st \<and> roles st \<noteq> [] \<or> rls = inspected_roles ctx \<or> rls = named_roles ctx
      | None \<Rightarrow> r_candidate res = None \<or> candidate st \<noteq> None)"

lemma sound_plain: "plain_roles ctx st res \<Longrightarrow> sound_call ctx st fs (Inr res, fs)"
  by (simp add: sound_defs plain_roles_def)

lemma sound_plain_bind:
  "(\<And>x res. m = Inr x \<Longrightarrow> f x = Inr res \<Longrightarrow> plain_roles ctx st res) \<Longrightarrow> sound_call ctx st fs (bind_err m f, fs)"
  by (cases "bind_err m f") (auto simp: bind_err_eq_Inr intro!: sound_plain)

lemma cfgs_of_candidate: "cfgs_of st = Inr cfgs \<Longrightarrow> candidate st \<noteq> None"
  by (auto simp: cfgs_of_def split: option.splits)

lemma inspect_sound: "sound_call ctx st fs (inspect_tool ctx st fs)"
  unfolding inspect_tool_def Let_def by (rule sound_plain) (simp add: plain_result_def plain_roles_def)

lemma derive_sound: "sound_call ctx st fs (derive_tool ctx st fs)"
  unfolding derive_tool_def Let_def by (rule sound_plain_bind) (auto simp: plain_result_def plain_roles_def)

lemma pulse_sound: "sound_call ctx st fs (pulse_check_tool ctx st fs)"
  unfolding pulse_check_tool_def by (rule sound_plain_bind) (auto simp: plain_result_def plain_roles_def)

lemma refine_sound: "sound_call ctx st fs (refine_tool ctx st fs)"
  unfolding refine_tool_def Let_def
  by (rule sound_plain_bind) (auto simp: plain_result_def plain_roles_def bind_err_eq_Inr dest: cfgs_of_candidate)

lemma checked_Inr: "checked ctx cfgs rls = Inr u \<longleftrightarrow> validate_configs cfgs rls = Inr ()"
  by (auto simp: checked_def split: sum.splits)

lemma allocate_sound: "sound_call ctx st fs (allocate_tool ctx st fs)"
  by (auto simp: allocate_tool_def sound_defs railed_by_def bind_err_eq_Inr checked_Inr Let_def dest: cfgs_of_candidate split: sum.splits)

lemma pack_sound: "sound_call ctx st fs (pack_tool ctx st fs)"
proof (cases "allocation st")
  case (Some al)
  let ?old = "case artifact_file fs of None \<Rightarrow> None | Some art \<Rightarrow> if is_file ctx art then None else Some art"
  obtain r left where p: "pack_fn ctx (stages_map al) ?old = (r, left)" by (cases "pack_fn ctx (stages_map al) ?old")
  then show ?thesis using Some by (cases r; cases left) (auto simp: pack_tool_def sound_defs)
qed (simp add: pack_tool_def)

lemma verify_sound: "sound_call ctx st fs (verify_tool ctx st fs)"
proof (cases "artifact_file fs")
  case (Some art)
  then show ?thesis
    by (cases "verify_fn ctx art") (auto simp: verify_tool_def sound_defs judged_def Let_def split: option.splits)
qed (simp add: verify_tool_def)

lemma tool_sound:
  assumes "map_of (TOOLS ctx) nm = Some tool"
  shows "sound_call ctx st fs (tool st fs)"
proof -
  have "(nm, tool) \<in> set (TOOLS ctx)" using assms by (rule map_of_SomeD)
  then have "tool \<in> {inspect_tool ctx, derive_tool ctx, allocate_tool ctx, pack_tool ctx, pulse_check_tool ctx,
      refine_tool ctx, verify_tool ctx}" unfolding TOOLS_def by (auto simp only: list.set insert_iff empty_iff prod.inject)
  then show ?thesis
    by (auto simp: inspect_sound derive_sound allocate_sound pack_sound pulse_sound refine_sound verify_sound)
qed

lemma execute_sound: "sound_call ctx st fs (execute_validated ctx a st fs)"
  unfolding execute_validated_def
  by (auto split: sum.split option.split intro: tool_sound)

section \<open>Runs as steps\<close>

text \<open>What one round of the loop does to the state and the files: charging the model's cost, recording
  the result or the refusal of a tool, and stopping at a call whose error ends the run.\<close>

inductive harness_step :: "'art tool_context \<Rightarrow> harness_state \<times> 'art files \<Rightarrow> harness_state \<times> 'art files \<Rightarrow> bool"
  for ctx where
  charge: "harness_step ctx (st, fs) (st\<lparr>spent_usd := x\<rparr>, fs)"
| answer: "execute_validated ctx a st fs = (Inr res, fs') \<Longrightarrow>
    harness_step ctx (st, fs) (record_result a res st, fs')"
| refuse: "execute_validated ctx a st fs = (Inl (ValueErr msg), fs') \<Longrightarrow>
    harness_step ctx (st, fs) (record_result a (plain_result\<lparr>r_ok := False, r_error := Some msg\<rparr>) st, fs')"
| abandon: "execute_validated ctx a st fs = (Inl e, fs') \<Longrightarrow> harness_step ctx (st, fs) (st, fs')"
inductive_cases harness_step_cases: "harness_step ctx s s'"

text \<open>What holds of every state a run passes through; \<open>art0\<close> is the artifact that was there before.\<close>

definition harness_inv :: "'art tool_context \<Rightarrow> 'art option \<Rightarrow> harness_state \<times> 'art files \<Rightarrow> bool" where
  "harness_inv ctx art0 s \<longleftrightarrow>
     (case s of (st, fs) \<Rightarrow>
        status st = RUNNING \<and> failure_reason st = None \<and> step_count st = int (length (trace st)) \<and>
        (roles st = [] \<or> roles st = inspected_roles ctx \<or> roles st = named_roles ctx) \<and>
        (candidate st \<noteq> None \<longrightarrow> roles st = inspected_roles ctx \<or> roles st = named_roles ctx) \<and>
        (\<forall>al. allocation st = Some al \<longrightarrow> railed ctx al \<and> allocation_file fs = Some al) \<and>
        (\<forall>art. artifact_file fs = Some art \<longrightarrow> Some art = art0 \<or> packed ctx art) \<and>
        (\<forall>v. hs_verification st = Some v \<longrightarrow>
          (\<exists>art. (Some art = art0 \<or> packed ctx art) \<and> judged ctx art v)))"

lemma record_fields [simp]:
  "status (record_result a res st) = status st"
  "failure_reason (record_result a res st) = failure_reason st"
  "trace (record_result a res st) = trace st @ [(a, res)]"
  "step_count (record_result a res st) = step_count st + 1"
  "allocation (record_result a res st) = keep_or (r_allocation res) (allocation st)"
  "hs_quality (record_result a res st) = keep_or (r_quality res) (hs_quality st)"
  "hs_verification (record_result a res st) = keep_or (r_verification res) (hs_verification st)"
  "candidate (record_result a res st) = keep_or (r_candidate res) (candidate st)"
  "roles (record_result a res st) = (case r_roles res of None \<Rightarrow> roles st | Some r \<Rightarrow> r)"
  by (simp_all add: record_result_def)

lemma keep_or_simps [simp]: "keep_or (Some x) o' = Some x" "keep_or None o' = o'"
  by (simp_all add: keep_or_def)

lemma sound_files_inv:
  assumes "harness_inv ctx art0 (st, fs)" and "sound_files ctx st fs fs'" and "artifact_file fs' = Some art"
  shows "Some art = art0 \<or> packed ctx art"
proof -
  from assms(2) consider "artifact_file fs' = artifact_file fs" | "artifact_file fs' = None"
    | al old r art' where "allocation st = Some al" "pack_fn ctx (stages_map al) old = (r, Some art')" "artifact_file fs' = Some art'"
    unfolding sound_files_def by metis
  then show ?thesis
  proof cases
    case 1
    then have "artifact_file fs = Some art" using assms(3) by simp
    with assms(1) show ?thesis by (simp add: harness_inv_def)
  next
    case 2
    with assms(3) show ?thesis by simp
  next
    case 3
    then have "railed ctx al" using assms(1) by (simp add: harness_inv_def)
    then show ?thesis using 3 assms(3) by (auto simp: packed_def)
  qed
qed

lemma harness_inv_answer:
  assumes inv: "harness_inv ctx art0 (st, fs)" and call: "sound_call ctx st fs (Inr res, fs')"
  shows "harness_inv ctx art0 (record_result a res st, fs')"
proof -
  have res: "sound_files ctx st fs fs'" "sound_result ctx st fs res fs'" using call by (simp_all add: sound_call_def)
  have art: "artifact_file fs' = Some art \<Longrightarrow> Some art = art0 \<or> packed ctx art" for art
    using sound_files_inv [OF inv res(1)] .
  have al: "railed ctx al \<and> allocation_file fs' = Some al" if "keep_or (r_allocation res) (allocation st) = Some al" for al
    using inv res(2) that by (cases "r_allocation res") (auto simp: harness_inv_def sound_result_def railed_def)
  let ?st = "record_result a res st"
  have roles: "roles ?st = [] \<or> roles ?st = inspected_roles ctx \<or> roles ?st = named_roles ctx"
    "candidate ?st \<noteq> None \<longrightarrow> roles ?st = inspected_roles ctx \<or> roles ?st = named_roles ctx"
    using inv res(2) by (cases "r_roles res"; cases "r_candidate res"; auto simp: harness_inv_def sound_result_def)+
  have ver: "\<exists>art. (Some art = art0 \<or> packed ctx art) \<and> judged ctx art v"
    if "keep_or (r_verification res) (hs_verification st) = Some v" for v
  proof (cases "r_verification res")
    case None
    then show ?thesis using inv that by (simp add: harness_inv_def)
  next
    case (Some w)
    moreover have "w = v" using that Some by simp
    ultimately obtain art where "artifact_file fs = Some art" "judged ctx art v"
      using res(2) by (auto simp: sound_result_def)
    then show ?thesis using inv by (auto simp: harness_inv_def)
  qed
  show ?thesis using inv art al ver roles by (simp add: harness_inv_def)
qed

lemma harness_inv_refuse:
  assumes inv: "harness_inv ctx art0 (st, fs)" and call: "sound_call ctx st fs (Inl e, fs')"
  shows "harness_inv ctx art0 (record_result a (plain_result\<lparr>r_ok := False, r_error := Some msg\<rparr>) st, fs')"
proof -
  have res: "sound_files ctx st fs fs'" "allocation_file fs' = allocation_file fs"
    using call by (simp_all add: sound_call_def)
  have art: "artifact_file fs' = Some art \<Longrightarrow> Some art = art0 \<or> packed ctx art" for art
    using sound_files_inv [OF inv res(1)] .
  show ?thesis using inv art res(2) by (simp add: harness_inv_def plain_result_def)
qed

lemma harness_inv_abandon:
  assumes inv: "harness_inv ctx art0 (st, fs)" and call: "sound_call ctx st fs (Inl e, fs')"
  shows "harness_inv ctx art0 (st, fs')"
proof -
  have res: "sound_files ctx st fs fs'" "allocation_file fs' = allocation_file fs"
    using call by (simp_all add: sound_call_def)
  have art: "artifact_file fs' = Some art \<Longrightarrow> Some art = art0 \<or> packed ctx art" for art
    using sound_files_inv [OF inv res(1)] .
  show ?thesis using inv art res(2) by (simp add: harness_inv_def)
qed

lemma harness_inv_step:
  assumes "harness_inv ctx art0 s" and "harness_step ctx s s'"
  shows "harness_inv ctx art0 s'"
  using assms(2)
proof cases
  case (charge st fs x)
  then show ?thesis using assms(1) by (simp add: harness_inv_def)
next
  case (answer a st fs res fs')
  then show ?thesis using assms(1) execute_sound [of ctx st fs a] harness_inv_answer by simp
next
  case (refuse a st fs msg fs')
  then show ?thesis using assms(1) execute_sound [of ctx st fs a] harness_inv_refuse by simp
next
  case (abandon a st fs e fs')
  then show ?thesis using assms(1) execute_sound [of ctx st fs a] harness_inv_abandon by simp
qed

interpretation harness: guarded_steps
  "\<lambda>s. fst s = running \<and> artifact_file (snd s) = art0" "harness_step ctx" "harness_inv ctx art0"
proof
  fix s :: "harness_state \<times> 'a files"
  assume "fst s = running \<and> artifact_file (snd s) = art0"
  then show "harness_inv ctx art0 s" by (cases s) (simp add: harness_inv_def running_def)
qed (rule harness_inv_step)

section \<open>How a run ends\<close>

definition FAILURES :: "string set" where
  "FAILURES = {''timeout_exceeded'', ''step_limit_exceeded'', ''unregistered_tool'',
     ''gratis_budget_exhausted'', ''gratis_unavailable''}"

definition within_budget :: "client \<Rightarrow> client \<Rightarrow> bool" where
  "within_budget c c' \<longleftrightarrow> cl_max_usd c' = cl_max_usd c \<and>
     (cl_spent_usd c \<le> cl_max_usd c \<longrightarrow> cl_spent_usd c' \<le> cl_max_usd c')"

lemma within_budget_refl [simp]: "within_budget c c"
  by (simp add: within_budget_def)

lemma within_budget_trans: "within_budget c c' \<Longrightarrow> within_budget c' c'' \<Longrightarrow> within_budget c c''"
  by (auto simp: within_budget_def)

lemma next_action_within_budget: "within_budget c (snd (next_action resp c))"
  by (auto simp: next_action_def within_budget_def Let_def split: response.split list.split)

text \<open>A run that is accepted right after a \<open>verify\<close> call has verified the artifact that is on disk.\<close>

definition verified_last :: "'art tool_context \<Rightarrow> harness_state \<Rightarrow> 'art files \<Rightarrow> bool" where
  "verified_last ctx st fs \<longleftrightarrow> trace st \<noteq> [] \<and>
     (action_tool (fst (last (trace st))) = ''verify'' \<longrightarrow>
       (\<exists>art v. artifact_file fs = Some art \<and> judged ctx art v \<and> ver_passed v))"

definition ended :: "'art tool_context \<Rightarrow> harness_state \<times> 'art files \<Rightarrow> harness_state \<times> 'art files \<Rightarrow> bool" where
  "ended ctx s r \<longleftrightarrow>
     (\<exists>reason \<in> FAILURES. r = finish (fst s) (snd s) (Some reason) \<and> \<not> acceptance_gate (fst s)) \<or>
     (r = finish (succeed (fst s)) (snd s) None \<and> acceptance_gate (fst s) \<and> verified_last ctx (fst s) (snd s))"

definition ends :: "'art tool_context \<Rightarrow> harness_state \<times> 'art files \<Rightarrow> client \<Rightarrow> nat \<Rightarrow> 'art outcome \<Rightarrow> bool" where
  "ends ctx s c n out \<longleftrightarrow>
     (case out of Escaped st fs \<Rightarrow> True
      | Finished st' fs' c' \<Rightarrow> within_budget c c' \<and>
          (\<exists>s1. (harness_step ctx)\<^sup>*\<^sup>* s s1 \<and> length (trace (fst s1)) \<le> length (trace (fst s)) + n \<and>
             ended ctx s1 (st', fs')))"

lemma ends_failed:
  assumes "\<not> acceptance_gate st" and "reason \<in> FAILURES" and "within_budget c c'"
  shows "ends ctx (st, fs) c n (finished st fs c' (Some reason))"
proof -
  obtain st' fs' where f: "finish st fs (Some reason) = (st', fs')" by (cases "finish st fs (Some reason)")
  have "ended ctx (st, fs) (st', fs')"
    unfolding ended_def by (rule disjI1, rule bexI [of _ reason]) (use assms(1,2) f in simp_all)
  then show ?thesis unfolding finished_def f ends_def using assms(3) by (auto intro!: exI [of _ "(st, fs)"] simp del: split_paired_Ex)
qed

lemma ends_accepted:
  assumes "acceptance_gate st" and "verified_last ctx st fs" and "within_budget c c'"
  shows "ends ctx (st, fs) c n (finished (succeed st) fs c' None)"
proof -
  obtain st' fs' where f: "finish (succeed st) fs None = (st', fs')" by (cases "finish (succeed st) fs None")
  have "ended ctx (st, fs) (st', fs')" unfolding ended_def using assms f by auto
  then show ?thesis unfolding finished_def f ends_def using assms(3) by (auto intro!: exI [of _ "(st, fs)"] simp del: split_paired_Ex)
qed

lemma ends_step:
  assumes "harness_step ctx s s'" and "within_budget c c'" and "ends ctx s' c' n out"
    and "length (trace (fst s')) + n \<le> length (trace (fst s)) + m"
  shows "ends ctx s c m out"
proof (cases out)
  case (Finished st' fs' c1)
  then obtain s1 where s1: "within_budget c' c1" "(harness_step ctx)\<^sup>*\<^sup>* s' s1"
    "length (trace (fst s1)) \<le> length (trace (fst s')) + n" "ended ctx s1 (st', fs')"
    using assms(3) by (auto simp: ends_def)
  have "(harness_step ctx)\<^sup>*\<^sup>* s s1" using assms(1) s1(2) by (rule converse_rtranclp_into_rtranclp)
  moreover have "length (trace (fst s1)) \<le> length (trace (fst s)) + m" using s1(3) assms(4) by linarith
  ultimately show ?thesis
    using s1(4) within_budget_trans [OF assms(2) s1(1)] Finished
    by (auto simp: ends_def intro!: exI [of _ s1] simp del: split_paired_Ex)
qed (simp add: ends_def)

lemma gate_charge [simp]: "acceptance_gate (st\<lparr>spent_usd := x\<rparr>) = acceptance_gate st"
  by (simp add: acceptance_gate_def)

lemma gate_refuse [simp]:
  "acceptance_gate (record_result a (plain_result\<lparr>r_ok := False, r_error := m\<rparr>) st) = acceptance_gate st"
  by (simp add: acceptance_gate_def plain_result_def)

lemma gate_accepted:
  assumes "sound_result ctx st fs res fs'" and "r_accepted res"
  shows "acceptance_gate (record_result a res st)"
proof -
  obtain v where v: "r_verification res = Some v" using assms by (auto simp: sound_result_def split: option.splits)
  then show ?thesis
    using assms by (auto simp: sound_result_def acceptance_gate_def split: option.splits)
qed

lemma judged_passing: "judged ctx art v \<Longrightarrow> ver_passed v \<or> ver_ok v = Some True \<Longrightarrow> ver_passed v"
  by (auto simp: judged_def answer_passed_def)

lemma verify_call:
  assumes "execute_validated ctx a st fs = (Inr res, fs')" and "action_tool a = ''verify''"
  shows "verify_tool ctx st fs = (Inr res, fs')"
proof -
  obtain nm where nm: "parse_action (json_object ctx) a = Inr nm"
    using assms(1) by (auto simp: execute_validated_def split: sum.splits)
  then have "nm = ''verify''" using assms(2) by (auto simp: parse_action_def bind_err_eq_Inr split: if_splits)
  then show ?thesis using assms(1) nm by (simp add: execute_validated_def TOOLS_def)
qed

lemma accepted_verified_last:
  assumes "execute_validated ctx a st fs = (Inr res, fs')" and "acceptance_gate (record_result a res st)"
  shows "verified_last ctx (record_result a res st) fs'"
proof -
  have "\<exists>art v. artifact_file fs' = Some art \<and> judged ctx art v \<and> ver_passed v" if v: "action_tool a = ''verify''"
  proof -
    have call: "verify_tool ctx st fs = (Inr res, fs')" using assms(1) v by (rule verify_call)
    then have some: "r_verification res \<noteq> None"
      by (auto simp: verify_tool_def bind_err_eq_Inr Let_def split: option.splits)
    then obtain w where w: "r_verification res = Some w" by blast
    moreover have "sound_call ctx st fs (Inr res, fs')" using verify_sound [of ctx st fs] call by simp
    ultimately obtain art where art: "fs' = fs" "artifact_file fs = Some art" "judged ctx art w"
      by (auto simp: sound_call_def sound_result_def)
    moreover have "ver_passed w"
      using assms(2) w judged_passing [OF art(3)] by (simp add: acceptance_gate_def)
    ultimately show ?thesis by auto
  qed
  then show ?thesis by (simp add: verified_last_def)
qed

lemma run_ends: "\<not> acceptance_gate st \<Longrightarrow> ends ctx (st, fs) c n (run_loop ctx elapsed reasoner n st fs c)"
proof (induction n arbitrary: st fs c)
  case 0
  then show ?case by (simp add: ends_failed FAILURES_def)
next
  case (Suc n)
  note closed = Suc.prems
  show ?case
  proof (cases "elapsed (nat (step_count st)) > of_int (timeout_seconds (ctx_config ctx))")
    case True
    then show ?thesis using closed by (simp add: ends_failed FAILURES_def)
  next
    case False
    obtain r c' where act: "next_action (reasoner (trace st)) c = (r, c')" by (cases "next_action (reasoner (trace st)) c")
    have budget: "within_budget c c'" using next_action_within_budget [of c "reasoner (trace st)"] act by simp
    show ?thesis
    proof (cases r)
      case (Inl e)
      then show ?thesis using closed budget False act
        by (cases e) (simp_all add: ends_failed FAILURES_def gratis_reason_def)
    next
      case (Inr a)
      let ?st1 = "st\<lparr>spent_usd := cl_spent_usd c'\<rparr>"
      have charge: "harness_step ctx (st, fs) (?st1, fs)" by (rule harness_step.charge)
      obtain res fs' where ex: "execute_validated ctx a ?st1 fs = (res, fs')" by (cases "execute_validated ctx a ?st1 fs")
      note run = False act Inr ex
      show ?thesis
      proof (cases res)
        case err: (Inl e)
        show ?thesis
        proof (cases e)
          case OtherErr
          then show ?thesis using run err by (simp add: ends_def)
        next
          case (ValueErr msg)
          let ?st2 = "record_result a (plain_result\<lparr>r_ok := False, r_error := Some msg\<rparr>) ?st1"
          have step: "harness_step ctx (?st1, fs) (?st2, fs')"
            using ex err ValueErr by (intro harness_step.refuse) simp
          show ?thesis
          proof (cases "msg = ''unregistered_tool''")
            case True
            have stop: "harness_step ctx (?st1, fs) (?st1, fs')"
              using ex err by (intro harness_step.abandon) simp
            have "ends ctx (?st1, fs') c' n (finished ?st1 fs' c' (Some ''unregistered_tool''))"
              using closed by (intro ends_failed) (simp_all add: FAILURES_def)
            then have "ends ctx (?st1, fs) c' n (finished ?st1 fs' c' (Some ''unregistered_tool''))"
              by (rule ends_step [OF stop within_budget_refl]) simp
            then have "ends ctx (st, fs) c (Suc n) (finished ?st1 fs' c' (Some ''unregistered_tool''))"
              by (rule ends_step [OF charge budget]) simp
            moreover have "run_loop ctx elapsed reasoner (Suc n) st fs c = finished ?st1 fs' c' (Some ''unregistered_tool'')"
              unfolding run_loop.simps using run err ValueErr True by simp
            ultimately show ?thesis by (simp only:)
          next
            case False
            have "ends ctx (?st2, fs') c' n (run_loop ctx elapsed reasoner n ?st2 fs' c')"
              using closed by (intro Suc.IH) simp
            then have "ends ctx (?st1, fs) c' (Suc n) (run_loop ctx elapsed reasoner n ?st2 fs' c')"
              by (rule ends_step [OF step within_budget_refl]) simp
            then have "ends ctx (st, fs) c (Suc n) (run_loop ctx elapsed reasoner n ?st2 fs' c')"
              by (rule ends_step [OF charge budget]) simp
            moreover have "run_loop ctx elapsed reasoner (Suc n) st fs c = run_loop ctx elapsed reasoner n ?st2 fs' c'"
              unfolding run_loop.simps using run err ValueErr False closed by (simp add: Let_def)
            ultimately show ?thesis by (simp only:)
          qed
        qed
      next
        case ok: (Inr w)
        let ?st2 = "record_result a w ?st1"
        have step: "harness_step ctx (?st1, fs) (?st2, fs')" using ex ok by (intro harness_step.answer) simp
        have call: "sound_result ctx ?st1 fs w fs'" using execute_sound [of ctx ?st1 fs a] ex ok by (simp add: sound_call_def)
        let ?out = "if acceptance_gate ?st2 \<or> r_accepted w then finished (succeed ?st2) fs' c' None
            else run_loop ctx elapsed reasoner n ?st2 fs' c'"
        have "ends ctx (?st2, fs') c' n ?out"
        proof (cases "acceptance_gate ?st2")
          case True
          have "verified_last ctx ?st2 fs'" using ex ok True by (intro accepted_verified_last) simp_all
          then show ?thesis using True by (simp add: ends_accepted)
        next
          case False
          then have "\<not> r_accepted w" using gate_accepted [OF call] by blast
          with False show ?thesis using Suc.IH by simp
        qed
        then have "ends ctx (?st1, fs) c' (Suc n) ?out" by (rule ends_step [OF step within_budget_refl]) simp
        then have "ends ctx (st, fs) c (Suc n) ?out" by (rule ends_step [OF charge budget]) simp
        moreover have "run_loop ctx elapsed reasoner (Suc n) st fs c = ?out"
          unfolding run_loop.simps using run ok by (simp add: Let_def)
        ultimately show ?thesis by (simp only:)
      qed
    qed
  qed
qed

section \<open>Properties\<close>

lemma run_reachable:
  assumes "run_autoquant ctx elapsed reasoner fs c = Finished st fs' c'"
  obtains s1 where "(harness_step ctx)\<^sup>*\<^sup>* (running, fs) s1" and "harness_inv ctx (artifact_file fs) s1"
    and "int (length (trace (fst s1))) \<le> max 0 (max_steps (ctx_config ctx))"
    and "ended ctx s1 (st, fs')" and "within_budget c c'"
proof -
  have "ends ctx (running, fs) c (nat (max_steps (ctx_config ctx))) (Finished st fs' c')"
    using assms run_ends [of running ctx fs c "nat (max_steps (ctx_config ctx))" elapsed reasoner]
    by (simp add: run_autoquant_def acceptance_gate_def running_def)
  then obtain s1 where s1: "(harness_step ctx)\<^sup>*\<^sup>* (running, fs) s1"
    "length (trace (fst s1)) \<le> nat (max_steps (ctx_config ctx))" "ended ctx s1 (st, fs')" "within_budget c c'"
    by (auto simp: ends_def running_def)
  have "harness_inv ctx (artifact_file fs) s1" using s1(1) by (rule harness.always) simp
  then show ?thesis using that s1 by simp
qed

lemma gate_passed:
  assumes "\<forall>v. hs_verification st = Some v \<longrightarrow> (\<exists>art. judged ctx art v)"
  shows "acceptance_gate st \<longleftrightarrow> (case hs_verification st of Some v \<Rightarrow> ver_passed v | None \<Rightarrow> False) \<and> met (hs_quality st)"
  using assms judged_passing by (fastforce simp: acceptance_gate_def split: option.splits)

lemma finish_files [simp]:
  "artifact_file (snd (finish st fs r)) = artifact_file fs"
  "allocation_file (snd (finish st fs r)) = allocation_file fs"
  "report_file (snd (finish st fs r)) = Some (fst (finish st fs r))"
  by (simp_all add: finish_def Let_def)

lemma finish_failed:
  "status (fst (finish st fs (Some r))) = FAILED" "failure_reason (fst (finish st fs (Some r))) = Some r"
  "trace (fst (finish st fs (Some r))) = trace st" "step_count (fst (finish st fs (Some r))) = step_count st"
  by (simp_all add: finish_def fail_def Let_def)

lemma finish_succeeded: "finish (succeed st) fs None = (succeed st, fs\<lparr>report_file := Some (succeed st)\<rparr>)"
  by (simp add: finish_def succeed_def Let_def)

text \<open>C14: Every run that returns does so with a verdict and a report of it: it succeeds exactly when in the final state a recorded
  verification passed and the recorded quality meets the objective (the acceptance gate), and otherwise fails with one of five
  reasons; the steps are those of the trace and within the configured limit, the spending stays within the client's
  budget, and the report on disk is the state returned.\<close>

theorem run_reports_verdict:
  assumes "run_autoquant ctx elapsed reasoner fs c = Finished st fs' c'" and "cl_spent_usd c \<le> cl_max_usd c"
  shows "report_file fs' = Some st \<and> step_count st = int (length (trace st)) \<and>
    step_count st \<le> max 0 (max_steps (ctx_config ctx)) \<and> cl_spent_usd c' \<le> cl_max_usd c \<and>
    (if (case hs_verification st of Some v \<Rightarrow> ver_passed v | None \<Rightarrow> False) \<and> met (hs_quality st)
     then status st = SUCCEEDED \<and> failure_reason st = None
     else status st = FAILED \<and> (\<exists>r \<in> FAILURES. failure_reason st = Some r))"
proof -
  obtain s1 where s1: "harness_inv ctx (artifact_file fs) s1"
    "int (length (trace (fst s1))) \<le> max 0 (max_steps (ctx_config ctx))"
    "ended ctx s1 (st, fs')" "within_budget c c'" using assms(1) by (rule run_reachable)
  have steps: "step_count (fst s1) = int (length (trace (fst s1)))" using s1(1) by (cases s1) (simp add: harness_inv_def)
  have money: "cl_spent_usd c' \<le> cl_max_usd c" using s1(4) assms(2) by (simp add: within_budget_def)
  have gate: "acceptance_gate (fst s1) \<longleftrightarrow>
      (case hs_verification (fst s1) of Some v \<Rightarrow> ver_passed v | None \<Rightarrow> False) \<and> met (hs_quality (fst s1))"
    by (rule gate_passed) (use s1(1) in \<open>auto simp: harness_inv_def split: prod.splits\<close>)
  from s1(3) consider (failed) r where "r \<in> FAILURES" "(st, fs') = finish (fst s1) (snd s1) (Some r)" "\<not> acceptance_gate (fst s1)"
    | (ok) "(st, fs') = finish (succeed (fst s1)) (snd s1) None" "acceptance_gate (fst s1)"
    by (auto simp: ended_def)
  then show ?thesis
  proof cases
    case failed
    then have st: "st = fail r (fst s1)" "fs' = (snd s1)\<lparr>report_file := Some (fail r (fst s1))\<rparr>"
      by (simp_all add: finish_def fail_def Let_def)
    then show ?thesis using failed(1) failed(3) [unfolded gate] steps money s1(2) by (simp add: fail_def)
  next
    case ok
    then have st: "st = succeed (fst s1)" "fs' = (snd s1)\<lparr>report_file := Some (succeed (fst s1))\<rparr>"
      by (simp_all add: finish_succeeded)
    then show ?thesis using ok(2) [unfolded gate] steps money s1(2) by (simp add: succeed_def)
  qed
qed

text \<open>C15: What a run leaves at the artifact's path was there before the run, or the packer left it when it was called with an
  allocation that passed the safety rails against the roles of the source; the allocation it reports is such a one and is the one on
  disk. A run that succeeded has had such an artifact pass the verifier, and when its last call is \<open>verify\<close>, that is the artifact on
  disk. When nothing was there before, the packer was called in the run itself.\<close>

theorem run_delivers_railed_artifact:
  assumes "run_autoquant ctx elapsed reasoner fs c = Finished st fs' c'"
  shows "(case artifact_file fs' of Some art \<Rightarrow> Some art = artifact_file fs \<or> packed ctx art | None \<Rightarrow> True) \<and>
    (case allocation st of Some al \<Rightarrow> railed ctx al \<and> allocation_file fs' = Some al | None \<Rightarrow> True) \<and>
    (if status st = SUCCEEDED then
       (\<exists>art v. (Some art = artifact_file fs \<or> packed ctx art) \<and> judged ctx art v \<and> ver_passed v) \<and> verified_last ctx st fs'
     else True)"
proof -
  obtain s1 where s1: "harness_inv ctx (artifact_file fs) s1" "ended ctx s1 (st, fs')"
    using assms(1) by (rule run_reachable)
  obtain st1 fs1 where pair: "s1 = (st1, fs1)" by (cases s1)
  let ?known = "\<lambda>art. Some art = artifact_file fs \<or> packed ctx art"
  have inv: "artifact_file fs1 = Some art \<Longrightarrow> ?known art"
    "allocation st1 = Some al \<Longrightarrow> railed ctx al \<and> allocation_file fs1 = Some al"
    "hs_verification st1 = Some v \<Longrightarrow> \<exists>art. ?known art \<and> judged ctx art v" for art al v
    using s1(1) pair by (auto simp: harness_inv_def)
  from s1(2) consider (failed) r where "(st, fs') = finish st1 fs1 (Some r)"
    | (ok) "(st, fs') = finish (succeed st1) fs1 None" "acceptance_gate st1" "verified_last ctx st1 fs1"
    unfolding pair by (auto simp: ended_def)
  then show ?thesis
  proof cases
    case failed
    then have "st = fail r st1" "fs' = fs1\<lparr>report_file := Some st\<rparr>" by (simp_all add: finish_def fail_def Let_def)
    then show ?thesis using inv by (simp add: fail_def split: option.split)
  next
    case ok
    then have st: "st = succeed st1" "fs' = fs1\<lparr>report_file := Some st\<rparr>" by (simp_all add: finish_succeeded)
    obtain v where v: "hs_verification st1 = Some v" "ver_passed v \<or> ver_ok v = Some True"
      using ok(2) by (auto simp: acceptance_gate_def split: option.splits)
    obtain art where art: "?known art" "judged ctx art v" using inv(3) [OF v(1)] by blast
    then have "\<exists>art v. ?known art \<and> judged ctx art v \<and> ver_passed v"
      using judged_passing [OF art(2) v(2)] by blast
    moreover have "verified_last ctx st fs'" using ok(3) st by (simp add: verified_last_def succeed_def)
    ultimately show ?thesis using inv st(2) by (simp add: st(1) succeed_def split: option.split)
  qed
qed

text \<open>The tools never raise anything the loop does not catch when the operations they call do not.\<close>

definition quiet :: "'art tool_context \<Rightarrow> bool" where
  "quiet ctx \<longleftrightarrow> (\<forall>al old. fst (pack_fn ctx al old) \<noteq> Inl OtherErr) \<and> (\<forall>art. verify_fn ctx art \<noteq> Inl OtherErr) \<and>
     (case pulse_fn ctx of Some f \<Rightarrow> \<forall>st. f st \<noteq> Inl OtherErr | None \<Rightarrow> True)"

lemma bind_err_quiet: "m \<noteq> Inl e \<Longrightarrow> (\<And>x. f x \<noteq> Inl e) \<Longrightarrow> bind_err m f \<noteq> Inl e"
  by (auto simp: bind_err_eq_Inl)

lemma cfgs_of_quiet: "cfgs_of st \<noteq> Inl OtherErr"
  by (auto simp: cfgs_of_def split: option.split list.split)

lemma checked_quiet: "checked ctx cfgs rls \<noteq> Inl OtherErr"
  by (auto simp: checked_def split: sum.split)

lemmas quiet_rules = bind_err_quiet cfgs_of_quiet checked_quiet

lemma tools_quiet:
  assumes "quiet ctx" and "map_of (TOOLS ctx) nm = Some tool"
  shows "fst (tool st fs) \<noteq> Inl OtherErr"
proof -
  have derive: "fst (derive_tool ctx st fs) \<noteq> Inl OtherErr"
    unfolding derive_tool_def Let_def fst_conv by (intro quiet_rules) simp
  have refine: "fst (refine_tool ctx st fs) \<noteq> Inl OtherErr"
    unfolding refine_tool_def Let_def fst_conv by (intro quiet_rules) simp
  have allocate: "fst (allocate_tool ctx st fs) \<noteq> Inl OtherErr"
    by (auto simp: allocate_tool_def Let_def bind_err_eq_Inl cfgs_of_quiet checked_quiet split: sum.split)
  have "fst (pack_fn ctx al old) \<noteq> Inl OtherErr" for al old using assms(1) by (simp add: quiet_def)
  then have pack: "fst (pack_tool ctx st fs) \<noteq> Inl OtherErr"
    by (auto simp: pack_tool_def Let_def prod_eq_iff split: option.split sum.split prod.split)
  have verify: "fst (verify_tool ctx st fs) \<noteq> Inl OtherErr"
    using assms(1) by (auto simp: verify_tool_def quiet_def Let_def bind_err_eq_Inl split: option.split)
  have pulse: "fst (pulse_check_tool ctx st fs) \<noteq> Inl OtherErr"
    using assms(1) by (auto simp: pulse_check_tool_def quiet_def bind_err_eq_Inl split: option.splits)
  have inspect: "fst (inspect_tool ctx st fs) \<noteq> Inl OtherErr" by (simp add: inspect_tool_def Let_def)
  have "(nm, tool) \<in> set (TOOLS ctx)" using assms(2) by (rule map_of_SomeD)
  then have "tool \<in> {inspect_tool ctx, derive_tool ctx, allocate_tool ctx, pack_tool ctx, pulse_check_tool ctx,
      refine_tool ctx, verify_tool ctx}" unfolding TOOLS_def by (auto simp only: list.set insert_iff empty_iff prod.inject)
  then show ?thesis using inspect derive allocate pack pulse refine verify by auto
qed

lemma execute_quiet: "quiet ctx \<Longrightarrow> fst (execute_validated ctx a st fs) \<noteq> Inl OtherErr"
  by (auto simp: execute_validated_def parse_action_def bind_err_eq_Inl
      dest: tools_quiet split: sum.splits option.splits raw_arguments.splits if_splits)

definition returned :: "'art outcome \<Rightarrow> bool" where
  "returned out \<longleftrightarrow> (case out of Finished st fs c \<Rightarrow> status st \<noteq> RUNNING | Escaped st fs \<Rightarrow> False)"

lemma returned_finished [simp]: "returned (finished st fs c r)"
proof -
  have "status (fst (finish st fs r)) \<noteq> RUNNING"
    by (cases r) (simp_all add: finish_def fail_def Let_def)
  then show ?thesis by (simp add: returned_def finished_def split_beta)
qed

text \<open>An exception leaves a run only from a tool, with the step not yet counted.\<close>

definition escapes_ok :: "'art tool_context \<Rightarrow> harness_state \<Rightarrow> 'art files \<Rightarrow> client \<Rightarrow> nat \<Rightarrow> 'art outcome \<Rightarrow> bool" where
  "escapes_ok ctx st fs c n out \<longleftrightarrow>
     (case out of Finished st' fs' c' \<Rightarrow> returned out
      | Escaped st' fs' \<Rightarrow> \<not> quiet ctx \<and> status st' = status st \<and> step_count st' < step_count st + int n \<and>
          report_file fs' = report_file fs \<and> (cl_spent_usd c \<le> cl_max_usd c \<longrightarrow> spent_usd st' \<le> cl_max_usd c))"

lemma escapes_ok_finished [simp]: "escapes_ok ctx st fs c n (finished st1 fs1 c1 r)"
proof -
  obtain st' fs' where "finish st1 fs1 r = (st', fs')" by (cases "finish st1 fs1 r")
  then show ?thesis using returned_finished [of st1 fs1 c1 r] by (simp add: escapes_ok_def finished_def)
qed

lemma escapes_ok_later:
  assumes "escapes_ok ctx st' fs' c' n out" and "status st' = status st" and "step_count st' = step_count st + 1"
    and "report_file fs' = report_file fs" and "within_budget c c'"
  shows "escapes_ok ctx st fs c (Suc n) out"
  using assms by (cases out) (auto simp: escapes_ok_def within_budget_def)

lemma execute_keeps_report: "report_file (snd (execute_validated ctx a st fs)) = report_file fs"
  using execute_sound [of ctx st fs a] by (simp add: sound_call_def sound_files_def)

lemma run_escapes: "escapes_ok ctx st fs c n (run_loop ctx elapsed reasoner n st fs c)"
proof (induction n arbitrary: st fs c)
  case (Suc n)
  obtain r c' where act: "next_action (reasoner (trace st)) c = (r, c')" by (cases "next_action (reasoner (trace st)) c")
  have budget: "within_budget c c'" using next_action_within_budget [of c "reasoner (trace st)"] act by simp
  show ?case
  proof (cases r)
    case (Inl e)
    then show ?thesis unfolding run_loop.simps using act by (cases e) simp_all
  next
    case (Inr a)
    let ?st1 = "st\<lparr>spent_usd := cl_spent_usd c'\<rparr>"
    obtain res fs' where ex: "execute_validated ctx a ?st1 fs = (res, fs')" by (cases "execute_validated ctx a ?st1 fs")
    have report: "report_file fs' = report_file fs" using execute_keeps_report [of ctx a ?st1 fs] ex by simp
    have rest: "escapes_ok ctx st fs c (Suc n) (run_loop ctx elapsed reasoner n (record_result a w ?st1) fs' c')" for w
      by (rule escapes_ok_later [OF Suc.IH _ _ report budget]) simp_all
    show ?thesis
    proof (cases res)
      case err: (Inl e)
      show ?thesis
      proof (cases e)
        case OtherErr
        then have "\<not> quiet ctx" using execute_quiet [of ctx a ?st1 fs] ex err by auto
        moreover have "cl_spent_usd c \<le> cl_max_usd c \<Longrightarrow> cl_spent_usd c' \<le> cl_max_usd c" using budget by (simp add: within_budget_def)
        ultimately have "escapes_ok ctx st fs c (Suc n) (Escaped ?st1 fs')" using report by (simp add: escapes_ok_def)
        then show ?thesis unfolding run_loop.simps using act Inr ex err OtherErr by simp
      next
        case (ValueErr msg)
        then show ?thesis unfolding run_loop.simps using act Inr ex err rest by (simp add: Let_def)
      qed
    next
      case ok: (Inr w)
      then show ?thesis unfolding run_loop.simps using act Inr ex rest by (simp add: Let_def)
    qed
  qed
qed simp


section \<open>A stale verdict is accepted\<close>

text \<open>
  The state keeps the verdict and the quality of an earlier artifact across a later \<open>pack\<close>. The
  script below has its first artifact verified, refines and packs another one, and asks for a quality
  measurement of which there is none: the proxy reports a divergence of zero.
\<close>

definition call :: "string \<Rightarrow> action" where
  "call nm = \<lparr>function_name = Some nm, function_arguments = Some ArgObject, action_name = None, action_arguments = None\<rparr>"

definition script :: "string list \<Rightarrow> (action \<times> tool_result) list \<Rightarrow> response" where
  "script names tr = (if length tr < length names then Answer (1 / 100) [call (names ! length tr)] else Exhausted)"

definition small_config :: run_config where
  "small_config = \<lparr>gratis_base_url = ''http'', rc_model = ''m'', max_usd = 1, max_steps = 20, timeout_seconds = 60,
     rc_objective = ''knee'', rc_target = 1 / 2, rc_group_size = 8\<rparr>"

definition small_context :: "(string \<times> nat list) list tool_context" where
  "small_context = \<lparr>ctx_config = small_config, source_tensors = [(''h.0.mlp.fc1.weight'', [2, 4], 8)],
     source_weights = [(''h.0.mlp.fc1.weight'', Mat [[1, 0, 0, - 1], [1, 1, 0, 1]])], ctx_db = (\<lambda>x. x),
     pack_fn = (\<lambda>al old. (Inr (), Some al)), is_file = (\<lambda>_. True), pulse_fn = None,
     verify_fn = (\<lambda>art. Inr \<lparr>va_ok = Some (list_all (\<lambda>(_, ks). list_all (\<lambda>k. k \<le> 4) ks) art), va_passed = None\<rparr>),
     error_text = (\<lambda>_. ''invalid''), json_object = (\<lambda>_. Inr True)\<rparr>"

definition no_files :: "'art files" where
  "no_files = \<lparr>artifact_file = None, allocation_file = None, report_file = None\<rparr>"

definition fresh_client :: client where
  "fresh_client = \<lparr>cl_max_usd = 1, cl_spent_usd = 0\<rparr>"

definition stale_script :: "string list" where
  "stale_script = [''derive'', ''allocate'', ''pack'', ''verify'', ''refine'', ''allocate'', ''pack'', ''pulse_check'']"

definition honest_script :: "string list" where
  "honest_script = [''inspect'', ''derive'', ''allocate'', ''pack'', ''pulse_check'', ''verify'']"

text \<open>an accepted run may deliver an artifact the verifier rejects: the verdict that opened the gate
  was given on the artifact the last \<open>pack\<close> replaced, and the quality that opened it is the proxy.\<close>

theorem stale_verdict_accepted:
  "\<exists>st fs c. run_autoquant small_context (\<lambda>_. 0) (script stale_script) no_files fresh_client = Finished st fs c \<and>
     status st = SUCCEEDED \<and> artifact_file fs = Some [(''h.0.mlp.fc1.weight'', [8, 8])] \<and>
     verify_fn small_context [(''h.0.mlp.fc1.weight'', [8, 8])] = Inr \<lparr>va_ok = Some False, va_passed = None\<rparr>"
proof -
  have "case run_autoquant small_context (\<lambda>_. 0) (script stale_script) no_files fresh_client of
      Finished st fs c \<Rightarrow> status st = SUCCEEDED \<and> artifact_file fs = Some [(''h.0.mlp.fc1.weight'', [8, 8])]
    | Escaped st fs \<Rightarrow> False"
    by code_simp
  moreover have "verify_fn small_context [(''h.0.mlp.fc1.weight'', [8, 8])] = Inr \<lparr>va_ok = Some False, va_passed = None\<rparr>"
    by (simp add: small_context_def)
  ultimately show ?thesis by (auto split: outcome.splits)
qed

lemma honest_run:
  obtains st fs c where
    "run_autoquant small_context (\<lambda>_. 0) (script honest_script) no_files fresh_client = Finished st fs c"
    and "status st = SUCCEEDED" and "artifact_file fs = Some [(''h.0.mlp.fc1.weight'', [4, 4])]"
proof -
  have "case run_autoquant small_context (\<lambda>_. 0) (script honest_script) no_files fresh_client of
      Finished st fs c \<Rightarrow> status st = SUCCEEDED \<and> artifact_file fs = Some [(''h.0.mlp.fc1.weight'', [4, 4])]
    | Escaped st fs \<Rightarrow> False"
    by code_simp
  then show ?thesis using that by (auto split: outcome.splits)
qed

theorem run_reports_verdict_witness:
  "\<exists>st fs c. run_autoquant small_context (\<lambda>_. 0) (script honest_script) no_files fresh_client = Finished st fs c \<and>
     step_count st \<le> 20 \<and> cl_spent_usd c \<le> 1 \<and> met (hs_quality st)"
proof -
  obtain st fs c where run: "run_autoquant small_context (\<lambda>_. 0) (script honest_script) no_files fresh_client = Finished st fs c"
    "status st = SUCCEEDED" by (rule honest_run)
  from run_reports_verdict [OF run(1)] run show ?thesis
    by (auto simp: fresh_client_def small_context_def small_config_def split: if_splits)
qed

theorem run_delivers_railed_artifact_witness:
  "packed small_context [(''h.0.mlp.fc1.weight'', [4, 4])]"
proof -
  obtain st fs c where run: "run_autoquant small_context (\<lambda>_. 0) (script honest_script) no_files fresh_client = Finished st fs c"
    "artifact_file fs = Some [(''h.0.mlp.fc1.weight'', [4, 4])]" by (rule honest_run)
  from run_delivers_railed_artifact [OF run(1)] run(2) show ?thesis by (simp add: no_files_def)
qed

text \<open>A packer that runs out of memory after it has written something.\<close>

definition failing_context :: "(string \<times> nat list) list tool_context" where
  "failing_context = small_context\<lparr>pack_fn := (\<lambda>al old. (Inl OtherErr, Some al))\<rparr>"


end
