(* ===== verification/Container.thy ===== *)
theory Container
  imports Bytes
begin

text \<open>
  \<open>orka/artifact/container.py\<close>: an artifact directory folded into one file and expanded back.

  A directory is the list of its files (relative path and content) in the order the code sorts them;
  the file system an expansion writes to is a map from paths to contents. \<open>json.dumps\<close>/\<open>json.loads\<close>
  on headers and SHA-256 are parameters: what the code relies on of them is \<open>codec_ok\<close>.
\<close>

section \<open>The format\<close>

record entry =
  e_begin :: nat
  e_end :: nat

record header =
  h_entries :: "(string \<times> entry) list"
  h_version :: "string option"
  h_name :: string
  h_count :: nat
  h_empty :: "string list"
  h_sha256 :: "byte list option"

record codec =
  dumps :: "header \<Rightarrow> byte list"
  loads :: "byte list \<Rightarrow> header option"
  hexdigest :: "byte list \<Rightarrow> byte list"

datatype container_error =
  NoFilesUnder | NoPlaceholder | ShortHeader | BadJson | NotAContainer | TruncatedInside string

definition CONTAINER_VERSION :: string where "CONTAINER_VERSION = ''1''"
definition HEADER_ALIGN :: nat where "HEADER_ALIGN = 8"

definition PLACEHOLDER :: "byte list" where "PLACEHOLDER = replicate 64 48"

text \<open>\<open>blob.index(s)\<close>: the first occurrence.\<close>

fun find_sub :: "'a list \<Rightarrow> 'a list \<Rightarrow> nat option" where
  "find_sub p [] = (if p = [] then Some 0 else None)"
| "find_sub p (c # cs) = (if prefix p (c # cs) then Some 0 else map_option Suc (find_sub p cs))"

section \<open>Writing\<close>

text \<open>The loop over the files: entries with their offsets, empty files, and the end of the payload.\<close>

fun layout :: "nat \<Rightarrow> (string \<times> byte list) list \<Rightarrow> (string \<times> entry) list \<times> string list \<times> nat" where
  "layout off [] = ([], [], off)"
| "layout off ((rel, content) # files) =
     (if content = [] then
        (let (es, empty, e) = layout off files in (es, rel # empty, e))
      else
        (let (es, empty, e) = layout (off + length content) files
         in ((rel, \<lparr>e_begin = off, e_end = off + length content\<rparr>) # es, empty, e)))"

definition header_for :: "string \<Rightarrow> (string \<times> byte list) list \<Rightarrow> header" where
  "header_for nm files =
     (let (es, empty, _) = layout 0 files
      in \<lparr>h_entries = es, h_version = Some CONTAINER_VERSION, h_name = nm,
          h_count = length es + length empty, h_empty = empty, h_sha256 = Some PLACEHOLDER\<rparr>)"

definition padded_to :: "nat \<Rightarrow> byte list \<Rightarrow> byte list" where
  "padded_to n blob = blob @ replicate ((n - length blob mod n) mod n) 32"

text \<open>Copying a file chunk by chunk: what is appended to the output and fed to the digest.\<close>

definition copy_chunks :: "nat \<Rightarrow> byte list \<Rightarrow> byte list \<times> byte list \<Rightarrow> byte list \<times> byte list" where
  "copy_chunks k src st = foldl (\<lambda>(out, fed) chunk. (out @ chunk, fed @ chunk)) st (blocks_of k src)"

text \<open>\<open>out.seek(pos); out.write(bs)\<close>\<close>

definition overwrite :: "nat \<Rightarrow> byte list \<Rightarrow> byte list \<Rightarrow> byte list" where
  "overwrite pos bs xs = take pos xs @ bs @ drop (pos + length bs) xs"

record pack_summary =
  ps_files :: nat
  ps_payload_bytes :: nat
  ps_container_bytes :: nat
  ps_sha256 :: "byte list"

definition pack_container ::
  "codec \<Rightarrow> nat \<Rightarrow> string \<Rightarrow> (string \<times> byte list) list \<Rightarrow> container_error + byte list \<times> pack_summary" where
  "pack_container J k nm files =
     (if files = [] then Inl NoFilesUnder
      else
        (let h = header_for nm files;
             blob = padded_to HEADER_ALIGN (dumps J h)
         in case find_sub PLACEHOLDER blob of
              None \<Rightarrow> Inl NoPlaceholder
            | Some ph \<Rightarrow>
                (let digest_at = 8 + ph;
                     (out, fed) = foldl (\<lambda>st rel. copy_chunks k (the (map_of files rel)) st)
                       (le_bytes 8 (length blob) @ blob, []) (map fst (h_entries h));
                     digest = hexdigest J fed;
                     container = overwrite digest_at digest out
                 in Inr (container, \<lparr>ps_files = h_count h, ps_payload_bytes = snd (snd (layout 0 files)),
                      ps_container_bytes = length container, ps_sha256 = digest\<rparr>))))"

section \<open>Reading\<close>

definition header_of :: "codec \<Rightarrow> byte list \<Rightarrow> container_error + header \<times> nat" where
  "header_of J img =
     (if length img < 8 then Inl ShortHeader
      else
        (let n = le_val (take 8 img)
         in case loads J (take n (drop 8 img)) of None \<Rightarrow> Inl BadJson | Some h \<Rightarrow> Inr (h, 8 + n)))"

function copy_span ::
  "nat \<Rightarrow> string \<Rightarrow> byte list \<Rightarrow> nat \<Rightarrow> nat \<Rightarrow> byte list \<Rightarrow> container_error + byte list" where
  "copy_span k rel img pos remaining acc =
     (if remaining = 0 then Inr acc
      else
        (let chunk = take (min k remaining) (drop pos img)
         in if chunk = [] then Inl (TruncatedInside rel)
            else copy_span k rel img (pos + length chunk) (remaining - length chunk) (acc @ chunk)))"
  by pat_completeness auto
termination
  by (relation "measure (\<lambda>(k, rel, img, pos, remaining, acc). remaining)") (auto simp: min_def)

declare copy_span.simps [simp del]

definition expand_entry ::
  "nat \<Rightarrow> byte list \<Rightarrow> nat \<Rightarrow> (string \<rightharpoonup> byte list) \<times> nat \<Rightarrow> string \<times> entry
    \<Rightarrow> container_error + (string \<rightharpoonup> byte list) \<times> nat" where
  "expand_entry k img base st item =
     (case st of (dir, written) \<Rightarrow> case item of (rel, e) \<Rightarrow>
        bind_err (copy_span k rel img (base + e_begin e) (e_end e - e_begin e) [])
          (\<lambda>content. Inr (dir(rel \<mapsto> content), written + 1)))"

definition unpack_container ::
  "codec \<Rightarrow> nat \<Rightarrow> byte list \<Rightarrow> (string \<rightharpoonup> byte list) \<Rightarrow> container_error + (string \<rightharpoonup> byte list) \<times> nat" where
  "unpack_container J k img dir =
     bind_err (header_of J img) (\<lambda>(h, base).
       if h_version h = None then Inl NotAContainer
       else
         bind_err (foldM (expand_entry k img base) (dir, 0) (sort_key (\<lambda>(rel, e). e_begin e) (h_entries h)))
           (\<lambda>(dir1, written). Inr (foldl (\<lambda>(d, w) rel. (d(rel \<mapsto> []), w + 1)) (dir1, written) (h_empty h))))"

record container_summary =
  cs_files :: nat
  cs_payload_bytes :: nat
  cs_complete :: bool
  cs_sha256 :: "byte list option"

definition container_info :: "codec \<Rightarrow> byte list \<Rightarrow> container_error + container_summary" where
  "container_info J img =
     bind_err (header_of J img) (\<lambda>(h, base).
       (let payload = fold max (map (\<lambda>(rel, e). e_end e) (h_entries h)) 0
        in Inr \<lparr>cs_files = h_count h, cs_payload_bytes = payload,
                cs_complete = int (length img) - int base \<ge> int payload, cs_sha256 = h_sha256 h\<rparr>))"

definition verify_container :: "codec \<Rightarrow> nat \<Rightarrow> byte list \<Rightarrow> container_error + bool" where
  "verify_container J k img =
     bind_err (header_of J img) (\<lambda>(h, base).
       (let actual = hexdigest J (snd (copy_chunks k (drop base img) ([], [])))
        in Inr (h_sha256 h = Some actual)))"

section \<open>Chunked copies\<close>

lemma foldl_chunks: "foldl (\<lambda>(out, fed) chunk. (out @ chunk, fed @ chunk)) (o1, f1) cs = (o1 @ concat cs, f1 @ concat cs)"
  by (induction cs arbitrary: o1 f1) simp_all

lemma copy_chunks_eq: "0 < k \<Longrightarrow> copy_chunks k src (out, fed) = (out @ src, fed @ src)"
  by (simp add: copy_chunks_def foldl_chunks)

lemma copy_span_step:
  assumes "remaining \<noteq> 0" and "take (min k remaining) (drop pos img) \<noteq> []"
  shows "copy_span k rel img pos remaining acc =
    copy_span k rel img (pos + length (take (min k remaining) (drop pos img)))
      (remaining - length (take (min k remaining) (drop pos img))) (acc @ take (min k remaining) (drop pos img))"
  by (subst copy_span.simps) (simp only: Let_def assms if_False)

lemma copy_span_eq:
  assumes "0 < k" and "pos + remaining \<le> length img"
  shows "copy_span k rel img pos remaining acc = Inr (acc @ take remaining (drop pos img))"
  using assms
proof (induction k rel img pos remaining acc rule: copy_span.induct)
  case (1 k rel img pos remaining acc)
  show ?case
  proof (cases "remaining = 0")
    case True
    then show ?thesis by (simp add: copy_span.simps)
  next
    case False
    let ?n = "min k remaining"
    let ?chunk = "take ?n (drop pos img)"
    have len: "length ?chunk = ?n" using "1.prems"(2) by simp
    then have ne: "?chunk \<noteq> []" using False "1.prems"(1) by auto
    have "copy_span k rel img (pos + length ?chunk) (remaining - length ?chunk) (acc @ ?chunk) =
        Inr ((acc @ ?chunk) @ take (remaining - ?n) (drop (pos + ?n) img))"
      using "1.IH" [OF False refl ne] "1.prems" len by simp
    moreover have "take remaining (drop pos img) = ?chunk @ take (remaining - ?n) (drop (pos + ?n) img)"
      using take_add [of ?n "remaining - ?n" "drop pos img"] by (simp add: add.commute)
    ultimately show ?thesis unfolding copy_span_step [OF False ne] by simp
  qed
qed

lemma copy_span_short:
  assumes "length img < pos + remaining" and "0 < remaining"
  shows "copy_span k rel img pos remaining acc = Inl (TruncatedInside rel)"
  using assms
proof (induction k rel img pos remaining acc rule: copy_span.induct)
  case (1 k rel img pos remaining acc)
  let ?chunk = "take (min k remaining) (drop pos img)"
  show ?case
  proof (cases "?chunk = []")
    case True
    then show ?thesis using "1.prems"(2) by (simp add: copy_span.simps)
  next
    case False
    have "length ?chunk \<le> length img - pos" by simp
    then have "length img < pos + length ?chunk + (remaining - length ?chunk)" "0 < remaining - length ?chunk"
      using "1.prems" False by auto
    moreover have ne: "remaining \<noteq> 0" using "1.prems"(2) by simp
    ultimately show ?thesis unfolding copy_span_step [OF ne False] using "1.IH" [OF ne refl False] by blast
  qed
qed

section \<open>What the layout says\<close>

abbreviation payload :: "(string \<times> byte list) list \<Rightarrow> byte list" where
  "payload files \<equiv> concat (map snd files)"

abbreviation nonempty_files :: "(string \<times> byte list) list \<Rightarrow> (string \<times> byte list) list" where
  "nonempty_files files \<equiv> filter (\<lambda>f. snd f \<noteq> []) files"

abbreviation empty_files :: "(string \<times> byte list) list \<Rightarrow> (string \<times> byte list) list" where
  "empty_files files \<equiv> filter (\<lambda>f. snd f = []) files"

lemma layout_names:
  "map fst (fst (layout off files)) = map fst (nonempty_files files) \<and>
   fst (snd (layout off files)) = map fst (empty_files files) \<and>
   snd (snd (layout off files)) = off + length (payload files)"
  by (induction off files rule: layout.induct) (auto simp: split_beta)

lemma layout_sorted:
  "sorted (map (\<lambda>(rel, e). e_begin e) (fst (layout off files))) \<and>
   (\<forall>(rel, e) \<in> set (fst (layout off files)). off \<le> e_begin e \<and> e_end e \<le> off + length (payload files))"
proof (induction off files rule: layout.induct)
  case (2 off rel content files)
  show ?case
  proof (cases "content = []")
    case True
    then show ?thesis using "2.IH"(1) by (simp add: split_beta)
  next
    case False
    have one: "fst (layout off ((rel, content) # files)) =
        (rel, \<lparr>e_begin = off, e_end = off + length content\<rparr>) # fst (layout (off + length content) files)"
      using False by (simp add: split_beta)
    show ?thesis using "2.IH"(2) [OF False] unfolding one by (fastforce simp: split_beta)
  qed
qed simp

lemma layout_ends: "fold max (map (\<lambda>(rel, e). e_end e) (fst (layout off files))) 0 =
    (if payload files = [] then 0 else off + length (payload files))"
proof (induction off files rule: layout.induct)
  case (2 off rel content files)
  show ?case
  proof (cases "content = []")
    case False
    have mx: "fold max xs (a :: nat) = max a (fold max xs 0)" for a xs
    proof (induction xs arbitrary: a)
      case (Cons x xs)
      from Cons [of "max x a"] Cons [of x] show ?case by simp
    qed simp
    have "fold max (map (\<lambda>(rel, e). e_end e) (fst (layout off ((rel, content) # files)))) 0 =
        fold max (map (\<lambda>(rel, e). e_end e) (fst (layout (off + length content) files))) (off + length content)"
      using False by (simp add: split_beta)
    also have "\<dots> = max (off + length content) (fold max (map (\<lambda>(rel, e). e_end e) (fst (layout (off + length content) files))) 0)"
      by (rule mx)
    finally show ?thesis
      unfolding "2.IH"(2) [OF False] using False by (cases "payload files = []") simp_all
  qed (use 2 in \<open>simp add: split_beta\<close>)
qed simp

lemma foldl_update: "foldl (\<lambda>d (r, c). d(r \<mapsto> c)) m xs = m ++ map_of (rev xs)"
  by (induction xs arbitrary: m) (auto simp: map_add_assoc [symmetric] split_beta)

lemma foldl_update_empty:
  "foldl (\<lambda>(d, w) rel. (d(rel \<mapsto> []), w + 1)) (m, n) (map fst (empty_files files)) =
    (foldl (\<lambda>d (r, c). d(r \<mapsto> c)) m (empty_files files), n + length (empty_files files))"
  by (induction files arbitrary: m n) auto

lemma map_of_split:
  assumes "distinct (map fst xs)"
  shows "map_of (rev (filter P xs)) ++ map_of (rev (filter (\<lambda>x. \<not> P x) xs)) = map_of xs"
proof -
  have d: "distinct (map fst (filter Q xs))" for Q using assms by (simp add: distinct_map_filter)
  have rev: "map_of (rev (filter Q xs)) = map_of (filter Q xs)" for Q
    by (rule map_of_eqI) (auto simp: d map_of_eq_Some_iff rev_map [symmetric])
  show ?thesis unfolding rev
  proof
    fix x
    have iff: "map_of (filter Q xs) x = Some y \<longleftrightarrow> (x, y) \<in> set xs \<and> Q (x, y)" for Q y
      using d [of Q] by (auto simp: map_of_eq_Some_iff)
    show "(map_of (filter P xs) ++ map_of (filter (\<lambda>x. \<not> P x) xs)) x = map_of xs x"
    proof (cases "map_of xs x")
      case None
      then have "x \<notin> fst ` set xs" by (simp add: map_of_eq_None_iff)
      then have "map_of (filter Q xs) x = None" for Q by (auto simp: map_of_eq_None_iff)
      then show ?thesis using None by (simp add: map_add_def)
    next
      case (Some y)
      then have y: "(x, y) \<in> set xs" by (rule map_of_SomeD)
      then have uniq: "(x, z) \<in> set xs \<Longrightarrow> z = y" for z using Some assms by (metis map_of_is_SomeI option.inject)
      show ?thesis
      proof (cases "P (x, y)")
        case True
        then have "map_of (filter (\<lambda>x. \<not> P x) xs) x = None" using iff uniq by (metis (full_types) not_Some_eq)
        moreover have "map_of (filter P xs) x = Some y" using iff y True by simp
        ultimately show ?thesis using Some by (simp add: map_add_def)
      next
        case False
        then have "map_of (filter (\<lambda>x. \<not> P x) xs) x = Some y" using iff y by simp
        then show ?thesis using Some by (simp add: map_add_def)
      qed
    qed
  qed
qed

lemma copy_files:
  assumes "0 < k" and "\<forall>(r, c) \<in> set files. map_of all r = Some c"
  shows "foldl (\<lambda>st rel. copy_chunks k (the (map_of all rel)) st) (out, fed) (map fst (nonempty_files files)) =
    (out @ payload files, fed @ payload files)"
  using assms by (induction files arbitrary: out fed) (auto simp: copy_chunks_eq)

lemma expand_entries:
  assumes "0 < k" and "base + off + length (payload files) \<le> length img"
    and "take (length (payload files)) (drop (base + off) img) = payload files"
  shows "foldM (expand_entry k img base) (dir, w) (fst (layout off files)) =
    Inr (foldl (\<lambda>d (r, c). d(r \<mapsto> c)) dir (nonempty_files files), w + length (nonempty_files files))"
  using assms
proof (induction off files arbitrary: dir w rule: layout.induct)
  case (2 off rel content files)
  show ?case
  proof (cases "content = []")
    case True
    then show ?thesis using 2 by (simp add: split_beta)
  next
    case False
    let ?img = "drop (base + off) img"
    have parts: "take (length content) ?img = content"
      "take (length (payload files)) (drop (length content) ?img) = payload files"
    proof -
      have "length (take (length content) ?img) = length content" using "2.prems"(2) by simp
      moreover have "take (length content) ?img @ take (length (payload files)) (drop (length content) ?img) =
          content @ payload files"
        using "2.prems"(3) by (simp add: take_add)
      ultimately show "take (length content) ?img = content"
        "take (length (payload files)) (drop (length content) ?img) = payload files"
        by (metis append_eq_append_conv)+
    qed
    have span: "copy_span k rel img (base + off) (length content) [] = Inr content"
      using "2.prems"(1,2) parts(1) by (subst copy_span_eq) simp_all
    have "take (length (payload files)) (drop (base + (off + length content)) img) = payload files"
      using parts(2) by (simp add: add_ac)
    moreover have "base + (off + length content) + length (payload files) \<le> length img" using "2.prems"(2) by simp
    ultimately have rest: "foldM (expand_entry k img base) (dir(rel \<mapsto> content), w + 1) (fst (layout (off + length content) files)) =
        Inr (foldl (\<lambda>d (r, c). d(r \<mapsto> c)) (dir(rel \<mapsto> content)) (nonempty_files files), w + 1 + length (nonempty_files files))"
      using parts(2) by (intro "2.IH"(2) [OF False "2.prems"(1)]) (simp_all add: add_ac)
    have "expand_entry k img base (dir, w) (rel, \<lparr>e_begin = off, e_end = off + length content\<rparr>) =
        Inr (dir(rel \<mapsto> content), w + 1)"
      by (simp add: expand_entry_def span)
    moreover have "fst (layout off ((rel, content) # files)) =
        (rel, \<lparr>e_begin = off, e_end = off + length content\<rparr>) # fst (layout (off + length content) files)"
      using False by (simp add: split_beta)
    moreover have "nonempty_files ((rel, content) # files) = (rel, content) # nonempty_files files" using False by simp
    ultimately show ?thesis using rest by (simp only: foldM.simps bind_err_simps foldl.simps prod.case list.size) simp
  qed
qed simp

section \<open>The contract of the libraries\<close>

definition hex64 :: "byte list \<Rightarrow> bool" where
  "hex64 s \<longleftrightarrow> length s = 64 \<and> list_all (\<lambda>b. (48 \<le> b \<and> b \<le> 57) \<or> (97 \<le> b \<and> b \<le> 102)) s"

text \<open>
  For the header of the artifact at hand: \<open>json.loads\<close> undoes \<open>json.dumps\<close>, white space after the
  value included; a hexadecimal digest appears verbatim in the text, and its placeholder is not found
  earlier (no path contains 64 zeros).
\<close>

definition codec_ok :: "codec \<Rightarrow> header \<Rightarrow> bool" where
  "codec_ok J h \<longleftrightarrow>
     (\<forall>bs. hex64 (hexdigest J bs)) \<and>
     (\<forall>s n. hex64 s \<longrightarrow> loads J (dumps J (h\<lparr>h_sha256 := Some s\<rparr>) @ replicate n 32) = Some (h\<lparr>h_sha256 := Some s\<rparr>)) \<and>
     (\<exists>pre post. (\<forall>s. hex64 s \<longrightarrow> dumps J (h\<lparr>h_sha256 := Some s\<rparr>) = pre @ s @ post) \<and>
       find_sub PLACEHOLDER (pre @ PLACEHOLDER) = Some (length pre))"

lemma hex64_placeholder: "hex64 PLACEHOLDER"
  by (simp add: hex64_def PLACEHOLDER_def list_all_length)

lemma find_sub_append: "find_sub p xs = Some i \<Longrightarrow> find_sub p (xs @ ys) = Some i"
proof (induction xs arbitrary: i)
  case Nil
  then show ?case by (cases ys) (simp_all split: if_splits)
next
  case (Cons x xs)
  show ?case
  proof (cases "prefix p (x # xs)")
    case True
    then have "prefix p ((x # xs) @ ys)" by (rule prefix_prefix)
    then show ?thesis using Cons.prems True by simp
  next
    case False
    then obtain j where j: "find_sub p xs = Some j" "i = Suc j" using Cons.prems by auto
    have "\<not> prefix p (x # xs @ ys)"
    proof
      assume p: "prefix p (x # xs @ ys)"
      have len: "find_sub p zs = Some l \<Longrightarrow> l + length p \<le> length zs" for zs l
        by (induction zs arbitrary: l) (auto split: if_splits dest: prefix_length_le)
      have "length p \<le> length (x # xs)" using len [OF j(1)] by simp
      then have "prefix p (x # xs)" using p by (metis append_Cons prefix_length_prefix prefixI)
      with False show False by simp
    qed
    then show ?thesis using Cons.IH [OF j(1)] j(2) by simp
  qed
qed

text \<open>The bytes a container consists of.\<close>

lemma pack_container_bytes:
  assumes "files \<noteq> []" and "distinct (map fst files)" and "0 < k" and "codec_ok J (header_for nm files)"
    and "length (padded_to HEADER_ALIGN (dumps J (header_for nm files))) < 256 ^ 8"
  obtains img sm n where "pack_container J k nm files = Inr (img, sm)"
    and "img = le_bytes 8 (length (dumps J ((header_for nm files)\<lparr>h_sha256 := Some (hexdigest J (payload files))\<rparr>)) + n) @
        dumps J ((header_for nm files)\<lparr>h_sha256 := Some (hexdigest J (payload files))\<rparr>) @ replicate n 32 @ payload files"
    and "length (dumps J ((header_for nm files)\<lparr>h_sha256 := Some (hexdigest J (payload files))\<rparr>)) + n < 256 ^ 8"
    and "ps_payload_bytes sm = length (payload files)" and "ps_sha256 sm = hexdigest J (payload files)"
    and "ps_files sm = length files" and "ps_container_bytes sm = length img"
proof -
  let ?h = "header_for nm files"
  let ?digest = "hexdigest J (payload files)"
  obtain pre post where frame: "\<And>s. hex64 s \<Longrightarrow> dumps J (?h\<lparr>h_sha256 := Some s\<rparr>) = pre @ s @ post"
    and first: "find_sub PLACEHOLDER (pre @ PLACEHOLDER) = Some (length pre)"
    using assms(4) by (auto simp: codec_ok_def)
  have hex: "hex64 ?digest" using assms(4) by (simp add: codec_ok_def)
  have "?h\<lparr>h_sha256 := Some PLACEHOLDER\<rparr> = ?h" by (simp add: header_for_def split_beta)
  then have dump: "dumps J ?h = pre @ PLACEHOLDER @ post" using frame [OF hex64_placeholder] by simp
  define n where "n = (HEADER_ALIGN - length (dumps J ?h) mod HEADER_ALIGN) mod HEADER_ALIGN"
  have blob: "padded_to HEADER_ALIGN (dumps J ?h) = pre @ PLACEHOLDER @ post @ replicate n 32"
    using dump by (simp add: padded_to_def n_def)
  have found: "find_sub PLACEHOLDER (pre @ PLACEHOLDER @ post @ replicate n 32) = Some (length pre)"
    using find_sub_append [OF first, of "post @ replicate n 32"] by simp
  have names: "map fst (h_entries ?h) = map fst (nonempty_files files)"
    using layout_names [of 0 files] by (simp add: header_for_def split_beta)
  have "\<forall>(r, c) \<in> set files. map_of files r = Some c" using assms(2) by auto
  then have copy: "foldl (\<lambda>st rel. copy_chunks k (the (map_of files rel)) st) (out, []) (map fst (h_entries ?h)) =
      (out @ payload files, payload files)" for out
    unfolding names using copy_files [OF assms(3), of files files out "[]"] by simp
  let ?blob = "pre @ PLACEHOLDER @ post @ replicate n 32"
  let ?img = "overwrite (8 + length pre) ?digest (le_bytes 8 (length ?blob) @ ?blob @ payload files)"
  let ?sm = "\<lparr>ps_files = h_count ?h, ps_payload_bytes = snd (snd (layout 0 files)),
      ps_container_bytes = length ?img, ps_sha256 = ?digest\<rparr>"
  have run: "pack_container J k nm files = Inr (?img, ?sm)"
    using assms(1) by (simp add: pack_container_def blob found copy Let_def)
  have len: "length ?digest = 64" using hex by (simp add: hex64_def)
  have img: "?img = le_bytes 8 (length (dumps J (?h\<lparr>h_sha256 := Some ?digest\<rparr>)) + n) @
      dumps J (?h\<lparr>h_sha256 := Some ?digest\<rparr>) @ replicate n 32 @ payload files"
    using len by (simp add: overwrite_def frame [OF hex] PLACEHOLDER_def add_ac)
  have "length (dumps J (?h\<lparr>h_sha256 := Some ?digest\<rparr>)) + n < 256 ^ 8"
    using assms(5) len unfolding blob frame [OF hex] by (simp add: PLACEHOLDER_def)
  moreover have "h_count ?h = length files"
    using layout_names [of 0 files] sum_length_filter_compl [of "\<lambda>f. snd f \<noteq> []" files]
    by (simp add: header_for_def split_beta) (metis length_map)
  ultimately show ?thesis using that [OF run img] layout_names [of 0 files] by simp
qed

lemma read_header:
  assumes "n1 = length blob + n" and "n1 < 256 ^ 8" and "loads J (blob @ replicate n 32) = Some h"
  shows "header_of J (le_bytes 8 n1 @ blob @ replicate n 32 @ rest) = Inr (h, 8 + n1)"
  using assms by (simp add: header_of_def le_val_le_bytes Let_def)

text \<open>A container is its head, which reads as the final header whatever follows it, and the payload.\<close>

lemma packed_container:
  assumes "files \<noteq> []" and "distinct (map fst files)" and "0 < k" and "codec_ok J (header_for nm files)"
    and "length (padded_to HEADER_ALIGN (dumps J (header_for nm files))) < 256 ^ 8"
  obtains head sm where "pack_container J k nm files = Inr (head @ payload files, sm)"
    and "\<forall>rest. header_of J (head @ rest) =
      Inr ((header_for nm files)\<lparr>h_sha256 := Some (hexdigest J (payload files))\<rparr>, length head)"
    and "ps_sha256 sm = hexdigest J (payload files)"
proof -
  let ?d = "hexdigest J (payload files)"
  let ?h = "(header_for nm files)\<lparr>h_sha256 := Some ?d\<rparr>"
  obtain img sm n where run: "pack_container J k nm files = Inr (img, sm)"
    and img: "img = le_bytes 8 (length (dumps J ?h) + n) @ dumps J ?h @ replicate n 32 @ payload files"
    and small: "length (dumps J ?h) + n < 256 ^ 8" and sha: "ps_sha256 sm = ?d"
    by (rule pack_container_bytes [OF assms])
  let ?head = "le_bytes 8 (length (dumps J ?h) + n) @ dumps J ?h @ replicate n 32"
  have "hex64 ?d" using assms(4) by (simp add: codec_ok_def)
  then have "loads J (dumps J ?h @ replicate n 32) = Some ?h" using assms(4) by (simp add: codec_ok_def)
  then have "header_of J (?head @ rest) = Inr (?h, length ?head)" for rest
    using read_header [of "length (dumps J ?h) + n" "dumps J ?h" n J ?h rest] small by simp
  moreover have "pack_container J k nm files = Inr (?head @ payload files, sm)" using run img by simp
  ultimately show ?thesis using that sha by blast
qed

lemma header_for_fields:
  "h_entries (header_for nm files) = fst (layout 0 files)"
  "h_empty (header_for nm files) = map fst (empty_files files)"
  "h_version (header_for nm files) = Some CONTAINER_VERSION"
  "h_count (header_for nm files) = length files"
  using layout_names [of 0 files] sum_length_filter_compl [of "\<lambda>f. snd f \<noteq> []" files]
  by (simp_all add: header_for_def split_beta) (metis length_map)

lemma layout_sort: "sort_key (\<lambda>(rel, e). e_begin e) (fst (layout 0 files)) = fst (layout 0 files)"
  using layout_sorted [of 0 files] by (intro sort_key_id_if_sorted) simp

lemma expand_truncated:
  assumes "length img < base + off + length (payload files)" and "payload files \<noteq> []" and "0 < k"
  shows "\<exists>r. foldM (expand_entry k img base) (dir, w) (fst (layout off files)) = Inl (TruncatedInside r)"
  using assms
proof (induction off files arbitrary: dir w rule: layout.induct)
  case (2 off rel content files)
  show ?case
  proof (cases "content = []")
    case True
    then show ?thesis using 2 by (simp add: split_beta)
  next
    case False
    let ?e = "\<lparr>e_begin = off, e_end = off + length content\<rparr>"
    have es: "fst (layout off ((rel, content) # files)) = (rel, ?e) # fst (layout (off + length content) files)"
      using False by (simp add: split_beta)
    show ?thesis
    proof (cases "length img < base + off + length content")
      case True
      then have "expand_entry k img base (dir, w) (rel, ?e) = Inl (TruncatedInside rel)"
        using False copy_span_short [of img "base + off" "length content" k rel "[]"] by (simp add: expand_entry_def)
      then show ?thesis unfolding es by simp
    next
      case whole: False
      then have "payload files \<noteq> []" using "2.prems"(1) by (cases "payload files") simp_all
      then have rest: "\<exists>r. foldM (expand_entry k img base) (dir', w') (fst (layout (off + length content) files)) =
          Inl (TruncatedInside r)" for dir' w'
        using "2.IH"(2) [OF False] "2.prems"(1,3) by (simp add: add_ac)
      have "expand_entry k img base (dir, w) (rel, ?e) = Inr (dir(rel \<mapsto> take (length content) (drop (base + off) img)), w + 1)"
        using copy_span_eq [OF "2.prems"(3), of "base + off" "length content" img rel "[]"] whole
        by (simp add: expand_entry_def)
      then show ?thesis unfolding es foldM.simps using rest by simp
    qed
  qed
qed simp

section \<open>Properties\<close>

text \<open>C17: a container carries a directory without loss: expanding what \<open>pack_container\<close> wrote, with any
  chunk sizes on either side, leaves every file of the directory with its content (empty files
  included), whatever was in the target before for other paths, and writes exactly that many files;
  the container verifies, and its header describes it as complete.\<close>

theorem container_roundtrip:
  assumes "files \<noteq> []" and "distinct (map fst files)" and "0 < k" and "0 < k'"
    and "codec_ok J (header_for nm files)"
    and "length (padded_to HEADER_ALIGN (dumps J (header_for nm files))) < 256 ^ 8"
  shows "\<exists>img sm. pack_container J k nm files = Inr (img, sm) \<and>
    unpack_container J k' img dir = Inr (dir ++ map_of files, length files) \<and>
    verify_container J k' img = Inr True \<and>
    container_info J img = Inr \<lparr>cs_files = length files, cs_payload_bytes = length (payload files),
      cs_complete = True, cs_sha256 = Some (ps_sha256 sm)\<rparr>"
proof -
  obtain head sm where run: "pack_container J k nm files = Inr (head @ payload files, sm)"
    and head: "\<forall>rest. header_of J (head @ rest) =
      Inr ((header_for nm files)\<lparr>h_sha256 := Some (hexdigest J (payload files))\<rparr>, length head)"
    and sha: "ps_sha256 sm = hexdigest J (payload files)"
    by (rule packed_container [OF assms(1,2,3,5,6)])
  let ?img = "head @ payload files"
  have expand: "foldM (expand_entry k' ?img (length head)) (dir, 0) (fst (layout 0 files)) =
      Inr (foldl (\<lambda>d (r, c). d(r \<mapsto> c)) dir (nonempty_files files), length (nonempty_files files))"
    using expand_entries [OF assms(4), of "length head" 0 files ?img dir 0] by simp
  have "foldl (\<lambda>d (r, c). d(r \<mapsto> c)) (foldl (\<lambda>d (r, c). d(r \<mapsto> c)) dir (nonempty_files files)) (empty_files files) =
      dir ++ map_of files"
    using map_of_split [OF assms(2), of "\<lambda>f. snd f \<noteq> []"] by (simp add: foldl_update map_add_assoc [symmetric])
  moreover have "length (nonempty_files files) + length (empty_files files) = length files"
    using sum_length_filter_compl [of "\<lambda>f. snd f \<noteq> []" files] by simp
  ultimately have unpack: "unpack_container J k' ?img dir = Inr (dir ++ map_of files, length files)"
    by (simp add: unpack_container_def head header_for_fields layout_sort expand foldl_update_empty [simplified])
  have verify: "verify_container J k' ?img = Inr True"
    by (simp add: verify_container_def head copy_chunks_eq [OF assms(4)] Let_def)
  have "container_info J ?img = Inr \<lparr>cs_files = length files, cs_payload_bytes = length (payload files),
      cs_complete = True, cs_sha256 = Some (hexdigest J (payload files))\<rparr>"
    using layout_ends [of 0 files] by (simp add: container_info_def head header_for_fields Let_def)
  then show ?thesis using run unpack verify sha by auto
qed

text \<open>a container cut short anywhere in its payload is noticed twice: its header no longer describes
  it as complete, and expanding it raises \<open>EOFError\<close> instead of writing a short file; and a payload of
  any other content verifies only if its digest is the recorded one.\<close>

theorem truncated_container_detected:
  assumes "files \<noteq> []" and "distinct (map fst files)" and "0 < k" and "0 < k'"
    and "codec_ok J (header_for nm files)"
    and "length (padded_to HEADER_ALIGN (dumps J (header_for nm files))) < 256 ^ 8"
    and "kept < length (payload files)"
  shows "\<exists>head sm. pack_container J k nm files = Inr (head @ payload files, sm) \<and>
    (\<exists>r. unpack_container J k' (head @ take kept (payload files)) dir = Inl (TruncatedInside r)) \<and>
    (\<exists>info. container_info J (head @ take kept (payload files)) = Inr info \<and> \<not> cs_complete info) \<and>
    verify_container J k' (head @ other) = Inr (hexdigest J other = ps_sha256 sm)"
proof -
  obtain head sm where run: "pack_container J k nm files = Inr (head @ payload files, sm)"
    and head: "\<forall>rest. header_of J (head @ rest) =
      Inr ((header_for nm files)\<lparr>h_sha256 := Some (hexdigest J (payload files))\<rparr>, length head)"
    and sha: "ps_sha256 sm = hexdigest J (payload files)"
    by (rule packed_container [OF assms(1,2,3,5,6)])
  let ?img = "head @ take kept (payload files)"
  have len: "length ?img < length head + 0 + length (payload files)" using assms(7) by simp
  have ne: "payload files \<noteq> []" using assms(7) by (cases "payload files") simp_all
  obtain r where "foldM (expand_entry k' ?img (length head)) (dir, 0) (fst (layout 0 files)) = Inl (TruncatedInside r)"
    using expand_truncated [OF len ne assms(4)] by blast
  then have unpack: "unpack_container J k' ?img dir = Inl (TruncatedInside r)"
    by (simp add: unpack_container_def head header_for_fields layout_sort)
  obtain info where "container_info J ?img = Inr info" "\<not> cs_complete info"
    using layout_ends [of 0 files] assms(7) ne by (simp add: container_info_def head header_for_fields Let_def)
  moreover have "verify_container J k' (head @ other) = Inr (hexdigest J other = ps_sha256 sm)"
    by (auto simp: verify_container_def head sha copy_chunks_eq [OF assms(4)] Let_def)
  ultimately show ?thesis using run unpack by blast
qed

section \<open>A concrete codec\<close>

definition two_files :: "(string \<times> byte list) list" where
  "two_files = [(''a'', [1, 2, 3]), (''b'', []), (''c'', [4])]"

definition toy_codec :: codec where
  "toy_codec =
     \<lparr>dumps = (\<lambda>h. case h_sha256 h of Some s \<Rightarrow> 34 # s @ [34] | None \<Rightarrow> [110]),
      loads = (\<lambda>bs. Some ((header_for ''x'' two_files)\<lparr>h_sha256 := Some (take 64 (tl bs))\<rparr>)),
      hexdigest = (\<lambda>bs. replicate 63 48 @ [49 + of_nat (length bs mod 8)])\<rparr>"

lemma toy_codec_ok: "codec_ok toy_codec (header_for ''x'' two_files)"
proof -
  have digit: "48 \<le> (49 + of_nat (n mod 8) :: byte) \<and> (49 + of_nat (n mod 8) :: byte) \<le> 57" for n
  proof -
    have "n mod 8 < 8" by simp
    then have "n mod 8 \<in> {0, 1, 2, 3, 4, 5, 6, 7}" by auto
    then show ?thesis by auto
  qed
  have "hex64 (hexdigest toy_codec bs)" for bs
    using digit by (simp add: toy_codec_def hex64_def list_all_length nth_append)
  moreover have "find_sub PLACEHOLDER ([34] @ PLACEHOLDER) = Some (length ([34] :: byte list))"
    by (simp add: PLACEHOLDER_def replicate_Suc [of 63, simplified])
  moreover have "loads toy_codec (dumps toy_codec ((header_for ''x'' two_files)\<lparr>h_sha256 := Some s\<rparr>) @ replicate n 32) =
      Some ((header_for ''x'' two_files)\<lparr>h_sha256 := Some s\<rparr>)" if "hex64 s" for s n
    using that by (simp add: toy_codec_def hex64_def)
  moreover have "dumps toy_codec ((header_for ''x'' two_files)\<lparr>h_sha256 := Some s\<rparr>) = [34] @ s @ [34]" for s
    by (simp add: toy_codec_def)
  ultimately show ?thesis unfolding codec_ok_def by blast
qed

lemma toy_codec_small: "length (padded_to HEADER_ALIGN (dumps toy_codec (header_for ''x'' two_files))) < 256 ^ 8"
  by (simp add: toy_codec_def header_for_def split_beta padded_to_def HEADER_ALIGN_def PLACEHOLDER_def)

theorem container_roundtrip_witness:
  "\<exists>img sm. pack_container toy_codec 2 ''x'' two_files = Inr (img, sm) \<and>
    unpack_container toy_codec 3 img Map.empty = Inr (map_of two_files, 3) \<and>
    verify_container toy_codec 3 img = Inr True"
  using container_roundtrip [of two_files 2 3 toy_codec "''x''" Map.empty] toy_codec_ok toy_codec_small
  by (auto simp: two_files_def)

theorem truncated_container_detected_witness:
  "\<exists>head sm. pack_container toy_codec 2 ''x'' two_files = Inr (head @ payload two_files, sm) \<and>
    (\<exists>r. unpack_container toy_codec 3 (head @ take 2 (payload two_files)) Map.empty = Inl (TruncatedInside r))"
proof -
  have "2 < length (payload two_files)" "two_files \<noteq> []" "distinct (map fst two_files)" by (simp_all add: two_files_def)
  then show ?thesis
    using truncated_container_detected [of two_files 2 3 toy_codec "''x''" 2 Map.empty "[]"] toy_codec_ok toy_codec_small
    by (meson zero_less_numeral)
qed

end
