(* ===== verification/Kmeans.thy ===== *)
theory Kmeans
  imports Prelude
begin

text \<open>
  \<open>orka/codebook/_kmeans_numpy.py\<close>: assignment of vectors to their nearest centroid in chunks, the
  centroid sums, and the Lloyd iterations that learn a codebook.

  Values are real numbers. The random seeding of the centroids is a parameter; progress output and the
  memory check between iterations (an exception raised from another thread) are left out.
\<close>

datatype kmeans_error =
  NormLength | IndicesLength | IndexOutOfBounds | WeightsLength | NoCentroids | ZeroDivision | EmptyVectors
  | BadCodebookSize | BadIterations | MaskLength

type_synonym vec = "real list"

section \<open>Assignment\<close>

definition dot :: "vec \<Rightarrow> vec \<Rightarrow> real" where
  "dot x y = (\<Sum>(a, b)\<leftarrow>zip x y. a * b)"

definition norm2 :: "vec \<Rightarrow> real" where
  "norm2 x = (\<Sum>a\<leftarrow>x. a * a)"

text \<open>\<open>x * np.sqrt(W)\<close>\<close>

definition scaled :: "vec option \<Rightarrow> vec \<Rightarrow> vec" where
  "scaled W x = (case W of None \<Rightarrow> x | Some w \<Rightarrow> map2 (\<lambda>a v. a * sqrt v) x w)"

definition argmin :: "real list \<Rightarrow> nat" where
  "argmin ds = arg_min_list (\<lambda>j. ds ! j) [0..<length ds]"

text \<open>One row of the chunk: its distances by the norm expansion, the chosen index and its distance.\<close>

definition assign_row :: "vec list \<Rightarrow> real list \<Rightarrow> vec \<times> real \<Rightarrow> nat \<times> real" where
  "assign_row cs c_norms rn =
     (let ds = map2 (\<lambda>c cn. snd rn + cn - 2 * dot (fst rn) c) cs c_norms; j = argmin ds in (j, ds ! j))"

definition effective_chunk :: "nat \<Rightarrow> nat \<Rightarrow> nat" where
  "effective_chunk chunk_size k = max 64 (min chunk_size (2 ^ 26 div max k 1))"

definition row_norms :: "vec list \<Rightarrow> real list option \<Rightarrow> vec option \<Rightarrow> real list" where
  "row_norms rows r_norm_sq W =
     (case W of
        Some w \<Rightarrow> map (\<lambda>r. norm2 (scaled W r)) rows
      | None \<Rightarrow> (case r_norm_sq of Some ns \<Rightarrow> ns | None \<Rightarrow> map norm2 rows))"

definition numpy_assign ::
  "vec list \<Rightarrow> vec list \<Rightarrow> nat \<Rightarrow> real list option \<Rightarrow> vec option \<Rightarrow> bool \<Rightarrow> kmeans_error + nat list \<times> real" where
  "numpy_assign vectors codebook chunk_size r_norm_sq W compute_mse =
     (let rows = map (scaled W) vectors; cs = map (scaled W) codebook;
          norms = row_norms vectors r_norm_sq W
      in if length norms \<noteq> length rows then Inl NormLength
         else if rows \<noteq> [] \<and> cs = [] then Inl NoCentroids
         else
           (let out = concat (map (map (assign_row cs (map norm2 cs)))
                        (blocks_of (effective_chunk chunk_size (length cs)) (zip rows norms)));
                indices = map fst out;
                cells = length rows * (case rows of [] \<Rightarrow> 0 | r # _ \<Rightarrow> length r)
            in if \<not> compute_mse then Inr (indices, 0)
               else if cells = 0 then Inl ZeroDivision
               else Inr (indices, sum_list (map snd out) / of_nat cells)))"

section \<open>Centroids\<close>

definition weight_at :: "real list option \<Rightarrow> nat \<Rightarrow> real" where
  "weight_at sw i = (case sw of None \<Rightarrow> 1 | Some w \<Rightarrow> w ! i)"

text \<open>\<open>np.bincount(assignments, weights=..., minlength=k)[:k]\<close>, one bin.\<close>

definition bin :: "nat list \<Rightarrow> (nat \<Rightarrow> real) \<Rightarrow> nat \<Rightarrow> real" where
  "bin indices v j = (\<Sum>i\<leftarrow>[0..<length indices]. if indices ! i = j then v i else 0)"

definition numpy_centroid_sums ::
  "vec list \<Rightarrow> nat list \<Rightarrow> nat \<Rightarrow> real list option \<Rightarrow> kmeans_error + vec list" where
  "numpy_centroid_sums rows indices k sw =
     (if length indices \<noteq> length rows then Inl IndicesLength
      else if list_ex (\<lambda>a. k \<le> a) indices then Inl IndexOutOfBounds
      else if (case sw of Some w \<Rightarrow> length w \<noteq> length rows | None \<Rightarrow> False) then Inl WeightsLength
      else Inr (map (\<lambda>j. map (\<lambda>d. bin indices (\<lambda>i. rows ! i ! d * weight_at sw i) j)
             [0..<(case rows of [] \<Rightarrow> 0 | r # _ \<Rightarrow> length r)]) [0..<k]))"

definition counts :: "nat list \<Rightarrow> real list option \<Rightarrow> nat \<Rightarrow> real list" where
  "counts indices sw k = map (bin indices (weight_at sw)) [0..<k]"

text \<open>\<open>codebook[nonzero] = sums[nonzero] / counts[nonzero, None]\<close>\<close>

definition update_centroids :: "vec list \<Rightarrow> vec list \<Rightarrow> real list \<Rightarrow> vec list" where
  "update_centroids codebook totals cnts =
     map (\<lambda>j. if cnts ! j > 0 then map (\<lambda>s. s / cnts ! j) (totals ! j) else codebook ! j) [0..<length codebook]"

definition lloyd_step ::
  "vec list \<Rightarrow> nat \<Rightarrow> vec option \<Rightarrow> real list option \<Rightarrow> vec list \<Rightarrow> kmeans_error + vec list" where
  "lloyd_step rows k W sw codebook =
     bind_err (numpy_assign rows codebook 65536 (if W = None then Some (map norm2 rows) else None) W True) (\<lambda>(indices, _).
     bind_err (numpy_centroid_sums rows indices k sw) (\<lambda>totals.
     if length codebook \<noteq> k then Inl MaskLength
     else Inr (update_centroids codebook totals (counts indices sw k))))"

fun lloyd :: "nat \<Rightarrow> vec list \<Rightarrow> nat \<Rightarrow> vec option \<Rightarrow> real list option \<Rightarrow> vec list \<Rightarrow> kmeans_error + vec list" where
  "lloyd 0 rows k W sw codebook = Inr codebook"
| "lloyd (Suc n) rows k W sw codebook = bind_err (lloyd_step rows k W sw codebook) (lloyd n rows k W sw)"

text \<open>\<open>k >= int(n * 0.9)\<close>\<close>

definition effective_iters :: "int \<Rightarrow> nat \<Rightarrow> nat \<Rightarrow> int" where
  "effective_iters iterations k n = (if int k \<ge> \<lfloor>of_nat n * (9 / 10 :: rat)\<rfloor> then min iterations 3 else iterations)"

definition initial_centroids :: "(vec list \<Rightarrow> nat \<Rightarrow> vec list) \<Rightarrow> vec list \<Rightarrow> nat \<Rightarrow> vec list option \<Rightarrow> vec list" where
  "initial_centroids seeding rows k initial =
     (case initial of
        Some cb \<Rightarrow> take k cb
      | None \<Rightarrow> if k = 1 then [rows ! (length rows div 2)] else seeding rows k)"

definition learn_codebook_numpy ::
  "(vec list \<Rightarrow> nat \<Rightarrow> vec list) \<Rightarrow> vec list \<Rightarrow> int \<Rightarrow> int \<Rightarrow> vec list option \<Rightarrow> vec option \<Rightarrow> real list option
    \<Rightarrow> kmeans_error + vec list \<times> nat list \<times> real" where
  "learn_codebook_numpy seeding rows codebook_size iterations initial W sw =
     (if rows = [] then Inl EmptyVectors
      else if codebook_size \<le> 0 then Inl BadCodebookSize
      else if iterations \<le> 0 then Inl BadIterations
      else
        (let n = length rows; k = min (nat codebook_size) n;
             start = initial_centroids seeding rows k initial
         in bind_err (lloyd (nat (effective_iters iterations k n)) rows k W sw start) (\<lambda>codebook.
            bind_err (numpy_assign rows codebook 65536 (if W = None then Some (map norm2 rows) else None) W True)
              (\<lambda>(indices, mse). Inr (codebook, indices, mse)))))"

section \<open>Distances\<close>

definition metric :: "vec option \<Rightarrow> nat \<Rightarrow> real" where
  "metric W d = (case W of None \<Rightarrow> 1 | Some w \<Rightarrow> w ! d)"

text \<open>The squared distance of two vectors under the metric.\<close>

definition gap :: "vec option \<Rightarrow> vec \<Rightarrow> vec \<Rightarrow> real" where
  "gap W x y = (\<Sum>d<length x. metric W d * (x ! d - y ! d) ^ 2)"

text \<open>Shapes: \<open>D\<close> columns everywhere, non-negative metric and sample weights.\<close>

definition shaped :: "nat \<Rightarrow> vec list \<Rightarrow> vec list \<Rightarrow> vec option \<Rightarrow> bool" where
  "shaped D rows cs W \<longleftrightarrow> (\<forall>r \<in> set rows. length r = D) \<and> (\<forall>c \<in> set cs. length c = D) \<and>
     (case W of Some w \<Rightarrow> length w = D \<and> (\<forall>v \<in> set w. 0 \<le> v) | None \<Rightarrow> True)"

lemma length_scaled [simp]: "(case W of Some w \<Rightarrow> length w = length x | None \<Rightarrow> True) \<Longrightarrow> length (scaled W x) = length x"
  by (simp add: scaled_def split: option.splits)

lemma scaled_nth: "(case W of Some w \<Rightarrow> length w = length x | None \<Rightarrow> True) \<Longrightarrow> d < length x \<Longrightarrow>
    scaled W x ! d = x ! d * (case W of None \<Rightarrow> 1 | Some w \<Rightarrow> sqrt (w ! d))"
  by (simp add: scaled_def split: option.splits)

lemma dot_nth: "length x = length y \<Longrightarrow> dot x y = (\<Sum>d<length x. x ! d * y ! d)"
  by (simp add: dot_def sum_list_sum_nth atLeast0LessThan)

lemma norm2_nth: "norm2 x = (\<Sum>d<length x. x ! d * x ! d)"
  by (simp add: norm2_def sum_list_sum_nth atLeast0LessThan)

lemma expansion: "length x = length y \<Longrightarrow> norm2 x + norm2 y - 2 * dot x y = (\<Sum>d<length x. (x ! d - y ! d) ^ 2)"
  by (simp add: dot_nth norm2_nth power2_eq_square algebra_simps sum.distrib sum_subtractf sum_distrib_left)

lemma expansion_gap:
  assumes "shaped D [x] [y] W"
  shows "norm2 (scaled W x) + norm2 (scaled W y) - 2 * dot (scaled W x) (scaled W y) = gap W x y"
proof -
  have len: "length x = D" "length y = D" "case W of Some w \<Rightarrow> length w = D | None \<Rightarrow> True"
    "case W of Some w \<Rightarrow> \<forall>v \<in> set w. 0 \<le> v | None \<Rightarrow> True"
    using assms by (auto simp: shaped_def split: option.splits)
  then have lens: "length (scaled W x) = D" "length (scaled W y) = D"
    by (simp_all add: scaled_def split: option.splits)
  have "(scaled W x ! d - scaled W y ! d) ^ 2 = metric W d * (x ! d - y ! d) ^ 2" if "d < D" for d
  proof (cases W)
    case None
    then show ?thesis by (simp add: scaled_def metric_def)
  next
    case (Some w)
    then have "0 \<le> w ! d" "length w = D" using len(3,4) that by simp_all
    then have "(x ! d * sqrt (w ! d) - y ! d * sqrt (w ! d)) ^ 2 = w ! d * (x ! d - y ! d) ^ 2"
      by (simp add: left_diff_distrib [symmetric] power_mult_distrib mult.commute)
    then show ?thesis using Some len that by (simp add: scaled_nth metric_def)
  qed
  then show ?thesis using expansion [of "scaled W x" "scaled W y"] lens len(1) by (simp add: gap_def)
qed

lemma argmin_less: "ds \<noteq> [] \<Longrightarrow> argmin ds < length ds"
  unfolding argmin_def using arg_min_list_in [of "[0..<length ds]" "\<lambda>j. ds ! j"] by simp

lemma argmin_le: "j < length ds \<Longrightarrow> ds ! argmin ds \<le> ds ! j"
proof -
  assume j: "j < length ds"
  then have "(\<lambda>j. ds ! j) (arg_min_list (\<lambda>j. ds ! j) [0..<length ds]) = Min ((\<lambda>j. ds ! j) ` set [0..<length ds])"
    by (intro f_arg_min_list_f) auto
  then show ?thesis unfolding argmin_def using j by simp
qed

text \<open>What an assignment promises: an index of a nearest centroid for every row, and the mean of the
  squared distances.\<close>

definition nearest :: "vec option \<Rightarrow> vec list \<Rightarrow> vec list \<Rightarrow> nat list \<Rightarrow> bool" where
  "nearest W rows cs a \<longleftrightarrow> length a = length rows \<and>
     (\<forall>i < length rows. a ! i < length cs \<and> (\<forall>j < length cs. gap W (rows ! i) (cs ! (a ! i)) \<le> gap W (rows ! i) (cs ! j)))"

lemma assign_row_nearest:
  assumes "shaped D [r] cs W" and "cs \<noteq> []"
  defines "res \<equiv> assign_row (map (scaled W) cs) (map norm2 (map (scaled W) cs)) (scaled W r, norm2 (scaled W r))"
  shows "fst res < length cs" and "snd res = gap W r (cs ! fst res)"
    and "j < length cs \<Longrightarrow> gap W r (cs ! fst res) \<le> gap W r (cs ! j)"
proof -
  let ?ds = "map2 (\<lambda>c cn. norm2 (scaled W r) + cn - 2 * dot (scaled W r) c) (map (scaled W) cs) (map norm2 (map (scaled W) cs))"
  have nth: "?ds ! i = gap W r (cs ! i)" if "i < length cs" for i
    using that assms(1) expansion_gap [of D r "cs ! i" W] by (simp add: shaped_def)
  have res: "res = (argmin ?ds, ?ds ! argmin ?ds)" by (simp add: res_def assign_row_def Let_def)
  show less: "fst res < length cs" using argmin_less [of ?ds] assms(2) unfolding res by simp
  then show "snd res = gap W r (cs ! fst res)" using nth unfolding res by simp
  show "gap W r (cs ! fst res) \<le> gap W r (cs ! j)" if j: "j < length cs"
    using argmin_le [of j ?ds] j nth [OF j] nth [of "argmin ?ds"] less unfolding res by simp
qed

lemma assign_chunks:
  "concat (map (map f) (blocks_of (effective_chunk c k) xs)) = map f xs"
proof -
  have "0 < effective_chunk c k" by (simp add: effective_chunk_def)
  then show ?thesis using concat_blocks_of [of "effective_chunk c k" xs] by (metis map_concat)
qed

definition norms_match :: "vec list \<Rightarrow> real list option \<Rightarrow> bool" where
  "norms_match rows r_norm_sq \<longleftrightarrow> (case r_norm_sq of Some ns \<Rightarrow> ns = map norm2 rows | None \<Rightarrow> True)"

lemma row_norms_eq: "norms_match rows ns \<Longrightarrow> row_norms rows ns W = map (\<lambda>r. norm2 (scaled W r)) rows"
  by (auto simp: row_norms_def norms_match_def scaled_def split: option.splits)

lemma numpy_assign_nearest:
  assumes "shaped D rows cs W" and "cs \<noteq> []" and "rows \<noteq> []" and "0 < D" and "norms_match rows ns"
  shows "\<exists>a. numpy_assign rows cs chunk ns W True =
      Inr (a, (\<Sum>i<length rows. gap W (rows ! i) (cs ! (a ! i))) / of_nat (length rows * D)) \<and> nearest W rows cs a"
proof -
  let ?f = "assign_row (map (scaled W) cs) (map norm2 (map (scaled W) cs))"
  let ?out = "map (\<lambda>r. ?f (scaled W r, norm2 (scaled W r))) rows"
  let ?a = "map fst ?out"
  have one: "shaped D [r] cs W" if "r \<in> set rows" for r using assms(1) that by (simp add: shaped_def)
  have out: "concat (map (map ?f) (blocks_of (effective_chunk chunk (length (map (scaled W) cs)))
      (zip (map (scaled W) rows) (row_norms rows ns W)))) = ?out"
    unfolding assign_chunks row_norms_eq [OF assms(5)] by (simp add: zip_map_map zip_same_conv_map)
  have near: "nearest W rows cs ?a"
    using assign_row_nearest(1,3) [OF one assms(2)] by (simp add: nearest_def)
  have "length (hd rows) = D" using assms(1,3) by (simp add: shaped_def)
  moreover have "length (scaled W (hd rows)) = length (hd rows)"
    using assms(1,3) by (cases W) (auto simp: shaped_def scaled_def)
  ultimately have width: "(case map (scaled W) rows of [] \<Rightarrow> 0 | r # _ \<Rightarrow> length r) = D"
    using assms(3) by (cases rows) simp_all
  have "sum_list (map snd ?out) = (\<Sum>i<length rows. gap W (rows ! i) (cs ! (?a ! i)))"
    using assign_row_nearest(2) [OF one assms(2)]
    by (auto simp: sum_list_sum_nth atLeast0LessThan intro!: sum.cong)
  then have "numpy_assign rows cs chunk ns W True =
      Inr (?a, (\<Sum>i<length rows. gap W (rows ! i) (cs ! (?a ! i))) / of_nat (length rows * D))"
    unfolding numpy_assign_def Let_def out width using assms(2,3,4) by (simp add: row_norms_eq [OF assms(5)])
  then show ?thesis using near by blast
qed

section \<open>The mean minimises\<close>

definition cost :: "vec option \<Rightarrow> real list option \<Rightarrow> vec list \<Rightarrow> vec list \<Rightarrow> nat list \<Rightarrow> real" where
  "cost W sw rows cs a = (\<Sum>i<length rows. weight_at sw i * gap W (rows ! i) (cs ! (a ! i)))"

lemma mean_minimises:
  fixes u x :: "nat \<Rightarrow> real"
  assumes "0 < (\<Sum>i<n. u i)"
  defines "m \<equiv> (\<Sum>i<n. x i * u i) / (\<Sum>i<n. u i)"
  shows "(\<Sum>i<n. u i * (x i - m) ^ 2) \<le> (\<Sum>i<n. u i * (x i - c) ^ 2)"
proof -
  let ?N = "\<Sum>i<n. u i" and ?S = "\<Sum>i<n. x i * u i" and ?Q = "\<Sum>i<n. u i * (x i) ^ 2"
  have expand: "(\<Sum>i<n. u i * (x i - b) ^ 2) = ?Q - 2 * b * ?S + b ^ 2 * ?N" for b
  proof -
    have "u i * (x i - b) ^ 2 = u i * (x i) ^ 2 - 2 * b * (x i * u i) + b ^ 2 * u i" for i
      by (simp add: power2_eq_square algebra_simps)
    then show ?thesis by (simp add: sum.distrib sum_subtractf sum_distrib_left)
  qed
  have S: "?S = m * ?N" using assms(1) by (simp add: m_def)
  have "(\<Sum>i<n. u i * (x i - c) ^ 2) - (\<Sum>i<n. u i * (x i - m) ^ 2) = ?N * (m - c) ^ 2"
    unfolding expand S by (simp add: power2_eq_square algebra_simps)
  moreover have "0 \<le> ?N * (m - c) ^ 2" using assms(1) by simp
  ultimately show ?thesis by linarith
qed

lemma bin_sum: "bin a v j = (\<Sum>i<length a. if a ! i = j then v i else 0)"
  by (simp add: bin_def interv_sum_list_conv_sum_set_nat atLeast0LessThan)

lemma by_cluster: "(\<And>i. i < n \<Longrightarrow> a ! i < k) \<Longrightarrow> (\<Sum>i<n. f i (a ! i)) = (\<Sum>j<k. \<Sum>i<n. if a ! i = j then f i j else 0)"
  for f :: "nat \<Rightarrow> nat \<Rightarrow> real"
proof -
  assume "\<And>i. i < n \<Longrightarrow> a ! i < k"
  then have "f i (a ! i) = (\<Sum>j<k. if a ! i = j then f i j else 0)" if "i < n" for i
    using that by (simp add: sum.delta')
  then show ?thesis by (subst sum.swap) simp
qed

lemma update_lowers_cost:
  assumes "shaped D rows cs W" and "length cs = k" and "length a = length rows"
    and "\<And>i. i < length rows \<Longrightarrow> a ! i < k" and "\<And>i. i < length rows \<Longrightarrow> 0 \<le> weight_at sw i"
    and "numpy_centroid_sums rows a k sw = Inr totals" and "rows \<noteq> []"
  defines "cs' \<equiv> update_centroids cs totals (counts a sw k)"
  shows "cost W sw rows cs' a \<le> cost W sw rows cs a" and "shaped D rows cs' W" and "length cs' = k"
proof -
  let ?n = "length rows"
  have width: "(case rows of [] \<Rightarrow> 0 | r # _ \<Rightarrow> length r) = D"
    using assms(1,7) by (cases rows) (simp_all add: shaped_def)
  have tot: "totals = map (\<lambda>j. map (\<lambda>d. bin a (\<lambda>i. rows ! i ! d * weight_at sw i) j) [0..<D]) [0..<k]"
    using assms(6) by (simp add: numpy_centroid_sums_def width split: if_splits)
  show len: "length cs' = k" by (simp add: cs'_def update_centroids_def assms(2))
  show shaped: "shaped D rows cs' W"
    using assms(1,2) by (auto simp: shaped_def cs'_def update_centroids_def tot)
  have rowlen: "length (rows ! i) = D" if "i < ?n" for i using assms(1) that by (simp add: shaped_def)
  have nonneg: "0 \<le> metric W d" if "d < D" for d
    using assms(1) that by (auto simp: shaped_def metric_def split: option.splits)
  have swap: "cost W sw rows xs a =
      (\<Sum>d<D. metric W d * (\<Sum>j<k. \<Sum>i<?n. (if a ! i = j then weight_at sw i else 0) * (rows ! i ! d - xs ! j ! d) ^ 2))" for xs
  proof -
    have "cost W sw rows xs a = (\<Sum>i<?n. \<Sum>d<D. metric W d * (weight_at sw i * (rows ! i ! d - xs ! (a ! i) ! d) ^ 2))"
      using rowlen by (simp add: cost_def gap_def sum_distrib_left algebra_simps)
    also have "\<dots> = (\<Sum>d<D. metric W d * (\<Sum>i<?n. weight_at sw i * (rows ! i ! d - xs ! (a ! i) ! d) ^ 2))"
      by (subst sum.swap) (simp add: sum_distrib_left)
    also have "\<dots> = (\<Sum>d<D. metric W d * (\<Sum>j<k. \<Sum>i<?n. if a ! i = j then weight_at sw i * (rows ! i ! d - xs ! j ! d) ^ 2 else 0))"
      using by_cluster [of ?n a k "\<lambda>i j. weight_at sw i * (rows ! i ! d - xs ! j ! d) ^ 2" for d] assms(4) by simp
    finally show ?thesis by (simp add: if_distrib [of "\<lambda>v. v * _"] cong: if_cong)
  qed
  have cluster: "(\<Sum>i<?n. (if a ! i = j then weight_at sw i else 0) * (rows ! i ! d - cs' ! j ! d) ^ 2) \<le>
      (\<Sum>i<?n. (if a ! i = j then weight_at sw i else 0) * (rows ! i ! d - cs ! j ! d) ^ 2)" if j: "j < k" and d: "d < D" for j d
  proof (cases "counts a sw k ! j > 0")
    case False
    then have "cs' ! j = cs ! j" using j assms(2) by (simp add: cs'_def update_centroids_def)
    then show ?thesis by simp
  next
    case True
    let ?u = "\<lambda>i. if a ! i = j then weight_at sw i else 0"
    have N: "counts a sw k ! j = (\<Sum>i<?n. ?u i)" using j assms(3) by (simp add: counts_def bin_sum)
    have "totals ! j ! d = (\<Sum>i<?n. rows ! i ! d * ?u i)"
      using j d assms(3) by (simp add: tot bin_sum if_distrib cong: if_cong)
    moreover have "cs' ! j ! d = totals ! j ! d / counts a sw k ! j"
      using True j d assms(2) by (simp add: cs'_def update_centroids_def tot)
    ultimately have "cs' ! j ! d = (\<Sum>i<?n. rows ! i ! d * ?u i) / (\<Sum>i<?n. ?u i)" using N by simp
    then show ?thesis using mean_minimises [where n = ?n and u = ?u and x = "\<lambda>i. rows ! i ! d" and c = "cs ! j ! d"] True N by simp
  qed
  show "cost W sw rows cs' a \<le> cost W sw rows cs a"
    unfolding swap by (intro sum_mono mult_left_mono cluster nonneg) simp_all
qed


section \<open>Lloyd iterations\<close>

definition valid_assignment :: "vec list \<Rightarrow> vec list \<Rightarrow> nat list \<Rightarrow> bool" where
  "valid_assignment rows cs a \<longleftrightarrow> length a = length rows \<and> (\<forall>i < length rows. a ! i < length cs)"

definition weights_ok :: "vec list \<Rightarrow> real list option \<Rightarrow> bool" where
  "weights_ok rows sw \<longleftrightarrow> (case sw of None \<Rightarrow> True | Some w \<Rightarrow> length w = length rows \<and> (\<forall>v \<in> set w. 0 \<le> v))"

lemma weight_nonneg: "weights_ok rows sw \<Longrightarrow> i < length rows \<Longrightarrow> 0 \<le> weight_at sw i"
  by (auto simp: weights_ok_def weight_at_def split: option.splits)

lemma nearest_valid: "nearest W rows cs a \<Longrightarrow> valid_assignment rows cs a"
  by (simp add: nearest_def valid_assignment_def)

lemma nearest_cheapest:
  assumes "nearest W rows cs a" and "valid_assignment rows cs b" and "weights_ok rows sw"
  shows "cost W sw rows cs a \<le> cost W sw rows cs b"
  unfolding cost_def using assms
  by (intro sum_mono mult_left_mono) (simp_all add: weight_nonneg nearest_def valid_assignment_def)

lemma centroid_sums_ok:
  assumes "valid_assignment rows cs a" and "weights_ok rows sw"
  shows "\<exists>totals. numpy_centroid_sums rows a (length cs) sw = Inr totals"
proof -
  have "\<not> list_ex (\<lambda>j. length cs \<le> j) a"
    using assms(1) by (auto simp: list_ex_iff in_set_conv_nth valid_assignment_def not_le)
  moreover have "\<not> (case sw of Some w \<Rightarrow> length w \<noteq> length rows | None \<Rightarrow> False)"
    using assms(2) by (simp add: weights_ok_def split: option.splits)
  ultimately show ?thesis using assms(1) by (simp add: numpy_centroid_sums_def valid_assignment_def)
qed

lemma norms_match_arg: "norms_match rows (if W = None then Some (map norm2 rows) else None)"
  by (simp add: norms_match_def)

lemma lloyd_step_ok:
  assumes "shaped D rows cs W" and "cs \<noteq> []" and "rows \<noteq> []" and "0 < D" and "weights_ok rows sw"
  obtains cs' a where "lloyd_step rows (length cs) W sw cs = Inr cs'" and "shaped D rows cs' W" and "length cs' = length cs"
    and "nearest W rows cs a" and "cost W sw rows cs' a \<le> cost W sw rows cs a"
proof -
  obtain a where a: "numpy_assign rows cs 65536 (if W = None then Some (map norm2 rows) else None) W True =
      Inr (a, (\<Sum>i<length rows. gap W (rows ! i) (cs ! (a ! i))) / of_nat (length rows * D))" "nearest W rows cs a"
    using numpy_assign_nearest [OF assms(1-4) norms_match_arg] by blast
  have valid: "valid_assignment rows cs a" using a(2) by (rule nearest_valid)
  then obtain totals where totals: "numpy_centroid_sums rows a (length cs) sw = Inr totals"
    using centroid_sums_ok assms(5) by blast
  let ?cs = "update_centroids cs totals (counts a sw (length cs))"
  have "cost W sw rows ?cs a \<le> cost W sw rows cs a" "shaped D rows ?cs W" "length ?cs = length cs"
    using update_lowers_cost [OF assms(1) refl _ _ _ totals assms(3)] valid weight_nonneg [OF assms(5)]
    by (auto simp: valid_assignment_def)
  then show ?thesis using that a totals by (simp add: lloyd_step_def)
qed

lemma lloyd_ok:
  assumes "shaped D rows cs W" and "cs \<noteq> []" and "rows \<noteq> []" and "0 < D" and "weights_ok rows sw"
  shows "\<exists>cs'. lloyd n rows (length cs) W sw cs = Inr cs' \<and> shaped D rows cs' W \<and> length cs' = length cs \<and>
     (\<forall>b. valid_assignment rows cs b \<longrightarrow> (\<exists>b'. valid_assignment rows cs' b' \<and> cost W sw rows cs' b' \<le> cost W sw rows cs b))"
  using assms(1,2)
proof (induction n arbitrary: cs)
  case 0
  then show ?case by auto
next
  case (Suc n)
  obtain cs1 a where step: "lloyd_step rows (length cs) W sw cs = Inr cs1" "shaped D rows cs1 W" "length cs1 = length cs"
    "nearest W rows cs a" "cost W sw rows cs1 a \<le> cost W sw rows cs a"
    using lloyd_step_ok [OF Suc.prems assms(3-5)] by blast
  have ne: "cs1 \<noteq> []" using step(3) Suc.prems(2) by auto
  obtain cs' where rest: "lloyd n rows (length cs1) W sw cs1 = Inr cs'" "shaped D rows cs' W" "length cs' = length cs1"
    "\<forall>b. valid_assignment rows cs1 b \<longrightarrow> (\<exists>b'. valid_assignment rows cs' b' \<and> cost W sw rows cs' b' \<le> cost W sw rows cs1 b)"
    using Suc.IH [OF step(2) ne] by blast
  have "valid_assignment rows cs1 a"
    using nearest_valid [OF step(4)] step(3) by (simp add: valid_assignment_def)
  then obtain b' where b': "valid_assignment rows cs' b'" "cost W sw rows cs' b' \<le> cost W sw rows cs1 a"
    using rest(4) by blast
  have "cost W sw rows cs' b' \<le> cost W sw rows cs b" if "valid_assignment rows cs b" for b
    using b'(2) step(5) nearest_cheapest [OF step(4) that assms(5)] by linarith
  then show ?case using rest step(1,3) b'(1) by (simp del: split_paired_Ex) blast
qed

lemma learn_codebook_ok:
  fixes seeding :: "vec list \<Rightarrow> nat \<Rightarrow> vec list"
  assumes "rows \<noteq> []" and "0 < codebook_size" and "0 < iterations" and "0 < D" and "weights_ok rows sw"
    and "start = initial_centroids seeding rows (min (nat codebook_size) (length rows)) initial"
    and "length start = min (nat codebook_size) (length rows)" and "shaped D rows start W"
  shows "\<exists>cs a mse. learn_codebook_numpy seeding rows codebook_size iterations initial W sw = Inr (cs, a, mse) \<and>
     length cs = length start \<and> shaped D rows cs W \<and> nearest W rows cs a \<and>
     mse = (\<Sum>i<length rows. gap W (rows ! i) (cs ! (a ! i))) / of_nat (length rows * D) \<and>
     (\<forall>b. valid_assignment rows start b \<longrightarrow> cost W sw rows cs a \<le> cost W sw rows start b)"
proof -
  let ?n = "nat (effective_iters iterations (min (nat codebook_size) (length rows)) (length rows))"
  have "0 < nat codebook_size" "0 < length rows" using assms(1,2) by simp_all
  then have ne: "start \<noteq> []" using assms(7) by (metis list.size(3) min_less_iff_conj less_irrefl)
  obtain cs where cs: "lloyd ?n rows (length start) W sw start = Inr cs" "shaped D rows cs W" "length cs = length start"
    "\<forall>b. valid_assignment rows start b \<longrightarrow> (\<exists>b'. valid_assignment rows cs b' \<and> cost W sw rows cs b' \<le> cost W sw rows start b)"
    using lloyd_ok [OF assms(8) ne assms(1,4,5)] by blast
  have "cs \<noteq> []" using cs(3) ne by auto
  then obtain a where a: "numpy_assign rows cs 65536 (if W = None then Some (map norm2 rows) else None) W True =
      Inr (a, (\<Sum>i<length rows. gap W (rows ! i) (cs ! (a ! i))) / of_nat (length rows * D))" "nearest W rows cs a"
    using numpy_assign_nearest [OF cs(2) _ assms(1,4) norms_match_arg] by blast
  have "cost W sw rows cs a \<le> cost W sw rows start b" if "valid_assignment rows start b" for b
    using cs(4) that nearest_cheapest [OF a(2) _ assms(5)] by (meson order_trans)
  then show ?thesis
    using assms(1-3) cs(1,2,3) a assms(7) by (simp add: learn_codebook_numpy_def Let_def assms(6) [symmetric])
qed

text \<open>C19: Learning a codebook succeeds on well-shaped input with non-negative weights. The returned indices name a
  nearest centroid of every row, the returned error is the mean squared distance per entry, and the weighted squared
  distance is at most that of the initial centroids under any assignment.\<close>

theorem codebook_learning_lowers_cost:
  fixes seeding :: "vec list \<Rightarrow> nat \<Rightarrow> vec list"
  assumes "rows \<noteq> []" and "0 < codebook_size" and "0 < iterations" and "0 < D" and "weights_ok rows sw"
    and "start = initial_centroids seeding rows (min (nat codebook_size) (length rows)) initial"
    and "length start = min (nat codebook_size) (length rows)" and "shaped D rows start W"
  shows "\<exists>cs a mse. learn_codebook_numpy seeding rows codebook_size iterations initial W sw = Inr (cs, a, mse) \<and>
     length cs = length start \<and> nearest W rows cs a \<and>
     mse = (\<Sum>i<length rows. gap W (rows ! i) (cs ! (a ! i))) / of_nat (length rows * D) \<and>
     (\<forall>b. valid_assignment rows start b \<longrightarrow> cost W sw rows cs a \<le> cost W sw rows start b)"
  using learn_codebook_ok [OF assms] by blast

theorem codebook_learning_lowers_cost_witness:
  "\<exists>cs a mse. learn_codebook_numpy (\<lambda>rows k. take k rows) [[0, 0], [4, 1], [5, 1], [1, 0]] 2 5 None (Some [1, 2]) (Some [1, 1, 2, 0]) = Inr (cs, a, mse)"
proof -
  let ?rows = "[[0, 0], [4, 1], [5, 1], [1, 0]] :: vec list"
  have "initial_centroids (\<lambda>rows k. take k rows) ?rows (min (nat 2) (length ?rows)) None = [[0, 0], [4, 1]]"
    by (simp add: initial_centroids_def)
  then show ?thesis
    using codebook_learning_lowers_cost [of ?rows 2 5 2 "Some [1, 1, 2, 0]" "[[0, 0], [4, 1]]" "\<lambda>rows k. take k rows" None "Some [1, 2]"]
    by (auto simp: weights_ok_def shaped_def)
qed

end
