(* ===== verification/Normalize.thy ===== *)
theory Normalize
  imports Sidecars
begin

text \<open>
  \<open>orka/transforms/normalize.py\<close>: the normalizations a tensor goes through before it is quantized
  (block-max, channel-block-max, SLRQ blocks, AWQ column scales), their registry and dispatcher, and the
  inverses the decoders apply.

  A tensor is its shape and its flat values in row-major order; values are real numbers. The only rounding
  kept is the one to fp16 storage (\<open>Sidecars.fp16_storage_roundtrip\<close>). The numpy and the torch variant of
  a mode are separate functions of the code and separate definitions here; moving a result to the CPU is not
  modelled. A division by a scale that rounding turned into 0 (an infinity in the code) is outside the model;
  the facts below show where it cannot happen.
\<close>

datatype norm_error =
    ZeroBlock | AwqShape nat nat | AwqNeedsTorch | BlockScaleCount nat nat | ColScaleCount | BadReshape | NoAxis
  | BadBroadcast | UnknownTensor string

type_synonym tensor = "nat list \<times> real list"

definition MIN_STORABLE_SCALE :: real where "MIN_STORABLE_SCALE = 1 / 2 ^ 24"

definition storage16 :: "real env \<Rightarrow> real list \<Rightarrow> real list" where
  "storage16 e vs = (case fp16_storage_roundtrip e (Some vs) of Some ws \<Rightarrow> ws | None \<Rightarrow> vs)"

section \<open>Blocks\<close>

text \<open>\<open>pad = (-n) % block_size\<close> zeros are appended, the result is cut into blocks.\<close>

definition padded :: "nat \<Rightarrow> real list \<Rightarrow> real list" where
  "padded bs xs = xs @ replicate ((bs - length xs mod bs) mod bs) 0"

definition abs_max :: "real list \<Rightarrow> real" where
  "abs_max b = fold max (map abs b) 0"

definition divide_blocks :: "real list list \<Rightarrow> real list \<Rightarrow> real list" where
  "divide_blocks blocks safe = concat (map2 (\<lambda>b s. map (\<lambda>v. v / s) b) blocks safe)"

type_synonym block_result = "tensor \<times> real list \<times> real list"

definition block_max_numpy :: "real env \<Rightarrow> tensor \<Rightarrow> nat \<Rightarrow> norm_error + block_result" where
  "block_max_numpy e t bs =
     (case t of (shape, flat) \<Rightarrow>
        if bs = 0 then Inl ZeroBlock
        else
          (let blocks = blocks_of bs (padded bs flat);
               scales = map abs_max blocks;
               safe = storage16 e (map (\<lambda>s. max (if s = 0 then 1 else s) MIN_STORABLE_SCALE) scales)
           in Inr ((shape, take (length flat) (divide_blocks blocks safe)), safe, flat)))"

definition block_max_torch :: "real env \<Rightarrow> tensor \<Rightarrow> nat \<Rightarrow> norm_error + block_result" where
  "block_max_torch e t bs =
     (case t of (shape, flat) \<Rightarrow>
        if bs = 0 then Inl ZeroBlock
        else
          (let blocks = blocks_of bs (padded bs flat);
               safe = storage16 e (map (\<lambda>s. if s < MIN_STORABLE_SCALE then MIN_STORABLE_SCALE else s)
                        (map (\<lambda>b. if abs_max b = 0 then 1 else abs_max b) blocks))
           in Inr ((shape, take (length flat) (divide_blocks blocks safe)), safe, flat)))"

text \<open>\<open>arr.reshape(rows, cols // block_size, block_size)\<close>, the blocks of every row one after the other.\<close>

definition channel_blocks :: "nat list \<Rightarrow> nat \<Rightarrow> real list \<Rightarrow> real list list" where
  "channel_blocks shape bs flat = concat (map (blocks_of bs) (blocks_of (last shape) flat))"

definition channel_block_max_numpy :: "real env \<Rightarrow> tensor \<Rightarrow> nat \<Rightarrow> norm_error + block_result" where
  "channel_block_max_numpy e t bs =
     (case t of (shape, flat) \<Rightarrow>
        if bs = 0 then Inl ZeroBlock
        else if length shape < 2 \<or> last shape mod bs \<noteq> 0 then block_max_numpy e t bs
        else
          (let blocked = channel_blocks shape bs flat;
               scales = map abs_max blocked;
               safe = storage16 e (map (\<lambda>s. max (if s = 0 then 1 else s) MIN_STORABLE_SCALE) scales)
           in Inr ((shape, divide_blocks blocked safe), safe, flat)))"

definition channel_block_max_torch :: "real env \<Rightarrow> tensor \<Rightarrow> nat \<Rightarrow> norm_error + block_result" where
  "channel_block_max_torch e t bs =
     (case t of (shape, flat) \<Rightarrow>
        if bs = 0 then Inl ZeroBlock
        else if length shape < 2 \<or> last shape mod bs \<noteq> 0 then block_max_torch e t bs
        else
          (let blocked = channel_blocks shape bs flat;
               safe = storage16 e (map (\<lambda>s. if s < MIN_STORABLE_SCALE then MIN_STORABLE_SCALE else s)
                        (map (\<lambda>b. if abs_max b = 0 then 1 else abs_max b) blocked))
           in Inr ((shape, divide_blocks blocked safe), safe, flat)))"

section \<open>SLRQ\<close>

text \<open>
  The largest entry of every block is taken out (its position and its fp16 value are kept), the rest is
  divided by a power of two. \<open>sr_input\<close> is what the caller's array holds afterwards: without padding the
  blocks are views of a float32 input, so the zeros are written into it.
\<close>

record slrq_result =
  sr_tensor :: tensor
  sr_scales :: "real list"
  sr_weights :: "real list option"
  sr_indices :: "nat list option"
  sr_source :: "real list"
  sr_input :: "real list"

definition pow2_scale :: "real \<Rightarrow> real" where
  "pow2_scale m = max (2 powr (of_int \<lceil>log 2 (if m = 0 then 1 else m)\<rceil>)) (1 / 2 ^ 24)"

definition slrq_block_numpy :: "real env \<Rightarrow> tensor \<Rightarrow> nat \<Rightarrow> bool \<Rightarrow> norm_error + slrq_result" where
  "slrq_block_numpy e t bs salient_enabled =
     (case t of (shape, flat) \<Rightarrow>
        if bs = 0 then Inl ZeroBlock
        else
          (let blocks = blocks_of bs (padded bs flat);
               indices = map (\<lambda>b. argmax (map abs b)) blocks;
               weights = storage16 e (map2 (\<lambda>b j. b ! j) blocks indices);
               zeroed = (if salient_enabled then map2 (\<lambda>b j. b[j := 0]) blocks indices else blocks);
               safe = storage16 e (map (\<lambda>b. pow2_scale (abs_max b)) zeroed)
           in Inr \<lparr>sr_tensor = (shape, take (length flat) (divide_blocks zeroed safe)), sr_scales = safe,
                   sr_weights = (if salient_enabled then Some weights else None),
                   sr_indices = (if salient_enabled then Some indices else None), sr_source = flat,
                   sr_input = (if length flat mod bs = 0 then concat zeroed else flat)\<rparr>))"

text \<open>
  \<open>Tensor.argmax\<close> returns the position of a largest element; which one, when there are several, is left
  to the device (\<open>pack.py\<close> notes that it differs between devices).
\<close>

definition argmax_positions :: "'a::linorder list \<Rightarrow> nat list" where
  "argmax_positions xs = filter (\<lambda>i. list_all (\<lambda>x. x \<le> xs ! i) xs) [0..<length xs]"

definition torch_argmax :: "real env \<Rightarrow> real list \<Rightarrow> nat" where
  "torch_argmax e xs = (let ps = argmax_positions xs in ps ! (torch_tie e xs mod length ps))"

definition slrq_block_torch :: "real env \<Rightarrow> tensor \<Rightarrow> nat \<Rightarrow> bool \<Rightarrow> norm_error + slrq_result" where
  "slrq_block_torch e t bs salient_enabled =
     (case t of (shape, flat) \<Rightarrow>
        if bs = 0 then Inl ZeroBlock
        else
          (let blocks = blocks_of bs (padded bs flat);
               (weights, indices, zeroed) =
                 (if salient_enabled
                  then (let indices = map (\<lambda>b. torch_argmax e (map abs b)) blocks
                        in (Some (storage16 e (map2 (\<lambda>b j. b ! j) blocks indices)), Some indices,
                            map2 (\<lambda>b j. b[j := 0]) blocks indices))
                  else (None, None, blocks));
               safe = storage16 e (map (\<lambda>b. pow2_scale (abs_max b)) zeroed)
           in Inr \<lparr>sr_tensor = (shape, take (length flat) (divide_blocks zeroed safe)), sr_scales = safe,
                   sr_weights = weights, sr_indices = indices, sr_source = flat,
                   sr_input = (if length flat mod bs = 0 then concat zeroed else flat)\<rparr>))"

section \<open>AWQ\<close>

text \<open>
  Calibration activations: their width and their rows (at least one; the mean of none is a NaN).
\<close>

type_synonym activations = "nat \<times> real list list"

definition act_mag :: "activations \<Rightarrow> real list" where
  "act_mag X =
     map (\<lambda>j. max ((\<Sum>row\<leftarrow>snd X. \<bar>row ! j\<bar>) / of_nat (length (snd X))) (1 / 10 ^ 6)) [0..<fst X]"

definition awq_scales :: "real env \<Rightarrow> activations \<Rightarrow> real \<Rightarrow> real list" where
  "awq_scales e X alpha = storage16 e (map (\<lambda>m. 1 / (m powr alpha)) (act_mag X))"

text \<open>On the torch backend, \<open>.clamp(min=1e-6)\<close>.\<close>

definition act_mag_torch :: "activations \<Rightarrow> real list" where
  "act_mag_torch X =
     map (\<lambda>m. if m < 1 / 10 ^ 6 then 1 / 10 ^ 6 else m)
       (map (\<lambda>j. (\<Sum>row\<leftarrow>snd X. \<bar>row ! j\<bar>) / of_nat (length (snd X))) [0..<fst X])"

definition awq_scales_torch :: "real env \<Rightarrow> activations \<Rightarrow> real \<Rightarrow> real list" where
  "awq_scales_torch e X alpha = storage16 e (map (\<lambda>m. 1 / (m powr alpha)) (act_mag_torch X))"

text \<open>\<open>arr.reshape(shape[0], -1)\<close>: the width of the rows.\<close>

definition row_width :: "tensor \<Rightarrow> norm_error + nat" where
  "row_width t =
     (case fst t of
        [] \<Rightarrow> Inl NoAxis
      | r # _ \<Rightarrow> if r = 0 then Inl BadReshape else Inr (length (snd t) div r))"

definition divide_rows :: "nat \<Rightarrow> real list \<Rightarrow> real list \<Rightarrow> real list" where
  "divide_rows cols flat scales = concat (map (\<lambda>row. map2 (\<lambda>v s. v / s) row scales) (blocks_of cols flat))"

definition awq_numpy :: "real env \<Rightarrow> tensor \<Rightarrow> activations \<Rightarrow> real \<Rightarrow> norm_error + block_result" where
  "awq_numpy e t X alpha =
     bind_err (row_width t) (\<lambda>cols.
       if fst X \<noteq> cols then Inl (AwqShape (fst X) cols)
       else (let scales = awq_scales e X alpha
             in Inr ((fst t, divide_rows cols (snd t) scales), scales, snd t)))"

definition awq_torch :: "real env \<Rightarrow> tensor \<Rightarrow> activations \<Rightarrow> real \<Rightarrow> norm_error + block_result" where
  "awq_torch e t X alpha =
     bind_err (row_width t) (\<lambda>cols.
       if fst X \<noteq> cols then Inl (AwqShape (fst X) cols)
       else (let scales = awq_scales_torch e X alpha
             in Inr ((fst t, divide_rows cols (snd t) scales), scales, snd t)))"

definition awq_block_max_torch ::
  "real env \<Rightarrow> tensor \<Rightarrow> activations \<Rightarrow> real \<Rightarrow> nat \<Rightarrow> norm_error + tensor \<times> real list \<times> real list \<times> real list" where
  "awq_block_max_torch e t X alpha bs =
     bind_err (row_width t) (\<lambda>cols.
       if fst X \<noteq> cols then Inl (AwqShape (fst X) cols)
       else
         (let colscales = awq_scales_torch e X alpha;
              flat = divide_rows cols (snd t) colscales
          in if bs = 0 then Inl ZeroBlock
             else
               (let blocks = blocks_of bs (padded bs flat);
                    safe = storage16 e (map (\<lambda>s. if s < MIN_STORABLE_SCALE then MIN_STORABLE_SCALE else s)
                             (map (\<lambda>b. if abs_max b = 0 then 1 else abs_max b) blocks))
                in Inr ((fst t, take (length flat) (divide_blocks blocks safe)), safe, snd t, colscales))))"
section \<open>The registry\<close>

record norm_context =
  nc_name :: string
  nc_torch :: bool
  nc_awq :: "(string \<rightharpoonup> activations) option"
  nc_alpha :: real
  nc_has_awq :: bool
  nc_block :: nat
  nc_salient :: bool

record norm_result =
  nr_tensor :: tensor
  nr_row_scales :: "real list option"
  nr_source :: "real list option"
  nr_col_scales :: "real list option"
  nr_salient_weights :: "real list option"
  nr_salient_indices :: "nat list option"

definition norm_plain :: "tensor \<Rightarrow> real list option \<Rightarrow> real list \<Rightarrow> norm_result" where
  "norm_plain t scales source =
     \<lparr>nr_tensor = t, nr_row_scales = scales, nr_source = Some source, nr_col_scales = None,
      nr_salient_weights = None, nr_salient_indices = None\<rparr>"

type_synonym norm_handler = "real env \<Rightarrow> norm_context \<Rightarrow> tensor \<Rightarrow> norm_error + norm_result"

definition normalize_none :: norm_handler where
  "normalize_none e c t = Inr (norm_plain t None (snd t))"

definition normalize_slrq_block :: norm_handler where
  "normalize_slrq_block e c t =
     bind_err ((if nc_torch c then slrq_block_torch else slrq_block_numpy) e t (nc_block c) (nc_salient c)) (\<lambda>r.
       Inr \<lparr>nr_tensor = sr_tensor r, nr_row_scales = Some (sr_scales r), nr_source = Some (sr_source r),
            nr_col_scales = None, nr_salient_weights = sr_weights r, nr_salient_indices = sr_indices r\<rparr>)"

definition activations_of :: "norm_context \<Rightarrow> norm_error + activations" where
  "activations_of c =
     (case nc_awq c of
        Some m \<Rightarrow> (case m (nc_name c) of Some X \<Rightarrow> Inr X | None \<Rightarrow> Inl (UnknownTensor (nc_name c)))
      | None \<Rightarrow> Inl (UnknownTensor (nc_name c)))"

definition normalize_awq :: norm_handler where
  "normalize_awq e c t =
     (if \<not> nc_has_awq c then normalize_none e c t
      else
        bind_err (activations_of c) (\<lambda>X.
        bind_err ((if nc_torch c then awq_torch else awq_numpy) e t X (nc_alpha c)) (\<lambda>(t', scales, source).
          Inr (norm_plain t' (Some scales) source))))"

definition normalize_awq_block_max :: norm_handler where
  "normalize_awq_block_max e c t =
     (if \<not> nc_torch c then Inl AwqNeedsTorch
      else if \<not> nc_has_awq c then
        bind_err (block_max_torch e t (nc_block c)) (\<lambda>(t', scales, source). Inr (norm_plain t' (Some scales) source))
      else
        bind_err (activations_of c) (\<lambda>X.
        bind_err (awq_block_max_torch e t X (nc_alpha c) (nc_block c)) (\<lambda>(t', scales, source, cs).
          Inr (norm_plain t' (Some scales) source\<lparr>nr_col_scales := Some cs\<rparr>))))"

definition normalize_channel_block_max :: norm_handler where
  "normalize_channel_block_max e c t =
     bind_err ((if nc_torch c then channel_block_max_torch else channel_block_max_numpy) e t (nc_block c))
       (\<lambda>(t', scales, source). Inr (norm_plain t' (Some scales) source))"

definition normalize_block_max :: norm_handler where
  "normalize_block_max e c t =
     bind_err ((if nc_torch c then block_max_torch else block_max_numpy) e t (nc_block c))
       (\<lambda>(t', scales, source). Inr (norm_plain t' (Some scales) source))"

type_synonym norm_registry = "(string \<times> norm_handler) list"

definition NORMALIZATION_REGISTRY :: norm_registry where
  "NORMALIZATION_REGISTRY =
     [(''slrq-block'', normalize_slrq_block), (''awq'', normalize_awq), (''awq-block-max'', normalize_awq_block_max),
      (''channel-block-max'', normalize_channel_block_max), (''block-max'', normalize_block_max)]"

definition register_normalization :: "string \<Rightarrow> norm_handler \<Rightarrow> norm_registry \<Rightarrow> norm_registry" where
  "register_normalization mode handler reg = dict_put mode handler reg"

text \<open>\<open>sorted\<close> on ASCII strings.\<close>

fun str_le :: "string \<Rightarrow> string \<Rightarrow> bool" where
  "str_le [] t = True"
| "str_le (c # s) [] = False"
| "str_le (c # s) (d # t) = (of_char c < (of_char d :: nat) \<or> c = d \<and> str_le s t)"

fun insert_str :: "string \<Rightarrow> string list \<Rightarrow> string list" where
  "insert_str s [] = [s]"
| "insert_str s (t # ts) = (if str_le s t then s # t # ts else t # insert_str s ts)"

definition normalization_modes :: "norm_registry \<Rightarrow> string list" where
  "normalization_modes reg = foldr insert_str (map fst reg) []"

definition BLOCK_SCALE_NORMALIZATIONS :: "string set" where
  "BLOCK_SCALE_NORMALIZATIONS = {''block-max'', ''channel-block-max'', ''slrq-block'', ''awq-block-max''}"

definition stores_block_scales :: "string \<Rightarrow> bool" where
  "stores_block_scales normalization \<longleftrightarrow> normalization \<in> BLOCK_SCALE_NORMALIZATIONS"

definition apply_normalization ::
  "norm_registry \<Rightarrow> real env \<Rightarrow> tensor \<Rightarrow> string \<Rightarrow> string \<Rightarrow> (string \<rightharpoonup> activations) option \<Rightarrow> real \<Rightarrow> nat
    \<Rightarrow> string \<Rightarrow> bool \<Rightarrow> norm_error + norm_result" where
  "apply_normalization reg e t name normalization awq alpha bs backend slrq_salient =
     (let c = \<lparr>nc_name = name, nc_torch = (backend = ''torch''), nc_awq = awq, nc_alpha = alpha,
               nc_has_awq = (case awq of Some m \<Rightarrow> m name \<noteq> None | None \<Rightarrow> False),
               nc_block = bs, nc_salient = slrq_salient\<rparr>;
          handler = (case map_of reg normalization of Some h \<Rightarrow> h | None \<Rightarrow> normalize_none)
      in handler e c t)"

section \<open>The inverses\<close>

definition block_max_scales_numpy :: "real list \<Rightarrow> real list \<Rightarrow> nat \<Rightarrow> norm_error + real list" where
  "block_max_scales_numpy flat scales bs =
     (if bs = 0 then Inl ZeroBlock
      else
        (let blocks = blocks_of bs (padded bs flat)
         in if length scales \<noteq> length blocks then Inl (BlockScaleCount (length scales) (length blocks))
            else Inr (take (length flat) (concat (map2 (\<lambda>b s. map (\<lambda>v. v * s) b) blocks scales)))))"

text \<open>
  The torch branch takes the first scales it needs and lets broadcasting decide: one scale serves every
  block, any other count raises.
\<close>

definition apply_block_scales :: "real list \<Rightarrow> real list \<Rightarrow> nat \<Rightarrow> string \<Rightarrow> norm_error + real list" where
  "apply_block_scales decoded scales bs backend =
     (if backend = ''torch'' then
        (if bs = 0 then Inl ZeroBlock
         else
           (let blocks = blocks_of bs (padded bs decoded); ss = take (length blocks) scales
            in if length ss = length blocks
               then Inr (take (length decoded) (concat (map2 (\<lambda>b s. map (\<lambda>v. v * s) b) blocks ss)))
               else if length ss = 1
               then Inr (take (length decoded) (concat (map (map (\<lambda>v. v * hd ss)) blocks)))
               else Inl BadBroadcast))
      else block_max_scales_numpy decoded scales bs)"

definition cols_of :: "nat list \<Rightarrow> nat" where
  "cols_of shape = fold (\<lambda>s c. c * s) (tl shape) 1"

definition col_l2_scales_numpy :: "real list \<Rightarrow> nat list \<Rightarrow> real list \<Rightarrow> norm_error + real list" where
  "col_l2_scales_numpy flat shape scales =
     (if shape = [] then Inl NoAxis
      else
        (let rows = hd shape; cols = cols_of shape
         in if length flat < rows * cols then Inl BadReshape
            else if length scales \<noteq> cols then Inl ColScaleCount
            else Inr (concat (map (\<lambda>row. map2 (\<lambda>v s. v * s) row scales) (blocks_of cols (take (rows * cols) flat))))))"

definition apply_col_scales :: "real list \<Rightarrow> nat list \<Rightarrow> real list \<Rightarrow> string \<Rightarrow> norm_error + real list" where
  "apply_col_scales decoded shape scales backend =
     (if backend = ''torch'' then
        (if shape = [] then Inl NoAxis
         else
           (let rows = hd shape; cols = cols_of shape; flat = take (rows * cols) decoded
            in if length flat < rows * cols then Inl BadReshape
               else if length scales = cols
               then Inr (concat (map (\<lambda>row. map2 (\<lambda>v s. v * s) row scales) (blocks_of cols flat)))
               else if length scales = 1 then Inr (map (\<lambda>v. v * hd scales) flat)
               else if cols = 1 then Inr (concat (map (\<lambda>v. map (\<lambda>s. v * s) scales) flat))
               else Inl BadBroadcast))
      else col_l2_scales_numpy decoded shape scales)"

section \<open>Padding\<close>

lemma pad_amount:
  assumes "0 < (bs :: nat)" and "bs dvd m" and "n \<le> m" and "m < n + bs"
  shows "(bs - n mod bs) mod bs = m - n"
proof -
  obtain q where q: "m = bs * q" using assms(2) by blast
  show ?thesis
  proof (cases "n = m")
    case True
    then show ?thesis using assms(1) q by simp
  next
    case False
    define d where "d = m - n"
    have d: "0 < d" "d < bs" "n + d = m" using False assms(3,4) by (auto simp: d_def)
    have "n mod bs = bs - d"
    proof -
      obtain q' where q': "q = Suc q'" using d q by (cases q) auto
      then have "n + d = bs * q' + bs" using d(3) q by simp
      then have "n = bs * q' + (bs - d)" using d(2) by linarith
      moreover have "bs - d < bs" using d(1) assms(1) by simp
      ultimately show ?thesis by (metis mod_less mod_mult_self4)
    qed
    then show ?thesis using d by (simp add: d_def [symmetric])
  qed
qed

lemma length_padded_flat: "0 < bs \<Longrightarrow> bs dvd length (padded bs xs) \<and> length xs \<le> length (padded bs xs) \<and> length (padded bs xs) < length xs + bs"
proof -
  assume bs: "0 < bs"
  let ?n = "length xs"
  have less: "?n mod bs < bs" using bs by simp
  have split: "?n = bs * (?n div bs) + ?n mod bs" by simp
  have "bs dvd ?n + (bs - ?n mod bs) mod bs"
  proof (cases "?n mod bs = 0")
    case True
    then show ?thesis by (simp add: dvd_eq_mod_eq_0)
  next
    case False
    then have "(bs - ?n mod bs) mod bs = bs - ?n mod bs" using less by simp
    then have "?n + (bs - ?n mod bs) mod bs = bs * (?n div bs) + bs" using less split by linarith
    then show ?thesis by simp
  qed
  then show ?thesis using bs by (simp add: padded_def)
qed

text \<open>Cutting, in the terms every user needs: blocks of equal length that make up the padded list.\<close>

definition cuts :: "nat \<Rightarrow> nat \<Rightarrow> real list list \<Rightarrow> bool" where
  "cuts bs n Bs \<longleftrightarrow> (\<forall>b \<in> set Bs. length b = bs) \<and> n \<le> length (concat Bs) \<and> length (concat Bs) < n + bs \<and>
     drop n (concat Bs) = replicate (length (concat Bs) - n) 0"

lemma length_concat_blocks: "\<forall>b \<in> set Bs. length b = bs \<Longrightarrow> length (concat Bs) = bs * length Bs"
  by (induction Bs) simp_all

lemma cuts_padded: "0 < bs \<Longrightarrow> cuts bs (length xs) (blocks_of bs (padded bs xs))"
proof -
  assume bs: "0 < bs"
  let ?P = "padded bs xs"
  have "\<forall>b \<in> set (blocks_of bs ?P). length b = bs" using blocks_of_dvd length_padded_flat [OF bs] bs by blast
  moreover have "drop (length xs) ?P = replicate (length ?P - length xs) 0" by (simp add: padded_def)
  ultimately show ?thesis unfolding cuts_def concat_blocks_of [OF bs] using length_padded_flat [OF bs] by blast
qed

lemma cuts_count: "0 < bs \<Longrightarrow> cuts bs n Bs \<Longrightarrow> length Bs = ceil_div n bs"
proof -
  assume bs: "0 < bs" and c: "cuts bs n Bs"
  have len: "length (concat Bs) = bs * length Bs" by (rule length_concat_blocks) (use c in \<open>simp add: cuts_def\<close>)
  then have "n \<le> bs * length Bs" "bs * length Bs < n + bs" using c unfolding cuts_def len by blast+
  moreover have "bs * Suc (length Bs) = bs * length Bs + bs" by simp
  ultimately have "bs * length Bs \<le> n + bs - 1" "n + bs - 1 < bs * Suc (length Bs)" using bs by linarith+
  then have "(n + bs - 1) div bs = length Bs" by (rule div_nat_eqI)
  then show ?thesis by (simp add: ceil_div_def)
qed

lemma padded_take:
  assumes "0 < bs" and "cuts bs n Bs"
  shows "padded bs (take n (concat Bs)) = concat Bs"
proof -
  have len: "length (concat Bs) = bs * length Bs" by (rule length_concat_blocks) (use assms(2) in \<open>simp add: cuts_def\<close>)
  have "(bs - n mod bs) mod bs = length (concat Bs) - n"
    using assms by (intro pad_amount) (simp_all add: cuts_def len)
  moreover have "length (take n (concat Bs)) = n" using assms(2) by (simp add: cuts_def)
  ultimately show ?thesis
    using assms(2) append_take_drop_id [of n "concat Bs"] by (simp only: padded_def cuts_def)
qed

lemma blocks_padded_take: "0 < bs \<Longrightarrow> cuts bs n Bs \<Longrightarrow> blocks_of bs (padded bs (take n (concat Bs))) = Bs"
  by (simp add: padded_take blocks_of_concat cuts_def)

text \<open>Transforming block by block: the length is kept, and so are the zeros of the padding.\<close>

lemma length_concat_map2:
  "length ss = length Bs \<Longrightarrow> (\<And>b s. s \<in> set ss \<Longrightarrow> length (g b s) = length b) \<Longrightarrow>
    length (concat (map2 g Bs ss)) = length (concat Bs)"
  by (induction ss Bs rule: list_induct2) simp_all

lemma zeros_concat_map2:
  assumes "length ss = length Bs" and "\<And>b s. s \<in> set ss \<Longrightarrow> length (g b s) = length b"
    and "\<And>b s n k. s \<in> set ss \<Longrightarrow> drop n b = replicate k 0 \<Longrightarrow> drop n (g b s) = replicate k (0 :: real)"
    and "drop n (concat Bs) = replicate k 0"
  shows "drop n (concat (map2 g Bs ss)) = replicate k 0"
  using assms
proof (induction ss Bs arbitrary: n k rule: list_induct2)
  case Nil
  then show ?case by simp
next
  case (Cons s ss b Bs)
  have rest: "drop m (concat (map2 g Bs ss)) = replicate j 0" if "drop m (concat Bs) = replicate j 0" for m j
    using Cons.IH [OF _ _ that] Cons.prems(1,2) by (meson list.set_intros(2))
  have "drop n b @ drop (n - length b) (concat Bs) = replicate k 0" using Cons.prems(3) by simp
  then obtain i j where "drop n b = replicate i 0" "drop (n - length b) (concat Bs) = replicate j 0" "k = i + j"
    by (metis append_eq_conv_conj drop_replicate length_append length_replicate take_replicate)
  then show ?case
    using rest Cons.prems(1) [where s = s and b = b] Cons.prems(2) [where s = s and b = b] by (simp add: replicate_add)
qed

lemma cuts_map2:
  assumes "cuts bs n Bs" and "length ss = length Bs" and "\<And>b s. s \<in> set ss \<Longrightarrow> length (g b s) = length b"
    and "\<And>b s n k. s \<in> set ss \<Longrightarrow> drop n b = replicate k 0 \<Longrightarrow> drop n (g b s) = replicate k 0"
  shows "cuts bs n (map2 g Bs ss)"
proof -
  have "\<forall>b \<in> set (map2 g Bs ss). length b = bs"
  proof
    fix c assume "c \<in> set (map2 g Bs ss)"
    then obtain b s where "(b, s) \<in> set (zip Bs ss)" "c = g b s" by auto
    then show "length c = bs" using assms(1,3) set_zip_leftD [of b s] set_zip_rightD [of b s] unfolding cuts_def by metis
  qed
  moreover have "length (concat (map2 g Bs ss)) = length (concat Bs)"
    using assms(2,3) by (rule length_concat_map2)
  moreover have "drop n (concat (map2 g Bs ss)) = replicate (length (concat Bs) - n) 0"
    using assms(1) zeros_concat_map2 [where g = g, OF assms(2,3,4)] unfolding cuts_def by blast
  ultimately show ?thesis using assms(1) by (simp add: cuts_def)
qed

definition per_block :: "(real \<Rightarrow> real \<Rightarrow> real) \<Rightarrow> real list list \<Rightarrow> real list \<Rightarrow> real list list" where
  "per_block f Bs ss = map2 (\<lambda>b s. map (\<lambda>v. f v s) b) Bs ss"

lemma concat_per_block:
  "length ss = length Bs \<Longrightarrow> length (concat (per_block f Bs ss)) = length (concat Bs)"
  unfolding per_block_def by (rule length_concat_map2) simp_all

lemma cuts_per_block:
  assumes "cuts bs n Bs" and "length ss = length Bs" and "\<And>s. s \<in> set ss \<Longrightarrow> f 0 s = 0"
  shows "cuts bs n (per_block f Bs ss)"
  unfolding per_block_def using assms by (intro cuts_map2) (simp_all add: drop_map)

lemma cuts_zeroed: "cuts bs n Bs \<Longrightarrow> length js = length Bs \<Longrightarrow> cuts bs n (map2 (\<lambda>b j. b[j := 0]) Bs js)"
proof (rule cuts_map2)
  show "drop m (b[j := 0]) = replicate k 0" if "drop m b = replicate k 0" for b :: "real list" and m j k
  proof (cases "j < m")
    case False
    then have "drop m (b[j := 0]) = (replicate k 0)[j - m := 0]" using that by (simp add: drop_update_swap)
    moreover have "(replicate k 0)[j - m := 0] = replicate k (0 :: real)"
      by (cases "j - m < k") (simp_all add: list_update_same_conv list_update_beyond not_less)
    ultimately show ?thesis by simp
  qed (use that in simp)
qed simp_all

text \<open>Multiplying the scales back in undoes the division, for any blocks and non-zero scales.\<close>

lemma scale_back:
  assumes "0 < bs" and "cuts bs n Bs" and "length ss = length Bs" and "\<And>s. s \<in> set ss \<Longrightarrow> s \<noteq> 0"
  shows "apply_block_scales (take n (divide_blocks Bs ss)) ss bs backend = Inr (take n (concat Bs))"
proof -
  let ?D = "per_block (/) Bs ss"
  have D: "divide_blocks Bs ss = concat ?D" by (simp add: divide_blocks_def per_block_def)
  have c: "cuts bs n ?D" by (rule cuts_per_block [OF assms(2,3)]) simp
  have undo: "map2 (\<lambda>b s. map (\<lambda>v. v * s) b) ?D ss = Bs"
    using assms(3,4) unfolding per_block_def by (induction ss Bs rule: list_induct2) (simp_all add: comp_def)
  have "length ?D = length ss" using assms(3) by (simp add: per_block_def)
  moreover have "length (take n (concat ?D)) = n" using c by (simp add: cuts_def)
  moreover have "blocks_of bs (padded bs (take n (concat ?D))) = ?D" by (rule blocks_padded_take [OF assms(1) c])
  ultimately show ?thesis
    using assms(1) by (simp add: D apply_block_scales_def block_max_scales_numpy_def Let_def undo)
qed

section \<open>What rounding to fp16 keeps\<close>

text \<open>
  The facts of IEEE half precision used: 65504 is the largest finite value, rounding to nearest moves a
  positive number by at most half of the result, and the powers of two from \<open>2 ^ -24\<close> on are exact.
\<close>

definition scale_laws :: "real env \<Rightarrow> bool" where
  "scale_laws e \<longleftrightarrow>
     (\<forall>v. fits16 e v \<longleftrightarrow> \<bar>v\<bar> \<le> 65504) \<and>
     (\<forall>v. MIN_STORABLE_SCALE \<le> v \<and> v \<le> 65504 \<longrightarrow> 0 < round16 e v \<and> v \<le> 3 / 2 * round16 e v) \<and>
     (\<forall>k :: int. -24 \<le> k \<and> k \<le> 15 \<longrightarrow> round16 e (2 powr of_int k) = 2 powr of_int k)"

lemma storage16_cases:
  obtains "storage16 e vs = vs" "vs = [] \<or> (\<exists>v \<in> set vs. \<not> fits16 e v)"
  | "storage16 e vs = map (round16 e) vs" "\<forall>v \<in> set vs. fits16 e v"
proof (cases "compact_float_dtype e vs ''float16'' = ''float32''")
  case True
  then have "\<exists>v \<in> set vs. \<not> fits16 e v" by (auto simp: compact_float_dtype_def list_ex_iff split: if_splits)
  moreover have "storage16 e vs = vs" using True by (simp add: storage16_def fp16_storage_roundtrip_def)
  ultimately show ?thesis using that(1) by blast
next
  case False
  then have "\<forall>v \<in> set vs. fits16 e v"
    by (cases vs) (auto simp: compact_float_dtype_def list_ex_iff split: if_splits)
  moreover have "storage16 e vs = map (round16 e) vs" using False by (simp add: storage16_def fp16_storage_roundtrip_def)
  ultimately show ?thesis using that(2) by blast
qed

lemma length_storage16 [simp]: "length (storage16 e vs) = length vs"
  by (rule storage16_cases [of e vs]) simp_all

lemma storage16_scale:
  assumes "scale_laws e" and "\<And>v. v \<in> set vs \<Longrightarrow> MIN_STORABLE_SCALE \<le> v" and "i < length vs"
  shows "0 < storage16 e vs ! i" and "vs ! i \<le> 3 / 2 * storage16 e vs ! i"
proof -
  have pos: "0 < vs ! i" "MIN_STORABLE_SCALE \<le> vs ! i" "vs ! i \<in> set vs"
    using assms(2) [of "vs ! i"] assms(3) by (auto simp: MIN_STORABLE_SCALE_def intro: order_less_le_trans [of 0])
  have "0 < storage16 e vs ! i \<and> vs ! i \<le> 3 / 2 * storage16 e vs ! i"
  proof (rule storage16_cases [of e vs])
    assume "storage16 e vs = map (round16 e) vs" "\<forall>v \<in> set vs. fits16 e v"
    moreover from this have "vs ! i \<le> 65504" using pos(3) assms(1) by (auto simp: scale_laws_def)
    ultimately show ?thesis using assms(1,3) pos(2) unfolding scale_laws_def by simp
  qed (use pos in simp)
  then show "0 < storage16 e vs ! i" "vs ! i \<le> 3 / 2 * storage16 e vs ! i" by auto
qed

lemma storage16_pos: "scale_laws e \<Longrightarrow> (\<And>v. v \<in> set vs \<Longrightarrow> MIN_STORABLE_SCALE \<le> v) \<Longrightarrow> s \<in> set (storage16 e vs) \<Longrightarrow> 0 < s"
  by (metis in_set_conv_nth length_storage16 storage16_scale(1))

lemma abs_max_ge: "v \<in> set b \<Longrightarrow> \<bar>v\<bar> \<le> abs_max b"
  by (auto simp: abs_max_def intro: fold_max_upper)

lemma abs_max_nonneg: "0 \<le> abs_max b"
  by (auto simp: abs_max_def intro: fold_max_upper)

definition divisor :: "real list \<Rightarrow> real" where
  "divisor b = max (if abs_max b = 0 then 1 else abs_max b) MIN_STORABLE_SCALE"

lemma divisor_ge: "MIN_STORABLE_SCALE \<le> divisor b" "v \<in> set b \<Longrightarrow> \<bar>v\<bar> \<le> divisor b"
  using abs_max_ge [of v b] by (auto simp: divisor_def)

lemma divided_bound:
  assumes "length ss = length Bs" and "\<And>i. i < length Bs \<Longrightarrow> 0 < ss ! i"
    and "\<And>i v. i < length Bs \<Longrightarrow> v \<in> set (Bs ! i) \<Longrightarrow> \<bar>v\<bar> \<le> c * ss ! i" and "v \<in> set (divide_blocks Bs ss)"
  shows "\<bar>v\<bar> \<le> c"
proof -
  obtain b s where bs: "(b, s) \<in> set (zip Bs ss)" "v \<in> (\<lambda>w. w / s) ` set b"
    using assms(4) by (auto simp: divide_blocks_def)
  then obtain i w where "i < length Bs" "b = Bs ! i" "s = ss ! i" "w \<in> set b" "v = w / s"
    using assms(1) by (auto simp: set_zip)
  then show ?thesis using assms(2) [of i] assms(3) [of i w] by (simp add: pos_divide_le_eq)
qed

section \<open>The backends agree\<close>

lemma clamp: "(if s < m then m else s) = max s m" for s m :: real
  by (simp add: max_def)

lemma divisor_fold:
  "map (\<lambda>s. max (if s = 0 then 1 else s) MIN_STORABLE_SCALE) (map abs_max Bs) = map divisor Bs"
  "map (\<lambda>s. if s < MIN_STORABLE_SCALE then MIN_STORABLE_SCALE else s) (map (\<lambda>b. if abs_max b = 0 then 1 else abs_max b) Bs) = map divisor Bs"
  unfolding clamp by (simp_all add: divisor_def)

lemma block_max_torch_eq: "block_max_torch e t bs = block_max_numpy e t bs"
  unfolding block_max_torch_def block_max_numpy_def Let_def divisor_fold ..

lemma channel_block_max_torch_eq: "channel_block_max_torch e t bs = channel_block_max_numpy e t bs"
  unfolding channel_block_max_torch_def channel_block_max_numpy_def Let_def divisor_fold block_max_torch_eq ..

text \<open>Both SLRQ variants are one routine over the position they take out of a block.\<close>

definition slrq_with :: "(real list \<Rightarrow> nat) \<Rightarrow> real env \<Rightarrow> tensor \<Rightarrow> nat \<Rightarrow> bool \<Rightarrow> norm_error + slrq_result" where
  "slrq_with f e t bs sal =
     (case t of (shape, flat) \<Rightarrow>
        if bs = 0 then Inl ZeroBlock
        else
          (let blocks = blocks_of bs (padded bs flat);
               indices = map (\<lambda>b. f (map abs b)) blocks;
               zeroed = (if sal then map2 (\<lambda>b j. b[j := 0]) blocks indices else blocks);
               safe = storage16 e (map (\<lambda>b. pow2_scale (abs_max b)) zeroed)
           in Inr \<lparr>sr_tensor = (shape, take (length flat) (divide_blocks zeroed safe)), sr_scales = safe,
                   sr_weights = (if sal then Some (storage16 e (map2 (\<lambda>b j. b ! j) blocks indices)) else None),
                   sr_indices = (if sal then Some indices else None), sr_source = flat,
                   sr_input = (if length flat mod bs = 0 then concat zeroed else flat)\<rparr>))"

lemma slrq_with_numpy: "slrq_block_numpy = slrq_with argmax"
  by (simp add: fun_eq_iff slrq_with_def slrq_block_numpy_def)

lemma slrq_with_torch: "slrq_block_torch e = slrq_with (torch_argmax e) e"
  by (auto simp: fun_eq_iff slrq_with_def slrq_block_torch_def Let_def)

lemma argmax_positions_mem: "i \<in> set (argmax_positions xs) \<longleftrightarrow> i < length xs \<and> (\<forall>x \<in> set xs. x \<le> xs ! i)"
  by (auto simp: argmax_positions_def list_all_iff)

lemma argmax_mem: "xs \<noteq> [] \<Longrightarrow> argmax xs \<in> set (argmax_positions xs)"
  using argmax_less argmax_max by (auto simp: argmax_positions_mem)

lemma torch_argmax_mem:
  assumes "xs \<noteq> []"
  shows "torch_argmax e xs \<in> set (argmax_positions xs)"
proof -
  have "0 < length (argmax_positions xs)" using argmax_mem [OF assms] by (auto intro: length_pos_if_in_set)
  then show ?thesis by (simp add: torch_argmax_def Let_def)
qed

lemma torch_argmax_less: "xs \<noteq> [] \<Longrightarrow> torch_argmax e xs < length xs"
  using torch_argmax_mem argmax_positions_mem by blast

lemma torch_argmax_unique:
  assumes "xs \<noteq> []" and "length (argmax_positions xs) = 1"
  shows "torch_argmax e xs = argmax xs"
proof -
  obtain i where "argmax_positions xs = [i]" using assms(2) by (auto simp: length_Suc_conv)
  then show ?thesis using argmax_mem [OF assms(1)] torch_argmax_mem [OF assms(1), of e] by simp
qed

lemma abs_max_le: "0 \<le> m \<Longrightarrow> (\<And>x. x \<in> set b \<Longrightarrow> \<bar>x\<bar> \<le> m) \<Longrightarrow> abs_max b \<le> m"
  unfolding abs_max_def by (induction b rule: rev_induct) simp_all

lemma abs_max_zeroed:
  assumes "i \<in> set (argmax_positions (map abs b))" and "j \<in> set (argmax_positions (map abs b))"
  shows "abs_max (b[i := 0]) \<le> abs_max (b[j := 0])"
proof (cases "i = j")
  case False
  have ij: "i < length b" "j < length b" and top: "\<And>x. x \<in> set b \<Longrightarrow> \<bar>x\<bar> \<le> \<bar>b ! i\<bar>"
    using assms by (auto simp: argmax_positions_mem)
  have "\<bar>x\<bar> \<le> \<bar>b ! i\<bar>" if "x \<in> set (b[i := 0])" for x
    using that top set_update_subset_insert [of b i 0] by auto
  then have "abs_max (b[i := 0]) \<le> \<bar>b ! i\<bar>" by (intro abs_max_le) simp_all
  also have "b ! i = b[j := 0] ! i" using False by simp
  then have "b ! i \<in> set (b[j := 0])" using ij(1) by (metis length_list_update nth_mem)
  then have "\<bar>b ! i\<bar> \<le> abs_max (b[j := 0])" by (rule abs_max_ge)
  finally show ?thesis .
qed simp

lemma act_mag_torch_eq: "act_mag_torch X = act_mag X"
  by (simp add: act_mag_torch_def act_mag_def max_def not_le not_less)

lemma awq_scales_torch_eq: "awq_scales_torch e X alpha = awq_scales e X alpha"
  by (simp add: awq_scales_torch_def awq_scales_def act_mag_torch_eq)

lemma awq_torch_eq: "awq_torch e t X alpha = awq_numpy e t X alpha"
  unfolding awq_torch_def awq_numpy_def awq_scales_torch_eq ..

lemma block_max_numpy_ok: "0 < bs \<Longrightarrow> block_max_numpy e (shape, flat) bs =
    (let Bs = blocks_of bs (padded bs flat); safe = storage16 e (map divisor Bs)
     in Inr ((shape, take (length flat) (divide_blocks Bs safe)), safe, flat))"
  unfolding block_max_numpy_def Let_def divisor_fold by simp

lemma concat_row_blocks: "0 < bs \<Longrightarrow> concat (concat (map (blocks_of bs) rs)) = concat rs"
  by (induction rs) simp_all

lemma channel_blocks_flat:
  assumes "0 < bs" and "bs dvd last shape" and "last shape dvd length flat" and "0 < last shape"
  shows "channel_blocks shape bs flat = blocks_of bs (padded bs flat)"
proof -
  let ?rows = "blocks_of (last shape) flat"
  have rows: "\<forall>r \<in> set ?rows. length r = last shape" using blocks_of_dvd [OF assms(4,3)] by blast
  have "\<forall>b \<in> set (channel_blocks shape bs flat). length b = bs"
  proof
    fix b assume "b \<in> set (channel_blocks shape bs flat)"
    then obtain r where "r \<in> set ?rows" "b \<in> set (blocks_of bs r)" by (auto simp: channel_blocks_def)
    then show "length b = bs" using rows blocks_of_dvd [OF assms(1), of r] assms(2) by simp
  qed
  moreover have "concat (channel_blocks shape bs flat) = concat ?rows"
    unfolding channel_blocks_def by (rule concat_row_blocks [OF assms(1)])
  ultimately have "blocks_of bs flat = channel_blocks shape bs flat"
    using blocks_of_concat [of "channel_blocks shape bs flat" bs] assms(1,4) by simp
  moreover have "bs dvd length flat" using assms(2,3) by (rule dvd_trans)
  ultimately show ?thesis by (simp add: padded_def dvd_eq_mod_eq_0)
qed

lemma channel_block_max_numpy_eq:
  assumes "length flat = prod_list shape"
  shows "channel_block_max_numpy e (shape, flat) bs = block_max_numpy e (shape, flat) bs"
proof (cases "0 < bs \<and> \<not> (length shape < 2 \<or> last shape mod bs \<noteq> 0)")
  case False
  then show ?thesis by (auto simp: channel_block_max_numpy_def block_max_numpy_def)
next
  case True
  then have bs: "0 < bs" "bs dvd last shape" "shape \<noteq> []" by auto
  have "shape = butlast shape @ [last shape]" using bs(3) by simp
  then have "prod_list shape = prod_list (butlast shape) * last shape"
    by (metis prod_list.append prod_list.Cons prod_list.Nil mult_1_right)
  then have last: "last shape dvd length flat" using assms by simp
  have blocks: "channel_blocks shape bs flat = blocks_of bs (padded bs flat)"
  proof (cases "0 < last shape")
    case True
    then show ?thesis using channel_blocks_flat bs last by blast
  next
    case False
    then have "flat = []" using last by simp
    then show ?thesis by (simp add: channel_blocks_def padded_def)
  qed
  let ?Bs = "blocks_of bs (padded bs flat)" and ?safe = "storage16 e (map divisor (blocks_of bs (padded bs flat)))"
  have "bs dvd length flat" using bs(2) last by (rule dvd_trans)
  then have "padded bs flat = flat" by (simp add: padded_def dvd_eq_mod_eq_0)
  then have "length (divide_blocks ?Bs ?safe) = length flat"
    using concat_per_block [of ?safe ?Bs "(/)"] bs(1) by (simp add: per_block_def divide_blocks_def)
  then show ?thesis
    using True unfolding channel_block_max_numpy_def Let_def divisor_fold prod.case blocks
    by (simp add: block_max_numpy_ok Let_def)
qed

section \<open>Properties\<close>

lemma block_max_result:
  fixes flat :: "real list"
  assumes "scale_laws e" and "0 < bs"
  defines "Bs \<equiv> blocks_of bs (padded bs flat)"
  defines "safe \<equiv> storage16 e (map divisor Bs)"
  shows "block_max_numpy e (shape, flat) bs = Inr ((shape, take (length flat) (divide_blocks Bs safe)), safe, flat)"
    and "apply_block_scales (take (length flat) (divide_blocks Bs safe)) safe bs backend = Inr flat"
    and "length safe = ceil_div (length flat) bs" and "v \<in> set (divide_blocks Bs safe) \<Longrightarrow> \<bar>v\<bar> \<le> 3 / 2"
proof -
  have c: "cuts bs (length flat) Bs" unfolding Bs_def by (rule cuts_padded [OF assms(2)])
  have len: "length safe = length Bs" by (simp add: safe_def)
  have ge: "MIN_STORABLE_SCALE \<le> v" if "v \<in> set (map divisor Bs)" for v using that divisor_ge(1) by auto
  have pos: "0 < s" if "s \<in> set safe" for s using storage16_pos [OF assms(1) ge] that unfolding safe_def by blast
  show "block_max_numpy e (shape, flat) bs = Inr ((shape, take (length flat) (divide_blocks Bs safe)), safe, flat)"
    unfolding block_max_numpy_ok [OF assms(2)] Let_def Bs_def safe_def ..
  have "take (length flat) (concat Bs) = flat" by (simp add: Bs_def concat_blocks_of [OF assms(2)] padded_def)
  moreover have "s \<noteq> 0" if "s \<in> set safe" for s using pos [OF that] by simp
  ultimately show "apply_block_scales (take (length flat) (divide_blocks Bs safe)) safe bs backend = Inr flat"
    using scale_back [OF assms(2) c len] by metis
  show "length safe = ceil_div (length flat) bs" using len cuts_count [OF assms(2) c] by simp
  have "\<bar>w\<bar> \<le> 3 / 2 * safe ! i" if "i < length Bs" "w \<in> set (Bs ! i)" for i w
  proof -
    have "divisor (Bs ! i) \<le> 3 / 2 * safe ! i"
      using storage16_scale(2) [OF assms(1), of "map divisor Bs" i] ge that(1) by (simp add: safe_def)
    then show ?thesis using divisor_ge(2) [OF that(2)] by linarith
  qed
  then show "\<bar>v\<bar> \<le> 3 / 2" if "v \<in> set (divide_blocks Bs safe)"
    using divided_bound [OF len _ _ that] pos len by (metis nth_mem)
qed

text \<open>C20: Under the fp16 facts \<open>scale_laws\<close>, block-max and channel-block-max normalization of a well-shaped
  tensor succeed on either backend, bound every normalized entry by 3/2, store one scale per block, and are
  undone exactly by \<open>apply_block_scales\<close> on either backend.\<close>

theorem block_normalization_roundtrip:
  assumes "scale_laws e" and "0 < bs" and "length flat = prod_list shape"
    and "normalization \<in> {''block-max'', ''channel-block-max''}"
  shows "\<exists>normalized scales.
     apply_normalization NORMALIZATION_REGISTRY e (shape, flat) name normalization awq alpha bs backend sal =
       Inr (norm_plain (shape, normalized) (Some scales) flat) \<and>
     length normalized = length flat \<and> length scales = ceil_div (length flat) bs \<and>
     list_all (\<lambda>v. \<bar>v\<bar> \<le> 3 / 2) normalized \<and>
     apply_block_scales normalized scales bs backend' = Inr flat"
proof -
  let ?Bs = "blocks_of bs (padded bs flat)" and ?safe = "storage16 e (map divisor (blocks_of bs (padded bs flat)))"
  let ?norm = "take (length flat) (divide_blocks ?Bs ?safe)"
  have "apply_normalization NORMALIZATION_REGISTRY e (shape, flat) name normalization awq alpha bs backend sal =
      Inr (norm_plain (shape, ?norm) (Some ?safe) flat)"
    using assms(4) block_max_result(1) [OF assms(1,2), where shape = shape and flat = flat]
    by (auto simp: apply_normalization_def NORMALIZATION_REGISTRY_def Let_def normalize_block_max_def
        normalize_channel_block_max_def block_max_torch_eq channel_block_max_torch_eq
        channel_block_max_numpy_eq [OF assms(3)])
  moreover have "length ?norm = length flat"
    using length_padded_flat [OF assms(2), of flat] concat_per_block [of ?safe ?Bs "(/)"] assms(2)
    by (simp add: divide_blocks_def per_block_def)
  moreover have "list_all (\<lambda>v. \<bar>v\<bar> \<le> 3 / 2) ?norm"
    using block_max_result(4) [OF assms(1,2)] by (auto simp: list_all_iff dest: in_set_takeD)
  ultimately show ?thesis using block_max_result(2,3) [OF assms(1,2)] by blast
qed

text \<open>Channel-block-max is block-max: on every tensor whose values fill its shape the two modes give the
  same normalized tensor and the same scales, for every block size and on both backends.\<close>

theorem channel_block_max_is_block_max:
  assumes "length flat = prod_list shape"
  shows "apply_normalization NORMALIZATION_REGISTRY e (shape, flat) name ''channel-block-max'' awq alpha bs backend sal =
    apply_normalization NORMALIZATION_REGISTRY e (shape, flat) name ''block-max'' awq alpha bs backend sal"
  using channel_block_max_numpy_eq [OF assms]
  by (simp add: apply_normalization_def NORMALIZATION_REGISTRY_def Let_def normalize_block_max_def
      normalize_channel_block_max_def block_max_torch_eq channel_block_max_torch_eq)

lemma slrq_backends:
  "case slrq_with f e (shape, flat) bs sal of
     Inl err \<Rightarrow> slrq_with g e (shape, flat) bs sal = Inl err
   | Inr r \<Rightarrow> (\<forall>b \<in> set (blocks_of bs (padded bs flat)). {f (map abs b), g (map abs b)} \<subseteq> set (argmax_positions (map abs b))) \<longrightarrow>
       (\<exists>r'. slrq_with g e (shape, flat) bs sal = Inr r' \<and> sr_scales r' = sr_scales r \<and> sr_source r' = sr_source r \<and>
         fst (sr_tensor r') = fst (sr_tensor r))"
proof -
  have "map (\<lambda>b. pow2_scale (abs_max b)) (map2 (\<lambda>b j. b[j := 0]) Bs (map (\<lambda>b. f (map abs b)) Bs)) =
      map (\<lambda>b. pow2_scale (abs_max b)) (map2 (\<lambda>b j. b[j := 0]) Bs (map (\<lambda>b. g (map abs b)) Bs))"
    if "\<forall>b \<in> set Bs. {f (map abs b), g (map abs b)} \<subseteq> set (argmax_positions (map abs b))" for Bs :: "real list list"
    using that
  proof (induction Bs)
    case (Cons b Bs)
    have "abs_max (b[f (map abs b) := 0]) = abs_max (b[g (map abs b) := 0])"
      using Cons.prems by (intro antisym abs_max_zeroed) simp_all
    then show ?case using Cons by simp
  qed simp
  then show ?thesis by (auto simp: slrq_with_def Let_def)
qed

lemma blocks_nonempty: "0 < bs \<Longrightarrow> b \<in> set (blocks_of bs xs) \<Longrightarrow> map abs b \<noteq> []"
proof (induction bs xs rule: blocks_of.induct)
  case (1 k xs)
  then show ?case by (auto simp: blocks_of.simps [of k xs] split: if_splits)
qed

lemma slrq_torch_numpy:
  "case slrq_block_numpy e (shape, flat) bs sal of
     Inl err \<Rightarrow> slrq_block_torch e (shape, flat) bs sal = Inl err
   | Inr r \<Rightarrow> \<exists>r'. slrq_block_torch e (shape, flat) bs sal = Inr r' \<and> sr_scales r' = sr_scales r \<and>
       sr_source r' = sr_source r \<and> fst (sr_tensor r') = fst (sr_tensor r)"
proof (cases "bs = 0")
  case False
  have all: "\<forall>b \<in> set (blocks_of bs (padded bs flat)).
      {argmax (map abs b), torch_argmax e (map abs b)} \<subseteq> set (argmax_positions (map abs b))"
  proof
    fix b assume "b \<in> set (blocks_of bs (padded bs flat))"
    then have "map abs b \<noteq> []" using False blocks_nonempty by blast
    then show "{argmax (map abs b), torch_argmax e (map abs b)} \<subseteq> set (argmax_positions (map abs b))"
      using argmax_mem torch_argmax_mem by (simp only: insert_subset empty_subsetI simp_thms)
  qed
  note agree = slrq_backends [where f = argmax and g = "torch_argmax e" and e = e and shape = shape and flat = flat and bs = bs and sal = sal]
  show ?thesis unfolding slrq_with_numpy slrq_with_torch
    by (cases "slrq_with argmax e (shape, flat) bs sal") (use agree all in \<open>simp_all only: sum.case simp_thms\<close>)
qed (simp add: slrq_with_numpy slrq_with_torch slrq_with_def)

lemma slrq_torch_unique:
  assumes "sal \<longrightarrow> (\<forall>b \<in> set (blocks_of bs (padded bs flat)). length (argmax_positions (map abs b)) = 1)"
  shows "slrq_block_torch e (shape, flat) bs sal = slrq_block_numpy e (shape, flat) bs sal"
proof (cases "sal \<and> bs \<noteq> 0")
  case True
  then have eq: "map (\<lambda>b. torch_argmax e (map abs b)) (blocks_of bs (padded bs flat)) =
      map (\<lambda>b. argmax (map abs b)) (blocks_of bs (padded bs flat))"
    using assms by (intro map_cong refl torch_argmax_unique blocks_nonempty) simp_all
  show ?thesis unfolding slrq_with_numpy slrq_with_torch slrq_with_def prod.case Let_def eq by (rule refl)
qed (auto simp: slrq_with_numpy slrq_with_torch slrq_with_def)

text \<open>C21: What the backend changes about a normalization. Except for awq-block-max, which the numpy backend
  refuses, torch and numpy raise the same error or return the same stored scales, column scales, source values and
  shape. The results are equal altogether except for SLRQ with salient weights on a tensor where some block (after
  padding) has several entries of largest magnitude: torch's argmax may then take out another of them.\<close>

theorem normalization_backend_independent:
  assumes "normalization \<noteq> ''awq-block-max''"
  shows "case apply_normalization NORMALIZATION_REGISTRY e (shape, flat) name normalization awq alpha bs ''numpy'' sal of
      Inl err \<Rightarrow> apply_normalization NORMALIZATION_REGISTRY e (shape, flat) name normalization awq alpha bs ''torch'' sal = Inl err
    | Inr r \<Rightarrow> \<exists>r'.
        apply_normalization NORMALIZATION_REGISTRY e (shape, flat) name normalization awq alpha bs ''torch'' sal = Inr r' \<and>
        nr_row_scales r' = nr_row_scales r \<and> nr_col_scales r' = nr_col_scales r \<and> nr_source r' = nr_source r \<and>
        fst (nr_tensor r') = fst (nr_tensor r) \<and>
        (normalization = ''slrq-block'' \<and> sal \<and>
           (\<exists>b \<in> set (blocks_of bs (padded bs flat)). length (argmax_positions (map abs b)) \<noteq> 1) \<or> r' = r)"
proof (cases "normalization = ''slrq-block''")
  case True
  note defs = apply_normalization_def NORMALIZATION_REGISTRY_def Let_def normalize_slrq_block_def True
  show ?thesis
    using slrq_torch_numpy [of e shape flat bs sal] slrq_torch_unique [of sal bs flat e shape]
    by (cases "slrq_block_numpy e (shape, flat) bs sal") (auto simp: defs)
next
  case False
  have "apply_normalization NORMALIZATION_REGISTRY e (shape, flat) name normalization awq alpha bs ''torch'' sal =
      apply_normalization NORMALIZATION_REGISTRY e (shape, flat) name normalization awq alpha bs ''numpy'' sal"
    using assms False
    by (auto simp: apply_normalization_def NORMALIZATION_REGISTRY_def Let_def normalize_block_max_def normalize_awq_def
        normalize_channel_block_max_def normalize_none_def activations_of_def
        block_max_torch_eq channel_block_max_torch_eq awq_torch_eq
        split: option.splits sum.splits)
  then show ?thesis by (simp split: sum.splits)
qed

section \<open>SLRQ scales\<close>

lemma pow2_scale_form: "\<exists>k :: int. -24 \<le> k \<and> pow2_scale m = 2 powr of_int k"
proof -
  let ?c = "\<lceil>log 2 (if m = 0 then 1 else m)\<rceil>"
  have "(1 :: real) / 2 ^ 24 = 2 powr of_int (-24)" by (simp add: powr_minus_divide)
  then have eq: "pow2_scale m = max (2 powr of_int ?c) (2 powr of_int (-24))" unfolding pow2_scale_def by (simp only:)
  show ?thesis
  proof (cases "?c \<le> -24")
    case True
    then have "of_int ?c \<le> (of_int (-24) :: real)" by (simp only: of_int_le_iff)
    then have "(2 :: real) powr of_int ?c \<le> 2 powr of_int (-24)" by (rule powr_mono) simp
    then have "pow2_scale m = 2 powr of_int (-24)" unfolding eq by (rule max_absorb2)
    then show ?thesis by blast
  next
    case False
    then have "(of_int (-24) :: real) \<le> of_int ?c" by (simp only: of_int_le_iff)
    then have "(2 :: real) powr of_int (-24) \<le> 2 powr of_int ?c" by (rule powr_mono) simp
    then have "pow2_scale m = 2 powr of_int ?c" unfolding eq by (rule max_absorb1)
    then show ?thesis using False by (intro exI [of _ ?c]) simp
  qed
qed

lemma pow2_scale_ge: "0 \<le> m \<Longrightarrow> m \<le> pow2_scale m"
proof (cases "m = 0")
  case False
  assume "0 \<le> m"
  then have "m = 2 powr log 2 m" using False by simp
  also have "\<dots> \<le> 2 powr of_int \<lceil>log 2 m\<rceil>" by simp
  finally show ?thesis using False by (simp add: pow2_scale_def)
qed (simp add: pow2_scale_def le_max_iff_disj)

lemma pow2_scale_pos: "0 < pow2_scale m"
  using pow2_scale_form [of m] by auto

lemma storage16_pow2:
  assumes "scale_laws e"
  shows "storage16 e (map (\<lambda>b. pow2_scale (f b)) bs) = map (\<lambda>b. pow2_scale (f b)) bs"
proof (rule storage16_cases [of e "map (\<lambda>b. pow2_scale (f b)) bs"])
  assume st: "storage16 e (map (\<lambda>b. pow2_scale (f b)) bs) = map (round16 e) (map (\<lambda>b. pow2_scale (f b)) bs)"
    and fit: "\<forall>v \<in> set (map (\<lambda>b. pow2_scale (f b)) bs). fits16 e v"
  have "round16 e (pow2_scale (f b)) = pow2_scale (f b)" if "b \<in> set bs" for b
  proof -
    obtain k :: int where k: "-24 \<le> k" "pow2_scale (f b) = 2 powr of_int k" using pow2_scale_form by blast
    have "2 powr of_int k \<le> (65504 :: real)" using fit that k(2) assms by (auto simp: scale_laws_def)
    also have "\<dots> < 2 powr of_int 16" by simp
    finally have "(2 :: real) powr of_int k < 2 powr of_int 16" .
    then have "of_int k < (of_int 16 :: real)" by (simp only: powr_less_cancel_iff)
    then have "k \<le> 15" by (simp only: of_int_less_iff)
    then show ?thesis using assms k unfolding scale_laws_def by simp
  qed
  then show ?thesis unfolding st by simp
qed

definition salient_positions :: "(real list \<Rightarrow> nat) \<Rightarrow> real list list \<Rightarrow> nat list" where
  "salient_positions f Bs = map (\<lambda>b. f (map abs b)) Bs"

definition without_salient :: "(real list \<Rightarrow> nat) \<Rightarrow> real list list \<Rightarrow> real list list" where
  "without_salient f Bs = map2 (\<lambda>b j. b[j := 0]) Bs (salient_positions f Bs)"

definition slrq_scales :: "real list list \<Rightarrow> real list" where
  "slrq_scales Zs = map (\<lambda>b. pow2_scale (abs_max b)) Zs"

lemma slrq_result:
  fixes flat :: "real list" and f :: "real list \<Rightarrow> nat"
  assumes "scale_laws e" and "0 < bs"
  defines "Bs \<equiv> blocks_of bs (padded bs flat)"
  defines "Zs \<equiv> without_salient f Bs"
  shows "slrq_with f e (shape, flat) bs True =
      Inr \<lparr>sr_tensor = (shape, take (length flat) (divide_blocks Zs (slrq_scales Zs))), sr_scales = slrq_scales Zs,
          sr_weights = Some (storage16 e (map2 (!) Bs (salient_positions f Bs))),
          sr_indices = Some (salient_positions f Bs), sr_source = flat,
          sr_input = (if length flat mod bs = 0 then concat Zs else flat)\<rparr>"
    and "apply_block_scales (take (length flat) (divide_blocks Zs (slrq_scales Zs))) (slrq_scales Zs) bs backend =
      Inr (take (length flat) (concat Zs))"
    and "v \<in> set (divide_blocks Zs (slrq_scales Zs)) \<Longrightarrow> \<bar>v\<bar> \<le> 1" and "length Zs = ceil_div (length flat) bs"
proof -
  have c: "cuts bs (length flat) Bs" unfolding Bs_def by (rule cuts_padded [OF assms(2)])
  have lens: "length Zs = length Bs" by (simp add: Zs_def without_salient_def salient_positions_def)
  show "slrq_with f e (shape, flat) bs True =
      Inr \<lparr>sr_tensor = (shape, take (length flat) (divide_blocks Zs (slrq_scales Zs))), sr_scales = slrq_scales Zs,
          sr_weights = Some (storage16 e (map2 (!) Bs (salient_positions f Bs))),
          sr_indices = Some (salient_positions f Bs), sr_source = flat,
          sr_input = (if length flat mod bs = 0 then concat Zs else flat)\<rparr>"
    using assms(2) unfolding slrq_with_def Let_def storage16_pow2 [OF assms(1)] slrq_scales_def Zs_def Bs_def
      without_salient_def salient_positions_def by simp
  have cz: "cuts bs (length flat) Zs"
    unfolding Zs_def without_salient_def by (rule cuts_zeroed [OF c]) (simp add: salient_positions_def)
  have len: "length (slrq_scales Zs) = length Zs" by (simp add: slrq_scales_def)
  have pos: "0 < s" if "s \<in> set (slrq_scales Zs)" for s using that pow2_scale_pos by (auto simp: slrq_scales_def)
  then show "apply_block_scales (take (length flat) (divide_blocks Zs (slrq_scales Zs))) (slrq_scales Zs) bs backend =
      Inr (take (length flat) (concat Zs))"
    using scale_back [OF assms(2) cz len] by (metis less_irrefl)
  have "\<bar>w\<bar> \<le> 1 * slrq_scales Zs ! i" if "i < length Zs" "w \<in> set (Zs ! i)" for i w
    using abs_max_ge [OF that(2)] pow2_scale_ge [OF abs_max_nonneg, of "Zs ! i"] that(1) by (simp add: slrq_scales_def)
  then show "\<bar>v\<bar> \<le> 1" if "v \<in> set (divide_blocks Zs (slrq_scales Zs))"
    using divided_bound [OF len _ _ that] pos len by (metis nth_mem)
  show "length Zs = ceil_div (length flat) bs" using lens cuts_count [OF assms(2) c] by simp
qed

section \<open>Sidecars\<close>

lemma length_divide_rows:
  assumes "0 < cols" and "length scales = cols" and "cols dvd length flat"
  shows "length (divide_rows cols flat scales) = length flat"
proof -
  have "\<forall>r \<in> set (blocks_of cols flat). length r = cols" using blocks_of_dvd [OF assms(1,3)] by blast
  then have "length (concat (map (\<lambda>row. map2 (\<lambda>v s. v / s) row scales) rs)) = length (concat rs)"
    if "set rs \<subseteq> set (blocks_of cols flat)" for rs
    using that assms(2) by (induction rs) auto
  from this [OF order_refl] show ?thesis unfolding divide_rows_def by (simp add: concat_blocks_of [OF assms(1)])
qed

lemma length_awq_scales [simp]: "length (awq_scales e X alpha) = fst X"
  by (simp add: awq_scales_def act_mag_def)

lemma block_max_scales_count:
  "0 < bs \<Longrightarrow> block_max_numpy e (shape, flat) bs = Inr (t, s, src) \<Longrightarrow> length s = ceil_div (length flat) bs \<and> src = flat"
  using cuts_count [OF _ cuts_padded, of bs flat] by (auto simp: block_max_numpy_ok Let_def)

lemma slrq_scales_count:
  "0 < bs \<Longrightarrow> slrq_with f e (shape, flat) bs sal = Inr r \<Longrightarrow>
    length (sr_scales r) = ceil_div (length flat) bs \<and> sr_source r = flat"
  using cuts_count [OF _ cuts_padded, of bs flat] by (auto simp: slrq_with_def Let_def)

lemma awq_block_scales_count:
  assumes "0 < bs" and "length flat = prod_list shape"
    and "awq_block_max_torch e (shape, flat) X alpha bs = Inr (t, s, src, cs)"
  shows "length s = ceil_div (length flat) bs \<and> src = flat"
proof -
  obtain r rest where shape: "shape = r # rest" "r \<noteq> 0"
    using assms(3) by (auto simp: awq_block_max_torch_def row_width_def split: list.splits if_splits)
  let ?cols = "length flat div r"
  have cols: "fst X = ?cols" "s = storage16 e (map divisor (blocks_of bs (padded bs (divide_rows ?cols flat (awq_scales e X alpha)))))"
    "src = flat"
    using assms(1,3) shape unfolding awq_block_max_torch_def Let_def divisor_fold awq_scales_torch_eq
    by (auto simp: row_width_def split: if_splits)
  have "length (divide_rows ?cols flat (awq_scales e X alpha)) = length flat"
  proof (cases "0 < ?cols")
    case True
    have "length flat = r * ?cols" using assms(2) shape by simp
    then have "?cols dvd length flat" by (metis dvd_triv_right)
    then show ?thesis using True cols(1) by (intro length_divide_rows) simp_all
  next
    case False
    then have "flat = []" using assms(2) shape by auto
    then show ?thesis by (simp add: divide_rows_def)
  qed
  then show ?thesis using cuts_count [OF assms(1) cuts_padded [OF assms(1)]] cols(2,3) by simp
qed

text \<open>What a normalization leaves for the manifest: the source values unchanged; for a mode that stores block
  scales one scale per block of the flat tensor; for AWQ with calibration one scale per column; otherwise none.\<close>

theorem normalization_sidecars:
  assumes "0 < bs" and "length flat = prod_list shape"
    and "apply_normalization NORMALIZATION_REGISTRY e (shape, flat) name normalization awq alpha bs backend sal = Inr r"
  shows "nr_source r = Some flat \<and>
     (case nr_row_scales r of
        Some s \<Rightarrow> if stores_block_scales normalization then length s = ceil_div (length flat) bs
                  else normalization = ''awq'' \<and> length s = length flat div hd shape
      | None \<Rightarrow> \<not> stores_block_scales normalization)"
proof -
  note defs = apply_normalization_def NORMALIZATION_REGISTRY_def Let_def stores_block_scales_def
    BLOCK_SCALE_NORMALIZATIONS_def norm_plain_def normalize_none_def
  consider "normalization = ''slrq-block''" | "normalization = ''awq''" | "normalization = ''awq-block-max''"
    | "normalization = ''channel-block-max''" | "normalization = ''block-max''"
    | "normalization \<noteq> ''slrq-block'' \<and> normalization \<noteq> ''awq'' \<and> normalization \<noteq> ''awq-block-max'' \<and>
       normalization \<noteq> ''channel-block-max'' \<and> normalization \<noteq> ''block-max''" by satx
  then show ?thesis
  proof cases
    case 1
    let ?q = "slrq_with (if backend = ''torch'' then torch_argmax e else argmax) e (shape, flat) bs sal"
    have "bind_err ?q (\<lambda>q. Inr \<lparr>nr_tensor = sr_tensor q, nr_row_scales = Some (sr_scales q), nr_source = Some (sr_source q),
        nr_col_scales = None, nr_salient_weights = sr_weights q, nr_salient_indices = sr_indices q\<rparr>) = Inr r"
      using assms(3) unfolding 1 apply_normalization_def NORMALIZATION_REGISTRY_def Let_def
      by (simp add: normalize_slrq_block_def slrq_with_numpy slrq_with_torch split: if_splits)
    then obtain q where "?q = Inr q" "nr_row_scales r = Some (sr_scales q)" "nr_source r = Some (sr_source q)"
      by (auto simp: bind_err_eq_Inr)
    then show ?thesis using 1 slrq_scales_count [OF assms(1)] by (simp add: defs)
  next
    case 2
    then show ?thesis using assms(3)
      by (auto simp: defs normalize_awq_def awq_torch_eq awq_numpy_def row_width_def bind_err_eq_Inr
          split: if_splits list.splits)
  next
    case 3
    then obtain s src where "nr_row_scales r = Some s" "nr_source r = Some src" "length s = ceil_div (length flat) bs" "src = flat"
      using assms(3) awq_block_scales_count [OF assms(1,2)] block_max_scales_count [OF assms(1)]
      by (fastforce simp: defs normalize_awq_block_max_def block_max_torch_eq bind_err_eq_Inr split: if_splits)
    then show ?thesis using 3 by (simp add: defs)
  next
    case 4
    then obtain t s src where "block_max_numpy e (shape, flat) bs = Inr (t, s, src)" "nr_row_scales r = Some s" "nr_source r = Some src"
      using assms(3) by (auto simp: defs normalize_channel_block_max_def channel_block_max_torch_eq
          channel_block_max_numpy_eq [OF assms(2)] bind_err_eq_Inr split: if_splits)
    then show ?thesis using 4 block_max_scales_count [OF assms(1)] by (simp add: defs)
  next
    case 5
    then obtain t s src where "block_max_numpy e (shape, flat) bs = Inr (t, s, src)" "nr_row_scales r = Some s" "nr_source r = Some src"
      using assms(3) by (auto simp: defs normalize_block_max_def block_max_torch_eq bind_err_eq_Inr split: if_splits)
    then show ?thesis using 5 block_max_scales_count [OF assms(1)] by (simp add: defs)
  next
    case 6
    then show ?thesis using assms(3) by (auto simp: defs)
  qed
qed

lemma register_normalization_dispatch:
  "map_of (register_normalization mode h reg) = (map_of reg)(mode \<mapsto> h)"
  by (simp add: register_normalization_def)

section \<open>Examples\<close>

text \<open>An fp16 with the grid of multiples of \<open>2 ^ -24\<close>.\<close>

definition grid_env :: "real env" where
  "grid_env = \<lparr>zcompress = id, zdecompress = Some, fits16 = (\<lambda>v. \<bar>v\<bar> \<le> 65504), to16 = (\<lambda>v. nat (round (v * 2 ^ 24))),
     of16 = (\<lambda>n. of_nat n / 2 ^ 24), to32 = (\<lambda>_. 0), of32 = (\<lambda>_. 0), torch_tie = length\<rparr>"

lemma grid_laws: "scale_laws grid_env"
  unfolding scale_laws_def
proof (intro conjI allI impI)
  fix v :: real
  assume v: "MIN_STORABLE_SCALE \<le> v \<and> v \<le> 65504"
  define x where "x = v * 2 ^ 24"
  have x: "1 \<le> x" "v = x / 2 ^ 24" using v by (simp_all add: x_def MIN_STORABLE_SCALE_def field_simps)
  have r: "1 \<le> round x" using round_mono [OF x(1)] by simp
  have "x \<le> of_int (round x) + 1 / 2" using of_int_round_abs_le [of x] by linarith
  moreover have "1 \<le> (of_int (round x) :: real)" using r by simp
  ultimately have "x \<le> 3 / 2 * of_int (round x)" by linarith
  then have le: "v \<le> 3 / 2 * of_int (round x) / 2 ^ 24" unfolding x(2) by (rule divide_right_mono) simp
  have r16: "round16 grid_env v = of_int (round x) / 2 ^ 24"
    using r by (simp add: round16_def grid_env_def x_def)
  show "0 < round16 grid_env v" unfolding r16 using r by simp
  show "v \<le> 3 / 2 * round16 grid_env v" unfolding r16 using le by simp
next
  fix k :: int
  assume k: "-24 \<le> k \<and> k \<le> 15"
  then obtain n where n: "k + 24 = int n" by (metis add.commute minus_le_iff nonneg_int_cases le_minus_iff diff_ge_0_iff_ge diff_minus_eq_add)
  then have k2: "(2 :: real) powr of_int k = 2 powr of_int (int n) / 2 ^ 24" by (simp add: powr_add flip: n)
  also have "\<dots> = 2 ^ n / 2 ^ 24" by (simp add: powr_realpow)
  finally have k3: "(2 :: real) powr of_int k = of_int (2 ^ n) / 2 ^ 24" by simp
  then have "(2 :: real) powr of_int k * 2 ^ 24 = of_int (2 ^ n)" by simp
  then have "round ((2 :: real) powr of_int k * 2 ^ 24) = 2 ^ n" by (simp only: round_of_int)
  then show "round16 grid_env (2 powr of_int k) = 2 powr of_int k"
    unfolding round16_def grid_env_def by (simp add: k3)
qed (simp add: grid_env_def)

theorem block_normalization_roundtrip_witness:
  "\<exists>normalized scales.
     apply_normalization NORMALIZATION_REGISTRY grid_env ([2, 3], [1, -2, 3, 0, 5, 6]) ''w'' ''channel-block-max'' None 1 4
       ''torch'' True = Inr (norm_plain ([2, 3], normalized) (Some scales) [1, -2, 3, 0, 5, 6]) \<and>
     apply_block_scales normalized scales 4 ''numpy'' = Inr [1, -2, 3, 0, 5, 6]"
proof -
  have "\<exists>normalized scales.
     apply_normalization NORMALIZATION_REGISTRY grid_env ([2, 3], [1, -2, 3, 0, 5, 6]) ''w'' ''channel-block-max'' None 1 4
       ''torch'' True = Inr (norm_plain ([2, 3], normalized) (Some scales) [1, -2, 3, 0, 5, 6]) \<and>
     length normalized = length [1, -2, 3, 0, 5, 6 :: real] \<and> length scales = ceil_div (length [1, -2, 3, 0, 5, 6 :: real]) 4 \<and>
     list_all (\<lambda>v. \<bar>v\<bar> \<le> 3 / 2) normalized \<and> apply_block_scales normalized scales 4 ''numpy'' = Inr [1, -2, 3, 0, 5, 6]"
    by (rule block_normalization_roundtrip [OF grid_laws]) simp_all
  then show ?thesis by blast
qed

theorem channel_block_max_is_block_max_witness:
  "apply_normalization NORMALIZATION_REGISTRY grid_env ([2, 2], [1, -2, 3, 0]) ''w'' ''channel-block-max'' None 1 2 ''numpy'' True =
    apply_normalization NORMALIZATION_REGISTRY grid_env ([2, 2], [1, -2, 3, 0]) ''w'' ''block-max'' None 1 2 ''numpy'' True"
  by (rule channel_block_max_is_block_max) simp

theorem normalization_backend_independent_witness:
  "\<exists>r. apply_normalization NORMALIZATION_REGISTRY grid_env ([2], [1, -2]) ''w'' ''slrq-block'' None 1 2 ''numpy'' True = Inr r \<and>
    apply_normalization NORMALIZATION_REGISTRY grid_env ([2], [1, -2]) ''w'' ''slrq-block'' None 1 2 ''torch'' True = Inr r"
proof -
  have name: "''slrq-block'' \<noteq> ''awq-block-max''" by simp
  have "blocks_of 2 (padded 2 [1, -2 :: real]) = [[1, -2]]"
    using blocks_of_concat [of "[[1, -2 :: real]]" 2] by (simp add: padded_def)
  moreover have "argmax_positions [1, 2 :: real] = [1]" by (simp add: argmax_positions_def upt_rec)
  moreover have "\<exists>r. apply_normalization NORMALIZATION_REGISTRY grid_env ([2], [1, -2]) ''w'' ''slrq-block'' None 1 2 ''numpy'' True = Inr r"
    by (simp add: apply_normalization_def NORMALIZATION_REGISTRY_def Let_def normalize_slrq_block_def slrq_block_numpy_def)
  ultimately show ?thesis
    using normalization_backend_independent [OF name, of grid_env "[2]" "[1, -2]" "''w''" None 1 2 True] by auto
qed

text \<open>On a tie the two backends really differ: the torch of \<open>grid_env\<close> takes out the other entry.\<close>

lemma salient_ties_diverge:
  "apply_normalization NORMALIZATION_REGISTRY (grid_env\<lparr>torch_tie := (\<lambda>_. 1)\<rparr>) ([2], [1, -1]) ''w'' ''slrq-block'' None 1 2 ''torch'' True \<noteq>
    apply_normalization NORMALIZATION_REGISTRY (grid_env\<lparr>torch_tie := (\<lambda>_. 1)\<rparr>) ([2], [1, -1]) ''w'' ''slrq-block'' None 1 2 ''numpy'' True"
proof -
  have "blocks_of 2 (padded 2 [1, -1 :: real]) = [[1, -1]]"
    using blocks_of_concat [of "[[1, -1 :: real]]" 2] by (simp add: padded_def)
  moreover have "argmax_positions [1, 1 :: real] = [0, 1]" by (simp add: argmax_positions_def upt_rec)
  ultimately show ?thesis
    by (simp add: apply_normalization_def NORMALIZATION_REGISTRY_def Let_def normalize_slrq_block_def slrq_with_numpy
        slrq_with_torch slrq_with_def torch_argmax_def)
qed

theorem normalization_sidecars_witness:
  "\<exists>r s. apply_normalization NORMALIZATION_REGISTRY grid_env ([3], [1, -2, 3]) ''w'' ''block-max'' None 1 2 ''numpy'' True = Inr r \<and>
     nr_row_scales r = Some s \<and> length s = 2"
proof -
  let ?t = "([3], [1, -2, 3]) :: tensor"
  have "\<exists>r. apply_normalization NORMALIZATION_REGISTRY grid_env ?t ''w'' ''block-max'' None 1 2 ''numpy'' True = Inr r"
    by (simp add: apply_normalization_def NORMALIZATION_REGISTRY_def normalize_block_max_def block_max_numpy_ok Let_def)
  then obtain r where r: "apply_normalization NORMALIZATION_REGISTRY grid_env ?t ''w'' ''block-max'' None 1 2 ''numpy'' True = Inr r"
    by blast
  have "stores_block_scales ''block-max''" by (simp add: stores_block_scales_def BLOCK_SCALE_NORMALIZATIONS_def)
  then show ?thesis
    using normalization_sidecars [OF _ _ r] r by (auto simp: ceil_div_def split: option.splits)
qed

end
