(* ===== verification/Rotate.thy ===== *)
theory Rotate
  imports Prelude
begin

text \<open>
  \<open>orka/transforms/rotate.py\<close>: the incoherence rotations a weight goes through before it is quantized
  and back through after it is decoded: the fast Walsh-Hadamard transform by blocks, the seeded
  orthogonal matrix, and the registry that dispatches between them.

  A tensor is its shape and its flat values; values are real numbers. The orthogonal factor numpy's
  QR returns for a seed and the 8-byte hash of a name are parameters. The torch and the numpy
  variant of a transform compute the same values and are modelled once.
\<close>

unbundle bit_operations_syntax

datatype rotate_error =
    NotPowerOfTwo nat | NotDivisible nat nat | NoPow2Divisor nat | TooWide nat | UnknownRotation string
  | NoDimension | EmptyRows | ShortTensor

section \<open>The fast Walsh-Hadamard transform\<close>

text \<open>
  One round of the loop: with the last axis seen as \<open>(n div (2 * h), 2, h)\<close>, the two halves \<open>a\<close>, \<open>b\<close> of
  each block become \<open>a + b\<close> and \<open>a - b\<close>.
\<close>

definition butterfly :: "nat \<Rightarrow> real list \<Rightarrow> real list" where
  "butterfly h x =
     map (\<lambda>i. let q = i div (2 * h); r = i mod h; a = x ! (q * (2 * h) + r); b = x ! (q * (2 * h) + h + r)
              in if i div h mod 2 = 0 then a + b else a - b) [0..<length x]"

function fwht_loop :: "nat \<Rightarrow> nat \<Rightarrow> real list \<Rightarrow> real list" where
  "fwht_loop n h x = (if h < n \<and> 0 < h then fwht_loop n (h * 2) (butterfly h x) else x)"
  by pat_completeness auto
termination by (relation "measure (\<lambda>(n, h, x). n - h)") auto

declare fwht_loop.simps [simp del]

definition pow2_like :: "nat \<Rightarrow> bool" where
  "pow2_like n \<longleftrightarrow> int n AND (int n - 1) = 0"

definition fwht :: "real list \<Rightarrow> rotate_error + real list" where
  "fwht x =
     (let n = length x
      in if \<not> pow2_like n then Inl (NotPowerOfTwo n)
         else Inr (map (\<lambda>v. v / sqrt (real n)) (fwht_loop n 1 x)))"

definition largest_pow2_divisor :: "nat \<Rightarrow> nat" where
  "largest_pow2_divisor n = (if n = 0 then 0 else nat (int n AND (- int n)))"

definition block_fwht :: "nat \<Rightarrow> real list \<Rightarrow> rotate_error + real list" where
  "block_fwht bs x =
     (let n = length x
      in if bs = 0 \<or> n mod bs \<noteq> 0 then Inl (NotDivisible n bs)
         else if \<not> pow2_like bs then Inl (NotPowerOfTwo bs)
         else bind_err (mapM fwht (blocks_of bs x)) (\<lambda>ys. Inr (concat ys)))"

definition MIN_BLOCK :: nat where "MIN_BLOCK = 4"

definition hadamard_block_size :: "nat \<Rightarrow> rotate_error + nat" where
  "hadamard_block_size cols =
     (if pow2_like cols then Inr cols
      else
        (let d = largest_pow2_divisor cols
         in if d < MIN_BLOCK then Inl (NoPow2Divisor cols) else Inr d))"

section \<open>Powers of two\<close>

lemma and_push: "(2 ^ k * a) AND (2 ^ k * b) = 2 ^ k * (a AND b :: int)"
  using push_bit_and [of k a b] by (simp add: push_bit_eq_mult mult.commute)

lemma and_plus_and_not: "(x AND y) + (x AND NOT y) = (x :: int)"
proof -
  have "(x AND y) AND (x AND NOT y) = 0" by (rule bit_eqI) (auto simp: bit_simps)
  moreover have "(x AND y) OR (x AND NOT y) = x" by (rule bit_eqI) (auto simp: bit_simps)
  ultimately show ?thesis using plus_and_or [of "x AND y" "x AND NOT y"] by simp
qed

lemma odd_and_neg: "odd (m :: int) \<Longrightarrow> m AND - m = 1"
proof -
  assume "odd m"
  then obtain q where q: "m = 2 * q + 1" by (rule oddE)
  have "- m = 2 * NOT q + 1" unfolding q by (simp add: not_int_def)
  then have "m AND - m = (2 * q + 1) AND (2 * NOT q + 1)" by (simp only: q)
  also have "\<dots> = 1"
    by (subst and_rec) simp
  finally show ?thesis .
qed

lemma pow2_parts:
  assumes "0 < (n :: nat)"
  obtains k m where "n = 2 ^ k * m" and "odd m"
proof -
  have "\<exists>k m. n = 2 ^ k * m \<and> odd m" using assms
  proof (induction n rule: less_induct)
    case (less n)
    show ?case
    proof (cases "even n")
      case True
      then obtain j where "n = 2 * j" by (rule evenE)
      moreover from this less.prems have "j < n" "0 < j" by auto
      ultimately obtain k m where "j = 2 ^ k * m" "odd m" using less.IH [of j] by blast
      with \<open>n = 2 * j\<close> have "n = 2 ^ Suc k * m" by simp
      with \<open>odd m\<close> show ?thesis by blast
    next
      case False
      then have "n = 2 ^ 0 * n \<and> odd n" by simp
      then show ?thesis by blast
    qed
  qed
  then show ?thesis using that by blast
qed

lemma largest_pow2_divisor_parts: "odd m \<Longrightarrow> largest_pow2_divisor (2 ^ k * m) = 2 ^ k"
proof -
  assume odd: "odd m"
  then have m: "m \<noteq> 0" by (intro notI) simp
  have "int (2 ^ k * m) AND - int (2 ^ k * m) = 2 ^ k * (int m AND - int m)"
    using and_push [of k "int m" "- int m"] by simp
  also have "\<dots> = 2 ^ k" using odd odd_and_neg [of "int m"] by simp
  finally show ?thesis using m by (simp add: largest_pow2_divisor_def nat_power_eq)
qed

lemma pow2_like_parts: "odd m \<Longrightarrow> pow2_like (2 ^ k * m) \<longleftrightarrow> m = 1"
proof -
  assume odd: "odd m"
  let ?x = "int (2 ^ k * m)"
  have "?x - 1 = NOT (- ?x)" by (simp add: not_int_def)
  then have "?x AND (?x - 1) = ?x AND NOT (- ?x)" by (simp only:)
  moreover have "(?x AND - ?x) + (?x AND NOT (- ?x)) = ?x" by (rule and_plus_and_not)
  moreover have "?x AND - ?x = 2 ^ k"
    using and_push [of k "int m" "- int m"] odd odd_and_neg [of "int m"] by simp
  ultimately have "?x AND (?x - 1) = ?x - 2 ^ k" by linarith
  then have "?x AND (?x - 1) = 2 ^ k * (int m - 1)" by (simp add: algebra_simps)
  then show ?thesis by (simp add: pow2_like_def)
qed

lemma pow2_like_power [simp]: "pow2_like (2 ^ k)"
  using pow2_like_parts [of 1 k] by simp

lemma pow2_like_iff: "0 < n \<Longrightarrow> pow2_like n \<longleftrightarrow> (\<exists>k. n = 2 ^ k)"
proof
  assume "0 < n" and "pow2_like n"
  obtain k m where "n = 2 ^ k * m" "odd m" using \<open>0 < n\<close> by (rule pow2_parts)
  with \<open>pow2_like n\<close> show "\<exists>k. n = 2 ^ k" using pow2_like_parts by auto
qed auto

lemma hadamard_block_ok:
  assumes "hadamard_block_size cols = Inr bs" and "0 < cols"
  shows "0 < bs \<and> bs dvd cols \<and> (\<exists>k. bs = 2 ^ k)"
proof -
  obtain k m where km: "cols = 2 ^ k * m" "odd m" using assms(2) by (rule pow2_parts)
  show ?thesis
  proof (cases "pow2_like cols")
    case True
    then show ?thesis using assms by (auto simp: hadamard_block_size_def pow2_like_iff)
  next
    case False
    then have "bs = 2 ^ k"
      using assms(1) km largest_pow2_divisor_parts [OF km(2), of k]
      by (simp add: hadamard_block_size_def Let_def split: if_splits)
    then show ?thesis using km by auto
  qed
qed

section \<open>One round, by index\<close>

text \<open>With \<open>h = 2 ^ j\<close> a round combines each value with the one whose index differs in bit \<open>j\<close>.\<close>

definition sgn_bit :: "nat \<Rightarrow> nat \<Rightarrow> real" where
  "sgn_bit j i = (if bit i j then - 1 else 1)"

definition round_fun :: "nat \<Rightarrow> (nat \<Rightarrow> real) \<Rightarrow> nat \<Rightarrow> real" where
  "round_fun j f i = sgn_bit j i * f i + f (flip_bit j i)"

lemma sgn_bit_flip: "sgn_bit j (flip_bit k i) = (if j = k then - sgn_bit j i else sgn_bit j i)"
  by (auto simp: sgn_bit_def bit_simps)

lemma sgn_bit_square [simp]: "sgn_bit j i * sgn_bit j i = 1"
  by (simp add: sgn_bit_def)

lemma flip_flip [simp]: "flip_bit j (flip_bit j i) = (i :: nat)"
  by (rule bit_eqI) (auto simp: bit_simps)

lemma flip_commute: "flip_bit j (flip_bit k i) = flip_bit k (flip_bit j (i :: nat))"
  by (rule bit_eqI) (auto simp: bit_simps)

lemma round_twice: "round_fun j (round_fun j f) i = 2 * f i"
proof -
  have "round_fun j (round_fun j f) i =
      (sgn_bit j i * sgn_bit j i) * f i + f i"
    by (simp add: round_fun_def sgn_bit_flip algebra_simps del: sgn_bit_square)
  then show ?thesis by simp
qed

lemma round_commute: "round_fun j (round_fun k f) = round_fun k (round_fun j f)"
  by (cases "j = k") (auto simp: round_fun_def sgn_bit_flip flip_commute [of j k] algebra_simps)

lemma round_scale: "round_fun j (\<lambda>i. c * f i) = (\<lambda>i. c * round_fun j f i)"
  by (auto simp: round_fun_def algebra_simps)

primrec rounds :: "nat \<Rightarrow> (nat \<Rightarrow> real) \<Rightarrow> nat \<Rightarrow> real" where
  "rounds 0 f = f"
| "rounds (Suc j) f = round_fun j (rounds j f)"

lemma rounds_commute: "rounds j (round_fun k f) = round_fun k (rounds j f)"
  by (induction j) (simp_all add: round_commute [of _ k])

lemma rounds_twice: "rounds j (rounds j f) = (\<lambda>i. 2 ^ j * f i)"
proof (induction j arbitrary: f)
  case (Suc j)
  have "rounds (Suc j) (rounds (Suc j) f) = round_fun j (round_fun j (rounds j (rounds j f)))"
    by (simp add: rounds_commute)
  also have "\<dots> = (\<lambda>i. 2 * (2 ^ j * f i))" using Suc by (simp add: round_twice fun_eq_iff)
  finally show ?case by (simp add: fun_eq_iff)
qed simp

lemma flip_less:
  assumes "j < k" and "i < 2 ^ k"
  shows "flip_bit j i < (2 :: nat) ^ k"
proof -
  have "take_bit k i = i" using assms(2) by (simp add: take_bit_nat_eq_self)
  then have "take_bit k (flip_bit j i) = flip_bit j i" using assms(1) by (simp add: take_bit_flip_bit_eq)
  then show ?thesis by (metis take_bit_nat_less_exp)
qed

lemma flip_bij: "j < k \<Longrightarrow> bij_betw (flip_bit j) {..<2 ^ k} {..<(2 :: nat) ^ k}"
  by (rule bij_betw_byWitness [where f' = "flip_bit j"]) (auto simp: flip_less)

lemma round_energy:
  assumes "j < k"
  shows "(\<Sum>i<2 ^ k. (round_fun j f i) ^ 2) = 2 * (\<Sum>i<2 ^ k. (f i) ^ 2)"
proof -
  let ?cross = "\<lambda>i. sgn_bit j i * f i * f (flip_bit j i)"
  have sq: "(round_fun j f i) ^ 2 = (f i) ^ 2 + (f (flip_bit j i)) ^ 2 + 2 * ?cross i" for i
    using sgn_bit_square [of j i]
    by (simp add: round_fun_def power2_eq_square algebra_simps)
  have flip: "(\<Sum>i<2 ^ k. g (flip_bit j i)) = (\<Sum>i<2 ^ k. g i)" for g :: "nat \<Rightarrow> real"
    using flip_bij [OF assms] by (rule sum.reindex_bij_betw)
  have "(\<Sum>i<2 ^ k. ?cross i) = (\<Sum>i<2 ^ k. ?cross (flip_bit j i))" using flip [of ?cross] by simp
  also have "\<dots> = - (\<Sum>i<2 ^ k. ?cross i)" by (simp add: sgn_bit_flip sum_negf [symmetric] algebra_simps)
  finally have "(\<Sum>i<2 ^ k. ?cross i) = 0" by simp
  then show ?thesis
    using flip [of "\<lambda>i. (f i) ^ 2"] by (simp add: sq sum.distrib sum_distrib_left [symmetric])
qed

lemma rounds_energy: "j \<le> k \<Longrightarrow> (\<Sum>i<2 ^ k. (rounds j f i) ^ 2) = 2 ^ j * (\<Sum>i<2 ^ k. (f i) ^ 2)"
  by (induction j) (simp_all add: round_energy)

section \<open>The loop is the rounds\<close>

lemma flip_bit_value: "flip_bit j i = (if bit i j then i - 2 ^ j else i + 2 ^ j)" for i :: nat
proof (cases "bit i j")
  case True
  have "int (unset_bit j i) = int i - 2 ^ j"
    using True by (simp add: of_nat_unset_bit_eq unset_bit_eq bit_of_nat_iff_bit)
  moreover have "2 ^ j \<le> i" using True by (metis bit_iff_odd div_less even_zero not_le)
  ultimately have "int (unset_bit j i) = int (i - 2 ^ j)" by (simp add: of_nat_diff)
  then show ?thesis using True by (simp only: of_nat_eq_iff flip_bit_eq_if if_True)
qed (simp add: flip_bit_eq_if set_bit_eq)

lemma block_parts:
  fixes i j :: nat
  defines "low \<equiv> i div (2 * 2 ^ j) * (2 * 2 ^ j) + i mod 2 ^ j"
  shows "low = (if bit i j then flip_bit j i else i)" and "low + 2 ^ j = (if bit i j then i else flip_bit j i)"
    and "i div 2 ^ j mod 2 = 0 \<longleftrightarrow> \<not> bit i j"
proof -
  have "i = i div (2 ^ j * 2) * (2 ^ j * 2) + i mod (2 ^ j * 2)" by (rule div_mult_mod_eq [symmetric])
  also have "i mod (2 ^ j * 2) = 2 ^ j * (i div 2 ^ j mod 2) + i mod 2 ^ j" by (rule mod_mult2_eq)
  finally have i: "i = low + 2 ^ j * (i div 2 ^ j mod 2)" unfolding low_def by (simp add: mult.commute)
  show odd: "i div 2 ^ j mod 2 = 0 \<longleftrightarrow> \<not> bit i j" by (simp add: bit_iff_odd even_iff_mod_2_eq_zero)
  have "i div 2 ^ j mod 2 = (if bit i j then 1 else 0)" by (simp add: bit_iff_odd odd_iff_mod_2_eq_one)
  then have "2 ^ j * (i div 2 ^ j mod 2) = (if bit i j then 2 ^ j else 0)" by simp
  with i have "i = low + (if bit i j then 2 ^ j else 0)" by (simp only:)
  then show "low = (if bit i j then flip_bit j i else i)" "low + 2 ^ j = (if bit i j then i else flip_bit j i)"
    by (auto simp: flip_bit_value)
qed

definition val_at :: "real list \<Rightarrow> nat \<Rightarrow> real" where
  "val_at x i = (if i < length x then x ! i else 0)"

lemma butterfly_nth:
  assumes "i < length x" and "length x = 2 ^ k" and "j < k"
  shows "butterfly (2 ^ j) x ! i = round_fun j ((!) x) i"
proof -
  have "butterfly (2 ^ j) x ! i =
     (if \<not> bit i j then x ! (i div (2 * 2 ^ j) * (2 * 2 ^ j) + i mod 2 ^ j) + x ! (i div (2 * 2 ^ j) * (2 * 2 ^ j) + i mod 2 ^ j + 2 ^ j)
      else x ! (i div (2 * 2 ^ j) * (2 * 2 ^ j) + i mod 2 ^ j) - x ! (i div (2 * 2 ^ j) * (2 * 2 ^ j) + i mod 2 ^ j + 2 ^ j))"
    using assms(1) by (simp add: butterfly_def Let_def block_parts(3) add_ac)
  then show ?thesis
    using block_parts(1,2) [of i j] by (cases "bit i j") (simp_all add: round_fun_def sgn_bit_def)
qed

lemma length_butterfly [simp]: "length (butterfly h x) = length x"
  by (simp add: butterfly_def)

text \<open>What lists of equal length agree on below their length.\<close>

lemma rounds_cong:
  assumes "\<And>i. i < 2 ^ k \<Longrightarrow> f i = g i" and "j \<le> k" and "i < 2 ^ k"
  shows "rounds j f i = rounds j g i"
  using assms(2,3)
proof (induction j arbitrary: i)
  case (Suc j)
  then have "flip_bit j i < 2 ^ k" by (intro flip_less) simp_all
  with Suc show ?case by (simp add: round_fun_def)
qed (simp add: assms(1))

lemma fwht_loop_rounds:
  assumes "length x = 2 ^ k" and "j \<le> k" and "i < 2 ^ k"
    and "\<And>i. i < 2 ^ k \<Longrightarrow> x ! i = rounds j f i"
  shows "fwht_loop (2 ^ k) (2 ^ j) x ! i = rounds k f i \<and> length (fwht_loop (2 ^ k) (2 ^ j) x) = 2 ^ k"
  using assms(1,2,4)
proof (induction "k - j" arbitrary: j x)
  case 0
  then show ?case using assms(3) by (simp add: fwht_loop.simps)
next
  case (Suc d)
  then have j: "j < k" by simp
  have "butterfly (2 ^ j) x ! i' = rounds (Suc j) f i'" if "i' < 2 ^ k" for i'
  proof -
    have "butterfly (2 ^ j) x ! i' = round_fun j ((!) x) i'" using Suc.prems(1) j that by (simp add: butterfly_nth)
    also have "\<dots> = round_fun j (rounds j f) i'"
      using Suc.prems(3) that flip_less [OF j that] by (simp add: round_fun_def)
    finally show ?thesis by simp
  qed
  then have "fwht_loop (2 ^ k) (2 ^ Suc j) (butterfly (2 ^ j) x) ! i = rounds k f i \<and>
      length (fwht_loop (2 ^ k) (2 ^ Suc j) (butterfly (2 ^ j) x)) = 2 ^ k"
    using Suc.hyps(2) Suc.prems(1) j by (intro Suc.hyps(1)) simp_all
  moreover have "fwht_loop (2 ^ k) (2 ^ j) x = fwht_loop (2 ^ k) (2 ^ Suc j) (butterfly (2 ^ j) x)"
    using j by (subst fwht_loop.simps) (simp add: mult.commute)
  ultimately show ?case by simp
qed

lemma fwht_value:
  assumes "length x = 2 ^ k"
  shows "fwht x = Inr (map (\<lambda>i. rounds k ((!) x) i / sqrt (2 ^ k)) [0..<2 ^ k])"
proof -
  have "fwht_loop (2 ^ k) (2 ^ 0) x ! i = rounds k ((!) x) i \<and> length (fwht_loop (2 ^ k) (2 ^ 0) x) = 2 ^ k"
    if "i < 2 ^ k" for i
    using assms that by (intro fwht_loop_rounds) simp_all
  moreover from this [of 0] have "length (fwht_loop (2 ^ k) 1 x) = 2 ^ k" by simp
  ultimately have "map (\<lambda>v. v / sqrt (2 ^ k)) (fwht_loop (2 ^ k) 1 x) =
      map (\<lambda>i. rounds k ((!) x) i / sqrt (2 ^ k)) [0..<2 ^ k]"
    by (intro nth_equalityI) simp_all
  then show ?thesis using assms by (simp add: fwht_def Let_def)
qed

lemma fwht_involution:
  assumes "length x = 2 ^ k"
  shows "\<exists>y. fwht x = Inr y \<and> length y = 2 ^ k \<and> fwht y = Inr x \<and> (\<Sum>v\<leftarrow>y. v ^ 2) = (\<Sum>v\<leftarrow>x. v ^ 2)"
proof -
  let ?s = "sqrt (2 ^ k)"
  let ?y = "map (\<lambda>i. rounds k ((!) x) i / ?s) [0..<2 ^ k]"
  have s: "?s * ?s = 2 ^ k" "?s \<noteq> 0" by simp_all
  have "rounds k (\<lambda>i. c * f i) = (\<lambda>i. c * rounds k f i)" for c f
    by (induction k) (simp_all add: round_scale)
  from this [of "1 / ?s" "rounds k ((!) x)"]
  have twice: "rounds k (\<lambda>i. rounds k ((!) x) i / ?s) i / ?s = x ! i" for i
    using s by (simp add: rounds_twice)
  have "rounds k ((!) ?y) i / ?s = x ! i" if "i < 2 ^ k" for i
    using rounds_cong [of k "(!) ?y" "\<lambda>i. rounds k ((!) x) i / ?s" k i] that twice by simp
  then have "map (\<lambda>i. rounds k ((!) ?y) i / ?s) [0..<2 ^ k] = x"
    using assms by (intro nth_equalityI) simp_all
  then have again: "fwht ?y = Inr x" using fwht_value [of ?y k] by simp
  have "(\<Sum>v\<leftarrow>?y. v ^ 2) = (\<Sum>i<2 ^ k. (rounds k ((!) x) i) ^ 2) / 2 ^ k"
    by (simp add: comp_def interv_sum_list_conv_sum_set_nat power_divide sum_divide_distrib atLeast0LessThan)
  also have "\<dots> = (\<Sum>i<2 ^ k. (x ! i) ^ 2)" by (simp add: rounds_energy)
  also have "\<dots> = (\<Sum>v\<leftarrow>x. v ^ 2)"
    using assms by (simp add: sum_list_sum_nth atLeast0LessThan)
  finally show ?thesis using fwht_value [OF assms] again by simp
qed

section \<open>Rotations and their registry\<close>

text \<open>\<open>reshape(rows, cols)\<close>: rows of the flat values; \<open>cols\<close> is the product of the trailing dimensions.\<close>

definition columns :: "nat list \<Rightarrow> nat" where
  "columns shape = foldl (*) 1 (map id (tl shape))"

definition rows_of :: "nat list \<Rightarrow> real list \<Rightarrow> rotate_error + real list list" where
  "rows_of shape flat =
     (if shape = [] then Inl NoDimension
      else if columns shape = 0 then Inl EmptyRows
      else Inr (blocks_of (columns shape) flat))"

definition rotate_hadamard :: "nat list \<Rightarrow> real list \<Rightarrow> rotate_error + real list \<times> int" where
  "rotate_hadamard shape flat =
     bind_err (rows_of shape flat) (\<lambda>rows.
     bind_err (hadamard_block_size (columns shape)) (\<lambda>bs.
     bind_err (mapM (block_fwht bs) rows) (\<lambda>out. Inr (concat out, 0))))"

definition unrotate_hadamard :: "nat \<Rightarrow> real list list \<Rightarrow> rotate_error + real list list" where
  "unrotate_hadamard cols rows =
     bind_err (hadamard_block_size cols) (\<lambda>bs. mapM (block_fwht bs) rows)"

definition MAX_ORTHOGONAL :: nat where "MAX_ORTHOGONAL = 16384"

text \<open>\<open>arr @ q\<close> and \<open>arr @ q.T\<close> for one row.\<close>

definition times :: "real list \<Rightarrow> real list list \<Rightarrow> real list" where
  "times r q = map (\<lambda>j. \<Sum>i<length q. r ! i * q ! i ! j) [0..<length q]"

definition times_t :: "real list \<Rightarrow> real list list \<Rightarrow> real list" where
  "times_t r q = map (\<lambda>j. \<Sum>i<length q. r ! i * q ! j ! i) [0..<length q]"

text \<open>\<open>hash8 name\<close> is the 8-byte digest as an integer, \<open>qr n seed\<close> the orthogonal factor.\<close>

record rotation_env =
  hash8 :: "string \<Rightarrow> int"
  qr :: "nat \<Rightarrow> int \<Rightarrow> real list list"

definition tensor_rotation_seed :: "rotation_env \<Rightarrow> int \<Rightarrow> string \<Rightarrow> int" where
  "tensor_rotation_seed e global_seed nm = (hash8 e nm XOR global_seed) AND (push_bit 63 1 - 1)"

definition rotate_orthogonal ::
  "rotation_env \<Rightarrow> string \<Rightarrow> int \<Rightarrow> nat list \<Rightarrow> real list \<Rightarrow> rotate_error + real list \<times> int" where
  "rotate_orthogonal e nm rotation_seed shape flat =
     (let seed = tensor_rotation_seed e rotation_seed nm
      in bind_err (rows_of shape flat) (\<lambda>rows.
         if columns shape > MAX_ORTHOGONAL then Inl (TooWide (columns shape))
         else Inr (concat (map (\<lambda>r. times r (qr e (columns shape) seed)) rows), seed)))"

definition unrotate_orthogonal :: "rotation_env \<Rightarrow> nat \<Rightarrow> int \<Rightarrow> real list list \<Rightarrow> rotate_error + real list list" where
  "unrotate_orthogonal e cols seed rows = Inr (map (\<lambda>r. times_t r (qr e cols seed)) rows)"

record rotation_strategy =
  rotate :: "string \<Rightarrow> int \<Rightarrow> nat list \<Rightarrow> real list \<Rightarrow> rotate_error + real list \<times> int"
  unrotate :: "nat \<Rightarrow> int \<Rightarrow> real list list \<Rightarrow> rotate_error + real list list"

type_synonym registry = "(string \<times> rotation_strategy) list"

definition ROTATION_REGISTRY :: "rotation_env \<Rightarrow> registry" where
  "ROTATION_REGISTRY e =
     [(''hadamard'', \<lparr>rotate = (\<lambda>nm seed. rotate_hadamard), unrotate = (\<lambda>cols seed. unrotate_hadamard cols)\<rparr>),
      (''orthogonal'', \<lparr>rotate = rotate_orthogonal e, unrotate = unrotate_orthogonal e\<rparr>)]"

definition register_rotation :: "string \<Rightarrow> rotation_strategy \<Rightarrow> registry \<Rightarrow> registry" where
  "register_rotation nm s reg = dict_put nm s reg"

definition rotate_tensor_to_2d ::
  "registry \<Rightarrow> string \<Rightarrow> string \<Rightarrow> int \<Rightarrow> nat list \<Rightarrow> real list \<Rightarrow> rotate_error + real list \<times> int option" where
  "rotate_tensor_to_2d reg nm rotation rotation_seed shape flat =
     (if rotation = ''none'' then Inr (flat, None)
      else
        (case map_of reg rotation of
           None \<Rightarrow> Inl (UnknownRotation rotation)
         | Some s \<Rightarrow> bind_err (rotate s nm rotation_seed shape flat) (\<lambda>(out, seed). Inr (out, Some seed))))"

definition unrotate_flat ::
  "registry \<Rightarrow> real list \<Rightarrow> nat list \<Rightarrow> string \<Rightarrow> int \<Rightarrow> rotate_error + real list" where
  "unrotate_flat reg flat shape rotation seed =
     (if shape = [] then Inl NoDimension
      else if length flat < hd shape * columns shape then Inl ShortTensor
      else
        bind_err (rows_of shape (take (hd shape * columns shape) flat)) (\<lambda>rows.
          (let s = (case map_of reg rotation of Some s \<Rightarrow> s | None \<Rightarrow> the (map_of reg ''orthogonal''))
           in bind_err (unrotate s (columns shape) seed rows) (\<lambda>out. Inr (concat out)))))"

section \<open>Blocks and rows\<close>

lemma mapM_roundtrip:
  assumes "\<And>x. x \<in> set xs \<Longrightarrow> \<exists>y. f x = Inr y \<and> g y = Inr x \<and> P x y"
  shows "\<exists>ys. mapM f xs = Inr ys \<and> mapM g ys = Inr xs \<and> list_all2 P xs ys"
  using assms
proof (induction xs)
  case (Cons x xs)
  then obtain y ys where "f x = Inr y" "g y = Inr x" "P x y" "mapM f xs = Inr ys" "mapM g ys = Inr xs" "list_all2 P xs ys"
    by (metis list.set_intros)
  then show ?case by simp
qed simp

lemma concat_same_lengths: "list_all2 (\<lambda>x y. length y = length x) xs ys \<Longrightarrow> length (concat ys) = length (concat xs)"
  by (induction rule: list_all2_induct) simp_all

lemma same_blocks:
  assumes "list_all2 (\<lambda>x y. length y = length x \<and> Q x y) (blocks_of b x) ys" and "0 < b" and "b dvd length x"
  shows "blocks_of b (concat ys) = ys" and "length (concat ys) = length x"
proof -
  have len: "\<forall>z \<in> set (blocks_of b x). length z = b" using blocks_of_dvd [OF assms(2,3)] by simp
  have "\<forall>y \<in> set ys. length y = b"
    using assms(1) len by (auto simp: list_all2_conv_all_nth in_set_conv_nth) (metis nth_mem)
  then show "blocks_of b (concat ys) = ys" using assms(2) by (intro blocks_of_concat) simp_all
  have "list_all2 (\<lambda>x y. length y = length x) (blocks_of b x) ys" using assms(1) by (rule list_all2_mono) simp
  then have "length (concat ys) = length (concat (blocks_of b x))" by (rule concat_same_lengths)
  then show "length (concat ys) = length x" using assms(2) by simp
qed

abbreviation power_of :: "real list \<Rightarrow> real" where
  "power_of x \<equiv> \<Sum>v\<leftarrow>x. v ^ 2"

lemma concat_power: "list_all2 (\<lambda>x y. power_of y = power_of x) xs ys \<Longrightarrow> power_of (concat ys) = power_of (concat xs)"
  by (induction rule: list_all2_induct) simp_all

lemma block_fwht_involution:
  assumes "bs = 2 ^ k" and "bs dvd length x"
  shows "\<exists>y. block_fwht bs x = Inr y \<and> block_fwht bs y = Inr x \<and> length y = length x \<and> power_of y = power_of x"
proof -
  have bs: "0 < bs" "pow2_like bs" using assms(1) by simp_all
  have "\<exists>ys. mapM fwht (blocks_of bs x) = Inr ys \<and> mapM fwht ys = Inr (blocks_of bs x) \<and>
      list_all2 (\<lambda>x y. length y = length x \<and> power_of y = power_of x) (blocks_of bs x) ys"
  proof (rule mapM_roundtrip)
    fix b assume "b \<in> set (blocks_of bs x)"
    then have "length b = 2 ^ k" using blocks_of_dvd [OF bs(1) assms(2)] assms(1) by simp
    then show "\<exists>y. fwht b = Inr y \<and> fwht y = Inr b \<and> length y = length b \<and> power_of y = power_of b"
      using fwht_involution [of b k] by metis
  qed
  then obtain ys where ys: "mapM fwht (blocks_of bs x) = Inr ys" "mapM fwht ys = Inr (blocks_of bs x)"
    "list_all2 (\<lambda>x y. length y = length x \<and> power_of y = power_of x) (blocks_of bs x) ys" by blast
  note same = same_blocks [OF ys(3) bs(1) assms(2)]
  have "list_all2 (\<lambda>x y. power_of y = power_of x) (blocks_of bs x) ys" using ys(3) by (rule list_all2_mono) simp
  then have "power_of (concat ys) = power_of x" using bs(1) concat_power by fastforce
  moreover have "block_fwht bs x = Inr (concat ys)" "block_fwht bs (concat ys) = Inr x"
    using bs assms(2) ys(1,2) same by (simp_all add: block_fwht_def Let_def)
  ultimately show ?thesis using same(2) by blast
qed

text \<open>A square matrix whose rows are orthonormal.\<close>

definition orthonormal :: "nat \<Rightarrow> real list list \<Rightarrow> bool" where
  "orthonormal n q \<longleftrightarrow> length q = n \<and>
     (\<forall>i < n. \<forall>k < n. (\<Sum>j<n. q ! i ! j * q ! k ! j) = (if i = k then 1 else 0))"

lemma times_back:
  assumes "orthonormal n q" and "length r = n"
  shows "times_t (times r q) q = r" and "length (times r q) = n"
proof -
  have q: "length q = n" using assms(1) by (simp add: orthonormal_def)
  show len: "length (times r q) = n" using q by (simp add: times_def)
  show "times_t (times r q) q = r"
  proof (rule nth_equalityI)
    show "length (times_t (times r q) q) = length r" using q assms(2) by (simp add: times_t_def)
    fix k assume "k < length (times_t (times r q) q)"
    then have k: "k < n" using q by (simp add: times_t_def)
    have "times_t (times r q) q ! k = (\<Sum>j<n. (\<Sum>i<n. r ! i * q ! i ! j) * q ! k ! j)"
      using k q by (simp add: times_t_def times_def)
    also have "\<dots> = (\<Sum>j<n. \<Sum>i<n. r ! i * (q ! i ! j * q ! k ! j))"
      by (simp add: sum_distrib_right mult.assoc)
    also have "\<dots> = (\<Sum>i<n. r ! i * (\<Sum>j<n. q ! i ! j * q ! k ! j))"
      by (subst sum.swap) (simp add: sum_distrib_left)
    also have "\<dots> = (\<Sum>i<n. if i = k then r ! i else 0)"
      using assms(1) k by (intro sum.cong) (auto simp: orthonormal_def)
    also have "\<dots> = r ! k" using k by simp
    finally show "times_t (times r q) q ! k = r ! k" .
  qed
qed

lemma times_power:
  assumes "orthonormal n q" and "length r = n"
  shows "power_of (times r q) = power_of r"
proof -
  have q: "length q = n" using assms(1) by (simp add: orthonormal_def)
  have "power_of (times r q) = (\<Sum>j<n. (times r q ! j) * (\<Sum>k<n. r ! k * q ! k ! j))"
    using times_back(2) [OF assms] q
    by (simp add: sum_list_sum_nth atLeast0LessThan power2_eq_square) (simp add: times_def)
  also have "\<dots> = (\<Sum>j<n. \<Sum>k<n. r ! k * (times r q ! j * q ! k ! j))"
    by (simp add: sum_distrib_left algebra_simps)
  also have "\<dots> = (\<Sum>k<n. r ! k * (\<Sum>j<n. times r q ! j * q ! k ! j))"
    by (subst sum.swap) (simp add: sum_distrib_left)
  also have "\<dots> = (\<Sum>k<n. r ! k * (times_t (times r q) q ! k))" using q by (simp add: times_t_def)
  also have "\<dots> = power_of r"
    unfolding times_back(1) [OF assms] using assms(2) by (simp add: sum_list_sum_nth atLeast0LessThan power2_eq_square)
  finally show ?thesis .
qed

lemma columns_blocks:
  assumes "length flat = r * cols" and "0 < cols"
  shows "cols dvd length flat" and "\<forall>b \<in> set (blocks_of cols flat). length b = cols"
  using assms blocks_of_dvd [of cols flat] by simp_all

lemma rotate_hadamard_inverse:
  assumes "shape \<noteq> []" and "0 < columns shape" and "length flat = hd shape * columns shape"
    and "hadamard_block_size (columns shape) = Inr bs"
  shows "\<exists>out. rotate_hadamard shape flat = Inr (out, 0) \<and> length out = length flat \<and> power_of out = power_of flat \<and>
    bind_err (rows_of shape out) (unrotate_hadamard (columns shape)) = Inr (blocks_of (columns shape) flat)"
proof -
  let ?c = "columns shape"
  obtain k where bs: "0 < bs" "bs dvd ?c" "bs = 2 ^ k" using hadamard_block_ok [OF assms(4,2)] by blast
  note cb = columns_blocks [OF assms(3,2)]
  have "\<exists>ys. mapM (block_fwht bs) (blocks_of ?c flat) = Inr ys \<and> mapM (block_fwht bs) ys = Inr (blocks_of ?c flat) \<and>
      list_all2 (\<lambda>x y. length y = length x \<and> power_of y = power_of x) (blocks_of ?c flat) ys"
  proof (rule mapM_roundtrip)
    fix b assume "b \<in> set (blocks_of ?c flat)"
    then have "bs dvd length b" using cb(2) bs(2) by simp
    then show "\<exists>y. block_fwht bs b = Inr y \<and> block_fwht bs y = Inr b \<and> length y = length b \<and> power_of y = power_of b"
      using block_fwht_involution [OF bs(3)] by metis
  qed
  then obtain ys where ys: "mapM (block_fwht bs) (blocks_of ?c flat) = Inr ys"
    "mapM (block_fwht bs) ys = Inr (blocks_of ?c flat)"
    "list_all2 (\<lambda>x y. length y = length x \<and> power_of y = power_of x) (blocks_of ?c flat) ys" by blast
  note same = same_blocks [OF ys(3) assms(2) cb(1)]
  have "list_all2 (\<lambda>x y. power_of y = power_of x) (blocks_of ?c flat) ys" using ys(3) by (rule list_all2_mono) simp
  then have "power_of (concat ys) = power_of flat" using assms(2) concat_power by fastforce
  moreover have "rotate_hadamard shape flat = Inr (concat ys, 0)"
    using assms ys(1) by (simp add: rotate_hadamard_def rows_of_def)
  moreover have "bind_err (rows_of shape (concat ys)) (unrotate_hadamard ?c) = Inr (blocks_of ?c flat)"
    using assms(1,2,4) ys(2) same(1) by (simp add: rows_of_def unrotate_hadamard_def)
  ultimately show ?thesis using same(2) by blast
qed

lemma rotate_orthogonal_inverse:
  assumes "shape \<noteq> []" and "0 < columns shape" and "length flat = hd shape * columns shape"
    and "orthonormal (columns shape) (qr e (columns shape) seed)" and "columns shape \<le> MAX_ORTHOGONAL"
    and "seed = tensor_rotation_seed e gs nm"
  shows "\<exists>out. rotate_orthogonal e nm gs shape flat = Inr (out, seed) \<and> length out = length flat \<and>
    power_of out = power_of flat \<and>
    bind_err (rows_of shape out) (unrotate_orthogonal e (columns shape) seed) = Inr (blocks_of (columns shape) flat)"
proof -
  let ?c = "columns shape" and ?q = "qr e (columns shape) seed"
  let ?ys = "map (\<lambda>r. times r ?q) (blocks_of (columns shape) flat)"
  note cb = columns_blocks [OF assms(3,2)]
  have rows: "list_all2 (\<lambda>x y. length y = length x \<and> power_of y = power_of x) (blocks_of ?c flat) ?ys"
    using cb(2) times_back(2) [OF assms(4)] times_power [OF assms(4)] by (auto simp: list_all2_conv_all_nth)
  note same = same_blocks [OF rows assms(2) cb(1)]
  have "list_all2 (\<lambda>x y. power_of y = power_of x) (blocks_of ?c flat) ?ys" using rows by (rule list_all2_mono) simp
  then have "power_of (concat ?ys) = power_of flat" using assms(2) concat_power by fastforce
  moreover have "rotate_orthogonal e nm gs shape flat = Inr (concat ?ys, seed)"
    using assms by (simp add: rotate_orthogonal_def rows_of_def Let_def)
  moreover have "map (\<lambda>r. times_t r ?q) ?ys = blocks_of ?c flat"
    using cb(2) times_back(1) [OF assms(4)] by (simp add: map_idI)
  then have "bind_err (rows_of shape (concat ?ys)) (unrotate_orthogonal e ?c seed) = Inr (blocks_of ?c flat)"
    using assms(1,2) same(1) by (simp add: rows_of_def unrotate_orthogonal_def)
  ultimately show ?thesis using same(2) by blast
qed

lemma unrotate_flat_eq:
  assumes "shape \<noteq> []" and "length out = hd shape * columns shape" and "map_of reg rotation = Some s"
  shows "unrotate_flat reg out shape rotation seed =
    bind_err (bind_err (rows_of shape out) (unrotate s (columns shape) seed)) (\<lambda>rows. Inr (concat rows))"
  using assms by (cases "rows_of shape out") (simp_all add: unrotate_flat_def)

lemma register_rotation_dispatch: "map_of (register_rotation nm s reg) x = (if x = nm then Some s else map_of reg x)"
  by (simp add: register_rotation_def)

lemma hadamard_block_size_iff:
  assumes "0 < cols"
  shows "(\<exists>bs. hadamard_block_size cols = Inr bs) \<longleftrightarrow> (\<exists>k. cols = 2 ^ k) \<or> 4 dvd cols"
proof -
  obtain k m where km: "cols = 2 ^ k * m" "odd m" using assms by (rule pow2_parts)
  have "largest_pow2_divisor cols < MIN_BLOCK \<longleftrightarrow> k < 2"
    using power_strict_increasing_iff [of "2 :: nat" k 2] largest_pow2_divisor_parts [OF km(2), of k] km(1)
    by (simp add: MIN_BLOCK_def)
  moreover have "4 dvd cols \<longleftrightarrow> 2 \<le> k"
  proof
    assume "4 dvd cols"
    show "2 \<le> k"
    proof (rule ccontr)
      assume "\<not> 2 \<le> k"
      then have "k = 0 \<or> k = 1" by auto
      with \<open>4 dvd cols\<close> km show False by (auto elim!: evenE oddE dvdE simp: mult.assoc) presburger+
    qed
  next
    assume "2 \<le> k"
    then have "(2 :: nat) ^ 2 dvd 2 ^ k" by (rule le_imp_power_dvd)
    then show "4 dvd cols" using km(1) by (simp add: dvd_mult2)
  qed
  ultimately show ?thesis
    using pow2_like_iff [OF assms] by (auto simp: hadamard_block_size_def Let_def)
qed

section \<open>Properties\<close>

text \<open>C18: every registered rotation is undone exactly by its inverse with the seed it stored, for a
  tensor of any rank: \<open>_unrotate_flat\<close> after \<open>_rotate_tensor_to_2d\<close> returns the flat values, and the
  rotated values have the same number and the same energy. The tensors that are refused are exactly
  these: for Hadamard, a width that is neither a power of two nor a multiple of 4; for the orthogonal
  rotation, a width above 16384. The columns are those of a tensor with as many values as its shape
  says, and the generated matrix is orthonormal.\<close>

theorem rotation_roundtrip:
  assumes "shape \<noteq> []" and "0 < columns shape" and "length flat = hd shape * columns shape"
    and "rotation \<in> {''hadamard'', ''orthogonal''}"
    and "orthonormal (columns shape) (qr e (columns shape) (tensor_rotation_seed e gs nm))"
  shows "case rotate_tensor_to_2d (ROTATION_REGISTRY e) nm rotation gs shape flat of
      Inr (out, Some seed) \<Rightarrow>
        (if rotation = ''hadamard'' then (\<exists>k. columns shape = 2 ^ k) \<or> 4 dvd columns shape else columns shape \<le> 16384) \<and>
        length out = length flat \<and> power_of out = power_of flat \<and>
        unrotate_flat (ROTATION_REGISTRY e) out shape rotation seed = Inr flat
    | Inr (out, None) \<Rightarrow> False
    | Inl err \<Rightarrow>
        (if rotation = ''hadamard''
         then (\<nexists>k. columns shape = 2 ^ k) \<and> \<not> 4 dvd columns shape \<and> err = NoPow2Divisor (columns shape)
         else 16384 < columns shape \<and> err = TooWide (columns shape))"
proof (cases "rotation = ''hadamard''")
  case True
  note usable = hadamard_block_size_iff [OF assms(2)]
  show ?thesis
  proof (cases "hadamard_block_size (columns shape)")
    case (Inl err)
    then have "err = NoPow2Divisor (columns shape)" by (auto simp: hadamard_block_size_def Let_def split: if_splits)
    then show ?thesis using assms(1,2) True Inl usable
      by (simp add: rotate_tensor_to_2d_def ROTATION_REGISTRY_def rotate_hadamard_def rows_of_def)
  next
    case (Inr bs)
    obtain out where out: "rotate_hadamard shape flat = Inr (out, 0)" "length out = length flat" "power_of out = power_of flat"
      "bind_err (rows_of shape out) (unrotate_hadamard (columns shape)) = Inr (blocks_of (columns shape) flat)"
      using rotate_hadamard_inverse [OF assms(1,2,3) Inr] by blast
    have "unrotate_flat (ROTATION_REGISTRY e) out shape rotation 0 = Inr flat"
      using unrotate_flat_eq [of shape out "ROTATION_REGISTRY e" rotation] assms(1,2,3) out True
      by (simp add: ROTATION_REGISTRY_def)
    then show ?thesis using out True usable Inr by (simp add: rotate_tensor_to_2d_def ROTATION_REGISTRY_def)
  qed
next
  case False
  then have rot: "rotation = ''orthogonal''" using assms(4) by simp
  let ?seed = "tensor_rotation_seed e gs nm"
  show ?thesis
  proof (cases "columns shape \<le> MAX_ORTHOGONAL")
    case False
    then show ?thesis using assms(1,2) rot
      by (simp add: rotate_tensor_to_2d_def ROTATION_REGISTRY_def rotate_orthogonal_def rows_of_def MAX_ORTHOGONAL_def Let_def)
  next
    case True
    obtain out where out: "rotate_orthogonal e nm gs shape flat = Inr (out, ?seed)" "length out = length flat"
      "power_of out = power_of flat"
      "bind_err (rows_of shape out) (unrotate_orthogonal e (columns shape) ?seed) = Inr (blocks_of (columns shape) flat)"
      using rotate_orthogonal_inverse [OF assms(1,2,3,5) True refl] by blast
    have "unrotate_flat (ROTATION_REGISTRY e) out shape rotation ?seed = Inr flat"
      using unrotate_flat_eq [of shape out "ROTATION_REGISTRY e" rotation] assms(1,2,3) out rot
      by (simp add: ROTATION_REGISTRY_def)
    then show ?thesis using out rot True
      by (simp add: rotate_tensor_to_2d_def ROTATION_REGISTRY_def MAX_ORTHOGONAL_def)
  qed
qed

theorem rotation_roundtrip_witness:
  "\<exists>out seed. rotate_tensor_to_2d (ROTATION_REGISTRY \<lparr>hash8 = (\<lambda>_. 5), qr = (\<lambda>n s. [[0, 1], [1, 0]])\<rparr>) ''w''
      ''orthogonal'' 3 [2, 2] [1, 2, 3, 4] = Inr (out, Some seed) \<and>
    unrotate_flat (ROTATION_REGISTRY \<lparr>hash8 = (\<lambda>_. 5), qr = (\<lambda>n s. [[0, 1], [1, 0]])\<rparr>) out [2, 2] ''orthogonal'' seed =
      Inr [1, 2, 3, 4]"
proof -
  let ?e = "\<lparr>hash8 = (\<lambda>_. 5), qr = (\<lambda>n s. [[0, 1], [1, 0]])\<rparr>"
  have cols: "columns [2, 2] = 2" by (simp add: columns_def)
  have q: "orthonormal 2 (qr ?e 2 s)" for s
    by (auto simp: orthonormal_def less_Suc_eq numeral_2_eq_2)
  have "rotate_tensor_to_2d (ROTATION_REGISTRY ?e) ''w'' ''orthogonal'' 3 [2, 2] [1, 2, 3, 4] \<noteq> Inl (TooWide 2)"
    by (simp add: rotate_tensor_to_2d_def ROTATION_REGISTRY_def rotate_orthogonal_def rows_of_def cols MAX_ORTHOGONAL_def Let_def)
  then show ?thesis
    using rotation_roundtrip [of "[2, 2]" "[1, 2, 3, 4]" "''orthogonal''" ?e 3 "''w''"] q
    by (auto simp: cols split: sum.splits option.splits prod.splits)
qed

end
