(* ===== verification/Decode.thy ===== *)
theory Decode
  imports Normalize Rotate Codebook_Store
begin

text \<open>
  \<open>orka/pipeline/decode.py\<close>: the decoder of one tensor, numpy and torch, from the files its manifest entry
  names: the sum of the stage codebook rows, the sparse overrides (outliers, pillars), the inverse rotation, the
  inverse normalization, the salient weights of SLRQ and the low-rank correction.

  The manifest entry is a record; an optional field is a key the dict may lack. Values are real numbers, so
  sums and products are exact. When positions repeat, the last value wins.
\<close>

datatype decode_error =
    FormatFail format_error | NormFail norm_error | RotateFail rotate_error | MissingKey string | BadIndex
  | BadAdd | CannotReshape | ZeroDivide

definition lift_err :: "('e \<Rightarrow> 'd) \<Rightarrow> 'e + 'a \<Rightarrow> 'd + 'a" where
  "lift_err f m = (case m of Inl e \<Rightarrow> Inl (f e) | Inr x \<Rightarrow> Inr x)"

lemma lift_err_simps [simp]: "lift_err f (Inl e) = Inl (f e)" "lift_err f (Inr x) = Inr x"
  by (simp_all add: lift_err_def)

lemma lift_err_Inr [simp]: "lift_err f m = Inr x \<longleftrightarrow> m = Inr x"
  by (cases m) simp_all

record stage_meta =
  sg_codebook :: string
  sg_indices :: string
  sg_index_bits :: nat
  sg_group_size :: "nat option"
  sg_codebook_dtype :: "string option"
  sg_packed :: "bool option"
  sg_encoding :: "string option"

record sparse_meta =
  sp_positions :: string
  sp_values :: string
  sp_count :: nat
  sp_positions_dtype :: "string option"
  sp_values_dtype :: "string option"

record salient_meta =
  sl_indices :: string
  sl_weights :: string
  sl_count :: nat
  sl_indices_bits :: nat
  sl_weights_dtype :: "string option"

record lowrank_meta =
  lr_a :: string
  lr_b :: string
  lr_rank :: nat
  lr_dtype :: "string option"

record tensor_meta =
  tm_shape :: "nat list"
  tm_group_size :: nat
  tm_padded_values :: nat
  tm_packed_values :: nat
  tm_stages :: "stage_meta list"
  tm_codebook :: "string option"
  tm_indices :: "string option"
  tm_index_bits :: "nat option"
  tm_outliers :: "sparse_meta option"
  tm_pillars :: "(string \<times> string) option"
  tm_rotation :: "string option"
  tm_rotation_seed :: "int option"
  tm_normalization :: "string option"
  tm_scales :: "string option"
  tm_scale_count :: "nat option"
  tm_scale_dtype :: "string option"
  tm_block_scale_size :: "nat option"
  tm_awq_col_scales :: "(string \<times> nat \<times> string option) option"
  tm_salient :: "salient_meta option"
  tm_lowrank :: "lowrank_meta option"

text \<open>What the decoder reads through: the float formats, the files, the registry of rotations.\<close>

record decode_env =
  dx_floats :: floats
  dx_env :: "real env"
  dx_rotations :: registry
  dx_files :: store

definition key :: "string \<Rightarrow> 'a option \<Rightarrow> decode_error + 'a" where
  "key k x = (case x of Some v \<Rightarrow> Inr v | None \<Rightarrow> Inl (MissingKey k))"

text \<open>\<open>d.get(k) or default\<close> for strings and integers: an empty or zero entry counts as missing.\<close>

definition or_str :: "string option \<Rightarrow> string \<Rightarrow> string" where
  "or_str x d = (case x of Some v \<Rightarrow> if v = [] then d else v | None \<Rightarrow> d)"

definition or_nat :: "nat option \<Rightarrow> nat \<Rightarrow> nat" where
  "or_nat x d = (case x of Some v \<Rightarrow> if v = 0 then d else v | None \<Rightarrow> d)"

definition get_or :: "'a option \<Rightarrow> 'a \<Rightarrow> 'a" where
  "get_or x d = (case x of Some v \<Rightarrow> v | None \<Rightarrow> d)"

section \<open>Stages\<close>

definition resolve_stages :: "tensor_meta \<Rightarrow> decode_error + stage_meta list" where
  "resolve_stages tm =
     (if tm_stages tm \<noteq> [] then Inr (tm_stages tm)
      else
        bind_err (key ''codebook'' (tm_codebook tm)) (\<lambda>cb.
        bind_err (key ''index_bits'' (tm_index_bits tm)) (\<lambda>bits.
        bind_err (key ''indices'' (tm_indices tm)) (\<lambda>ix.
          Inr [\<lparr>sg_codebook = cb, sg_indices = ix, sg_index_bits = bits, sg_group_size = None,
                sg_codebook_dtype = None, sg_packed = None, sg_encoding = None\<rparr>]))))"

definition read_stage_arrays ::
  "decode_env \<Rightarrow> stage_meta \<Rightarrow> nat \<Rightarrow> nat \<Rightarrow> decode_error + real list list \<times> int list" where
  "read_stage_arrays x st group_size padded_values =
     (let g = get_or (sg_group_size st) group_size
      in if g = 0 then Inl ZeroDivide
         else
           bind_err (lift_err FormatFail (read_codebook (dx_floats x) (sg_codebook st) g
                       (get_or (sg_codebook_dtype st) ''float32'') (dx_files x))) (\<lambda>cb.
           bind_err (lift_err FormatFail (read_indices (dx_env x) (sg_indices st) (sg_index_bits st)
                       (ceil_div padded_values g) (get_or (sg_packed st) False)
                       (get_or (sg_encoding st) ''raw'') (dx_files x))) (\<lambda>idxs.
             Inr (map (map of_rat) cb, idxs))))"

text \<open>\<open>decoded += v\<close>: equal lengths, or a single value for every position.\<close>

definition add_into :: "real list \<Rightarrow> real list \<Rightarrow> decode_error + real list" where
  "add_into acc v =
     (if length v = length acc then Inr (map2 (+) acc v)
      else if length v = 1 then Inr (map (\<lambda>a. a + hd v) acc)
      else Inl BadAdd)"

definition decode_stages :: "decode_env \<Rightarrow> tensor_meta \<Rightarrow> decode_error + real list" where
  "decode_stages x tm =
     (let g = tm_group_size tm
      in if g = 0 then Inl ZeroDivide
         else
           bind_err (resolve_stages tm) (\<lambda>stages.
             foldM (\<lambda>acc st.
                 bind_err (read_stage_arrays x st g (tm_padded_values tm)) (\<lambda>(cb, idxs).
                 bind_err (mapM (py_get BadIndex cb) idxs) (\<lambda>rows. add_into acc (concat rows))))
               (replicate (ceil_div (tm_padded_values tm) g * g) 0) stages))"

section \<open>Sparse overrides\<close>

text \<open>\<open>decoded[positions] = values\<close>; a bad position raises before anything is written.\<close>

fun put_values :: "real list \<Rightarrow> (int \<times> real) list \<Rightarrow> decode_error + real list" where
  "put_values d [] = Inr d"
| "put_values d ((p, v) # pvs) =
     (let k = (if p < 0 then int (length d) + p else p)
      in if k < 0 \<or> int (length d) \<le> k then Inl BadIndex else put_values (d[nat k := v]) pvs)"

definition to_int64 :: "nat \<Rightarrow> int" where
  "to_int64 p = (if p < 2 ^ 63 then int p else int p - 2 ^ 64)"

definition apply_outliers :: "decode_env \<Rightarrow> tensor_meta \<Rightarrow> real list \<Rightarrow> decode_error + real list" where
  "apply_outliers x tm d =
     (case tm_outliers tm of
        None \<Rightarrow> Inr d
      | Some o1 \<Rightarrow>
          bind_err (lift_err FormatFail (read_outliers (dx_env x) (sp_positions o1) (sp_values o1) (sp_count o1)
                      (get_or (sp_positions_dtype o1) ''uint32'') (get_or (sp_values_dtype o1) ''float32'') (dx_files x)))
            (\<lambda>(ps, vs). put_values d (zip (map to_int64 ps) vs)))"

definition apply_pillars :: "decode_env \<Rightarrow> tensor_meta \<Rightarrow> real list \<Rightarrow> decode_error + real list" where
  "apply_pillars x tm d =
     (case tm_pillars tm of
        None \<Rightarrow> Inr d
      | Some (pp, vp) \<Rightarrow>
          bind_err (lift_err FormatFail (read_pillars (dx_env x) pp vp (dx_files x))) (\<lambda>(ps, vs).
            if ps = [] then Inr d
            else if length ps = length vs then put_values d (zip (map to_int64 ps) vs)
            else if length vs = 1 then put_values d (map (\<lambda>p. (to_int64 p, hd vs)) ps)
            else Inl BadAdd))"

text \<open>The salient weight of block \<open>b\<close> goes to \<open>b * block_size + index\<close>, unless that lies in the padding.\<close>

definition reinject :: "nat \<Rightarrow> int list \<Rightarrow> real list \<Rightarrow> real list \<Rightarrow> decode_error + real list" where
  "reinject bs idxs vals d =
     (if length vals \<noteq> length idxs then Inl BadAdd
      else
        (let ps = map2 (\<lambda>b i. int (b * bs) + i) [0..<length idxs] idxs
         in put_values d (filter (\<lambda>(p, v). p < int (length d)) (zip ps vals))))"

definition apply_salient :: "decode_env \<Rightarrow> tensor_meta \<Rightarrow> real list \<Rightarrow> decode_error + real list" where
  "apply_salient x tm d =
     (case tm_salient tm of
        None \<Rightarrow> Inr d
      | Some s \<Rightarrow>
          bind_err (lift_err FormatFail (read_salient (dx_env x) (sl_indices s) (sl_weights s) (sl_count s)
                      (sl_indices_bits s) (get_or (sl_weights_dtype s) ''float32'') (dx_files x)))
            (\<lambda>(ix, vs). reinject (or_nat (tm_block_scale_size tm) 32) ix vs d))"
section \<open>Low-rank correction\<close>

text \<open>\<open>reshape(-1, rank)\<close>\<close>

definition read_lowrank :: "decode_env \<Rightarrow> lowrank_meta \<Rightarrow> decode_error + real list list \<times> real list list" where
  "read_lowrank x lr =
     bind_err (lift_err FormatFail (float_value_dtype (get_or (lr_dtype lr) ''float16''))) (\<lambda>dt.
     (let size = (if dt = ''<f2'' then 2 else 4); val = (if dt = ''<f2'' then of16 (dx_env x) else of32 (dx_env x))
      in bind_err (lift_err FormatFail (fromfile size (lr_a lr) (dx_files x))) (\<lambda>a.
         bind_err (lift_err FormatFail (fromfile size (lr_b lr) (dx_files x))) (\<lambda>b.
           if lr_rank lr = 0 \<or> length a mod lr_rank lr \<noteq> 0 \<or> length b mod lr_rank lr \<noteq> 0 then Inl CannotReshape
           else Inr (blocks_of (lr_rank lr) (map val a), blocks_of (lr_rank lr) (map val b))))))"

definition row_dot :: "real list \<Rightarrow> real list \<Rightarrow> real" where
  "row_dot r s = (\<Sum>(u, v)\<leftarrow>zip r s. u * v)"

text \<open>numpy's broadcasting of two extents, and the index it reads.\<close>

definition bcast :: "nat \<Rightarrow> nat \<Rightarrow> decode_error + nat" where
  "bcast m n = (if m = n then Inr m else if m = 1 then Inr n else if n = 1 then Inr m else Inl BadAdd)"

definition at_bcast :: "'a list \<Rightarrow> nat \<Rightarrow> 'a" where
  "at_bcast xs i = xs ! (if length xs = 1 then 0 else i)"

text \<open>\<open>(mat + a @ b.T).reshape(-1)\<close> for \<open>mat\<close> of \<open>rows\<close> rows and \<open>cols\<close> columns.\<close>

definition add_product ::
  "nat \<Rightarrow> nat \<Rightarrow> real list \<Rightarrow> real list list \<Rightarrow> real list list \<Rightarrow> decode_error + real list" where
  "add_product rows cols flat a b =
     bind_err (bcast rows (length a)) (\<lambda>m. bind_err (bcast cols (length b)) (\<lambda>n.
       Inr (concat (map (\<lambda>i. map (\<lambda>j. at_bcast (at_bcast (map (\<lambda>r. take cols (drop (r * cols) flat)) [0..<rows]) i) j +
              row_dot (at_bcast a i) (at_bcast b j)) [0..<n]) [0..<m]))))"

definition apply_lowrank_numpy :: "decode_env \<Rightarrow> nat list \<Rightarrow> lowrank_meta \<Rightarrow> real list \<Rightarrow> decode_error + real list" where
  "apply_lowrank_numpy x shape lr d =
     (if shape = [] then Inl CannotReshape
      else
        bind_err (read_lowrank x lr) (\<lambda>(a, b).
          if length d < hd shape * cols_of shape then Inl CannotReshape
          else add_product (hd shape) (cols_of shape) (take (hd shape * cols_of shape) d) a b))"

section \<open>The decoders\<close>

definition read_scales :: "decode_env \<Rightarrow> tensor_meta \<Rightarrow> decode_error + real list" where
  "read_scales x tm =
     bind_err (key ''scales'' (tm_scales tm)) (\<lambda>p.
     bind_err (key ''scale_count'' (tm_scale_count tm)) (\<lambda>n.
       lift_err FormatFail (read_float_vector (dx_env x) p n (or_str (tm_scale_dtype tm) ''float32'') (dx_files x))))"

definition read_awq_cols :: "decode_env \<Rightarrow> string \<times> nat \<times> string option \<Rightarrow> decode_error + real list" where
  "read_awq_cols x am =
     (case am of (p, n, dt) \<Rightarrow>
        lift_err FormatFail (read_float_vector (dx_env x) p n (or_str dt ''float32'') (dx_files x)))"

definition unrotate_numpy :: "decode_env \<Rightarrow> tensor_meta \<Rightarrow> real list \<Rightarrow> decode_error + real list" where
  "unrotate_numpy x tm d =
     (let rotation = get_or (tm_rotation tm) ''none''
      in if rotation = ''orthogonal'' \<or> rotation = ''hadamard''
         then lift_err RotateFail
           (unrotate_flat (dx_rotations x) d (tm_shape tm) rotation (get_or (tm_rotation_seed tm) 0))
         else Inr d)"

definition denormalize_numpy :: "decode_env \<Rightarrow> tensor_meta \<Rightarrow> real list \<Rightarrow> decode_error + real list" where
  "denormalize_numpy x tm d =
     (let norm = get_or (tm_normalization tm) ''none''; bs = or_nat (tm_block_scale_size tm) 32
      in if norm = ''awq'' then
           bind_err (read_scales x tm) (\<lambda>s. lift_err NormFail (apply_col_scales d (tm_shape tm) s ''numpy''))
         else if norm = ''block-max'' \<or> norm = ''channel-block-max'' \<or> norm = ''slrq-block'' then
           bind_err (read_scales x tm) (\<lambda>s. lift_err NormFail (apply_block_scales d s bs ''numpy''))
         else if norm = ''awq-block-max'' then
           bind_err (read_scales x tm) (\<lambda>s.
           bind_err (lift_err NormFail (apply_block_scales d s bs ''numpy'')) (\<lambda>d'.
             case tm_awq_col_scales tm of
               None \<Rightarrow> Inr d'
             | Some am \<Rightarrow>
                 bind_err (read_awq_cols x am) (\<lambda>cs.
                   lift_err NormFail (apply_col_scales d' (tm_shape tm) cs ''numpy''))))
         else Inr d)"

definition decode_tensor :: "decode_env \<Rightarrow> tensor_meta \<Rightarrow> decode_error + real list" where
  "decode_tensor x tm =
     bind_err (decode_stages x tm) (\<lambda>full.
     bind_err (apply_outliers x tm (take (tm_packed_values tm) full)) (\<lambda>d1.
     bind_err (apply_pillars x tm d1) (\<lambda>d2.
     bind_err (unrotate_numpy x tm d2) (\<lambda>d3.
     bind_err (denormalize_numpy x tm d3) (\<lambda>d4.
     bind_err (apply_salient x tm d4) (\<lambda>d5.
       case tm_lowrank tm of None \<Rightarrow> Inr d5 | Some lr \<Rightarrow> apply_lowrank_numpy x (tm_shape tm) lr d5))))))"

text \<open>
  The torch decoder: any registered rotation, the block-scale test of the shared table, scale dtype checked even
  when there are no scales, and a final reshape to the tensor's shape.
\<close>

definition unrotate_torch :: "decode_env \<Rightarrow> tensor_meta \<Rightarrow> real list \<Rightarrow> decode_error + real list" where
  "unrotate_torch x tm d =
     (case map_of (dx_rotations x) (get_or (tm_rotation tm) ''none'') of
        None \<Rightarrow> Inr d
      | Some strategy \<Rightarrow>
          (let shape = tm_shape tm
           in if shape = [] then Inl (RotateFail NoDimension)
              else if length d < hd shape * columns shape then Inl (RotateFail ShortTensor)
              else
                lift_err RotateFail
                  (bind_err (rows_of shape (take (hd shape * columns shape) d)) (\<lambda>rows.
                   bind_err (unrotate strategy (columns shape) (get_or (tm_rotation_seed tm) 0) rows)
                     (\<lambda>out. Inr (concat out))))))"

definition denormalize_torch :: "decode_env \<Rightarrow> tensor_meta \<Rightarrow> real list \<Rightarrow> decode_error + real list" where
  "denormalize_torch x tm d =
     (let norm = get_or (tm_normalization tm) ''none''; bs = or_nat (tm_block_scale_size tm) 32
      in bind_err (lift_err FormatFail (float_value_dtype (or_str (tm_scale_dtype tm) ''float32''))) (\<lambda>_.
         if stores_block_scales norm then
           bind_err (read_scales x tm) (\<lambda>s.
           bind_err (lift_err NormFail (apply_block_scales d s bs ''torch'')) (\<lambda>d'.
             if norm = ''awq-block-max'' then
               (case tm_awq_col_scales tm of
                  None \<Rightarrow> Inr d'
                | Some am \<Rightarrow>
                    bind_err (read_awq_cols x am) (\<lambda>cs.
                      lift_err NormFail (apply_col_scales d' (tm_shape tm) cs ''torch'')))
             else Inr d'))
         else if norm = ''awq'' then
           bind_err (read_scales x tm) (\<lambda>s. lift_err NormFail (apply_col_scales d (tm_shape tm) s ''torch''))
         else Inr d))"

definition lowrank_torch :: "decode_env \<Rightarrow> nat list \<Rightarrow> lowrank_meta \<Rightarrow> real list \<Rightarrow> decode_error + real list" where
  "lowrank_torch x shape lr d =
     bind_err (read_lowrank x lr) (\<lambda>(a, b).
       if shape = [] then Inl CannotReshape
       else if hd shape = 0 then Inl ZeroDivide
       else (let cols = length d div hd shape in add_product (hd shape) cols (take (hd shape * cols) d) a b))"

definition decode_tensor_torch :: "decode_env \<Rightarrow> tensor_meta \<Rightarrow> decode_error + tensor" where
  "decode_tensor_torch x tm =
     bind_err (decode_stages x tm) (\<lambda>full.
     bind_err (apply_outliers x tm (take (tm_packed_values tm) full)) (\<lambda>d1.
     bind_err (apply_pillars x tm d1) (\<lambda>d2.
     bind_err (unrotate_torch x tm d2) (\<lambda>d3.
     bind_err (denormalize_torch x tm d3) (\<lambda>d4.
     bind_err (apply_salient x tm d4) (\<lambda>d5.
     bind_err (case tm_lowrank tm of None \<Rightarrow> Inr d5 | Some lr \<Rightarrow> lowrank_torch x (tm_shape tm) lr d5) (\<lambda>d6.
       if length d6 = prod_list (tm_shape tm) then Inr (tm_shape tm, d6) else Inl CannotReshape)))))))"

section \<open>The decoders agree\<close>

lemma columns_cols_of: "columns shape = cols_of shape"
proof -
  have "foldl (*) a xs = fold (\<lambda>s c. c * s) xs a" for a :: nat and xs by (induction xs arbitrary: a) simp_all
  then show ?thesis by (simp add: columns_def cols_of_def)
qed

lemma cols_of_prod: "shape \<noteq> [] \<Longrightarrow> hd shape * cols_of shape = prod_list shape"
proof -
  have "fold (\<lambda>s c. c * s) xs a = a * prod_list xs" for a :: nat and xs by (induction xs arbitrary: a) simp_all
  then show "shape \<noteq> [] \<Longrightarrow> ?thesis" by (cases shape) (simp_all add: cols_of_def)
qed

lemma block_scales_torch: "apply_block_scales d s bs ''numpy'' = Inr r \<Longrightarrow> apply_block_scales d s bs ''torch'' = Inr r"
  by (auto simp: apply_block_scales_def block_max_scales_numpy_def Let_def split: if_splits)

lemma col_scales_torch: "apply_col_scales d shape s ''numpy'' = Inr r \<Longrightarrow> apply_col_scales d shape s ''torch'' = Inr r"
  by (auto simp: apply_col_scales_def col_l2_scales_numpy_def Let_def split: if_splits)

section \<open>Lengths\<close>

lemma put_values_length: "put_values d pvs = Inr d' \<Longrightarrow> length d' = length d"
  by (induction d pvs rule: put_values.induct) (auto simp: Let_def split: if_splits)

lemma sparse_lengths:
  "apply_outliers x tm d = Inr d' \<Longrightarrow> length d' = length d"
  "apply_pillars x tm d = Inr d' \<Longrightarrow> length d' = length d"
  "apply_salient x tm d = Inr d' \<Longrightarrow> length d' = length d"
  by (auto simp: apply_outliers_def apply_pillars_def apply_salient_def reinject_def bind_err_eq_Inr Let_def
      dest!: put_values_length split: option.splits if_splits)

lemma block_fwht_length: "block_fwht bs v = Inr y \<Longrightarrow> length y = length v"
proof -
  assume y: "block_fwht bs v = Inr y"
  then have bs: "0 < bs" "bs dvd length v" "pow2_like bs" by (auto simp: block_fwht_def Let_def split: if_splits)
  obtain k m where km: "bs = 2 ^ k * m" "odd m" using pow2_parts [OF bs(1)] by blast
  then have "bs = 2 ^ k" using bs(3) pow2_like_parts by simp
  then show ?thesis using block_fwht_involution [OF _ bs(2)] y by fastforce
qed

lemma unrotate_length:
  assumes "\<And>n s. length (qr re n s) = n" and "(rotation, strategy) \<in> set (ROTATION_REGISTRY re)"
    and "unrotate strategy cols seed rows = Inr out" and "\<forall>r \<in> set rows. length r = cols"
  shows "length (concat out) = length (concat rows)"
proof (rule concat_same_lengths)
  consider "unrotate strategy = (\<lambda>cols seed. unrotate_hadamard cols)" | "unrotate strategy = unrotate_orthogonal re"
    using assms(2) by (auto simp: ROTATION_REGISTRY_def)
  then show "list_all2 (\<lambda>x y. length y = length x) rows out"
  proof cases
    case 1
    then obtain bs where "mapM (block_fwht bs) rows = Inr out"
      using assms(3) by (auto simp: unrotate_hadamard_def bind_err_eq_Inr)
    then show ?thesis
      using mapM_nth [of "block_fwht bs" rows out] length_mapM [of "block_fwht bs" rows out] block_fwht_length
      by (auto simp: list_all2_conv_all_nth)
  next
    case 2
    then have "out = map (\<lambda>r. times_t r (qr re cols seed)) rows" using assms(3) by (simp add: unrotate_orthogonal_def)
    then show ?thesis using assms(1,4) by (auto simp: list_all2_conv_all_nth times_t_def)
  qed
qed

lemma unrotate_flat_length:
  assumes "\<And>n s. length (qr re n s) = n" and "unrotate_flat (ROTATION_REGISTRY re) d shape rotation seed = Inr r"
  shows "length r = hd shape * columns shape"
proof -
  let ?d = "take (hd shape * columns shape) d"
  let ?s = "case map_of (ROTATION_REGISTRY re) rotation of Some s \<Rightarrow> s | None \<Rightarrow> the (map_of (ROTATION_REGISTRY re) ''orthogonal'')"
  have ok: "shape \<noteq> []" "hd shape * columns shape \<le> length d" "0 < columns shape"
    and out: "bind_err (unrotate ?s (columns shape) seed (blocks_of (columns shape) ?d)) (\<lambda>out. Inr (concat out)) = Inr r"
    using assms(2) by (auto simp: unrotate_flat_def rows_of_def split: if_splits)
  obtain out where out: "unrotate ?s (columns shape) seed (blocks_of (columns shape) ?d) = Inr out" "r = concat out"
    using out by (auto simp: bind_err_eq_Inr)
  have len: "length ?d = hd shape * columns shape" using ok(2) by simp
  have "(''orthogonal'', the (map_of (ROTATION_REGISTRY re) ''orthogonal'')) \<in> set (ROTATION_REGISTRY re)"
    by (simp add: ROTATION_REGISTRY_def)
  then have "\<exists>nm. (nm, ?s) \<in> set (ROTATION_REGISTRY re)"
    by (cases "map_of (ROTATION_REGISTRY re) rotation") (auto dest: map_of_SomeD)
  then show ?thesis
    using unrotate_length [OF assms(1) _ out(1)] columns_blocks [OF len ok(3)] out(2) ok(3) len
    by (auto simp: concat_blocks_of [OF ok(3)])
qed

lemma block_scales_length: "apply_block_scales d s bs ''numpy'' = Inr r \<Longrightarrow> length r = length d"
proof -
  assume r: "apply_block_scales d s bs ''numpy'' = Inr r"
  let ?Bs = "blocks_of bs (padded bs d)"
  have bs: "0 < bs" "length s = length ?Bs" "r = take (length d) (concat (per_block (*) ?Bs s))"
    using r by (auto simp: apply_block_scales_def block_max_scales_numpy_def Let_def per_block_def split: if_splits)
  then have "length (concat (per_block (*) ?Bs s)) = length (padded bs d)" by (simp add: concat_per_block)
  then show ?thesis using bs(3) length_padded_flat [OF bs(1), of d] by simp
qed

lemma col_scales_length: "apply_col_scales d shape s ''numpy'' = Inr r \<Longrightarrow> length r \<le> hd shape * cols_of shape"
proof -
  assume r: "apply_col_scales d shape s ''numpy'' = Inr r"
  let ?c = "cols_of shape"
  have parts: "length s = ?c" "r = concat (map (\<lambda>row. map2 (\<lambda>v s. v * s) row s) (blocks_of ?c (take (hd shape * ?c) d)))"
    using r by (auto simp: apply_col_scales_def col_l2_scales_numpy_def Let_def split: if_splits)
  have "length (concat (map (\<lambda>row. map2 (\<lambda>v s. v * s) row s) rs)) \<le> length (concat rs)" for rs
    by (induction rs) auto
  moreover have "length (concat (blocks_of ?c (take (hd shape * ?c) d))) \<le> hd shape * ?c"
    by (cases "?c = 0") (simp_all add: blocks_of.simps [of 0])
  ultimately show ?thesis unfolding parts(2) by (meson le_trans)
qed

section \<open>The torch decoder refines the numpy one\<close>

lemma unrotate_torch_numpy:
  assumes "dx_rotations x = ROTATION_REGISTRY re" and "unrotate_numpy x tm d = Inr r"
  shows "unrotate_torch x tm d = Inr r"
proof (cases "get_or (tm_rotation tm) ''none'' = ''orthogonal'' \<or> get_or (tm_rotation tm) ''none'' = ''hadamard''")
  case True
  then obtain s where "map_of (ROTATION_REGISTRY re) (get_or (tm_rotation tm) ''none'') = Some s"
    by (auto simp: ROTATION_REGISTRY_def)
  then show ?thesis using assms True by (simp add: unrotate_numpy_def unrotate_torch_def unrotate_flat_def Let_def split: if_splits)
next
  case False
  then have "map_of (ROTATION_REGISTRY re) (get_or (tm_rotation tm) ''none'') = None" by (simp add: ROTATION_REGISTRY_def)
  then show ?thesis using assms False by (simp add: unrotate_numpy_def unrotate_torch_def)
qed

lemma unrotate_numpy_length:
  assumes "dx_rotations x = ROTATION_REGISTRY re" and "\<And>n s. length (qr re n s) = n"
    and "unrotate_numpy x tm d = Inr r" and "length d \<le> prod_list (tm_shape tm)"
  shows "length r \<le> prod_list (tm_shape tm)"
proof (cases "get_or (tm_rotation tm) ''none'' = ''orthogonal'' \<or> get_or (tm_rotation tm) ''none'' = ''hadamard''")
  case True
  then have u: "unrotate_flat (ROTATION_REGISTRY re) d (tm_shape tm) (get_or (tm_rotation tm) ''none'') (get_or (tm_rotation_seed tm) 0) = Inr r"
    using assms(1,3) by (simp add: unrotate_numpy_def)
  then have "tm_shape tm \<noteq> []" by (auto simp: unrotate_flat_def)
  then show ?thesis using unrotate_flat_length [OF assms(2) u] cols_of_prod by (simp add: columns_cols_of)
next
  case False
  then show ?thesis using assms(3,4) by (simp add: unrotate_numpy_def)
qed

lemma col_scales_bound: "apply_col_scales d shape s ''numpy'' = Inr r \<Longrightarrow> length r \<le> prod_list shape"
proof -
  assume r: "apply_col_scales d shape s ''numpy'' = Inr r"
  then have "shape \<noteq> []" by (auto simp: apply_col_scales_def col_l2_scales_numpy_def)
  then show ?thesis using col_scales_length [OF r] by (simp add: cols_of_prod)
qed

lemma norm_modes_cases:
  obtains "mode = ''awq''" | "mode = ''block-max'' \<or> mode = ''channel-block-max'' \<or> mode = ''slrq-block''"
  | "mode = ''awq-block-max''"
  | "\<not> stores_block_scales mode" "mode \<noteq> ''awq''" "\<not> (mode = ''block-max'' \<or> mode = ''channel-block-max'' \<or> mode = ''slrq-block'')"
    "mode \<noteq> ''awq-block-max''"
  unfolding stores_block_scales_def BLOCK_SCALE_NORMALIZATIONS_def insert_iff empty_iff by satx

lemma denormalize_torch_numpy:
  assumes "denormalize_numpy x tm d = Inr r"
    and "float_value_dtype (or_str (tm_scale_dtype tm) ''float32'') = Inr dt" and "length d \<le> prod_list (tm_shape tm)"
  shows "denormalize_torch x tm d = Inr r" and "length r \<le> prod_list (tm_shape tm)"
proof -
  let ?norm = "get_or (tm_normalization tm) ''none''"
  note defs = denormalize_numpy_def denormalize_torch_def Let_def stores_block_scales_def BLOCK_SCALE_NORMALIZATIONS_def
  have "denormalize_torch x tm d = Inr r \<and> length r \<le> prod_list (tm_shape tm)"
  proof (rule norm_modes_cases [of ?norm])
    assume norm: "?norm = ''awq''"
    then obtain s where "read_scales x tm = Inr s" "apply_col_scales d (tm_shape tm) s ''numpy'' = Inr r"
      using assms(1) by (auto simp: denormalize_numpy_def Let_def bind_err_eq_Inr)
    then show ?thesis using norm assms(2) col_scales_torch col_scales_bound by (simp add: defs)
  next
    assume norm: "?norm = ''block-max'' \<or> ?norm = ''channel-block-max'' \<or> ?norm = ''slrq-block''"
    then obtain s where "read_scales x tm = Inr s" "apply_block_scales d s (or_nat (tm_block_scale_size tm) 32) ''numpy'' = Inr r"
      using assms(1) by (auto simp: denormalize_numpy_def Let_def bind_err_eq_Inr)
    moreover from this have "length r = length d" by (simp add: block_scales_length)
    ultimately show ?thesis using norm assms(2,3) block_scales_torch by (auto simp: defs)
  next
    assume norm: "?norm = ''awq-block-max''"
    then obtain s d' where s: "read_scales x tm = Inr s" "apply_block_scales d s (or_nat (tm_block_scale_size tm) 32) ''numpy'' = Inr d'"
      "(case tm_awq_col_scales tm of None \<Rightarrow> Inr d' | Some am \<Rightarrow>
          bind_err (read_awq_cols x am) (\<lambda>cs. lift_err NormFail (apply_col_scales d' (tm_shape tm) cs ''numpy''))) = Inr r"
      using assms(1) by (auto simp: denormalize_numpy_def Let_def bind_err_eq_Inr)
    have "length d' = length d" using s(2) by (rule block_scales_length)
    then show ?thesis
      using norm assms(2,3) s(1,3) block_scales_torch [OF s(2)] col_scales_torch col_scales_bound
      by (cases "tm_awq_col_scales tm") (auto simp: defs bind_err_eq_Inr)
  next
    assume "\<not> stores_block_scales ?norm" "?norm \<noteq> ''awq''"
      "\<not> (?norm = ''block-max'' \<or> ?norm = ''channel-block-max'' \<or> ?norm = ''slrq-block'')" "?norm \<noteq> ''awq-block-max''"
    then show ?thesis using assms unfolding denormalize_numpy_def denormalize_torch_def Let_def by simp
  qed
  then show "denormalize_torch x tm d = Inr r" "length r \<le> prod_list (tm_shape tm)" by simp_all
qed

lemma lowrank_torch_numpy:
  assumes "apply_lowrank_numpy x shape lr d = Inr r" and "length d \<le> prod_list shape" and "0 < prod_list shape"
  shows "lowrank_torch x shape lr d = Inr r"
proof -
  obtain a b where ab: "shape \<noteq> []" "read_lowrank x lr = Inr (a, b)" "hd shape * cols_of shape \<le> length d"
    "add_product (hd shape) (cols_of shape) (take (hd shape * cols_of shape) d) a b = Inr r"
    using assms(1) by (auto simp: apply_lowrank_numpy_def bind_err_eq_Inr split: if_splits)
  have len: "length d = hd shape * cols_of shape" using ab(1,3) assms(2) cols_of_prod [of shape] by simp
  have "0 < hd shape" using ab(1) assms(3) cols_of_prod [of shape] by (cases "hd shape") simp_all
  then show ?thesis using ab len by (simp add: lowrank_torch_def)
qed

text \<open>C22: On the repository's rotations (with square orthogonal factors) the torch decoder returns the values of the
  numpy decoder: when the manifest entry packs no more values than its non-empty shape holds and its scale dtype is
  known, and the numpy decoder returns a full tensor, the torch decoder returns that tensor with its shape.\<close>

theorem decode_tensor_torch_agrees:
  assumes "dx_rotations x = ROTATION_REGISTRY re" and "\<And>n s. length (qr re n s) = n"
    and "tm_packed_values tm \<le> prod_list (tm_shape tm)" and "0 < prod_list (tm_shape tm)"
    and "float_value_dtype (or_str (tm_scale_dtype tm) ''float32'') = Inr dt"
    and "decode_tensor x tm = Inr d" and "length d = prod_list (tm_shape tm)"
  shows "decode_tensor_torch x tm = Inr (tm_shape tm, d)"
proof -
  obtain full d1 d2 d3 d4 d5 where steps: "decode_stages x tm = Inr full"
    "apply_outliers x tm (take (tm_packed_values tm) full) = Inr d1" "apply_pillars x tm d1 = Inr d2"
    "unrotate_numpy x tm d2 = Inr d3" "denormalize_numpy x tm d3 = Inr d4" "apply_salient x tm d4 = Inr d5"
    and last: "(case tm_lowrank tm of None \<Rightarrow> Inr d5 | Some lr \<Rightarrow> apply_lowrank_numpy x (tm_shape tm) lr d5) = Inr d"
    using assms(6) unfolding decode_tensor_def bind_err_eq_Inr by blast
  have "length d2 \<le> prod_list (tm_shape tm)"
    using sparse_lengths(1) [OF steps(2)] sparse_lengths(2) [OF steps(3)] assms(3) by simp
  then have d3: "length d3 \<le> prod_list (tm_shape tm)" by (rule unrotate_numpy_length [OF assms(1,2) steps(4)])
  note d4 = denormalize_torch_numpy [OF steps(5) assms(5) d3]
  have "length d5 \<le> prod_list (tm_shape tm)" using sparse_lengths(3) [OF steps(6)] d4(2) by simp
  then have "(case tm_lowrank tm of None \<Rightarrow> Inr d5 | Some lr \<Rightarrow> lowrank_torch x (tm_shape tm) lr d5) = Inr d"
    using last lowrank_torch_numpy [OF _ _ assms(4)] by (auto split: option.splits)
  then show ?thesis
    using steps(1-3,6) unrotate_torch_numpy [OF assms(1) steps(4)] d4(1) assms(7) by (simp add: decode_tensor_torch_def)
qed

section \<open>SLRQ round trip\<close>

lemma put_values_nth:
  assumes "\<forall>(p, v) \<in> set pvs. 0 \<le> p \<and> p < int (length d)" and "distinct (map fst pvs)"
  shows "\<exists>d'. put_values d pvs = Inr d' \<and> length d' = length d \<and>
    (\<forall>i < length d. d' ! i = (case map_of pvs (int i) of Some v \<Rightarrow> v | None \<Rightarrow> d ! i))"
  using assms
proof (induction d pvs rule: put_values.induct)
  case (2 d p v pvs)
  let ?d = "d[nat p := v]"
  have p: "0 \<le> p" "p < int (length d)" "\<not> p < 0" using "2.prems"(1) by auto
  then have step: "put_values d ((p, v) # pvs) = put_values ?d pvs" by (simp add: Let_def)
  have "\<exists>d'. put_values ?d pvs = Inr d' \<and> length d' = length ?d \<and>
      (\<forall>i < length ?d. d' ! i = (case map_of pvs (int i) of Some v \<Rightarrow> v | None \<Rightarrow> ?d ! i))"
    using "2.IH" [OF refl] "2.prems" p(1,2) unfolding if_not_P [OF p(3)] by simp
  then obtain d' where d': "put_values ?d pvs = Inr d'" "length d' = length ?d"
    "\<forall>i < length ?d. d' ! i = (case map_of pvs (int i) of Some v \<Rightarrow> v | None \<Rightarrow> ?d ! i)" by blast
  have "map_of pvs p = None" using "2.prems"(2) by (simp add: map_of_eq_None_iff)
  then have "d' ! i = (case map_of ((p, v) # pvs) (int i) of Some v \<Rightarrow> v | None \<Rightarrow> d ! i)" if "i < length d" for i
    using d'(3) that p by (cases "int i = p") (auto simp: nth_list_update split: option.splits)
  then show ?case using d' step by auto
qed simp

lemma concat_nth_blocks:
  "\<forall>b \<in> set Bs. length b = k \<Longrightarrow> i < k * length Bs \<Longrightarrow> concat Bs ! i = Bs ! (i div k) ! (i mod k)"
proof (induction Bs arbitrary: i)
  case (Cons b Bs)
  show ?case
  proof (cases "i < k")
    case True
    then show ?thesis using Cons.prems(1) by (simp add: nth_append)
  next
    case False
    have k: "0 < k" using Cons.prems(2) by (cases k) simp_all
    then have "i div k = Suc ((i - k) div k)" "i mod k = (i - k) mod k"
      using False by (simp_all add: le_div_geq le_mod_geq)
    then show ?thesis using False Cons.IH [of "i - k"] Cons.prems by (simp add: nth_append)
  qed
qed simp

lemma block_index_eq:
  assumes "r < (k :: nat)"
  shows "i = b * k + r \<longleftrightarrow> b = i div k \<and> r = i mod k"
  using assms by auto

lemma reinject_nth:
  assumes "length vals = length idxs" and "\<And>b. b < length idxs \<Longrightarrow> idxs ! b < bs" and "length d \<le> bs * length idxs"
  shows "\<exists>out. reinject bs (map int idxs) vals d = Inr out \<and> length out = length d \<and>
    (\<forall>i < length d. out ! i = (if i mod bs = idxs ! (i div bs) then vals ! (i div bs) else d ! i))"
proof -
  let ?ps = "map2 (\<lambda>b i. int (b * bs) + i) [0..<length (map int idxs)] (map int idxs)"
  let ?pvs = "filter (\<lambda>(p, v). p < int (length d)) (zip ?ps vals)"
  have ps: "?ps = map (\<lambda>b. int (b * bs + idxs ! b)) [0..<length idxs]"
    by (rule nth_equalityI) simp_all
  have inj: "inj_on (\<lambda>b. int (b * bs + idxs ! b)) (set [0..<length idxs])"
    using block_index_eq assms(2) by (intro inj_onI) (metis (no_types, lifting) atLeastLessThan_iff of_nat_eq_iff set_upt)
  then have "distinct ?ps" unfolding ps distinct_map by simp
  moreover have "map fst (zip ?ps vals) = ?ps" using assms(1) by simp
  ultimately have dist: "distinct (map fst ?pvs)" by (metis distinct_map_filter)
  have "0 \<le> p \<and> p < int (length d)" if "(p, v) \<in> set ?pvs" for p v
    using that by (auto simp: ps set_zip)
  then obtain out where out: "put_values d ?pvs = Inr out" "length out = length d"
    "\<forall>i < length d. out ! i = (case map_of ?pvs (int i) of Some v \<Rightarrow> v | None \<Rightarrow> d ! i)"
    using put_values_nth [of ?pvs d] dist by blast
  have "map_of ?pvs (int i) = (if i mod bs = idxs ! (i div bs) then Some (vals ! (i div bs)) else None)" if i: "i < length d" for i
  proof -
    have bs: "0 < bs" "i div bs < length idxs" using i assms(3) by (cases bs; simp add: less_mult_imp_div_less mult.commute)+
    have mem: "(int i, v) \<in> set ?pvs \<longleftrightarrow> i mod bs = idxs ! (i div bs) \<and> v = vals ! (i div bs)" for v
    proof
      assume "(int i, v) \<in> set ?pvs"
      then obtain b where "b < length idxs" "int i = int (b * bs + idxs ! b)" "v = vals ! b"
        by (auto simp: ps set_zip)
      then show "i mod bs = idxs ! (i div bs) \<and> v = vals ! (i div bs)"
        using block_index_eq [OF assms(2)] by (metis of_nat_eq_iff)
    next
      assume eq: "i mod bs = idxs ! (i div bs) \<and> v = vals ! (i div bs)"
      then have "i = i div bs * bs + idxs ! (i div bs)" by (metis div_mult_mod_eq)
      then have "int i = int (i div bs) * int bs + int (idxs ! (i div bs))" by (metis of_nat_add of_nat_mult)
      then show "(int i, v) \<in> set ?pvs"
        using eq bs i assms(1) unfolding ps by (auto simp: set_zip intro!: exI [of _ "i div bs"])
    qed
    show ?thesis
    proof (cases "i mod bs = idxs ! (i div bs)")
      case True
      then show ?thesis using mem dist by (simp add: map_of_eq_Some_iff)
    next
      case False
      then have "\<forall>v. (int i, v) \<notin> set ?pvs" using mem by blast
      then show ?thesis using False by (auto simp: map_of_eq_None_iff)
    qed
  qed
  then show ?thesis using out assms(1) by (auto simp: reinject_def Let_def)
qed


text \<open>C23: SLRQ normalization is undone up to the fp16 rounding of the salient weights: the normalized entries
  lie in [-1, 1]; multiplying the block scales back and writing the stored salient weights at their positions gives
  the source at every other position, and at the salient position of each block the stored weight, which is the
  source entry or its fp16 rounding.\<close>

theorem slrq_roundtrip:
  assumes "scale_laws e" and "0 < bs"
  shows "\<exists>r z out ws js. apply_normalization NORMALIZATION_REGISTRY e (shape, flat) name ''slrq-block'' awq alpha bs backend True = Inr r \<and>
     nr_salient_weights r = Some ws \<and> nr_salient_indices r = Some js \<and>
     list_all (\<lambda>v. \<bar>v\<bar> \<le> 1) (snd (nr_tensor r)) \<and>
     apply_block_scales (snd (nr_tensor r)) (the (nr_row_scales r)) bs backend' = Inr z \<and>
     reinject bs (map int js) ws z = Inr out \<and> length out = length flat \<and>
     (\<forall>i < length flat. if i mod bs = js ! (i div bs)
        then out ! i = ws ! (i div bs) \<and> (out ! i = flat ! i \<or> out ! i = round16 e (flat ! i)) else out ! i = flat ! i)"
proof -
  let ?Bs = "blocks_of bs (padded bs flat)"
  define f where "f = (if backend = ''torch'' then torch_argmax e else argmax)"
  let ?Zs = "without_salient f ?Bs" and ?js = "salient_positions f ?Bs"
  let ?ws = "storage16 e (map2 (!) ?Bs ?js)"
  let ?t = "take (length flat) (divide_blocks ?Zs (slrq_scales ?Zs))"
  have f: "f xs < length xs" if "xs \<noteq> []" for xs using that by (simp add: f_def argmax_less torch_argmax_less)
  note res = slrq_result [OF assms, where flat = flat and f = f]
  define r where "r = \<lparr>nr_tensor = (shape, ?t), nr_row_scales = Some (slrq_scales ?Zs), nr_source = Some flat,
    nr_col_scales = None, nr_salient_weights = Some ?ws, nr_salient_indices = Some ?js\<rparr>"
  have norm: "apply_normalization NORMALIZATION_REGISTRY e (shape, flat) name ''slrq-block'' awq alpha bs backend True = Inr r"
    using res(1) [of shape] unfolding f_def
    by (cases "backend = ''torch''") (simp_all add: r_def f_def apply_normalization_def NORMALIZATION_REGISTRY_def Let_def
        normalize_slrq_block_def slrq_with_numpy slrq_with_torch)
  let ?z = "take (length flat) (concat ?Zs)"
  have c: "cuts bs (length flat) ?Bs" by (rule cuts_padded [OF assms(2)])
  have cz: "cuts bs (length flat) ?Zs"
    unfolding without_salient_def by (rule cuts_zeroed [OF c]) (simp add: salient_positions_def)
  have lb: "\<forall>b \<in> set ?Bs. length b = bs" and lz: "\<forall>b \<in> set ?Zs. length b = bs"
    using c cz unfolding cuts_def by blast+
  have n: "length flat \<le> bs * length ?Bs"
    using c length_concat_blocks [OF lb] unfolding cuts_def by linarith
  have lens: "length ?js = length ?Bs" "length ?Zs = length ?Bs" "length ?ws = length ?Bs"
    by (simp_all add: salient_positions_def without_salient_def)
  have jless: "?js ! b < bs" if "b < length ?js" for b
  proof -
    have "length (?Bs ! b) = bs" using that lb lens(1) by simp
    then have "map abs (?Bs ! b) \<noteq> []" using assms(2) by auto
    then show ?thesis using f [of "map abs (?Bs ! b)"] that lens(1) \<open>length (?Bs ! b) = bs\<close>
      by (simp add: salient_positions_def)
  qed
  have lenz: "length ?z = length flat" using cz unfolding cuts_def by simp
  have zs: "length ?z \<le> bs * length ?js" using n lens(1) lenz by simp
  have wj: "length ?ws = length ?js" using lens by simp
  obtain out where out: "reinject bs (map int ?js) ?ws ?z = Inr out" "length out = length flat"
    "\<forall>i < length flat. out ! i = (if i mod bs = ?js ! (i div bs) then ?ws ! (i div bs) else ?z ! i)"
    using reinject_nth [OF wj jless zs] lenz by auto
  have point: "if i mod bs = ?js ! (i div bs)
      then out ! i = ?ws ! (i div bs) \<and> (out ! i = flat ! i \<or> out ! i = round16 e (flat ! i)) else out ! i = flat ! i"
    if i: "i < length flat" for i
  proof -
    have b: "i div bs < length ?Bs" using i n by (simp add: less_mult_imp_div_less mult.commute)
    have flat: "flat ! i = ?Bs ! (i div bs) ! (i mod bs)"
      using concat_nth_blocks [OF lb, of i] i n assms(2) by (simp add: nth_append padded_def)
    have zi: "?z ! i = (if i mod bs = ?js ! (i div bs) then 0 else flat ! i)"
    proof -
      have "?z ! i = ?Zs ! (i div bs) ! (i mod bs)"
        using concat_nth_blocks [OF lz, of i] i n lens(2) by simp
      moreover have "?Zs ! (i div bs) = (?Bs ! (i div bs))[?js ! (i div bs) := 0]"
        using b lens(1) by (simp add: without_salient_def)
      moreover have "i mod bs < length (?Bs ! (i div bs))" using b lb assms(2) by simp
      ultimately show ?thesis using flat by (simp add: nth_list_update)
    qed
    show ?thesis
    proof (cases "i mod bs = ?js ! (i div bs)")
      case True
      have w: "map2 (!) ?Bs ?js ! (i div bs) = flat ! i" using b lens(1) flat True by simp
      have "?ws ! (i div bs) = flat ! i \<or> ?ws ! (i div bs) = round16 e (flat ! i)"
        by (rule storage16_cases [of e "map2 (!) ?Bs ?js"]) (use w b lens(1) in simp_all)
      then show ?thesis using out(3) i True by simp
    next
      case False
      then show ?thesis using out(3) i zi by simp
    qed
  qed
  then have points: "\<forall>i < length flat. if i mod bs = ?js ! (i div bs)
      then out ! i = ?ws ! (i div bs) \<and> (out ! i = flat ! i \<or> out ! i = round16 e (flat ! i)) else out ! i = flat ! i"
    by blast
  have bound: "list_all (\<lambda>v. \<bar>v\<bar> \<le> 1) ?t" using res(3) by (auto simp: list_all_iff dest: in_set_takeD)
  have unscaled: "apply_block_scales ?t (slrq_scales ?Zs) bs backend' = Inr ?z" by (rule res(2))
  show ?thesis
    by (rule exI [of _ r], rule exI [of _ ?z], rule exI [of _ out], rule exI [of _ ?ws], rule exI [of _ ?js])
      (use norm bound unscaled out(1,2) points in \<open>simp only: r_def norm_result.simps snd_conv option.sel simp_thms\<close>)
qed


theorem slrq_roundtrip_witness:
  "\<exists>r z out ws js. apply_normalization NORMALIZATION_REGISTRY grid_env ([3], [1, 5, 2]) ''w'' ''slrq-block'' None 1 2 ''numpy'' True = Inr r \<and>
     apply_block_scales (snd (nr_tensor r)) (the (nr_row_scales r)) 2 ''torch'' = Inr z \<and>
     reinject 2 (map int js) ws z = Inr out \<and> out ! 0 = 1 \<and> js ! 0 = 1"
proof -
  have "0 < (2 :: nat)" by simp
  from slrq_roundtrip [OF grid_laws this, of "[3]" "[1, 5, 2]" "''w''" None 1 "''numpy''" "''torch''"]
  obtain r z out ws js where r:
    "apply_normalization NORMALIZATION_REGISTRY grid_env ([3], [1, 5, 2]) ''w'' ''slrq-block'' None 1 2 ''numpy'' True = Inr r"
    "nr_salient_indices r = Some js" "apply_block_scales (snd (nr_tensor r)) (the (nr_row_scales r)) 2 ''torch'' = Inr z"
    "reinject 2 (map int js) ws z = Inr out"
    "\<forall>i < length [1, 5, 2 :: real]. if i mod 2 = js ! (i div 2)
        then out ! i = ws ! (i div 2) \<and> (out ! i = [1, 5, 2] ! i \<or> out ! i = round16 grid_env ([1, 5, 2] ! i)) else out ! i = [1, 5, 2] ! i"
    by blast
  have "padded 2 [1, 5, 2] = [1, 5, 2, 0]" by (simp add: padded_def)
  moreover have "blocks_of 2 [1, 5, 2, 0 :: real] = [[1, 5], [2, 0]]"
    using blocks_of_concat [of "[[1, 5], [2, 0 :: real]]" 2] by simp
  ultimately have "js = [1, 0]"
    using r(1,2) by (auto simp: apply_normalization_def NORMALIZATION_REGISTRY_def Let_def normalize_slrq_block_def
        slrq_block_numpy_def)
  then have "out ! 0 = 1" "js ! 0 = 1" using r(5) [rule_format, of 0] by simp_all
  then show ?thesis using r(1,3,4) by blast
qed

definition example_env :: decode_env where
  "example_env = \<lparr>
     dx_floats = \<lparr>r16 = id, r32 = id, bits16 = (\<lambda>_. 0), val16 = of_nat, bits32 = (\<lambda>_. 0), val32 = of_nat\<rparr>,
     dx_env = grid_env, dx_rotations = ROTATION_REGISTRY \<lparr>hash8 = (\<lambda>_. 0), qr = (\<lambda>n s. replicate n (replicate n 0))\<rparr>,
     dx_files = [''cb'' \<mapsto> array_bytes 4 [1, 2, 3, 4], ''ix'' \<mapsto> [1]]\<rparr>"

definition example_meta :: tensor_meta where
  "example_meta = \<lparr>tm_shape = [2], tm_group_size = 2, tm_padded_values = 2, tm_packed_values = 2, tm_stages = [],
     tm_codebook = Some ''cb'', tm_indices = Some ''ix'', tm_index_bits = Some 8, tm_outliers = None, tm_pillars = None,
     tm_rotation = None, tm_rotation_seed = None, tm_normalization = None, tm_scales = None, tm_scale_count = None,
     tm_scale_dtype = None, tm_block_scale_size = None, tm_awq_col_scales = None, tm_salient = None, tm_lowrank = None\<rparr>"

lemma example_files:
  shows "read_codebook (dx_floats example_env) ''cb'' 2 ''float32'' (dx_files example_env) = Inr [[1, 2], [3, 4]]"
    and "read_indices grid_env ''ix'' 8 1 False ''raw'' (dx_files example_env) = Inr [1]"
proof -
  have digits: "digit_val CHR ''4'' = 4" "digit_val CHR ''1'' = 1" by (simp_all add: digit_val_def)
  have cb: "array_of_bytes 4 (array_bytes 4 [1, 2, 3, 4]) = [1, 2, 3, 4]" by (rule array_roundtrip) simp_all
  have rows: "blocks_of 2 [1, 2, 3, 4 :: rat] = [[1, 2], [3, 4]]"
    using blocks_of_concat [of "[[1, 2], [3, 4 :: rat]]" 2] by simp
  have ix: "array_of_bytes 1 [1] = [1]" using blocks_of_concat [of "[[1 :: byte]]" 1] by (simp add: array_of_bytes_def)
  show "read_codebook (dx_floats example_env) ''cb'' 2 ''float32'' (dx_files example_env) = Inr [[1, 2], [3, 4]]"
    using cb rows by (simp add: read_codebook_def example_env_def float_value_dtype_def FLOAT_VALUE_DTYPES_def itemsize_def
        digits reshape_rows_def del: array_bytes_Cons)
  show "read_indices grid_env ''ix'' 8 1 False ''raw'' (dx_files example_env) = Inr [1]"
    using ix by (simp add: read_indices_def example_env_def array_dec_def index_bit_spec_def frombuffer_dt_def itemsize_def digits)
qed

lemma example_stages: "decode_stages example_env example_meta = Inr [3, 4]"
proof -
  have "read_stage_arrays example_env (hd [\<lparr>sg_codebook = ''cb'', sg_indices = ''ix'', sg_index_bits = 8, sg_group_size = None,
      sg_codebook_dtype = None, sg_packed = None, sg_encoding = None\<rparr>]) 2 2 = Inr ([[1, 2], [3, 4]], [1])"
    using example_files by (simp add: read_stage_arrays_def get_or_def ceil_div_def) (simp add: example_env_def)
  moreover have "replicate 2 0 = [0, 0 :: real]" by (simp add: numeral_2_eq_2)
  ultimately show ?thesis
    by (simp add: decode_stages_def resolve_stages_def example_meta_def key_def ceil_div_def add_into_def)
qed

lemma example_decode: "decode_tensor example_env example_meta = Inr [3, 4]"
  unfolding decode_tensor_def example_stages bind_err_simps
  by (simp add: example_meta_def apply_outliers_def apply_pillars_def unrotate_numpy_def denormalize_numpy_def
      apply_salient_def get_or_def)

theorem decode_tensor_torch_agrees_witness: "decode_tensor_torch example_env example_meta = Inr ([2], [3, 4])"
  using decode_tensor_torch_agrees [of example_env "\<lparr>hash8 = (\<lambda>_. 0), qr = (\<lambda>n s. replicate n (replicate n 0))\<rparr>" example_meta
      "''<f4''" "[3, 4]"] example_decode
  by (simp add: example_env_def example_meta_def or_str_def float_value_dtype_def FLOAT_VALUE_DTYPES_def)

end
