(* ===== verification/Pack_Threads.thy ===== *)
theory Pack_Threads
  imports Transitions
begin

text \<open>
  The threads of a streamed pack (\<open>orka/pipeline/pack.py\<close>, \<open>orka/pipeline/pack_pipeline.py\<close>,
  \<open>orka/_runtime/io.py\<close>): the producer with its byte budget (\<open>PrefetchBudget\<close>), the bounded prefetch queue,
  the packing thread, the background writer (\<open>BackgroundWriter\<close>) and the ordered finalizer
  (\<open>_FinalizeWorker\<close>) that waits for a tensor's writes before it appends the manifest entry.

  Each thread is a function that gives its next state, or nothing while it is blocked; a step of the system is a step of one
  thread. A job is a tensor: its name, the bytes it reserves, its deferred writes, and whether its finalization
  returns. Preparing, packing and writing themselves are atomic here, and the release of a tensor's bytes and
  the append of its entry, done by one thread one after the other, are one step.
\<close>

record job =
  jb_name :: string
  jb_bytes :: nat
  jb_writes :: nat
  jb_ok :: bool

datatype task = Write string nat | Barrier string

record pipe =
  todo :: "job list"
  prepping :: "job option"
  outstanding :: nat
  ready :: "job list"
  packing :: "(job \<times> nat) option"
  write_queue :: "task list"
  executed :: "task list"
  final_queue :: "job list"
  finalizing :: "job option"
  entries :: "string list"
  failures :: "string list"

definition PREFETCH_QUEUE_DEPTH :: nat where "PREFETCH_QUEUE_DEPTH = 4"
definition WRITER_QUEUE_MAX :: nat where "WRITER_QUEUE_MAX = 128"
definition FINALIZE_QUEUE_MAX :: nat where "FINALIZE_QUEUE_MAX = 1"

section \<open>The budget\<close>

text \<open>\<open>reserve\<close> waits (no result) while something is outstanding and the sum would exceed the budget.\<close>

definition reserve :: "nat \<Rightarrow> nat \<Rightarrow> nat \<Rightarrow> nat option" where
  "reserve budget out nbytes = (if out > 0 \<and> out + nbytes > budget then None else Some (out + nbytes))"

definition release :: "nat \<Rightarrow> nat \<Rightarrow> nat" where
  "release out nbytes = nat (max 0 (int out - int nbytes))"

section \<open>The threads\<close>

definition producer :: "nat option \<Rightarrow> pipe \<Rightarrow> pipe option" where
  "producer budget s =
     (case prepping s of
        Some j \<Rightarrow>
          if length (ready s) < PREFETCH_QUEUE_DEPTH then Some (s\<lparr>prepping := None, ready := ready s @ [j]\<rparr>) else None
      | None \<Rightarrow>
          (case todo s of
             [] \<Rightarrow> None
           | j # js \<Rightarrow>
               (case budget of
                  None \<Rightarrow> Some (s\<lparr>todo := js, prepping := Some j\<rparr>)
                | Some b \<Rightarrow>
                    (case reserve b (outstanding s) (jb_bytes j) of
                       None \<Rightarrow> None
                     | Some out \<Rightarrow> Some (s\<lparr>todo := js, prepping := Some j, outstanding := out\<rparr>)))))"

text \<open>
  The packing thread takes a tensor, queues its writes and then its barrier, and hands the tensor to the
  finalizer; every put blocks while its queue is full.
\<close>

definition task_no :: "job \<Rightarrow> nat \<Rightarrow> task" where
  "task_no j k = (if k < jb_writes j then Write (jb_name j) k else Barrier (jb_name j))"

definition packer :: "pipe \<Rightarrow> pipe option" where
  "packer s =
     (case packing s of
        None \<Rightarrow> (case ready s of [] \<Rightarrow> None | j # js \<Rightarrow> Some (s\<lparr>ready := js, packing := Some (j, 0)\<rparr>))
      | Some (j, k) \<Rightarrow>
          if k \<le> jb_writes j then
            (if length (write_queue s) < WRITER_QUEUE_MAX
             then Some (s\<lparr>packing := Some (j, Suc k), write_queue := write_queue s @ [task_no j k]\<rparr>) else None)
          else
            (if length (final_queue s) < FINALIZE_QUEUE_MAX
             then Some (s\<lparr>packing := None, final_queue := final_queue s @ [j]\<rparr>) else None))"

definition writer :: "pipe \<Rightarrow> pipe option" where
  "writer s =
     (case write_queue s of
        [] \<Rightarrow> None
      | t # ts \<Rightarrow> Some (s\<lparr>write_queue := ts, executed := executed s @ [t]\<rparr>))"

text \<open>A failing finalization is recorded; the bytes are released only at its end.\<close>

definition finalizer :: "nat option \<Rightarrow> pipe \<Rightarrow> pipe option" where
  "finalizer budget s =
     (case finalizing s of
        None \<Rightarrow> (case final_queue s of [] \<Rightarrow> None | j # js \<Rightarrow> Some (s\<lparr>final_queue := js, finalizing := Some j\<rparr>))
      | Some j \<Rightarrow>
          if Barrier (jb_name j) \<notin> set (executed s) then None
          else if jb_ok j then
            Some (s\<lparr>finalizing := None, entries := entries s @ [jb_name j],
                    outstanding := (case budget of None \<Rightarrow> outstanding s | Some _ \<Rightarrow> release (outstanding s) (jb_bytes j))\<rparr>)
          else Some (s\<lparr>finalizing := None, failures := failures s @ [jb_name j]\<rparr>))"

inductive pipe_step :: "nat option \<Rightarrow> pipe \<Rightarrow> pipe \<Rightarrow> bool" for budget where
  producer: "producer budget s = Some s' \<Longrightarrow> pipe_step budget s s'"
| packer: "packer s = Some s' \<Longrightarrow> pipe_step budget s s'"
| writer: "writer s = Some s' \<Longrightarrow> pipe_step budget s s'"
| finalizer: "finalizer budget s = Some s' \<Longrightarrow> pipe_step budget s s'"

inductive_cases pipe_step_cases: "pipe_step budget s s'"
inductive_simps pipe_step_iff: "pipe_step budget s s'"

definition start :: "job list \<Rightarrow> pipe" where
  "start jobs = \<lparr>todo = jobs, prepping = None, outstanding = 0, ready = [], packing = None, write_queue = [],
     executed = [], final_queue = [], finalizing = None, entries = [], failures = []\<rparr>"

section \<open>Every run ends\<close>

definition opt_list :: "'a option \<Rightarrow> 'a list" where
  "opt_list x = (case x of None \<Rightarrow> [] | Some a \<Rightarrow> [a])"

lemma opt_list_simps [simp]: "opt_list None = []" "opt_list (Some a) = [a]"
  by (simp_all add: opt_list_def)

text \<open>The steps a run has left: what each tensor still has to go through, and the queued tasks.\<close>

definition steps_left :: "pipe \<Rightarrow> nat" where
  "steps_left s =
     sum_list (map (\<lambda>j. 2 * jb_writes j + 8) (todo s)) + sum_list (map (\<lambda>j. 2 * jb_writes j + 7) (opt_list (prepping s))) +
     sum_list (map (\<lambda>j. 2 * jb_writes j + 6) (ready s)) +
     sum_list (map (\<lambda>(j, k). 2 * (Suc (jb_writes j) - k) + 3) (opt_list (packing s))) +
     length (write_queue s) + 2 * length (final_queue s) + length (opt_list (finalizing s))"

lemma step_decreases: "pipe_step budget s s' \<Longrightarrow> steps_left s' < steps_left s"
  by (erule pipe_step_cases)
    (auto simp: producer_def packer_def writer_def finalizer_def steps_left_def split: option.splits list.splits if_splits prod.splits)

lemma runs_end: "wfp (\<lambda>s' s. pipe_step budget s s')"
  by (rule wfp_if_convertible_to_nat [of _ steps_left]) (rule step_decreases)
section \<open>The invariant\<close>

definition tasks_of :: "job \<Rightarrow> task list" where
  "tasks_of j = map (task_no j) [0..<Suc (jb_writes j)]"

definition holders :: "pipe \<Rightarrow> job list" where
  "holders s = opt_list (finalizing s) @ final_queue s @ map fst (opt_list (packing s)) @ ready s @ opt_list (prepping s)"

definition failed :: "job list \<Rightarrow> job list" where
  "failed fin = filter (\<lambda>j. \<not> jb_ok j) fin"

text \<open>\<open>fin\<close> are the tensors whose finalization ended, in order.\<close>

definition order_inv :: "job list \<Rightarrow> job list \<Rightarrow> pipe \<Rightarrow> bool" where
  "order_inv jobs fin s \<longleftrightarrow> jobs = fin @ holders s @ todo s \<and> entries s = map jb_name (filter jb_ok fin) \<and>
     failures s = map jb_name (failed fin)"

definition bytes_held :: "job list \<Rightarrow> nat" where
  "bytes_held js = sum_list (map jb_bytes js)"

definition budget_inv :: "nat option \<Rightarrow> job list \<Rightarrow> pipe \<Rightarrow> bool" where
  "budget_inv budget fin s \<longleftrightarrow>
     (case budget of
        None \<Rightarrow> outstanding s = 0
      | Some b \<Rightarrow> outstanding s = bytes_held (failed fin @ holders s) \<and>
          (outstanding s \<le> b \<or> (\<exists>j \<in> set (failed fin @ holders s). outstanding s = jb_bytes j)))"

definition submitted :: "job list \<Rightarrow> pipe \<Rightarrow> task list" where
  "submitted fin s = concat (map tasks_of (fin @ opt_list (finalizing s) @ final_queue s)) @
     (case packing s of None \<Rightarrow> [] | Some (j, k) \<Rightarrow> take k (tasks_of j))"

definition task_inv :: "job list \<Rightarrow> pipe \<Rightarrow> bool" where
  "task_inv fin s \<longleftrightarrow> executed s @ write_queue s = submitted fin s \<and> prefix (concat (map tasks_of fin)) (executed s) \<and>
     (case packing s of None \<Rightarrow> True | Some (j, k) \<Rightarrow> k \<le> Suc (jb_writes j))"

definition pipe_inv :: "job list \<Rightarrow> nat option \<Rightarrow> pipe \<Rightarrow> bool" where
  "pipe_inv jobs budget s \<longleftrightarrow> (\<exists>fin. order_inv jobs fin s \<and> budget_inv budget fin s \<and> task_inv fin s)"

lemma bytes_held_simps [simp]:
  "bytes_held [] = 0" "bytes_held (j # js) = jb_bytes j + bytes_held js" "bytes_held (xs @ ys) = bytes_held xs + bytes_held ys"
  by (simp_all add: bytes_held_def)

lemma bytes_held_ge: "j \<in> set js \<Longrightarrow> jb_bytes j \<le> bytes_held js"
  by (induction js) auto

lemma release_diff: "release out n = out - n"
  by (auto simp: release_def)

lemma budget_inv_moved:
  "budget_inv budget fin s \<Longrightarrow> failed fin' @ holders s' = failed fin @ holders s \<Longrightarrow> outstanding s' = outstanding s \<Longrightarrow>
    budget_inv budget fin' s'"
  by (simp only: budget_inv_def cong: option.case_cong)

lemma budget_inv_cong:
  "budget_inv budget fin s \<Longrightarrow> holders s' = holders s \<Longrightarrow> outstanding s' = outstanding s \<Longrightarrow> budget_inv budget fin s'"
  by (erule budget_inv_moved) simp_all

lemma budget_inv_reserve:
  assumes "budget_inv (Some b) fin s" and "reserve b (outstanding s) (jb_bytes j) = Some out"
    and "outstanding s' = out" and "holders s' = holders s @ [j]"
  shows "budget_inv (Some b) fin s'"
  using assms by (auto simp: budget_inv_def reserve_def split: if_splits)

lemma producer_inv:
  assumes "producer budget s = Some s'" and "order_inv jobs fin s" and "budget_inv budget fin s" and "task_inv fin s"
  shows "order_inv jobs fin s' \<and> budget_inv budget fin s' \<and> task_inv fin s'"
proof (cases "prepping s")
  case (Some j)
  then have s': "s' = s\<lparr>prepping := None, ready := ready s @ [j]\<rparr>"
    using assms(1) by (simp add: producer_def split: if_splits)
  have "holders s' = holders s" using Some by (simp add: s' holders_def)
  then show ?thesis using assms(2,4) budget_inv_cong [OF assms(3)]
    by (simp add: s' order_inv_def task_inv_def submitted_def)
next
  case None
  then obtain j js out where s': "todo s = j # js" "s' = s\<lparr>todo := js, prepping := Some j, outstanding := out\<rparr>"
    and out: "case budget of None \<Rightarrow> out = outstanding s | Some b \<Rightarrow> reserve b (outstanding s) (jb_bytes j) = Some out"
    using assms(1) by (auto simp: producer_def split: option.splits list.splits)
  have hold: "holders s' = holders s @ [j]" using None by (simp add: s' holders_def)
  have "budget_inv budget fin s'"
  proof (cases budget)
    case None
    then show ?thesis using assms(3) out by (simp add: budget_inv_def s')
  next
    case (Some b)
    then show ?thesis using budget_inv_reserve [OF _ _ _ hold] assms(3) out by (simp add: s')
  qed
  then show ?thesis using assms(2,4) hold by (simp add: order_inv_def task_inv_def submitted_def s')
qed

lemma take_tasks: "k \<le> jb_writes j \<Longrightarrow> take (Suc k) (tasks_of j) = take k (tasks_of j) @ [task_no j k]"
  unfolding tasks_of_def take_map by (subst (1 2) take_upt) simp_all

lemma take_all_tasks: "Suc (jb_writes j) \<le> k \<Longrightarrow> take k (tasks_of j) = tasks_of j"
  by (simp add: tasks_of_def)

lemma packer_inv:
  assumes "packer s = Some s'" and "order_inv jobs fin s" and "budget_inv budget fin s" and "task_inv fin s"
  shows "order_inv jobs fin s' \<and> budget_inv budget fin s' \<and> task_inv fin s'"
proof (cases "packing s")
  case None
  then show ?thesis using assms
    by (auto simp: packer_def order_inv_def budget_inv_def task_inv_def submitted_def holders_def
        split: option.splits list.splits)
next
  case (Some jk)
  obtain j k where jk: "jk = (j, k)" by (cases jk)
  show ?thesis
  proof (cases "k \<le> jb_writes j")
    case True
    then have s': "s' = s\<lparr>packing := Some (j, Suc k), write_queue := write_queue s @ [task_no j k]\<rparr>"
      using assms(1) Some jk by (simp add: packer_def split: if_splits)
    have "executed s @ write_queue s = concat (map tasks_of (fin @ opt_list (finalizing s) @ final_queue s)) @ take k (tasks_of j)"
      using assms(4) Some jk by (simp add: task_inv_def submitted_def)
    then have "executed s @ write_queue s @ [task_no j k] =
        concat (map tasks_of (fin @ opt_list (finalizing s) @ final_queue s)) @ take (Suc k) (tasks_of j)"
      using take_tasks [OF True] by (metis append_assoc)
    moreover have "holders s' = holders s" using Some jk by (simp add: s' holders_def)
    ultimately show ?thesis using assms(2,4) Some jk True budget_inv_cong [OF assms(3)]
      by (simp add: s' order_inv_def task_inv_def submitted_def)
  next
    case False
    then have s': "s' = s\<lparr>packing := None, final_queue := final_queue s @ [j]\<rparr>"
      using assms(1) Some jk by (simp add: packer_def split: if_splits)
    have "take k (tasks_of j) = tasks_of j" using False by (intro take_all_tasks) simp
    moreover have "holders s' = holders s" using Some jk by (simp add: s' holders_def)
    ultimately show ?thesis using assms(2,4) Some jk budget_inv_cong [OF assms(3)]
      by (simp add: s' order_inv_def task_inv_def submitted_def)
  qed
qed

lemma writer_inv:
  assumes "writer s = Some s'" and "order_inv jobs fin s" and "budget_inv budget fin s" and "task_inv fin s"
  shows "order_inv jobs fin s' \<and> budget_inv budget fin s' \<and> task_inv fin s'"
proof -
  obtain t ts where s': "write_queue s = t # ts" "s' = s\<lparr>write_queue := ts, executed := executed s @ [t]\<rparr>"
    using assms(1) by (auto simp: writer_def split: list.splits)
  have "holders s' = holders s" by (simp add: s' holders_def)
  then show ?thesis using assms(2,4) budget_inv_cong [OF assms(3)]
    by (simp add: s' order_inv_def task_inv_def submitted_def)
qed

lemma barrier_reached:
  assumes "xs @ ys = A @ b # R" and "b \<notin> set A" and "b \<in> set xs"
  shows "prefix (A @ [b]) xs"
proof -
  have "length A < length xs"
  proof (rule ccontr)
    assume "\<not> length A < length xs"
    then have "xs = take (length xs) A" using arg_cong [OF assms(1), of "take (length xs)"] by simp
    then show False using assms(2,3) by (metis in_set_takeD)
  qed
  then have "take (length (A @ [b])) xs = take (length (A @ [b])) (xs @ ys)" by simp
  also have "\<dots> = A @ [b]" unfolding assms(1) by simp
  finally show ?thesis by (metis take_is_prefix)
qed

lemma tasks_split: "tasks_of j = map (Write (jb_name j)) [0..<jb_writes j] @ [Barrier (jb_name j)]"
  by (simp add: tasks_of_def task_no_def)

lemma barrier_in_tasks: "Barrier n \<in> set (concat (map tasks_of js)) \<longleftrightarrow> n \<in> set (map jb_name js)"
  by (auto simp: tasks_split)

lemma finalizer_inv:
  assumes "finalizer budget s = Some s'" and "order_inv jobs fin s" and "budget_inv budget fin s" and "task_inv fin s"
    and "distinct (map jb_name jobs)"
  shows "\<exists>fin'. order_inv jobs fin' s' \<and> budget_inv budget fin' s' \<and> task_inv fin' s'"
proof (cases "finalizing s")
  case None
  then obtain j js where s': "final_queue s = j # js" "s' = s\<lparr>final_queue := js, finalizing := Some j\<rparr>"
    using assms(1) by (auto simp: finalizer_def split: list.splits)
  have "holders s' = holders s" using None by (simp add: s' holders_def)
  then have "order_inv jobs fin s' \<and> budget_inv budget fin s' \<and> task_inv fin s'"
    using assms(2,4) budget_inv_cong [OF assms(3)] None by (simp add: s' order_inv_def task_inv_def submitted_def)
  then show ?thesis by blast
next
  case (Some j)
  then have bar: "Barrier (jb_name j) \<in> set (executed s)"
    using assms(1) by (simp add: finalizer_def split: if_splits)
  have hold: "holders s = j # holders (s\<lparr>finalizing := None\<rparr>)" using Some by (simp add: holders_def)
  let ?A = "concat (map tasks_of fin) @ map (Write (jb_name j)) [0..<jb_writes j]"
  have "executed s @ write_queue s = ?A @ Barrier (jb_name j) # concat (map tasks_of (final_queue s)) @
      (case packing s of None \<Rightarrow> [] | Some (j, k) \<Rightarrow> take k (tasks_of j))"
    using assms(4) Some by (simp add: task_inv_def submitted_def tasks_split)
  moreover have "jb_name j \<notin> set (map jb_name fin)" using assms(2,5) hold by (auto simp: order_inv_def)
  then have "Barrier (jb_name j) \<notin> set ?A" using barrier_in_tasks [of "jb_name j" fin] by auto
  ultimately have "prefix (?A @ [Barrier (jb_name j)]) (executed s)" using bar by (rule barrier_reached)
  then have pre: "prefix (concat (map tasks_of (fin @ [j]))) (executed s)" by (simp add: tasks_split)
  show ?thesis
  proof (cases "jb_ok j")
    case True
    then have s': "s' = s\<lparr>finalizing := None, entries := entries s @ [jb_name j],
        outstanding := (case budget of None \<Rightarrow> outstanding s | Some _ \<Rightarrow> release (outstanding s) (jb_bytes j))\<rparr>"
      using assms(1) Some bar by (simp add: finalizer_def)
    have hold': "holders s' = holders (s\<lparr>finalizing := None\<rparr>)" by (simp add: s' holders_def)
    have "budget_inv budget (fin @ [j]) s'"
    proof (cases budget)
      case None
      then show ?thesis using assms(3) by (simp add: budget_inv_def s')
    next
      case b: (Some b)
      let ?rest = "failed fin @ holders s'"
      have out: "outstanding s = jb_bytes j + bytes_held ?rest" "outstanding s' = bytes_held ?rest"
        using assms(3) b True hold hold' by (simp_all add: budget_inv_def s' release_diff)
      consider "outstanding s \<le> b" | "outstanding s = jb_bytes j" | j0 where "j0 \<in> set ?rest" "outstanding s = jb_bytes j0"
      proof -
        have "outstanding s \<le> b \<or> (\<exists>j' \<in> set (failed fin @ j # holders s'). outstanding s = jb_bytes j')"
          using assms(3) unfolding b budget_inv_def option.case hold hold' by blast
        then show ?thesis using that by auto
      qed
      then have "outstanding s' \<le> b \<or> (\<exists>j \<in> set ?rest. outstanding s' = jb_bytes j)"
      proof cases
        case 3
        then have "outstanding s' = jb_bytes j0" using out bytes_held_ge [OF 3(1)] by simp
        then show ?thesis using 3(1) by blast
      qed (use out in simp_all)
      then show ?thesis using b out True by (simp add: budget_inv_def failed_def)
    qed
    moreover have "order_inv jobs (fin @ [j]) s'" using assms(2) True hold hold' by (simp add: order_inv_def s' failed_def)
    moreover have "task_inv (fin @ [j]) s'" using assms(4) Some pre by (simp add: task_inv_def submitted_def s')
    ultimately show ?thesis by blast
  next
    case False
    then have s': "s' = s\<lparr>finalizing := None, failures := failures s @ [jb_name j]\<rparr>"
      using assms(1) Some bar by (simp add: finalizer_def)
    have hold': "holders s' = holders (s\<lparr>finalizing := None\<rparr>)" by (simp add: s' holders_def)
    have "budget_inv budget (fin @ [j]) s'"
      by (rule budget_inv_moved [OF assms(3)]) (use False hold hold' in \<open>simp_all add: s' failed_def\<close>)
    moreover have "order_inv jobs (fin @ [j]) s'" using assms(2) False hold hold' by (simp add: order_inv_def s' failed_def)
    moreover have "task_inv (fin @ [j]) s'" using assms(4) Some pre by (simp add: task_inv_def submitted_def s')
    ultimately show ?thesis by blast
  qed
qed

interpretation pack: guarded_steps "\<lambda>s. s = start jobs" "\<lambda>s s'. distinct (map jb_name jobs) \<and> pipe_step budget s s'" "pipe_inv jobs budget"
proof
  fix s assume "s = start jobs"
  then have "order_inv jobs [] s \<and> budget_inv budget [] s \<and> task_inv [] s"
    by (cases budget) (simp_all add: start_def order_inv_def budget_inv_def task_inv_def submitted_def holders_def failed_def)
  then show "pipe_inv jobs budget s" unfolding pipe_inv_def by blast
next
  fix s s' assume inv: "pipe_inv jobs budget s" and step: "distinct (map jb_name jobs) \<and> pipe_step budget s s'"
  obtain fin where fin: "order_inv jobs fin s" "budget_inv budget fin s" "task_inv fin s"
    using inv unfolding pipe_inv_def by blast
  from step have "pipe_step budget s s'" by blast
  then show "pipe_inv jobs budget s'"
  proof (rule pipe_step_cases)
    assume "producer budget s = Some s'"
    then show ?thesis using producer_inv [OF _ fin] unfolding pipe_inv_def by blast
  next
    assume "packer s = Some s'"
    then show ?thesis using packer_inv [OF _ fin] unfolding pipe_inv_def by blast
  next
    assume "writer s = Some s'"
    then show ?thesis using writer_inv [OF _ fin] unfolding pipe_inv_def by blast
  next
    assume "finalizer budget s = Some s'"
    then show ?thesis using finalizer_inv [OF _ fin] step unfolding pipe_inv_def by blast
  qed
qed


section \<open>Properties\<close>

abbreviation reachable :: "job list \<Rightarrow> nat option \<Rightarrow> pipe \<Rightarrow> bool" where
  "reachable jobs budget s \<equiv> (pipe_step budget)\<^sup>*\<^sup>* (start jobs) s"

lemma reachable_inv:
  assumes "distinct (map jb_name jobs)" and "reachable jobs budget s"
  shows "pipe_inv jobs budget s"
proof -
  have "(\<lambda>s s'. distinct (map jb_name jobs) \<and> pipe_step budget s s')\<^sup>*\<^sup>* (start jobs) s"
    using assms(2) by (rule rtranclp_mono [THEN predicate2D, rotated]) (use assms(1) in blast)
  then show ?thesis by (rule pack.always) simp
qed

text \<open>C24: However the threads interleave on tensors with distinct names, (1) the checkpoint is, in order, the
  finalized tensors, those held by a thread or a queue, and those not yet begun; (2) the manifest lists the successfully
  finalized tensors in checkpoint order and the failures the failed ones; (3) a finalized tensor's writes were all
  executed; (4) under a budget the bytes outstanding are exactly those of the held tensors and of the tensors whose
  finalization failed, so nothing is released twice or early and a finalized tensor's bytes are given back; and
  (5) they stay within the budget, unless one tensor larger than the budget accounts for all of them. Without a budget
  nothing is counted.\<close>

theorem pack_threads_safe:
  assumes "distinct (map jb_name jobs)" and "reachable jobs budget s"
  shows "\<exists>fin. jobs = fin @ holders s @ todo s \<and> entries s = map jb_name (filter jb_ok fin) \<and>
      failures s = map jb_name (filter (\<lambda>j. \<not> jb_ok j) fin) \<and>
      list_all (\<lambda>j. set (tasks_of j) \<subseteq> set (executed s)) fin \<and>
      (case budget of
         None \<Rightarrow> outstanding s = 0
       | Some b \<Rightarrow> outstanding s = sum_list (map jb_bytes (filter (\<lambda>j. \<not> jb_ok j) fin @ holders s)) \<and>
           (outstanding s \<le> b \<or> list_ex (\<lambda>j. outstanding s = jb_bytes j \<and> b < jb_bytes j) jobs))"
proof -
  obtain fin where fin: "order_inv jobs fin s" "budget_inv budget fin s" "task_inv fin s"
    using reachable_inv [OF assms] unfolding pipe_inv_def by blast
  have jobs: "jobs = fin @ holders s @ todo s" using fin(1) by (simp add: order_inv_def)
  have "set (tasks_of j) \<subseteq> set (executed s)" if "j \<in> set fin" for j
  proof -
    have "set (concat (map tasks_of fin)) \<subseteq> set (executed s)"
      by (rule set_mono_prefix) (use fin(3) in \<open>simp add: task_inv_def\<close>)
    then show ?thesis using that by auto
  qed
  moreover have "case budget of
         None \<Rightarrow> outstanding s = 0
       | Some b \<Rightarrow> outstanding s = sum_list (map jb_bytes (filter (\<lambda>j. \<not> jb_ok j) fin @ holders s)) \<and>
           (outstanding s \<le> b \<or> list_ex (\<lambda>j. outstanding s = jb_bytes j \<and> b < jb_bytes j) jobs)"
  proof (cases budget)
    case None
    then show ?thesis using fin(2) by (simp add: budget_inv_def)
  next
    case (Some b)
    have exact: "outstanding s = sum_list (map jb_bytes (filter (\<lambda>j. \<not> jb_ok j) fin @ holders s))"
      using fin(2) unfolding Some budget_inv_def option.case bytes_held_def failed_def by blast
   
    have "outstanding s \<le> b \<or> (\<exists>j \<in> set (failed fin @ holders s). outstanding s = jb_bytes j)"
      using fin(2) unfolding Some budget_inv_def option.case by blast
    moreover have "set (failed fin @ holders s) \<subseteq> set jobs" using jobs by (auto simp: failed_def)
    ultimately have "outstanding s \<le> b \<or> (\<exists>j \<in> set jobs. outstanding s = jb_bytes j)" by blast
    then have "outstanding s \<le> b \<or> list_ex (\<lambda>j. outstanding s = jb_bytes j \<and> b < jb_bytes j) jobs"
      by (auto simp: list_ex_iff)
    then show ?thesis using Some exact by simp
  qed
  ultimately show ?thesis using fin(1) jobs unfolding order_inv_def failed_def list_all_iff by blast
qed

lemma blocked_ended:
  assumes "distinct (map jb_name jobs)" and "pipe_inv jobs budget s" and "list_all jb_ok jobs"
    and "\<nexists>s'. pipe_step budget s s'"
  shows "entries s = map jb_name jobs" and "failures s = []" and "outstanding s = 0"
proof -
  have none: "producer budget s = None" "packer s = None" "writer s = None" "finalizer budget s = None"
    using assms(4) pipe_step_iff by (metis not_None_eq)+
  obtain fin where fin: "order_inv jobs fin s" "budget_inv budget fin s" "task_inv fin s"
    using assms(2) unfolding pipe_inv_def by blast
  have wq: "write_queue s = []" using none(3) by (auto simp: writer_def split: list.splits)
  have f: "finalizing s = None"
  proof (cases "finalizing s")
    case (Some j)
    then have "Barrier (jb_name j) \<in> set (executed s)"
      using fin(3) wq by (auto simp: task_inv_def submitted_def tasks_split)
    then show ?thesis using none(4) Some by (simp add: finalizer_def split: if_splits)
  qed simp
  have fq: "final_queue s = []" using none(4) f by (auto simp: finalizer_def split: list.splits)
  have p: "packing s = None"
  proof (cases "packing s")
    case (Some jk)
    then show ?thesis using none(2) wq fq
      by (auto simp: packer_def WRITER_QUEUE_MAX_def FINALIZE_QUEUE_MAX_def split: if_splits prod.splits)
  qed simp
  have r: "ready s = []" using none(2) p by (auto simp: packer_def split: list.splits)
  have pr: "prepping s = None"
    using none(1) r by (auto simp: producer_def PREFETCH_QUEUE_DEPTH_def split: option.splits if_splits)
  have hold: "holders s = []" by (simp add: holders_def f fq p r pr)
  have "failed fin = []"
    using assms(3) fin(1) by (auto simp: order_inv_def failed_def list_all_iff filter_empty_conv)
  then have out: "outstanding s = 0" using fin(2) hold by (auto simp: budget_inv_def split: option.splits)
  have "todo s = []"
    using none(1) pr out by (auto simp: producer_def reserve_def split: list.splits option.splits if_splits)
  then have "jobs = fin" using fin(1) hold by (simp add: order_inv_def)
  moreover have "filter jb_ok jobs = jobs" using assms(3) by (simp add: filter_id_conv list_all_iff)
  ultimately show "entries s = map jb_name jobs" "failures s = []" "outstanding s = 0"
    using fin(1) out \<open>failed fin = []\<close> by (simp_all add: order_inv_def)
qed

lemma comes_to_rest: "\<exists>t. (pipe_step budget)\<^sup>*\<^sup>* s t \<and> (\<nexists>u. pipe_step budget t u)"
  using runs_end [of budget]
proof (induction s rule: wfp_induct_rule)
  case (less s)
  then show ?case by (meson converse_rtranclp_into_rtranclp rtranclp.rtrancl_refl)
qed

text \<open>C25: For tensors with distinct names whose finalizations all succeed, a pack runs to completion under every
  budget (a tensor larger than the budget included): no run of the threads is infinite, a reachable state in which
  every thread is blocked has all tensors in the manifest in order, no failure and no bytes outstanding, and such a state
  can be reached from every reachable one. (With a failing finalization the threads may block early, see
  \<open>failed_finalize_blocks\<close>.)\<close>

theorem pack_threads_complete:
  assumes "distinct (map jb_name jobs)" and "list_all jb_ok jobs"
  shows "wfp (\<lambda>s' s. pipe_step budget s s') \<and>
    (\<forall>s. reachable jobs budget s \<and> (\<nexists>s'. pipe_step budget s s') \<longrightarrow>
       entries s = map jb_name jobs \<and> failures s = [] \<and> outstanding s = 0) \<and>
    (\<forall>s. reachable jobs budget s \<longrightarrow> (\<exists>t. (pipe_step budget)\<^sup>*\<^sup>* s t \<and>
       entries t = map jb_name jobs \<and> failures t = [] \<and> outstanding t = 0))"
proof -
  note ended = blocked_ended [OF assms(1) reachable_inv [OF assms(1)] assms(2)]
  have "\<exists>t. (pipe_step budget)\<^sup>*\<^sup>* s t \<and> entries t = map jb_name jobs \<and> failures t = [] \<and> outstanding t = 0"
    if "reachable jobs budget s" for s
    using comes_to_rest [of budget s] ended rtranclp_trans [OF that] by meson
  then show ?thesis using runs_end ended by blast
qed

text \<open>The threads run round-robin, for examples.\<close>

definition advance :: "(pipe \<Rightarrow> pipe option) \<Rightarrow> pipe \<Rightarrow> pipe" where
  "advance f s = (case f s of Some t \<Rightarrow> t | None \<Rightarrow> s)"

definition run_round :: "nat option \<Rightarrow> pipe \<Rightarrow> pipe" where
  "run_round budget s = advance (finalizer budget) (advance writer (advance packer (advance (producer budget) s)))"

lemma advance_reachable: "(\<And>u. f t = Some u \<Longrightarrow> pipe_step budget t u) \<Longrightarrow> (pipe_step budget)\<^sup>*\<^sup>* t (advance f t)"
  by (cases "f t") (auto simp: advance_def)

lemma run_round_reachable: "(pipe_step budget)\<^sup>*\<^sup>* s (run_round budget s)"
proof -
  let ?a = "advance (producer budget) s"
  let ?b = "advance packer ?a"
  let ?c = "advance writer ?b"
  have "(pipe_step budget)\<^sup>*\<^sup>* s ?a" by (rule advance_reachable, rule pipe_step.producer)
  moreover have "(pipe_step budget)\<^sup>*\<^sup>* ?a ?b" by (rule advance_reachable, rule pipe_step.packer)
  moreover have "(pipe_step budget)\<^sup>*\<^sup>* ?b ?c" by (rule advance_reachable, rule pipe_step.writer)
  moreover have "(pipe_step budget)\<^sup>*\<^sup>* ?c (advance (finalizer budget) ?c)"
    by (rule advance_reachable, rule pipe_step.finalizer)
  ultimately show ?thesis unfolding run_round_def by (meson rtranclp_trans)
qed

lemma rounds_reachable: "reachable jobs budget ((run_round budget ^^ n) (start jobs))"
  by (induction n) (auto intro: rtranclp_trans run_round_reachable)

definition two_jobs :: "bool \<Rightarrow> job list" where
  "two_jobs ok = [\<lparr>jb_name = ''a'', jb_bytes = 6, jb_writes = 1, jb_ok = ok\<rparr>,
     \<lparr>jb_name = ''b'', jb_bytes = 6, jb_writes = 1, jb_ok = True\<rparr>]"

text \<open>C26: A failing finalization can stop the pack for good: with a budget of 10 bytes and two tensors of 6 bytes of
  which the first fails to finalize, a state is reachable in which every thread is blocked although the
  second tensor was never prepared, because the failed tensor's bytes are never released.\<close>

theorem failed_finalize_blocks:
  "\<exists>s. reachable (two_jobs False) (Some 10) s \<and> (\<nexists>s'. pipe_step (Some 10) s s') \<and>
     failures s = [''a''] \<and> map jb_name (todo s) = [''b''] \<and> entries s = []"
proof -
  let ?a = "\<lparr>jb_name = ''a'', jb_bytes = 6, jb_writes = 1, jb_ok = False\<rparr>"
  let ?b = "\<lparr>jb_name = ''b'', jb_bytes = 6, jb_writes = 1, jb_ok = True\<rparr>"
  let ?st = "\<lambda>pr pk ex fz fl. \<lparr>todo = [?b], prepping = pr, outstanding = 6, ready = [], packing = pk, write_queue = [],
      executed = ex, final_queue = [], finalizing = fz, entries = [], failures = fl\<rparr>"
  let ?w = "[Write ''a'' 0]"
  note rounds = run_round_def advance_def producer_def packer_def writer_def finalizer_def reserve_def task_no_def
    PREFETCH_QUEUE_DEPTH_def WRITER_QUEUE_MAX_def FINALIZE_QUEUE_MAX_def
  have r: "run_round (Some 10) (start (two_jobs False)) = ?st (Some ?a) None [] None []"
    "run_round (Some 10) (?st (Some ?a) None [] None []) = ?st None (Some (?a, 0)) [] None []"
    "run_round (Some 10) (?st None (Some (?a, 0)) [] None []) = ?st None (Some (?a, 1)) ?w None []"
    "run_round (Some 10) (?st None (Some (?a, 1)) ?w None []) = ?st None (Some (?a, 2)) (?w @ [Barrier ''a'']) None []"
    "run_round (Some 10) (?st None (Some (?a, 2)) (?w @ [Barrier ''a'']) None []) =
      ?st None None (?w @ [Barrier ''a'']) (Some ?a) []"
    "run_round (Some 10) (?st None None (?w @ [Barrier ''a'']) (Some ?a) []) =
      ?st None None (?w @ [Barrier ''a'']) None [''a'']"
    by (simp_all add: rounds start_def two_jobs_def)
  let ?s = "(run_round (Some 10) ^^ Suc (Suc (Suc (Suc (Suc (Suc 0)))))) (start (two_jobs False))"
  have s: "?s = ?st None None (?w @ [Barrier ''a'']) None [''a'']"
    unfolding funpow.simps comp_apply id_apply r ..
  have blocked: "\<nexists>s'. pipe_step (Some 10) ?s s'"
    unfolding s pipe_step_iff by (simp add: producer_def packer_def writer_def finalizer_def reserve_def two_jobs_def)
  have ends: "failures ?s = [''a'']" "map jb_name (todo ?s) = [''b'']" "entries ?s = []"
    unfolding s by simp_all
  show ?thesis
    by (rule exI [of _ ?s], intro conjI, rule rounds_reachable, fact blocked, fact ends(1), fact ends(2), fact ends(3))
qed


lemma two_jobs_names: "distinct (map jb_name (two_jobs ok))"
  by (simp add: two_jobs_def)

theorem pack_threads_safe_witness:
  "\<exists>fin rest. two_jobs True = fin @ rest \<and>
     entries ((run_round (Some 10) ^^ 3) (start (two_jobs True))) = map jb_name (filter jb_ok fin)"
  using pack_threads_safe [OF two_jobs_names rounds_reachable [where budget = "Some 10" and n = 3]] by blast

theorem pack_threads_complete_witness: "wfp (\<lambda>s' s. pipe_step (Some 10) s s') \<and> list_all jb_ok (two_jobs True)"
  using pack_threads_complete [OF two_jobs_names, of True "Some 10"] by (simp add: two_jobs_def)

end
