(* ===== verification/Manifest.thy ===== *)
theory Manifest
  imports Decode Names Quant_Spec
begin

text \<open>
  \<open>orka/pipeline/pack_manifest.py\<close>: the sidecar files of a packed tensor, its manifest entry, the release of
  its payload and the assembly of the manifest.

  A candidate (the dict the pipeline passes along) is a record; the metrics of a tensor have the type
  \<open>'m\<close> and their computation, which may raise (\<open>None\<close>), is a parameter that \<open>Metrics.record_metrics\<close> instantiates. Paths are relative to the artifact; \<open>tdir\<close> is the tensor directory with
  its slash. What the decoder reads of an entry is \<open>Decode.tensor_meta\<close>.
\<close>

datatype manifest_error = WriteFail format_error | NoLength string | NoStages | MetricsFail

record stage_entry =
  se_meta :: stage_meta
  se_codebook_size :: nat
  se_training_count :: nat
  se_index_bytes :: nat

record 'm candidate =
  cd_name :: string
  cd_shape :: "nat list"
  cd_packed_values :: nat
  cd_padded_values :: nat
  cd_group_size :: nat
  cd_family :: string
  cd_normalization :: string
  cd_row_scales :: "real list option"
  cd_awq_col_scales :: "real list option"
  cd_outlier_positions :: "nat list option"
  cd_outlier_values :: "real list"
  cd_pillar_positions :: "nat list option"
  cd_pillar_values :: "real list"
  cd_salient_indices :: "nat list option"
  cd_salient_weights :: "real list"
  cd_block_scale_size :: "nat option"
  cd_rotation :: "string option"
  cd_rotation_seed :: "int option"
  cd_stages_meta :: "stage_entry list"
  cd_vector_count :: "nat option"
  cd_mse_scale_applied :: "bool option"
  cd_refined_metrics :: "'m option"
  cd_reserved :: "nat option"

section \<open>Sidecars\<close>

definition file_size :: "string \<Rightarrow> store \<Rightarrow> nat" where
  "file_size p s = (case s p of Some bs \<Rightarrow> length bs | None \<Rightarrow> 0)"

record scales_ref =
  sr_path :: string
  sr_bytes :: nat
  sr_count :: nat
  sr_dtype :: string

record sidecar_refs =
  sc_scales :: "scales_ref option"
  sc_awq_cols :: "scales_ref option"
  sc_outliers :: "sparse_meta option"
  sc_pillars :: "(string \<times> string) option"
  sc_salient :: "salient_meta option"

text \<open>
  One scale vector: \<open>_write_float_vector\<close> in fp16 with its fallback, then the size and \<open>len(...)\<close>, which raises for
  the \<open>None\<close> a mode without scales leaves.
\<close>

definition put_scales :: "real env \<Rightarrow> string \<Rightarrow> real list option \<Rightarrow> store \<Rightarrow> manifest_error + store \<times> scales_ref" where
  "put_scales e p scales s =
     (case scales of
        None \<Rightarrow> Inl (NoLength p)
      | Some vs \<Rightarrow>
          bind_err (lift_err WriteFail (write_float_vector e p vs ''float16'' s)) (\<lambda>(s', dt).
            Inr (s', \<lparr>sr_path = p, sr_bytes = file_size p s', sr_count = length vs, sr_dtype = dt\<rparr>)))"

definition persist_scales :: "real env \<Rightarrow> string \<Rightarrow> 'm candidate \<Rightarrow> store \<Rightarrow> manifest_error + store \<times> scales_ref option" where
  "persist_scales e stem c s =
     (if cd_normalization c = ''awq'' then
        bind_err (put_scales e (stem @ ''.col_l2_scale.f32'') (cd_row_scales c) s) (\<lambda>(s', r). Inr (s', Some r))
      else if stores_block_scales (cd_normalization c) then
        bind_err (put_scales e (stem @ ''.block_max_scale.f32'') (cd_row_scales c) s) (\<lambda>(s', r). Inr (s', Some r))
      else Inr (s, None))"

definition persist_awq_cols :: "real env \<Rightarrow> string \<Rightarrow> 'm candidate \<Rightarrow> store \<Rightarrow> manifest_error + store \<times> scales_ref option" where
  "persist_awq_cols e stem c s =
     (if cd_normalization c = ''awq-block-max'' \<and> cd_awq_col_scales c \<noteq> None then
        bind_err (put_scales e (stem @ ''.awq_col_scale.f32'') (cd_awq_col_scales c) s) (\<lambda>(s', r). Inr (s', Some r))
      else Inr (s, None))"

definition persist_outliers :: "real env \<Rightarrow> string \<Rightarrow> 'm candidate \<Rightarrow> store \<Rightarrow> manifest_error + store \<times> sparse_meta option" where
  "persist_outliers e stem c s =
     (case cd_outlier_positions c of
        Some (p # ps) \<Rightarrow>
          bind_err (lift_err WriteFail (write_outliers e (stem @ ''.outliers.idx'') (stem @ ''.outliers.val'') (p # ps)
                      (cd_outlier_values c) ''float16'' s)) (\<lambda>(s', pd, vd).
            Inr (s', Some \<lparr>sp_positions = stem @ ''.outliers.idx'', sp_values = stem @ ''.outliers.val'',
                     sp_count = length (p # ps), sp_positions_dtype = Some pd, sp_values_dtype = Some vd\<rparr>))
      | _ \<Rightarrow> Inr (s, None))"

definition too_big16 :: "real \<Rightarrow> bool" where "too_big16 v \<longleftrightarrow> \<bar>v\<bar> > 65504"

definition clip16 :: "real \<Rightarrow> real" where "clip16 v = max (-65504) (min 65504 v)"

definition persist_pillars :: "real env \<Rightarrow> string \<Rightarrow> 'm candidate \<Rightarrow> store \<Rightarrow> manifest_error + store \<times> (string \<times> string) option" where
  "persist_pillars e stem c s =
     (case cd_pillar_positions c of
        Some (p # ps) \<Rightarrow>
          bind_err (lift_err WriteFail (write_pillars e too_big16 clip16 (stem @ ''.pillars.idx'') (stem @ ''.pillars.f2'')
                      (p # ps) (cd_pillar_values c) s)) (\<lambda>s'.
            Inr (s', Some (stem @ ''.pillars.idx'', stem @ ''.pillars.f2'')))
      | _ \<Rightarrow> Inr (s, None))"

definition persist_salient :: "real env \<Rightarrow> string \<Rightarrow> 'm candidate \<Rightarrow> store \<Rightarrow> manifest_error + store \<times> salient_meta option" where
  "persist_salient e stem c s =
     (case cd_salient_indices c of
        None \<Rightarrow> Inr (s, None)
      | Some js \<Rightarrow>
          (let bits = index_bits_for_size (or_nat (cd_block_scale_size c) 32)
           in bind_err (lift_err WriteFail (write_salient e (stem @ ''.salient.idx'') (stem @ ''.salient.val'') js
                          (cd_salient_weights c) bits ''float16'' s)) (\<lambda>(s', wd).
                Inr (s', Some \<lparr>sl_indices = stem @ ''.salient.idx'', sl_weights = stem @ ''.salient.val'',
                         sl_count = length (cd_salient_weights c), sl_indices_bits = bits, sl_weights_dtype = Some wd\<rparr>))))"

definition persist_tensor_sidecars :: "real env \<Rightarrow> string \<Rightarrow> 'm candidate \<Rightarrow> store \<Rightarrow> manifest_error + store \<times> sidecar_refs" where
  "persist_tensor_sidecars e tdir c s =
     (let stem = tdir @ safe_tensor_name (cd_name c)
      in bind_err (persist_scales e stem c s) (\<lambda>(s1, scales).
         bind_err (persist_awq_cols e stem c s1) (\<lambda>(s2, cols).
         bind_err (persist_outliers e stem c s2) (\<lambda>(s3, outl).
         bind_err (persist_pillars e stem c s3) (\<lambda>(s4, pil).
         bind_err (persist_salient e stem c s4) (\<lambda>(s5, sal).
           Inr (s5, \<lparr>sc_scales = scales, sc_awq_cols = cols, sc_outliers = outl, sc_pillars = pil, sc_salient = sal\<rparr>)))))))"

section \<open>The manifest entry\<close>

record 'm manifest_entry =
  en_name :: string
  en_meta :: tensor_meta
  en_vector_count :: nat
  en_training_count :: nat
  en_codebook_size :: nat
  en_index_bytes :: nat
  en_n_stages :: nat
  en_stage_bytes :: "nat list"
  en_total_bits :: nat
  en_metrics :: 'm
  en_family :: string
  en_scale_bytes :: nat
  en_mse_scale_applied :: "bool option"

text \<open>\<open>c.get("refined_metrics") or _stage_quality_metrics(c, backend)\<close>\<close>

definition entry_metrics :: "('m candidate \<Rightarrow> 'm option) \<Rightarrow> 'm candidate \<Rightarrow> manifest_error + 'm" where
  "entry_metrics metrics c =
     (case cd_refined_metrics c of
        Some m \<Rightarrow> Inr m
      | None \<Rightarrow> (case metrics c of Some m \<Rightarrow> Inr m | None \<Rightarrow> Inl MetricsFail))"

definition build_entry ::
  "('m candidate \<Rightarrow> 'm option) \<Rightarrow> 'm candidate \<Rightarrow> nat \<Rightarrow> nat \<Rightarrow> string \<Rightarrow> sidecar_refs \<Rightarrow> manifest_error + 'm manifest_entry" where
  "build_entry metrics c n_stages block_scale_size tdir sc =
     bind_err (entry_metrics metrics c) (\<lambda>m.
      case cd_stages_meta c of
        [] \<Rightarrow> Inl NoStages
      | first # _ \<Rightarrow>
          Inr \<lparr>en_name = cd_name c,
            en_meta = \<lparr>
              tm_shape = cd_shape c, tm_group_size = cd_group_size c, tm_padded_values = cd_padded_values c,
              tm_packed_values = cd_packed_values c, tm_stages = map se_meta (cd_stages_meta c),
              tm_codebook = Some (sg_codebook (se_meta first)),
              tm_indices = Some (tdir @ safe_tensor_name (cd_name c) @ (if n_stages = 1 then ''.indices'' else ''.s0.indices'')),
              tm_index_bits = Some (sg_index_bits (se_meta first)),
              tm_outliers = sc_outliers sc, tm_pillars = sc_pillars sc,
              tm_rotation = Some (get_or (cd_rotation c) ''none''), tm_rotation_seed = cd_rotation_seed c,
              tm_normalization = Some (cd_normalization c), tm_scales = map_option sr_path (sc_scales sc),
              tm_scale_count = Some (case sc_scales sc of Some r \<Rightarrow> sr_count r | None \<Rightarrow> 0),
              tm_scale_dtype = map_option sr_dtype (sc_scales sc),
              tm_block_scale_size = (if stores_block_scales (cd_normalization c) then Some block_scale_size else None),
              tm_awq_col_scales = map_option (\<lambda>r. (sr_path r, sr_count r, Some (sr_dtype r))) (sc_awq_cols sc),
              tm_salient = sc_salient sc, tm_lowrank = None\<rparr>,
            en_vector_count = or_nat (cd_vector_count c) (cd_packed_values c div cd_group_size c),
            en_training_count = se_training_count first, en_codebook_size = se_codebook_size first,
            en_index_bytes = sum_list (map se_index_bytes (cd_stages_meta c)), en_n_stages = n_stages,
            en_stage_bytes = map se_index_bytes (cd_stages_meta c),
            en_total_bits = sum_list (map (sg_index_bits \<circ> se_meta) (cd_stages_meta c)),
            en_metrics = m, en_family = cd_family c,
            en_scale_bytes = (case sc_scales sc of Some r \<Rightarrow> sr_bytes r | None \<Rightarrow> 0),
            en_mse_scale_applied = cd_mse_scale_applied c\<rparr>)"

text \<open>\<open>_release_candidate_payload\<close>: drop the payload, hand the reserved bytes back once.\<close>

definition release_candidate_payload :: "'m candidate \<Rightarrow> 'm candidate \<times> nat" where
  "release_candidate_payload c =
     (c\<lparr>cd_row_scales := None, cd_awq_col_scales := None, cd_outlier_positions := None, cd_outlier_values := [],
        cd_pillar_positions := None, cd_pillar_values := [], cd_salient_indices := None, cd_salient_weights := [],
        cd_reserved := None\<rparr>, or_nat (cd_reserved c) 0)"

text \<open>Sizes of the index files are read again: their writes were deferred.\<close>

definition refresh_bytes :: "store \<Rightarrow> stage_entry \<Rightarrow> stage_entry" where
  "refresh_bytes s st = (case s (sg_indices (se_meta st)) of Some bs \<Rightarrow> st\<lparr>se_index_bytes := length bs\<rparr> | None \<Rightarrow> st)"

abbreviation refreshed :: "store \<Rightarrow> 'm candidate \<Rightarrow> 'm candidate" where
  "refreshed s c \<equiv> c\<lparr>cd_stages_meta := map (refresh_bytes s) (cd_stages_meta c)\<rparr>"

definition finalize_entry ::
  "real env \<Rightarrow> ('m candidate \<Rightarrow> 'm option) \<Rightarrow> nat \<Rightarrow> nat \<Rightarrow> string \<Rightarrow> 'm candidate \<Rightarrow> store
    \<Rightarrow> manifest_error + 'm manifest_entry \<times> 'm candidate \<times> nat \<times> store" where
  "finalize_entry e metrics n_stages block_scale_size tdir c s =
     (let c1 = refreshed s c
      in bind_err (persist_tensor_sidecars e tdir c1 s) (\<lambda>(s', sc).
         bind_err (build_entry metrics c1 n_stages block_scale_size tdir sc) (\<lambda>entry.
           (case release_candidate_payload c1 of (c2, freed) \<Rightarrow> Inr (entry, c2, freed, s')))))"

section \<open>The manifest\<close>

text \<open>\<open>name.replace(".weight", "")\<close>\<close>

fun drop_weight :: "string \<Rightarrow> string" where
  "drop_weight [] = []"
| "drop_weight (ch # cs) =
     (if prefix ''.weight'' (ch # cs) then drop_weight (drop 7 (ch # cs)) else ch # drop_weight cs)"

record 'm manifest =
  mf_tensors :: "'m manifest_entry list"
  mf_total_index_bytes :: nat
  mf_tensor_count :: nat

definition persist_manifest ::
  "real env \<Rightarrow> ('m candidate \<Rightarrow> 'm option) \<Rightarrow> nat \<Rightarrow> nat \<Rightarrow> string \<Rightarrow> string set \<Rightarrow> 'm candidate list \<Rightarrow> 'm manifest_entry list \<Rightarrow> store
    \<Rightarrow> manifest_error + 'm manifest \<times> store" where
  "persist_manifest e metrics n_stages block_scale_size tdir skipped candidates before s =
     bind_err
       (foldM (\<lambda>(entries, s) c.
          if drop_weight (cd_name c) \<in> skipped \<or> cd_name c \<in> skipped then Inr (entries, s)
          else bind_err (finalize_entry e metrics n_stages block_scale_size tdir c s)
                 (\<lambda>(entry, _, _, s'). Inr (entries @ [entry], s')))
        (before, s) candidates)
       (\<lambda>(entries, s').
          Inr (\<lparr>mf_tensors = entries, mf_total_index_bytes = sum_list (map en_index_bytes entries),
                 mf_tensor_count = length entries\<rparr>, s'))"
section \<open>Each part touches its own files\<close>

lemma put_scales_parts:
  assumes "put_scales e p scales s = Inr (s', r)"
  obtains vs where "scales = Some vs" "write_float_vector e p vs ''float16'' s = Inr (s', sr_dtype r)"
    "sr_path r = p" "sr_count r = length vs"
  using assms by (auto simp: put_scales_def bind_err_eq_Inr split: option.splits)

lemma put_scales_other: "put_scales e p scales s = Inr (s', r) \<Longrightarrow> q \<noteq> p \<Longrightarrow> s' q = s q"
  by (erule put_scales_parts) (rule write_float_vector_other)

lemma write_outliers_other:
  assumes "write_outliers e ip vp ps vs dt s = Inr (s', pd, vd)" and "q \<noteq> ip" and "q \<noteq> vp"
  shows "s' q = s q"
  using assms by (auto simp: write_outliers_def Let_def bind_err_eq_Inr write_blob_other dest!: write_float_vector_other split: if_splits)

lemma write_salient_other:
  assumes "write_salient e ip vp js ws bits dt s = Inr (s', wd)" and "q \<noteq> ip" and "q \<noteq> vp"
  shows "s' q = s q"
  using assms by (auto simp: write_salient_def bind_err_eq_Inr write_blob_other dest!: write_float_vector_other)

lemma write_pillars_other:
  assumes "write_pillars e big lim16 ip vp ps vs s = Inr s'" and "q \<noteq> ip" and "q \<noteq> vp"
  shows "s' q = s q"
  using assms by (auto simp: write_pillars_def Let_def split: if_splits)

lemma persist_awq_cols_other:
  "persist_awq_cols e stem c s = Inr (s', r) \<Longrightarrow> q \<noteq> stem @ ''.awq_col_scale.f32'' \<Longrightarrow> s' q = s q"
  by (auto simp: persist_awq_cols_def bind_err_eq_Inr put_scales_other split: if_splits)

lemma persist_outliers_other:
  "persist_outliers e stem c s = Inr (s', r) \<Longrightarrow> q \<noteq> stem @ ''.outliers.idx'' \<Longrightarrow> q \<noteq> stem @ ''.outliers.val'' \<Longrightarrow> s' q = s q"
  by (auto simp: persist_outliers_def bind_err_eq_Inr write_outliers_other split: option.splits list.splits)

lemma persist_pillars_other:
  "persist_pillars e stem c s = Inr (s', r) \<Longrightarrow> q \<noteq> stem @ ''.pillars.idx'' \<Longrightarrow> q \<noteq> stem @ ''.pillars.f2'' \<Longrightarrow> s' q = s q"
  by (auto simp: persist_pillars_def bind_err_eq_Inr write_pillars_other split: option.splits list.splits)

lemma persist_salient_other:
  "persist_salient e stem c s = Inr (s', r) \<Longrightarrow> q \<noteq> stem @ ''.salient.idx'' \<Longrightarrow> q \<noteq> stem @ ''.salient.val'' \<Longrightarrow> s' q = s q"
  by (auto simp: persist_salient_def bind_err_eq_Inr Let_def write_salient_other split: option.splits)

lemmas persist_others = persist_awq_cols_other persist_outliers_other persist_pillars_other persist_salient_other

section \<open>What was written is read\<close>

text \<open>Values that fp16 storage keeps: what \<open>_fp16_storage_roundtrip\<close> leaves in a candidate.\<close>

definition kept16 :: "real env \<Rightarrow> real list \<Rightarrow> bool" where
  "kept16 e vs \<longleftrightarrow> stored_floats e (vs, ''float16'') = vs"

lemma storage16_kept:
  assumes "\<And>v. fits16 e v \<Longrightarrow> fits16 e (round16 e v) \<and> round16 e (round16 e v) = round16 e v"
  shows "kept16 e (storage16 e vs)"
proof (rule storage16_cases [of e vs])
  assume st: "storage16 e vs = map (round16 e) vs" "\<forall>v \<in> set vs. fits16 e v"
  then have "map (round16 e) (map (round16 e) vs) = map (round16 e) vs" using assms by simp
  then show ?thesis unfolding kept16_def stored_floats_def st by simp
next
  assume "storage16 e vs = vs" "vs = [] \<or> (\<exists>v \<in> set vs. \<not> fits16 e v)"
  then show ?thesis by (auto simp: kept16_def stored_floats_def compact_float_dtype_def list_ex_iff)
qed

lemma written_floats:
  assumes "zlib_ok e" and "storable e vs \<and> kept16 e vs" and "write_float_vector e p vs ''float16'' s = Inr (s1, dt)" and "s2 p = s1 p"
  shows "read_float_vector e p (length vs) dt s2 = Inr vs" and "or_str (Some dt) d = dt"
proof -
  have ok: "floats_ok e (vs, ''float16'')" using assms(1,2) by (simp add: floats_ok_def)
  have put: "floats_put e p (vs, ''float16'') s = Inr (s1, dt, length vs)" using assms(3) by (simp add: floats_put_def)
  show "read_float_vector e p (length vs) dt s2 = Inr vs"
    using floats.survives [OF ok put, of s2] assms(2,4) by (simp add: floats_get_def kept16_def)
  have "dt = compact_float_dtype e vs ''float16''" using assms(3) by (auto simp: write_float_vector_def Let_def bind_err_eq_Inr)
  then have "dt = ''float16'' \<or> dt = ''float32''" using compact_float_dtype_cases by blast
  then show "or_str (Some dt) d = dt" by (auto simp: or_str_def)
qed

lemma written_salient:
  assumes "zlib_ok e" and "storable e ws \<and> kept16 e ws" and "bits \<le> 63" and "\<forall>j \<in> set js. j < 2 ^ bits" and "length js = length ws"
    and "write_salient e ip vp js ws bits ''float16'' s = Inr (s1, wd)" and "ip \<noteq> vp" and "s2 ip = s1 ip" and "s2 vp = s1 vp"
  shows "read_salient e ip vp (length ws) bits wd s2 = Inr (map int js, ws)"
proof -
  obtain packed where packed: "bits_enc bits js = Inr packed" "bits_dec bits (length js) packed = Inr (map int js)"
    using bit_layout.dec_enc [OF assms(3,4)] by blast
  have w: "write_float_vector e vp ws ''float16'' (write_blob e ip packed s) = Inr (s1, wd)"
    using assms(6) packed(1) by (simp add: write_salient_def)
  have "read_blob e ip s2 = read_blob e ip (write_blob e ip packed s)"
    by (rule read_blob_cong) (use assms(7,8) write_float_vector_other [OF w, of ip] in simp)
  then have "read_blob e ip s2 = Inr packed" using assms(1) by (simp add: read_write_blob)
  then show ?thesis
    using written_floats(1) [OF assms(1,2) w, of s2] packed(2) assms(5,9) by (simp add: read_salient_def)
qed

lemma read_outliers_cong:
  assumes "s ip = s' ip" and "s vp = s' vp"
  shows "read_outliers e ip vp n pd vd s = read_outliers e ip vp n pd vd s'"
  unfolding read_outliers_def read_blob_cong [of s ip s', OF assms(1)] read_float_vector_cong [of s vp s', OF assms(2)] ..


section \<open>Finalized sidecars\<close>

text \<open>What the pipeline guarantees of a candidate when it is finalized: stored values rounded to fp16 storage, salient
  indices inside their block, one weight per salient index, one value per outlier position.\<close>

definition candidate_ok :: "real env \<Rightarrow> 'm candidate \<Rightarrow> bool" where
  "candidate_ok e c \<longleftrightarrow>
     (case cd_row_scales c of None \<Rightarrow> True | Some vs \<Rightarrow> storable e vs \<and> kept16 e vs) \<and>
     (case cd_awq_col_scales c of None \<Rightarrow> True | Some vs \<Rightarrow> storable e vs \<and> kept16 e vs) \<and>
     (case cd_outlier_positions c of None \<Rightarrow> True
      | Some ps \<Rightarrow> length (cd_outlier_values c) = length ps \<and> storable e (cd_outlier_values c) \<and> (\<forall>p \<in> set ps. p < 2 ^ 63) \<and>
          kept16 e (map snd (sort_key fst (zip ps (cd_outlier_values c))))) \<and>
     (case cd_salient_indices c of None \<Rightarrow> True
      | Some js \<Rightarrow> storable e (cd_salient_weights c) \<and> kept16 e (cd_salient_weights c) \<and> length js = length (cd_salient_weights c) \<and>
          index_bits_for_size (or_nat (cd_block_scale_size c) 32) \<le> 63 \<and>
          (\<forall>j \<in> set js. j < 2 ^ index_bits_for_size (or_nat (cd_block_scale_size c) 32)))"

definition files_env :: "floats \<Rightarrow> real env \<Rightarrow> registry \<Rightarrow> store \<Rightarrow> decode_env" where
  "files_env fl e reg s = \<lparr>dx_floats = fl, dx_env = e, dx_rotations = reg, dx_files = s\<rparr>"

lemma files_env_simps [simp]:
  "dx_env (files_env fl e reg s) = e" "dx_files (files_env fl e reg s) = s" "dx_floats (files_env fl e reg s) = fl"
  "dx_rotations (files_env fl e reg s) = reg"
  by (simp_all add: files_env_def)

lemma put_scales_read:
  assumes "zlib_ok e" and "put_scales e p scales s = Inr (s1, r)"
    and "case scales of None \<Rightarrow> True | Some vs \<Rightarrow> storable e vs \<and> kept16 e vs" and "s2 p = s1 p"
  shows "scales = Some (the scales)" and "read_float_vector e (sr_path r) (sr_count r) (or_str (Some (sr_dtype r)) d) s2 = Inr (the scales)"
proof -
  obtain vs where vs: "scales = Some vs" "write_float_vector e p vs ''float16'' s = Inr (s1, sr_dtype r)"
    "sr_path r = p" "sr_count r = length vs"
    using assms(2) by (rule put_scales_parts)
  have ok: "storable e vs \<and> kept16 e vs" using assms(3) vs(1) by simp
  show "scales = Some (the scales)" using vs(1) by simp
  show "read_float_vector e (sr_path r) (sr_count r) (or_str (Some (sr_dtype r)) d) s2 = Inr (the scales)"
    using written_floats [OF assms(1) ok vs(2), of s2] assms(4) vs by simp
qed

text \<open>The sidecars do not depend on the stage list, whose sizes are refreshed first.\<close>

lemma persist_same:
  "persist_scales e st (c\<lparr>cd_stages_meta := sts\<rparr>) = persist_scales e st c"
  "persist_awq_cols e st (c\<lparr>cd_stages_meta := sts\<rparr>) = persist_awq_cols e st c"
  "persist_outliers e st (c\<lparr>cd_stages_meta := sts\<rparr>) = persist_outliers e st c"
  "persist_pillars e st (c\<lparr>cd_stages_meta := sts\<rparr>) = persist_pillars e st c"
  "persist_salient e st (c\<lparr>cd_stages_meta := sts\<rparr>) = persist_salient e st c"
  by (simp_all add: fun_eq_iff persist_scales_def persist_awq_cols_def persist_outliers_def persist_pillars_def persist_salient_def
      cong: option.case_cong list.case_cong if_cong)

lemma finalize_parts:
  assumes "finalize_entry e metrics n_stages bs tdir c s = Inr (entry, c2, freed, s')"
  obtains stem s1 s2 s3 s4 scales cols outl pil sal where
    "persist_scales e stem c s = Inr (s1, scales)" "persist_awq_cols e stem c s1 = Inr (s2, cols)"
    "persist_outliers e stem c s2 = Inr (s3, outl)" "persist_pillars e stem c s3 = Inr (s4, pil)"
    "persist_salient e stem c s4 = Inr (s', sal)"
    "tm_scales (en_meta entry) = map_option sr_path scales"
    "tm_scale_count (en_meta entry) = Some (case scales of Some r \<Rightarrow> sr_count r | None \<Rightarrow> 0)"
    "tm_scale_dtype (en_meta entry) = map_option sr_dtype scales"
    "tm_awq_col_scales (en_meta entry) = map_option (\<lambda>r. (sr_path r, sr_count r, Some (sr_dtype r))) cols"
    "tm_outliers (en_meta entry) = outl" "tm_salient (en_meta entry) = sal"
proof -
  let ?c1 = "c\<lparr>cd_stages_meta := map (refresh_bytes s) (cd_stages_meta c)\<rparr>"
  obtain sc where sc: "persist_tensor_sidecars e tdir ?c1 s = Inr (s', sc)" "build_entry metrics ?c1 n_stages bs tdir sc = Inr entry"
    using assms by (auto simp: finalize_entry_def release_candidate_payload_def Let_def bind_err_eq_Inr)
  note same = persist_same [where c = c and sts = "map (refresh_bytes s) (cd_stages_meta c)"]
  obtain s1 s2 s3 s4 scales cols outl pil sal where parts:
    "persist_scales e (tdir @ safe_tensor_name (cd_name c)) c s = Inr (s1, scales)"
    "persist_awq_cols e (tdir @ safe_tensor_name (cd_name c)) c s1 = Inr (s2, cols)"
    "persist_outliers e (tdir @ safe_tensor_name (cd_name c)) c s2 = Inr (s3, outl)"
    "persist_pillars e (tdir @ safe_tensor_name (cd_name c)) c s3 = Inr (s4, pil)"
    "persist_salient e (tdir @ safe_tensor_name (cd_name c)) c s4 = Inr (s', sal)"
    "sc = \<lparr>sc_scales = scales, sc_awq_cols = cols, sc_outliers = outl, sc_pillars = pil, sc_salient = sal\<rparr>"
    using sc(1) by (auto simp: persist_tensor_sidecars_def Let_def same bind_err_eq_Inr)
  obtain m where "entry_metrics metrics ?c1 = Inr m" using sc(2) by (auto simp: build_entry_def bind_err_eq_Inr)
  then show ?thesis
    by (intro that [OF parts(1-5)]) (use sc(2) parts(6) in \<open>auto simp: build_entry_def split: list.splits\<close>)
qed


text \<open>The four parts of a finalized entry, each read from the files as they are at the end.\<close>

lemma scales_part:
  assumes "zlib_ok e" and "candidate_ok e c" and "persist_scales e stem c s = Inr (s1, scales)"
    and same: "\<And>q. q = stem @ ''.col_l2_scale.f32'' \<or> q = stem @ ''.block_max_scale.f32'' \<Longrightarrow> s2 q = s1 q"
    and tm: "tm_scales tm = map_option sr_path scales" "tm_scale_count tm = Some (case scales of Some r \<Rightarrow> sr_count r | None \<Rightarrow> 0)"
      "tm_scale_dtype tm = map_option sr_dtype scales"
  shows "if cd_normalization c = ''awq'' \<or> stores_block_scales (cd_normalization c)
    then cd_row_scales c \<noteq> None \<and> read_scales (files_env fl e reg s2) tm = Inr (the (cd_row_scales c)) else scales = None"
proof (cases "cd_normalization c = ''awq'' \<or> stores_block_scales (cd_normalization c)")
  case True
  then obtain p r where put: "put_scales e p (cd_row_scales c) s = Inr (s1, r)" "scales = Some r"
    and p: "p = stem @ ''.col_l2_scale.f32'' \<or> p = stem @ ''.block_max_scale.f32''"
    using assms(3) by (auto simp: persist_scales_def bind_err_eq_Inr split: if_splits)
  have "case cd_row_scales c of None \<Rightarrow> True | Some vs \<Rightarrow> storable e vs \<and> kept16 e vs"
    using assms(2) by (simp add: candidate_ok_def)
  note read = put_scales_read [OF assms(1) put(1) this, of s2, OF same [OF p]]
  show ?thesis using True read(1) read(2) [of "''float32''"] tm put(2) by (auto simp: read_scales_def key_def)
next
  case False
  with assms(3) show ?thesis by (simp add: persist_scales_def)
qed


lemma awq_cols_part:
  assumes "zlib_ok e" and "candidate_ok e c" and "persist_awq_cols e stem c s = Inr (s1, cols)"
    and same: "s2 (stem @ ''.awq_col_scale.f32'') = s1 (stem @ ''.awq_col_scale.f32'')"
    and tm: "tm_awq_col_scales tm = map_option (\<lambda>r. (sr_path r, sr_count r, Some (sr_dtype r))) cols"
  shows "case tm_awq_col_scales tm of
      Some am \<Rightarrow> cd_awq_col_scales c \<noteq> None \<and> read_awq_cols (files_env fl e reg s2) am = Inr (the (cd_awq_col_scales c))
    | None \<Rightarrow> cd_normalization c \<noteq> ''awq-block-max'' \<or> cd_awq_col_scales c = None"
proof (cases "cd_normalization c = ''awq-block-max'' \<and> cd_awq_col_scales c \<noteq> None")
  case True
  then obtain r where put: "put_scales e (stem @ ''.awq_col_scale.f32'') (cd_awq_col_scales c) s = Inr (s1, r)" "cols = Some r"
    using assms(3) by (auto simp: persist_awq_cols_def bind_err_eq_Inr simp del: not_None_eq)
  have "case cd_awq_col_scales c of None \<Rightarrow> True | Some vs \<Rightarrow> storable e vs \<and> kept16 e vs"
    using assms(2) by (simp add: candidate_ok_def)
  note read = put_scales_read [OF assms(1) put(1) this, of s2, OF same]
  show ?thesis using True read(2) [of "''float32''"] tm put(2) by (auto simp: read_awq_cols_def)
next
  case False
  with assms(3) tm show ?thesis by (auto simp: persist_awq_cols_def if_not_P)
qed

lemma outliers_part:
  assumes "zlib_ok e" and "candidate_ok e c" and "persist_outliers e stem c s = Inr (s1, outl)"
    and same: "s2 (stem @ ''.outliers.idx'') = s1 (stem @ ''.outliers.idx'')" "s2 (stem @ ''.outliers.val'') = s1 (stem @ ''.outliers.val'')"
    and tm: "tm_outliers tm = outl"
  shows "apply_outliers (files_env fl e reg s2) tm d =
    (case cd_outlier_positions c of
       Some (p # ps) \<Rightarrow> put_values d (map (\<lambda>(p, v). (int p, v)) (sort_key fst (zip (p # ps) (cd_outlier_values c))))
     | _ \<Rightarrow> Inr d)"
proof (cases "\<exists>p ps. cd_outlier_positions c = Some (p # ps)")
  case False
  with assms(3) tm show ?thesis
    by (auto simp: persist_outliers_def apply_outliers_def split: option.splits list.splits)
next
  case True
  then obtain p ps where pos: "cd_outlier_positions c = Some (p # ps)" by blast
  let ?ps = "p # ps" and ?vs = "cd_outlier_values c" and ?ip = "stem @ ''.outliers.idx''" and ?vp = "stem @ ''.outliers.val''"
  let ?es = "sort_key fst (zip ?ps ?vs)"
  have ok: "length ?vs = length ?ps" "storable e ?vs" "\<forall>p \<in> set ?ps. p < 2 ^ 63" "kept16 e (map snd ?es)"
    using assms(2) by (simp_all add: candidate_ok_def pos)
  have big: "\<forall>p \<in> set ?ps. p < 2 ^ 64" using ok(3) by (auto simp del: set_simps intro: less_trans)
  have paths: "?ip \<noteq> ?vp" by simp
  obtain s' pd vd where w: "write_outliers e ?ip ?vp ?ps ?vs ''float16'' s = Inr (s', pd, vd)"
    "read_outliers e ?ip ?vp (length ?vs) pd vd s' = Inr (map fst ?es, stored_floats e (map snd ?es, ''float16''))"
    using write_outliers_read [OF assms(1) ok(2) paths ok(1) big, of "''float16''" s] by auto
  have outl: "s1 = s'" "outl = Some \<lparr>sp_positions = ?ip, sp_values = ?vp, sp_count = length ?ps,
      sp_positions_dtype = Some pd, sp_values_dtype = Some vd\<rparr>"
    using assms(3) w(1) by (simp_all add: persist_outliers_def pos)
  have read: "read_outliers e ?ip ?vp (length ?ps) pd vd s2 = Inr (map fst ?es, map snd ?es)"
    using w(2) ok(1,4) by (simp add: read_outliers_cong [of s2 ?ip s1 ?vp, OF same] outl(1) kept16_def)
  have "p < 2 ^ 63" if "p \<in> fst ` set ?es" for p
    using that ok(3) by (auto simp del: set_simps dest!: set_zip_leftD)
  then have "map to_int64 (map fst ?es) = map int (map fst ?es)"
    by (auto simp: to_int64_def)
  then have "zip (map to_int64 (map fst ?es)) (map snd ?es) = map (\<lambda>(p, v). (int p, v)) ?es"
    by (simp add: zip_map_map zip_same_conv_map split_def)
  then show ?thesis using read tm by (simp add: apply_outliers_def outl(2) pos get_or_def)
qed

lemma salient_part:
  assumes "zlib_ok e" and "candidate_ok e c" and "persist_salient e stem c s = Inr (s1, sal)" and tm: "tm_salient tm = sal"
  shows "apply_salient (files_env fl e reg s1) tm d =
    (case cd_salient_indices c of
       Some js \<Rightarrow> reinject (or_nat (tm_block_scale_size tm) 32) (map int js) (cd_salient_weights c) d
     | None \<Rightarrow> Inr d)"
proof (cases "cd_salient_indices c")
  case None
  with assms(3) tm show ?thesis by (simp add: persist_salient_def apply_salient_def)
next
  case (Some js)
  let ?bits = "index_bits_for_size (or_nat (cd_block_scale_size c) 32)"
  let ?ip = "stem @ ''.salient.idx''" and ?vp = "stem @ ''.salient.val''"
  obtain wd where w: "write_salient e ?ip ?vp js (cd_salient_weights c) ?bits ''float16'' s = Inr (s1, wd)"
    and sal: "sal = Some \<lparr>sl_indices = ?ip, sl_weights = ?vp, sl_count = length (cd_salient_weights c),
      sl_indices_bits = ?bits, sl_weights_dtype = Some wd\<rparr>"
    using assms(3) by (auto simp: persist_salient_def Some Let_def bind_err_eq_Inr)
  have ok: "storable e (cd_salient_weights c) \<and> kept16 e (cd_salient_weights c)" "length js = length (cd_salient_weights c)"
    "?bits \<le> 63" "\<forall>j \<in> set js. j < 2 ^ ?bits"
    using assms(2) by (simp_all add: candidate_ok_def Some)
  have "read_salient e ?ip ?vp (length (cd_salient_weights c)) ?bits wd s1 = Inr (map int js, cd_salient_weights c)"
    by (rule written_salient [OF assms(1) ok(1,3,4,2) w]) simp_all
  then show ?thesis using tm sal by (simp add: apply_salient_def Some get_or_def)
qed


lemma finalized_reads:
  assumes "zlib_ok e" and "candidate_ok e c"
    and "finalize_entry e metrics n_stages bs tdir c s = Inr (entry, c2, freed, s')"
  shows "(if cd_normalization c = ''awq'' \<or> stores_block_scales (cd_normalization c)
      then cd_row_scales c \<noteq> None \<and> read_scales (files_env fl e reg s') (en_meta entry) = Inr (the (cd_row_scales c))
      else tm_scales (en_meta entry) = None) \<and>
    (case tm_awq_col_scales (en_meta entry) of
        Some am \<Rightarrow> cd_awq_col_scales c \<noteq> None \<and> read_awq_cols (files_env fl e reg s') am = Inr (the (cd_awq_col_scales c))
      | None \<Rightarrow> cd_normalization c \<noteq> ''awq-block-max'' \<or> cd_awq_col_scales c = None) \<and>
    apply_outliers (files_env fl e reg s') (en_meta entry) d =
      (case cd_outlier_positions c of
         Some (p # ps) \<Rightarrow> put_values d (map (\<lambda>(p, v). (int p, v)) (sort_key fst (zip (p # ps) (cd_outlier_values c))))
       | _ \<Rightarrow> Inr d) \<and>
    apply_salient (files_env fl e reg s') (en_meta entry) d =
      (case cd_salient_indices c of
         Some js \<Rightarrow> reinject (or_nat (tm_block_scale_size (en_meta entry)) 32) (map int js) (cd_salient_weights c) d
       | None \<Rightarrow> Inr d)"
proof -
  obtain stem s1 s2 s3 s4 scales cols outl pil sal where parts:
    "persist_scales e stem c s = Inr (s1, scales)" "persist_awq_cols e stem c s1 = Inr (s2, cols)"
    "persist_outliers e stem c s2 = Inr (s3, outl)" "persist_pillars e stem c s3 = Inr (s4, pil)"
    "persist_salient e stem c s4 = Inr (s', sal)"
    and tm: "tm_scales (en_meta entry) = map_option sr_path scales"
      "tm_scale_count (en_meta entry) = Some (case scales of Some r \<Rightarrow> sr_count r | None \<Rightarrow> 0)"
      "tm_scale_dtype (en_meta entry) = map_option sr_dtype scales"
      "tm_awq_col_scales (en_meta entry) = map_option (\<lambda>r. (sr_path r, sr_count r, Some (sr_dtype r))) cols"
      "tm_outliers (en_meta entry) = outl" "tm_salient (en_meta entry) = sal"
    using assms(3) by (rule finalize_parts)
  note later = persist_salient_other [OF parts(5)] persist_pillars_other [OF parts(4)]
    persist_outliers_other [OF parts(3)] persist_awq_cols_other [OF parts(2)]
  have q1: "s' q = s1 q" if "q = stem @ ''.col_l2_scale.f32'' \<or> q = stem @ ''.block_max_scale.f32''" for q
    using that by (auto simp: later)
  have q2: "s' (stem @ ''.awq_col_scale.f32'') = s2 (stem @ ''.awq_col_scale.f32'')"
    and q3: "s' (stem @ ''.outliers.idx'') = s3 (stem @ ''.outliers.idx'')" "s' (stem @ ''.outliers.val'') = s3 (stem @ ''.outliers.val'')"
    by (simp_all add: later)
  show ?thesis
    using scales_part [OF assms(1,2) parts(1), of s', OF q1 tm(1-3), of fl reg] awq_cols_part [OF assms(1,2) parts(2), of s', OF q2 tm(4), of fl reg]
      outliers_part [OF assms(1,2) parts(3), of s', OF q3 tm(5), of fl reg d] salient_part [OF assms(1,2) parts(5) tm(6), of fl reg d] tm(1)
    by (auto split: if_splits)
qed



section \<open>Finalization succeeds\<close>

definition candidate_complete :: "'m candidate \<Rightarrow> bool" where
  "candidate_complete c \<longleftrightarrow>
     (cd_normalization c = ''awq'' \<or> stores_block_scales (cd_normalization c) \<longrightarrow> cd_row_scales c \<noteq> None) \<and>
     (case cd_pillar_positions c of None \<Rightarrow> True | Some ps \<Rightarrow> ps = [] \<or> cd_pillar_values c \<noteq> []) \<and>
     cd_stages_meta c \<noteq> []"

lemma put_scales_some: "\<exists>s' r. put_scales e p (Some vs) s = Inr (s', r)"
proof -
  have "compact_float_dtype e vs ''float16'' = ''float16'' \<or> compact_float_dtype e vs ''float16'' = ''float32''"
    by (rule compact_float_dtype_cases) simp
  then show ?thesis by (auto simp: put_scales_def write_float_vector_def Let_def)
qed

lemma write_salient_some:
  assumes "bits \<le> 63" and "\<forall>j \<in> set js. j < 2 ^ bits"
  shows "\<exists>s' wd. write_salient e ip vp js ws bits ''float16'' s = Inr (s', wd)"
proof -
  have "compact_float_dtype e ws ''float16'' = ''float16'' \<or> compact_float_dtype e ws ''float16'' = ''float32''"
    by (rule compact_float_dtype_cases) simp
  moreover obtain packed where "bits_enc bits js = Inr packed" using bit_layout.dec_enc [OF assms] by blast
  ultimately show ?thesis by (auto simp: write_salient_def write_float_vector_def Let_def)
qed

lemma persist_scales_some:
  assumes "candidate_complete c"
  shows "\<exists>s' r. persist_scales e stem c s = Inr (s', r)"
proof (cases "cd_row_scales c")
  case None
  with assms show ?thesis by (simp add: persist_scales_def candidate_complete_def)
next
  case (Some vs)
  obtain s1 r1 s2 r2 where "put_scales e (stem @ ''.col_l2_scale.f32'') (Some vs) s = Inr (s1, r1)"
    "put_scales e (stem @ ''.block_max_scale.f32'') (Some vs) s = Inr (s2, r2)"
    using put_scales_some by blast
  then show ?thesis by (simp add: persist_scales_def Some)
qed

lemma persist_awq_cols_some: "\<exists>s' r. persist_awq_cols e stem c s = Inr (s', r)"
proof (cases "cd_awq_col_scales c")
  case (Some vs)
  obtain s1 r1 where "put_scales e (stem @ ''.awq_col_scale.f32'') (Some vs) s = Inr (s1, r1)" using put_scales_some by blast
  then show ?thesis by (simp add: persist_awq_cols_def Some)
qed (simp add: persist_awq_cols_def)

lemma persist_outliers_some:
  assumes "zlib_ok e" and "candidate_ok e c"
  shows "\<exists>s' r. persist_outliers e stem c s = Inr (s', r)"
proof (cases "\<exists>p ps. cd_outlier_positions c = Some (p # ps)")
  case True
  then obtain p ps where pos: "cd_outlier_positions c = Some (p # ps)" by blast
  have ok: "storable e (cd_outlier_values c)" "length (cd_outlier_values c) = length (p # ps)" "\<forall>p \<in> set (p # ps). p < 2 ^ 64"
    using assms(2) by (auto simp: candidate_ok_def pos intro: less_trans)
  have paths: "stem @ ''.outliers.idx'' \<noteq> stem @ ''.outliers.val''" by simp
  obtain s' pd vd where "write_outliers e (stem @ ''.outliers.idx'') (stem @ ''.outliers.val'') (p # ps) (cd_outlier_values c)
      ''float16'' s = Inr (s', pd, vd)"
    using write_outliers_read [OF assms(1) ok(1) paths ok(2,3), of "''float16''" s] by auto
  then show ?thesis by (simp add: persist_outliers_def pos)
qed (auto simp: persist_outliers_def split: option.split list.split)

lemma persist_pillars_some: "candidate_complete c \<Longrightarrow> \<exists>s' r. persist_pillars e stem c s = Inr (s', r)"
  by (auto simp: persist_pillars_def candidate_complete_def write_pillars_def Let_def split: option.splits list.splits)

lemma persist_salient_some:
  assumes "candidate_ok e c"
  shows "\<exists>s' r. persist_salient e stem c s = Inr (s', r)"
proof (cases "cd_salient_indices c")
  case (Some js)
  let ?bits = "index_bits_for_size (or_nat (cd_block_scale_size c) 32)"
  obtain s' wd where "write_salient e (stem @ ''.salient.idx'') (stem @ ''.salient.val'') js (cd_salient_weights c) ?bits ''float16'' s
      = Inr (s', wd)"
    using assms write_salient_some [of ?bits js] by (simp add: candidate_ok_def Some) blast
  then show ?thesis by (simp add: persist_salient_def Some Let_def)
qed (simp add: persist_salient_def)

lemma finalize_outcome:
  assumes "zlib_ok e" and "candidate_ok e c" and "candidate_complete c"
  shows "case entry_metrics metrics (refreshed s c) of
      Inl err \<Rightarrow> finalize_entry e metrics n_stages bs tdir c s = Inl err
    | Inr m \<Rightarrow> \<exists>entry c2 freed s'. finalize_entry e metrics n_stages bs tdir c s = Inr (entry, c2, freed, s') \<and> en_metrics entry = m"
proof -
  let ?stem = "tdir @ safe_tensor_name (cd_name c)"
  obtain s1 scales where 1: "persist_scales e ?stem c s = Inr (s1, scales)" using persist_scales_some [OF assms(3)] by blast
  obtain s2 cols where 2: "persist_awq_cols e ?stem c s1 = Inr (s2, cols)" using persist_awq_cols_some by blast
  obtain s3 outl where 3: "persist_outliers e ?stem c s2 = Inr (s3, outl)" using persist_outliers_some [OF assms(1,2)] by blast
  obtain s4 pil where 4: "persist_pillars e ?stem c s3 = Inr (s4, pil)" using persist_pillars_some [OF assms(3)] by blast
  obtain s5 sal where 5: "persist_salient e ?stem c s4 = Inr (s5, sal)" using persist_salient_some [OF assms(2)] by blast
  obtain st sts where st: "cd_stages_meta c = st # sts" using assms(3) by (cases "cd_stages_meta c") (auto simp: candidate_complete_def)
  show ?thesis
    by (cases "entry_metrics metrics (refreshed s c)")
      (use 1 2 3 4 5 st in \<open>simp_all add: finalize_entry_def persist_tensor_sidecars_def persist_same Let_def build_entry_def
        release_candidate_payload_def\<close>)
qed

section \<open>Properties\<close>

text \<open>C28: Finalizing a complete candidate raises only when the metrics of a tensor without refined metrics raise;
  otherwise the entry carries the refined metrics or those computed, and what \<open>_finalize_tensor_manifest_entry\<close> writes is
  what the decoder reads through that entry: the scales (for the modes that have them, and only for those), the AWQ column
  scales, the outliers in ascending position and the salient weights of the candidate, whatever the files were before.
  The stored vectors are values that fp16 storage keeps (\<open>candidate_ok\<close>).\<close>

theorem finalized_sidecars_read_back:
  assumes "zlib_ok e" and "candidate_ok e c" and "candidate_complete c"
  shows "case finalize_entry e metrics n_stages bs tdir c s of
    Inl err \<Rightarrow> err = MetricsFail \<and> cd_refined_metrics c = None \<and> metrics (refreshed s c) = None
  | Inr (entry, c2, freed, s') \<Rightarrow>
    Some (en_metrics entry) = (case cd_refined_metrics c of Some m \<Rightarrow> Some m | None \<Rightarrow> metrics (refreshed s c)) \<and>
    (if cd_normalization c = ''awq'' \<or> stores_block_scales (cd_normalization c)
      then cd_row_scales c \<noteq> None \<and> read_scales (files_env fl e reg s') (en_meta entry) = Inr (the (cd_row_scales c))
      else tm_scales (en_meta entry) = None) \<and>
    (case tm_awq_col_scales (en_meta entry) of
        Some am \<Rightarrow> cd_awq_col_scales c \<noteq> None \<and> read_awq_cols (files_env fl e reg s') am = Inr (the (cd_awq_col_scales c))
      | None \<Rightarrow> cd_normalization c \<noteq> ''awq-block-max'' \<or> cd_awq_col_scales c = None) \<and>
    apply_outliers (files_env fl e reg s') (en_meta entry) d =
      (case cd_outlier_positions c of
         Some (p # ps) \<Rightarrow> put_values d (map (\<lambda>(p, v). (int p, v)) (sort_key fst (zip (p # ps) (cd_outlier_values c))))
       | _ \<Rightarrow> Inr d) \<and>
    apply_salient (files_env fl e reg s') (en_meta entry) d =
      (case cd_salient_indices c of
         Some js \<Rightarrow> reinject (or_nat (tm_block_scale_size (en_meta entry)) 32) (map int js) (cd_salient_weights c) d
       | None \<Rightarrow> Inr d)"
proof -
  note outcome = finalize_outcome [OF assms, where metrics = metrics and s = s and n_stages = n_stages and bs = bs and tdir = tdir]
  show ?thesis
  proof (cases "entry_metrics metrics (refreshed s c)")
    case (Inl err)
    then have "finalize_entry e metrics n_stages bs tdir c s = Inl err" using outcome by simp
    moreover have "err = MetricsFail \<and> cd_refined_metrics c = None \<and> metrics (refreshed s c) = None"
      using Inl by (auto simp: entry_metrics_def split: option.splits)
    ultimately show ?thesis by (simp only: sum.case)
  next
    case (Inr m)
    then obtain entry c2 freed s' where fin: "finalize_entry e metrics n_stages bs tdir c s = Inr (entry, c2, freed, s')"
      and m: "en_metrics entry = m" using outcome by auto
    have "Some m = (case cd_refined_metrics c of Some m \<Rightarrow> Some m | None \<Rightarrow> metrics (refreshed s c))"
      using Inr by (auto simp: entry_metrics_def split: option.splits)
    with finalized_reads [OF assms(1,2) fin, of fl reg d] show ?thesis unfolding fin sum.case prod.case m by blast
  qed
qed

text \<open>A concrete candidate: two blocks of two values, one outlier pair given in descending order, one salient entry per block.\<close>

definition whole_env :: "real env" where
  "whole_env = \<lparr>zcompress = id, zdecompress = Some, fits16 = (\<lambda>v. \<bar>v\<bar> \<le> 65504), to16 = (\<lambda>v. nat \<lfloor>v\<rfloor>), of16 = of_nat,
     to32 = (\<lambda>v. nat \<lfloor>v\<rfloor>), of32 = of_nat, torch_tie = (\<lambda>_. 0)\<rparr>"

definition demo_candidate :: "nat candidate" where
  "demo_candidate = \<lparr>cd_name = ''a.weight'', cd_shape = [2, 2], cd_packed_values = 4, cd_padded_values = 0, cd_group_size = 2,
     cd_family = ''other'', cd_normalization = ''slrq-block'', cd_row_scales = Some [3, 5], cd_awq_col_scales = None,
     cd_outlier_positions = Some [3, 1], cd_outlier_values = [7, 9], cd_pillar_positions = None, cd_pillar_values = [],
     cd_salient_indices = Some [1, 0], cd_salient_weights = [4, 6], cd_block_scale_size = Some 2, cd_rotation = None,
     cd_rotation_seed = None,
     cd_stages_meta = [\<lparr>se_meta = \<lparr>sg_codebook = ''t/a.cb'', sg_indices = ''t/a.indices'', sg_index_bits = 1,
       sg_group_size = None, sg_codebook_dtype = None, sg_packed = None, sg_encoding = None\<rparr>, se_codebook_size = 2, se_training_count = 2, se_index_bytes = 1\<rparr>],
     cd_vector_count = None, cd_mse_scale_applied = None, cd_refined_metrics = None, cd_reserved = None\<rparr>"


lemma whole_env_kept: "list_all (\<lambda>v. \<exists>n < 60000. v = real n) vs \<Longrightarrow> storable whole_env vs \<and> kept16 whole_env vs"
  by (auto simp: storable_def kept16_def stored_floats_def whole_env_def round16_def list_all_iff intro!: map_idI)

lemma whole_zlib: "zlib_ok whole_env"
  by (simp add: zlib_ok_def whole_env_def)

lemma demo_candidate_ok: "candidate_ok whole_env demo_candidate \<and> candidate_complete demo_candidate"
proof -
  have bits: "index_bits_for_size 2 = 1" by code_simp
  have whole: "\<exists>n < 60000. (numeral k :: real) = real n" if "numeral k < (60000 :: nat)" for k
    using that by (intro exI [of _ "numeral k"]) simp
  have kept: "storable whole_env vs \<and> kept16 whole_env vs" if "vs = [3, 5] \<or> vs = [7, 9] \<or> vs = [9, 7] \<or> vs = [4, 6]" for vs
    using that by (intro whole_env_kept) (auto intro!: whole)
  have order: "map snd (sort_key fst [(3 :: nat, 7 :: real), (1, 9)]) = [9, 7]" by simp
  show ?thesis
    using kept by (simp add: candidate_ok_def candidate_complete_def demo_candidate_def or_nat_def bits order)
qed

lemma finalized_sidecars_read_back_witness:
  "\<exists>entry c2 freed s'. finalize_entry whole_env (\<lambda>_. Some 0) 1 2 ''t/'' demo_candidate (\<lambda>_. None) = Inr (entry, c2, freed, s') \<and>
    read_scales (files_env (dx_floats example_env) whole_env (dx_rotations example_env) s') (en_meta entry) = Inr [3, 5] \<and>
    apply_outliers (files_env (dx_floats example_env) whole_env (dx_rotations example_env) s') (en_meta entry) [0, 0, 0, 0] = Inr [0, 9, 0, 7]"
proof -
  have norm: "stores_block_scales (cd_normalization demo_candidate)" "cd_row_scales demo_candidate = Some [3, 5]"
    "cd_outlier_positions demo_candidate = Some [3, 1]" "cd_outlier_values demo_candidate = [7, 9]"
    by (simp_all add: demo_candidate_def stores_block_scales_def BLOCK_SCALE_NORMALIZATIONS_def)
  have order: "map (\<lambda>(p, v). (int p, v)) (sort_key fst [(3 :: nat, 7 :: real), (1, 9)]) = [(1, 9), (3, 7)]" by simp
  have put: "put_values [0, 0, 0, 0 :: real] [(1, 9), (3, 7)] = Inr [0, 9, 0, 7]" by simp
  show ?thesis
    using put finalized_sidecars_read_back [OF whole_zlib demo_candidate_ok [THEN conjunct1] demo_candidate_ok [THEN conjunct2],
        where metrics = "\<lambda>_. Some 0" and n_stages = 1 and bs = 2 and tdir = "''t/''" and s = "\<lambda>_. None" and
        fl = "dx_floats example_env" and reg = "dx_rotations example_env" and d = "[0, 0, 0, 0]"]
    by (auto simp: norm order split: sum.splits prod.splits)
qed

end
