(* ===== verification/Stages.thy ===== *)
theory Stages
  imports Kmeans Manifest
begin

text \<open>
  \<open>orka/pipeline/pack_pipeline.py\<close>: the residual stages of one candidate. Every stage learns (or is given) a codebook,
  rounds it to its storage type, assigns the current residual to it, writes both files, and closes with
  the new sum and residual. Arithmetic on tensor values is exact; codebooks are float32 values.

  Learning a codebook (\<open>Kmeans\<close> with a seeded start) and the codebook cache are fields of the context. The writes are
  made at once; in the streamed mode the background writer makes the same ones before the tensor is finalized
  (\<open>Pack_Threads\<close>).
\<close>

datatype stage_error =
    StageKmeans kmeans_error | StageFormat format_error | BadStageText string | MissingResidual | GatherIndex
  | NoFamily string | WeightsIndex

record stage_ctx =
  px_n_stages :: nat
  px_stages_spec :: "stage list"
  px_family_stages :: "(string \<rightharpoonup> stage list) option"
  px_tensor_stages :: "(string \<rightharpoonup> stage list) option"
  px_sample_vectors :: "int option"
  px_codebook_dtype :: string
  px_em_aq_passes :: nat
  px_learn :: "nat \<Rightarrow> vec list \<Rightarrow> nat \<Rightarrow> vec option \<Rightarrow> real list option \<Rightarrow> kmeans_error + rat matrix"
  px_cached :: "nat \<Rightarrow> nat \<Rightarrow> rat matrix option"

record rvq =
  rv_name :: string
  rv_family :: string
  rv_group :: nat
  rv_vector_weights :: "vec option"
  rv_sample_weights :: "real list option"
  rv_orig :: "vec list"
  rv_residual :: "vec list option"
  rv_sum :: "vec list option"
  rv_data :: "(nat \<times> rat matrix \<times> nat list \<times> nat) list"
  rv_meta :: "stage_entry list"

section \<open>Which stage\<close>

definition stage_at :: "nat \<Rightarrow> stage list \<Rightarrow> stage option" where
  "stage_at i stages = (if length stages \<le> i then None else Some (stages ! i))"

text \<open>\<open>d.get(name) or d.get(base)\<close>: an empty list counts as missing under the full name only.\<close>

definition stages_for :: "(string \<rightharpoonup> stage list) \<Rightarrow> string \<Rightarrow> stage list option" where
  "stages_for m name =
     (case m name of Some (st # sts) \<Rightarrow> Some (st # sts) | _ \<Rightarrow> m (drop_weight name))"

definition stage_spec_for_candidate :: "stage_ctx \<Rightarrow> string \<Rightarrow> string \<Rightarrow> nat \<Rightarrow> stage_error + stage option" where
  "stage_spec_for_candidate px name fam i =
     (case (case px_tensor_stages px of Some m \<Rightarrow> stages_for m name | None \<Rightarrow> None) of
        Some stages \<Rightarrow> Inr (stage_at i stages)
      | None \<Rightarrow>
          (case px_family_stages px of
             Some m \<Rightarrow> (case m fam of Some stages \<Rightarrow> Inr (stage_at i stages) | None \<Rightarrow> Inl (NoFamily fam))
           | None \<Rightarrow> Inr (stage_at i (px_stages_spec px))))"

text \<open>A plane \<open>s<bits>\<close> quantizes single values, any other text or number is a codebook size.\<close>

fun stage_size :: "stage \<Rightarrow> stage_error + bool \<times> nat" where
  "stage_size (Codebook k) = Inr (False, k)"
| "stage_size (Scalar t) =
     (if starts_with t ''s'' then (if py_isdigit (drop 1 t) then Inr (True, 2 ^ digits_val (drop 1 t)) else Inl (BadStageText t))
      else if py_isdigit t then Inr (False, digits_val t)
      else Inl (BadStageText t))"

section \<open>The training rows\<close>

text \<open>\<open>np.linspace(0, n - 1, m, dtype=np.int64)\<close>\<close>

definition sample_positions :: "nat \<Rightarrow> nat \<Rightarrow> nat list" where
  "sample_positions n m = map (\<lambda>i. if m = 1 then 0 else i * (n - 1) div (m - 1)) [0..<m]"

definition sample_vectors_and_weights ::
  "vec list \<Rightarrow> real list option \<Rightarrow> int option \<Rightarrow> stage_error + vec list \<times> real list option" where
  "sample_vectors_and_weights vectors weights sample_vectors =
     (case sample_vectors of
        None \<Rightarrow> Inr (vectors, weights)
      | Some m \<Rightarrow>
          if m \<le> 0 \<or> int (length vectors) \<le> m then Inr (vectors, weights)
          else
            (let ps = sample_positions (length vectors) (nat m)
             in case weights of
                  None \<Rightarrow> Inr (map (\<lambda>p. vectors ! p) ps, None)
                | Some w \<Rightarrow>
                    if list_all (\<lambda>p. p < length w) ps then Inr (map (\<lambda>p. vectors ! p) ps, Some (map (\<lambda>p. w ! p) ps))
                    else Inl WeightsIndex))"

text \<open>\<open>sample_vectors or len(v_res)\<close>\<close>

definition cached_training_count :: "stage_ctx \<Rightarrow> nat \<Rightarrow> nat" where
  "cached_training_count px n = (case px_sample_vectors px of Some m \<Rightarrow> if m = 0 then n else nat m | None \<Rightarrow> n)"

definition acquire_codebook ::
  "stage_ctx \<Rightarrow> nat \<Rightarrow> nat \<Rightarrow> nat \<Rightarrow> vec list \<Rightarrow> vec option \<Rightarrow> real list option \<Rightarrow> stage_error + rat matrix \<times> nat" where
  "acquire_codebook px i g k v_res vw sw =
     (case (if i = 0 then px_cached px g k else None) of
        Some cb \<Rightarrow> Inr (cb, cached_training_count px (length v_res))
      | None \<Rightarrow>
          bind_err (sample_vectors_and_weights v_res sw (px_sample_vectors px)) (\<lambda>(training, sw_train).
          bind_err (lift_err StageKmeans (px_learn px i training (min k (length training)) vw sw_train)) (\<lambda>cb.
            Inr (cb, length training))))"

section \<open>One stage\<close>

definition gather :: "rat matrix \<Rightarrow> nat list \<Rightarrow> stage_error + vec list" where
  "gather cb idxs = mapM (\<lambda>j. if j < length cb then Inr (map of_rat (cb ! j)) else Inl GatherIndex) idxs"

definition plus_rows :: "vec list \<Rightarrow> vec list \<Rightarrow> vec list" where
  "plus_rows = map2 (map2 (+))"

definition minus_rows :: "vec list \<Rightarrow> vec list \<Rightarrow> vec list" where
  "minus_rows = map2 (map2 (-))"

definition stage_path :: "stage_ctx \<Rightarrow> bool \<Rightarrow> string \<Rightarrow> nat \<Rightarrow> string \<Rightarrow> string" where
  "stage_path px short_names stem i ext =
     stem @ (if short_names \<and> px_n_stages px = 1 then '''' else ''.s'' @ nat_str i) @ ext"

text \<open>
  The codebook of the stage: a shared one is already written and assigned unweighted; a tensor's own is learned,
  rounded to storage and written.
\<close>

definition stage_codebook ::
  "stage_ctx \<Rightarrow> floats \<Rightarrow> bool \<Rightarrow> string \<Rightarrow> (rat matrix \<times> string \<times> string) option \<Rightarrow> rvq \<Rightarrow> nat \<Rightarrow> bool \<Rightarrow> nat \<Rightarrow> nat
    \<Rightarrow> vec list \<Rightarrow> store \<Rightarrow> stage_error + rat matrix \<times> string \<times> string \<times> nat \<times> vec option \<times> store" where
  "stage_codebook px fl short_names stem shared c i is_scalar k g v_res s =
     (case shared of
        Some (cb, path, dtype) \<Rightarrow> Inr (cb, path, dtype, cached_training_count px (length v_res), None, s)
      | None \<Rightarrow>
          (let vw = (if is_scalar then None else rv_vector_weights c); sw = (if is_scalar then None else rv_sample_weights c);
               path = stage_path px short_names stem i ''.codebook.f32''
           in bind_err (acquire_codebook px i g k v_res vw sw) (\<lambda>(cb0, count).
              bind_err (lift_err StageFormat (cast_codebook_storage fl g cb0 (px_codebook_dtype px))) (\<lambda>(cb, dtype).
              bind_err (lift_err StageFormat (write_codebook fl path g cb dtype s)) (\<lambda>s'.
                Inr (cb, path, dtype, count, vw, s'))))))"

definition close_stage :: "rvq \<Rightarrow> bool \<Rightarrow> vec list \<Rightarrow> rvq" where
  "close_stage c is_scalar decoded_raw =
     (let decoded = (if is_scalar then blocks_of (rv_group c) (concat decoded_raw) else decoded_raw);
          acc = (case rv_sum c of None \<Rightarrow> decoded | Some d \<Rightarrow> plus_rows d decoded)
      in c\<lparr>rv_sum := Some acc, rv_residual := Some (minus_rows (rv_orig c) acc)\<rparr>)"

text \<open>After the last stage of a refined tensor the residual and the sum are dropped (a giant tensor would keep its sum).\<close>

definition drop_stage_state :: "stage_ctx \<Rightarrow> bool \<Rightarrow> nat \<Rightarrow> rvq \<Rightarrow> rvq" where
  "drop_stage_state px em_aq_cleanup i c =
     (if em_aq_cleanup \<and> 1 < px_n_stages px \<and> 0 < px_em_aq_passes px \<and> i = px_n_stages px - 1
      then c\<lparr>rv_residual := None, rv_sum := None\<rparr> else c)"

definition quantize_stage ::
  "stage_ctx \<Rightarrow> floats \<Rightarrow> real env \<Rightarrow> bool \<Rightarrow> bool \<Rightarrow> string \<Rightarrow> (rat matrix \<times> string \<times> string) option \<Rightarrow> nat \<Rightarrow> stage
    \<Rightarrow> rvq \<times> store \<Rightarrow> stage_error + rvq \<times> store" where
  "quantize_stage px fl e short_names em_aq_cleanup stem shared i spec st =
     (case st of (c, s) \<Rightarrow>
        bind_err (stage_size spec) (\<lambda>(is_scalar, k).
        case rv_residual c of
          None \<Rightarrow> Inl MissingResidual
        | Some res \<Rightarrow>
            (let v_res = (if is_scalar then map (\<lambda>x. [x]) (concat res) else res); g = (if is_scalar then 1 else rv_group c)
             in bind_err (stage_codebook px fl short_names stem shared c i is_scalar k g v_res s) (\<lambda>(cb, cb_path, dtype, count, vw, s1).
                bind_err (lift_err StageKmeans (numpy_assign v_res (map (map of_rat) cb) 65536 None vw False)) (\<lambda>(idxs, _).
                (let bits = index_bits_for_size (length cb); idx_path = stage_path px short_names stem i ''.indices''
                 in bind_err (lift_err StageFormat (write_indices e idx_path idxs bits None s1)) (\<lambda>(s2, _, encoding).
                    bind_err (gather cb idxs) (\<lambda>decoded_raw.
                    (let c1 = close_stage c is_scalar decoded_raw;
                         meta = \<lparr>se_meta = \<lparr>sg_codebook = cb_path, sg_indices = idx_path, sg_index_bits = bits,
                             sg_group_size = Some g, sg_codebook_dtype = Some dtype, sg_packed = Some (bits mod 8 \<noteq> 0),
                             sg_encoding = Some encoding\<rparr>,
                           se_codebook_size = length cb, se_training_count = count, se_index_bytes = file_size idx_path s2\<rparr>
                     in Inr (drop_stage_state px em_aq_cleanup i
                          (c1\<lparr>rv_data := rv_data c @ [(i, cb, idxs, g)], rv_meta := rv_meta c @ [meta]\<rparr>), s2))))))))))"

text \<open>The stage loop of \<open>process_streamed_per_tensor_candidate\<close>.\<close>

definition run_stage :: "stage_ctx \<Rightarrow> floats \<Rightarrow> real env \<Rightarrow> string \<Rightarrow> rvq \<times> store \<Rightarrow> nat \<Rightarrow> stage_error + rvq \<times> store" where
  "run_stage px fl e stem st i =
     bind_err (stage_spec_for_candidate px (rv_name (fst st)) (rv_family (fst st)) i) (\<lambda>spec.
       case spec of None \<Rightarrow> Inr st | Some k \<Rightarrow> quantize_stage px fl e True True stem None i k st)"

definition run_stages :: "stage_ctx \<Rightarrow> floats \<Rightarrow> real env \<Rightarrow> string \<Rightarrow> rvq \<times> store \<Rightarrow> stage_error + rvq \<times> store" where
  "run_stages px fl e stem st = foldM (run_stage px fl e stem) st [0..<px_n_stages px]"


section \<open>Stored codebooks\<close>

text \<open>What learning returns: a non-empty matrix of float32 values, one row of the group's width per centroid.\<close>

definition codebook_ok :: "floats \<Rightarrow> nat \<Rightarrow> rat matrix \<Rightarrow> bool" where
  "codebook_ok fl g cb \<longleftrightarrow> cb \<noteq> [] \<and> length cb \<le> 2 ^ 32 \<and> (\<forall>row \<in> set cb. length row = g \<and> (\<forall>x \<in> set row. r32 fl x = x))"

definition codebook_file :: "floats \<Rightarrow> nat \<Rightarrow> rat matrix \<Rightarrow> string \<Rightarrow> string \<Rightarrow> store \<Rightarrow> bool" where
  "codebook_file fl g cb dtype p s \<longleftrightarrow> read_codebook fl p g dtype s = Inr cb"

lemma codebook_file_cong: "s p = s' p \<Longrightarrow> codebook_file fl g cb dtype p s = codebook_file fl g cb dtype p s'"
  by (simp add: codebook_file_def read_codebook_def)

lemma read_float_codebook:
  assumes "s p = Some (array_bytes k vs)" and "k = (if dt = ''<f2'' then 2 else 4)" and "dt = ''<f2'' \<or> dt = ''<f4''"
    and "float_value_dtype dtype = Inr dt" and "dtype \<noteq> ''int8''" and "\<forall>v \<in> set vs. v < 256 ^ k"
    and "map (if dt = ''<f2'' then val16 fl else val32 fl) vs = concat cb" and "\<forall>row \<in> set cb. length row = g" and "0 < g"
  shows "read_codebook fl p g dtype s = Inr cb"
proof -
  have k: "itemsize dt = k" "0 < k" using assms(2,3) by auto
  have len: "length (array_bytes k vs) = k * length vs" by simp
  then have "take (length (array_bytes k vs) div k * k) (array_bytes k vs) = array_bytes k vs" using k by simp
  then have arr: "array_of_bytes k (take (length (array_bytes k vs) div k * k) (array_bytes k vs)) = vs"
    using array_roundtrip [OF k(2) assms(6)] by simp
  have "length (concat cb) mod g = 0" using assms(8) by (induction cb) auto
  then have "reshape_rows g (concat cb) = Inr cb" using assms(8,9) by (simp add: reshape_rows_def blocks_of_concat)
  then show ?thesis unfolding read_codebook_def assms(1) option.case
    using assms(4,5,7) arr k(1) by simp
qed

lemma stored_codebook:
  assumes "float_laws fl" and "codebook_ok fl g cb0" and "0 < g" and "dtype0 = ''float16'' \<or> dtype0 = ''float32''"
  shows "\<exists>cb dtype. cast_codebook_storage fl g cb0 dtype0 = Inr (cb, dtype) \<and> length cb = length cb0 \<and>
    (\<forall>row \<in> set cb. length row = g) \<and> (dtype = ''float16'' \<or> dtype = ''float32'') \<and>
    (\<exists>bs. \<forall>s. write_codebook fl p g cb dtype s = Inr (s(p \<mapsto> bs)) \<and> codebook_file fl g cb dtype p (s(p \<mapsto> bs)))"
proof (cases "dtype0 = ''float16'' \<and> \<not> list_ex (\<lambda>x. \<bar>x\<bar> > 65504) (concat cb0)")
  case True
  let ?cb = "map (map (r16 fl)) cb0"
  have rows: "\<forall>row \<in> set ?cb. length row = g" using assms(2) by (auto simp: codebook_ok_def)
  let ?vs = "map (bits16 fl \<circ> r16 fl) (concat ?cb)"
  have small: "\<forall>v \<in> set ?vs. v < 256 ^ 2" using assms(1) by (auto simp: float_laws_def)
  have "map (val16 fl) ?vs = concat ?cb"
    unfolding map_map by (rule map_idI) (use assms(1) in \<open>auto simp: float_laws_def\<close>)
  then have "codebook_file fl g ?cb ''float16'' p (s(p \<mapsto> array_bytes 2 ?vs))" for s
    unfolding codebook_file_def
    using rows small assms(3) by (intro read_float_codebook [where dt = "''<f2''" and vs = ?vs and k = 2]) auto
  moreover have "write_codebook fl p g ?cb ''float16'' s = Inr (s(p \<mapsto> array_bytes 2 ?vs))" for s
    by (simp add: write_codebook_def)
  moreover have "cast_codebook_storage fl g cb0 dtype0 = Inr (?cb, ''float16'')"
    using True by (simp add: cast_codebook_storage_def)
  ultimately show ?thesis using rows by (intro exI [of _ ?cb] exI [of _ "''float16''"]) auto
next
  case False
  have rows: "\<forall>row \<in> set cb0. length row = g" using assms(2) by (auto simp: codebook_ok_def)
  let ?vs = "map (bits32 fl) (concat cb0)"
  have small: "\<forall>v \<in> set ?vs. v < 256 ^ 4" using assms(1) by (auto simp: float_laws_def)
  have "map (val32 fl) ?vs = concat cb0"
    unfolding map_map
  proof (rule map_idI)
    fix x assume "x \<in> set (concat cb0)"
    then have "r32 fl x = x" using assms(2) by (auto simp: codebook_ok_def)
    then show "(val32 fl \<circ> bits32 fl) x = x" using assms(1) unfolding float_laws_def comp_def by metis
  qed
  then have "codebook_file fl g cb0 ''float32'' p (s(p \<mapsto> array_bytes 4 ?vs))" for s
    unfolding codebook_file_def
    using rows small assms(3) by (intro read_float_codebook [where dt = "''<f4''" and vs = ?vs and k = 4]) auto
  moreover have "write_codebook fl p g cb0 ''float32'' s = Inr (s(p \<mapsto> array_bytes 4 ?vs))" for s
    by (simp add: write_codebook_def)
  moreover have "cast_codebook_storage fl g cb0 dtype0 = Inr (cb0, ''float32'')"
    using False assms(4) by (auto simp: cast_codebook_storage_def)
  ultimately show ?thesis using rows by (intro exI [of _ cb0] exI [of _ "''float32''"]) auto
qed

section \<open>Assignment of a stage\<close>

lemma numpy_assign_plain:
  assumes "shaped D rows cs W" and "cs \<noteq> []" and "rows \<noteq> []" and "0 < D"
  shows "\<exists>a. numpy_assign rows cs 65536 None W False = Inr (a, 0) \<and> nearest W rows cs a"
proof -
  obtain a m where "numpy_assign rows cs 65536 None W True = Inr (a, m)" "nearest W rows cs a"
    using numpy_assign_nearest [OF assms, of None 65536] by (auto simp: norms_match_def)
  then show ?thesis by (auto simp: numpy_assign_def Let_def split: if_splits)
qed

lemma gather_near:
  assumes "nearest W rows (map (map of_rat) cb) a"
  shows "gather cb a = Inr (map (\<lambda>j. map of_rat (cb ! j)) a)" and "list_all (\<lambda>j. j < length cb) a" and "length a = length rows"
proof -
  have less: "a ! i < length cb" if "i < length a" for i using assms that by (simp add: nearest_def)
  then have all: "\<forall>j \<in> set a. j < length cb" by (auto simp: in_set_conv_nth)
  then show "list_all (\<lambda>j. j < length cb) a" by (simp add: list_all_iff)
  show "gather cb a = Inr (map (\<lambda>j. map of_rat (cb ! j)) a)" unfolding gather_def using all by (intro mapM_Inr) auto
  show "length a = length rows" using assms by (simp add: nearest_def)
qed


section \<open>The training sample\<close>

lemma sample_positions_less:
  assumes "p \<in> set (sample_positions n m)" and "m < n"
  shows "p < n"
proof (cases "m = 1")
  case False
  then obtain i where i: "p = i * (n - 1) div (m - 1)" "i < m" using assms(1) by (auto simp: sample_positions_def)
  then have m: "0 < m - 1" "i \<le> m - 1" using False by auto
  then have "i * (n - 1) div (m - 1) \<le> (m - 1) * (n - 1) div (m - 1)" by (intro div_le_mono mult_right_mono) auto
  then show ?thesis using m(1) assms(2) i(1) by simp
qed (use assms in \<open>auto simp: sample_positions_def\<close>)

definition weights_fit :: "real list option \<Rightarrow> nat \<Rightarrow> bool" where
  "weights_fit w n \<longleftrightarrow> (case w of Some vs \<Rightarrow> length vs = n \<and> list_all (\<lambda>v. 0 \<le> v) vs | None \<Rightarrow> True)"

lemma sample_ok:
  assumes "rows \<noteq> []" and "\<forall>r \<in> set rows. length r = D" and "weights_fit sw (length rows)"
  shows "\<exists>tr sw'. sample_vectors_and_weights rows sw sv = Inr (tr, sw') \<and> tr \<noteq> [] \<and> (\<forall>r \<in> set tr. length r = D) \<and>
    weights_fit sw' (length tr) \<and> length tr \<le> length rows"
proof (cases "\<exists>m. sv = Some m \<and> \<not> (m \<le> 0 \<or> int (length rows) \<le> m)")
  case False
  then show ?thesis using assms by (auto simp: sample_vectors_and_weights_def split: option.splits)
next
  case True
  then obtain m where m: "sv = Some m" "0 < nat m" "nat m < length rows" by (auto simp: not_le zless_nat_eq_int_zless)
  let ?ps = "sample_positions (length rows) (nat m)"
  have len: "length ?ps = nat m" by (simp add: sample_positions_def)
  moreover have "?ps \<noteq> []" using len m(2) by (metis less_nat_zero_code list.size(3))
  moreover have "\<forall>p \<in> set ?ps. p < length rows" using sample_positions_less [OF _ m(3)] by blast
  ultimately have ps: "\<forall>p \<in> set ?ps. p < length rows" "length ?ps = nat m" "?ps \<noteq> []" by blast+
  have nm: "\<not> (m \<le> 0 \<or> int (length rows) \<le> m)" using m by linarith
  have tr: "\<forall>r \<in> set (map (\<lambda>p. rows ! p) ?ps). length r = D" using ps(1) assms(2) by auto
  show ?thesis
  proof (cases sw)
    case None
    then show ?thesis using m nm tr ps by (simp add: sample_vectors_and_weights_def weights_fit_def)
  next
    case (Some w)
    then have w: "length w = length rows" "\<forall>v \<in> set w. 0 \<le> v" using assms(3) by (auto simp: weights_fit_def list_all_iff)
    have "\<forall>v \<in> set (map (\<lambda>p. w ! p) ?ps). 0 \<le> v" using ps(1) w by auto
    then show ?thesis
      using Some m nm tr ps w(1) by (simp add: sample_vectors_and_weights_def weights_fit_def list_all_iff Let_def)
  qed
qed

text \<open>What learning a codebook promises: on proper training rows and weights it returns a codebook.\<close>

definition learner_ok :: "floats \<Rightarrow> stage_ctx \<Rightarrow> bool" where
  "learner_ok fl px \<longleftrightarrow>
     (\<forall>i rows k vw sw D. rows \<noteq> [] \<and> (\<forall>r \<in> set rows. length r = D) \<and> 0 < D \<and> 0 < k \<and> k \<le> length rows \<and>
        weights_fit vw D \<and> weights_fit sw (length rows)
        \<longrightarrow> (\<exists>cb. px_learn px i rows k vw sw = Inr cb \<and> codebook_ok fl D cb)) \<and>
     (\<forall>D k cb. px_cached px D k = Some cb \<longrightarrow> codebook_ok fl D cb)"

lemma acquire_ok:
  assumes "learner_ok fl px" and "rows \<noteq> []" and "\<forall>r \<in> set rows. length r = D" and "0 < D" and "0 < k"
    and "weights_fit vw D" and "weights_fit sw (length rows)"
  shows "\<exists>cb n. acquire_codebook px i D k rows vw sw = Inr (cb, n) \<and> codebook_ok fl D cb"
proof (cases "\<exists>cb. i = 0 \<and> px_cached px D k = Some cb")
  case True
  then show ?thesis using assms(1) by (auto simp: acquire_codebook_def learner_ok_def)
next
  case False
  obtain tr sw' where tr: "sample_vectors_and_weights rows sw (px_sample_vectors px) = Inr (tr, sw')" "tr \<noteq> []"
    "\<forall>r \<in> set tr. length r = D" "weights_fit sw' (length tr)"
    using sample_ok [OF assms(2,3,7)] by blast
  have k: "0 < min k (length tr)" "min k (length tr) \<le> length tr" using assms(5) tr(2) by auto
  have "\<exists>cb. px_learn px i tr (min k (length tr)) vw sw' = Inr cb \<and> codebook_ok fl D cb"
    using assms(1) [unfolded learner_ok_def, THEN conjunct1, rule_format, of tr D "min k (length tr)" vw sw' i] assms(4,6) tr(2-4) k
    by blast
  then obtain cb where cb: "px_learn px i tr (min k (length tr)) vw sw' = Inr cb" "codebook_ok fl D cb" by blast
  have none: "(if i = 0 then px_cached px D k else None) = None" using False by auto
  show ?thesis unfolding acquire_codebook_def none option.case tr(1) by (simp add: cb)
qed


section \<open>Files of the stages\<close>

lemma nat_str_inject [simp]: "nat_str i = nat_str j \<longleftrightarrow> i = j"
  by (metis digits_val_nat_str)

lemma stage_path_neq:
  assumes "i < px_n_stages px" and "j < i"
  shows "stage_path px sn stem j ext \<noteq> stage_path px sn stem i ext"
  using assms by (auto simp: stage_path_def)

lemma codebook_not_indices: "stage_path px sn stem i ''.codebook.f32'' \<noteq> stage_path px sn stem j ''.indices''"
proof
  assume "stage_path px sn stem i ''.codebook.f32'' = stage_path px sn stem j ''.indices''"
  then have "last (stage_path px sn stem i ''.codebook.f32'') = last (stage_path px sn stem j ''.indices'')" by simp
  then show False by (simp add: stage_path_def)
qed

definition stage_files :: "stage_ctx \<Rightarrow> string \<Rightarrow> nat \<Rightarrow> string set" where
  "stage_files px stem i = {stage_path px True stem i ''.codebook.f32'', stage_path px True stem i ''.indices''}"

lemma stage_files_disjoint:
  assumes "i < px_n_stages px" and "j < i"
  shows "stage_files px stem j \<inter> stage_files px stem i = {}"
  using stage_path_neq [OF assms, of True stem] codebook_not_indices [of px True stem]
  by (auto simp: stage_files_def)

section \<open>What the files decode to\<close>

definition stage_flat :: "rat matrix \<Rightarrow> nat list \<Rightarrow> real list" where
  "stage_flat cb idxs = concat (map (\<lambda>j. map of_rat (cb ! j)) idxs)"

definition total_flat :: "nat \<Rightarrow> (nat \<times> rat matrix \<times> nat list \<times> nat) list \<Rightarrow> real list" where
  "total_flat n data = foldl (\<lambda>acc (i, cb, idxs, g). map2 (+) acc (stage_flat cb idxs)) (replicate n 0) data"

definition stage_readable ::
  "decode_env \<Rightarrow> nat \<Rightarrow> nat \<Rightarrow> stage_entry \<Rightarrow> nat \<times> rat matrix \<times> nat list \<times> nat \<Rightarrow> bool" where
  "stage_readable x g n st d \<longleftrightarrow>
     (case d of (i, cb, idxs, sg) \<Rightarrow>
        read_stage_arrays x (se_meta st) g n = Inr (map (map of_rat) cb, map int idxs) \<and>
        list_all (\<lambda>j. j < length cb) idxs \<and> length (stage_flat cb idxs) = n)"

lemma total_flat_snoc [simp]:
  "total_flat n (data @ [(i, cb, idxs, g)]) = map2 (+) (total_flat n data) (stage_flat cb idxs)"
  by (simp add: total_flat_def)

lemma py_get_rows:
  "list_all (\<lambda>j. j < length cb) idxs \<Longrightarrow> mapM (py_get err cb) (map int idxs) = Inr (map (\<lambda>j. cb ! j) idxs)"
  by (induction idxs) (auto simp: py_get_nat)

lemma decode_stage_list:
  assumes "list_all2 (stage_readable x g n) metas data" and "length acc = n"
  shows "foldM (\<lambda>acc st. bind_err (read_stage_arrays x st g n) (\<lambda>(cb, idxs).
      bind_err (mapM (py_get BadIndex cb) idxs) (\<lambda>rows. add_into acc (concat rows)))) acc (map se_meta metas)
    = Inr (foldl (\<lambda>acc (i, cb, idxs, g). map2 (+) acc (stage_flat cb idxs)) acc data)"
  using assms
proof (induction arbitrary: acc rule: list_all2_induct)
  case (Cons st metas d data)
  obtain i cb idxs sg where d: "d = (i, cb, idxs, sg)" by (cases d)
  have st: "read_stage_arrays x (se_meta st) g n = Inr (map (map of_rat) cb, map int idxs)"
    "list_all (\<lambda>j. j < length cb) idxs" "length (stage_flat cb idxs) = n"
    using Cons.hyps(1) by (simp_all add: stage_readable_def d)
  have rows: "map (\<lambda>j. map (map of_rat) cb ! j) idxs = map (\<lambda>j. map of_rat (cb ! j)) idxs"
    using st(2) by (auto simp: list_all_iff)
  have got: "mapM (py_get BadIndex (map (map of_rat) cb)) (map int idxs) = Inr (map (\<lambda>j. map of_rat (cb ! j)) idxs)"
    using py_get_rows [of "map (map of_rat) cb" idxs BadIndex] st(2) unfolding rows by simp
  have "bind_err (read_stage_arrays x (se_meta st) g n) (\<lambda>(cb, idxs).
      bind_err (mapM (py_get BadIndex cb) idxs) (\<lambda>rows. add_into acc (concat rows))) = Inr (map2 (+) acc (stage_flat cb idxs))"
    unfolding st(1) bind_err_simps prod.case got add_into_def
    using st(3) Cons.prems by (simp add: stage_flat_def)
  then show ?case
    using st(3) Cons.prems Cons.IH [of "map2 (+) acc (stage_flat cb idxs)"] by (simp only: d list.map foldM.simps bind_err_simps prod.case) simp
qed simp

lemma decode_stages_total:
  assumes "list_all2 (stage_readable x g n) metas data" and "metas \<noteq> []" and "0 < g" and "g dvd n"
    and "tm_stages tm = map se_meta metas" and "tm_group_size tm = g" and "tm_padded_values tm = n"
  shows "decode_stages x tm = Inr (total_flat n data)"
proof -
  have n: "ceil_div n g * g = n" using assms(3,4) by (auto simp: ceil_div_exact mult.commute [of g])
  have "resolve_stages tm = Inr (map se_meta metas)" using assms(2,5) by (simp add: resolve_stages_def)
  then show ?thesis
    using decode_stage_list [OF assms(1), of "replicate n 0"] assms(3,6,7) n
    by (simp add: decode_stages_def total_flat_def)
qed

lemma length_total_flat:
  assumes "list_all2 (stage_readable x g n) metas data"
  shows "length (total_flat n data) = n"
proof -
  have "length (foldl (\<lambda>acc (i, cb, idxs, g). map2 (+) acc (stage_flat cb idxs)) acc data) = n" if "length acc = n" for acc
    using assms that
    by (induction arbitrary: acc rule: list_all2_induct) (auto simp: stage_readable_def split: prod.splits)
  then show ?thesis by (simp add: total_flat_def)
qed


section \<open>Rows and their flat values\<close>

text \<open>The rows a stage assigns: the residual's rows, or its single values.\<close>

definition stage_rows :: "bool \<Rightarrow> vec list \<Rightarrow> vec list" where
  "stage_rows is_scalar res = (if is_scalar then map (\<lambda>x. [x]) (concat res) else res)"

lemma stage_rows_shape:
  assumes "rows_shape g m res" and "0 < m" and "0 < g"
  shows "rows_shape (if b then 1 else g) (if b then m * g else m) (stage_rows b res)" and "stage_rows b res \<noteq> []"
proof -
  show shape: "rows_shape (if b then 1 else g) (if b then m * g else m) (stage_rows b res)"
    using assms(1) rows_shape_concat [OF assms(1)] by (auto simp: stage_rows_def rows_shape_def)
  then have "length (stage_rows b res) \<noteq> 0" using assms by (cases b) (auto simp: rows_shape_def)
  then show "stage_rows b res \<noteq> []" by auto
qed

lemma decoded_shape:
  assumes "\<forall>row \<in> set cb. length row = (if b then 1 else g)" and "list_all (\<lambda>j. j < length cb) a"
    and "length a = (if b then m * g else m)" and "0 < g"
  defines "raw \<equiv> map (\<lambda>j. map real_of_rat (cb ! j)) a"
  defines "dec \<equiv> (if b then blocks_of g (concat raw) else raw)"
  shows "rows_shape g m dec" and "concat dec = stage_flat cb a" and "length (stage_flat cb a) = m * g"
proof -
  have raw: "rows_shape (if b then 1 else g) (if b then m * g else m) raw"
    using assms(1-3) by (auto simp: rows_shape_def raw_def list_all_iff)
  have len: "length (concat raw) = m * g" using rows_shape_concat [OF raw] by (cases b) simp_all
  then show "length (stage_flat cb a) = m * g" by (simp add: stage_flat_def raw_def)
  have "g dvd length (concat raw)" using len by simp
  then have blocks: "rows_shape g m (blocks_of g (concat raw))"
    using blocks_of_dvd [OF assms(4), of "concat raw"] len assms(4) by (simp add: rows_shape_def)
  then show "rows_shape g m dec" using raw by (simp add: dec_def split: if_splits)
  show "concat dec = stage_flat cb a"
    using concat_blocks_of [OF assms(4), of "concat raw"] by (simp add: dec_def stage_flat_def raw_def)
qed

lemma index_bits_hold:
  assumes "c \<le> 2 ^ 32"
  shows "index_bits_for_size c \<le> 64" and "j < c \<Longrightarrow> j < 2 ^ index_bits_for_size c"
proof -
  have "clog2 c \<le> 32" using assms by (simp add: clog2_le_iff)
  then show "index_bits_for_size c \<le> 64" by (simp add: index_bits_for_size_def)
  assume "j < c"
  moreover have "c \<le> 2 ^ clog2 c" by (rule clog2_upper)
  ultimately show "j < 2 ^ index_bits_for_size c" by (auto simp: index_bits_for_size_def)
qed

section \<open>One stage keeps the invariant\<close>

lemma stage_codebook_ok:
  assumes "float_laws fl" and "learner_ok fl px" and "px_codebook_dtype px = ''float16'' \<or> px_codebook_dtype px = ''float32''"
    and "rows_shape D (length rows) rows" and "rows \<noteq> []" and "0 < D" and "0 < k"
    and "b \<or> weights_fit (rv_vector_weights c) D \<and> weights_fit (rv_sample_weights c) (length rows)"
    and p: "p = stage_path px sn stem i ''.codebook.f32''"
  shows "\<exists>cb dtype n s1. stage_codebook px fl sn stem None c i b k D rows s =
      Inr (cb, p, dtype, n, if b then None else rv_vector_weights c, s1) \<and>
    cb \<noteq> [] \<and> length cb \<le> 2 ^ 32 \<and> (\<forall>row \<in> set cb. length row = D) \<and>
    (dtype = ''float16'' \<or> dtype = ''float32'') \<and> codebook_file fl D cb dtype p s1 \<and>
    (\<forall>q. q \<noteq> p \<longrightarrow> s1 q = s q)"
proof -
  let ?vw = "if b then None else rv_vector_weights c" and ?sw = "if b then None else rv_sample_weights c"
  have w: "weights_fit ?vw D" "weights_fit ?sw (length rows)" using assms(8) by (auto simp: weights_fit_def)
  have rows: "\<forall>r \<in> set rows. length r = D" using assms(4) by (simp add: rows_shape_def)
  obtain cb0 n where cb0: "acquire_codebook px i D k rows ?vw ?sw = Inr (cb0, n)" "codebook_ok fl D cb0"
    using acquire_ok [OF assms(2,5) rows assms(6,7) w] by blast
  obtain cb dtype bs where cb: "cast_codebook_storage fl D cb0 (px_codebook_dtype px) = Inr (cb, dtype)" "length cb = length cb0"
    "\<forall>row \<in> set cb. length row = D" "dtype = ''float16'' \<or> dtype = ''float32''"
    "\<And>s. write_codebook fl p D cb dtype s = Inr (s(p \<mapsto> bs))" "codebook_file fl D cb dtype p (s(p \<mapsto> bs))"
    using stored_codebook [OF assms(1) cb0(2) assms(6,3), of p] by blast
  have "stage_codebook px fl sn stem None c i b k D rows s = Inr (cb, p, dtype, n, ?vw, s(p \<mapsto> bs))"
    by (simp add: stage_codebook_def cb0(1) cb(1) cb(5) p [symmetric] Let_def)
  moreover have "cb \<noteq> []" "length cb \<le> 2 ^ 32" using cb(2) cb0(2) by (auto simp: codebook_ok_def)
  ultimately show ?thesis using cb(3,4,6) by (intro exI [of _ cb] exI [of _ dtype] exI [of _ n] exI [of _ "s(p \<mapsto> bs)"]) simp
qed


text \<open>The state before stage \<open>i\<close>: the files read back as the stages done so far, and the residual is what they leave.\<close>

definition rvq_inv :: "stage_ctx \<Rightarrow> decode_env \<Rightarrow> string \<Rightarrow> rvq \<Rightarrow> nat \<Rightarrow> rvq \<Rightarrow> bool" where
  "rvq_inv px x stem c0 i c \<longleftrightarrow>
     (let g = rv_group c0; m = length (rv_orig c0); orig = rv_orig c0; tot = total_flat (m * g) (rv_data c)
      in rv_orig c = orig \<and> rv_group c = g \<and> rv_name c = rv_name c0 \<and> rv_family c = rv_family c0 \<and>
         rv_vector_weights c = rv_vector_weights c0 \<and> rv_sample_weights c = rv_sample_weights c0 \<and>
         list_all2 (stage_readable x g (m * g)) (rv_meta c) (rv_data c) \<and>
         (\<forall>st \<in> set (rv_meta c). \<exists>j < i. sg_codebook (se_meta st) \<in> stage_files px stem j \<and> sg_indices (se_meta st) \<in> stage_files px stem j) \<and>
         (i < px_n_stages px \<longrightarrow> rv_residual c \<noteq> None) \<and>
         (case rv_residual c of None \<Rightarrow> True | Some res \<Rightarrow> rows_shape g m res \<and> concat res = map2 (-) (concat orig) tot) \<and>
         (case rv_sum c of None \<Rightarrow> rv_residual c = None \<or> rv_data c = [] | Some d \<Rightarrow> rows_shape g m d \<and> concat d = tot))"

text \<open>What a stage records of itself: its files, the storage of its codebook and of its indices.\<close>

definition stage_wf ::
  "stage_ctx \<Rightarrow> string \<Rightarrow> nat \<Rightarrow> nat \<Rightarrow> nat \<Rightarrow> stage_entry \<Rightarrow> nat \<times> rat matrix \<times> nat list \<times> nat \<Rightarrow> bool" where
  "stage_wf px stem g m i st d \<longleftrightarrow>
     (case d of (j, cb, idxs, sg) \<Rightarrow>
        j = i \<and> (sg = g \<or> sg = 1) \<and> (\<forall>row \<in> set cb. length row = sg) \<and> cb \<noteq> [] \<and> length idxs * sg = m * g \<and>
        length cb \<le> se_codebook_size st \<and> min (se_codebook_size st) (length idxs) \<le> length cb \<and> se_codebook_size st \<le> 2 ^ 32 \<and>
        sg_codebook (se_meta st) = stage_path px True stem i ''.codebook.f32'' \<and>
        sg_indices (se_meta st) = stage_path px True stem i ''.indices'' \<and>
        sg_index_bits (se_meta st) = index_bits_for_size (se_codebook_size st) \<and> sg_group_size (se_meta st) = Some sg \<and>
        sg_packed (se_meta st) = Some (sg_index_bits (se_meta st) mod 8 \<noteq> 0) \<and>
        (sg_encoding (se_meta st) = Some ''zlib'' \<or> sg_encoding (se_meta st) = Some ''raw'') \<and>
        (sg_codebook_dtype (se_meta st) = Some ''float16'' \<or> sg_codebook_dtype (se_meta st) = Some ''float32''))"

definition candidate_rows_ok :: "rvq \<Rightarrow> bool" where
  "candidate_rows_ok c \<longleftrightarrow> rv_orig c \<noteq> [] \<and> 0 < rv_group c \<and> rows_shape (rv_group c) (length (rv_orig c)) (rv_orig c) \<and>
     weights_fit (rv_vector_weights c) (rv_group c) \<and> weights_fit (rv_sample_weights c) (length (rv_orig c))"

lemma read_stage_cong:
  assumes "dx_files x (sg_codebook st) = dx_files y (sg_codebook st)" and "dx_files x (sg_indices st) = dx_files y (sg_indices st)"
    and "dx_floats x = dx_floats y" and "dx_env x = dx_env y"
  shows "read_stage_arrays x st g n = read_stage_arrays y st g n"
proof -
  have "read_codebook fl (sg_codebook st) D dt (dx_files x) = read_codebook fl (sg_codebook st) D dt (dx_files y)" for fl D dt
    by (simp add: read_codebook_def assms(1))
  moreover have "read_indices e (sg_indices st) bits k packed enc (dx_files x) = read_indices e (sg_indices st) bits k packed enc (dx_files y)"
    for e :: "real env" and bits k packed enc
    by (simp add: read_indices_def assms(2))
  ultimately show ?thesis by (simp only: read_stage_arrays_def assms(3,4))
qed

lemma shaped_stage:
  assumes "rows_shape D (length rows) rows" and "\<forall>row \<in> set cb. length row = D" and "b \<or> weights_fit vw D"
  shows "shaped D rows (map (map real_of_rat) cb) (if b then None else vw)"
  using assms by (auto simp: shaped_def rows_shape_def weights_fit_def list_all_iff split: option.splits)

lemma close_stage_ok:
  assumes "case rv_sum c of None \<Rightarrow> tot = replicate (m * g) 0 | Some d \<Rightarrow> rows_shape g m d \<and> concat d = tot"
    and "rows_shape g m (if b then blocks_of (rv_group c) (concat raw) else raw)"
    and "concat (if b then blocks_of (rv_group c) (concat raw) else raw) = fl" and "rows_shape g m (rv_orig c)" and "length fl = m * g"
  shows "\<exists>d r. close_stage c b raw = c\<lparr>rv_sum := Some d, rv_residual := Some r\<rparr> \<and> rows_shape g m d \<and> concat d = map2 (+) tot fl \<and>
    rows_shape g m r \<and> concat r = map2 (-) (concat (rv_orig c)) (map2 (+) tot fl)"
proof -
  let ?dec = "if b then blocks_of (rv_group c) (concat raw) else raw"
  define acc where "acc = (case rv_sum c of None \<Rightarrow> ?dec | Some d \<Rightarrow> plus_rows d ?dec)"
  have zero: "map2 (+) (replicate (m * g) (0 :: real)) fl = fl"
    using assms(5) by (intro nth_equalityI) auto
  have acc: "rows_shape g m acc \<and> concat acc = map2 (+) tot fl"
    using assms(1) concat_row_op [OF _ assms(2), of _ "(+)"] assms(2,3) zero
    by (cases "rv_sum c") (auto simp: acc_def plus_rows_def)
  have "close_stage c b raw = c\<lparr>rv_sum := Some acc, rv_residual := Some (minus_rows (rv_orig c) acc)\<rparr>"
    by (simp only: close_stage_def Let_def acc_def)
  then show ?thesis
    using acc concat_row_op [OF assms(4), of acc "(-)"] by (auto simp: minus_rows_def)
qed

lemma quantize_stage_ok:
  assumes laws: "float_laws (dx_floats x)" "zlib_ok (dx_env x)" "learner_ok (dx_floats x) px"
      "px_codebook_dtype px = ''float16'' \<or> px_codebook_dtype px = ''float32''"
    and c0: "candidate_rows_ok c0" and inv: "rvq_inv px (x\<lparr>dx_files := s\<rparr>) stem c0 i c" and i: "i < px_n_stages px"
    and spec: "stage_size spec = Inr (b, k)" "0 < k"
  shows "\<exists>c' s'. quantize_stage px (dx_floats x) (dx_env x) True True stem None i spec (c, s) = Inr (c', s') \<and>
    rvq_inv px (x\<lparr>dx_files := s'\<rparr>) stem c0 (Suc i) c' \<and>
    (\<exists>st d. rv_meta c' = rv_meta c @ [st] \<and> rv_data c' = rv_data c @ [d] \<and>
       stage_wf px stem (rv_group c0) (length (rv_orig c0)) i st d)"
proof -
  define g m where gm: "g = rv_group c0" "m = length (rv_orig c0)"
  define tot where "tot = total_flat (m * g) (rv_data c)"
  have same: "rv_orig c = rv_orig c0" "rv_group c = g" "rv_name c = rv_name c0" "rv_family c = rv_family c0"
      "rv_vector_weights c = rv_vector_weights c0" "rv_sample_weights c = rv_sample_weights c0"
    and files: "list_all2 (stage_readable (x\<lparr>dx_files := s\<rparr>) g (m * g)) (rv_meta c) (rv_data c)"
    and paths: "\<forall>st \<in> set (rv_meta c). \<exists>j < i. sg_codebook (se_meta st) \<in> stage_files px stem j \<and> sg_indices (se_meta st) \<in> stage_files px stem j"
    and total: "case rv_sum c of None \<Rightarrow> rv_residual c = None \<or> rv_data c = [] | Some d \<Rightarrow> rows_shape g m d \<and> concat d = tot"
    using inv unfolding rvq_inv_def Let_def gm tot_def by auto
  obtain res where res: "rv_residual c = Some res" "rows_shape g m res"
    using inv i unfolding rvq_inv_def Let_def gm by auto
  have pos: "0 < m" "0 < g" and orig: "rows_shape g m (rv_orig c)"
    and w: "weights_fit (rv_vector_weights c) g" "weights_fit (rv_sample_weights c) m"
    using c0 by (auto simp: candidate_rows_ok_def gm same)
  let ?D = "if b then 1 else g" and ?rows = "stage_rows b res"
  have rows: "rows_shape ?D (length ?rows) ?rows" "?rows \<noteq> []" "length ?rows = (if b then m * g else m)"
    using stage_rows_shape [OF res(2) pos, of b] by (simp_all add: rows_shape_def)
  have D: "0 < ?D" using pos by simp
  have wts: "b \<or> weights_fit (rv_vector_weights c) ?D \<and> weights_fit (rv_sample_weights c) (length ?rows)" using w rows(3) by simp
  define cp ip where pths: "cp = stage_path px True stem i ''.codebook.f32''" "ip = stage_path px True stem i ''.indices''"
  obtain cb dtype n s1 where cb: "stage_codebook px (dx_floats x) True stem None c i b k ?D ?rows s =
      Inr (cb, cp, dtype, n, if b then None else rv_vector_weights c, s1)"
    "cb \<noteq> []" "length cb \<le> 2 ^ 32" "\<forall>row \<in> set cb. length row = ?D" "dtype = ''float16'' \<or> dtype = ''float32''"
    "codebook_file (dx_floats x) ?D cb dtype cp s1"
    "\<And>q. q \<noteq> cp \<Longrightarrow> s1 q = s q"
    using stage_codebook_ok [OF laws(1,3,4) rows(1,2) D spec(2) wts pths(1)] by blast
  obtain a where a: "numpy_assign ?rows (map (map of_rat) cb) 65536 None (if b then None else rv_vector_weights c) False = Inr (a, 0)"
    "nearest (if b then None else rv_vector_weights c) ?rows (map (map of_rat) cb) a"
    using numpy_assign_plain [OF shaped_stage [OF rows(1) cb(4), of b "rv_vector_weights c"]] wts cb(2) rows(2) D by auto
  note near = gather_near [OF a(2)]
  let ?bits = "index_bits_for_size (length cb)"
  have "\<forall>j \<in> set a. j < 2 ^ ?bits" using near(2) index_bits_hold(2) [OF cb(3)] by (auto simp: list_all_iff)
  then obtain s2 enc where ix: "write_indices (dx_env x) ip a ?bits None s1 = Inr (s2, ?bits mod 8 \<noteq> 0, enc)"
    "read_indices (dx_env x) ip ?bits (length a) (?bits mod 8 \<noteq> 0) enc s2 = Inr (map int a)" "enc = ''zlib'' \<or> enc = ''raw''"
    using write_read_indices [OF laws(2) index_bits_hold(1) [OF cb(3)], of a None ip s1] by auto
  have other: "s2 q = s q" if "q \<noteq> cp" "q \<noteq> ip" for q
    using that cb(7) write_indices_other [OF ix(1)] by simp
  let ?raw = "map (\<lambda>j. map real_of_rat (cb ! j)) a" and ?flat = "stage_flat cb a"
  note dec = decoded_shape [OF cb(4) near(2) near(3) [unfolded rows(3)] pos(2)]
  have start: "case rv_sum c of None \<Rightarrow> tot = replicate (m * g) 0 | Some d \<Rightarrow> rows_shape g m d \<and> concat d = tot"
    using total res(1) by (auto simp: tot_def total_flat_def split: option.splits)
  obtain d r where close: "close_stage c b ?raw = c\<lparr>rv_sum := Some d, rv_residual := Some r\<rparr>" "rows_shape g m d"
    "concat d = map2 (+) tot ?flat" "rows_shape g m r" "concat r = map2 (-) (concat (rv_orig c)) (map2 (+) tot ?flat)"
    using close_stage_ok [OF start _ _ orig dec(3), of b ?raw] dec(1,2) same(2) by auto
  define meta where "meta = \<lparr>se_meta = \<lparr>sg_codebook = cp, sg_indices = ip, sg_index_bits = ?bits, sg_group_size = Some ?D,
      sg_codebook_dtype = Some dtype, sg_packed = Some (?bits mod 8 \<noteq> 0), sg_encoding = Some enc\<rparr>,
      se_codebook_size = length cb, se_training_count = n, se_index_bytes = file_size ip s2\<rparr>"
  define c1 where "c1 = c\<lparr>rv_sum := Some d, rv_residual := Some r, rv_data := rv_data c @ [(i, cb, a, ?D)], rv_meta := rv_meta c @ [meta]\<rparr>"
  have run: "quantize_stage px (dx_floats x) (dx_env x) True True stem None i spec (c, s) = Inr (drop_stage_state px True i c1, s2)"
    unfolding quantize_stage_def prod.case spec(1) bind_err_simps res(1) option.case Let_def same(2) stage_rows_def [symmetric] cb(1)
      lift_err_simps a(1) pths(2) [symmetric] ix(1) near(1) close(1) meta_def [symmetric] c1_def
    by simp
  have neq: "cp \<noteq> ip" unfolding pths by (rule codebook_not_indices)
  have own: "{cp, ip} = stage_files px stem i" by (simp add: stage_files_def pths)
  have count: "ceil_div (m * g) ?D = length a"
    using near(3) rows(3) pos ceil_div_exact [of 1 "m * g"] by (simp add: ceil_div_exact)
  have "codebook_file (dx_floats x) ?D cb dtype cp s2"
    using codebook_file_cong [of s2 cp s1] write_indices_other [OF ix(1), of cp] neq cb(6) by simp
  then have new: "stage_readable (x\<lparr>dx_files := s2\<rparr>) g (m * g) meta (i, cb, a, ?D)"
    using ix(2) D count near(2) dec(3)
    by (simp add: stage_readable_def read_stage_arrays_def meta_def get_or_def codebook_file_def)
  have kept: "stage_readable (x\<lparr>dx_files := s2\<rparr>) g (m * g) st e" if st: "st \<in> set (rv_meta c)" and "stage_readable (x\<lparr>dx_files := s\<rparr>) g (m * g) st e" for st e
  proof -
    obtain j where "j < i" "sg_codebook (se_meta st) \<in> stage_files px stem j" "sg_indices (se_meta st) \<in> stage_files px stem j"
      using paths st by blast
    then have "sg_codebook (se_meta st) \<notin> {cp, ip}" "sg_indices (se_meta st) \<notin> {cp, ip}"
      using stage_files_disjoint [OF i, of j stem] unfolding own by blast+
    then have "read_stage_arrays (x\<lparr>dx_files := s2\<rparr>) (se_meta st) g (m * g) = read_stage_arrays (x\<lparr>dx_files := s\<rparr>) (se_meta st) g (m * g)"
      by (intro read_stage_cong) (auto intro: other)
    then show ?thesis using that(2) by (simp add: stage_readable_def split: prod.splits)
  qed
  have all: "list_all2 (stage_readable (x\<lparr>dx_files := s2\<rparr>) g (m * g)) (rv_meta c1) (rv_data c1)"
    using list.rel_mono_strong [OF files kept] new by (auto simp: c1_def intro!: list_all2_appendI)
  have tot1: "total_flat (m * g) (rv_data c1) = map2 (+) tot ?flat" by (simp add: c1_def tot_def)
  have where_: "\<forall>st \<in> set (rv_meta c1). \<exists>j < Suc i. sg_codebook (se_meta st) \<in> stage_files px stem j \<and> sg_indices (se_meta st) \<in> stage_files px stem j"
    using paths own by (auto simp: c1_def meta_def) (meson less_SucI)
  have c1_inv: "rvq_inv px (x\<lparr>dx_files := s2\<rparr>) stem c0 (Suc i) c1"
    using all where_ tot1 same close(2-5) unfolding rvq_inv_def Let_def gm [symmetric] by (simp add: c1_def)
  then have "rvq_inv px (x\<lparr>dx_files := s2\<rparr>) stem c0 (Suc i) (drop_stage_state px True i c1)"
    unfolding drop_stage_state_def by (auto simp: rvq_inv_def Let_def)
  moreover have "rv_meta (drop_stage_state px True i c1) = rv_meta c @ [meta] \<and> rv_data (drop_stage_state px True i c1) = rv_data c @ [(i, cb, a, ?D)]"
    by (simp add: drop_stage_state_def c1_def)
  moreover have "stage_wf px stem g m i meta (i, cb, a, ?D)"
    using cb(2-5) ix(3) near(3) rows(3) by (simp add: stage_wf_def meta_def pths)
  ultimately show ?thesis using run unfolding gm by blast
qed


section \<open>The stage loop\<close>

definition fresh_candidate :: "rvq \<Rightarrow> bool" where
  "fresh_candidate c \<longleftrightarrow> rv_residual c = Some (rv_orig c) \<and> rv_sum c = None \<and> rv_data c = [] \<and> rv_meta c = []"

text \<open>Every stage of the tensor has a usable size, and there is a first one.\<close>

definition specs_ok :: "stage_ctx \<Rightarrow> string \<Rightarrow> string \<Rightarrow> bool" where
  "specs_ok px name fam \<longleftrightarrow> 0 < px_n_stages px \<and>
     list_all (\<lambda>i. case stage_spec_for_candidate px name fam i of
        Inl _ \<Rightarrow> False
      | Inr None \<Rightarrow> 0 < i
      | Inr (Some spec) \<Rightarrow> (case stage_size spec of Inl _ \<Rightarrow> False | Inr (_, k) \<Rightarrow> 0 < k)) [0..<px_n_stages px]"

lemma rvq_inv_start:
  assumes "candidate_rows_ok c0" and "fresh_candidate c0"
  shows "rvq_inv px x stem c0 0 c0"
proof -
  have "concat (rv_orig c0) = map2 (-) (concat (rv_orig c0)) (replicate (length (rv_orig c0) * rv_group c0) 0)"
    using assms(1) rows_shape_concat [of "rv_group c0" "length (rv_orig c0)" "rv_orig c0"]
    by (intro nth_equalityI) (auto simp: candidate_rows_ok_def)
  then show ?thesis
    using assms by (simp add: rvq_inv_def fresh_candidate_def candidate_rows_ok_def total_flat_def)
qed

lemma run_stage_ok:
  assumes laws: "float_laws (dx_floats x)" "zlib_ok (dx_env x)" "learner_ok (dx_floats x) px"
      "px_codebook_dtype px = ''float16'' \<or> px_codebook_dtype px = ''float32''"
    and c0: "candidate_rows_ok c0" and specs: "specs_ok px (rv_name c0) (rv_family c0)"
    and inv: "rvq_inv px (x\<lparr>dx_files := s\<rparr>) stem c0 i c" and i: "i < px_n_stages px" and meta: "0 < i \<Longrightarrow> rv_meta c \<noteq> []"
  shows "\<exists>c' s'. run_stage px (dx_floats x) (dx_env x) stem (c, s) i = Inr (c', s') \<and>
    rvq_inv px (x\<lparr>dx_files := s'\<rparr>) stem c0 (Suc i) c' \<and> rv_meta c' \<noteq> []"
proof -
  have names: "rv_name c = rv_name c0" "rv_family c = rv_family c0" using inv unfolding rvq_inv_def Let_def by auto
  have "case stage_spec_for_candidate px (rv_name c0) (rv_family c0) i of
      Inl _ \<Rightarrow> False | Inr None \<Rightarrow> 0 < i | Inr (Some spec) \<Rightarrow> (case stage_size spec of Inl _ \<Rightarrow> False | Inr (_, k) \<Rightarrow> 0 < k)"
    using specs i unfolding specs_ok_def list_all_iff by simp
  then obtain sp where sp: "stage_spec_for_candidate px (rv_name c0) (rv_family c0) i = Inr sp"
    "case sp of None \<Rightarrow> 0 < i | Some spec \<Rightarrow> (case stage_size spec of Inl _ \<Rightarrow> False | Inr (_, k) \<Rightarrow> 0 < k)"
    by (cases "stage_spec_for_candidate px (rv_name c0) (rv_family c0) i") (auto split: option.splits)
  show ?thesis
  proof (cases sp)
    case None
    have "rvq_inv px (x\<lparr>dx_files := s\<rparr>) stem c0 (Suc i) c"
      using inv i unfolding rvq_inv_def Let_def by (auto intro: less_SucI)
    then show ?thesis using None sp meta by (simp add: run_stage_def names)
  next
    case (Some spec)
    obtain b k where k: "stage_size spec = Inr (b, k)" "0 < k" using sp(2) Some by (auto split: sum.splits)
    obtain c' s' where "quantize_stage px (dx_floats x) (dx_env x) True True stem None i spec (c, s) = Inr (c', s')"
      "rvq_inv px (x\<lparr>dx_files := s'\<rparr>) stem c0 (Suc i) c'" "rv_meta c' \<noteq> []"
      using quantize_stage_ok [OF laws c0 inv i k] by (metis append_is_Nil_conv not_Cons_self2)
    then show ?thesis using Some sp(1) by (auto simp: run_stage_def names)
  qed
qed

lemma run_stages_prefix:
  assumes "float_laws (dx_floats x)" "zlib_ok (dx_env x)" "learner_ok (dx_floats x) px"
    and "px_codebook_dtype px = ''float16'' \<or> px_codebook_dtype px = ''float32''"
    and "candidate_rows_ok c0" and "specs_ok px (rv_name c0) (rv_family c0)" and "fresh_candidate c0" and "n \<le> px_n_stages px"
  shows "\<exists>c s. foldM (run_stage px (dx_floats x) (dx_env x) stem) (c0, dx_files x) [0..<n] = Inr (c, s) \<and>
    rvq_inv px (x\<lparr>dx_files := s\<rparr>) stem c0 n c \<and> (0 < n \<longrightarrow> rv_meta c \<noteq> [])"
  using assms(8)
proof (induction n)
  case 0
  then show ?case using rvq_inv_start [OF assms(5,7)] by simp
next
  case (Suc n)
  then obtain c s where IH: "foldM (run_stage px (dx_floats x) (dx_env x) stem) (c0, dx_files x) [0..<n] = Inr (c, s)"
    "rvq_inv px (x\<lparr>dx_files := s\<rparr>) stem c0 n c" "0 < n \<Longrightarrow> rv_meta c \<noteq> []"
    by auto
  have "n < px_n_stages px" using Suc.prems by simp
  from run_stage_ok [OF assms(1-6) IH(2) this IH(3)] show ?case using IH(1) by (auto simp: foldM_append)
qed

section \<open>Properties\<close>

text \<open>C29: With codebooks stored in float16 or float32 (not int8, see \<open>int8_codebook_drifts\<close>), usable stage
  specs, a fresh candidate whose rows have its group size and a learner that returns codebooks of the width asked
  for, the stage loop succeeds, and what it leaves on disk is what it measured: decoding the recorded stages from
  the files returns the running sum of the stage reconstructions exactly, and the residual kept for the metrics and the
  refinement is the original minus that sum, whether the stages quantize vectors or single values, and
  whatever the files were before.\<close>

theorem stages_decode_as_measured:
  assumes "float_laws (dx_floats x)" and "zlib_ok (dx_env x)" and "learner_ok (dx_floats x) px"
    and "px_codebook_dtype px = ''float16'' \<or> px_codebook_dtype px = ''float32''"
    and "candidate_rows_ok c0" and "specs_ok px (rv_name c0) (rv_family c0)" and "fresh_candidate c0"
    and "tm_group_size tm = rv_group c0" and "tm_padded_values tm = length (rv_orig c0) * rv_group c0"
  shows "\<exists>c s tot. run_stages px (dx_floats x) (dx_env x) stem (c0, dx_files x) = Inr (c, s) \<and>
    decode_stages (x\<lparr>dx_files := s\<rparr>) (tm\<lparr>tm_stages := map se_meta (rv_meta c)\<rparr>) = Inr tot \<and>
    (case rv_sum c of Some d \<Rightarrow> concat d = tot | None \<Rightarrow> rv_residual c = None) \<and>
    (case rv_residual c of Some r \<Rightarrow> concat r = map2 (-) (concat (rv_orig c0)) tot | None \<Rightarrow> True)"
proof -
  obtain c s where run: "run_stages px (dx_floats x) (dx_env x) stem (c0, dx_files x) = Inr (c, s)"
    and inv: "rvq_inv px (x\<lparr>dx_files := s\<rparr>) stem c0 (px_n_stages px) c" and meta: "rv_meta c \<noteq> []"
    using run_stages_prefix [OF assms(1-7), of "px_n_stages px" stem] assms(6) by (auto simp: run_stages_def specs_ok_def)
  let ?n = "length (rv_orig c0) * rv_group c0"
  have files: "list_all2 (stage_readable (x\<lparr>dx_files := s\<rparr>) (rv_group c0) ?n) (rv_meta c) (rv_data c)"
    using inv unfolding rvq_inv_def Let_def by blast
  have dec: "decode_stages (x\<lparr>dx_files := s\<rparr>) (tm\<lparr>tm_stages := map se_meta (rv_meta c)\<rparr>) = Inr (total_flat ?n (rv_data c))"
    by (rule decode_stages_total [OF files meta]) (use assms(5,8,9) in \<open>auto simp: candidate_rows_ok_def\<close>)
  have "rv_data c \<noteq> []" using files meta by auto
  then show ?thesis
    using run dec inv unfolding rvq_inv_def Let_def
    by (intro exI [of _ c] exI [of _ s] exI [of _ "total_flat ?n (rv_data c)"]) (auto split: option.splits)
qed


text \<open>A concrete run: two stages, the second on single values, with a learner of two constant centroids.\<close>

definition demo_ctx :: stage_ctx where
  "demo_ctx = \<lparr>px_n_stages = 2, px_stages_spec = [Codebook 4, Scalar ''s3''], px_family_stages = None, px_tensor_stages = None,
     px_sample_vectors = Some 1, px_codebook_dtype = ''float32'', px_em_aq_passes = 0,
     px_learn = (\<lambda>_ rows _ _ _. Inr [replicate (length (hd rows)) 1, replicate (length (hd rows)) 3]), px_cached = (\<lambda>_ _. None)\<rparr>"

definition demo_rvq :: rvq where
  "demo_rvq = \<lparr>rv_name = ''a'', rv_family = ''other'', rv_group = 2, rv_vector_weights = None, rv_sample_weights = None,
     rv_orig = [[1, 2], [3, 5]], rv_residual = Some [[1, 2], [3, 5]], rv_sum = None, rv_data = [], rv_meta = []\<rparr>"

lemma demo_learner: "learner_ok int_floats demo_ctx"
proof -
  have r: "r32 int_floats 1 = 1" "r32 int_floats 3 = 3"
    using np_round_int [of 1, where ?'a = rat] np_round_int [of 3, where ?'a = rat] by (simp_all add: int_floats_def clip_def)
  have "codebook_ok int_floats D [replicate D 1, replicate D 3]" for D
    by (auto simp: codebook_ok_def r)
  then show ?thesis by (auto simp: learner_ok_def demo_ctx_def)
qed

theorem stages_decode_as_measured_witness:
  "\<exists>c s tot. run_stages demo_ctx int_floats whole_env ''t/a'' (demo_rvq, Map.empty) = Inr (c, s) \<and>
    decode_stages (files_env int_floats whole_env [] s) (example_meta\<lparr>tm_padded_values := 4, tm_stages := map se_meta (rv_meta c)\<rparr>) = Inr tot"
proof -
  have digits: "digits_val ''3'' = 3" "py_isdigit ''3''" by code_simp+
  have laws: "float_laws (dx_floats (files_env int_floats whole_env [] Map.empty))"
    "zlib_ok (dx_env (files_env int_floats whole_env [] Map.empty))"
    "learner_ok (dx_floats (files_env int_floats whole_env [] Map.empty)) demo_ctx"
    "px_codebook_dtype demo_ctx = ''float16'' \<or> px_codebook_dtype demo_ctx = ''float32''"
    using int_floats_laws whole_zlib demo_learner by (simp_all add: demo_ctx_def)
  have rows: "candidate_rows_ok demo_rvq" "fresh_candidate demo_rvq"
    by (simp_all add: candidate_rows_ok_def rows_shape_def weights_fit_def fresh_candidate_def demo_rvq_def)
  have specs: "specs_ok demo_ctx (rv_name demo_rvq) (rv_family demo_rvq)"
    by (simp add: specs_ok_def stage_spec_for_candidate_def stage_at_def demo_ctx_def digits upt_conv_Cons)
  show ?thesis
    using stages_decode_as_measured [OF laws rows(1) specs rows(2), of "example_meta\<lparr>tm_padded_values := 4\<rparr>" "''t/a''"]
    by (auto simp: demo_rvq_def example_meta_def files_env_def)
qed


section \<open>Closing a giant tensor's stage in blocks\<close>

text \<open>
  \<open>_stage_decode_accumulate_blocked\<close>: the same close-out over row blocks, in place. \<open>res\<close> is the residual's buffer, whose
  old contents are overwritten.
\<close>

definition close_block ::
  "vec list \<Rightarrow> rat matrix \<Rightarrow> nat list \<Rightarrow> bool \<Rightarrow> nat \<Rightarrow> nat \<Rightarrow> vec list \<times> vec list \<Rightarrow> nat \<Rightarrow> stage_error + vec list \<times> vec list" where
  "close_block vo cb idxs is_scalar d chunk_rows st i =
     (case st of (ds, res) \<Rightarrow>
        (let j = min (i + chunk_rows) (length vo)
         in bind_err (gather cb (if is_scalar then take (j * d - i * d) (drop (i * d) idxs) else take (j - i) (drop i idxs))) (\<lambda>got.
            (let dblk = (if is_scalar then blocks_of d (concat got) else got);
                 ds' = take i ds @ plus_rows (take (j - i) (drop i ds)) dblk @ drop j ds
             in Inr (ds', take i res @ minus_rows (take (j - i) (drop i vo)) (take (j - i) (drop i ds')) @ drop j res)))))"

definition close_stage_blocked ::
  "nat \<Rightarrow> vec list \<Rightarrow> rvq \<Rightarrow> bool \<Rightarrow> rat matrix \<Rightarrow> nat list \<Rightarrow> stage_error + rvq" where
  "close_stage_blocked chunk_rows res c is_scalar cb idxs =
     (let vo = rv_orig c; ds = (case rv_sum c of None \<Rightarrow> map (map (\<lambda>_. 0)) vo | Some d \<Rightarrow> d)
      in bind_err (foldM (close_block vo cb idxs is_scalar (rv_group c) chunk_rows) (ds, res)
              (map (\<lambda>t. t * chunk_rows) [0..<ceil_div (length vo) chunk_rows]))
           (\<lambda>(ds', res'). Inr (c\<lparr>rv_sum := Some ds', rv_residual := Some res'\<rparr>)))"

lemma slice_row_op: "map2 f (take k (drop i xs)) (take k (drop i ys)) = take k (drop i (map2 f xs ys))"
  by (simp add: take_map drop_map take_zip drop_zip)

lemma flat_slice:
  assumes "rows_shape g m rows" and "i \<le> m"
  shows "drop (i * g) (concat rows) = concat (drop i rows)" and "take (i * g) (concat rows) = concat (take i rows)"
proof -
  have "rows_shape g i (take i rows)" using assms by (auto simp: rows_shape_def dest: in_set_takeD)
  from rows_shape_concat [OF this] have "length (concat (take i rows)) = i * g" .
  moreover have "concat rows = concat (take i rows) @ concat (drop i rows)" by (simp flip: concat_append)
  ultimately show "drop (i * g) (concat rows) = concat (drop i rows)" and "take (i * g) (concat rows) = concat (take i rows)"
    by simp_all
qed

lemma slice_rows_shape: "rows_shape g m rows \<Longrightarrow> j \<le> m \<Longrightarrow> rows_shape g (j - i) (take (j - i) (drop i rows))"
  by (auto simp: rows_shape_def dest: in_set_takeD in_set_dropD)


lemma drop_rows_shape: "rows_shape g m rows \<Longrightarrow> rows_shape g (m - i) (drop i rows)"
  by (auto simp: rows_shape_def dest: in_set_dropD)

lemma gather_slice: "list_all (\<lambda>j. j < length cb) idxs \<Longrightarrow> gather cb idxs = Inr (map (\<lambda>j. map of_rat (cb ! j)) idxs)"
  unfolding gather_def by (rule mapM_Inr) (auto simp: list_all_iff)

lemma decoded_slice:
  assumes "\<forall>row \<in> set cb. length row = (if b then 1 else d)" and "list_all (\<lambda>j. j < length cb) a"
    and "length a = (if b then m * d else m)" and "0 < d" and "i \<le> j" and "j \<le> m"
  defines "row \<equiv> \<lambda>j. map real_of_rat (cb ! j)"
  defines "dec \<equiv> (if b then blocks_of d (concat (map row a)) else map row a)"
  shows "(if b then blocks_of d (concat (map row (take (j * d - i * d) (drop (i * d) a)))) else map row (take (j - i) (drop i a)))
    = take (j - i) (drop i dec)"
proof (cases b)
  case True
  have dec: "rows_shape d m dec" "concat dec = concat (map row a)"
    using decoded_shape [OF assms(1-4)] by (auto simp: dec_def row_def stage_flat_def True)
  have raw: "rows_shape 1 (m * d) (map row a)"
    using assms(1-3) True by (auto simp: rows_shape_def row_def list_all_iff)
  have im: "i * d \<le> m * d" "j * d - i * d \<le> m * d - i * d" "j * d - i * d = (j - i) * d"
    using assms(5,6) by (auto simp: diff_mult_distrib intro: diff_le_mono mult_le_mono1)
  have raw': "rows_shape 1 (m * d - i * d) (drop (i * d) (map row a))"
    by (rule drop_rows_shape [OF raw])
  have dec': "rows_shape d (m - i) (drop i dec)" by (rule drop_rows_shape [OF dec(1)])
  have "concat (map row (take (j * d - i * d) (drop (i * d) a))) = take (j * d - i * d) (drop (i * d) (concat (map row a)))"
    using flat_slice(1) [OF raw im(1)] flat_slice(2) [OF raw' im(2)] by (simp add: take_map drop_map)
  also have "\<dots> = concat (take (j - i) (drop i dec))"
    using flat_slice(1) [OF dec(1), of i] flat_slice(2) [OF dec', of "j - i"] assms(5,6) dec(2) im(3) by simp
  finally show ?thesis
    using True slice_rows_shape [OF dec(1) assms(6), of i] assms(4) by (simp add: rows_shape_def blocks_of_concat)
qed (simp add: dec_def take_map drop_map)

lemma splice_step:
  assumes "i \<le> j" and "j \<le> length D" and "length ds = length D"
  shows "take i (take i D @ drop i ds) @ take (j - i) (drop i D) @ drop j (take i D @ drop i ds) = take j D @ drop j ds"
proof -
  have "take i D @ take (j - i) (drop i D) = take j D" using take_add [of i "j - i" D] assms(1) by simp
  then show ?thesis using assms by simp
qed

lemma splice_part: "j \<le> length D \<Longrightarrow> take (j - i) (drop i (take j D @ X)) = take (j - i) (drop i D)"
  unfolding drop_take [symmetric] by simp

lemma close_block_step:
  assumes "rows_shape d m vo" and "rows_shape d m ds" and "length res = m"
    and cb: "\<forall>row \<in> set cb. length row = (if b then 1 else d)" "list_all (\<lambda>j. j < length cb) a"
      "length a = (if b then m * d else m)" "0 < d"
    and "i \<le> m"
  defines "dec \<equiv> (if b then blocks_of d (concat (map (\<lambda>j. map real_of_rat (cb ! j)) a)) else map (\<lambda>j. map real_of_rat (cb ! j)) a)"
  defines "D \<equiv> plus_rows ds dec"
  defines "R \<equiv> minus_rows vo D"
  shows "close_block vo cb a b d chunk (take i D @ drop i ds, take i R @ drop i res) i =
    Inr (take (min (i + chunk) m) D @ drop (min (i + chunk) m) ds, take (min (i + chunk) m) R @ drop (min (i + chunk) m) res)"
proof -
  let ?j = "min (i + chunk) m" and ?row = "\<lambda>j. map real_of_rat (cb ! j)"
  have j: "i \<le> ?j" "?j \<le> m" using assms(8) by auto
  have dec: "rows_shape d m dec" using decoded_shape(1) [OF cb] by (simp add: dec_def)
  have D: "rows_shape d m D" unfolding D_def plus_rows_def using concat_row_op(2) [OF assms(2) dec] .
  have R: "rows_shape d m R" unfolding R_def minus_rows_def using concat_row_op(2) [OF assms(1) D] .
  have len: "length D = m" "length ds = m" "length vo = m" "length R = m" using D R assms(1,2) by (simp_all add: rows_shape_def)
  let ?sl = "if b then take (?j * d - i * d) (drop (i * d) a) else take (?j - i) (drop i a)"
  have got: "gather cb ?sl = Inr (map ?row ?sl)"
    by (rule gather_slice) (use cb(2) in \<open>auto simp: list_all_iff dest: in_set_takeD in_set_dropD\<close>)
  have blk: "(if b then blocks_of d (concat (map ?row ?sl)) else map ?row ?sl) = take (?j - i) (drop i dec)"
    using decoded_slice [OF cb j] by (simp add: dec_def split: if_splits)
  have slice: "take (?j - i) (drop i (take i D @ drop i ds)) = take (?j - i) (drop i ds)" using len assms(8) by simp
  have ds': "take i (take i D @ drop i ds) @ plus_rows (take (?j - i) (drop i (take i D @ drop i ds))) (take (?j - i) (drop i dec))
      @ drop ?j (take i D @ drop i ds) = take ?j D @ drop ?j ds"
  proof -
    have "plus_rows (take (?j - i) (drop i ds)) (take (?j - i) (drop i dec)) = take (?j - i) (drop i D)"
      unfolding D_def plus_rows_def by (rule slice_row_op)
    then show ?thesis unfolding slice using splice_step [OF j(1), of D ds] j(2) len(1,2) by (simp only:)
  qed
  have part: "take (?j - i) (drop i (take ?j D @ drop ?j ds)) = take (?j - i) (drop i D)"
    by (rule splice_part) (use len j in simp)
  have res': "take i (take i R @ drop i res) @ minus_rows (take (?j - i) (drop i vo)) (take (?j - i) (drop i D))
      @ drop ?j (take i R @ drop i res) = take ?j R @ drop ?j res"
  proof -
    have "minus_rows (take (?j - i) (drop i vo)) (take (?j - i) (drop i D)) = take (?j - i) (drop i R)"
      unfolding R_def minus_rows_def by (rule slice_row_op)
    then show ?thesis using splice_step [OF j(1), of R res] j(2) len(4) assms(3) by (simp only:)
  qed
  show ?thesis
    unfolding close_block_def prod.case Let_def len(3) got bind_err_simps blk ds' part res' ..
qed


lemma close_blocks:
  assumes "rows_shape d m vo" and "rows_shape d m ds" and "length res = m"
    and cb: "\<forall>row \<in> set cb. length row = (if b then 1 else d)" "list_all (\<lambda>j. j < length cb) a"
      "length a = (if b then m * d else m)" "0 < d"
    and "0 < chunk" and "T \<le> ceil_div m chunk"
  defines "dec \<equiv> (if b then blocks_of d (concat (map (\<lambda>j. map real_of_rat (cb ! j)) a)) else map (\<lambda>j. map real_of_rat (cb ! j)) a)"
  defines "D \<equiv> plus_rows ds dec"
  defines "R \<equiv> minus_rows vo D"
  shows "foldM (close_block vo cb a b d chunk) (ds, res) (map (\<lambda>t. t * chunk) [0..<T]) =
    Inr (take (min (T * chunk) m) D @ drop (min (T * chunk) m) ds, take (min (T * chunk) m) R @ drop (min (T * chunk) m) res)"
  using assms(9)
proof (induction T)
  case (Suc T)
  let ?i = "min (T * chunk) m"
  have T: "T * chunk \<le> m"
  proof (cases "m = 0")
    case True
    then show ?thesis using Suc.prems assms(8) by (simp add: ceil_div_def)
  next
    case False
    have "T * chunk \<le> (ceil_div m chunk - 1) * chunk" using Suc.prems by (intro mult_right_mono) auto
    also have "\<dots> < m" using ceil_div_mult_less [OF assms(8), of m] False by (simp add: mult.commute)
    finally show ?thesis by simp
  qed
  have step: "close_block vo cb a b d chunk (take ?i D @ drop ?i ds, take ?i R @ drop ?i res) ?i =
      Inr (take (min (?i + chunk) m) D @ drop (min (?i + chunk) m) ds, take (min (?i + chunk) m) R @ drop (min (?i + chunk) m) res)"
    using close_block_step [OF assms(1-3) cb, of ?i chunk] by (simp add: D_def R_def dec_def)
  have "?i = T * chunk" "min (?i + chunk) m = min (Suc T * chunk) m" using T by auto
  then show ?case using Suc step by (simp add: foldM_append)
qed simp


text \<open>Closing a stage in row blocks, in place, leaves the same sum and residual as closing it at once, for every block
  length and whatever the residual's buffer held; the last block may be shorter.\<close>

theorem blocked_close_out_agrees:
  assumes "candidate_rows_ok c" and "0 < chunk_rows" and "length res = length (rv_orig c)"
    and "case rv_sum c of None \<Rightarrow> True | Some d \<Rightarrow> rows_shape (rv_group c) (length (rv_orig c)) d"
    and "\<forall>row \<in> set cb. length row = (if is_scalar then 1 else rv_group c)" and "list_all (\<lambda>j. j < length cb) idxs"
    and "length idxs = (if is_scalar then length (rv_orig c) * rv_group c else length (rv_orig c))"
  shows "close_stage_blocked chunk_rows res c is_scalar cb idxs = bind_err (gather cb idxs) (\<lambda>raw. Inr (close_stage c is_scalar raw))"
proof -
  define g m where gm: "g = rv_group c" "m = length (rv_orig c)"
  define ds where "ds = (case rv_sum c of None \<Rightarrow> map (map (\<lambda>_. 0)) (rv_orig c) | Some d \<Rightarrow> d)"
  have orig: "rows_shape g m (rv_orig c)" and g: "0 < g" using assms(1) by (simp_all add: candidate_rows_ok_def gm)
  have ds: "rows_shape g m ds" using assms(4) orig by (auto simp: ds_def gm rows_shape_def split: option.splits)
  let ?raw = "map (\<lambda>j. map real_of_rat (cb ! j)) idxs"
  let ?dec = "if is_scalar then blocks_of g (concat ?raw) else ?raw"
  note cb = assms(5-7) [folded gm]
  have dec: "rows_shape g m ?dec" by (rule decoded_shape(1) [OF cb g])
  have D: "rows_shape g m (plus_rows ds ?dec)" unfolding plus_rows_def by (rule concat_row_op(2) [OF ds dec])
  have len: "length (plus_rows ds ?dec) = m" "length (minus_rows (rv_orig c) (plus_rows ds ?dec)) = m"
    using D concat_row_op(2) [OF orig D, of "(-)"] by (simp_all add: rows_shape_def minus_rows_def)
  have whole: "min (ceil_div m chunk_rows * chunk_rows) m = m"
    using ceil_div_mult_ge [OF assms(2), of m] by (simp add: mult.commute)
  have "foldM (close_block (rv_orig c) cb idxs is_scalar g chunk_rows) (ds, res) (map (\<lambda>t. t * chunk_rows) [0..<ceil_div m chunk_rows])
      = Inr (plus_rows ds ?dec, minus_rows (rv_orig c) (plus_rows ds ?dec))"
    using close_blocks [OF orig ds assms(3) [folded gm] cb g assms(2) order.refl] len ds assms(3)
    unfolding whole by (simp add: rows_shape_def gm)
  moreover have "plus_rows (map (map (\<lambda>_. 0)) (rv_orig c)) ?dec = ?dec"
  proof (rule nth_equalityI)
    show "length (plus_rows (map (map (\<lambda>_. 0)) (rv_orig c)) ?dec) = length ?dec"
      using dec orig unfolding plus_rows_def by (simp only: rows_shape_def length_map length_zip)
    fix i assume "i < length (plus_rows (map (map (\<lambda>_. 0)) (rv_orig c)) ?dec)"
    then have i: "i < m" "length (rv_orig c ! i) = length (?dec ! i)"
      using dec orig unfolding plus_rows_def rows_shape_def by (auto simp: nth_mem)
    have "map2 (+) (map (\<lambda>_. 0) xs) ys = ys" if "length xs = length ys" for xs ys :: "real list"
      using that by (induction xs ys rule: list_induct2) auto
    then show "plus_rows (map (map (\<lambda>_. 0)) (rv_orig c)) ?dec ! i = ?dec ! i"
      using i dec orig unfolding plus_rows_def rows_shape_def by simp
  qed
  ultimately show ?thesis
    unfolding close_stage_blocked_def Let_def gather_slice [OF assms(6)] bind_err_simps close_stage_def gm [symmetric] ds_def [symmetric]
    by (cases is_scalar) (auto simp: ds_def split: option.splits)
qed


theorem blocked_close_out_agrees_witness:
  "close_stage_blocked 1 [[], []] demo_rvq True [[1], [3]] [0, 0, 1, 1] = Inr (close_stage demo_rvq True [[1], [1], [3], [3]])"
  using blocked_close_out_agrees [of demo_rvq 1 "[[], []]" "[[1], [3]]" True "[0, 0, 1, 1]"]
  by (simp add: gather_def demo_rvq_def candidate_rows_ok_def rows_shape_def weights_fit_def)

end
