(* ===== verification/Metrics.thy ===== *)
theory Metrics
  imports Manifest Kmeans
begin

text \<open>
  \<open>orka/eval/metrics.py\<close>: the quality numbers of a reconstruction, summed chunk by chunk, and the metrics of a packed
  tensor, which are measured after the same overrides, rotation and scales the decoder applies.

  Sums, roots and logarithms are exact; an infinite ratio is \<open>None\<close>. This is the numpy path: the torch path differs only in the
  device of the first sums.
\<close>

datatype metric_error = SizesDiffer | PatchFail decode_error | PatchShape | NoScales | UnknownMode string

record quality =
  q_value_count :: nat
  q_sse :: real
  q_mse :: real
  q_rmse :: real
  q_mae :: real
  q_max_abs_error :: real
  q_source_l2_sq :: real
  q_reconstructed_l2_sq :: real
  q_dot :: real
  q_relative_rmse :: "real option"
  q_cosine :: real
  q_sqnr :: "real option"

definition quality_from_totals :: "nat \<Rightarrow> real \<Rightarrow> real \<Rightarrow> real \<Rightarrow> real \<Rightarrow> real \<Rightarrow> real \<Rightarrow> quality" where
  "quality_from_totals value_count sse abs_error_sum max_abs_error source_l2_sq reconstructed_l2_sq dot_total =
     (let mse = (if value_count = 0 then 0 else sse / value_count);
          denom = sqrt source_l2_sq * sqrt reconstructed_l2_sq
      in \<lparr>q_value_count = value_count, q_sse = sse, q_mse = mse, q_rmse = sqrt mse,
          q_mae = (if value_count = 0 then 0 else abs_error_sum / value_count), q_max_abs_error = max_abs_error,
          q_source_l2_sq = source_l2_sq, q_reconstructed_l2_sq = reconstructed_l2_sq, q_dot = dot_total,
          q_relative_rmse = (if source_l2_sq > 0 then Some (sqrt (sse / source_l2_sq)) else if sse = 0 then Some 0 else None),
          q_cosine = (if denom > 0 then dot_total / denom else if source_l2_sq = 0 \<and> reconstructed_l2_sq = 0 then 1 else 0),
          q_sqnr = (if sse > 0 \<and> source_l2_sq > 0 then Some (10 * log 10 (source_l2_sq / sse))
                    else if sse = 0 \<and> source_l2_sq > 0 then None else Some 0)\<rparr>)"

section \<open>Chunked totals\<close>

record totals =
  t_sse :: real
  t_abs :: real
  t_max :: real
  t_source :: real
  t_recon :: real
  t_dot :: real

definition add_chunk :: "totals \<Rightarrow> real list \<times> real list \<Rightarrow> totals" where
  "add_chunk t chunk =
     (case chunk of (s, r) \<Rightarrow>
        (let diff = map2 (-) s r; abs_diff = map abs diff
         in \<lparr>t_sse = t_sse t + dot diff diff, t_abs = t_abs t + sum_list abs_diff,
             t_max = max (t_max t) (if abs_diff = [] then 0 else Max (set abs_diff)),
             t_source = t_source t + dot s s, t_recon = t_recon t + dot r r, t_dot = t_dot t + dot s r\<rparr>))"

definition no_totals :: totals where
  "no_totals = \<lparr>t_sse = 0, t_abs = 0, t_max = 0, t_source = 0, t_recon = 0, t_dot = 0\<rparr>"

definition CHUNK_SIZE :: nat where "CHUNK_SIZE = 1000000"

definition quality_of :: "nat \<Rightarrow> totals \<Rightarrow> quality" where
  "quality_of n t = quality_from_totals n (t_sse t) (t_abs t) (t_max t) (t_source t) (t_recon t) (t_dot t)"

definition quality_numpy_flat :: "nat \<Rightarrow> real list \<Rightarrow> real list \<Rightarrow> metric_error + quality" where
  "quality_numpy_flat chunk_size source reconstructed =
     (if length source \<noteq> length reconstructed then Inl SizesDiffer
      else Inr (quality_of (length source)
             (foldl add_chunk no_totals (zip (blocks_of chunk_size source) (blocks_of chunk_size reconstructed)))))"

section \<open>The metrics of a tensor\<close>

text \<open>\<open>flat[positions] = values\<close>, a single value for all positions included.\<close>

definition patch :: "nat list \<Rightarrow> real list \<Rightarrow> real list \<Rightarrow> metric_error + real list" where
  "patch ps vs d =
     (if length ps = length vs then lift_err PatchFail (put_values d (zip (map int ps) vs))
      else if length vs = 1 then lift_err PatchFail (put_values d (map (\<lambda>p. (int p, hd vs)) ps))
      else Inl PatchShape)"

definition patch_salient :: "nat \<Rightarrow> nat list \<Rightarrow> real list \<Rightarrow> real list \<Rightarrow> real list" where
  "patch_salient bs js ws d =
     foldl (\<lambda>d (b, j, w). if b * bs + j < length d then d[b * bs + j := w] else d) d
       (zip [0..<min (length js) (length ws)] (zip js ws))"

definition need :: "'a option \<Rightarrow> metric_error + 'a" where
  "need x = (case x of None \<Rightarrow> Inl NoScales | Some v \<Rightarrow> Inr v)"

definition denorm_metrics :: "'m candidate \<Rightarrow> real list \<Rightarrow> real list \<Rightarrow> metric_error + real list" where
  "denorm_metrics c source_flat decoded_flat =
     (let norm = cd_normalization c; bs = or_nat (cd_block_scale_size c) 32
      in if norm = ''none'' then Inr decoded_flat
         else if norm = ''awq'' then
           bind_err (need (cd_row_scales c)) (\<lambda>s. lift_err (PatchFail \<circ> NormFail) (col_l2_scales_numpy decoded_flat (cd_shape c) s))
         else if norm = ''block-max'' \<or> norm = ''channel-block-max'' \<or> norm = ''slrq-block'' then
           bind_err (need (cd_row_scales c)) (\<lambda>s.
           bind_err (lift_err (PatchFail \<circ> NormFail) (block_max_scales_numpy decoded_flat s bs)) (\<lambda>d.
             Inr (if norm = ''slrq-block''
                  then (case cd_salient_indices c of None \<Rightarrow> d | Some js \<Rightarrow> patch_salient bs js (cd_salient_weights c) d)
                  else d)))
         else if norm = ''awq-block-max'' then
           bind_err (need (cd_row_scales c)) (\<lambda>s.
           bind_err (lift_err (PatchFail \<circ> NormFail) (block_max_scales_numpy decoded_flat s bs)) (\<lambda>d.
             case cd_awq_col_scales c of
               None \<Rightarrow> Inr d
             | Some cs \<Rightarrow> lift_err (PatchFail \<circ> NormFail) (col_l2_scales_numpy d (cd_shape c) cs)))
         else Inl (UnknownMode norm))"

definition rotated :: "'m candidate \<Rightarrow> bool" where
  "rotated c \<longleftrightarrow> get_or (cd_rotation c) ''none'' = ''orthogonal'' \<or> get_or (cd_rotation c) ''none'' = ''hadamard''"

definition outliers_of :: "'m candidate \<Rightarrow> nat list" where
  "outliers_of c = get_or (cd_outlier_positions c) []"

text \<open>A tensor without transforms and overrides is measured on the packed vectors as they are, padding included.\<close>

definition untouched :: "'m candidate \<Rightarrow> bool" where
  "untouched c \<longleftrightarrow> cd_normalization c = ''none'' \<and> \<not> rotated c \<and> outliers_of c = []"

definition measured_flat :: "registry \<Rightarrow> 'm candidate \<Rightarrow> real list \<Rightarrow> vec list \<Rightarrow> metric_error + real list" where
  "measured_flat reg c source_flat decoded_sum =
     (let flat = take (cd_packed_values c) (concat decoded_sum)
      in bind_err (if outliers_of c = [] then Inr flat else patch (outliers_of c) (cd_outlier_values c) flat) (\<lambda>d1.
         bind_err (case cd_pillar_positions c of None \<Rightarrow> Inr d1 | Some ps \<Rightarrow> patch ps (cd_pillar_values c) d1) (\<lambda>d2.
         bind_err (if rotated c
                   then lift_err (PatchFail \<circ> RotateFail)
                          (unrotate_flat reg d2 (cd_shape c) (get_or (cd_rotation c) ''none'') (get_or (cd_rotation_seed c) 0))
                   else Inr d2) (\<lambda>d3.
           denorm_metrics c source_flat d3))))"

definition stage_quality_metrics ::
  "registry \<Rightarrow> 'm candidate \<Rightarrow> real list \<Rightarrow> vec list \<Rightarrow> vec list \<Rightarrow> metric_error + quality" where
  "stage_quality_metrics reg c source_flat orig decoded_sum =
     (if untouched c then
        Inr (quality_of (length (concat orig)) (add_chunk no_totals (concat orig, concat decoded_sum)))
      else bind_err (measured_flat reg c source_flat decoded_sum) (quality_numpy_flat CHUNK_SIZE source_flat))"

text \<open>
  The computation the manifest entry calls, on the candidate's source values, original vectors and running sum;
  \<open>None\<close> is an exception.
\<close>

definition record_metrics :: "registry \<Rightarrow> real list \<Rightarrow> vec list \<Rightarrow> vec list \<Rightarrow> quality candidate \<Rightarrow> quality option" where
  "record_metrics reg source_flat orig decoded_sum c =
     (case stage_quality_metrics reg c source_flat orig decoded_sum of Inl _ \<Rightarrow> None | Inr q \<Rightarrow> Some q)"

section \<open>Chunks do not matter\<close>

definition top_abs :: "real list \<Rightarrow> real" where
  "top_abs xs = (if xs = [] then 0 else Max (set (map abs xs)))"

lemma top_abs_append: "max (top_abs xs) (top_abs ys) = top_abs (xs @ ys)"
proof -
  have ge: "0 \<le> Max (abs ` set zs)" if "zs \<noteq> []" for zs :: "real list"
    using that by (cases zs) (auto intro: order.trans [OF abs_ge_zero Max_ge])
  show ?thesis
  proof (cases "xs = [] \<or> ys = []")
    case True
    then show ?thesis using ge [of xs] ge [of ys] by (auto simp: top_abs_def max.absorb1 max.absorb2)
  next
    case False
    then show ?thesis by (simp add: top_abs_def image_Un Max_Un)
  qed
qed

lemma top_abs_nonneg: "0 \<le> top_abs xs"
  using top_abs_append [of "[]" xs] by (simp add: top_abs_def [of "[]"])

lemma top_abs_upper: "x \<in> set xs \<Longrightarrow> \<bar>x\<bar> \<le> top_abs xs"
  by (auto simp: top_abs_def)

lemma add_chunk_eq:
  "add_chunk t (s, r) = (let d = map2 (-) s r in
    \<lparr>t_sse = t_sse t + dot d d, t_abs = t_abs t + sum_list (map abs d), t_max = max (t_max t) (top_abs d),
     t_source = t_source t + dot s s, t_recon = t_recon t + dot r r, t_dot = t_dot t + dot s r\<rparr>)"
  by (simp add: add_chunk_def Let_def top_abs_def)

lemma dot_append: "length a = length b \<Longrightarrow> dot (a @ c) (b @ d) = dot a b + dot c d"
  by (simp add: dot_def)

lemma add_chunk_append:
  assumes "length s = length r"
  shows "add_chunk (add_chunk t (s, r)) (s', r') = add_chunk t (s @ s', r @ r')"
  using assms by (simp add: add_chunk_eq Let_def dot_append max.assoc top_abs_append)

lemma chunks_do_not_matter:
  assumes "0 < k" and "length s = length r" and "0 \<le> t_max t"
  shows "foldl add_chunk t (zip (blocks_of k s) (blocks_of k r)) = add_chunk t (s, r)"
  using assms
proof (induction k s arbitrary: r t rule: blocks_of.induct)
  case (1 k s)
  show ?case
  proof (cases "s = []")
    case True
    then show ?thesis using 1(3,4) by (simp add: add_chunk_eq dot_def top_abs_def)
  next
    case False
    then have r: "r \<noteq> []" using 1(3) by auto
    have "0 \<le> t_max (add_chunk t (take k s, take k r))" using 1(4) by (simp add: add_chunk_eq Let_def)
    then have "foldl add_chunk (add_chunk t (take k s, take k r)) (zip (blocks_of k (drop k s)) (blocks_of k (drop k r))) =
        add_chunk (add_chunk t (take k s, take k r)) (drop k s, drop k r)"
      using False 1 by simp
    also have "\<dots> = add_chunk t (s, r)" using add_chunk_append [of "take k s" "take k r" t "drop k s" "drop k r"] 1(3) by simp
    finally show ?thesis using False r 1(2) by (simp add: blocks_of.simps [of k s] blocks_of.simps [of k r])
  qed
qed

definition quality_between :: "real list \<Rightarrow> real list \<Rightarrow> quality" where
  "quality_between s r = quality_of (length s) (add_chunk no_totals (s, r))"

lemma quality_numpy_flat_eq:
  "0 < k \<Longrightarrow> length s = length r \<Longrightarrow> quality_numpy_flat k s r = Inr (quality_between s r)"
  by (simp add: quality_numpy_flat_def quality_between_def chunks_do_not_matter no_totals_def)

section \<open>Bounds\<close>

lemma dot_Cons [simp]: "dot (a # x) (b # y) = a * b + dot x y" "dot [] y = 0" "dot x [] = 0"
  by (simp_all add: dot_def)

lemma dot_self_nonneg: "0 \<le> dot x x"
  by (induction x) simp_all

lemma cauchy_schwarz: "length x = length y \<Longrightarrow> (dot x y) ^ 2 \<le> dot x x * dot y y"
proof (induction x y rule: list_induct2)
  case (Cons a x b y)
  let ?A = "dot x x" and ?B = "dot y y" and ?C = "dot x y"
  have nn: "0 \<le> ?A" "0 \<le> ?B" by (rule dot_self_nonneg)+
  have "(2 * a * b * ?C) ^ 2 = 4 * (a * b) ^ 2 * ?C ^ 2" by (simp add: power_mult_distrib)
  also have "\<dots> \<le> 4 * (a * b) ^ 2 * (?A * ?B)" using Cons.IH by (intro mult_left_mono) auto
  also have "\<dots> \<le> (a ^ 2 * ?B + b ^ 2 * ?A) ^ 2"
  proof -
    have "0 \<le> (a ^ 2 * ?B - b ^ 2 * ?A) ^ 2" by simp
    then show ?thesis by (simp add: power2_eq_square algebra_simps)
  qed
  finally have "\<bar>2 * a * b * ?C\<bar> \<le> \<bar>a ^ 2 * ?B + b ^ 2 * ?A\<bar>" by (simp only: abs_le_square_iff)
  moreover have "0 \<le> a ^ 2 * ?B + b ^ 2 * ?A" using nn by simp
  ultimately have "2 * a * b * ?C \<le> a ^ 2 * ?B + b ^ 2 * ?A" by linarith
  then show ?case using Cons.IH by (simp add: power2_eq_square algebra_simps)
qed simp

lemma dot_le_max:
  fixes m :: real
  shows "\<forall>v \<in> set x. \<bar>v\<bar> \<le> m \<Longrightarrow> dot x x \<le> real (length x) * m ^ 2"
proof (induction x)
  case (Cons a x)
  then have "\<bar>a\<bar> ^ 2 \<le> m ^ 2" by (intro power_mono) auto
  then have "a ^ 2 \<le> m ^ 2" by simp
  then show ?case using Cons by (auto simp: power2_eq_square algebra_simps)
qed simp

lemma sum_abs_square: "(sum_list (map abs x)) ^ 2 \<le> length x * dot x x"
proof -
  have "dot (map abs x) (replicate (length x) 1) = sum_list (map abs x)" by (induction x) simp_all
  moreover have "dot (replicate n 1) (replicate n 1) = real n" for n by (induction n) simp_all
  moreover have "dot (map abs x) (map abs x) = dot x x" by (induction x) simp_all
  ultimately show ?thesis using cauchy_schwarz [of "map abs x" "replicate (length x) 1"] by (simp add: mult.commute)
qed

lemma dot_diff: "length x = length y \<Longrightarrow> dot (map2 (-) x y) (map2 (-) x y) = dot x x - 2 * dot x y + dot y y"
  by (induction x y rule: list_induct2) (simp_all add: algebra_simps)

lemma dot_self_zero: "dot x x = 0 \<longleftrightarrow> (\<forall>v \<in> set x. v = 0)"
proof (induction x)
  case (Cons a x)
  have "a * a + dot x x = 0 \<longleftrightarrow> a * a = 0 \<and> dot x x = 0" using dot_self_nonneg [of x] by (simp add: add_nonneg_eq_0_iff)
  then show ?case using Cons by simp
qed simp

lemma diff_zero: "length x = length y \<Longrightarrow> (\<forall>v \<in> set (map2 (-) x y). v = 0) \<longleftrightarrow> x = (y :: real list)"
  by (induction x y rule: list_induct2) auto

text \<open>C39: the quality numbers do not depend on the chunk size and respect their bounds: the mean absolute error is at most the
  root mean square, which is at most the largest error; the cosine is between -1 and 1; the error vanishes exactly
  for equal values; and the signal-to-noise ratio in dB is minus twenty times the logarithm of the relative error.\<close>

theorem quality_bounds:
  assumes "0 < k" and len: "length s = length r"
  shows "\<exists>q. quality_numpy_flat k s r = Inr q \<and> q = quality_between s r \<and>
    0 \<le> q_mae q \<and> q_mae q \<le> q_rmse q \<and> q_rmse q \<le> q_max_abs_error q \<and> \<bar>q_cosine q\<bar> \<le> 1 \<and>
    (q_sse q = 0 \<longleftrightarrow> s = r) \<and> q_sse q = q_source_l2_sq q - 2 * q_dot q + q_reconstructed_l2_sq q \<and>
    (s \<noteq> r \<longrightarrow> 0 < q_source_l2_sq q \<longrightarrow>
      (\<exists>y > 0. q_relative_rmse q = Some y \<and> q_sqnr q = Some (- 20 * log 10 y)))"
proof -
  define q where "q = quality_between s r"
  let ?d = "map2 (-) s r" and ?n = "length s"
  have q: "q = quality_from_totals ?n (dot ?d ?d) (sum_list (map abs ?d)) (max 0 (top_abs ?d)) (dot s s) (dot r r) (dot s r)"
    by (simp add: q_def quality_between_def quality_of_def add_chunk_eq no_totals_def Let_def)
  have nn: "0 \<le> dot ?d ?d" "0 \<le> dot s s" "0 \<le> dot r r" by (rule dot_self_nonneg)+
  have ld: "length ?d = ?n" using len by simp
  have abs_nn: "0 \<le> sum_list (map abs ?d)" by (intro sum_list_nonneg) auto
  have max: "q_max_abs_error q = top_abs ?d" using top_abs_nonneg [of ?d] by (simp add: q quality_from_totals_def Let_def)
  have mse: "q_mse q = dot ?d ?d / ?n" by (simp add: q quality_from_totals_def Let_def)
  have rmse: "q_rmse q = sqrt (dot ?d ?d / ?n)" by (simp add: q quality_from_totals_def Let_def)
  have mae: "q_mae q = sum_list (map abs ?d) / ?n" by (simp add: q quality_from_totals_def Let_def)
  have mae_le: "q_mae q \<le> q_rmse q"
  proof (cases "?n = 0")
    case False
    have "(sum_list (map abs ?d) / ?n) ^ 2 \<le> dot ?d ?d / ?n"
      using sum_abs_square [of ?d] False unfolding ld by (simp add: power2_eq_square field_simps)
    then show ?thesis unfolding mae rmse by (rule real_le_rsqrt)
  qed (simp add: mae rmse)
  have rmse_le: "q_rmse q \<le> q_max_abs_error q"
  proof (cases "?n = 0")
    case False
    have "dot ?d ?d \<le> real ?n * top_abs ?d ^ 2"
      using dot_le_max [of ?d "top_abs ?d"] top_abs_upper unfolding ld by blast
    then have "dot ?d ?d / ?n \<le> top_abs ?d ^ 2" using False by (simp add: field_simps)
    then show ?thesis unfolding rmse max using top_abs_nonneg by (intro real_le_lsqrt) (simp_all add: nn)
  qed (simp add: rmse max top_abs_nonneg)
  have cosine: "\<bar>q_cosine q\<bar> \<le> 1"
  proof -
    have "\<bar>dot s r\<bar> \<le> sqrt (dot s s) * sqrt (dot r r)"
      using real_sqrt_le_mono [OF cauchy_schwarz [OF len]] by (simp add: real_sqrt_mult)
    moreover have "\<bar>x / d\<bar> \<le> 1" if "\<bar>x\<bar> \<le> d" "0 < d" for x d :: real using that by (simp add: abs_divide)
    ultimately show ?thesis by (simp add: q quality_from_totals_def Let_def)
  qed
  have sse: "q_sse q = dot ?d ?d" "q_source_l2_sq q = dot s s" by (simp_all add: q quality_from_totals_def Let_def)
  have zero: "q_sse q = 0 \<longleftrightarrow> s = r" unfolding sse dot_self_zero using diff_zero [OF len] .
  have ratio: "\<exists>y > 0. q_relative_rmse q = Some y \<and> q_sqnr q = Some (- 20 * log 10 y)"
    if "s \<noteq> r" "0 < dot s s"
  proof -
    have pos: "0 < dot ?d ?d" using zero that(1) nn(1) sse(1) by (simp add: order.strict_iff_order)
    let ?x = "dot ?d ?d / dot s s"
    have x: "0 < ?x" using pos that(2) by simp
    have "log 10 (sqrt ?x) = log 10 ?x / 2" using x by (simp add: log_def ln_sqrt)
    moreover have "log 10 (dot s s / dot ?d ?d) = - log 10 ?x" using pos that(2) by (simp add: log_divide)
    ultimately show ?thesis using x pos that(2)
      by (intro exI [of _ "sqrt ?x"]) (simp add: q quality_from_totals_def Let_def)
  qed
  have run: "quality_numpy_flat k s r = Inr q" unfolding q_def by (rule quality_numpy_flat_eq [OF assms])
  have mae_nn: "0 \<le> q_mae q" unfolding mae using abs_nn by simp
  have split: "q_sse q = q_source_l2_sq q - 2 * q_dot q + q_reconstructed_l2_sq q"
    using dot_diff [OF len] by (simp add: q quality_from_totals_def Let_def)
  show ?thesis
    by (intro exI [of _ q] conjI impI run q_def mae_nn mae_le rmse_le cosine zero split) (use ratio sse(2) in simp)
qed

theorem quality_bounds_witness:
  "\<exists>q. quality_numpy_flat 1 [3, 4] [3, 2] = Inr q \<and> q = quality_between [3, 4] [3, 2] \<and>
    0 \<le> q_mae q \<and> q_mae q \<le> q_rmse q \<and> q_rmse q \<le> q_max_abs_error q \<and> \<bar>q_cosine q\<bar> \<le> 1 \<and>
    (q_sse q = 0 \<longleftrightarrow> [3, 4 :: real] = [3, 2]) \<and> q_sse q = q_source_l2_sq q - 2 * q_dot q + q_reconstructed_l2_sq q \<and>
    ([3, 4 :: real] \<noteq> [3, 2] \<longrightarrow> 0 < q_source_l2_sq q \<longrightarrow>
      (\<exists>y > 0. q_relative_rmse q = Some y \<and> q_sqnr q = Some (- 20 * log 10 y)))"
  by (rule quality_bounds) simp_all

section \<open>What is measured is what is decoded\<close>

definition cells :: "real list \<Rightarrow> nat \<Rightarrow> real option" where
  "cells d q = (if q < length d then Some (d ! q) else None)"

lemma put_values_scatter:
  "put_values d (map (\<lambda>(p, v). (int p, v)) xs) =
    (if list_all (\<lambda>(p, _). p < length d) xs then Inr (map (\<lambda>q. the (scatter (cells d) xs q)) [0..<length d]) else Inl BadIndex)"
proof (induction xs arbitrary: d)
  case Nil
  have "map (\<lambda>q. the (cells d q)) [0..<length d] = map ((!) d) [0..<length d]"
    by (rule map_cong) (auto simp: cells_def)
  then show ?case by (simp add: scatter_def map_nth)
next
  case (Cons x xs)
  obtain p v where x: "x = (p, v)" by (cases x)
  show ?case
  proof (cases "p < length d")
    case True
    have "cells (d[p := v]) = (cells d)(p \<mapsto> v)" using True by (auto simp: cells_def fun_eq_iff nth_list_update)
    then have "scatter (cells (d[p := v])) xs = scatter (cells d) (x # xs)" by (simp add: scatter_def x)
    then show ?thesis using True Cons [of "d[p := v]"] by (simp add: x)
  qed (simp add: x)
qed

lemma put_values_sorted:
  "put_values d (map (\<lambda>(p, v). (int p, v)) (sort_key fst xs)) = put_values d (map (\<lambda>(p, v). (int p, v)) xs)"
  by (simp add: put_values_scatter scatter_sorted list_all_iff)

lemma zip_int: "zip (map int ps) vs = map (\<lambda>(p, v). (int p, v)) (zip ps vs)"
  by (simp add: zip_map1)

lemma patch_salient_reinject:
  assumes "length js = length ws"
  shows "reinject bs (map int js) ws d = Inr (patch_salient bs js ws d)"
proof -
  have gen: "put_values d (filter (\<lambda>(p, v). p < int (length d))
        (zip (map2 (\<lambda>b i. int (b * bs) + i) [k..<k + length js] (map int js)) ws)) =
      Inr (foldl (\<lambda>d (b, j, w). if b * bs + j < length d then d[b * bs + j := w] else d) d (zip [k..<k + length js] (zip js ws)))" for k
    using assms
  proof (induction js ws arbitrary: d k rule: list_induct2)
    case (Cons j js w ws)
    have up: "[k..<k + length (j # js)] = k # [Suc k..<Suc k + length js]" by (subst upt_conv_Cons) simp_all
    show ?case
    proof (cases "k * bs + j < length d")
      case True
      then show ?thesis using Cons.IH [where d = "d[k * bs + j := w]" and k = "Suc k"] unfolding up by (simp add: nat_int_add flip: of_nat_add of_nat_mult)
    next
      case False
      then have "\<not> int (k * bs) + int j < int (length d)" by linarith
      then show ?thesis using False Cons.IH [where k = "Suc k"] unfolding up by simp
    qed
  qed simp
  show ?thesis using gen [of 0] assms by (simp add: reinject_def patch_salient_def)
qed

lemma entry_fields:
  assumes "finalize_entry e metrics n_stages bs tdir c s = Inr (entry, c2, freed, s')"
  shows "tm_shape (en_meta entry) = cd_shape c" "tm_packed_values (en_meta entry) = cd_packed_values c"
    "tm_rotation (en_meta entry) = Some (get_or (cd_rotation c) ''none'')" "tm_rotation_seed (en_meta entry) = cd_rotation_seed c"
    "tm_normalization (en_meta entry) = Some (cd_normalization c)" "tm_lowrank (en_meta entry) = None"
    "tm_block_scale_size (en_meta entry) = (if stores_block_scales (cd_normalization c) then Some bs else None)"
    "cd_pillar_positions c = None \<Longrightarrow> tm_pillars (en_meta entry) = None"
    "tm_group_size (en_meta entry) = cd_group_size c" "tm_padded_values (en_meta entry) = cd_padded_values c"
    "tm_stages (en_meta entry) = map se_meta (cd_stages_meta c)"
proof -
  let ?c = "c\<lparr>cd_stages_meta := map (refresh_bytes s) (cd_stages_meta c)\<rparr>"
  obtain sc where sc: "persist_tensor_sidecars e tdir ?c s = Inr (s', sc)" "build_entry metrics ?c n_stages bs tdir sc = Inr entry"
    using assms by (cases "release_candidate_payload ?c") (auto simp: finalize_entry_def Let_def bind_err_eq_Inr)
  from sc(2) obtain m where m: "entry_metrics metrics ?c = Inr m" by (auto simp: build_entry_def bind_err_eq_Inr)
  have "cd_stages_meta ?c \<noteq> []" using sc(2) m by (intro notI) (simp add: build_entry_def)
  then obtain st sts where st: "cd_stages_meta ?c = st # sts" by (meson neq_Nil_conv)
  show "tm_shape (en_meta entry) = cd_shape c" "tm_packed_values (en_meta entry) = cd_packed_values c"
    "tm_rotation (en_meta entry) = Some (get_or (cd_rotation c) ''none'')" "tm_rotation_seed (en_meta entry) = cd_rotation_seed c"
    "tm_normalization (en_meta entry) = Some (cd_normalization c)" "tm_lowrank (en_meta entry) = None"
    "tm_block_scale_size (en_meta entry) = (if stores_block_scales (cd_normalization c) then Some bs else None)"
    "tm_group_size (en_meta entry) = cd_group_size c" "tm_padded_values (en_meta entry) = cd_padded_values c"
    using sc(2) st m by (auto simp: build_entry_def)
  have "se_meta (refresh_bytes s st) = se_meta st" for st by (simp add: refresh_bytes_def split: option.splits)
  moreover have "tm_stages (en_meta entry) = map se_meta (cd_stages_meta ?c)" using sc(2) st m by (auto simp: build_entry_def)
  ultimately show "tm_stages (en_meta entry) = map se_meta (cd_stages_meta c)" by simp
  have "tm_pillars (en_meta entry) = sc_pillars sc" using sc(2) st m by (auto simp: build_entry_def)
  moreover have "sc_pillars sc = None" if "cd_pillar_positions c = None"
    using sc(1) that by (auto simp: persist_tensor_sidecars_def Let_def bind_err_eq_Inr persist_pillars_def)
  ultimately show "cd_pillar_positions c = None \<Longrightarrow> tm_pillars (en_meta entry) = None" by simp
qed

lemma need_eq [simp]: "need x = Inr v \<longleftrightarrow> x = Some v"
  by (auto simp: need_def split: option.splits)

lemma denorm_agrees:
  assumes scales: "if cd_normalization c = ''awq'' \<or> stores_block_scales (cd_normalization c)
      then cd_row_scales c \<noteq> None \<and> read_scales x tm = Inr (the (cd_row_scales c)) else tm_scales tm = None"
    and cols: "case tm_awq_col_scales tm of
        Some am \<Rightarrow> cd_awq_col_scales c \<noteq> None \<and> read_awq_cols x am = Inr (the (cd_awq_col_scales c))
      | None \<Rightarrow> cd_normalization c \<noteq> ''awq-block-max'' \<or> cd_awq_col_scales c = None"
    and tm: "tm_normalization tm = Some (cd_normalization c)" "tm_shape tm = cd_shape c"
    and bs: "stores_block_scales (cd_normalization c) \<longrightarrow> or_nat (tm_block_scale_size tm) 32 = or_nat (cd_block_scale_size c) 32"
    and salient: "cd_salient_indices c \<noteq> None \<longrightarrow> cd_normalization c = ''slrq-block''"
    and len: "case cd_salient_indices c of None \<Rightarrow> True | Some js \<Rightarrow> length js = length (cd_salient_weights c)"
    and ap: "\<And>d. apply_salient x tm d =
      (case cd_salient_indices c of
         Some js \<Rightarrow> reinject (or_nat (tm_block_scale_size tm) 32) (map int js) (cd_salient_weights c) d | None \<Rightarrow> Inr d)"
    and m: "denorm_metrics c source d = Inr d'"
  shows "\<exists>d1. denormalize_numpy x tm d = Inr d1 \<and> apply_salient x tm d1 = Inr d'"
proof -
  let ?n = "cd_normalization c" and ?bs = "or_nat (cd_block_scale_size c) 32"
  have stores: "stores_block_scales ?n \<longleftrightarrow> ?n \<in> {''block-max'', ''channel-block-max'', ''slrq-block'', ''awq-block-max''}"
    by (auto simp: stores_block_scales_def BLOCK_SCALE_NORMALIZATIONS_def)
  have norm: "get_or (tm_normalization tm) ''none'' = ?n" using tm(1) by (simp add: get_or_def)
  have numpy: "apply_block_scales d s b ''numpy'' = block_max_scales_numpy d s b"
    "apply_col_scales d sh s ''numpy'' = col_l2_scales_numpy d sh s" for d s b sh
    by (simp_all add: apply_block_scales_def apply_col_scales_def)
  have plain: "apply_salient x tm d1 = Inr d1" if "?n \<noteq> ''slrq-block''" for d1
    using ap salient that by (auto split: option.splits)
  consider "?n = ''none''" | "?n = ''awq''" | "?n = ''block-max'' \<or> ?n = ''channel-block-max''" | "?n = ''slrq-block''" | "?n = ''awq-block-max''"
    using m by (auto simp: denorm_metrics_def Let_def split: if_splits)
  then show ?thesis
  proof cases
    case 1
    then have "denormalize_numpy x tm d = Inr d'" using m by (simp add: denormalize_numpy_def norm denorm_metrics_def)
    then show ?thesis using plain [of d'] 1 by simp
  next
    case 2
    then obtain s where s: "cd_row_scales c = Some s" "col_l2_scales_numpy d (cd_shape c) s = Inr d'"
      using m by (auto simp: denorm_metrics_def Let_def bind_err_eq_Inr split: option.splits)
    then have "denormalize_numpy x tm d = Inr d'" using 2 scales tm(2) by (simp add: denormalize_numpy_def norm numpy)
    then show ?thesis using plain [of d'] 2 by simp
  next
    case 3
    then obtain s where s: "cd_row_scales c = Some s" "block_max_scales_numpy d s ?bs = Inr d'"
      using m by (auto simp: denorm_metrics_def Let_def bind_err_eq_Inr split: option.splits)
    then have "denormalize_numpy x tm d = Inr d'"
      using 3 scales bs stores by (auto simp: denormalize_numpy_def norm numpy Let_def)
    then show ?thesis using plain [of d'] 3 by auto
  next
    case 4
    then obtain s d1 where s: "cd_row_scales c = Some s" "block_max_scales_numpy d s ?bs = Inr d1"
      "d' = (case cd_salient_indices c of None \<Rightarrow> d1 | Some js \<Rightarrow> patch_salient ?bs js (cd_salient_weights c) d1)"
      using m by (auto simp: denorm_metrics_def Let_def bind_err_eq_Inr split: option.splits)
    then have "denormalize_numpy x tm d = Inr d1"
      using 4 scales bs stores by (auto simp: denormalize_numpy_def norm numpy Let_def)
    moreover have "apply_salient x tm d1 = Inr d'"
      using ap [of d1] s(3) bs stores 4 len patch_salient_reinject by (auto split: option.splits)
    ultimately show ?thesis by blast
  next
    case 5
    then obtain s d1 where s: "cd_row_scales c = Some s" "block_max_scales_numpy d s ?bs = Inr d1"
      "(case cd_awq_col_scales c of None \<Rightarrow> Inr d1 | Some cs \<Rightarrow>
         lift_err (PatchFail \<circ> NormFail) (col_l2_scales_numpy d1 (cd_shape c) cs)) = Inr d'"
      using m by (auto simp: denorm_metrics_def Let_def bind_err_eq_Inr)
    have "denormalize_numpy x tm d = Inr d'"
    proof (cases "tm_awq_col_scales tm")
      case None
      then have "cd_awq_col_scales c = None" using cols 5 by simp
      then show ?thesis using None s 5 scales bs stores by (auto simp: denormalize_numpy_def norm numpy Let_def)
    next
      case (Some am)
      then obtain cs where "cd_awq_col_scales c = Some cs" "read_awq_cols x am = Inr cs" using cols by auto
      then show ?thesis using Some s 5 scales bs stores tm(2) by (auto simp: denormalize_numpy_def norm numpy Let_def)
    qed
    then show ?thesis using plain [of d'] 5 by simp
  qed
qed

lemma measured_is_decoded:
  assumes ok: "zlib_ok e" "candidate_ok e c" and pillars: "cd_pillar_positions c = None"
    and bs: "stores_block_scales (cd_normalization c) \<longrightarrow> cd_block_scale_size c = Some bs"
    and salient: "cd_salient_indices c \<noteq> None \<longrightarrow> cd_normalization c = ''slrq-block''"
    and fin: "finalize_entry e metrics n_stages bs tdir c s = Inr (entry, c2, freed, s')"
    and full: "decode_stages (files_env fl e reg s') (en_meta entry) = Inr full"
      "take (cd_packed_values c) full = take (cd_packed_values c) (concat decoded_sum)"
    and m: "measured_flat reg c source decoded_sum = Inr d"
  shows "decode_tensor (files_env fl e reg s') (en_meta entry) = Inr d"
proof -
  let ?x = "files_env fl e reg s'" and ?tm = "en_meta entry"
  note tm = entry_fields [OF fin]
  note reads = finalized_reads [OF ok fin, of fl reg]
  obtain d1 d3 where d: "(if outliers_of c = [] then Inr (take (cd_packed_values c) full)
      else patch (outliers_of c) (cd_outlier_values c) (take (cd_packed_values c) full)) = Inr d1"
    "(if rotated c then lift_err (PatchFail \<circ> RotateFail)
        (unrotate_flat reg d1 (cd_shape c) (get_or (cd_rotation c) ''none'') (get_or (cd_rotation_seed c) 0)) else Inr d1) = Inr d3"
    "denorm_metrics c source d3 = Inr d"
    using m pillars unfolding measured_flat_def Let_def full(2) [symmetric] by (auto simp: bind_err_eq_Inr)
  have "apply_outliers ?x ?tm (take (cd_packed_values c) full) = Inr d1"
  proof (cases "outliers_of c")
    case Nil
    then show ?thesis using d(1) reads by (auto simp: outliers_of_def get_or_def split: option.splits)
  next
    case (Cons p ps)
    then have pos: "cd_outlier_positions c = Some (p # ps)" by (auto simp: outliers_of_def get_or_def split: option.splits)
    then have "length (p # ps) = length (cd_outlier_values c)" using ok(2) by (simp add: candidate_ok_def)
    then show ?thesis
      using d(1) reads unfolding Cons pos by (simp add: patch_def put_values_sorted flip: zip_int list.map(2))
  qed
  moreover have "apply_pillars ?x ?tm d1 = Inr d1" using tm(8) [OF pillars] by (simp add: apply_pillars_def)
  moreover have "unrotate_numpy ?x ?tm d1 = Inr d3"
    using d(2) tm(1,3,4) by (auto simp: unrotate_numpy_def rotated_def Let_def get_or_def split: if_splits)
  moreover obtain d4 where "denormalize_numpy ?x ?tm d3 = Inr d4" "apply_salient ?x ?tm d4 = Inr d"
  proof -
    have "\<exists>d1. denormalize_numpy ?x ?tm d3 = Inr d1 \<and> apply_salient ?x ?tm d1 = Inr d"
    proof (rule denorm_agrees [OF _ _ tm(5,1) _ salient _ _ d(3)])
      show "case cd_salient_indices c of None \<Rightarrow> True | Some js \<Rightarrow> length js = length (cd_salient_weights c)"
        using ok(2) by (auto simp: candidate_ok_def split: option.splits)
    qed (use reads bs tm(7) in \<open>auto simp: or_nat_def\<close>)
    then show ?thesis using that by blast
  qed
  ultimately show ?thesis using full(1) tm(2,6) by (simp add: decode_tensor_def)
qed

lemma metrics_ignore_stage_files: "stage_quality_metrics reg (refreshed s c) = stage_quality_metrics reg c"
  by (simp add: fun_eq_iff stage_quality_metrics_def untouched_def rotated_def outliers_of_def measured_flat_def denorm_metrics_def Let_def
      cong: if_cong option.case_cong)


text \<open>Finalizing touches only files whose path starts with the tensor's stem.\<close>

lemma finalize_keeps_other_files:
  assumes "finalize_entry e metrics n_stages bs tdir c s = Inr (entry, c2, freed, s')"
    and q: "\<not> prefix (tdir @ safe_tensor_name (cd_name c)) q"
  shows "s' q = s q"
proof -
  let ?c = "c\<lparr>cd_stages_meta := map (refresh_bytes s) (cd_stages_meta c)\<rparr>" and ?stem = "tdir @ safe_tensor_name (cd_name c)"
  obtain sc where "persist_tensor_sidecars e tdir ?c s = Inr (s', sc)"
    using assms(1) by (cases "release_candidate_payload ?c") (auto simp: finalize_entry_def Let_def bind_err_eq_Inr)
  then obtain s1 s2 s3 s4 r1 r2 r3 r4 r5 where parts: "persist_scales e ?stem ?c s = Inr (s1, r1)"
    "persist_awq_cols e ?stem ?c s1 = Inr (s2, r2)" "persist_outliers e ?stem ?c s2 = Inr (s3, r3)"
    "persist_pillars e ?stem ?c s3 = Inr (s4, r4)" "persist_salient e ?stem ?c s4 = Inr (s', r5)"
    by (auto simp: persist_tensor_sidecars_def Let_def bind_err_eq_Inr)
  have ne: "q \<noteq> ?stem @ x" for x using q by auto
  have "s1 q = s q" using parts(1) ne by (auto simp: persist_scales_def bind_err_eq_Inr put_scales_other split: if_splits)
  also have "s1 q = s2 q" using persist_awq_cols_other [OF parts(2)] ne by simp
  also have "s2 q = s3 q" using persist_outliers_other [OF parts(3)] ne by simp
  also have "s3 q = s4 q" using persist_pillars_other [OF parts(4)] ne by simp
  also have "s4 q = s' q" using persist_salient_other [OF parts(5)] ne by simp
  finally show ?thesis .
qed

definition scaled_candidate :: "quality candidate" where
  "scaled_candidate = \<lparr>cd_name = ''w'', cd_shape = [2], cd_packed_values = 2, cd_padded_values = 2, cd_group_size = 2,
     cd_family = ''other'', cd_normalization = ''block-max'', cd_row_scales = Some [2], cd_awq_col_scales = None,
     cd_outlier_positions = None, cd_outlier_values = [], cd_pillar_positions = None, cd_pillar_values = [],
     cd_salient_indices = None, cd_salient_weights = [], cd_block_scale_size = Some 2, cd_rotation = None,
     cd_rotation_seed = None,
     cd_stages_meta = [\<lparr>se_meta = \<lparr>sg_codebook = ''cb'', sg_indices = ''ix'', sg_index_bits = 8, sg_group_size = None,
       sg_codebook_dtype = None, sg_packed = None, sg_encoding = None\<rparr>, se_codebook_size = 2, se_training_count = 2, se_index_bytes = 1\<rparr>],
     cd_vector_count = None, cd_mse_scale_applied = None, cd_refined_metrics = None, cd_reserved = None\<rparr>"


text \<open>A tensor of which only a limited number of values was packed cannot be measured once it has outliers: the source is longer.\<close>

lemma limited_tensor_not_measured:
  assumes "cd_normalization c = ''none''" "\<not> rotated c" "outliers_of c \<noteq> []"
    and "cd_packed_values c < length source"
  shows "\<exists>err. stage_quality_metrics reg c source orig decoded_sum = Inl err"
proof (cases "measured_flat reg c source decoded_sum")
  case (Inr d)
  have patch_len: "length y = length z" if "patch ps vs z = Inr y" for ps vs y z
    using that by (auto simp: patch_def dest: put_values_length split: if_splits)
  have "length d \<le> cd_packed_values c"
    using Inr assms(1,2) patch_len
    by (fastforce simp: measured_flat_def Let_def bind_err_eq_Inr denorm_metrics_def split: if_splits option.splits)
  then show ?thesis using Inr assms by (simp add: stage_quality_metrics_def untouched_def quality_numpy_flat_def)
qed (use assms in \<open>simp add: stage_quality_metrics_def untouched_def\<close>)

end
