(* ===== verification/Em_Aq.thy ===== *)
theory Em_Aq
  imports Stages Metrics
begin

text \<open>
  \<open>_run_em_aq_refinement\<close> of \<open>orka/pipeline/strategies/refinement.py\<close>: the joint refinement of the residual stages of a tensor.
  Every pass takes the stages in turn: the codebook is learned again (\<open>Kmeans\<close>, two iterations from the old one) on what the
  other stages leave of the original, rounded to its storage, the rows are assigned again, the running sum is
  updated and both files are rewritten.

  Arithmetic on tensor values is exact; the learned centroids are float32, rounded by \<open>em_to32\<close>. The writes are made at
  once: the background writer makes the same ones, in the same order. Progress lines and the memory check are left out.
\<close>

datatype em_error = EmStage stage_error | EmMetric metric_error | NoStages

text \<open>
  \<open>em_torch\<close>: the torch backend runs; \<open>em_large_rows\<close>: the value of \<open>ORKA_LARGE_ASSIGN_ROWS\<close>, 20000000 when unset; \<open>em_dir\<close>:
  the tensor directory.
\<close>

record em_ctx =
  em_passes :: int
  em_skipped :: "string set"
  em_torch :: bool
  em_large_rows :: nat
  em_dir :: string
  em_seeding :: "vec list \<Rightarrow> nat \<Rightarrow> vec list"
  em_to32 :: "real \<Rightarrow> rat"

definition GIANT_WIDTH_REF :: nat where "GIANT_WIDTH_REF = 8"

definition is_giant_matrix :: "em_ctx \<Rightarrow> nat \<Rightarrow> nat \<Rightarrow> bool" where
  "is_giant_matrix em n_rows width \<longleftrightarrow> em_large_rows em * GIANT_WIDTH_REF < n_rows * width"

section \<open>One stage of one pass\<close>

type_synonym stage_data = "nat \<times> rat matrix \<times> nat list \<times> nat"

text \<open>A stage on single values is seen as rows of one value, and back.\<close>

definition is_split :: "rvq \<Rightarrow> nat \<Rightarrow> bool" where
  "is_split c sg \<longleftrightarrow> sg = 1 \<and> 1 < rv_group c"

definition decoded_rows :: "rvq \<Rightarrow> stage_data \<Rightarrow> em_error + vec list" where
  "decoded_rows c d =
     (case d of (_, cb, idxs, sg) \<Rightarrow>
        bind_err (lift_err EmStage (gather cb idxs)) (\<lambda>raw.
          Inr (if is_split c sg then blocks_of (rv_group c) (concat raw) else raw)))"

text \<open>What the other stages leave of the original.\<close>

definition target_rows :: "rvq \<Rightarrow> nat \<Rightarrow> vec list \<Rightarrow> vec list \<Rightarrow> vec list" where
  "target_rows c sg full old =
     (let target = minus_rows (rv_orig c) (minus_rows full old)
      in if is_split c sg then map (\<lambda>x. [x]) (concat target) else target)"

definition relearn ::
  "em_ctx \<Rightarrow> vec list \<Rightarrow> nat \<Rightarrow> rat matrix \<Rightarrow> vec option \<Rightarrow> real list option \<Rightarrow> em_error + rat matrix" where
  "relearn em training k cb vw sw =
     bind_err (lift_err (EmStage \<circ> StageKmeans)
         (learn_codebook_numpy (em_seeding em) training (int k) 2 (Some (map (map of_rat) cb)) vw sw))
       (\<lambda>(cs, _, _). Inr (map (map (em_to32 em)) cs))"

text \<open>A stage with at least as many centroids as training rows is left alone.\<close>

definition leaves_stage :: "stage_ctx \<Rightarrow> nat \<Rightarrow> bool" where
  "leaves_stage px k \<longleftrightarrow> (case px_sample_vectors px of Some m \<Rightarrow> m \<le> int k | None \<Rightarrow> False)"

definition em_path :: "string \<Rightarrow> nat \<Rightarrow> string \<Rightarrow> string" where
  "em_path stem i ext = stem @ ''.s'' @ nat_str i @ ext"

type_synonym em_state = "rvq \<times> vec list \<times> store"

definition em_stage :: "stage_ctx \<Rightarrow> em_ctx \<Rightarrow> floats \<Rightarrow> real env \<Rightarrow> string \<Rightarrow> em_state \<Rightarrow> nat \<Rightarrow> em_error + em_state" where
  "em_stage px em fl e stem st i =
     (case st of (c, full, s) \<Rightarrow>
       (case rv_data c ! i of (j, cb0, idxs0, sg) \<Rightarrow>
       (let entry = rv_meta c ! i; m = se_meta entry; k = se_codebook_size entry
        in if leaves_stage px k then Inr st
           else
             bind_err (decoded_rows c (j, cb0, idxs0, sg)) (\<lambda>old.
             (let rows = target_rows c sg full old;
                  sw = (if 1 < sg then rv_sample_weights c else None);
                  vw = (if 1 < sg then rv_vector_weights c else None)
              in bind_err (lift_err EmStage (sample_vectors_and_weights rows sw (px_sample_vectors px))) (\<lambda>(training, swt).
                 bind_err (relearn em training (min k (length training)) cb0 vw swt) (\<lambda>learned.
                 bind_err (lift_err (EmStage \<circ> StageFormat)
                     (cast_codebook_storage fl sg learned (get_or (sg_codebook_dtype m) ''float32''))) (\<lambda>(cb, dtype).
                 bind_err (lift_err (EmStage \<circ> StageKmeans) (numpy_assign rows (map (map of_rat) cb) 65536 None vw False)) (\<lambda>(idxs, _).
                 bind_err (decoded_rows c (j, cb, idxs, sg)) (\<lambda>new.
                 bind_err (lift_err (EmStage \<circ> StageFormat) (write_codebook fl (em_path stem i ''.codebook.f32'') sg cb dtype s)) (\<lambda>s1.
                 bind_err (lift_err (EmStage \<circ> StageFormat)
                     (write_indices e (em_path stem i ''.indices'') idxs (sg_index_bits m) (sg_encoding m) s1)) (\<lambda>(s2, _, encoding).
                 (let m' = m\<lparr>sg_codebook_dtype := Some dtype, sg_encoding := Some encoding\<rparr>
                  in Inr (c\<lparr>rv_data := (rv_data c)[i := (j, cb, idxs, sg)], rv_meta := (rv_meta c)[i := entry\<lparr>se_meta := m'\<rparr>]\<rparr>,
                          plus_rows (minus_rows full old) new, s2))))))))))))))"

section \<open>The passes, the tensors\<close>

text \<open>The sum of the decoded stages, from the first on.\<close>

definition full_sum :: "rvq \<Rightarrow> em_error + vec list" where
  "full_sum c =
     (case rv_data c of
        [] \<Rightarrow> Inl NoStages
      | d # ds \<Rightarrow> bind_err (decoded_rows c d) (\<lambda>first. foldM (\<lambda>acc d. bind_err (decoded_rows c d) (\<lambda>dec. Inr (plus_rows acc dec))) first ds))"

definition joint_passes :: "stage_ctx \<Rightarrow> em_ctx \<Rightarrow> floats \<Rightarrow> real env \<Rightarrow> string \<Rightarrow> em_state \<Rightarrow> em_error + em_state" where
  "joint_passes px em fl e stem st =
     (let n = length (rv_data (fst st))
      in if 1 < n then foldM (\<lambda>st _. foldM (em_stage px em fl e stem) st [0..<n]) st [0..<nat (em_passes em)] else Inr st)"

text \<open>What is left of a refined candidate: its records, its codebooks and its metrics; the vectors and indices are freed.\<close>

datatype em_out = Kept rvq | Refined "stage_entry list" "(nat \<times> rat matrix \<times> nat) list" quality

definition em_candidate ::
  "stage_ctx \<Rightarrow> em_ctx \<Rightarrow> floats \<Rightarrow> real env \<Rightarrow> registry \<Rightarrow> store \<Rightarrow> rvq \<times> 'm candidate \<times> real list \<Rightarrow> em_error + em_out \<times> store" where
  "em_candidate px em fl e reg s x =
     (case x of (c, cand, source_flat) \<Rightarrow>
        if drop_weight (rv_name c) \<in> em_skipped em \<or> rv_name c \<in> em_skipped em then Inr (Kept c, s)
        else if em_torch em \<and> is_giant_matrix em (length (rv_orig c)) (rv_group c) then Inr (Kept c, s)
        else
          bind_err (full_sum c) (\<lambda>full.
          bind_err (joint_passes px em fl e (em_dir em @ safe_tensor_name (rv_name c)) (c, full, s)) (\<lambda>(c', full', s').
          bind_err (lift_err EmMetric (stage_quality_metrics reg cand source_flat (rv_orig c) full')) (\<lambda>q.
            Inr (Refined (rv_meta c') (map (\<lambda>(j, cb, _, sg). (j, cb, sg)) (rv_data c')) q, s')))))"

definition run_em_aq ::
  "stage_ctx \<Rightarrow> em_ctx \<Rightarrow> floats \<Rightarrow> real env \<Rightarrow> registry \<Rightarrow> (rvq \<times> 'm candidate \<times> real list) list \<Rightarrow> store \<Rightarrow> em_error + em_out list \<times> store" where
  "run_em_aq px em fl e reg xs s =
     foldM (\<lambda>(outs, s) x. bind_err (em_candidate px em fl e reg s x) (\<lambda>(out, s'). Inr (outs @ [out], s'))) ([], s) xs"


section \<open>The sum after one stage is replaced\<close>

definition entry_flat :: "stage_data \<Rightarrow> real list" where
  "entry_flat d = (case d of (_, cb, idxs, _) \<Rightarrow> stage_flat cb idxs)"

lemma total_flat_nth:
  assumes "\<forall>d \<in> set data. length (entry_flat d) = n" and "p < n"
  shows "total_flat n data ! p = (\<Sum>d\<leftarrow>data. entry_flat d ! p)" and "length (total_flat n data) = n"
proof -
  have "length (foldl (\<lambda>acc (i, cb, idxs, g). map2 (+) acc (stage_flat cb idxs)) acc data) = n \<and>
      foldl (\<lambda>acc (i, cb, idxs, g). map2 (+) acc (stage_flat cb idxs)) acc data ! p = acc ! p + (\<Sum>d\<leftarrow>data. entry_flat d ! p)"
    if "length acc = n" for acc
    using assms that
    by (induction data arbitrary: acc) (auto simp: entry_flat_def split: prod.splits)
  from this [of "replicate n 0"] assms(2)
  show "total_flat n data ! p = (\<Sum>d\<leftarrow>data. entry_flat d ! p)" "length (total_flat n data) = n"
    by (simp_all add: total_flat_def)
qed

lemma total_flat_replace:
  assumes "\<forall>d \<in> set data. length (entry_flat d) = n" and "i < length data" and "length (entry_flat d') = n" and "0 < n"
  shows "total_flat n (data[i := d']) = map2 (+) (map2 (-) (total_flat n data) (entry_flat (data ! i))) (entry_flat d')"
proof (intro nth_equalityI)
  have all: "\<forall>d \<in> set (data[i := d']). length (entry_flat d) = n"
    using assms(1,3) set_update_subset_insert [of data i d'] by blast
  have len: "length (entry_flat (data ! i)) = n" using assms(1,2) by simp
  note old = total_flat_nth [OF assms(1)] and new = total_flat_nth [OF all]
  have lens: "length (total_flat n (data[i := d'])) = n" "length (total_flat n data) = n"
    using old(2) new(2) assms(4) by blast+
  then show "length (total_flat n (data[i := d'])) =
      length (map2 (+) (map2 (-) (total_flat n data) (entry_flat (data ! i))) (entry_flat d'))"
    using len assms(3) by simp
  fix p assume "p < length (total_flat n (data[i := d']))"
  then have p: "p < n" using lens by simp
  have "(\<Sum>d\<leftarrow>data[i := d']. entry_flat d ! p) = (\<Sum>d\<leftarrow>data. entry_flat d ! p) + entry_flat d' ! p - entry_flat (data ! i) ! p"
    using sum_list_update [of i "map (\<lambda>d. entry_flat d ! p) data" "entry_flat d' ! p"] assms(2) by (simp add: map_update)
  then show "total_flat n (data[i := d']) ! p =
      map2 (+) (map2 (-) (total_flat n data) (entry_flat (data ! i))) (entry_flat d') ! p"
    using p old(1) new(1) lens len assms(3) by simp
qed

section \<open>Paths\<close>

lemma em_path_is_stage_path: "1 < px_n_stages px \<Longrightarrow> stage_path px True stem i ext = em_path stem i ext"
  by (simp add: stage_path_def em_path_def)

lemma em_path_inject: "em_path stem i ext = em_path stem j ext \<longleftrightarrow> i = j"
  by (simp add: em_path_def)

lemma em_path_ext: "em_path stem i ''.codebook.f32'' \<noteq> em_path stem j ''.indices''"
proof
  assume "em_path stem i ''.codebook.f32'' = em_path stem j ''.indices''"
  then have "last (em_path stem i ''.codebook.f32'') = last (em_path stem j ''.indices'')" by simp
  then show False by (simp add: em_path_def)
qed

section \<open>Decoded rows\<close>

text \<open>What a stage's data promises: indices within the codebook, rows of the stage's width.\<close>

definition data_ok :: "nat \<Rightarrow> nat \<Rightarrow> stage_data \<Rightarrow> bool" where
  "data_ok g m d \<longleftrightarrow>
     (case d of (_, cb, idxs, sg) \<Rightarrow>
        (sg = g \<or> sg = 1) \<and> (\<forall>row \<in> set cb. length row = sg) \<and> list_all (\<lambda>j. j < length cb) idxs \<and> length idxs * sg = m * g)"

lemma split_width:
  assumes "sg = g \<or> sg = 1" and "0 < g" and "rv_group c = g" and "idxs * sg = m * g"
  shows "sg = (if is_split c sg then 1 else g)" and "idxs = (if is_split c sg then m * g else m)"
  using assms by (auto simp: is_split_def)

lemma decoded_rows_ok:
  assumes "data_ok g m d" and "rv_group c = g" and "0 < g"
  shows "\<exists>rows. decoded_rows c d = Inr rows \<and> rows_shape g m rows \<and> concat rows = entry_flat d \<and> length (entry_flat d) = m * g"
proof -
  obtain j cb idxs sg where d: "d = (j, cb, idxs, sg)" by (cases d)
  have ok: "sg = g \<or> sg = 1" "\<forall>row \<in> set cb. length row = sg" "list_all (\<lambda>j. j < length cb) idxs" "length idxs * sg = m * g"
    using assms(1) by (auto simp: data_ok_def d)
  let ?b = "is_split c sg"
  note w = split_width [OF ok(1) assms(3,2) ok(4)]
  have cb: "\<forall>row \<in> set cb. length row = (if ?b then 1 else g)" using ok(2) w(1) by simp
  note dec = decoded_shape [OF cb ok(3) w(2) assms(3)]
  have "decoded_rows c d = Inr (if ?b then blocks_of g (concat (map (\<lambda>j. map real_of_rat (cb ! j)) idxs)) else map (\<lambda>j. map real_of_rat (cb ! j)) idxs)"
    by (simp add: decoded_rows_def d gather_slice [OF ok(3)] assms(2))
  then show ?thesis using dec by (simp add: d entry_flat_def)
qed

lemma full_sum_ok:
  assumes "\<forall>d \<in> set (rv_data c). data_ok g m d" and "rv_data c \<noteq> []" and "rv_group c = g" and "0 < g"
  shows "\<exists>full. full_sum c = Inr full \<and> rows_shape g m full \<and> concat full = total_flat (m * g) (rv_data c)"
proof -
  have step: "\<exists>full. foldM (\<lambda>acc d. bind_err (decoded_rows c d) (\<lambda>dec. Inr (plus_rows acc dec))) acc ds = Inr full \<and> rows_shape g m full \<and>
      concat full = foldl (\<lambda>acc (i, cb, idxs, g). map2 (+) acc (stage_flat cb idxs)) (concat acc) ds"
    if "\<forall>d \<in> set ds. data_ok g m d" "rows_shape g m acc" for ds acc
    using that
  proof (induction ds arbitrary: acc)
    case (Cons d ds)
    obtain rows where rows: "decoded_rows c d = Inr rows" "rows_shape g m rows" "concat rows = entry_flat d"
      using decoded_rows_ok [of g m d c] Cons.prems(1) assms(3,4) by auto
    note plus = concat_row_op [OF Cons.prems(2) rows(2), of "(+)"]
    have "concat (plus_rows acc rows) = (case d of (i, cb, idxs, g) \<Rightarrow> map2 (+) (concat acc) (stage_flat cb idxs))"
      using plus(1) rows(3) by (cases d) (simp add: plus_rows_def entry_flat_def)
    then show ?case using Cons.IH [of "plus_rows acc rows"] Cons.prems(1) plus(2) rows(1) by (simp add: plus_rows_def)
  qed simp
  obtain d ds where data: "rv_data c = d # ds" using assms(2) by (cases "rv_data c") auto
  obtain rows where rows: "decoded_rows c d = Inr rows" "rows_shape g m rows" "concat rows = entry_flat d" "length (entry_flat d) = m * g"
    using decoded_rows_ok [of g m d c] assms(1,3,4) data by auto
  have "map2 (+) (replicate (m * g) 0) (entry_flat d) = entry_flat d" using rows(4) by (intro nth_equalityI) auto
  then have "total_flat (m * g) (rv_data c) = foldl (\<lambda>acc (i, cb, idxs, g). map2 (+) acc (stage_flat cb idxs)) (entry_flat d) ds"
    by (cases d) (simp add: total_flat_def data entry_flat_def)
  then show ?thesis using step [of ds rows] rows assms(1) by (simp add: full_sum_def data)
qed


section \<open>The invariant of the refinement\<close>

definition em_inv :: "stage_ctx \<Rightarrow> decode_env \<Rightarrow> string \<Rightarrow> rvq \<Rightarrow> em_state \<Rightarrow> bool" where
  "em_inv px x stem c0 st \<longleftrightarrow>
     (case st of (c, full, s) \<Rightarrow>
       (let g = rv_group c0; m = length (rv_orig c0); n = length (rv_data c)
        in rv_orig c = rv_orig c0 \<and> rv_group c = g \<and> rv_name c = rv_name c0 \<and>
           rv_vector_weights c = rv_vector_weights c0 \<and> rv_sample_weights c = rv_sample_weights c0 \<and> length (rv_meta c) = n \<and>
           (\<forall>i < n. stage_wf px stem g m i (rv_meta c ! i) (rv_data c ! i) \<and>
              stage_readable (x\<lparr>dx_files := s\<rparr>) g (m * g) (rv_meta c ! i) (rv_data c ! i)) \<and>
           rows_shape g m full \<and> concat full = total_flat (m * g) (rv_data c)))"

lemma readable_data_ok:
  assumes "stage_wf px stem g m i st d" and "stage_readable x g (m * g) st d"
  shows "data_ok g m d"
  using assms by (auto simp: stage_wf_def stage_readable_def data_ok_def split: prod.splits)

lemma em_inv_data_ok:
  assumes "em_inv px x stem c0 (c, full, s)"
  shows "\<forall>d \<in> set (rv_data c). data_ok (rv_group c0) (length (rv_orig c0)) d"
  using assms readable_data_ok unfolding em_inv_def prod.case Let_def by (metis in_set_conv_nth)

text \<open>What the other stages leave is, value by value, what this stage decodes to plus the error of the sum.\<close>

lemma target_shape:
  assumes "rows_shape g m (rv_orig c)" and "rows_shape g m full" and "rows_shape g m old" and "rv_group c = g" and "0 < m" and "0 < g"
  defines "t \<equiv> minus_rows (rv_orig c) (minus_rows full old)"
  shows "rows_shape g m t" and "target_rows c sg full old = stage_rows (is_split c sg) t"
    and "concat (target_rows c sg full old) = map2 (-) (concat (rv_orig c)) (map2 (-) (concat full) (concat old))"
proof -
  note a = concat_row_op [OF assms(2,3), of "(-)"]
  note b = concat_row_op [OF assms(1) a(2), of "(-)"]
  show "rows_shape g m t" using b(2) by (simp add: t_def minus_rows_def)
  show eq: "target_rows c sg full old = stage_rows (is_split c sg) t" by (simp add: target_rows_def stage_rows_def t_def)
  have "concat (map (\<lambda>x. [x]) xs) = xs" for xs :: vec by (induction xs) simp_all
  then have "concat (target_rows c sg full old) = concat t" unfolding eq by (simp add: stage_rows_def)
  then show "concat (target_rows c sg full old) = map2 (-) (concat (rv_orig c)) (map2 (-) (concat full) (concat old))"
    using a(1) b(1) by (simp add: t_def minus_rows_def)
qed

section \<open>Learning again\<close>

text \<open>Enough centroids to start from: as many as the stage asks for, or as there are rows.\<close>

lemma relearn_ok:
  assumes "rows \<noteq> []" and "\<forall>r \<in> set rows. length r = D" and "0 < D" and "0 < k" and "k \<le> length rows" and "k \<le> length cb"
    and "length cb \<le> 2 ^ 32" and "\<forall>row \<in> set cb. length row = D" and "weights_fit vw D" and "weights_fit sw (length rows)"
    and "\<forall>v. r32 fl (em_to32 em v) = em_to32 em v"
  shows "\<exists>cs a mse. learn_codebook_numpy (em_seeding em) rows (int k) 2 (Some (map (map of_rat) cb)) vw sw = Inr (cs, a, mse) \<and>
    relearn em rows k cb vw sw = Inr (map (map (em_to32 em)) cs) \<and> codebook_ok fl D (map (map (em_to32 em)) cs) \<and> length cs = k \<and>
    shaped D rows cs vw \<and>
    (\<forall>b. valid_assignment rows (take k (map (map of_rat) cb)) b \<longrightarrow> cost vw sw rows cs a \<le> cost vw sw rows (take k (map (map of_rat) cb)) b) \<and>
    nearest vw rows cs a"
proof -
  let ?start = "take k (map (map real_of_rat) cb)"
  have start: "?start = initial_centroids (em_seeding em) rows (min (nat (int k)) (length rows)) (Some (map (map of_rat) cb))"
    "length ?start = min (nat (int k)) (length rows)"
    using assms(5,6) by (simp_all add: initial_centroids_def min_def)
  have w: "weights_ok rows sw" using assms(10) by (simp add: weights_ok_def weights_fit_def list_all_iff split: option.splits)
  have sh: "shaped D rows ?start vw"
    using assms(2,8,9) by (auto simp: shaped_def weights_fit_def list_all_iff dest!: in_set_takeD split: option.splits)
  obtain cs a mse where cs: "learn_codebook_numpy (em_seeding em) rows (int k) 2 (Some (map (map of_rat) cb)) vw sw = Inr (cs, a, mse)"
    "length cs = length ?start" "shaped D rows cs vw" "nearest vw rows cs a"
    "\<forall>b. valid_assignment rows ?start b \<longrightarrow> cost vw sw rows cs a \<le> cost vw sw rows ?start b"
    using learn_codebook_ok [OF assms(1) _ _ assms(3) w start sh, of 2] assms(4) by auto
  have len: "length cs = k" using cs(2) assms(6) by simp
  have "codebook_ok fl D (map (map (em_to32 em)) cs)"
    using cs(3) len assms(4,6,7,11) by (auto simp: codebook_ok_def shaped_def)
  then show ?thesis using cs len by (intro exI [of _ cs] exI [of _ a] exI [of _ mse]) (simp add: relearn_def)
qed


section \<open>One step\<close>

lemma sample_count:
  assumes "\<not> leaves_stage px k" and "sample_vectors_and_weights rows sw (px_sample_vectors px) = Inr (tr, swt)"
  shows "min k (length tr) = min k (length rows)"
proof (cases "px_sample_vectors px")
  case (Some m)
  then have m: "int k < m" using assms(1) by (simp add: leaves_stage_def)
  show ?thesis
  proof (cases "int (length rows) \<le> m")
    case False
    then have "length tr = nat m"
      using assms(2) m Some by (auto simp: sample_vectors_and_weights_def sample_positions_def Let_def split: option.splits if_splits)
    then show ?thesis using m False by simp
  qed (use assms(2) Some m in \<open>auto simp: sample_vectors_and_weights_def\<close>)
qed (use assms(2) in \<open>simp add: sample_vectors_and_weights_def\<close>)

lemma sample_all: "px_sample_vectors px = None \<Longrightarrow> sample_vectors_and_weights rows sw (px_sample_vectors px) = Inr (rows, sw)"
  by (simp add: sample_vectors_and_weights_def)

text \<open>The laws of a run: the float formats, the compressor, the rounding to float32, a proper tensor with more than one stage.\<close>

definition em_laws :: "stage_ctx \<Rightarrow> em_ctx \<Rightarrow> decode_env \<Rightarrow> rvq \<Rightarrow> bool" where
  "em_laws px em x c0 \<longleftrightarrow> float_laws (dx_floats x) \<and> zlib_ok (dx_env x) \<and> (\<forall>v. r32 (dx_floats x) (em_to32 em v) = em_to32 em v) \<and>
     1 < px_n_stages px \<and> candidate_rows_ok c0"

text \<open>Replacing one stage, its files and nothing else.\<close>

lemma em_inv_replace:
  assumes "1 < px_n_stages px" and "em_inv px x stem c0 (c, full, s)" and i: "i < length (rv_data c)"
    and "stage_wf px stem (rv_group c0) (length (rv_orig c0)) i entry d"
    and "stage_readable (x\<lparr>dx_files := s'\<rparr>) (rv_group c0) (length (rv_orig c0) * rv_group c0) entry d"
    and other: "\<And>q. q \<noteq> em_path stem i ''.codebook.f32'' \<Longrightarrow> q \<noteq> em_path stem i ''.indices'' \<Longrightarrow> s' q = s q"
    and "rows_shape (rv_group c0) (length (rv_orig c0)) full'"
    and "concat full' = total_flat (length (rv_orig c0) * rv_group c0) ((rv_data c)[i := d])"
  shows "em_inv px x stem c0 (c\<lparr>rv_data := (rv_data c)[i := d], rv_meta := (rv_meta c)[i := entry]\<rparr>, full', s')"
proof -
  define g m where gm: "g = rv_group c0" "m = length (rv_orig c0)"
  have all: "\<And>i. i < length (rv_data c) \<Longrightarrow> stage_wf px stem g m i (rv_meta c ! i) (rv_data c ! i) \<and>
      stage_readable (x\<lparr>dx_files := s\<rparr>) g (m * g) (rv_meta c ! i) (rv_data c ! i)" and same: "length (rv_meta c) = length (rv_data c)"
    using assms(2) unfolding em_inv_def Let_def prod.case gm by auto
  have others: "stage_readable (x\<lparr>dx_files := s'\<rparr>) g (m * g) (rv_meta c ! l) (rv_data c ! l)" if l: "l < length (rv_data c)" "l \<noteq> i" for l
  proof -
    have p: "sg_codebook (se_meta (rv_meta c ! l)) = em_path stem l ''.codebook.f32''" "sg_indices (se_meta (rv_meta c ! l)) = em_path stem l ''.indices''"
      using all [OF l(1)] unfolding stage_wf_def em_path_is_stage_path [OF assms(1)] by (auto split: prod.splits)
    have "s' (em_path stem l ''.codebook.f32'') = s (em_path stem l ''.codebook.f32'')"
      "s' (em_path stem l ''.indices'') = s (em_path stem l ''.indices'')"
      unfolding atomize_conj using l(2) em_path_ext [of stem l i] em_path_ext [of stem i l] other em_path_inject [of stem l _ i] by simp
    then have "read_stage_arrays (x\<lparr>dx_files := s'\<rparr>) (se_meta (rv_meta c ! l)) g (m * g) = read_stage_arrays (x\<lparr>dx_files := s\<rparr>) (se_meta (rv_meta c ! l)) g (m * g)"
      by (intro read_stage_cong) (simp_all add: p)
    then show ?thesis using all [OF l(1)] by (simp add: stage_readable_def split: prod.splits)
  qed
  have "stage_wf px stem g m l ((rv_meta c)[i := entry] ! l) ((rv_data c)[i := d] ! l) \<and>
      stage_readable (x\<lparr>dx_files := s'\<rparr>) g (m * g) ((rv_meta c)[i := entry] ! l) ((rv_data c)[i := d] ! l)"
    if "l < length (rv_data c)" for l
    using that all [OF that] others [OF that] assms(4,5) i same by (cases "l = i") (simp_all add: gm)
  then show ?thesis using assms(2,7,8) by (simp add: em_inv_def Let_def gm)
qed

lemma em_step:
  assumes laws: "em_laws px em x c0" and inv: "em_inv px x stem c0 (c, full, s)" and i: "i < length (rv_data c)"
    and stays: "\<not> leaves_stage px (se_codebook_size (rv_meta c ! i))" and d0: "rv_data c ! i = (j, cb0, idxs0, sg)"
  obtains old rows tr swt vw cs a mse cb idxs c' full' s' where
    "decoded_rows c (j, cb0, idxs0, sg) = Inr old" and "rows = target_rows c sg full old"
    and "concat rows = map2 (-) (concat (rv_orig c)) (map2 (-) (concat full) (stage_flat cb0 idxs0))"
    and "rows \<noteq> []" and "\<forall>r \<in> set rows. length r = sg" and "0 < sg" and "length idxs0 = length rows" and "list_all (\<lambda>j. j < length cb0) idxs0"
    and "\<forall>row \<in> set cb0. length row = sg"
    and "vw = (if 1 < sg then rv_vector_weights c else None)"
    and "sample_vectors_and_weights rows (if 1 < sg then rv_sample_weights c else None) (px_sample_vectors px) = Inr (tr, swt)"
    and "learn_codebook_numpy (em_seeding em) tr (int (min (se_codebook_size (rv_meta c ! i)) (length tr))) 2
           (Some (map (map of_rat) cb0)) vw swt = Inr (cs, a, mse)"
    and "shaped sg tr cs vw" and "nearest vw tr cs a"
    and "\<forall>b. valid_assignment tr (take (length cs) (map (map of_rat) cb0)) b \<longrightarrow>
           cost vw swt tr cs a \<le> cost vw swt tr (take (length cs) (map (map of_rat) cb0)) b"
    and "em_stage px em (dx_floats x) (dx_env x) stem (c, full, s) i = Inr (c', full', s')"
    and "rv_data c' = (rv_data c)[i := (j, cb, idxs, sg)]" and "length cb = length cs" and "\<forall>row \<in> set cb. length row = sg"
    and "cast_codebook_storage (dx_floats x) sg (map (map (em_to32 em)) cs) (get_or (sg_codebook_dtype (se_meta (rv_meta c ! i))) ''float32'')
           = Inr (cb, get_or (sg_codebook_dtype (se_meta (rv_meta c' ! i))) '''')"
    and "nearest vw rows (map (map of_rat) cb) idxs"
    and "length cs = min (se_codebook_size (rv_meta c ! i)) (length rows)"
    and "em_inv px x stem c0 (c', full', s')"
    and "concat full' = map2 (+) (map2 (-) (concat full) (stage_flat cb0 idxs0)) (stage_flat cb idxs)"
proof -
  define g m k where gmk: "g = rv_group c0" "m = length (rv_orig c0)" "k = se_codebook_size (rv_meta c ! i)"
  have fl: "float_laws (dx_floats x)" "zlib_ok (dx_env x)" "\<forall>v. r32 (dx_floats x) (em_to32 em v) = em_to32 em v" "1 < px_n_stages px"
    and pos: "0 < m" "0 < g" and orig0: "rows_shape g m (rv_orig c0)"
    and w0: "weights_fit (rv_vector_weights c0) g" "weights_fit (rv_sample_weights c0) m"
    using laws by (auto simp: em_laws_def candidate_rows_ok_def gmk)
  have same: "rv_orig c = rv_orig c0" "rv_group c = g" "rv_vector_weights c = rv_vector_weights c0" "rv_sample_weights c = rv_sample_weights c0"
      "rv_name c = rv_name c0" "length (rv_meta c) = length (rv_data c)"
    and all: "\<And>i. i < length (rv_data c) \<Longrightarrow> stage_wf px stem g m i (rv_meta c ! i) (rv_data c ! i) \<and>
        stage_readable (x\<lparr>dx_files := s\<rparr>) g (m * g) (rv_meta c ! i) (rv_data c ! i)"
    and full: "rows_shape g m full" "concat full = total_flat (m * g) (rv_data c)"
    using inv unfolding em_inv_def Let_def prod.case gmk by auto
  define met where "met = se_meta (rv_meta c ! i)"
  have wf: "j = i" "sg = g \<or> sg = 1" "\<forall>row \<in> set cb0. length row = sg" "cb0 \<noteq> []" "length idxs0 * sg = m * g" "length cb0 \<le> k"
      "min k (length idxs0) \<le> length cb0" "k \<le> 2 ^ 32"
    and paths: "sg_codebook met = em_path stem i ''.codebook.f32''" "sg_indices met = em_path stem i ''.indices''"
    and met: "sg_index_bits met = index_bits_for_size k" "sg_group_size met = Some sg"
      "sg_packed met = Some (sg_index_bits met mod 8 \<noteq> 0)" "sg_encoding met = Some ''zlib'' \<or> sg_encoding met = Some ''raw''"
      "sg_codebook_dtype met = Some ''float16'' \<or> sg_codebook_dtype met = Some ''float32''"
    using all [OF i] unfolding d0 stage_wf_def prod.case gmk(3) met_def em_path_is_stage_path [OF fl(4)] by blast+
  have data0: "data_ok g m (j, cb0, idxs0, sg)" using readable_data_ok all [OF i] d0 by metis
  have less0: "list_all (\<lambda>j. j < length cb0) idxs0" using data0 by (simp add: data_ok_def)
  obtain old where old: "decoded_rows c (j, cb0, idxs0, sg) = Inr old" "rows_shape g m old" "concat old = stage_flat cb0 idxs0"
    using decoded_rows_ok [OF data0 same(2) pos(2)] by (auto simp: entry_flat_def)
  define rows where "rows = target_rows c sg full old"
  let ?b = "is_split c sg"
  have orig: "rows_shape g m (rv_orig c)" using orig0 same(1) by simp
  note target = target_shape [OF orig full(1) old(2) same(2) pos]
  note sg = split_width(1) [OF wf(2) pos(2) same(2) wf(5)] and count0 = split_width(2) [OF wf(2) pos(2) same(2) wf(5)]
  have shape: "rows_shape (if ?b then 1 else g) (if ?b then m * g else m) rows" "rows \<noteq> []"
    using stage_rows_shape [OF target(1) pos, of ?b] unfolding rows_def target(2) by blast+
  have D: "\<forall>r \<in> set rows. length r = sg" "0 < sg" "length rows = length idxs0"
    using shape(1) sg count0 pos(2) by (cases ?b; simp add: rows_shape_def)+
  define vw sw where w: "vw = (if 1 < sg then rv_vector_weights c else None)" "sw = (if 1 < sg then rv_sample_weights c else None)"
  have fits: "weights_fit vw sg" "weights_fit sw (length rows)"
    using wf(2) w0 D(3) wf(5) pos(2) by (auto simp: w same weights_fit_def split: option.splits)
  obtain tr swt where tr: "sample_vectors_and_weights rows sw (px_sample_vectors px) = Inr (tr, swt)" "tr \<noteq> []" "\<forall>r \<in> set tr. length r = sg"
    "weights_fit swt (length tr)"
    using sample_ok [OF shape(2) D(1) fits(2)] by blast
  define k' where "k' = min k (length tr)"
  have k': "k' = min k (length rows)" using sample_count [OF stays [folded gmk(3)] tr(1)] by (simp add: k'_def)
  have "0 < length cb0" "0 < length tr" "0 < length rows" using wf(4) tr(2) shape(2) by simp_all
  moreover from this(1) have "0 < k" using wf(6) by linarith
  ultimately have kpos: "0 < k'" "k' \<le> length tr" "k' \<le> length cb0" "length cb0 \<le> 2 ^ 32"
    using wf(6-8) D(3) k' by (simp_all add: k'_def)
  obtain cs a mse where cs: "learn_codebook_numpy (em_seeding em) tr (int k') 2 (Some (map (map of_rat) cb0)) vw swt = Inr (cs, a, mse)"
    "relearn em tr k' cb0 vw swt = Inr (map (map (em_to32 em)) cs)" "codebook_ok (dx_floats x) sg (map (map (em_to32 em)) cs)" "length cs = k'"
    "shaped sg tr cs vw" "nearest vw tr cs a"
    "\<forall>b. valid_assignment tr (take k' (map (map of_rat) cb0)) b \<longrightarrow> cost vw swt tr cs a \<le> cost vw swt tr (take k' (map (map of_rat) cb0)) b"
    using relearn_ok [OF tr(2,3) D(2) kpos wf(3) fits(1) tr(4) fl(3)] by blast
  define dtype0 where "dtype0 = get_or (sg_codebook_dtype met) ''float32''"
  have dtype0: "dtype0 = ''float16'' \<or> dtype0 = ''float32''" using met(5) by (auto simp: dtype0_def get_or_def)
  define cp ip where pths: "cp = em_path stem i ''.codebook.f32''" "ip = em_path stem i ''.indices''"
  obtain cb dtype bs where cb: "cast_codebook_storage (dx_floats x) sg (map (map (em_to32 em)) cs) dtype0 = Inr (cb, dtype)" "length cb = k'"
    "\<forall>row \<in> set cb. length row = sg" "dtype = ''float16'' \<or> dtype = ''float32''"
    "write_codebook (dx_floats x) cp sg cb dtype s = Inr (s(cp \<mapsto> bs))" "codebook_file (dx_floats x) sg cb dtype cp (s(cp \<mapsto> bs))"
    using stored_codebook [OF fl(1) cs(3) D(2) dtype0, of cp] cs(4) by auto
  have ne: "cb \<noteq> []" using cb(2) kpos(1) by auto
  have width: "rows_shape sg (length rows) rows" using D(1) by (simp add: rows_shape_def)
  have sh: "shaped sg rows (map (map of_rat) cb) vw" using shaped_stage [OF width cb(3), of False vw] fits(1) by simp
  obtain idxs where idxs: "numpy_assign rows (map (map of_rat) cb) 65536 None vw False = Inr (idxs, 0)" "nearest vw rows (map (map of_rat) cb) idxs"
    using numpy_assign_plain [OF sh _ shape(2) D(2)] ne by auto
  note near = gather_near [OF idxs(2)]
  have data1: "data_ok g m (j, cb, idxs, sg)" using wf(2,5) cb(3) near(2,3) D(3) by (simp add: data_ok_def)
  obtain new where new: "decoded_rows c (j, cb, idxs, sg) = Inr new" "rows_shape g m new" "concat new = stage_flat cb idxs" "length (stage_flat cb idxs) = m * g"
    using decoded_rows_ok [OF data1 same(2) pos(2)] by (auto simp: entry_flat_def)
  let ?bits = "sg_index_bits met"
  have "\<forall>j \<in> set idxs. j < 2 ^ ?bits"
    using near(2) cb(2) index_bits_hold(2) [OF wf(8)] unfolding met(1) by (fastforce simp: list_all_iff k'_def)
  then obtain s2 enc where ix: "write_indices (dx_env x) ip idxs ?bits (sg_encoding met) (s(cp \<mapsto> bs)) = Inr (s2, ?bits mod 8 \<noteq> 0, enc)"
    "read_indices (dx_env x) ip ?bits (length idxs) (?bits mod 8 \<noteq> 0) enc s2 = Inr (map int idxs)" "enc = ''zlib'' \<or> enc = ''raw''"
    using write_read_indices [OF fl(2) index_bits_hold(1) [OF wf(8)], of idxs "sg_encoding met" ip "s(cp \<mapsto> bs)"] met(1,4) by auto
  have other: "s2 q = s q" if "q \<noteq> cp" "q \<noteq> ip" for q using that write_indices_other [OF ix(1)] by simp
  define entry where "entry = (rv_meta c ! i)\<lparr>se_meta := met\<lparr>sg_codebook_dtype := Some dtype, sg_encoding := Some enc\<rparr>\<rparr>"
  define c' where "c' = c\<lparr>rv_data := (rv_data c)[i := (j, cb, idxs, sg)], rv_meta := (rv_meta c)[i := entry]\<rparr>"
  define full' where "full' = plus_rows (minus_rows full old) new"
  have run: "em_stage px em (dx_floats x) (dx_env x) stem (c, full, s) i = Inr (c', full', s2)"
    unfolding em_stage_def prod.case d0 Let_def gmk(3) [symmetric] met_def [symmetric] if_not_P [OF stays [folded gmk(3)]] old(1)
      bind_err_simps rows_def [symmetric] w [symmetric] tr(1) lift_err_simps k'_def [symmetric] cs(2) dtype0_def [symmetric] comp_def cb(1)
      idxs(1) new(1) pths [symmetric] cb(5) ix(1) c'_def entry_def full'_def by (rule refl)
  note minus = concat_row_op [OF full(1) old(2), of "(-)"]
  note plus = concat_row_op [OF minus(2) new(2), of "(+)"]
  have tot: "concat full' = total_flat (m * g) ((rv_data c)[i := (j, cb, idxs, sg)])" "rows_shape g m full'"
  proof -
    have "\<forall>d \<in> set (rv_data c). length (entry_flat d) = m * g"
      using em_inv_data_ok [OF inv] decoded_rows_ok [OF _ same(2) pos(2)] unfolding gmk(1,2) by blast
    then show "concat full' = total_flat (m * g) ((rv_data c)[i := (j, cb, idxs, sg)])"
      using total_flat_replace [of "rv_data c" "m * g" i "(j, cb, idxs, sg)"] i pos new(4) d0 plus(1) minus(1) full(2) old(3) new(3)
      by (simp add: entry_flat_def full'_def plus_rows_def minus_rows_def)
    show "rows_shape g m full'" using plus(2) by (simp add: full'_def plus_rows_def minus_rows_def)
  qed
  have inv': "em_inv px x stem c0 (c', full', s2)"
  proof -
    have cbf: "codebook_file (dx_floats x) sg cb dtype cp s2"
      using codebook_file_cong [of s2 cp "s(cp \<mapsto> bs)"] write_indices_other [OF ix(1), of cp] em_path_ext cb(6) by (simp add: pths)
    have count: "ceil_div (m * g) sg = length idxs" using ceil_div_exact [OF D(2), of "length idxs0"] wf(5) near(3) D(3) by simp
    have "stage_readable (x\<lparr>dx_files := s2\<rparr>) g (m * g) entry (j, cb, idxs, sg)"
      using cbf ix(2) D(2) count near(2) new(4) met(2,3) paths
      by (simp add: stage_readable_def read_stage_arrays_def entry_def get_or_def codebook_file_def pths)
    moreover have "stage_wf px stem g m i entry (j, cb, idxs, sg)"
      using wf cb(2-4) ne met near(3) D(3) paths k' ix(3) unfolding stage_wf_def em_path_is_stage_path [OF fl(4)]
      by (simp add: entry_def gmk(3) [symmetric])
    ultimately show ?thesis
      unfolding c'_def using other tot by (intro em_inv_replace [OF fl(4) inv i]) (simp_all add: gmk [symmetric] pths)
  qed
  have conc: "concat rows = map2 (-) (concat (rv_orig c)) (map2 (-) (concat full) (stage_flat cb0 idxs0))"
    using target(3) old(3) by (simp add: rows_def)
  have sums: "concat full' = map2 (+) (map2 (-) (concat full) (stage_flat cb0 idxs0)) (stage_flat cb idxs)"
    using plus(1) minus(1) old(3) new(3) by (simp add: full'_def plus_rows_def minus_rows_def)
  have dt: "get_or (sg_codebook_dtype (se_meta (rv_meta c' ! i))) '''' = dtype" using i same(6) by (simp add: c'_def entry_def get_or_def)
  show thesis
    by (rule that [of old rows vw tr swt cs a mse c' full' s2 cb idxs])
      (use old(1) rows_def conc shape(2) D less0 wf(3) w tr(1) cs run cb(2,3) idxs(2) inv' k' dt cb(1) sums in
        \<open>simp_all add: gmk(3) [symmetric] k'_def [symmetric] c'_def dtype0_def met_def\<close>)
qed


section \<open>The passes\<close>

lemma em_stage_keeps:
  assumes "em_laws px em x c0" and "em_inv px x stem c0 st" and "i < length (rv_data (fst st))"
  shows "\<exists>st'. em_stage px em (dx_floats x) (dx_env x) stem st i = Inr st' \<and> em_inv px x stem c0 st' \<and>
    length (rv_data (fst st')) = length (rv_data (fst st))"
proof -
  obtain c full s where st: "st = (c, full, s)" by (cases st)
  obtain j cb0 idxs0 sg where d0: "rv_data c ! i = (j, cb0, idxs0, sg)" by (cases "rv_data c ! i")
  show ?thesis
  proof (cases "leaves_stage px (se_codebook_size (rv_meta c ! i))")
    case True
    then show ?thesis using assms(2) by (simp add: st d0 em_stage_def Let_def)
  next
    case False
    show ?thesis using em_step [OF assms(1) assms(2) [unfolded st] _ False d0] assms(3)
      by (simp add: st split_paired_Ex) (metis length_list_update)
  qed
qed

lemma em_stages_keep:
  assumes "em_laws px em x c0" and "em_inv px x stem c0 st" and "\<forall>i \<in> set is'. i < length (rv_data (fst st))"
  shows "\<exists>st'. foldM (em_stage px em (dx_floats x) (dx_env x) stem) st is' = Inr st' \<and> em_inv px x stem c0 st' \<and>
    length (rv_data (fst st')) = length (rv_data (fst st))"
  using assms(2,3)
proof (induction is' arbitrary: st)
  case (Cons i is')
  obtain st1 where st1: "em_stage px em (dx_floats x) (dx_env x) stem st i = Inr st1" "em_inv px x stem c0 st1"
    "length (rv_data (fst st1)) = length (rv_data (fst st))"
    using em_stage_keeps [OF assms(1) Cons.prems(1), of i] Cons.prems(2) by (auto simp del: split_paired_Ex)
  then show ?case using Cons.IH [OF st1(2)] Cons.prems(2) by simp
qed simp

lemma joint_passes_keep:
  assumes "em_laws px em x c0" and "em_inv px x stem c0 st"
  shows "\<exists>st'. joint_passes px em (dx_floats x) (dx_env x) stem st = Inr st' \<and> em_inv px x stem c0 st' \<and>
    length (rv_data (fst st')) = length (rv_data (fst st))"
proof -
  define n where "n = length (rv_data (fst st))"
  have "\<exists>st'. foldM (\<lambda>st _. foldM (em_stage px em (dx_floats x) (dx_env x) stem) st [0..<n]) st ps = Inr st' \<and> em_inv px x stem c0 st' \<and>
      length (rv_data (fst st')) = n"
    if "em_inv px x stem c0 st" "length (rv_data (fst st)) = n" for ps :: "nat list" and st
    using that
  proof (induction ps arbitrary: st)
    case (Cons p ps)
    obtain st1 where st1: "foldM (em_stage px em (dx_floats x) (dx_env x) stem) st [0..<n] = Inr st1" "em_inv px x stem c0 st1"
      "length (rv_data (fst st1)) = n"
      using em_stages_keep [OF assms(1) Cons.prems(1), of "[0..<n]"] Cons.prems(2) by (auto simp del: split_paired_Ex)
    then show ?case using Cons.IH [OF st1(2,3)] by simp
  qed simp
  from this [OF assms(2) n_def [symmetric], of "[0..<nat (em_passes em)]"] show ?thesis
    using assms(2) unfolding joint_passes_def Let_def n_def by (cases "1 < length (rv_data (fst st))") (simp_all del: split_paired_Ex)
qed

section \<open>After the stage loop\<close>

lemma stage_specs_uniform:
  assumes "specs_ok px name fam"
  shows "\<exists>stages. \<forall>i. stage_spec_for_candidate px name fam i = Inr (stage_at i stages)"
proof -
  have "stage_spec_for_candidate px name fam 0 \<noteq> Inl e" for e
    using assms by (auto simp: specs_ok_def list_all_iff split: sum.splits)
  then show ?thesis
    unfolding stage_spec_for_candidate_def
    by (cases "case px_tensor_stages px of Some m \<Rightarrow> stages_for m name | None \<Rightarrow> None"; cases "px_family_stages px";
        cases "the (px_family_stages px) fam") auto
qed

text \<open>The stages done before stage \<open>i\<close> are recorded in order, the specification's end cuts them short.\<close>

lemma run_stages_records:
  assumes "float_laws (dx_floats x)" "zlib_ok (dx_env x)" "learner_ok (dx_floats x) px"
    and "px_codebook_dtype px = ''float16'' \<or> px_codebook_dtype px = ''float32''"
    and "candidate_rows_ok c0" and "specs_ok px (rv_name c0) (rv_family c0)" and "fresh_candidate c0"
    and stages: "\<forall>i. stage_spec_for_candidate px (rv_name c0) (rv_family c0) i = Inr (stage_at i stages)" and "n \<le> px_n_stages px"
  shows "\<exists>c s. foldM (run_stage px (dx_floats x) (dx_env x) stem) (c0, dx_files x) [0..<n] = Inr (c, s) \<and>
    rvq_inv px (x\<lparr>dx_files := s\<rparr>) stem c0 n c \<and> length (rv_data c) = min n (length stages) \<and> length (rv_meta c) = length (rv_data c) \<and>
    (\<forall>i < length (rv_data c). stage_wf px stem (rv_group c0) (length (rv_orig c0)) i (rv_meta c ! i) (rv_data c ! i))"
  using assms(9)
proof (induction n)
  case 0
  then show ?case using rvq_inv_start [OF assms(5,7)] assms(7) by (auto simp: fresh_candidate_def)
next
  case (Suc n)
  let ?wf = "\<lambda>i c. stage_wf px stem (rv_group c0) (length (rv_orig c0)) i (rv_meta c ! i) (rv_data c ! i)"
  obtain c s where IH: "foldM (run_stage px (dx_floats x) (dx_env x) stem) (c0, dx_files x) [0..<n] = Inr (c, s)"
    "rvq_inv px (x\<lparr>dx_files := s\<rparr>) stem c0 n c" "length (rv_data c) = min n (length stages)" "length (rv_meta c) = length (rv_data c)"
    "\<forall>i < length (rv_data c). ?wf i c"
    using Suc.IH Suc.prems by auto
  have n: "n < px_n_stages px" using Suc.prems by simp
  have names: "rv_name c = rv_name c0" "rv_family c = rv_family c0" using IH(2) unfolding rvq_inv_def Let_def by auto
  show ?case
  proof (cases "n < length stages")
    case False
    have "rvq_inv px (x\<lparr>dx_files := s\<rparr>) stem c0 (Suc n) c"
      using IH(2) n unfolding rvq_inv_def Let_def by (auto intro: less_SucI)
    moreover have "run_stage px (dx_floats x) (dx_env x) stem (c, s) n = Inr (c, s)"
      using stages False by (simp add: run_stage_def names stage_at_def)
    ultimately show ?thesis using IH False by (auto simp: foldM_append)
  next
    case True
    have "stage_spec_for_candidate px (rv_name c0) (rv_family c0) n = Inr (Some (stages ! n))"
      using stages True by (simp add: stage_at_def)
    moreover obtain b k where k: "stage_size (stages ! n) = Inr (b, k)" "0 < k"
    proof -
      have "case stage_size (stages ! n) of Inl _ \<Rightarrow> False | Inr (_, k) \<Rightarrow> 0 < k"
        using assms(6) [unfolded specs_ok_def list_all_iff, THEN conjunct2, rule_format, of n] n calculation by simp
      then show ?thesis using that by (auto split: sum.splits)
    qed
    ultimately obtain c' s' st d where step: "run_stage px (dx_floats x) (dx_env x) stem (c, s) n = Inr (c', s')"
      "rvq_inv px (x\<lparr>dx_files := s'\<rparr>) stem c0 (Suc n) c'" "rv_meta c' = rv_meta c @ [st]" "rv_data c' = rv_data c @ [d]"
      "stage_wf px stem (rv_group c0) (length (rv_orig c0)) n st d"
      using quantize_stage_ok [OF assms(1-5) IH(2) n k] by (auto simp: run_stage_def names)
    then show ?thesis using IH True by (auto simp: foldM_append nth_append less_Suc_eq)
  qed
qed


lemma em_start:
  assumes "float_laws (dx_floats x)" "zlib_ok (dx_env x)" "learner_ok (dx_floats x) px"
    and "px_codebook_dtype px = ''float16'' \<or> px_codebook_dtype px = ''float32''"
    and "candidate_rows_ok c0" and "specs_ok px (rv_name c0) (rv_family c0)" and "fresh_candidate c0"
  obtains c s full where "run_stages px (dx_floats x) (dx_env x) stem (c0, dx_files x) = Inr (c, s)"
    and "full_sum c = Inr full" and "em_inv px (x\<lparr>dx_files := s'\<rparr>) stem c0 (c, full, s)" and "rv_data c \<noteq> []"
    and "rv_orig c = rv_orig c0" and "rv_group c = rv_group c0" and "rv_name c = rv_name c0"
proof -
  obtain stages where stages: "\<forall>i. stage_spec_for_candidate px (rv_name c0) (rv_family c0) i = Inr (stage_at i stages)"
    using stage_specs_uniform [OF assms(6)] by blast
  let ?g = "rv_group c0" and ?m = "length (rv_orig c0)"
  obtain c s where run: "run_stages px (dx_floats x) (dx_env x) stem (c0, dx_files x) = Inr (c, s)"
    "rvq_inv px (x\<lparr>dx_files := s\<rparr>) stem c0 (px_n_stages px) c" "length (rv_data c) = min (px_n_stages px) (length stages)"
    "length (rv_meta c) = length (rv_data c)"
    "\<forall>i < length (rv_data c). stage_wf px stem ?g ?m i (rv_meta c ! i) (rv_data c ! i)"
    unfolding run_stages_def using run_stages_records [OF assms stages order_refl, of stem] by blast
  have same: "rv_orig c = rv_orig c0" "rv_group c = ?g" "rv_name c = rv_name c0" "rv_vector_weights c = rv_vector_weights c0"
      "rv_sample_weights c = rv_sample_weights c0" "list_all2 (stage_readable (x\<lparr>dx_files := s\<rparr>) ?g (?m * ?g)) (rv_meta c) (rv_data c)"
    using run(2) unfolding rvq_inv_def Let_def by auto
  have readable: "stage_readable (x\<lparr>dx_files := s\<rparr>) ?g (?m * ?g) (rv_meta c ! i) (rv_data c ! i)" if "i < length (rv_data c)" for i
    using same(6) that by (auto simp: list_all2_conv_all_nth)
  have "stage_at 0 stages \<noteq> None" "0 < px_n_stages px"
    using assms(6) [unfolded specs_ok_def list_all_iff, THEN conjunct2, rule_format, of 0] stages assms(6) by (auto simp: specs_ok_def split: option.splits)
  then have "0 < length (rv_data c)" unfolding run(3) by (simp add: stage_at_def split: if_splits)
  then have ne: "rv_data c \<noteq> []" by simp
  have "\<forall>d \<in> set (rv_data c). data_ok ?g ?m d" using run(5) readable readable_data_ok by (metis in_set_conv_nth)
  moreover have "0 < ?g" using assms(5) by (simp add: candidate_rows_ok_def)
  ultimately obtain full where full: "full_sum c = Inr full" "rows_shape ?g ?m full" "concat full = total_flat (?m * ?g) (rv_data c)"
    using full_sum_ok [of c ?g ?m] ne same(2) by blast
  have "em_inv px (x\<lparr>dx_files := s'\<rparr>) stem c0 (c, full, s)"
    using same run(4,5) readable full(2,3) by (simp add: em_inv_def)
  then show thesis using that run(1) full(1) ne same by blast
qed

lemma em_inv_decodes:
  assumes "em_inv px x stem c0 (c, full, s)" and "rv_data c \<noteq> []" and "candidate_rows_ok c0"
    and "tm_group_size tm = rv_group c0" and "tm_padded_values tm = length (rv_orig c0) * rv_group c0"
  shows "decode_stages (x\<lparr>dx_files := s\<rparr>) (tm\<lparr>tm_stages := map se_meta (rv_meta c)\<rparr>) = Inr (concat full)"
    and "full = blocks_of (rv_group c0) (concat full)"
proof -
  let ?n = "length (rv_orig c0) * rv_group c0"
  have g: "0 < rv_group c0" using assms(3) by (simp add: candidate_rows_ok_def)
  have files: "list_all2 (stage_readable (x\<lparr>dx_files := s\<rparr>) (rv_group c0) ?n) (rv_meta c) (rv_data c)"
    and full: "concat full = total_flat ?n (rv_data c)" "rows_shape (rv_group c0) (length (rv_orig c0)) full"
    using assms(1) by (simp_all add: em_inv_def Let_def list_all2_conv_all_nth)
  moreover have "rv_meta c \<noteq> []" using files assms(2) by auto
  ultimately show "decode_stages (x\<lparr>dx_files := s\<rparr>) (tm\<lparr>tm_stages := map se_meta (rv_meta c)\<rparr>) = Inr (concat full)"
    using decode_stages_total [OF files _ g, of "tm\<lparr>tm_stages := map se_meta (rv_meta c)\<rparr>"] assms(4,5) by simp
  show "full = blocks_of (rv_group c0) (concat full)"
    using blocks_of_concat [of full, OF _ g] full(2) by (simp add: rows_shape_def)
qed

section \<open>Properties\<close>

text \<open>C30: With codebooks stored in float16 or float32 (not int8), more than one stage and the conditions of the stage
  loop (\<open>stages_decode_as_measured\<close>), the refinement after the stage loop succeeds up to the metrics, and what it rewrites
  on disk is what it measured: whatever codebooks of the shapes asked for are learned and however many passes run, decoding the recorded stages from the files
  gives the running sum the metrics compare with the original. A skipped or giant tensor is left as the stage loop left it,
  which also decodes to its sum.\<close>

theorem em_aq_measures_its_files:
  assumes "float_laws (dx_floats x)" and "zlib_ok (dx_env x)" and "learner_ok (dx_floats x) px"
    and "px_codebook_dtype px = ''float16'' \<or> px_codebook_dtype px = ''float32''"
    and "candidate_rows_ok c0" and "specs_ok px (rv_name c0) (rv_family c0)" and "fresh_candidate c0"
    and "1 < px_n_stages px" and "\<forall>v. r32 (dx_floats x) (em_to32 em v) = em_to32 em v"
    and "tm_group_size tm = rv_group c0" and "tm_padded_values tm = length (rv_orig c0) * rv_group c0"
  shows "\<exists>c s metas books s' tot.
    run_stages px (dx_floats x) (dx_env x) (em_dir em @ safe_tensor_name (rv_name c0)) (c0, dx_files x) = Inr (c, s) \<and>
    (if drop_weight (rv_name c0) \<in> em_skipped em \<or> rv_name c0 \<in> em_skipped em \<or>
        em_torch em \<and> is_giant_matrix em (length (rv_orig c0)) (rv_group c0)
     then em_candidate px em (dx_floats x) (dx_env x) reg s (c, cand, source_flat) = Inr (Kept c, s') \<and> metas = rv_meta c
     else em_candidate px em (dx_floats x) (dx_env x) reg s (c, cand, source_flat) =
       bind_err (lift_err EmMetric (stage_quality_metrics reg cand source_flat (rv_orig c0) (blocks_of (rv_group c0) tot)))
         (\<lambda>q. Inr (Refined metas books q, s'))) \<and>
    decode_stages (x\<lparr>dx_files := s'\<rparr>) (tm\<lparr>tm_stages := map se_meta metas\<rparr>) = Inr tot"
proof -
  let ?stem = "em_dir em @ safe_tensor_name (rv_name c0)"
  have laws: "em_laws px em x c0" using assms(1,2,5,8,9) by (simp add: em_laws_def)
  obtain c s full where start: "run_stages px (dx_floats x) (dx_env x) ?stem (c0, dx_files x) = Inr (c, s)" "full_sum c = Inr full"
    "em_inv px x ?stem c0 (c, full, s)" "rv_data c \<noteq> []"
    and same: "rv_orig c = rv_orig c0" "rv_group c = rv_group c0" "rv_name c = rv_name c0"
    using em_start [OF assms(1-7), of ?stem "dx_files x"] by auto
  obtain c' full' s' where passes: "joint_passes px em (dx_floats x) (dx_env x) ?stem (c, full, s) = Inr (c', full', s')"
    "em_inv px x ?stem c0 (c', full', s')" "length (rv_data c') = length (rv_data c)"
    using joint_passes_keep [OF laws start(3)] by auto
  have ne: "rv_data c' \<noteq> []" using passes(3) start(4) by auto
  note kept = em_inv_decodes [OF start(3,4) assms(5,10,11)] and refined = em_inv_decodes [OF passes(2) ne assms(5,10,11)]
  show ?thesis
  proof (cases "drop_weight (rv_name c0) \<in> em_skipped em \<or> rv_name c0 \<in> em_skipped em \<or>
      em_torch em \<and> is_giant_matrix em (length (rv_orig c0)) (rv_group c0)")
    case True
    then have "em_candidate px em (dx_floats x) (dx_env x) reg s (c, cand, source_flat) = Inr (Kept c, s)"
      by (auto simp: em_candidate_def same)
    then show ?thesis using True start(1) kept(1) by (intro exI [of _ c] exI [of _ s] exI [of _ "rv_meta c"] exI [of _ s] exI [of _ "concat full"]) auto
  next
    case False
    then have on: "\<not> (drop_weight (rv_name c0) \<in> em_skipped em \<or> rv_name c0 \<in> em_skipped em)"
      "\<not> (em_torch em \<and> is_giant_matrix em (length (rv_orig c0)) (rv_group c0))" by blast+
    let ?books = "map (\<lambda>(j, cb, _, sg). (j, cb, sg)) (rv_data c')"
    have "em_candidate px em (dx_floats x) (dx_env x) reg s (c, cand, source_flat) =
        bind_err (lift_err EmMetric (stage_quality_metrics reg cand source_flat (rv_orig c0) (blocks_of (rv_group c0) (concat full'))))
          (\<lambda>q. Inr (Refined (rv_meta c') ?books q, s'))"
      unfolding em_candidate_def prod.case same if_not_P [OF on(1)] if_not_P [OF on(2)]
      using start(2) passes(1) refined(2) by simp
    then show ?thesis unfolding if_not_P [OF False] using start(1) refined(1)
      by (intro exI [of _ c] exI [of _ s] exI [of _ "rv_meta c'"] exI [of _ ?books] exI [of _ s'] exI [of _ "concat full'"]) simp
  qed
qed


section \<open>A step does not make the sum worse, but for the rounding of its codebook\<close>

definition length2 :: "real list \<Rightarrow> real" where
  "length2 v = sqrt (dot v v)"

text \<open>The error of the sum.\<close>

definition sum_error :: "vec list \<Rightarrow> vec list \<Rightarrow> real" where
  "sum_error orig full = length2 (map2 (-) (concat orig) (concat full))"

lemma length2_nonneg: "0 \<le> length2 v"
  by (simp add: length2_def dot_self_nonneg)

lemma dot_plus: "length x = length y \<Longrightarrow> dot (map2 (+) x y) (map2 (+) x y) = dot x x + 2 * dot x y + dot y y"
  by (induction x y rule: list_induct2) (simp_all add: algebra_simps)

lemma length2_triangle:
  assumes "length x = length y"
  shows "length2 (map2 (+) x y) \<le> length2 x + length2 y"
proof -
  have nn: "0 \<le> dot x x" "0 \<le> dot y y" by (rule dot_self_nonneg)+
  have "dot x y \<le> sqrt (dot x x * dot y y)" using cauchy_schwarz [OF assms] by (rule real_le_rsqrt)
  then have "dot x y \<le> length2 x * length2 y" by (simp add: length2_def real_sqrt_mult)
  then have "dot (map2 (+) x y) (map2 (+) x y) \<le> (length2 x + length2 y) ^ 2"
    using nn by (simp add: dot_plus [OF assms] power2_sum) (simp add: length2_def)
  then show ?thesis unfolding length2_def [of "map2 (+) x y"] using length2_nonneg [of x] length2_nonneg [of y]
    by (intro real_le_lsqrt) simp_all
qed

lemma length2_small:
  assumes "\<forall>v \<in> set vs. \<bar>v\<bar> \<le> \<delta>"
  shows "length2 vs \<le> \<delta> * sqrt (real (length vs))"
proof (cases "vs = []")
  case False
  then have d: "0 \<le> \<delta>" using assms by (metis abs_ge_zero list.set_sel(1) order_trans)
  have "dot vs vs \<le> \<delta> ^ 2 * real (length vs)"
    using assms
  proof (induction vs)
    case (Cons v vs)
    then have "v * v \<le> \<delta> ^ 2" using abs_le_square_iff [of v \<delta>] d by (simp add: power2_eq_square)
    with Cons show ?case by (simp add: algebra_simps)
  qed simp
  then have "length2 vs \<le> sqrt (\<delta> ^ 2 * real (length vs))" unfolding length2_def by (rule real_sqrt_le_mono)
  then show ?thesis using d by (simp add: real_sqrt_mult)
qed (simp add: length2_def)

text \<open>The plain cost of an assignment is the squared distance of the flat rows and the flat decoded rows.\<close>

lemma gap_dot: "length x = length y \<Longrightarrow> gap None x y = dot (map2 (-) x y) (map2 (-) x y)"
  by (simp add: gap_def metric_def dot_nth power2_eq_square)

lemma cost_flat:
  assumes "length a = length rows" and "\<forall>r \<in> set rows. length r = D" and "\<forall>j \<in> set a. length (cs ! j) = D"
  defines "flat \<equiv> concat (map (\<lambda>j. cs ! j) a)"
  shows "cost None None rows cs a = dot (map2 (-) (concat rows) flat) (map2 (-) (concat rows) flat)"
    and "length flat = length (concat rows)"
proof -
  have "cost None None rows cs a = (\<Sum>(r, j)\<leftarrow>zip rows a. gap None r (cs ! j))"
    using assms(1) by (simp add: cost_def weight_at_def sum_list_sum_nth atLeast0LessThan)
  moreover have "(\<Sum>(r, j)\<leftarrow>zip rows a. gap None r (cs ! j)) = dot (map2 (-) (concat rows) flat) (map2 (-) (concat rows) flat) \<and>
      length flat = length (concat rows)"
    using assms(1-3) unfolding flat_def
  proof (induction rows a rule: list_induct2')
    case (4 r rows j a)
    have app: "dot (u @ v) (u @ v) = dot u u + dot v v" for u v :: vec by (simp add: dot_def)
    show ?case using 4 by (simp add: gap_dot zip_append app)
  qed simp_all
  ultimately show "cost None None rows cs a = dot (map2 (-) (concat rows) flat) (map2 (-) (concat rows) flat)"
    "length flat = length (concat rows)" by simp_all
qed


lemma sum_error_step:
  fixes o1 :: "real list"
  assumes "length (concat rows) = N" and "length o1 = N" and "length f = N" and "length f0 = N" and "length f1 = N"
    and "concat rows = map2 (-) o1 (map2 (-) f f0)"
  shows "map2 (-) (concat rows) f0 = map2 (-) o1 f" and "map2 (-) (concat rows) f1 = map2 (-) o1 (map2 (+) (map2 (-) f f0) f1)"
  using assms(2-5) by (auto simp: assms(6) algebra_simps intro!: nth_equalityI)

text \<open>The best assignment to a codebook that is entrywise within \<open>\<delta>\<close> of another one.\<close>

lemma rounded_assignment:
  assumes "nearest None rows cs' b" and "nearest None rows cs a" and "length cs' = length cs" and "\<forall>r \<in> set rows. length r = D"
    and "\<forall>c \<in> set cs. length c = D" and "\<forall>c \<in> set cs'. length c = D"
    and "\<forall>p < length cs. \<forall>q < D. \<bar>cs' ! p ! q - cs ! p ! q\<bar> \<le> \<delta>"
  shows "sqrt (cost None None rows cs' b) \<le> sqrt (cost None None rows cs a) + \<delta> * sqrt (real (length (concat rows)))"
proof -
  let ?R = "concat rows" and ?f = "concat (map (\<lambda>j. cs ! j) a)" and ?f' = "concat (map (\<lambda>j. cs' ! j) a)"
  have a: "length a = length rows" "\<forall>j \<in> set a. j < length cs" using assms(2) by (auto simp: nearest_def in_set_conv_nth)
  have w: "\<forall>j \<in> set a. length (cs ! j) = D" "\<forall>j \<in> set a. length (cs' ! j) = D" using a(2) assms(3,5,6) by auto
  note c = cost_flat [OF a(1) assms(4) w(1)] and c' = cost_flat [OF a(1) assms(4) w(2)]
  have diff: "\<forall>v \<in> set (map2 (-) ?f ?f'). \<bar>v\<bar> \<le> \<delta>"
    using a(2) w assms(7)
  proof (induction a)
    case (Cons j a)
    then have "\<forall>v \<in> set (map2 (-) (cs ! j) (cs' ! j)). \<bar>v\<bar> \<le> \<delta>"
      by (auto simp: set_zip abs_minus_commute)
    then show ?case using Cons by (auto simp: zip_append)
  qed simp
  have split: "map2 (-) ?R ?f' = map2 (+) (map2 (-) ?R ?f) (map2 (-) ?f ?f')"
    using c(2) c'(2) by (intro nth_equalityI) simp_all
  have "valid_assignment rows cs' a" using nearest_valid [OF assms(2)] assms(3) by (simp add: valid_assignment_def)
  then have "cost None None rows cs' b \<le> cost None None rows cs' a"
    by (intro nearest_cheapest [OF assms(1)]) (simp_all add: weights_ok_def)
  then have "sqrt (cost None None rows cs' b) \<le> length2 (map2 (-) ?R ?f')" by (simp add: c'(1) length2_def)
  also have "\<dots> \<le> length2 (map2 (-) ?R ?f) + length2 (map2 (-) ?f ?f')"
    unfolding split using c(2) c'(2) by (intro length2_triangle) simp
  also have "\<dots> \<le> sqrt (cost None None rows cs a) + \<delta> * sqrt (real (length ?R))"
    using length2_small [OF diff] c c'(2) by (simp add: length2_def)
  finally show ?thesis .
qed

text \<open>C31: One step of the refinement on unweighted vectors without sampling: if every entry of the stored codebook is within
  \<open>\<delta>\<close> of the centroid that was learned, the error of the sum grows by at most \<open>\<delta>\<close> times the root of the number of values.
  When storing loses nothing the error does not grow at all.\<close>

theorem em_step_error:
  assumes "em_laws px em x c0" and "em_inv px x stem c0 (c, full, s)" and "i < length (rv_data c)"
    and "rv_vector_weights c0 = None" and "rv_sample_weights c0 = None" and "px_sample_vectors px = None"
    and "rv_data c ! i = (j, cb0, idxs0, sg)" and "length cb0 \<le> length idxs0"
  shows "\<exists>old cs a mse cb idxs c' full' s'.
    decoded_rows c (rv_data c ! i) = Inr old \<and>
    learn_codebook_numpy (em_seeding em) (target_rows c sg full old) (int (length cb0)) 2 (Some (map (map of_rat) cb0)) None None = Inr (cs, a, mse) \<and>
    em_stage px em (dx_floats x) (dx_env x) stem (c, full, s) i = Inr (c', full', s') \<and>
    rv_data c' ! i = (j, cb, idxs, sg) \<and> length cb = length cs \<and>
    (\<forall>\<delta>. (\<forall>p < length cs. \<forall>q < sg. \<bar>of_rat (cb ! p ! q) - cs ! p ! q\<bar> \<le> \<delta>) \<longrightarrow>
      sum_error (rv_orig c) full' \<le> sum_error (rv_orig c) full + \<delta> * sqrt (real (length (rv_orig c) * rv_group c)))"
proof -
  let ?r = "map (map real_of_rat)"
  have stays: "\<not> leaves_stage px k" for k by (simp add: leaves_stage_def assms(6))
  have wts: "rv_vector_weights c = None" "rv_sample_weights c = None" and g: "0 < rv_group c0" "rv_group c = rv_group c0" "rv_orig c = rv_orig c0"
    using assms(1,2,4,5) by (auto simp: em_inv_def em_laws_def Let_def candidate_rows_ok_def)
  have sizes: "length cb0 \<le> se_codebook_size (rv_meta c ! i)" "min (se_codebook_size (rv_meta c ! i)) (length idxs0) \<le> length cb0"
      "length idxs0 * sg = length (rv_orig c0) * rv_group c0"
    using assms(2,3,7) by (auto simp: em_inv_def Let_def stage_wf_def)
  obtain old rows tr swt vw cs a mse cb idxs c' full' s' where step: "decoded_rows c (j, cb0, idxs0, sg) = Inr old" "rows = target_rows c sg full old"
    "concat rows = map2 (-) (concat (rv_orig c)) (map2 (-) (concat full) (stage_flat cb0 idxs0))"
    "rows \<noteq> []" "\<forall>r \<in> set rows. length r = sg" "0 < sg" "length idxs0 = length rows" "list_all (\<lambda>j. j < length cb0) idxs0"
    "\<forall>row \<in> set cb0. length row = sg" "vw = (if 1 < sg then rv_vector_weights c else None)"
    "sample_vectors_and_weights rows (if 1 < sg then rv_sample_weights c else None) (px_sample_vectors px) = Inr (tr, swt)"
    "learn_codebook_numpy (em_seeding em) tr (int (min (se_codebook_size (rv_meta c ! i)) (length tr))) 2 (Some (?r cb0)) vw swt = Inr (cs, a, mse)"
    "shaped sg tr cs vw" "nearest vw tr cs a"
    "\<forall>b. valid_assignment tr (take (length cs) (?r cb0)) b \<longrightarrow> cost vw swt tr cs a \<le> cost vw swt tr (take (length cs) (?r cb0)) b"
    "em_stage px em (dx_floats x) (dx_env x) stem (c, full, s) i = Inr (c', full', s')"
    "rv_data c' = (rv_data c)[i := (j, cb, idxs, sg)]" "length cb = length cs" "\<forall>row \<in> set cb. length row = sg"
    "nearest vw rows (?r cb) idxs" "length cs = min (se_codebook_size (rv_meta c ! i)) (length rows)" "em_inv px x stem c0 (c', full', s')"
    "concat full' = map2 (+) (map2 (-) (concat full) (stage_flat cb0 idxs0)) (stage_flat cb idxs)"
    by (rule em_step [OF assms(1-3) stays assms(7)])
  have plain: "vw = None" "swt = None" "tr = rows" using step(10,11) wts by (simp_all add: sample_all [OF assms(6)] split: if_splits)
  have k: "length cs = length cb0" "min (se_codebook_size (rv_meta c ! i)) (length tr) = length cb0"
    using sizes step(7,21) assms(8) plain(3) by simp_all
  let ?N = "length (rv_orig c) * rv_group c"
  have "rows_shape (rv_group c0) (length (rv_orig c0)) (rv_orig c0)" "rows_shape (rv_group c0) (length (rv_orig c0)) full"
    using assms(1,2) by (simp_all add: em_inv_def em_laws_def Let_def candidate_rows_ok_def)
  then have N: "length (concat (rv_orig c)) = ?N" "length (concat full) = ?N"
    using g rows_shape_concat by simp_all
  have less: "\<forall>j \<in> set idxs0. j < length cb0" "\<forall>j \<in> set idxs. j < length cb"
    using step(8) gather_near(2) [OF step(20)] by (simp_all add: list_all_iff)
  have near0: "length idxs0 = length rows" "\<forall>j \<in> set idxs0. length (?r cb0 ! j) = sg" "\<forall>j \<in> set idxs. length (?r cb ! j) = sg" "length idxs = length rows"
    using step(7,9,19) less gather_near(3) [OF step(20)] by simp_all
  have flats: "concat (map (\<lambda>j. ?r cb0 ! j) idxs0) = stage_flat cb0 idxs0" "concat (map (\<lambda>j. ?r cb ! j) idxs) = stage_flat cb idxs"
    unfolding stage_flat_def using less by (simp_all cong: map_cong)
  note c0 = cost_flat [OF near0(1) step(5) near0(2), unfolded flats] and c1 = cost_flat [OF near0(4) step(5) near0(3), unfolded flats]
  have R: "length (concat rows) = ?N" "length (stage_flat cb0 idxs0) = ?N" "length (stage_flat cb idxs) = ?N"
  proof -
    have "rows_shape sg (length rows) rows" using step(5) by (simp add: rows_shape_def)
    then show "length (concat rows) = ?N" using rows_shape_concat sizes(3) step(7) g by fastforce
    then show "length (stage_flat cb0 idxs0) = ?N" "length (stage_flat cb idxs) = ?N" using c0(2) c1(2) by simp_all
  qed
  note steps = sum_error_step [OF R(1) N(1,2) R(2,3) step(3)]
  have before: "sqrt (cost None None rows (?r cb0) idxs0) = sum_error (rv_orig c) full"
    unfolding c0(1) steps(1) by (simp add: sum_error_def length2_def)
  have after: "sqrt (cost None None rows (?r cb) idxs) = sum_error (rv_orig c) full'"
    unfolding c1(1) steps(2) by (simp add: sum_error_def length2_def step(23))
  have "valid_assignment rows (?r cb0) idxs0" using step(7,8) by (simp add: valid_assignment_def list_all_length)
  then have better: "sqrt (cost None None rows cs a) \<le> sum_error (rv_orig c) full"
    unfolding before [symmetric] using step(15) k(1) by (simp add: plain)
  have bound: "sum_error (rv_orig c) full' \<le> sum_error (rv_orig c) full + \<delta> * sqrt (real ?N)"
    if "\<forall>p < length cs. \<forall>q < sg. \<bar>of_rat (cb ! p ! q) - cs ! p ! q\<bar> \<le> \<delta>" for \<delta>
  proof -
    have "\<forall>p < length cs. \<forall>q < sg. \<bar>?r cb ! p ! q - cs ! p ! q\<bar> \<le> \<delta>" using that step(18,19) by simp
    then have "sqrt (cost None None rows (?r cb) idxs) \<le> sqrt (cost None None rows cs a) + \<delta> * sqrt (real (length (concat rows)))"
      using step(13,14,18-20) by (intro rounded_assignment [where D = sg] step(5)) (auto simp: plain shaped_def)
    then show ?thesis using better after R(1) by simp
  qed
  show ?thesis
    using step(1,2,12,16,17,18) bound k(2) assms(3,7)
    by (intro exI [of _ old] exI [of _ cs] exI [of _ a] exI [of _ mse] exI [of _ cb] exI [of _ idxs] exI [of _ c'] exI [of _ full'] exI [of _ s'])
      (simp add: plain)
qed


text \<open>Concrete runs, with learned centroids rounded down to integers of 12 bits.\<close>

definition demo_em :: em_ctx where
  "demo_em = \<lparr>em_passes = 3, em_skipped = {}, em_torch = False, em_large_rows = 20000000, em_dir = ''t/'', em_seeding = (\<lambda>rows k. take k rows),
     em_to32 = (\<lambda>v. of_int (clip (-2048) 2047 \<lfloor>v\<rfloor>))\<rparr>"

lemma demo_rounding: "\<forall>v. r32 int_floats (em_to32 demo_em v) = em_to32 demo_em v"
proof
  fix v :: real
  have "- 2048 \<le> clip (-2048) 2047 \<lfloor>v\<rfloor>" "clip (-2048) 2047 \<lfloor>v\<rfloor> \<le> 2047" using clip_range [of "-2048" 2047 "\<lfloor>v\<rfloor>"] by simp_all
  then show "r32 int_floats (em_to32 demo_em v) = em_to32 demo_em v"
    by (simp add: int_floats_def demo_em_def) (simp add: clip_idem)
qed

definition demo_full_ctx :: stage_ctx where
  "demo_full_ctx = demo_ctx\<lparr>px_sample_vectors := None\<rparr>"

lemma demo_rows: "candidate_rows_ok demo_rvq" "fresh_candidate demo_rvq"
  by (simp_all add: candidate_rows_ok_def rows_shape_def weights_fit_def fresh_candidate_def demo_rvq_def)

theorem em_aq_measures_its_files_witness:
  "\<exists>c s metas books s' tot.
    run_stages demo_full_ctx int_floats whole_env ''t/a'' (demo_rvq, Map.empty) = Inr (c, s) \<and>
    em_candidate demo_full_ctx demo_em int_floats whole_env [] s (c, demo_candidate, []) =
      bind_err (lift_err EmMetric (stage_quality_metrics [] demo_candidate [] [[1, 2], [3, 5]] (blocks_of 2 tot)))
        (\<lambda>q. Inr (Refined metas books q, s')) \<and>
    decode_stages (files_env int_floats whole_env [] s') (example_meta\<lparr>tm_padded_values := 4, tm_stages := map se_meta metas\<rparr>) = Inr tot"
proof -
  have digits: "digits_val ''3'' = 3" "py_isdigit ''3''" by code_simp+
  have stem: "safe_tensor_name ''a'' = ''a''" by code_simp
  let ?x = "files_env int_floats whole_env [] Map.empty"
  have laws: "float_laws (dx_floats ?x)" "zlib_ok (dx_env ?x)" "learner_ok (dx_floats ?x) demo_full_ctx"
    "px_codebook_dtype demo_full_ctx = ''float16'' \<or> px_codebook_dtype demo_full_ctx = ''float32''"
    using int_floats_laws whole_zlib demo_learner by (simp_all add: demo_ctx_def demo_full_ctx_def learner_ok_def)
  have specs: "specs_ok demo_full_ctx (rv_name demo_rvq) (rv_family demo_rvq)"
    by (simp add: specs_ok_def stage_spec_for_candidate_def stage_at_def demo_ctx_def demo_full_ctx_def digits upt_conv_Cons)
  have "1 < px_n_stages demo_full_ctx" "\<forall>v. r32 (dx_floats ?x) (em_to32 demo_em v) = em_to32 demo_em v"
    using demo_rounding by (simp_all add: demo_full_ctx_def demo_ctx_def)
  from em_aq_measures_its_files [OF laws demo_rows(1) specs demo_rows(2) this, of "example_meta\<lparr>tm_padded_values := 4\<rparr>" "[]" demo_candidate "[]"]
  show ?thesis
    by (simp add: demo_rvq_def example_meta_def files_env_def demo_em_def stem)
qed

definition demo_stage :: rvq where
  "demo_stage = demo_rvq\<lparr>rv_data := [(0, [[1, 1], [3, 3]], [0, 1], 2)],
     rv_meta := [\<lparr>se_meta = \<lparr>sg_codebook = ''t/a.s0.codebook.f32'', sg_indices = ''t/a.s0.indices'', sg_index_bits = 1, sg_group_size = Some 2,
         sg_codebook_dtype = Some ''float32'', sg_packed = Some True, sg_encoding = Some ''raw''\<rparr>,
       se_codebook_size = 2, se_training_count = 2, se_index_bytes = 1\<rparr>]\<rparr>"

theorem em_step_error_witness:
  "\<exists>s cs cb idxs c' full' s'. em_stage demo_full_ctx demo_em int_floats whole_env ''t/a'' (demo_stage, [[1, 1], [3, 3]], s) 0 = Inr (c', full', s') \<and>
    rv_data c' ! 0 = (0, cb, idxs, 2) \<and> length cb = length cs \<and>
    (\<forall>\<delta>. (\<forall>p < length cs. \<forall>q < 2. \<bar>of_rat (cb ! p ! q) - cs ! p ! q\<bar> \<le> \<delta>) \<longrightarrow>
      sum_error [[1, 2], [3, 5]] full' \<le> sum_error [[1, 2], [3, 5]] [[1, 1], [3, 3]] + \<delta> * sqrt (real (2 * 2)))"
proof -
  let ?cb = "[[1, 1], [3, 3]] :: rat matrix" and ?cp = "''t/a.s0.codebook.f32''" and ?ip = "''t/a.s0.indices''"
  have one: "r32 int_floats 1 = 1" "r32 int_floats 3 = 3"
    using np_round_int [of 1, where ?'a = rat] np_round_int [of 3, where ?'a = rat] by (simp_all add: int_floats_def clip_def)
  then have "codebook_ok int_floats 2 ?cb" by (simp add: codebook_ok_def)
  then obtain s1 where s1: "codebook_file int_floats 2 ?cb ''float32'' ?cp s1"
    using stored_codebook [OF int_floats_laws, of 2 ?cb "''float32''" ?cp] by (auto simp: cast_codebook_storage_def)
  obtain s2 where s2: "write_indices whole_env ?ip [0, 1] 1 (Some ''raw'') s1 = Inr (s2, True, ''raw'')"
    "read_indices whole_env ?ip 1 2 True ''raw'' s2 = Inr [0, 1]"
    using write_read_indices [OF whole_zlib, of 1 "[0, 1]" "Some ''raw''" ?ip s1] by (auto simp: numeral_2_eq_2)
  have "codebook_file int_floats 2 ?cb ''float32'' ?cp s2"
    using s1 codebook_file_cong [of s2 ?cp s1] write_indices_other [OF s2(1), of ?cp] by simp
  then have cb: "read_codebook int_floats ?cp 2 ''float32'' s2 = Inr ?cb" by (simp add: codebook_file_def)
  let ?x = "files_env int_floats whole_env [] s2"
  have laws: "em_laws demo_full_ctx demo_em ?x demo_rvq"
    using int_floats_laws whole_zlib demo_rounding demo_rows by (simp add: em_laws_def files_env_def demo_full_ctx_def demo_ctx_def)
  have "stage_readable (?x\<lparr>dx_files := s2\<rparr>) 2 4 (rv_meta demo_stage ! 0) (rv_data demo_stage ! 0)"
    using cb s2(2) by (simp add: stage_readable_def read_stage_arrays_def demo_stage_def files_env_def get_or_def ceil_div_def stage_flat_def)
  moreover have "nat_str 0 = ''0''" "clog2 2 = 1" by code_simp+
  then have "stage_wf demo_full_ctx ''t/a'' 2 2 0 (rv_meta demo_stage ! 0) (rv_data demo_stage ! 0)"
    by (simp add: stage_wf_def demo_stage_def demo_full_ctx_def demo_ctx_def stage_path_def index_bits_for_size_def)
  ultimately have inv: "em_inv demo_full_ctx ?x ''t/a'' demo_rvq (demo_stage, [[1, 1], [3, 3]], s2)"
    by (simp add: em_inv_def demo_stage_def demo_rvq_def rows_shape_def total_flat_def stage_flat_def numeral_eq_Suc)
  have "rv_data demo_stage ! 0 = (0, ?cb, [0, 1], 2)" by (simp add: demo_stage_def)
  from em_step_error [OF laws inv _ _ _ _ this]
  show ?thesis
    by (simp add: demo_rvq_def demo_stage_def demo_full_ctx_def files_env_def) (metis of_nat_numeral)
qed


text \<open>Elsewhere a sample of zero vectors means all of them; here it leaves every stage alone.\<close>

lemma no_refinement_without_sample:
  assumes "px_sample_vectors px = Some m" and "m \<le> 0"
  shows "em_stage px em fl e stem st i = Inr st"
  using assms by (auto simp: em_stage_def leaves_stage_def Let_def split: prod.splits)

end
