(* ===== verification/Scale_Refine.thy ===== *)
theory Scale_Refine
  imports Manifest
begin

text \<open>
  \<open>_refine_scales_ls\<close> of \<open>orka/pipeline/strategies/refinement.py\<close>: the least-squares block scales of a packed tensor, fitted
  to the reconstruction that is read back from its files.

  \<open>v\<close> is the copy of the normalized values that the pipeline stashed for this pass. Values are exact; the new scales are
  rounded to their storage at the end. A file that cannot be read makes the pass give up.
\<close>

definition LS_SCALE_DENOM_FLOOR :: real where "LS_SCALE_DENOM_FLOOR = 1 / 10 ^ 8"
definition LS_SCALE_MIN_MAGNITUDE :: real where "LS_SCALE_MIN_MAGNITUDE = 1 / 10 ^ 12"

section \<open>The stored reconstruction\<close>

definition stage_values :: "decode_env \<Rightarrow> nat \<Rightarrow> stage_meta \<Rightarrow> real list option" where
  "stage_values x n st =
     (let g = get_or (sg_group_size st) 8
      in if g = 0 \<or> n mod g \<noteq> 0 then None
         else
           (case read_codebook (dx_floats x) (sg_codebook st) g (get_or (sg_codebook_dtype st) ''float16'') (dx_files x) of
              Inl _ \<Rightarrow> None
            | Inr cb \<Rightarrow>
                (case read_indices (dx_env x) (sg_indices st) (sg_index_bits st) (n div g) (get_or (sg_packed st) False)
                        (get_or (sg_encoding st) ''raw'') (dx_files x) of
                   Inl _ \<Rightarrow> None
                 | Inr idxs \<Rightarrow>
                     (case mapM (py_get BadIndex (map (map of_rat) cb)) idxs of
                        Inl _ \<Rightarrow> None
                      | Inr rows \<Rightarrow> if length (concat rows) = n then Some (concat rows) else None))))"

fun vq_values :: "decode_env \<Rightarrow> nat \<Rightarrow> real list \<Rightarrow> stage_meta list \<Rightarrow> real list option" where
  "vq_values x n acc [] = Some acc"
| "vq_values x n acc (st # sts) =
     (case stage_values x n st of None \<Rightarrow> None | Some rr \<Rightarrow> vq_values x n (map2 (+) acc rr) sts)"

section \<open>What the fit leaves out\<close>

text \<open>Overridden positions carry no weight: the salient entry of each block, and the outliers, whose blocks keep their scale.\<close>

definition fit_mask :: "'m candidate \<Rightarrow> nat \<Rightarrow> nat \<Rightarrow> real list" where
  "fit_mask c n bs =
     (let nb = n div bs;
          salient = (case cd_salient_indices c of
             Some js \<Rightarrow> if length js = nb then map (\<lambda>b. b * bs + js ! b) [0..<nb] else [] | None \<Rightarrow> []);
          outl = (case cd_outlier_positions c of Some ps \<Rightarrow> ps | None \<Rightarrow> [])
      in map (\<lambda>p. if p \<in> set salient \<or> p \<in> set outl then 0 else 1) [0..<n])"

definition keeps_scale :: "'m candidate \<Rightarrow> nat \<Rightarrow> nat \<Rightarrow> nat \<Rightarrow> bool" where
  "keeps_scale c n bs b =
     (case cd_outlier_positions c of
        Some ps \<Rightarrow> list_ex (\<lambda>p. p < n \<and> min (p div bs) (n div bs - 1) = b) ps | None \<Rightarrow> False)"

section \<open>The fitted scales\<close>

definition block_dot :: "nat \<Rightarrow> nat \<Rightarrow> real list \<Rightarrow> real list \<Rightarrow> real" where
  "block_dot bs b xs ys = (\<Sum>p\<leftarrow>[b * bs..<Suc b * bs]. xs ! p * ys ! p)"

definition masked :: "real list \<Rightarrow> real list \<Rightarrow> real list" where
  "masked m xs = map2 (*) xs m"

definition ls_scale :: "'m candidate \<Rightarrow> nat \<Rightarrow> nat \<Rightarrow> real list \<Rightarrow> real list \<Rightarrow> real list \<Rightarrow> nat \<Rightarrow> real" where
  "ls_scale c n bs v r sc b =
     (let m = fit_mask c n bs; num = block_dot bs b (masked m v) (masked m r); den = block_dot bs b (masked m r) (masked m r);
          factor = (if den > LS_SCALE_DENOM_FLOOR then num / den else 1);
          s = (if keeps_scale c n bs b then sc ! b else sc ! b * factor)
      in if \<bar>s\<bar> > LS_SCALE_MIN_MAGNITUDE then s else sc ! b)"

definition refine_scales_ls ::
  "decode_env \<Rightarrow> bool \<Rightarrow> nat \<Rightarrow> real list option \<Rightarrow> 'm candidate \<Rightarrow> 'm candidate \<times> bool" where
  "refine_scales_ls x mse_scale block_scale_size mse_v c =
     (if \<not> mse_scale \<or> or_str (cd_rotation c) ''none'' \<noteq> ''none'' \<or> \<not> stores_block_scales (cd_normalization c) then (c, False)
      else
        (case (cd_row_scales c, mse_v) of
           (Some sc, Some v) \<Rightarrow>
             (let n = length v; bs = or_nat (cd_block_scale_size c) block_scale_size
              in if cd_stages_meta c = [] \<or> bs = 0 \<or> n mod bs \<noteq> 0 \<or> length sc \<noteq> n div bs then (c, False)
                 else
                   (case vq_values x n (replicate n 0) (map se_meta (cd_stages_meta c)) of
                      None \<Rightarrow> (c, False)
                    | Some r \<Rightarrow>
                        (c\<lparr>cd_row_scales := fp16_storage_roundtrip (dx_env x) (Some (map (ls_scale c n bs v r sc) [0..<n div bs]))\<rparr>, True)))
         | _ \<Rightarrow> (c, False)))"

text \<open>The strategy's outcome is recorded for the manifest.\<close>

definition apply_mse_scale :: "decode_env \<Rightarrow> bool \<Rightarrow> nat \<Rightarrow> real list option \<Rightarrow> 'm candidate \<Rightarrow> 'm candidate" where
  "apply_mse_scale x mse_scale block_scale_size mse_v c =
     (case refine_scales_ls x mse_scale block_scale_size mse_v c of (c', done_) \<Rightarrow> c'\<lparr>cd_mse_scale_applied := Some done_\<rparr>)"

section \<open>A better scale\<close>

text \<open>The squared error of a block under a scale \<open>s\<close>, over the positions that are not overridden.\<close>

definition block_error :: "real list \<Rightarrow> nat \<Rightarrow> nat \<Rightarrow> real \<Rightarrow> real list \<Rightarrow> real list \<Rightarrow> real \<Rightarrow> real" where
  "block_error m bs b old v r s = (\<Sum>p\<leftarrow>[b * bs..<Suc b * bs]. m ! p * (old * v ! p - s * r ! p) ^ 2)"

lemma sum_list_quadratic:
  fixes f g h :: "nat \<Rightarrow> real"
  shows "(\<Sum>p\<leftarrow>ps. f p * (a * g p - s * h p) ^ 2) =
    a ^ 2 * (\<Sum>p\<leftarrow>ps. f p * g p * g p) - 2 * a * s * (\<Sum>p\<leftarrow>ps. f p * g p * h p) + s ^ 2 * (\<Sum>p\<leftarrow>ps. f p * h p * h p)"
  by (induction ps) (simp_all add: algebra_simps power2_eq_square)

lemma fit_mask_bit: "p < n \<Longrightarrow> fit_mask c n bs ! p = 0 \<or> fit_mask c n bs ! p = 1"
  by (simp add: fit_mask_def Let_def)

lemma length_fit_mask [simp]: "length (fit_mask c n bs) = n"
  by (simp add: fit_mask_def Let_def)

lemma block_positions:
  assumes "b < n div bs" and "p \<in> set [b * bs..<Suc b * bs]"
  shows "p < n"
proof -
  have "Suc b * bs \<le> n div bs * bs" using assms(1) by (intro mult_le_mono1) simp
  also have "\<dots> \<le> n" by simp
  finally show ?thesis using assms(2) by simp
qed

lemma masked_dot:
  assumes "b < n div bs" and "length xs = n" and "length ys = n"
  shows "block_dot bs b (masked (fit_mask c n bs) xs) (masked (fit_mask c n bs) ys) =
    (\<Sum>p\<leftarrow>[b * bs..<Suc b * bs]. fit_mask c n bs ! p * xs ! p * ys ! p)"
proof -
  have "masked (fit_mask c n bs) xs ! p * masked (fit_mask c n bs) ys ! p = fit_mask c n bs ! p * xs ! p * ys ! p"
    if "p \<in> set [b * bs..<Suc b * bs]" for p
    using block_positions [OF assms(1) that] assms(2,3) fit_mask_bit [of p n c bs] by (auto simp: masked_def)
  then show ?thesis unfolding block_dot_def by (intro arg_cong [where f = sum_list] map_cong) auto
qed

lemma closer_is_better:
  fixes A B D old s t :: real
  assumes "0 < D" and "\<bar>t - old * (B / D)\<bar> \<le> \<bar>s - old * (B / D)\<bar>"
  shows "old ^ 2 * A - 2 * old * t * B + t ^ 2 * D \<le> old ^ 2 * A - 2 * old * s * B + s ^ 2 * D"
proof -
  have form: "old ^ 2 * A - 2 * old * u * B + u ^ 2 * D = D * (u - old * (B / D)) ^ 2 + (old ^ 2 * A - D * (old * (B / D)) ^ 2)" for u
    using assms(1) by (simp add: field_simps power2_eq_square)
  have "(t - old * (B / D)) ^ 2 \<le> (s - old * (B / D)) ^ 2" using assms(2) by (simp add: abs_le_square_iff)
  then show ?thesis unfolding form using assms(1) by simp
qed

lemma length_vq_values: "vq_values x n acc sts = Some r \<Longrightarrow> length acc = n \<Longrightarrow> length r = n"
proof (induction sts arbitrary: acc)
  case (Cons st sts)
  then obtain rr where rr: "stage_values x n st = Some rr" "vq_values x n (map2 (+) acc rr) sts = Some r"
    by (auto split: option.splits)
  then have "length rr = n" by (auto simp: stage_values_def Let_def split: if_splits sum.splits)
  with Cons rr(2) show ?case by simp
qed simp

text \<open>fp16 rounding goes to a nearest fp16 number.\<close>

definition rounds_nearest :: "real env \<Rightarrow> bool" where
  "rounds_nearest e \<longleftrightarrow> (\<forall>v w. fits16 e v \<longrightarrow> \<bar>round16 e v - v\<bar> \<le> \<bar>round16 e w - v\<bar>)"

lemma block_error_quadratic:
  assumes "b < n div bs" and "length v = n" and "length r = n"
    and m: "m = fit_mask c n bs"
  shows "block_error m bs b old v r s = old ^ 2 * block_dot bs b (masked m v) (masked m v)
    - 2 * old * s * block_dot bs b (masked m v) (masked m r) + s ^ 2 * block_dot bs b (masked m r) (masked m r)"
  unfolding m masked_dot [OF assms(1-2,2)] masked_dot [OF assms(1-3)] masked_dot [OF assms(1,3,3)] block_error_def
  by (rule sum_list_quadratic)

lemma refined_scale_better:
  assumes "b < n div bs" and "length v = n" and "length r = n"
    and "\<bar>t - ls_scale c n bs v r sc b\<bar> \<le> \<bar>sc ! b - ls_scale c n bs v r sc b\<bar>"
  defines "m \<equiv> fit_mask c n bs"
  shows "block_error m bs b (sc ! b) v r t \<le> block_error m bs b (sc ! b) v r (sc ! b)"
proof (cases "ls_scale c n bs v r sc b = sc ! b")
  case True
  then show ?thesis using assms(4) by simp
next
  case False
  let ?num = "block_dot bs b (masked m v) (masked m r)" and ?den = "block_dot bs b (masked m r) (masked m r)"
  have den: "0 < ?den" and ls: "ls_scale c n bs v r sc b = sc ! b * (?num / ?den)"
    using False by (auto simp: ls_scale_def Let_def m_def LS_SCALE_DENOM_FLOOR_def split: if_splits)
  show ?thesis
    unfolding block_error_quadratic [OF assms(1-3) meta_eq_to_obj_eq [OF m_def]]
    using closer_is_better [OF den, of t "sc ! b" ?num "sc ! b"] assms(4) ls by (simp add: m_def)
qed

section \<open>Properties\<close>

text \<open>C33: Refining the block scales by least squares never raises the squared error of a block against the stored
  reconstruction, measured on the positions no sidecar overrides, and this still holds after the new scales are rounded
  to fp16: the rounding moves a scale less than the fit did. The scales stay one per block, and a tensor whose files
  cannot be read keeps its scales.\<close>

theorem scale_refinement_never_worse:
  assumes "rounds_nearest (dx_env x)" and "refine_scales_ls x True k (Some v) c = (c', applied)"
    and "cd_row_scales c = Some sc" and "list_all (\<lambda>s. round16 (dx_env x) s = s) sc"
  shows "if applied then
      (\<exists>r sc'. vq_values x (length v) (replicate (length v) 0) (map se_meta (cd_stages_meta c)) = Some r \<and>
        c' = c\<lparr>cd_row_scales := Some sc'\<rparr> \<and> length sc' = length sc \<and>
        list_all (\<lambda>b. block_error (fit_mask c (length v) (length v div length sc)) (length v div length sc) b (sc ! b) v r (sc' ! b)
          \<le> block_error (fit_mask c (length v) (length v div length sc)) (length v div length sc) b (sc ! b) v r (sc ! b)) [0..<length sc])
    else c' = c"
proof (cases applied)
  case False
  with assms(2,3) show ?thesis by (auto simp: refine_scales_ls_def Let_def split: if_splits option.splits)
next
  case True
  let ?n = "length v"
  obtain bs r where bs: "0 < bs" "?n mod bs = 0" "length sc = ?n div bs"
    and r: "vq_values x ?n (replicate ?n 0) (map se_meta (cd_stages_meta c)) = Some r"
    and c': "c' = c\<lparr>cd_row_scales := fp16_storage_roundtrip (dx_env x) (Some (map (ls_scale c ?n bs v r sc) [0..<?n div bs]))\<rparr>"
    using assms(2,3) True by (auto simp: refine_scales_ls_def Let_def split: if_splits option.splits)
  have len: "length r = ?n" using length_vq_values [OF r] by simp
  let ?ls = "map (ls_scale c ?n bs v r sc) [0..<?n div bs]"
  have c'_sc: "c' = c\<lparr>cd_row_scales := Some (storage16 (dx_env x) ?ls)\<rparr>" by (simp add: c' storage16_def fp16_storage_roundtrip_def)
  have better: "block_error (fit_mask c ?n bs) bs b (sc ! b) v r (storage16 (dx_env x) ?ls ! b)
      \<le> block_error (fit_mask c ?n bs) bs b (sc ! b) v r (sc ! b)" if b: "b < length sc" for b
  proof (rule refined_scale_better [OF _ refl len])
    show b': "b < ?n div bs" using b bs(3) by simp
    show "\<bar>storage16 (dx_env x) ?ls ! b - ls_scale c ?n bs v r sc b\<bar> \<le> \<bar>sc ! b - ls_scale c ?n bs v r sc b\<bar>"
    proof (rule storage16_cases [of "dx_env x" ?ls])
      assume "storage16 (dx_env x) ?ls = map (round16 (dx_env x)) ?ls" and fits: "\<forall>s \<in> set ?ls. fits16 (dx_env x) s"
      then have "storage16 (dx_env x) ?ls ! b = round16 (dx_env x) (ls_scale c ?n bs v r sc b)" using b' by simp
      moreover have "fits16 (dx_env x) (ls_scale c ?n bs v r sc b)" using fits b' by simp
      moreover have "round16 (dx_env x) (sc ! b) = sc ! b" using assms(4) b by (simp add: list_all_length)
      ultimately show ?thesis using assms(1) unfolding rounds_nearest_def by metis
    qed (use b' in simp)
  qed
  have width: "?n div length sc = bs" if "sc \<noteq> []"
  proof -
    have "?n = length sc * bs" using bs(2,3) by auto
    then show ?thesis using that by (metis length_greater_0_conv nonzero_mult_div_cancel_left not_gr_zero)
  qed
  have len_sc: "length (storage16 (dx_env x) ?ls) = length sc" using bs(3) by simp
  have all: "list_all (\<lambda>b. block_error (fit_mask c ?n (?n div length sc)) (?n div length sc) b (sc ! b) v r (storage16 (dx_env x) ?ls ! b)
      \<le> block_error (fit_mask c ?n (?n div length sc)) (?n div length sc) b (sc ! b) v r (sc ! b)) [0..<length sc]"
  proof (cases "sc = []")
    case False
    show ?thesis unfolding width [OF False] list_all_iff using better by simp
  qed simp
  show ?thesis
    unfolding if_P [OF True]
    by (rule exI [of _ r], rule exI [of _ "storage16 (dx_env x) ?ls"], intro conjI r c'_sc len_sc all)
qed


lemma grid_rounds_nearest: "rounds_nearest grid_env"
  unfolding rounds_nearest_def
proof (intro allI impI)
  fix v w :: real
  let ?x = "v * 2 ^ 24"
  have r: "round16 grid_env u = real (nat (round (u * 2 ^ 24))) / 2 ^ 24" for u by (simp add: round16_def grid_env_def)
  have near: "\<bar>real (nat (round ?x)) - ?x\<bar> \<le> \<bar>real k - ?x\<bar>" for k
  proof (cases "0 \<le> round ?x")
    case True
    then show ?thesis using round_diff_minimal [of ?x "int k"] by (simp add: abs_minus_commute)
  next
    case False
    then have "?x < 0" using round_mono [of 0 ?x] by (cases "0 \<le> ?x") auto
    then show ?thesis using False by simp
  qed
  have scale: "\<bar>real k / 2 ^ 24 - v\<bar> = \<bar>real k - ?x\<bar> / 2 ^ 24" for k by (simp add: abs_if field_simps)
  show "\<bar>round16 grid_env v - v\<bar> \<le> \<bar>round16 grid_env w - v\<bar>"
    unfolding r scale using near by (intro divide_right_mono) auto
qed

definition scaled_candidate :: "nat candidate" where
  "scaled_candidate = demo_candidate\<lparr>cd_normalization := ''block-max'', cd_row_scales := Some [1], cd_outlier_positions := None,
     cd_salient_indices := None, cd_block_scale_size := Some 2,
     cd_stages_meta := [\<lparr>se_meta = \<lparr>sg_codebook = ''cb'', sg_indices = ''ix'', sg_index_bits = 8, sg_group_size = Some 2,
       sg_codebook_dtype = Some ''float32'', sg_packed = Some False, sg_encoding = Some ''raw''\<rparr>,
       se_codebook_size = 2, se_training_count = 2, se_index_bytes = 1\<rparr>]\<rparr>"

theorem scale_refinement_never_worse_witness:
  "snd (refine_scales_ls example_env True 32 (Some [1, 2]) scaled_candidate) \<and>
   (\<exists>sc'. fst (refine_scales_ls example_env True 32 (Some [1, 2]) scaled_candidate) = scaled_candidate\<lparr>cd_row_scales := Some sc'\<rparr> \<and> length sc' = 1)"
proof -
  have vals: "vq_values example_env 2 [0, 0] (map se_meta (cd_stages_meta scaled_candidate)) = Some [3, 4]"
    using example_files by (simp add: scaled_candidate_def stage_values_def get_or_def) (simp add: example_env_def)
  have applied: "snd (refine_scales_ls example_env True 32 (Some [1, 2]) scaled_candidate)"
    using vals
    by (simp add: refine_scales_ls_def scaled_candidate_def demo_candidate_def or_str_def or_nat_def stores_block_scales_def
        BLOCK_SCALE_NORMALIZATIONS_def Let_def numeral_2_eq_2)
  have one: "round16 (dx_env example_env) 1 = 1" by (simp add: round16_def example_env_def grid_env_def)
  have nearest: "rounds_nearest (dx_env example_env)" using grid_rounds_nearest by (simp add: example_env_def)
  have sc: "cd_row_scales scaled_candidate = Some [1]" by (simp add: scaled_candidate_def)
  show ?thesis
    using scale_refinement_never_worse [OF nearest surjective_pairing sc, of 32 "[1, 2]"] applied one by auto
qed

end
