(* ===== verification/Pack_Plan.thy ===== *)
theory Pack_Plan
  imports Stages Names
begin

text \<open>
  What a pack run is going to do, before any tensor is quantized: \<open>validate_pack_args\<close> of \<open>pipeline/pack_config.py\<close>; in
  \<open>pipeline/pack.py\<close> the stage lists, the skipped names, the route of every tensor of the checkpoint (passed through,
  packed, left to another partition, dropped) and the group size; in \<open>pipeline/pack_helpers.py\<close> the cut into vectors.

  A checkpoint is the list of its tensors, names with shapes. The prefetch thread's loop is \<open>route\<close>; what it then does
  to a routed tensor is in \<open>Normalize\<close> and \<open>Rotate\<close>.
\<close>

section \<open>Arguments\<close>

datatype pack_error =
    BadMode | BadBackend | BadNormalization | AwqDisabled | AwqNeedsCalibration | BadRotation | BadPartitionCount
  | NoPartitionIndex | BadPartitionIndex | PartitionsNeedPerTensor | NeedsPerTensor string | NoStage | NotInteger string

record pack_args =
  pa_codebook_mode :: string
  pa_backend :: string
  pa_normalization :: string
  pa_rotation :: string
  pa_calibrated :: bool
  pa_partition_count :: "int option"
  pa_partition_index :: "int option"

definition CODEBOOK_MODES :: "string list" where "CODEBOOK_MODES = [''per-tensor'', ''global'', ''family'']"
definition BACKENDS :: "string list" where "BACKENDS = [''auto'', ''numpy'', ''torch'']"
definition NORMALIZATIONS :: "string list" where
  "NORMALIZATIONS = [''none'', ''block-max'', ''channel-block-max'', ''awq'', ''awq-block-max'', ''slrq-block'']"
definition ROTATIONS :: "string list" where "ROTATIONS = [''none'', ''orthogonal'', ''hadamard'']"

definition validate_pack_args :: "bool \<Rightarrow> pack_args \<Rightarrow> pack_error + unit" where
  "validate_pack_args awq_feature a =
     (if pa_codebook_mode a \<notin> set CODEBOOK_MODES then Inl BadMode
      else if pa_backend a \<notin> set BACKENDS then Inl BadBackend
      else if pa_normalization a \<notin> set NORMALIZATIONS then Inl BadNormalization
      else if (pa_normalization a = ''awq'' \<or> pa_normalization a = ''awq-block-max'') \<and> \<not> awq_feature then Inl AwqDisabled
      else if pa_normalization a = ''awq'' \<and> \<not> pa_calibrated a then Inl AwqNeedsCalibration
      else if pa_rotation a \<notin> set ROTATIONS then Inl BadRotation
      else
        (case pa_partition_count a of
           None \<Rightarrow> Inr ()
         | Some n \<Rightarrow>
             if n < 1 then Inl BadPartitionCount
             else
               (case pa_partition_index a of
                  None \<Rightarrow> Inl NoPartitionIndex
                | Some i \<Rightarrow>
                    if i < 0 \<or> n \<le> i then Inl BadPartitionIndex
                    else if 1 < n \<and> pa_codebook_mode a \<noteq> ''per-tensor'' then Inl PartitionsNeedPerTensor
                    else Inr ())))"

section \<open>Stage lists\<close>

text \<open>\<open>int(k) if not (isinstance(k, str) and k.startswith("s")) else k\<close>\<close>

fun resolve_stage :: "stage \<Rightarrow> pack_error + stage" where
  "resolve_stage (Codebook k) = Inr (Codebook k)"
| "resolve_stage (Scalar t) =
     (if starts_with t ''s'' then Inr (Scalar t)
      else if py_isdigit t then Inr (Codebook (digits_val t)) else Inl (NotInteger t))"

definition resolve_map :: "(string \<times> stage list) list \<Rightarrow> pack_error + (string \<times> stage list) list" where
  "resolve_map m = mapM (\<lambda>(k, stages). bind_err (mapM resolve_stage stages) (\<lambda>r. Inr (k, r))) m"

record stage_plan =
  sp_spec :: "stage list"
  sp_family :: "(string \<times> stage list) list option"
  sp_tensor :: "(string \<times> stage list) list option"
  sp_n_stages :: nat

definition longest :: "(string \<times> stage list) list \<Rightarrow> pack_error + nat" where
  "longest m = (if m = [] then Inl NoStage else Inr (Max (set (map (\<lambda>(_, stages). length stages) m))))"

definition plan_stages ::
  "string \<Rightarrow> nat \<Rightarrow> nat list option \<Rightarrow> (string \<times> stage list) list option \<Rightarrow> (string \<times> stage list) list option
    \<Rightarrow> pack_error + stage_plan" where
  "plan_stages mode cb_size codebook_sizes family_map tensor_map =
     bind_err
       (case family_map of
          Some m \<Rightarrow>
            if mode \<noteq> ''per-tensor'' then Inl (NeedsPerTensor ''family_stages_map'')
            else bind_err (resolve_map m) (\<lambda>r. bind_err (longest r) (\<lambda>n. Inr ([], Some r, n)))
        | None \<Rightarrow>
            (let spec = (case codebook_sizes of Some (k # ks) \<Rightarrow> map Codebook (k # ks) | _ \<Rightarrow> [Codebook cb_size])
             in if length spec < 1 then Inl NoStage else Inr (spec, None, length spec)))
       (\<lambda>(spec, fam, n).
          case tensor_map of
            None \<Rightarrow> Inr \<lparr>sp_spec = spec, sp_family = fam, sp_tensor = None, sp_n_stages = n\<rparr>
          | Some m \<Rightarrow>
              if mode \<noteq> ''per-tensor'' then Inl (NeedsPerTensor ''tensor_stages_map'')
              else bind_err (resolve_map m) (\<lambda>r. bind_err (longest r) (\<lambda>k.
                     Inr \<lparr>sp_spec = spec, sp_family = fam, sp_tensor = Some r, sp_n_stages = max n k\<rparr>)))"

text \<open>Per-tensor overrides of the transforms: only the two known fields are kept.\<close>

definition resolve_transforms ::
  "string \<Rightarrow> (string \<times> (string \<times> string) list) list \<Rightarrow> pack_error + (string \<times> (string \<times> string) list) list option" where
  "resolve_transforms mode m =
     (if m = [] then Inr None
      else if mode \<noteq> ''per-tensor'' then Inl (NeedsPerTensor ''tensor_transforms_map'')
      else Inr (Some (map (\<lambda>(nm, over). (nm, filter (\<lambda>(k, _). k \<in> {''normalization'', ''rotation''}) over)) m)))"

definition transform_of ::
  "(string \<times> (string \<times> string) list) list option \<Rightarrow> string \<Rightarrow> string \<Rightarrow> string \<Rightarrow> string \<Rightarrow> string" where
  "transform_of transforms mode nm field default_value =
     (let tf = (case transforms of Some m \<Rightarrow> if mode = ''per-tensor'' then get_or (map_of m nm) [] else [] | None \<Rightarrow> [])
      in get_or (map_of tf field) default_value)"

text \<open>Flags that would silently do nothing are turned off, so the manifest records what happens.\<close>

definition effective_error_compensation :: "bool \<Rightarrow> string \<Rightarrow> string \<Rightarrow> bool \<Rightarrow> bool" where
  "effective_error_compensation flag backend rotation calibrated \<longleftrightarrow>
     flag \<and> \<not> (backend \<noteq> ''torch'' \<or> rotation \<noteq> ''none'' \<or> \<not> calibrated)"

definition effective_mse_scale :: "bool \<Rightarrow> bool \<Rightarrow> string \<Rightarrow> string \<Rightarrow> bool" where
  "effective_mse_scale flag has_transforms rotation normalization \<longleftrightarrow>
     flag \<and> \<not> (\<not> has_transforms \<and> (rotation \<noteq> ''none'' \<or> \<not> stores_block_scales normalization))"

section \<open>Skipped names\<close>

definition SENSITIVITY_SKIP_LOSS_DELTA :: real where "SENSITIVITY_SKIP_LOSS_DELTA = 3 / 2"

definition sensitivity_skips :: "(string \<times> real) list \<Rightarrow> string list" where
  "sensitivity_skips layers =
     map fst (filter (\<lambda>(layer, loss_delta). loss_delta > SENSITIVITY_SKIP_LOSS_DELTA \<or> contains ''embed'' layer
       \<or> contains ''lm_head'' layer) layers)"

definition head_fp16_skip :: "string \<Rightarrow> bool \<Rightarrow> string list \<Rightarrow> string list" where
  "head_fp16_skip mode tied heads =
     (if mode = ''off'' then [] else if mode = ''on'' then heads else if tied then heads else [])"

section \<open>The route of a tensor\<close>

record route_plan =
  rp_only :: "string list option"
  rp_only_passthrough :: bool
  rp_max_tensors :: "int option"
  rp_skipped :: "string list"
  rp_partition :: "(nat \<times> nat) option"

record routed =
  rt_packed :: "string list"
  rt_passthrough :: "string list"
  rt_seen :: nat

definition listed :: "string list option \<Rightarrow> string \<Rightarrow> bool" where
  "listed only_tensors nm = (case only_tensors of None \<Rightarrow> True | Some names \<Rightarrow> nm \<in> set names \<or> drop_weight nm \<in> set names)"

definition skipped :: "route_plan \<Rightarrow> string \<Rightarrow> bool" where
  "skipped p nm \<longleftrightarrow> drop_weight nm \<in> set (rp_skipped p) \<or> nm \<in> set (rp_skipped p)"

text \<open>Once the limit on packed tensors is reached, the loop ends.\<close>

fun route :: "route_plan \<Rightarrow> (string \<times> nat list) list \<Rightarrow> routed \<Rightarrow> routed" where
  "route p [] r = r"
| "route p ((nm, shape) # ts) r =
     (if \<not> is_quant_candidate nm shape then route p ts (r\<lparr>rt_passthrough := rt_passthrough r @ [nm]\<rparr>)
      else if \<not> listed (rp_only p) nm then
        route p ts (if rp_only_passthrough p then r\<lparr>rt_passthrough := rt_passthrough r @ [nm]\<rparr> else r)
      else if (case rp_max_tensors p of Some m \<Rightarrow> m \<le> int (length (rt_packed r)) | None \<Rightarrow> False) then r
      else if skipped p nm then route p ts (r\<lparr>rt_passthrough := rt_passthrough r @ [nm]\<rparr>)
      else
        (let slot = (case rp_partition p of Some (n, i) \<Rightarrow> rt_seen r mod n = i | None \<Rightarrow> True); r1 = r\<lparr>rt_seen := Suc (rt_seen r)\<rparr>
         in route p ts (if slot then r1\<lparr>rt_packed := rt_packed r @ [nm]\<rparr> else r1)))"

definition route_checkpoint :: "route_plan \<Rightarrow> (string \<times> nat list) list \<Rightarrow> routed" where
  "route_checkpoint p ts = route p ts \<lparr>rt_packed = [], rt_passthrough = [], rt_seen = 0\<rparr>"

section \<open>Vectors\<close>

definition EMBEDDING_MAX_GROUP_SIZE :: nat where "EMBEDDING_MAX_GROUP_SIZE = 8"

definition resolved_group_size :: "string \<Rightarrow> bool \<Rightarrow> nat \<Rightarrow> string \<Rightarrow> nat" where
  "resolved_group_size mode has_tensor_stages g nm =
     (if mode = ''per-tensor'' \<and> \<not> has_tensor_stages \<and> classify_tensor_family nm = ''embedding''
      then min g EMBEDDING_MAX_GROUP_SIZE else g)"

text \<open>\<open>flat[:limit]\<close>, padded with zeros to whole groups; a group of zero values divides by zero.\<close>

definition numpy_vectors_from_tensor :: "real list \<Rightarrow> nat \<Rightarrow> int option \<Rightarrow> (nat \<times> nat \<times> vec list) option" where
  "numpy_vectors_from_tensor flat g limit =
     (if g = 0 then None
      else
        (let cut = (case limit of None \<Rightarrow> flat | Some l \<Rightarrow> take (py_slice_ix (length flat) l) flat);
             pad = padded g cut
         in Some (length cut, length pad, blocks_of g pad)))"


section \<open>Partitions\<close>

definition stride :: "nat \<Rightarrow> nat \<Rightarrow> 'a list \<Rightarrow> 'a list" where
  "stride n i xs = map (\<lambda>k. xs ! k) (filter (\<lambda>k. k mod n = i) [0..<length xs])"

lemma stride_Nil [simp]: "stride n i [] = []"
  by (simp add: stride_def)

lemma stride_snoc: "stride n i (xs @ [x]) = stride n i xs @ (if length xs mod n = i then [x] else [])"
  by (auto simp: stride_def nth_append intro!: map_cong)

lemma strides_mset:
  assumes "0 < n"
  shows "(\<Sum>i<n. mset (stride n i xs)) = mset xs"
proof (induction xs rule: rev_induct)
  case (snoc x xs)
  have "(\<Sum>i<n. mset (stride n i (xs @ [x]))) =
      (\<Sum>i<n. mset (stride n i xs) + (if length xs mod n = i then {#x#} else {#}))"
    by (intro sum.cong) (auto simp: stride_snoc)
  also have "\<dots> = mset xs + {#x#}" using snoc assms by (simp add: sum.distrib)
  finally show ?case by simp
qed simp

lemma route_partition:
  assumes "rp_max_tensors p = None" and "rp_partition p = None"
  shows "route (p\<lparr>rp_partition := Some (n, i)\<rparr>) ts \<lparr>rt_packed = stride n i P, rt_passthrough = T, rt_seen = length P\<rparr> =
    (let r = route p ts \<lparr>rt_packed = P, rt_passthrough = T, rt_seen = length P\<rparr>
     in r\<lparr>rt_packed := stride n i (rt_packed r)\<rparr>) \<and>
    rt_seen (route p ts \<lparr>rt_packed = P, rt_passthrough = T, rt_seen = length P\<rparr>)
      = length (rt_packed (route p ts \<lparr>rt_packed = P, rt_passthrough = T, rt_seen = length P\<rparr>))"
proof (induction ts arbitrary: P T)
  case (Cons t ts)
  obtain nm shape where t: "t = (nm, shape)" by (cases t)
  show ?case
    using Cons [of P T] Cons [of P "T @ [nm]"] Cons [of "P @ [nm]" T] assms
    by (auto simp: t Let_def skipped_def stride_snoc)
qed simp

definition dropped :: "route_plan \<Rightarrow> (string \<times> nat list) list \<Rightarrow> string list" where
  "dropped p ts = map fst (filter (\<lambda>(nm, shape). is_quant_candidate nm shape \<and> \<not> listed (rp_only p) nm \<and> \<not> rp_only_passthrough p) ts)"

lemma route_counts:
  assumes "rp_max_tensors p = None" and "rp_partition p = None"
  shows "mset (rt_packed (route p ts r)) + mset (rt_passthrough (route p ts r)) + mset (dropped p ts) =
    mset (rt_packed r) + mset (rt_passthrough r) + mset (map fst ts)"
proof (induction ts arbitrary: r)
  case (Cons t ts)
  obtain nm shape where t: "t = (nm, shape)" by (cases t)
  show ?case
    using Cons assms by (auto simp: t Let_def dropped_def)
qed (simp add: dropped_def)


lemma vectors_hold_values:
  assumes "numpy_vectors_from_tensor flat g limit = Some (packed, padded_len, rows)"
  shows "take packed (concat rows) = (case limit of None \<Rightarrow> flat | Some l \<Rightarrow> take (py_slice_ix (length flat) l) flat)"
    and "padded_len = length rows * g" and "rows_shape g (length rows) rows" and "packed \<le> padded_len" and "padded_len < packed + g"
proof -
  let ?cut = "case limit of None \<Rightarrow> flat | Some l \<Rightarrow> take (py_slice_ix (length flat) l) flat"
  have g: "0 < g" and eqs: "packed = length ?cut" "padded_len = length (padded g ?cut)" "rows = blocks_of g (padded g ?cut)"
    using assms by (auto simp: numpy_vectors_from_tensor_def Let_def split: if_splits)
  note len = length_padded_flat [OF g, of ?cut]
  then have dvd: "g dvd length (padded g ?cut)" by blast
  note blocks = blocks_of_dvd [OF g dvd] concat_blocks_of [OF g, of "padded g ?cut"]
  show "take packed (concat rows) = ?cut" using blocks(2) eqs by (simp add: padded_def)
  show "padded_len = length rows * g" using blocks(1) eqs(2,3) dvd by simp
  show "rows_shape g (length rows) rows" using blocks(1) eqs(3) by (simp add: rows_shape_def)
  show "packed \<le> padded_len" using eqs(1,2) len by simp
  show "padded_len < packed + g" using eqs(1,2) len g by simp
qed

section \<open>Properties\<close>

text \<open>C34: Without a limit on the number of tensors (\<open>max_tensors\<close>), packing a checkpoint in partitions is complete and
  has no overlap: every partition passes the same tensors through, the packed tensors of the partitions together are
  those of one unpartitioned run, and packed, passed-through and dropped tensors (the ones a selection leaves out on
  purpose) make up the checkpoint, each tensor once. With a limit, tensors after the last one packed are
  lost (\<open>limit_drops_later_norms\<close>).\<close>

theorem partitions_cover_checkpoint:
  assumes "rp_max_tensors p = None" and "rp_partition p = None" and "0 < n"
  shows "(\<Sum>i<n. mset (rt_packed (route_checkpoint (p\<lparr>rp_partition := Some (n, i)\<rparr>) ts))) + mset (rt_passthrough (route_checkpoint p ts))
      + mset (dropped p ts) = mset (map fst ts) \<and>
    (\<Sum>i<n. mset (rt_packed (route_checkpoint (p\<lparr>rp_partition := Some (n, i)\<rparr>) ts))) = mset (rt_packed (route_checkpoint p ts)) \<and>
    list_all (\<lambda>i. rt_passthrough (route_checkpoint (p\<lparr>rp_partition := Some (n, i)\<rparr>) ts) = rt_passthrough (route_checkpoint p ts)) [0..<n]"
proof -
  have part: "rt_packed (route_checkpoint (p\<lparr>rp_partition := Some (n, i)\<rparr>) ts) = stride n i (rt_packed (route_checkpoint p ts)) \<and>
      rt_passthrough (route_checkpoint (p\<lparr>rp_partition := Some (n, i)\<rparr>) ts) = rt_passthrough (route_checkpoint p ts)" for i
    using route_partition [OF assms(1,2), of n i ts "[]" "[]"] by (simp add: route_checkpoint_def Let_def)
  have "mset (rt_packed (route_checkpoint p ts)) + mset (rt_passthrough (route_checkpoint p ts)) + mset (dropped p ts) = mset (map fst ts)"
    using route_counts [OF assms(1,2), of ts] by (simp add: route_checkpoint_def)
  then show ?thesis using part strides_mset [OF assms(3), of "rt_packed (route_checkpoint p ts)"] by (simp add: list_all_iff)
qed

definition demo_plan :: route_plan where
  "demo_plan = \<lparr>rp_only = None, rp_only_passthrough = True, rp_max_tensors = None, rp_skipped = [''lm_head''], rp_partition = None\<rparr>"

definition demo_checkpoint :: "(string \<times> nat list) list" where
  "demo_checkpoint = [(''a.q'', [4, 4]), (''a.norm'', [4]), (''a.k'', [4, 4]), (''lm_head.weight'', [8, 4]), (''a.v'', [4, 4])]"

theorem partitions_cover_checkpoint_witness:
  "(\<Sum>i<2. mset (rt_packed (route_checkpoint (demo_plan\<lparr>rp_partition := Some (2, i)\<rparr>) demo_checkpoint)))
    = mset (rt_packed (route_checkpoint demo_plan demo_checkpoint)) \<and>
   rt_packed (route_checkpoint (demo_plan\<lparr>rp_partition := Some (2, 0)\<rparr>) demo_checkpoint) = [''a.q'', ''a.v''] \<and>
   rt_passthrough (route_checkpoint demo_plan demo_checkpoint) = [''a.norm'', ''lm_head.weight'']"
proof -
  have "rt_packed (route_checkpoint (demo_plan\<lparr>rp_partition := Some (2, 0)\<rparr>) demo_checkpoint) = [''a.q'', ''a.v'']"
    "rt_passthrough (route_checkpoint demo_plan demo_checkpoint) = [''a.norm'', ''lm_head.weight'']"
    by code_simp+
  moreover have "rp_max_tensors demo_plan = None" "rp_partition demo_plan = None" by (simp_all add: demo_plan_def)
  ultimately show ?thesis
    using partitions_cover_checkpoint [of demo_plan 2 demo_checkpoint] by simp
qed

text \<open>With a limit on the packed tensors the loop stops before later tensors that nothing else carries.\<close>

lemma limit_drops_later_norms:
  "route_checkpoint (demo_plan\<lparr>rp_max_tensors := Some 1\<rparr>) [(''a.q'', [4, 4]), (''a.k'', [4, 4]), (''a.norm'', [4])] =
    \<lparr>rt_packed = [''a.q''], rt_passthrough = [], rt_seen = 1\<rparr>"
  by code_simp

end
