(* ===== verification/Outlier_Split.thy ===== *)
theory Outlier_Split
  imports Stages Names
begin

text \<open>
  \<open>transforms/outliers.py\<close>, and the sparse part of the packing loop in \<open>pipeline/pack.py\<close>: the entries of frequent tokens
  (pillars) and the outliers are taken out of the vectors and kept exactly in a sidecar, which the decoder puts back.

  Selecting the \<open>k\<close> largest scores is numpy's \<open>argpartition\<close> or torch's \<open>topk\<close>, a parameter; its law is that no score
  left out is larger than one taken. Values are exact.
\<close>

datatype outlier_error = TooManyOutliers | PillarIndex

section \<open>Outliers\<close>

definition outlier_scores :: "real list \<Rightarrow> real list option \<Rightarrow> nat option \<Rightarrow> real list" where
  "outlier_scores flat_abs col_importance cols =
     (let sq = map2 (*) flat_abs flat_abs
      in case (col_importance, cols) of
           (Some h, Some c) \<Rightarrow>
             if c = 0 \<or> length flat_abs mod c \<noteq> 0 \<or> length h \<noteq> c then sq
             else map2 (*) sq (concat (replicate (length flat_abs div c) h))
         | _ \<Rightarrow> sq)"

definition zero_at :: "nat list \<Rightarrow> real list \<Rightarrow> real list" where
  "zero_at ps flat = foldl (\<lambda>f p. f[p := 0]) flat ps"

definition extract_outliers ::
  "(real list \<Rightarrow> nat \<Rightarrow> nat list) \<Rightarrow> nat \<Rightarrow> vec list \<Rightarrow> real option \<Rightarrow> nat \<Rightarrow> real list option \<Rightarrow> nat option
    \<Rightarrow> outlier_error + (nat list \<times> real list) option \<times> vec list" where
  "extract_outliers pick g vectors outlier_frac packed_values col_importance cols =
     (case outlier_frac of
        None \<Rightarrow> Inr (None, vectors)
      | Some share \<Rightarrow>
          if share \<le> 0 then Inr (None, vectors)
          else
            (let n = packed_values; k = nat \<lfloor>share * real n\<rfloor>
             in if k = 0 then Inr (None, vectors)
                else
                  (let flat = concat vectors; relevant = take n flat; scores = outlier_scores (map abs relevant) col_importance cols
                   in if length scores < k then Inl TooManyOutliers
                      else
                        (let positions = pick scores k
                         in Inr (Some (positions, map (\<lambda>p. flat ! p) positions), blocks_of g (zero_at positions flat))))))"

section \<open>Pillars\<close>

text \<open>The positions of the rows of the frequent tokens; token ids count from 0, those outside the vocabulary are ignored.\<close>

definition pillar_rows :: "nat list \<Rightarrow> nat \<Rightarrow> nat \<Rightarrow> nat list" where
  "pillar_rows top_tokens vocab hidden =
     concat (map (\<lambda>tid. if tid < vocab then [tid * hidden..<tid * hidden + hidden] else []) top_tokens)"

definition pillar_positions :: "arch_profile \<Rightarrow> string \<Rightarrow> shape \<Rightarrow> nat list option \<Rightarrow> outlier_error + nat list" where
  "pillar_positions profile name shp top_tokens =
     (case top_tokens of
        None \<Rightarrow> Inr []
      | Some tops \<Rightarrow>
          if \<not> profile_is_output_head profile name (Some shp) then Inr []
          else if length shp < 2 then Inl PillarIndex
          else Inr (pillar_rows tops (shp ! 0) (shp ! 1)))"

definition protect_pillars ::
  "real env \<Rightarrow> nat \<Rightarrow> vec list \<Rightarrow> nat list \<Rightarrow> outlier_error + (nat list \<times> real list) option \<times> vec list" where
  "protect_pillars e g vectors ps =
     (if ps = [] then Inr (None, vectors)
      else
        (let flat = concat vectors
         in if list_ex (\<lambda>p. length flat \<le> p) ps then Inl PillarIndex
            else Inr (Some (ps, storage16 e (map (\<lambda>p. flat ! p) ps)), blocks_of g (zero_at ps flat))))"

text \<open>The candidate's sparse entries: pillars first, then the outliers of what is left, each rounded to its storage.\<close>

definition sparse_entries ::
  "real env \<Rightarrow> (nat list \<times> real list) option \<Rightarrow> (nat list \<times> real list) option \<Rightarrow> nat list option \<times> real list option" where
  "sparse_entries e pillars outliers =
     (let values = map_option (\<lambda>(_, vs). storage16 e vs) outliers
      in case pillars of
           Some (pp, pv) \<Rightarrow>
             (case outliers of
                Some (ps, _) \<Rightarrow> (Some (pp @ ps), map_option (\<lambda>vs. pv @ vs) values)
              | None \<Rightarrow> (Some pp, Some pv))
         | None \<Rightarrow> (map_option fst outliers, values))"

definition split_sparse ::
  "real env \<Rightarrow> (real list \<Rightarrow> nat \<Rightarrow> nat list) \<Rightarrow> nat \<Rightarrow> arch_profile \<Rightarrow> string \<Rightarrow> shape \<Rightarrow> nat list option
    \<Rightarrow> vec list \<Rightarrow> real option \<Rightarrow> nat \<Rightarrow> real list option
    \<Rightarrow> outlier_error + (nat list option \<times> real list option) \<times> vec list" where
  "split_sparse e pick g profile name shp top_tokens vectors outlier_frac packed_values col_importance =
     bind_err (pillar_positions profile name shp top_tokens) (\<lambda>pillar_ps.
     bind_err (protect_pillars e g vectors pillar_ps) (\<lambda>(pillars, v1).
     bind_err (extract_outliers pick g v1 outlier_frac packed_values col_importance
                 (if 1 < length shp then Some (last shp) else None)) (\<lambda>(outliers, v2).
       Inr (sparse_entries e pillars outliers, v2))))"

section \<open>Taking out and putting back\<close>

definition pick_ok :: "(real list \<Rightarrow> nat \<Rightarrow> nat list) \<Rightarrow> bool" where
  "pick_ok pick \<longleftrightarrow> (\<forall>scores k. k \<le> length scores \<longrightarrow>
     distinct (pick scores k) \<and> length (pick scores k) = k \<and> (\<forall>p \<in> set (pick scores k). p < length scores) \<and>
     (\<forall>p \<in> set (pick scores k). \<forall>q < length scores. q \<notin> set (pick scores k) \<longrightarrow> scores ! q \<le> scores ! p))"

lemma length_tiled: "length (concat (replicate m y)) = m * length y"
  by (induction m) simp_all

lemma outlier_scores_cases:
  obtains "outlier_scores xs h c = map2 (*) xs xs"
  | hs d where "outlier_scores xs h c = map2 (*) (map2 (*) xs xs) (concat (replicate (length xs div d) hs))"
      "h = Some hs" "length hs = d" "length xs mod d = 0"
proof (cases "\<exists>hs d. h = Some hs \<and> c = Some d \<and> d \<noteq> 0 \<and> length xs mod d = 0 \<and> length hs = d")
  case True
  then obtain hs d where hd: "h = Some hs" "c = Some d" "d \<noteq> 0" "length xs mod d = 0" "length hs = d" by (elim exE conjE)
  have "outlier_scores xs h c = map2 (*) (map2 (*) xs xs) (concat (replicate (length xs div d) hs))"
    unfolding outlier_scores_def hd(1,2) Let_def prod.case option.case by (rule if_not_P) (use hd(3-5) in blast)
  then show ?thesis using hd(1,5,4) by (rule that(2))
next
  case False
  then have "outlier_scores xs h c = map2 (*) xs xs"
    unfolding outlier_scores_def by (cases h; cases c) (auto simp: Let_def)
  then show ?thesis by (rule that(1))
qed

lemma length_outlier_scores [simp]: "length (outlier_scores xs h c) = length xs"
  by (rule outlier_scores_cases [of xs h c]) (simp_all add: length_tiled flip: minus_mod_eq_div_mult)

lemma outlier_scores_signs:
  assumes h: "\<forall>hs. h = Some hs \<longrightarrow> (\<forall>v \<in> set hs. 0 \<le> v)" and i: "i < length xs"
  shows "0 \<le> outlier_scores xs h c ! i" and "xs ! i = 0 \<Longrightarrow> outlier_scores xs h c ! i = 0"
proof -
  have "0 \<le> outlier_scores xs h c ! i \<and> (xs ! i = 0 \<longrightarrow> outlier_scores xs h c ! i = 0)"
  proof (rule outlier_scores_cases [of xs h c])
    fix hs d
    assume s: "outlier_scores xs h c = map2 (*) (map2 (*) xs xs) (concat (replicate (length xs div d) hs))"
      "h = Some hs" "length hs = d" "length xs mod d = 0"
    let ?t = "concat (replicate (length xs div d) hs)"
    have "length ?t = length xs" using s(3,4) by (simp add: length_tiled flip: minus_mod_eq_div_mult)
    moreover from this have "?t ! i \<in> set ?t" by (intro nth_mem) (use i in simp)
    then have "0 \<le> ?t ! i" using h s(2) by auto
    ultimately show ?thesis using i s(1) by simp
  qed (use i in simp)
  then show "0 \<le> outlier_scores xs h c ! i" and "xs ! i = 0 \<Longrightarrow> outlier_scores xs h c ! i = 0" by blast+
qed

lemma length_zero_at [simp]: "length (zero_at ps flat) = length flat"
  unfolding zero_at_def by (induction ps arbitrary: flat) auto

lemma zero_at_nth: "p < length flat \<Longrightarrow> zero_at ps flat ! p = (if p \<in> set ps then 0 else flat ! p)"
  unfolding zero_at_def by (induction ps arbitrary: flat) (auto simp: nth_list_update)

text \<open>Overrides whose values depend on the position only, in any order and multiplicity.\<close>

lemma put_values_map:
  assumes "\<forall>p \<in> set ps. p < length d"
  shows "put_values d (zip (map int ps) (map f ps)) = Inr (map (\<lambda>q. if q \<in> set ps then f q else d ! q) [0..<length d])"
  using assms
proof (induction ps arbitrary: d)
  case Nil
  then show ?case by (simp add: map_nth)
next
  case (Cons p ps)
  then have "put_values d (zip (map int (p # ps)) (map f (p # ps))) =
      Inr (map (\<lambda>q. if q \<in> set ps then f q else d[p := f p] ! q) [0..<length d])"
    by (simp add: Let_def)
  also have "map (\<lambda>q. if q \<in> set ps then f q else d[p := f p] ! q) [0..<length d] =
      map (\<lambda>q. if q \<in> set (p # ps) then f q else d ! q) [0..<length d]"
    by (rule map_cong) (auto simp: nth_list_update)
  finally show ?case .
qed

lemma zero_at_map: "zero_at ps flat = map (\<lambda>q. if q \<in> set ps then 0 else flat ! q) [0..<length flat]"
  by (rule nth_equalityI) (auto simp: zero_at_nth)

lemma storage16_map: "\<exists>r \<in> {id, round16 e}. storage16 e vs = map r vs"
  by (rule storage16_cases [of e vs]) auto

lemma reblock:
  assumes "0 < g" and "\<forall>v \<in> set vectors. length v = g" and "length flat = length (concat vectors)"
  shows "map length (blocks_of g flat) = map length vectors" and "concat (blocks_of g flat) = flat"
proof -
  have len: "length (concat vectors) = length vectors * g"
    using assms(2) by (induction vectors) auto
  have "length (blocks_of g flat) = length vectors \<and> (\<forall>b \<in> set (blocks_of g flat). length b = g)"
    using blocks_of_dvd [of g flat] assms(1,3) len by simp
  then show "map length (blocks_of g flat) = map length vectors"
    using assms(2) by (intro nth_equalityI) auto
qed (use assms in simp)

definition outlier_count :: "real option \<Rightarrow> nat \<Rightarrow> nat" where
  "outlier_count outlier_frac n = (case outlier_frac of None \<Rightarrow> 0 | Some share \<Rightarrow> nat \<lfloor>share * real n\<rfloor>)"

lemma extract_outliers_taken:
  assumes g: "0 < g" "\<forall>v \<in> set vectors. length v = g"
  defines "flat \<equiv> concat vectors"
  assumes scores: "scores = outlier_scores (map abs (take n flat)) h c"
    and k: "outlier_count outlier_frac n \<le> length scores"
    and pick: "pick_ok pick" and ps: "ps = pick scores (outlier_count outlier_frac n)"
  shows "\<exists>out v2. extract_outliers pick g vectors outlier_frac n h c = Inr (out, v2) \<and>
    map length v2 = map length vectors \<and> concat v2 = zero_at ps flat \<and>
    (out = None \<and> ps = [] \<or> out = Some (ps, map (\<lambda>p. flat ! p) ps))"
proof (cases "outlier_count outlier_frac n = 0")
  case True
  then have "extract_outliers pick g vectors outlier_frac n h c = Inr (None, vectors)"
    by (auto simp: extract_outliers_def outlier_count_def Let_def split: option.splits)
  moreover have "ps = []" using pick k True by (auto simp: pick_ok_def ps)
  ultimately show ?thesis by (simp add: flat_def zero_at_def)
next
  case False
  then obtain share where s: "outlier_frac = Some share" "nat \<lfloor>share * real n\<rfloor> \<noteq> 0" "outlier_count outlier_frac n = nat \<lfloor>share * real n\<rfloor>"
    by (cases outlier_frac) (auto simp: outlier_count_def)
  have "\<not> share \<le> 0"
  proof
    assume "share \<le> 0"
    then have "share * real n \<le> 0" by (simp add: mult_nonpos_nonneg)
    then show False using s(2) by simp
  qed
  then have "extract_outliers pick g vectors outlier_frac n h c =
      Inr (Some (ps, map (\<lambda>p. flat ! p) ps), blocks_of g (zero_at ps flat))"
    using s k by (simp add: extract_outliers_def ps scores Let_def flat_def min_less_iff_disj)
  moreover note reblock [OF g, of "zero_at ps flat"]
  ultimately show ?thesis by (simp add: flat_def)
qed

lemma pick_positive:
  assumes pick: "pick_ok pick" and k: "k \<le> card {q. q < length scores \<and> 0 < scores ! q}"
    and p: "p \<in> set (pick scores k)"
  shows "0 < scores ! p"
proof (rule ccontr)
  let ?P = "{q. q < length scores \<and> 0 < scores ! q}" and ?S = "set (pick scores k)"
  assume np: "\<not> 0 < scores ! p"
  have "card ?P \<le> card {..<length scores}" by (rule card_mono) auto
  then have kl: "k \<le> length scores" using k by simp
  then have S: "distinct (pick scores k)" "length (pick scores k) = k" "\<forall>p \<in> ?S. p < length scores"
    "\<forall>p \<in> ?S. \<forall>q < length scores. q \<notin> ?S \<longrightarrow> scores ! q \<le> scores ! p"
    using pick unfolding pick_ok_def by blast+
  have "?P \<subseteq> ?S" using S(4) p np by (smt (verit) mem_Collect_eq subsetI)
  then have "?P \<subseteq> ?S - {p}" using np by blast
  then have "card ?P \<le> card (?S - {p})" by (rule card_mono [rotated]) simp
  also have "\<dots> < card ?S" using p by (intro card_Diff1_less) auto
  finally show False using k S(1,2) by (simp add: distinct_card)
qed

lemma protect_pillars_taken:
  assumes g: "0 < g" "\<forall>v \<in> set vectors. length v = g"
  defines "flat \<equiv> concat vectors"
  assumes pp: "\<forall>p \<in> set pp. p < length flat"
  shows "\<exists>out v1. protect_pillars e g vectors pp = Inr (out, v1) \<and>
    map length v1 = map length vectors \<and> concat v1 = zero_at pp flat \<and>
    (out = None \<and> pp = [] \<or> out = Some (pp, storage16 e (map (\<lambda>p. flat ! p) pp)))"
proof (cases "pp = []")
  case True
  then show ?thesis by (simp add: protect_pillars_def zero_at_def flat_def)
next
  case False
  have "\<not> list_ex (\<lambda>p. length flat \<le> p) pp" using pp by (auto simp: list_ex_iff)
  then have "protect_pillars e g vectors pp =
      Inr (Some (pp, storage16 e (map (\<lambda>p. flat ! p) pp)), blocks_of g (zero_at pp flat))"
    using False by (simp add: protect_pillars_def Let_def flat_def)
  moreover note reblock [OF g, of "zero_at pp flat"]
  ultimately show ?thesis by (simp add: flat_def)
qed

lemma sparse_entries_put:
  assumes pillars: "pillars = None \<and> pp = [] \<or> pillars = Some (pp, map r1 (map (\<lambda>p. flat ! p) pp))"
    and outliers: "outliers = None \<and> ps = [] \<or> outliers = Some (ps, map (\<lambda>p. flat1 ! p) ps)"
    and disj: "set ps \<inter> set pp = {}"
    and same: "\<forall>p \<in> set ps. flat1 ! p = flat ! p"
    and se: "sparse_entries e pillars outliers = (pos', vals')"
  shows "\<exists>r2 \<in> {id, round16 e}. \<forall>d. (\<forall>p \<in> set pp \<union> set ps. p < length d) \<longrightarrow>
    put_values d (zip (map int (get_or pos' [])) (get_or vals' [])) =
      Inr (map (\<lambda>q. if q \<in> set pp then r1 (flat ! q) else if q \<in> set ps then r2 (flat ! q) else d ! q) [0..<length d])"
proof -
  obtain r2 where r2: "r2 \<in> {id, round16 e}" "storage16 e (map (\<lambda>p. flat1 ! p) ps) = map r2 (map (\<lambda>p. flat1 ! p) ps)"
    using storage16_map [of e "map (\<lambda>p. flat1 ! p) ps"] by blast
  let ?f = "\<lambda>q. if q \<in> set pp then r1 (flat ! q) else r2 (flat ! q)"
  have f1: "map r1 (map (\<lambda>p. flat ! p) pp) = map ?f pp" by simp
  have f2: "storage16 e (map (\<lambda>p. flat1 ! p) ps) = map ?f ps" using r2(2) same disj by auto
  have "get_or pos' [] = pp @ ps \<and> get_or vals' [] = map ?f pp @ map ?f ps"
    using pillars outliers se unfolding f1 by (auto simp: sparse_entries_def f2 get_or_def)
  then have zip: "zip (map int (get_or pos' [])) (get_or vals' []) = zip (map int (pp @ ps)) (map ?f (pp @ ps))" by simp
  have "map (\<lambda>q. if q \<in> set (pp @ ps) then ?f q else d ! q) [0..<length d] =
      map (\<lambda>q. if q \<in> set pp then r1 (flat ! q) else if q \<in> set ps then r2 (flat ! q) else d ! q) [0..<length d]" for d
    by (rule map_cong) auto
  then show ?thesis using put_values_map [of "pp @ ps" _ ?f] zip by (intro bexI [of _ r2] r2(1)) simp
qed

text \<open>C35: taking pillars and outliers out of the vectors and putting the sparse entries back restores them, when there are
  at least as many positive scores (which only positions outside the pillars have) as outliers asked for. The vectors keep
  their shape and are zero at the entries taken and unchanged elsewhere; the outliers are distinct, are no
  pillars, and no position of the scored range has a larger score than one of them; and putting the entries onto any reconstruction
  gives the stored value at each entry and leaves the rest alone.\<close>

theorem sparse_entries_put_back:
  assumes pick: "pick_ok pick" and g: "0 < g" "\<forall>v \<in> set vectors. length v = g"
    and pp: "pillar_positions profile name shp top_tokens = Inr pp" "\<forall>p \<in> set pp. p < length (concat vectors)"
    and n: "n \<le> length (concat vectors)"
    and h: "\<forall>hs. h = Some hs \<longrightarrow> (\<forall>v \<in> set hs. 0 \<le> v)"
    and sc: "scores = outlier_scores (map abs (take n (zero_at pp (concat vectors)))) h
                        (if 1 < length shp then Some (last shp) else None)"
    and k: "outlier_count outlier_frac n \<le> card {q. q < length scores \<and> 0 < scores ! q}"
  shows "\<exists>pos vals v2 ps r1 r2.
    split_sparse e pick g profile name shp top_tokens vectors outlier_frac n h = Inr ((pos, vals), v2) \<and>
    map length v2 = map length vectors \<and>
    concat v2 = map (\<lambda>q. if q \<in> set pp \<union> set ps then 0 else concat vectors ! q) [0..<length (concat vectors)] \<and>
    distinct ps \<and> length ps = outlier_count outlier_frac n \<and> set ps \<subseteq> {..<n} - set pp \<and>
    (\<forall>p \<in> set ps. \<forall>q < n. q \<notin> set ps \<longrightarrow> scores ! q \<le> scores ! p) \<and>
    {r1, r2} \<subseteq> {id, round16 e} \<and>
    (\<forall>d. length d = length (concat vectors) \<longrightarrow>
      put_values d (zip (map int (get_or pos [])) (get_or vals [])) =
        Inr (map (\<lambda>q. if q \<in> set pp then r1 (concat vectors ! q)
                      else if q \<in> set ps then r2 (concat vectors ! q) else d ! q) [0..<length d]))"
proof -
  let ?flat = "concat vectors" and ?c = "if 1 < length shp then Some (last shp) else None"
  let ?flat1 = "zero_at pp ?flat" and ?k = "outlier_count outlier_frac n"
  let ?ps = "pick scores ?k"
  have ls: "length scores = n" using n by (simp add: sc)
  have "card {q. q < length scores \<and> 0 < scores ! q} \<le> card {..<length scores}" by (rule card_mono) auto
  then have kl: "?k \<le> length scores" using k by simp
  have P: "distinct ?ps" "length ?ps = ?k" "\<forall>p \<in> set ?ps. p < n"
    "\<forall>p \<in> set ?ps. \<forall>q < n. q \<notin> set ?ps \<longrightarrow> scores ! q \<le> scores ! p"
    using pick kl ls unfolding pick_ok_def by blast+
  have npp: "p \<notin> set pp" if "p \<in> set ?ps" for p
  proof
    assume "p \<in> set pp"
    moreover have "p < n" "p < length ?flat" using P(3) that n by auto
    ultimately have "map abs (take n ?flat1) ! p = 0" by (simp add: zero_at_nth)
    then have "scores ! p = 0" unfolding sc using outlier_scores_signs(2) [OF h] P(3) that n by simp
    then show False using pick_positive [OF pick k that] by simp
  qed
  obtain o1 v1 where v1: "protect_pillars e g vectors pp = Inr (o1, v1)" "map length v1 = map length vectors"
    "concat v1 = ?flat1" "o1 = None \<and> pp = [] \<or> o1 = Some (pp, storage16 e (map (\<lambda>p. ?flat ! p) pp))"
    using protect_pillars_taken [OF g pp(2)] by blast
  have "set (map length v1) = set (map length vectors)" using v1(2) by simp
  then have g1: "\<forall>v \<in> set v1. length v = g" using g(2) by auto
  have sc1: "scores = outlier_scores (map abs (take n (concat v1))) h ?c" by (simp add: v1(3) sc)
  obtain o2 v2 where v2: "extract_outliers pick g v1 outlier_frac n h ?c = Inr (o2, v2)"
    "map length v2 = map length v1" "concat v2 = zero_at ?ps ?flat1"
    "o2 = None \<and> ?ps = [] \<or> o2 = Some (?ps, map (\<lambda>p. ?flat1 ! p) ?ps)"
    using extract_outliers_taken [OF g(1) g1 sc1 kl pick refl] unfolding v1(3) by blast
  obtain r1 where r1: "r1 \<in> {id, round16 e}" "storage16 e (map (\<lambda>p. ?flat ! p) pp) = map r1 (map (\<lambda>p. ?flat ! p) pp)"
    using storage16_map [of e "map (\<lambda>p. ?flat ! p) pp"] by blast
  obtain pos vals where se: "sparse_entries e o1 o2 = (pos, vals)" by force
  have run: "split_sparse e pick g profile name shp top_tokens vectors outlier_frac n h = Inr ((pos, vals), v2)"
    using pp(1) v1(1) v2(1) se by (simp add: split_sparse_def)
  have zeros: "concat v2 = map (\<lambda>q. if q \<in> set pp \<union> set ?ps then 0 else ?flat ! q) [0..<length ?flat]"
    unfolding v2(3) by (rule nth_equalityI) (auto simp: zero_at_nth)
  have "\<exists>r2 \<in> {id, round16 e}. \<forall>d. (\<forall>p \<in> set pp \<union> set ?ps. p < length d) \<longrightarrow>
    put_values d (zip (map int (get_or pos [])) (get_or vals [])) =
      Inr (map (\<lambda>q. if q \<in> set pp then r1 (?flat ! q) else if q \<in> set ?ps then r2 (?flat ! q) else d ! q) [0..<length d])"
    by (rule sparse_entries_put [OF _ v2(4) _ _ se]) (use v1(4) r1(2) P(3) npp n in \<open>auto simp: zero_at_nth\<close>)
  then obtain r2 where r2: "r2 \<in> {id, round16 e}" "\<And>d. (\<forall>p \<in> set pp \<union> set ?ps. p < length d) \<Longrightarrow>
    put_values d (zip (map int (get_or pos [])) (get_or vals [])) =
      Inr (map (\<lambda>q. if q \<in> set pp then r1 (?flat ! q) else if q \<in> set ?ps then r2 (?flat ! q) else d ! q) [0..<length d])"
    by blast
  have "\<forall>p \<in> set pp \<union> set ?ps. p < length d" if "length d = length ?flat" for d :: "real list"
    using that pp(2) P(3) n by auto
  then show ?thesis
    by (intro exI [of _ pos] exI [of _ vals] exI [of _ v2] exI [of _ ?ps] exI [of _ r1] exI [of _ r2] conjI allI impI
        run zeros P(1,2) r2(2)) (use v1(2) v2(2) P(3,4) npp r1(1) r2(1) in auto)
qed

definition largest :: "real list \<Rightarrow> nat \<Rightarrow> nat list" where
  "largest scores k = take k (rev (sort_key (\<lambda>q. scores ! q) [0..<length scores]))"

lemma largest_ok: "pick_ok largest"
  unfolding pick_ok_def
proof (intro allI impI)
  fix scores :: "real list" and k
  assume k: "k \<le> length scores"
  let ?o = "rev (sort_key (\<lambda>q. scores ! q) [0..<length scores])"
  have d: "distinct ?o" "set ?o = {..<length scores}" by auto
  have "sorted_wrt (\<lambda>a b. scores ! b \<le> scores ! a) ?o"
    using sorted_sort_key [of "\<lambda>q. scores ! q" "[0..<length scores]"] by (simp add: sorted_map sorted_wrt_rev)
  then have s: "sorted_wrt (\<lambda>a b. scores ! b \<le> scores ! a) (take k ?o @ drop k ?o)" by simp
  have "scores ! q \<le> scores ! p" if "p \<in> set (largest scores k)" "q < length scores" "q \<notin> set (largest scores k)" for p q
  proof -
    have "q \<in> set (take k ?o) \<union> set (drop k ?o)"
      unfolding set_append [symmetric] append_take_drop_id using d(2) that(2) by simp
    then have "q \<in> set (drop k ?o)" using that(3) unfolding largest_def by blast
    then show ?thesis using s that(1) unfolding sorted_wrt_append largest_def by blast
  qed
  moreover have "distinct (largest scores k)" "length (largest scores k) = k" using k d(1) by (simp_all add: largest_def)
  moreover have "set (largest scores k) \<subseteq> set ?o" unfolding largest_def by (rule set_take_subset)
  then have "\<forall>p \<in> set (largest scores k). p < length scores" unfolding d(2) by blast
  ultimately show "distinct (largest scores k) \<and> length (largest scores k) = k \<and> (\<forall>p \<in> set (largest scores k). p < length scores) \<and>
      (\<forall>p \<in> set (largest scores k). \<forall>q < length scores. q \<notin> set (largest scores k) \<longrightarrow> scores ! q \<le> scores ! p)"
    by blast
qed

definition no_heads :: arch_profile where
  "no_heads = \<lparr>vocab_size = None, head_names = [], recurrent_names = []\<rparr>"

theorem sparse_entries_put_back_witness:
  "\<exists>pos vals v2 ps r1 r2.
    split_sparse grid_env largest 2 no_heads ''lm_head.weight'' [2, 2] (Some [0]) [[8, -3], [1, 2]] (Some (1 / 4)) 4 None =
      Inr ((pos, vals), v2) \<and>
    map length v2 = map length [[8 :: real, -3], [1, 2]] \<and>
    concat v2 = map (\<lambda>q. if q \<in> set [0, 1] \<union> set ps then 0 else concat [[8, -3], [1, 2]] ! q)
      [0..<length (concat [[8 :: real, -3], [1, 2]])] \<and>
    distinct ps \<and> length ps = outlier_count (Some (1 / 4)) 4 \<and> set ps \<subseteq> {..<4} - set [0, 1] \<and>
    (\<forall>p \<in> set ps. \<forall>q < 4. q \<notin> set ps \<longrightarrow> [0 :: real, 0, 1, 4] ! q \<le> [0, 0, 1, 4] ! p) \<and>
    {r1, r2} \<subseteq> {id, round16 grid_env} \<and>
    (\<forall>d. length d = length (concat [[8 :: real, -3], [1, 2]]) \<longrightarrow>
      put_values d (zip (map int (get_or pos [])) (get_or vals [])) =
        Inr (map (\<lambda>q. if q \<in> set [0, 1] then r1 (concat [[8, -3], [1, 2]] ! q)
                      else if q \<in> set ps then r2 (concat [[8, -3], [1, 2]] ! q) else d ! q) [0..<length d]))"
proof (rule sparse_entries_put_back [OF largest_ok, where profile = no_heads and top_tokens = "Some [0]"])
  show "pillar_positions no_heads ''lm_head.weight'' [2, 2] (Some [0]) = Inr [0, 1]"
    by (simp add: pillar_positions_def no_heads_def profile_is_output_head_def pillar_rows_def upt_rec) code_simp
  have "outlier_count (Some (1 / 4)) 4 = 1" by (simp add: outlier_count_def)
  moreover have "2 \<in> {q. q < length [0 :: real, 0, 1, 4] \<and> 0 < [0 :: real, 0, 1, 4] ! q}" by simp
  then have "0 < card {q. q < length [0 :: real, 0, 1, 4] \<and> 0 < [0 :: real, 0, 1, 4] ! q}"
    by (subst card_gt_0_iff) auto
  ultimately show "outlier_count (Some (1 / 4)) 4 \<le> card {q. q < length [0 :: real, 0, 1, 4] \<and> 0 < [0 :: real, 0, 1, 4] ! q}"
    by simp
qed (simp_all add: outlier_scores_def zero_at_def)

end
