(* ===== verification/Merge.thy ===== *)
theory Merge
  imports Decode "HOL-Library.Multiset" "HOL-Library.List_Lexorder" "HOL-Library.Char_ord"
begin

text \<open>
  \<open>orka/artifact/merge.py\<close>: the artifacts of the partitions of one checkpoint merged into one artifact.

  A directory is the list of its files (path below the directory, content) in the order it is walked. json and
  safetensors are parameters: they read and write a manifest and a list of named tensors. Of a manifest the code
  reads the keys it compares, through \<open>get\<close> (an absent key and null are both \<open>None\<close>), and its tensor list; of a
  tensor's entry it reads the name and the index bytes, and it copies the rest.
\<close>

datatype merge_error =
    TooFewInputs | OutputIsInput | OutputNotEmpty | MissingManifest string | BadManifest string | Mismatch string string
  | MergeConflict string | NameMissing | DuplicateTensor string | BadPassthrough string

record 'x mentry =
  me_name :: "string option"
  me_index_bytes :: "nat option"
  me_rest :: 'x

record ('j, 'x) part_manifest =
  mf_get :: "string \<Rightarrow> 'j option"
  mf_tensors :: "'x mentry list option"
  mf_tensor_count :: "nat option"
  mf_total_index_bytes :: "nat option"
  mf_passthrough_count :: "nat option"
  mf_partition_count :: "nat option"
  mf_partition_index :: "nat option"

record ('j, 'x, 't) merge_env =
  mg_loads :: "byte list \<Rightarrow> ('j, 'x) part_manifest option"
  mg_dumps :: "('j, 'x) part_manifest \<Rightarrow> byte list"
  mg_load_tensors :: "byte list \<Rightarrow> (string \<times> 't) list option"
  mg_save_tensors :: "(string \<times> 't) list \<Rightarrow> byte list"

record artifact =
  ar_path :: string
  ar_files :: "(string \<times> byte list) list"

definition MANIFEST_NAME :: string where "MANIFEST_NAME = ''manifest.json''"
definition PASSTHROUGH_NAME :: string where "PASSTHROUGH_NAME = ''passthrough.safetensors''"

section \<open>Files\<close>

text \<open>The comparison of two open files, chunk by chunk.\<close>

function same_chunks :: "nat \<Rightarrow> byte list \<Rightarrow> byte list \<Rightarrow> bool" where
  "same_chunks k a b =
     (if take k a \<noteq> take k b then False
      else if take k a = [] then True
      else same_chunks k (drop k a) (drop k b))"
  by pat_completeness auto
termination
proof (relation "measure (\<lambda>(k, a, b). length a)")
  fix k :: nat and a b :: "byte list"
  assume "take k a \<noteq> []"
  then show "((k, drop k a, drop k b), k, a, b) \<in> measure (\<lambda>(k, a, b). length a)" by (cases a) auto
qed simp

declare same_chunks.simps [simp del]

definition files_equal :: "nat \<Rightarrow> byte list \<Rightarrow> byte list \<Rightarrow> bool" where
  "files_equal k a b \<longleftrightarrow> length a = length b \<and> same_chunks k a b"

definition copy_file :: "nat \<Rightarrow> store \<Rightarrow> string \<times> byte list \<Rightarrow> merge_error + store" where
  "copy_file k dest item =
     (case item of (rel, content) \<Rightarrow>
        if rel = MANIFEST_NAME \<or> rel = PASSTHROUGH_NAME then Inr dest
        else
          (case dest rel of
             Some other \<Rightarrow> if files_equal k content other then Inr dest else Inl (MergeConflict rel)
           | None \<Rightarrow> Inr (dest(rel \<mapsto> content))))"

definition copy_artifact_files :: "nat \<Rightarrow> store \<Rightarrow> artifact \<Rightarrow> merge_error + store" where
  "copy_artifact_files k dest a = foldM (copy_file k) dest (ar_files a)"

section \<open>Manifests\<close>

definition REQUIRED_FIELDS :: "string list" where
  "REQUIRED_FIELDS = [''format'', ''version'', ''source'', ''group_size'', ''backend'', ''normalization'', ''rotation'',
     ''outlier_frac'', ''codebook_mode'', ''n_stages'']"

definition check_compatibility :: "'j \<Rightarrow> ('j, 'x) part_manifest \<Rightarrow> string \<times> ('j, 'x) part_manifest \<Rightarrow> merge_error + unit" where
  "check_compatibility per_tensor bm item =
     (case item of (path, c) \<Rightarrow>
        case find (\<lambda>f. mf_get bm f \<noteq> mf_get c f) REQUIRED_FIELDS of
          Some f \<Rightarrow> Inl (Mismatch f path)
        | None \<Rightarrow>
            if mf_get bm ''codebook_mode'' = Some per_tensor \<and> mf_get c ''codebook_sizes'' \<noteq> mf_get bm ''codebook_sizes''
            then Inl (Mismatch ''codebook_sizes'' path)
            else if mf_get bm ''family_stages_map'' \<noteq> mf_get c ''family_stages_map''
            then Inl (Mismatch ''family_stages_map'' path)
            else Inr ())"

definition load_manifest :: "('j, 'x, 't) merge_env \<Rightarrow> artifact \<Rightarrow> merge_error + ('j, 'x) part_manifest" where
  "load_manifest E a =
     (case map_of (ar_files a) MANIFEST_NAME of
        None \<Rightarrow> Inl (MissingManifest (ar_path a))
      | Some text \<Rightarrow> (case mg_loads E text of None \<Rightarrow> Inl (BadManifest (ar_path a)) | Some m \<Rightarrow> Inr m))"

definition entries :: "('j, 'x) part_manifest \<Rightarrow> 'x mentry list" where
  "entries m = get_or (mf_tensors m) []"

text \<open>\<open>merged_tensors[name] = meta\<close>, an error when the name is there already.\<close>

definition add_tensor :: "(string \<times> 'x mentry) list \<Rightarrow> 'x mentry \<Rightarrow> merge_error + (string \<times> 'x mentry) list" where
  "add_tensor d e =
     (case me_name e of
        None \<Rightarrow> Inl NameMissing
      | Some nm \<Rightarrow> if nm \<in> fst ` set d then Inl (DuplicateTensor nm) else Inr (d @ [(nm, e)]))"

definition merged_entries :: "(string \<times> 'x mentry) list \<Rightarrow> 'x mentry list" where
  "merged_entries d = map snd (sort_key fst d)"

section \<open>Tensors that were not packed\<close>

definition add_passthrough ::
  "(string \<times> 'x mentry) list \<Rightarrow> (string \<times> 't) list \<Rightarrow> string \<times> 't \<Rightarrow> (string \<times> 't) list" where
  "add_passthrough merged p item =
     (if fst item \<in> fst ` set merged \<or> fst item \<in> fst ` set p then p else p @ [item])"

definition collect_passthrough ::
  "('j, 'x, 't) merge_env \<Rightarrow> (string \<times> 'x mentry) list \<Rightarrow> (string \<times> 't) list \<Rightarrow> artifact
    \<Rightarrow> merge_error + (string \<times> 't) list" where
  "collect_passthrough E merged p a =
     (case map_of (ar_files a) PASSTHROUGH_NAME of
        None \<Rightarrow> Inr p
      | Some raw \<Rightarrow>
          (case mg_load_tensors E raw of
             None \<Rightarrow> Inl (BadPassthrough (ar_path a))
           | Some ts \<Rightarrow> Inr (foldl (add_passthrough merged) p ts)))"

section \<open>The merge\<close>

definition merge_artifacts ::
  "('j, 'x, 't) merge_env \<Rightarrow> 'j \<Rightarrow> nat \<Rightarrow> artifact list \<Rightarrow> artifact \<Rightarrow> merge_error + ('j, 'x) part_manifest \<times> store" where
  "merge_artifacts E per_tensor k inputs out =
     (if length inputs < 2 then Inl TooFewInputs
      else if ar_path out \<in> set (map ar_path inputs) then Inl OutputIsInput
      else if ar_files out \<noteq> [] then Inl OutputNotEmpty
      else
        bind_err (mapM (load_manifest E) inputs) (\<lambda>manifests.
        (let bm = hd manifests
         in bind_err (mapM (check_compatibility per_tensor bm) (zip (map ar_path (tl inputs)) (tl manifests))) (\<lambda>_.
            bind_err (foldM (copy_artifact_files k) Map.empty inputs) (\<lambda>dest.
            bind_err (foldM add_tensor [] (concat (map entries manifests))) (\<lambda>merged.
            bind_err (foldM (collect_passthrough E merged) [] inputs) (\<lambda>passthrough.
            (let dest1 = (if passthrough = [] then dest else dest(PASSTHROUGH_NAME \<mapsto> mg_save_tensors E passthrough));
                 tensors = merged_entries merged;
                 m = bm\<lparr>mf_tensors := Some tensors, mf_tensor_count := Some (length tensors),
                        mf_total_index_bytes := Some (\<Sum>e\<leftarrow>tensors. get_or (me_index_bytes e) 0),
                        mf_passthrough_count := Some (length passthrough),
                        mf_partition_count := None, mf_partition_index := None\<rparr>
             in Inr (m, dest1(MANIFEST_NAME \<mapsto> mg_dumps E m))))))))))"

section \<open>Copying\<close>

lemma same_chunks_eq: "0 < k \<Longrightarrow> same_chunks k a b \<longleftrightarrow> a = b"
proof (induction k a b rule: same_chunks.induct)
  case (1 k a b)
  have "a = b \<longleftrightarrow> take k a = take k b \<and> drop k a = drop k b" by (metis append_take_drop_id)
  moreover have "take k a = take k b \<Longrightarrow> take k a = [] \<Longrightarrow> a = b" using 1(2) by auto
  ultimately show ?case using 1 by (subst same_chunks.simps) auto
qed

lemma files_equal_eq: "0 < k \<Longrightarrow> files_equal k a b \<longleftrightarrow> a = b"
  by (auto simp: files_equal_def same_chunks_eq)

text \<open>The files a directory contributes.\<close>

definition data_of :: "(string \<times> byte list) list \<Rightarrow> store" where
  "data_of files = map_of (filter (\<lambda>(rel, _). rel \<noteq> MANIFEST_NAME \<and> rel \<noteq> PASSTHROUGH_NAME) files)"

definition agree :: "store \<Rightarrow> store \<Rightarrow> bool" where
  "agree s t \<longleftrightarrow> (\<forall>p x y. s p = Some x \<longrightarrow> t p = Some y \<longrightarrow> x = y)"

lemma data_of_simps:
  "data_of [] = Map.empty"
  "data_of ((rel, content) # fs) =
    (if rel = MANIFEST_NAME \<or> rel = PASSTHROUGH_NAME then data_of fs else (data_of fs)(rel \<mapsto> content))"
  by (auto simp: data_of_def)

lemma data_of_new: "rel \<notin> fst ` set fs \<Longrightarrow> data_of fs rel = None"
  by (force simp: data_of_def map_of_eq_None_iff)

lemma agree_sym: "agree s t \<longleftrightarrow> agree t s"
  unfolding agree_def by blast

lemma agree_refl [simp]: "agree s s"
  by (simp add: agree_def)

lemma agree_empty [simp]: "agree s Map.empty" "agree Map.empty s"
  by (simp_all add: agree_def)

lemma agree_upd:
  assumes "s rel = None"
  shows "agree (s(rel \<mapsto> c)) t \<longleftrightarrow> (\<forall>x. t rel = Some x \<longrightarrow> x = c) \<and> agree s (t(rel \<mapsto> c))"
  using assms by (auto simp: agree_def)

lemma add_upd: "s rel = None \<Longrightarrow> t(rel \<mapsto> c) ++ s = t ++ s(rel \<mapsto> c)"
  by (auto simp: map_add_def split: option.splits)

lemma agree_add:
  assumes "agree s t"
  shows "agree u (t ++ s) \<longleftrightarrow> agree u s \<and> agree u t"
proof
  assume a: "agree u (t ++ s)"
  have "agree u s" using a by (simp add: agree_def map_add_Some_iff)
  moreover have "agree u t" unfolding agree_def
  proof (intro allI impI)
    fix p x y assume p: "u p = Some x" "t p = Some y"
    have "(t ++ s) p = Some y" using assms p(2) by (cases "s p") (auto simp: agree_def map_add_def)
    with a p(1) show "x = y" unfolding agree_def by (elim allE impE) assumption+
  qed
  ultimately show "agree u s \<and> agree u t" by simp
qed (auto simp: agree_def map_add_Some_iff)

lemma copy_file_ok:
  assumes "0 < k"
  shows "copy_file k dest (rel, content) = Inr dest' \<longleftrightarrow>
    (if rel = MANIFEST_NAME \<or> rel = PASSTHROUGH_NAME then dest' = dest
     else (\<forall>x. dest rel = Some x \<longrightarrow> x = content) \<and> dest' = dest(rel \<mapsto> content))"
  using assms by (auto simp: copy_file_def files_equal_eq split: option.splits)

lemma copy_files_ok:
  assumes k: "0 < k" and d: "distinct (map fst files)"
  shows "foldM (copy_file k) dest files = Inr dest' \<longleftrightarrow> agree (data_of files) dest \<and> dest' = dest ++ data_of files"
  using d
proof (induction files arbitrary: dest)
  case Nil
  then show ?case by (auto simp: data_of_simps)
next
  case (Cons f fs)
  obtain rel content where f: "f = (rel, content)" by (cases f)
  have "rel \<notin> fst ` set fs" using Cons.prems f by simp
  note new = data_of_new [OF this]
  have "foldM (copy_file k) dest (f # fs) = Inr dest' \<longleftrightarrow>
      (\<exists>d1. copy_file k dest (rel, content) = Inr d1 \<and> foldM (copy_file k) d1 fs = Inr dest')"
    by (simp add: f bind_err_eq_Inr)
  also have "\<dots> \<longleftrightarrow> (\<exists>d1. copy_file k dest (rel, content) = Inr d1 \<and> agree (data_of fs) d1 \<and> dest' = d1 ++ data_of fs)"
    using Cons by simp
  also have "\<dots> \<longleftrightarrow> agree (data_of (f # fs)) dest \<and> dest' = dest ++ data_of (f # fs)"
    unfolding copy_file_ok [OF k] f data_of_simps
    using agree_upd [of "data_of fs" rel content dest] add_upd [of "data_of fs" rel dest content] new by auto
  finally show ?case .
qed

definition data_files :: "artifact \<Rightarrow> store" where
  "data_files a = data_of (ar_files a)"

lemma copy_artifacts_ok:
  assumes k: "0 < k" and d: "\<forall>a \<in> set as. distinct (map fst (ar_files a))"
  shows "foldM (copy_artifact_files k) dest as = Inr dest' \<longleftrightarrow>
      (\<forall>a \<in> set as. agree (data_files a) dest) \<and> (\<forall>a \<in> set as. \<forall>b \<in> set as. agree (data_files a) (data_files b)) \<and>
      dest' = foldl (++) dest (map data_files as)"
  using d
proof (induction as arbitrary: dest)
  case (Cons a as)
  have one: "copy_artifact_files k dest a = Inr dest1 \<longleftrightarrow> agree (data_files a) dest \<and> dest1 = dest ++ data_files a" for dest1
    unfolding copy_artifact_files_def data_files_def by (rule copy_files_ok [OF k]) (use Cons.prems in simp)
  have "foldM (copy_artifact_files k) dest (a # as) = Inr dest' \<longleftrightarrow>
      agree (data_files a) dest \<and> foldM (copy_artifact_files k) (dest ++ data_files a) as = Inr dest'"
    using one by (auto simp: bind_err_eq_Inr)
  also have "\<dots> \<longleftrightarrow> agree (data_files a) dest \<and> (\<forall>b \<in> set as. agree (data_files b) (data_files a) \<and> agree (data_files b) dest) \<and>
      (\<forall>a \<in> set as. \<forall>b \<in> set as. agree (data_files a) (data_files b)) \<and> dest' = foldl (++) dest (map data_files (a # as))"
    using Cons agree_add [of "data_files a" dest] by auto
  finally show ?case using agree_sym [of "data_files a"] by auto
qed auto

lemma foldl_add_keeps:
  assumes "\<forall>s \<in> set ss. agree s t" and "\<forall>s \<in> set ss. \<forall>u \<in> set ss. agree s u"
  shows "t \<subseteq>\<^sub>m foldl (++) t ss \<and> (\<forall>s \<in> set ss. s \<subseteq>\<^sub>m foldl (++) t ss) \<and>
    (\<forall>p v. foldl (++) t ss p = Some v \<longrightarrow> t p = Some v \<or> (\<exists>s \<in> set ss. s p = Some v))"
  using assms
proof (induction ss arbitrary: t)
  case (Cons s ss)
  have st: "agree s t" using Cons.prems by simp
  have "\<forall>u \<in> set ss. agree u (t ++ s)" "\<forall>u \<in> set ss. \<forall>w \<in> set ss. agree u w"
    using Cons.prems agree_add [OF st] by auto
  note ih = Cons.IH [OF this]
  have ts: "t \<subseteq>\<^sub>m t ++ s" using st by (auto simp: map_le_def agree_def map_add_def split: option.splits)
  have le: "t ++ s \<subseteq>\<^sub>m foldl (++) t (s # ss)" unfolding foldl.simps by (rule conjunct1 [OF ih])
  have all: "\<forall>u \<in> set ss. u \<subseteq>\<^sub>m foldl (++) t (s # ss)" unfolding foldl.simps by (rule conjunct1 [OF conjunct2 [OF ih]])
  have "t p = Some v \<or> (\<exists>u \<in> set (s # ss). u p = Some v)" if "foldl (++) t (s # ss) p = Some v" for p v
  proof -
    have "(t ++ s) p = Some v \<or> (\<exists>u \<in> set ss. u p = Some v)"
      using conjunct2 [OF conjunct2 [OF ih]] that unfolding foldl.simps by blast
    then show ?thesis unfolding map_add_Some_iff by auto
  qed
  moreover have "t \<subseteq>\<^sub>m foldl (++) t (s # ss)" by (rule map_le_trans [OF ts le])
  moreover have "s \<subseteq>\<^sub>m foldl (++) t (s # ss)" by (rule map_le_trans [OF map_le_map_add le])
  ultimately show ?case using all unfolding list.set ball_simps insert_iff by blast
qed auto

section \<open>Reading from a larger directory\<close>

text \<open>A reader that succeeds on some files succeeds with the same result when there are more.\<close>

named_theorems reads_more

definition monotone_read :: "(store \<Rightarrow> 'e + 'a) \<Rightarrow> bool" where
  "monotone_read R \<longleftrightarrow> (\<forall>s t v. s \<subseteq>\<^sub>m t \<longrightarrow> R s = Inr v \<longrightarrow> R t = Inr v)"

lemma monotone_readD: "monotone_read R \<Longrightarrow> s \<subseteq>\<^sub>m t \<Longrightarrow> R s = Inr v \<Longrightarrow> R t = Inr v"
  unfolding monotone_read_def by blast

lemma monotone_const [reads_more]: "monotone_read (\<lambda>s. c)"
  by (simp add: monotone_read_def)

lemma monotone_bind [reads_more]:
  "monotone_read R \<Longrightarrow> (\<And>a. monotone_read (\<lambda>s. K a s)) \<Longrightarrow> monotone_read (\<lambda>s. bind_err (R s) (\<lambda>a. K a s))"
  unfolding monotone_read_def bind_err_eq_Inr by blast

lemma monotone_lift [reads_more]: "monotone_read R \<Longrightarrow> monotone_read (\<lambda>s. lift_err f (R s))"
  by (simp add: monotone_read_def)

lemma monotone_if [reads_more]: "monotone_read A \<Longrightarrow> monotone_read B \<Longrightarrow> monotone_read (\<lambda>s. if c then A s else B s)"
  by (cases c) simp_all

lemma monotone_option [reads_more]:
  "monotone_read A \<Longrightarrow> (\<And>x. monotone_read (\<lambda>s. B x s)) \<Longrightarrow>
    monotone_read (\<lambda>s. case o1 of None \<Rightarrow> A s | Some x \<Rightarrow> B x s)"
  by (cases o1) simp_all

lemma monotone_prod [reads_more]: "(\<And>x y. monotone_read (\<lambda>s. B x y s)) \<Longrightarrow> monotone_read (\<lambda>s. case p of (x, y) \<Rightarrow> B x y s)"
  by (cases p) simp

lemma monotone_foldM [reads_more]:
  assumes "\<And>a z. monotone_read (\<lambda>s. f s a z)"
  shows "monotone_read (\<lambda>s. foldM (f s) a zs)"
proof (induction zs arbitrary: a)
  case Nil
  show ?case by (simp add: monotone_const)
next
  case (Cons z zs)
  show ?case unfolding foldM.simps by (intro monotone_bind assms Cons)
qed

lemma monotone_lookup:
  assumes "\<And>x. monotone_read (\<lambda>s. B x)"
  shows "monotone_read (\<lambda>s. case s p of None \<Rightarrow> Inl e | Some x \<Rightarrow> B x)"
  by (auto simp: monotone_read_def map_le_def dom_def split: option.splits)

lemma monotone_files [reads_more]:
  "monotone_read (\<lambda>s. read_blob e p s)"
  "monotone_read (\<lambda>s. read_indices e p b n pk enc s)"
  "monotone_read (\<lambda>s. read_codebook fl p g dt s)"
  "monotone_read (\<lambda>s. fromfile n p s)"
  unfolding read_blob_def read_indices_def read_codebook_def fromfile_def
  by (auto simp: monotone_read_def map_le_def dom_def split: option.splits list.splits)

lemma monotone_sidecars [reads_more]:
  "monotone_read (\<lambda>s. read_float_vector e p n dt s)"
  "monotone_read (\<lambda>s. read_outliers e p q n dt1 dt2 s)"
  "monotone_read (\<lambda>s. read_salient e p q n b dt2 s)"
  "monotone_read (\<lambda>s. read_pillars e p q s)"
  unfolding read_float_vector_def read_outliers_def read_salient_def read_pillars_def Let_def
  by (intro reads_more)+

lemma with_files:
  "dx_floats (x\<lparr>dx_files := s\<rparr>) = dx_floats x" "dx_env (x\<lparr>dx_files := s\<rparr>) = dx_env x"
  "dx_rotations (x\<lparr>dx_files := s\<rparr>) = dx_rotations x" "dx_files (x\<lparr>dx_files := s\<rparr>) = s"
  by simp_all

lemma monotone_decode:
  "monotone_read (\<lambda>s. decode_tensor (x\<lparr>dx_files := s\<rparr>) tm)"
  unfolding decode_tensor_def decode_stages_def read_stage_arrays_def apply_outliers_def apply_pillars_def unrotate_numpy_def
    denormalize_numpy_def read_scales_def read_awq_cols_def apply_salient_def apply_lowrank_numpy_def read_lowrank_def
    Let_def with_files
  by (intro reads_more)+

section \<open>The merged artifact\<close>

lemma add_tensors_ok:
  assumes "\<forall>e \<in> set es. me_name e \<noteq> None"
    and "distinct (map fst d @ map (\<lambda>e. the (me_name e)) es)"
  shows "foldM add_tensor d es = Inr (d @ map (\<lambda>e. (the (me_name e), e)) es)"
  using assms
proof (induction es arbitrary: d)
  case (Cons e es)
  obtain nm where nm: "me_name e = Some nm" using Cons.prems(1) by auto
  have "nm \<notin> fst ` set d" using Cons.prems(2) nm by auto
  then have "add_tensor d e = Inr (d @ [(nm, e)])" using nm by (simp add: add_tensor_def)
  moreover have "distinct (map fst (d @ [(nm, e)]) @ map (\<lambda>e. the (me_name e)) es)" using Cons.prems(2) nm by auto
  ultimately show ?case using Cons.IH [of "d @ [(nm, e)]"] Cons.prems(1) nm by simp
qed simp

definition passthrough_of :: "('j, 'x, 't) merge_env \<Rightarrow> artifact \<Rightarrow> (string \<times> 't) list option" where
  "passthrough_of E a = (case map_of (ar_files a) PASSTHROUGH_NAME of None \<Rightarrow> Some [] | Some raw \<Rightarrow> mg_load_tensors E raw)"

lemma collect_ok:
  assumes "\<forall>a \<in> set as. passthrough_of E a = Some (ts a)"
  shows "foldM (collect_passthrough E merged) p as = Inr (foldl (add_passthrough merged) p (concat (map ts as)))"
  using assms
proof (induction as arbitrary: p)
  case (Cons a as)
  then have "collect_passthrough E merged p a = Inr (foldl (add_passthrough merged) p (ts a))"
    by (auto simp: passthrough_of_def collect_passthrough_def split: option.splits)
  then show ?case using Cons by simp
qed simp

lemma passthrough_first:
  assumes "distinct (map fst p)" and "fst ` set p \<inter> fst ` set merged = {}"
  defines "q ts \<equiv> foldl (add_passthrough merged) p ts"
  shows "distinct (map fst (q ts)) \<and>
    map_of (q ts) = (\<lambda>nm. if nm \<in> fst ` set merged then None else map_of (p @ ts) nm)"
  using assms(1,2) unfolding q_def
proof (induction ts arbitrary: p)
  case Nil
  then show ?case by (auto simp: map_of_eq_None_iff fun_eq_iff)
next
  case (Cons t ts)
  obtain nm v where t: "t = (nm, v)" by (cases t)
  show ?case
  proof (cases "nm \<in> fst ` set merged \<or> nm \<in> fst ` set p")
    case True
    have "map_of (p @ t # ts) x = map_of (p @ ts) x" if "x \<notin> fst ` set merged" for x
    proof -
      have "x = nm \<Longrightarrow> map_of p x \<noteq> None" using True that by (auto simp: map_of_eq_None_iff)
      then show ?thesis by (cases "map_of p x") (auto simp: t map_add_def)
    qed
    moreover have "foldl (add_passthrough merged) p (t # ts) = foldl (add_passthrough merged) p ts"
      using True by (simp add: add_passthrough_def t)
    ultimately show ?thesis using Cons by (auto simp: fun_eq_iff)
  next
    case False
    moreover have "(p @ [t]) @ ts = p @ t # ts" by simp
    ultimately show ?thesis using Cons.IH [of "p @ [t]"] Cons.prems by (simp only:) (simp add: add_passthrough_def t)
  qed
qed

lemma merged_entries_sorted:
  assumes "distinct (map fst d)"
  shows "sorted_wrt (<) (map fst (sort_key fst d))" and "mset (merged_entries d) = mset (map snd d)"
proof -
  have "mset (map fst (sort_key fst d)) = mset (map fst d)" by simp
  then have "distinct (map fst (sort_key fst d))" using assms by (metis mset_eq_imp_distinct_iff)
  then show "sorted_wrt (<) (map fst (sort_key fst d))" by (simp add: strict_sorted_iff)
qed (simp add: merged_entries_def)

text \<open>C36: merging the artifacts of compatible partitions that agree on the files they share and pack different tensors
  succeeds. The merged manifest lists every tensor of every partition once, in ascending order of names; every tensor
  decodes from the merged directory to what it decodes to from the files of its own partition; the directory holds nothing else
  but the partitions' files; and a tensor that was passed through is kept, from the first partition that has it, exactly
  when no partition packed it.\<close>

theorem merge_keeps_partitions:
  assumes k: "0 < k" and walk: "\<forall>a \<in> set inputs. distinct (map fst (ar_files a))"
    and two: "2 \<le> length inputs" and out: "ar_path out \<notin> set (map ar_path inputs)" "ar_files out = []"
    and ms: "\<forall>a \<in> set inputs. load_manifest E a = Inr (mf a)"
    and compatible: "\<forall>a \<in> set inputs. check_compatibility per_tensor (mf (hd inputs)) (ar_path a, mf a) = Inr ()"
    and files: "\<forall>a \<in> set inputs. \<forall>b \<in> set inputs. agree (data_files a) (data_files b)"
    and names: "\<forall>a \<in> set inputs. \<forall>e \<in> set (entries (mf a)). me_name e \<noteq> None"
      "distinct (concat (map (\<lambda>a. map (\<lambda>e. the (me_name e)) (entries (mf a))) inputs))"
    and pass: "\<forall>a \<in> set inputs. passthrough_of E a = Some (ts a)"
  shows "\<exists>m dir ps. merge_artifacts E per_tensor k inputs out = Inr (m, dir) \<and>
    sorted_wrt (<) (map (\<lambda>e. the (me_name e)) (entries m)) \<and>
    mset (entries m) = mset (concat (map (\<lambda>a. entries (mf a)) inputs)) \<and>
    (\<forall>a \<in> set inputs. \<forall>x tm v. decode_tensor (x\<lparr>dx_files := data_files a\<rparr>) tm = Inr v \<longrightarrow>
      decode_tensor (x\<lparr>dx_files := dir\<rparr>) tm = Inr v) \<and>
    (\<forall>p v. dir p = Some v \<longrightarrow> p \<noteq> MANIFEST_NAME \<longrightarrow> p \<noteq> PASSTHROUGH_NAME \<longrightarrow> (\<exists>a \<in> set inputs. data_files a p = Some v)) \<and>
    dir MANIFEST_NAME = Some (mg_dumps E m) \<and>
    dir PASSTHROUGH_NAME = (if ps = [] then None else Some (mg_save_tensors E ps)) \<and> distinct (map fst ps) \<and>
    (\<forall>nm. map_of ps nm = (if \<exists>e \<in> set (entries m). me_name e = Some nm then None else map_of (concat (map ts inputs)) nm))"
proof -
  let ?es = "concat (map (\<lambda>a. entries (mf a)) inputs)" and ?mf = "map mf inputs"
  let ?d = "map (\<lambda>e. (the (me_name e), e)) ?es"
  have load: "mapM (load_manifest E) inputs = Inr ?mf" by (rule mapM_Inr) (use ms in simp)
  have ne: "inputs \<noteq> []" using two by auto
  then have hd: "hd ?mf = mf (hd inputs)" by (simp add: hd_map)
  have check: "mapM (check_compatibility per_tensor (hd ?mf)) (zip (map ar_path (tl inputs)) (tl ?mf)) =
      Inr (map (\<lambda>_. ()) (zip (map ar_path (tl inputs)) (tl ?mf)))"
  proof (rule mapM_Inr)
    fix item assume "item \<in> set (zip (map ar_path (tl inputs)) (tl ?mf))"
    then obtain a where a: "a \<in> set (tl inputs)" "item = (ar_path a, mf a)" by (auto simp: map_tl [symmetric] zip_map_map zip_same)
    then have "a \<in> set inputs" using ne by (auto dest: list.set_sel(2))
    then show "check_compatibility per_tensor (hd ?mf) item = Inr ()" using compatible a hd by simp
  qed
  define dest where "dest = foldl (++) Map.empty (map data_files inputs)"
  have copy: "foldM (copy_artifact_files k) Map.empty inputs = Inr dest"
    unfolding copy_artifacts_ok [OF k walk] using files by (simp add: dest_def)
  have keep: "\<forall>a \<in> set inputs. data_files a \<subseteq>\<^sub>m dest" "\<And>p v. dest p = Some v \<Longrightarrow> \<exists>a \<in> set inputs. data_files a p = Some v"
    using foldl_add_keeps [of "map data_files inputs" Map.empty] files by (auto simp: dest_def)
  have keys: "map (\<lambda>e. the (me_name e)) ?es = concat (map (\<lambda>a. map (\<lambda>e. the (me_name e)) (entries (mf a))) inputs)"
    by (simp add: map_concat comp_def)
  have add: "foldM add_tensor [] (concat (map entries ?mf)) = Inr ?d"
    using add_tensors_ok [of ?es "[]"] names by (simp add: keys comp_def del: map_concat)
  have coll: "foldM (collect_passthrough E ?d) [] inputs = Inr (foldl (add_passthrough ?d) [] (concat (map ts inputs)))"
    by (rule collect_ok [OF pass])
  define ps where "ps = foldl (add_passthrough ?d) [] (concat (map ts inputs))"
  have dn: "distinct (map fst ?d)" using names(2) by (simp add: keys comp_def del: map_concat)
  note sorted = merged_entries_sorted [OF dn]
  let ?t = "merged_entries ?d" and ?b = "mf (hd inputs)"
  define m where "m = ?b\<lparr>mf_tensors := Some ?t, mf_tensor_count := Some (length ?t),
    mf_total_index_bytes := Some (\<Sum>e\<leftarrow>?t. get_or (me_index_bytes e) 0), mf_passthrough_count := Some (length ps),
    mf_partition_count := None, mf_partition_index := None\<rparr>"
  define dir where "dir = (if ps = [] then dest else dest(PASSTHROUGH_NAME \<mapsto> mg_save_tensors E ps))(MANIFEST_NAME \<mapsto> mg_dumps E m)"
  have run: "merge_artifacts E per_tensor k inputs out = Inr (m, dir)"
    using two out unfolding merge_artifacts_def load Let_def bind_err_simps(2) check [unfolded hd] copy add coll ps_def [symmetric] hd
    by (simp add: m_def dir_def del: map_concat)
  have em: "entries m = ?t" by (simp add: m_def entries_def get_or_def)
  have "\<forall>(k, e) \<in> set ?d. k = the (me_name e)" by auto
  then have "\<forall>(k, e) \<in> set (sort_key fst ?d). k = the (me_name e)" by simp
  then have "map (\<lambda>e. the (me_name e)) ?t = map fst (sort_key fst ?d)" by (auto simp: merged_entries_def)
  then have s: "sorted_wrt (<) (map (\<lambda>e. the (me_name e)) (entries m))" using sorted(1) em by simp
  have mm: "mset (entries m) = mset ?es" using sorted(2) by (simp add: em comp_def del: map_concat)
  have special: "data_files a MANIFEST_NAME = None" "data_files a PASSTHROUGH_NAME = None" for a
    by (auto simp: data_files_def data_of_def map_of_eq_None_iff)
  then have dest: "dest MANIFEST_NAME = None" "dest PASSTHROUGH_NAME = None"
    using keep(2) by (metis not_None_eq option.distinct(1))+
  have neq: "MANIFEST_NAME \<noteq> PASSTHROUGH_NAME" by (simp add: MANIFEST_NAME_def PASSTHROUGH_NAME_def)
  have "dest \<subseteq>\<^sub>m dir" using dest neq by (auto simp: dir_def map_le_def dom_def)
  then have le: "data_files a \<subseteq>\<^sub>m dir" if "a \<in> set inputs" for a
    using keep(1) that map_le_trans by blast
  have dec: "decode_tensor (x\<lparr>dx_files := dir\<rparr>) tm = Inr v"
    if "a \<in> set inputs" "decode_tensor (x\<lparr>dx_files := data_files a\<rparr>) tm = Inr v" for a x tm v
    by (rule monotone_readD [OF monotone_decode le [OF that(1)] that(2)])
  have only: "\<exists>a \<in> set inputs. data_files a p = Some v" if "dir p = Some v" "p \<noteq> MANIFEST_NAME" "p \<noteq> PASSTHROUGH_NAME" for p v
    using that keep(2) by (auto simp: dir_def split: if_splits)
  have named: "nm \<in> fst ` set ?d \<longleftrightarrow> (\<exists>e \<in> set (entries m). me_name e = Some nm)" for nm
    using names(1) mset_eq_setD [OF mm] by (force simp: image_iff)
  have pass1: "distinct (map fst ps)" "map_of ps nm =
      (if \<exists>e \<in> set (entries m). me_name e = Some nm then None else map_of (concat (map ts inputs)) nm)" for nm
    using passthrough_first [of "[]" ?d "concat (map ts inputs)"] unfolding ps_def named by simp_all
  have "dir MANIFEST_NAME = Some (mg_dumps E m)" by (simp add: dir_def)
  moreover have "dir PASSTHROUGH_NAME = (if ps = [] then None else Some (mg_save_tensors E ps))"
    using dest neq by (simp add: dir_def)
  ultimately show ?thesis using run s mm dec only pass1 by blast
qed

definition toy_manifest :: "string \<Rightarrow> (string, unit) part_manifest" where
  "toy_manifest nm = \<lparr>mf_get = (\<lambda>f. if f = ''codebook_mode'' then Some ''per-tensor'' else None),
     mf_tensors = Some [\<lparr>me_name = Some nm, me_index_bytes = Some 4, me_rest = ()\<rparr>], mf_tensor_count = Some 1,
     mf_total_index_bytes = Some 4, mf_passthrough_count = Some 1, mf_partition_count = Some 2, mf_partition_index = Some 0\<rparr>"

definition toy_merge :: "(string, unit, nat) merge_env" where
  "toy_merge = \<lparr>mg_loads = (\<lambda>bs. if bs = [1] then Some (toy_manifest ''b'') else if bs = [2] then Some (toy_manifest ''a'') else None),
     mg_dumps = (\<lambda>m. []), mg_load_tensors = (\<lambda>bs. Some [(''n'', 0), (''a'', 1)]), mg_save_tensors = (\<lambda>ts. [9])\<rparr>"

definition toy_part :: "string \<Rightarrow> byte list \<Rightarrow> string \<Rightarrow> artifact" where
  "toy_part path text file = \<lparr>ar_path = path, ar_files = [(MANIFEST_NAME, text), (PASSTHROUGH_NAME, [3]), (''shared'', [7]), (file, [8])]\<rparr>"

definition toy_parts :: "artifact list" where
  "toy_parts = [toy_part ''p0'' [1] ''b.s0.indices'', toy_part ''p1'' [2] ''a.s0.indices'']"

lemma agreeI:
  assumes "\<And>p. p \<in> dom s \<inter> dom t \<Longrightarrow> s p = t p"
  shows "agree s t"
  unfolding agree_def
proof (intro allI impI)
  fix p x y assume st: "s p = Some x" "t p = Some y"
  then have "p \<in> dom s \<inter> dom t" by auto
  then show "x = y" using assms [of p] st by simp
qed

theorem merge_keeps_partitions_witness:
  "\<exists>m dir ps. merge_artifacts toy_merge ''per-tensor'' 1 toy_parts \<lparr>ar_path = ''out'', ar_files = []\<rparr> = Inr (m, dir) \<and>
    sorted_wrt (<) (map (\<lambda>e. the (me_name e)) (entries m)) \<and>
    mset (entries m) = mset (concat (map (\<lambda>a. entries (if ar_path a = ''p0'' then toy_manifest ''b'' else toy_manifest ''a'')) toy_parts)) \<and>
    (\<forall>a \<in> set toy_parts. \<forall>x tm v. decode_tensor (x\<lparr>dx_files := data_files a\<rparr>) tm = Inr v \<longrightarrow>
      decode_tensor (x\<lparr>dx_files := dir\<rparr>) tm = Inr v) \<and>
    (\<forall>p v. dir p = Some v \<longrightarrow> p \<noteq> MANIFEST_NAME \<longrightarrow> p \<noteq> PASSTHROUGH_NAME \<longrightarrow> (\<exists>a \<in> set toy_parts. data_files a p = Some v)) \<and>
    dir MANIFEST_NAME = Some (mg_dumps toy_merge m) \<and>
    dir PASSTHROUGH_NAME = (if ps = [] then None else Some (mg_save_tensors toy_merge ps)) \<and> distinct (map fst ps) \<and>
    (\<forall>nm. map_of ps nm = (if \<exists>e \<in> set (entries m). me_name e = Some nm then None
       else map_of (concat (map (\<lambda>_. [(''n'', 0), (''a'', 1)]) toy_parts)) nm))"
proof (rule merge_keeps_partitions)
  note names = MANIFEST_NAME_def PASSTHROUGH_NAME_def
  show "\<forall>a \<in> set toy_parts. load_manifest toy_merge a = Inr (if ar_path a = ''p0'' then toy_manifest ''b'' else toy_manifest ''a'')"
    by (simp add: toy_parts_def toy_part_def load_manifest_def toy_merge_def names)
  show "\<forall>a \<in> set toy_parts. distinct (map fst (ar_files a))" by (simp add: toy_parts_def toy_part_def names)
  show "\<forall>a \<in> set toy_parts. \<forall>b \<in> set toy_parts. agree (data_files a) (data_files b)"
    by (auto intro!: agreeI simp: toy_parts_def toy_part_def data_files_def data_of_simps names split: if_splits)
  show "\<forall>a \<in> set toy_parts. passthrough_of toy_merge a = Some [(''n'', 0), (''a'', 1)]"
    by (simp add: toy_parts_def toy_part_def passthrough_of_def toy_merge_def names)
qed (simp_all add: toy_parts_def toy_part_def toy_manifest_def check_compatibility_def REQUIRED_FIELDS_def entries_def get_or_def)

end
