(* ===== verification/Reconstruct.thy ===== *)
theory Reconstruct
  imports Manifest "HOL-Library.List_Lexorder" "HOL-Library.Char_ord"
begin

text \<open>
  \<open>orka/artifact/reconstruct.py\<close>: an artifact decoded to nested lists for JSON, or to one safetensors file that is written
  tensor by tensor after a header with the offset of each.

  The manifest is its list of named entries. The passthrough file and the source checkpoint are lists of named tensors,
  absent when the path does not exist. JSON encoding of the safetensors header is a parameter.
\<close>

datatype recon_error =
    ManifestMissing | BadOutputFormat | TruncatedTensor string | DecodeFailed decode_error | ScalarReshape | ZeroStep

section \<open>Nested values\<close>

datatype nested = Num real | Arr "nested list"

fun reshape_flat :: "real list \<Rightarrow> nat list \<Rightarrow> recon_error + nested" where
  "reshape_flat vs [] = (if length vs \<noteq> 1 then Inl ScalarReshape else Inr (Num (hd vs)))"
| "reshape_flat vs [w] = Inr (Arr (map Num (take w vs)))"
| "reshape_flat vs (n # m # sh) =
     (let step = prod_list (m # sh)
      in if step = 0 then Inl ZeroStep
         else
           bind_err (mapM (\<lambda>i. reshape_flat (take step (drop (i * step) vs)) (m # sh)) [0..<n]) (\<lambda>xs. Inr (Arr xs)))"

record decoded_tensor =
  dt_shape :: "nat list"
  dt_flat :: "real list"
  dt_values :: nested

definition decoded_tensor_map ::
  "decode_env \<Rightarrow> (string \<times> tensor_meta) list \<Rightarrow> recon_error + (string \<times> decoded_tensor) list" where
  "decoded_tensor_map x tensors =
     foldM (\<lambda>d (nm, tm).
         bind_err (lift_err DecodeFailed (decode_tensor x tm)) (\<lambda>flat.
         bind_err (reshape_flat flat (tm_shape tm)) (\<lambda>vs.
           Inr (dict_put nm \<lparr>dt_shape = tm_shape tm, dt_flat = flat, dt_values = vs\<rparr> d)))) [] tensors"

text \<open>Tensors that were not packed are added, the artifact's own before those of the source.\<close>

definition add_plain ::
  "(string \<Rightarrow> (string \<times> decoded_tensor) list \<Rightarrow> bool) \<Rightarrow> (string \<times> decoded_tensor) list \<Rightarrow> string \<times> tensor
    \<Rightarrow> recon_error + (string \<times> decoded_tensor) list" where
  "add_plain skip d item =
     (case item of (nm, (shape, flat)) \<Rightarrow>
        if skip nm d then Inr d
        else bind_err (reshape_flat flat shape) (\<lambda>vs.
               Inr (dict_put nm \<lparr>dt_shape = shape, dt_flat = flat, dt_values = vs\<rparr> d)))"

definition complete_tensor_map ::
  "decode_env \<Rightarrow> (string \<times> tensor) list option \<Rightarrow> (string \<times> tensor) list option \<Rightarrow> (string \<times> tensor_meta) list
    \<Rightarrow> recon_error + (string \<times> decoded_tensor) list" where
  "complete_tensor_map x passthrough source tensors =
     (let packed = map fst tensors
      in bind_err (foldM (add_plain (\<lambda>_ _. False)) [] (get_or passthrough [])) (\<lambda>d1.
         bind_err (foldM (add_plain (\<lambda>nm d. nm \<in> set packed \<or> nm \<in> set (map fst d))) d1 (get_or source [])) (\<lambda>d2.
         bind_err (decoded_tensor_map x tensors) (\<lambda>own.
           Inr (foldl (\<lambda>d (nm, t). dict_put nm t d) d2 own)))))"

section \<open>The safetensors file\<close>

datatype origin = Quantized tensor_meta | Passthrough tensor | Fallback tensor

fun origin_shape :: "origin \<Rightarrow> nat list" where
  "origin_shape (Quantized tm) = tm_shape tm"
| "origin_shape (Passthrough t) = fst t"
| "origin_shape (Fallback t) = fst t"

definition registry_of ::
  "(string \<times> tensor) list option \<Rightarrow> (string \<times> tensor) list option \<Rightarrow> (string \<times> tensor_meta) list \<Rightarrow> (string \<times> origin) list" where
  "registry_of passthrough source tensors =
     (let packed = map fst tensors;
          r1 = foldl (\<lambda>r (nm, t). dict_put nm (Passthrough t) r) [] (get_or passthrough []);
          r2 = foldl (\<lambda>r (nm, t). if nm \<in> set packed \<or> nm \<in> set (map fst r) then r else dict_put nm (Fallback t) r)
                 r1 (get_or source [])
      in foldl (\<lambda>r (nm, tm). dict_put nm (Quantized tm) r) r2 tensors)"

record file_header =
  fh_format :: string
  fh_entries :: "(string \<times> nat list \<times> nat \<times> nat) list"

fun offsets :: "nat \<Rightarrow> (string \<times> nat list) list \<Rightarrow> (string \<times> nat list \<times> nat \<times> nat) list" where
  "offsets off [] = []"
| "offsets off ((nm, shape) # items) =
     (let byte_size = prod_list shape * 4 in (nm, shape, off, off + byte_size) # offsets (off + byte_size) items)"

definition file_header_of :: "bool \<Rightarrow> (string \<times> origin) list \<Rightarrow> file_header" where
  "file_header_of cuda reg =
     \<lparr>fh_format = (if cuda then ''pt'' else ''np''),
      fh_entries = offsets 0 (map (\<lambda>nm. (nm, origin_shape (the (map_of reg nm)))) (sort (map fst reg)))\<rparr>"

definition pad8 :: "byte list \<Rightarrow> byte list" where
  "pad8 json = json @ replicate ((8 - length json mod 8) mod 8) 32"

fun fetch_values :: "decode_env \<Rightarrow> bool \<Rightarrow> origin \<Rightarrow> recon_error + real list" where
  "fetch_values x cuda (Quantized tm) =
     lift_err DecodeFailed (if cuda then bind_err (decode_tensor_torch x tm) (\<lambda>t. Inr (snd t)) else decode_tensor x tm)"
| "fetch_values x cuda (Passthrough t) = Inr (snd t)"
| "fetch_values x cuda (Fallback t) = Inr (snd t)"

definition write_safetensors ::
  "(file_header \<Rightarrow> byte list) \<Rightarrow> decode_env \<Rightarrow> bool \<Rightarrow> (string \<times> tensor) list option \<Rightarrow> (string \<times> tensor) list option
    \<Rightarrow> (string \<times> tensor_meta) list \<Rightarrow> recon_error + byte list \<times> nat" where
  "write_safetensors dumps x cuda passthrough source tensors =
     (let reg = registry_of passthrough source tensors; names = sort (map fst reg);
          header = pad8 (dumps (file_header_of cuda reg))
      in bind_err (mapM (\<lambda>nm. fetch_values x cuda (the (map_of reg nm))) names) (\<lambda>arrs.
           Inr (le_bytes 8 (length header) @ header @ concat (map (float_bytes (dx_env x) ''<f4'') arrs), length names)))"

datatype reconstruction = JsonOut "(string \<times> decoded_tensor) list" | FileOut "byte list \<times> nat"

definition reconstruct_artifact ::
  "(file_header \<Rightarrow> byte list) \<Rightarrow> decode_env \<Rightarrow> bool \<Rightarrow> string \<Rightarrow> (string \<times> tensor) list option \<Rightarrow> (string \<times> tensor) list option
    \<Rightarrow> (string \<times> tensor_meta) list option \<Rightarrow> recon_error + reconstruction" where
  "reconstruct_artifact dumps x cuda output_format passthrough source manifest =
     (case manifest of
        None \<Rightarrow> Inl ManifestMissing
      | Some tensors \<Rightarrow>
          if output_format \<noteq> ''json'' \<and> output_format \<noteq> ''safetensors'' then Inl BadOutputFormat
          else if output_format = ''json'' then bind_err (decoded_tensor_map x tensors) (\<lambda>m. Inr (JsonOut m))
          else
            (case find (\<lambda>(nm, tm). tm_packed_values tm \<noteq> prod_list (tm_shape tm)) tensors of
               Some (nm, _) \<Rightarrow> Inl (TruncatedTensor nm)
             | None \<Rightarrow> bind_err (write_safetensors dumps x cuda passthrough source tensors) (\<lambda>f. Inr (FileOut f))))"

section \<open>Nested values flatten back\<close>

fun flatten_nested :: "nested \<Rightarrow> real list" where
  "flatten_nested (Num v) = [v]"
| "flatten_nested (Arr xs) = concat (map flatten_nested xs)"

lemma concat_slices: "concat (map (\<lambda>i. take s (drop (i * s) vs)) [0..<n]) = take (n * s) vs"
proof (induction n)
  case (Suc n)
  then show ?case by (simp add: take_add add.commute [of s])
qed simp

lemma reshape_flat_values:
  assumes "length vs = prod_list shape" and "0 \<notin> set (tl shape)"
  shows "\<exists>x. reshape_flat vs shape = Inr x \<and> flatten_nested x = vs"
  using assms
proof (induction vs shape rule: reshape_flat.induct)
  case (1 vs)
  then show ?case by (cases vs) auto
next
  case (2 vs w)
  have "concat (map (\<lambda>v. [v]) vs) = vs" for vs :: "real list" by (induction vs) simp_all
  then show ?case using 2 by (simp add: comp_def)
next
  case (3 vs n m sh)
  let ?step = "prod_list (m # sh)"
  have step: "?step \<noteq> 0" using 3(3) by (simp add: prod_list_zero_iff)
  have ex: "\<exists>x. reshape_flat (take ?step (drop (i * ?step) vs)) (m # sh) = Inr x \<and>
      flatten_nested x = take ?step (drop (i * ?step) vs)" if "i < n" for i
  proof (rule 3(1) [OF refl])
    have "i * ?step + ?step \<le> n * ?step" using that by (metis Suc_leI mult_Suc mult_le_mono1 add.commute)
    then show "length (take ?step (drop (i * ?step) vs)) = prod_list (m # sh)" using 3(2) by simp
  qed (use step 3(3) that in auto)
  then obtain f where f: "\<And>i. i < n \<Longrightarrow> reshape_flat (take ?step (drop (i * ?step) vs)) (m # sh) = Inr (f i) \<and>
      flatten_nested (f i) = take ?step (drop (i * ?step) vs)" by metis
  have "mapM (\<lambda>i. reshape_flat (take ?step (drop (i * ?step) vs)) (m # sh)) [0..<n] = Inr (map f [0..<n])"
    by (rule mapM_Inr) (use f in simp)
  moreover have "concat (map (\<lambda>i. flatten_nested (f i)) [0..<n]) = vs"
  proof -
    have "concat (map (\<lambda>i. flatten_nested (f i)) [0..<n]) = concat (map (\<lambda>i. take ?step (drop (i * ?step) vs)) [0..<n])"
      using f by (intro arg_cong [where f = concat] map_cong) auto
    then show ?thesis using 3(2) by (simp only: concat_slices) simp
  qed
  ultimately show ?case using step by (simp add: Let_def comp_def)
qed

section \<open>The file is readable\<close>

lemma length_offsets [simp]: "length (offsets off items) = length items"
  by (induction off items rule: offsets.induct) (simp_all add: Let_def)

lemma map_fst_offsets [simp]: "map fst (offsets off items) = map fst items"
  by (induction off items rule: offsets.induct) (simp_all add: Let_def)

lemma offsets_slice:
  assumes "list_all2 (\<lambda>(nm, shape) c. length c = prod_list shape * 4) items cs" and "i < length items"
  shows "\<exists>b. offsets off items ! i = (fst (items ! i), snd (items ! i), b, b + length (cs ! i)) \<and>
    off \<le> b \<and> take (length (cs ! i)) (drop (b - off) (concat cs)) = cs ! i"
  using assms
proof (induction off items arbitrary: cs i rule: offsets.induct)
  case (2 off nm shape items)
  then obtain c cs' where cs: "cs = c # cs'" "length c = prod_list shape * 4"
    "list_all2 (\<lambda>(nm, shape) c. length c = prod_list shape * 4) items cs'"
    by (auto simp: list_all2_Cons1)
  show ?case
  proof (cases i)
    case (Suc j)
    obtain b where b: "offsets (off + prod_list shape * 4) items ! j = (fst (items ! j), snd (items ! j), b, b + length (cs' ! j))"
      "off + prod_list shape * 4 \<le> b" "take (length (cs' ! j)) (drop (b - (off + prod_list shape * 4)) (concat cs')) = cs' ! j"
      using 2(1) [OF refl cs(3)] 2(3) Suc by auto
    have "drop (b - off) (concat cs) = drop (b - (off + prod_list shape * 4)) (concat cs')"
      using b(2) cs(1,2) by simp
    then show ?thesis using b cs Suc by (auto simp: Let_def)
  qed (use cs in \<open>auto simp: Let_def\<close>)
qed simp

lemma distinct_dict_put [simp]: "distinct (map fst d) \<Longrightarrow> distinct (map fst (dict_put k v d))"
  by (auto simp: dict_put_def comp_def split_beta)

lemma foldl_dict_put:
  "map_of (foldl (\<lambda>r (nm, t). dict_put nm (f t) r) d ts) = map_of d ++ map_of (rev (map (\<lambda>(nm, t). (nm, f t)) ts))"
  "distinct (map fst d) \<Longrightarrow> distinct (map fst (foldl (\<lambda>r (nm, t). dict_put nm (f t) r) d ts))"
  by (induction ts arbitrary: d) (auto simp: split_beta)

lemma foldl_dict_keep:
  fixes f :: "'t \<Rightarrow> 'v" and P :: "string \<Rightarrow> bool"
  defines "keep \<equiv> \<lambda>r (nm, t). if P nm \<or> nm \<in> set (map fst r) then r else dict_put nm (f t) r"
  shows "map_of (foldl keep d ts) =
      (\<lambda>nm. case map_of d nm of Some v \<Rightarrow> Some v | None \<Rightarrow> if P nm then None else map_option f (map_of ts nm))"
    and "distinct (map fst d) \<Longrightarrow> distinct (map fst (foldl keep d ts))"
proof (induction ts arbitrary: d)
  case (Cons t ts)
  obtain nm v where t: "t = (nm, v)" by (cases t)
  {
    case 1
    show ?case
    proof (cases "P nm \<or> nm \<in> set (map fst d)")
      case True
      have "map_of d nm \<noteq> None \<or> P nm" using True by (auto simp: map_of_eq_None_iff)
      then show ?thesis using True Cons.IH(1) [of d] by (auto simp: t keep_def fun_eq_iff split: option.splits)
    next
      case False
      then have "map_of d nm = None" by (simp add: map_of_eq_None_iff)
      then show ?thesis using False Cons.IH(1) [of "dict_put nm (f v) d"] by (auto simp: t keep_def fun_eq_iff split: option.splits)
    qed
  next
    case 2
    then show ?case using Cons.IH(2) by (simp add: t keep_def)
  }
qed (auto simp: fun_eq_iff split: option.splits)

lemma offsets_sum:
  "(\<Sum>(_, shape, _, _)\<leftarrow>offsets off items. 4 * prod_list shape) = (\<Sum>(_, shape)\<leftarrow>items. 4 * prod_list shape)"
proof (induction off items rule: offsets.induct)
  case (2 off nm shape items)
  then show ?case by (simp only: offsets.simps Let_def list.map sum_list.Cons prod.case)
qed simp

lemma pad8_length: "length (pad8 json) mod 8 = 0" "length (pad8 json) < length json + 8"
proof -
  have "(r + (8 - r) mod 8) mod 8 = 0" if "r < 8" for r :: nat using that by (cases "r = 0") simp_all
  then have "(n mod 8 + (8 - n mod 8) mod 8) mod 8 = 0" for n :: nat by simp
  then have "(n + (8 - n mod 8) mod 8) mod 8 = 0" for n :: nat by (simp add: mod_add_left_eq)
  then show "length (pad8 json) mod 8 = 0" by (simp add: pad8_def)
qed (simp add: pad8_def)

text \<open>Where a tensor of the file comes from: the packed entry, else the artifact's own file, else the source.\<close>

definition origin_of ::
  "(string \<times> tensor) list option \<Rightarrow> (string \<times> tensor) list option \<Rightarrow> (string \<times> tensor_meta) list \<Rightarrow> string \<Rightarrow> origin option" where
  "origin_of passthrough source tensors nm =
     (case map_of (rev tensors) nm of
        Some tm \<Rightarrow> Some (Quantized tm)
      | None \<Rightarrow>
          (case map_of (rev (get_or passthrough [])) nm of
             Some t \<Rightarrow> Some (Passthrough t)
           | None \<Rightarrow> map_option Fallback (map_of (get_or source []) nm)))"

lemma map_of_rev_map: "map_of (rev (map (\<lambda>(nm, t). (nm, f t)) ts)) nm = map_option f (map_of (rev ts) nm)"
  unfolding rev_map map_of_map comp_def ..

lemma registry_of_lookup:
  "map_of (registry_of passthrough source tensors) = origin_of passthrough source tensors"
  "distinct (map fst (registry_of passthrough source tensors))"
proof -
  have packed: "nm \<in> set (map fst tensors) \<longleftrightarrow> map_of (rev tensors) nm \<noteq> None" for nm
    by (auto simp: map_of_eq_None_iff)
  show "map_of (registry_of passthrough source tensors) = origin_of passthrough source tensors"
    unfolding registry_of_def Let_def foldl_dict_put(1) foldl_dict_keep(1) packed
    by (auto simp: origin_of_def fun_eq_iff map_of_rev_map map_add_def split: option.splits)
  show "distinct (map fst (registry_of passthrough source tensors))"
    unfolding registry_of_def Let_def by (intro foldl_dict_put(2) foldl_dict_keep(2)) simp
qed

text \<open>C37: a reconstruction to safetensors succeeds when every packed tensor decodes to as many values as its shape has (values that 32-bit floats hold),
  and the file reads back: the header starts 8-byte aligned data, lists each tensor of the checkpoint once, in ascending order, with
  contiguous offsets up to the end of the file, and the bytes at a tensor's offsets are the values of the
  packed entry, else of the passthrough tensor, else of the source.\<close>

theorem safetensors_reconstruction_readable:
  fixes dumps :: "file_header \<Rightarrow> byte list" and loads :: "byte list \<Rightarrow> file_header option"
  assumes json: "\<forall>k. loads (dumps (file_header_of cuda (registry_of passthrough source tensors)) @ replicate k 32) =
        Some (file_header_of cuda (registry_of passthrough source tensors))"
      "length (dumps (file_header_of cuda (registry_of passthrough source tensors))) < 256 ^ 8 - 8"
    and plain: "\<forall>(nm, t) \<in> set (get_or passthrough []) \<union> set (get_or source []). length (snd t) = prod_list (fst t) \<and> storable (dx_env x) (snd t)"
    and packed: "\<forall>(nm, tm) \<in> set tensors. \<exists>v. fetch_values x cuda (Quantized tm) = Inr v \<and> length v = prod_list (tm_shape tm) \<and>
      storable (dx_env x) v"
  shows "\<exists>file n h. write_safetensors dumps x cuda passthrough source tensors = Inr (file, length (fh_entries h)) \<and>
    le_val (take 8 file) = n \<and> n mod 8 = 0 \<and> loads (take n (drop 8 file)) = Some h \<and>
    sorted_wrt (<) (map fst (fh_entries h)) \<and>
    set (map fst (fh_entries h)) = set (map fst tensors) \<union> set (map fst (get_or passthrough [])) \<union> set (map fst (get_or source [])) \<and>
    length file = 8 + n + (\<Sum>(_, shape, _, _)\<leftarrow>fh_entries h. 4 * prod_list shape) \<and>
    (\<forall>(nm, shape, b, c) \<in> set (fh_entries h). \<exists>og v. origin_of passthrough source tensors nm = Some og \<and>
      fetch_values x cuda og = Inr v \<and> shape = origin_shape og \<and>
      floats_of_bytes (dx_env x) ''<f4'' (take (c - b) (drop (8 + n + b) file)) = Inr v)"
proof -
  let ?reg = "registry_of passthrough source tensors" and ?names = "sort (map fst (registry_of passthrough source tensors))"
  let ?h = "file_header_of cuda ?reg"
  note look = registry_of_lookup [of passthrough source tensors]
  have good: "\<exists>og v. map_of ?reg nm = Some og \<and> fetch_values x cuda og = Inr v \<and> length v = prod_list (origin_shape og) \<and>
      storable (dx_env x) v"
    if "nm \<in> set ?names" for nm
  proof -
    have "map_of ?reg nm \<noteq> None" using that by (auto simp: map_of_eq_None_iff)
    then obtain og where og: "origin_of passthrough source tensors nm = Some og" unfolding look(1) by blast
    then have "\<exists>v. fetch_values x cuda og = Inr v \<and> length v = prod_list (origin_shape og) \<and> storable (dx_env x) v"
      using plain packed by (fastforce simp: origin_of_def split: option.splits dest: map_of_SomeD)
    then show ?thesis using og unfolding look(1) by blast
  qed
  then obtain val where val: "\<And>nm. nm \<in> set ?names \<Longrightarrow> fetch_values x cuda (the (map_of ?reg nm)) = Inr (val nm) \<and>
      length (val nm) = prod_list (origin_shape (the (map_of ?reg nm))) \<and> storable (dx_env x) (val nm)"
    by (metis option.sel)
  let ?items = "map (\<lambda>nm. (nm, origin_shape (the (map_of ?reg nm)))) ?names" and ?hd = "pad8 (dumps ?h)"
  let ?cs = "map (\<lambda>nm. float_bytes (dx_env x) ''<f4'' (val nm)) ?names"
  let ?file = "le_bytes 8 (length ?hd) @ ?hd @ concat ?cs"
  have entries: "fh_entries ?h = offsets 0 ?items" by (simp add: file_header_of_def)
  have "mapM (\<lambda>nm. fetch_values x cuda (the (map_of ?reg nm))) ?names = Inr (map val ?names)"
    by (rule mapM_Inr) (use val in blast)
  then have run: "write_safetensors dumps x cuda passthrough source tensors = Inr (?file, length (fh_entries ?h))"
    by (simp add: write_safetensors_def Let_def entries comp_def)
  have hd8: "length ?hd mod 8 = 0" "length ?hd < 256 ^ 8"
    using json(2) pad8_length [of "dumps ?h"] by simp_all
  have n: "le_val (take 8 ?file) = length ?hd" using hd8(2) by (simp add: le_val_le_bytes)
  have header: "loads (take (length ?hd) (drop 8 ?file)) = Some ?h" using json(1) by (simp add: pad8_def)
  have lens: "length (float_bytes (dx_env x) ''<f4'' (val nm)) = prod_list (origin_shape (the (map_of ?reg nm))) * 4"
    if "nm \<in> set ?names" for nm
    using val [OF that] by (simp add: float_bytes_def)
  then have fit: "list_all2 (\<lambda>(nm, shape) c. length c = prod_list shape * 4) ?items ?cs"
    unfolding list.rel_map by (intro list.rel_refl_strong) simp
  have sorted: "sorted_wrt (<) (map fst (fh_entries ?h))"
    using look(2) by (simp add: entries comp_def strict_sorted_iff)
  have names: "set (map fst (fh_entries ?h)) = set (map fst tensors) \<union> set (map fst (get_or passthrough [])) \<union> set (map fst (get_or source []))"
  proof -
    have "set (map fst (fh_entries ?h)) = dom (map_of ?reg)" by (simp add: entries comp_def dom_map_of_conv_image_fst)
    also have "\<dots> = dom (origin_of passthrough source tensors)" unfolding look(1) ..
    also have "\<dots> = set (map fst tensors) \<union> set (map fst (get_or passthrough [])) \<union> set (map fst (get_or source []))"
    proof (rule set_eqI)
      fix nm
      have mem: "nm \<in> set (map fst xs) \<longleftrightarrow> map_of xs nm \<noteq> None" for xs :: "(string \<times> 'v) list"
        by (auto simp: map_of_eq_None_iff)
      have "nm \<in> set (map fst xs) \<longleftrightarrow> map_of (rev xs) nm \<noteq> None" for xs :: "(string \<times> 'v) list"
        by (auto simp: map_of_eq_None_iff)
      note rev = this
      show "nm \<in> dom (origin_of passthrough source tensors) \<longleftrightarrow>
          nm \<in> set (map fst tensors) \<union> set (map fst (get_or passthrough [])) \<union> set (map fst (get_or source []))"
        unfolding Un_iff mem [of "get_or source []"] rev [of tensors] rev [of "get_or passthrough []"]
        by (auto simp: origin_of_def split: option.splits)
    qed
    finally show ?thesis .
  qed
  have "length (concat ?cs) = (\<Sum>nm\<leftarrow>?names. 4 * prod_list (origin_shape (the (map_of ?reg nm))))"
    using lens by (auto simp: length_concat comp_def intro!: arg_cong [where f = sum_list])
  also have "\<dots> = (\<Sum>(_, shape)\<leftarrow>?items. 4 * prod_list shape)" by (simp add: comp_def)
  also have "\<dots> = (\<Sum>(_, shape, _, _)\<leftarrow>fh_entries ?h. 4 * prod_list shape)" unfolding entries offsets_sum ..
  finally have data: "length ?file = 8 + length ?hd + (\<Sum>(_, shape, _, _)\<leftarrow>fh_entries ?h. 4 * prod_list shape)" by simp
  have read: "\<exists>og v. origin_of passthrough source tensors nm = Some og \<and> fetch_values x cuda og = Inr v \<and> shape = origin_shape og \<and>
      floats_of_bytes (dx_env x) ''<f4'' (take (c - b) (drop (8 + length ?hd + b) ?file)) = Inr v"
    if mem: "(nm, shape, b, c) \<in> set (fh_entries ?h)" for nm shape b c
  proof -
    obtain i where i: "i < length ?names" "offsets 0 ?items ! i = (nm, shape, b, c)"
      using mem unfolding entries in_set_conv_nth by (auto simp del: map_map)
    have "offsets 0 ?items ! i = (fst (?items ! i), snd (?items ! i), b, b + length (?cs ! i)) \<and>
        take (length (?cs ! i)) (drop (b - 0) (concat ?cs)) = ?cs ! i"
      using offsets_slice [OF fit, of i 0] i by auto
    then have it: "?names ! i = nm" "shape = origin_shape (the (map_of ?reg nm))" "c = b + length (?cs ! i)"
      "take (length (?cs ! i)) (drop b (concat ?cs)) = ?cs ! i"
      using i by auto
    have nm: "nm \<in> set ?names" using i(1) it(1) nth_mem by blast
    have "drop (8 + length ?hd + b) ?file = drop b (concat ?cs)" by simp
    then have "take (c - b) (drop (8 + length ?hd + b) ?file) = float_bytes (dx_env x) ''<f4'' (val nm)"
      using it i(1) by simp
    moreover have "floats_of_bytes (dx_env x) ''<f4'' (float_bytes (dx_env x) ''<f4'' (val nm)) = Inr (val nm)"
      by (rule floats_of_float_bytes(2)) (use val [OF nm] in blast)
    moreover obtain og where "map_of ?reg nm = Some og" using good [OF nm] by blast
    ultimately show ?thesis using val [OF nm] it(2) unfolding look(1) by auto
  qed
  show ?thesis
    by (intro exI [of _ ?file] exI [of _ "length ?hd"] exI [of _ ?h] conjI run n hd8(1) header sorted names data)
      (use read in blast)
qed

lemma example_decode_whole: "decode_tensor (example_env\<lparr>dx_env := whole_env\<rparr>) example_meta = Inr [3, 4]"
proof -
  have "read_indices whole_env ''ix'' 8 1 False ''raw'' s = read_indices grid_env ''ix'' 8 1 False ''raw'' s" for s
    by (cases "s ''ix''") (simp_all add: read_indices_def)
  then have "decode_stages (example_env\<lparr>dx_env := whole_env\<rparr>) example_meta = decode_stages example_env example_meta"
    by (simp add: decode_stages_def resolve_stages_def example_meta_def key_def read_stage_arrays_def get_or_def ceil_div_def)
      (simp add: example_env_def)
  then show ?thesis
    unfolding decode_tensor_def example_stages bind_err_simps
    by (simp add: example_meta_def apply_outliers_def apply_pillars_def unrotate_numpy_def denormalize_numpy_def
        apply_salient_def get_or_def)
qed

definition demo_plain :: "(string \<times> tensor) list option" where
  "demo_plain = Some [(''n'', ([1], [7]))]"

definition demo_loads :: "byte list \<Rightarrow> file_header option" where
  "demo_loads _ = Some (file_header_of False (registry_of demo_plain None [(''w'', example_meta)]))"

definition demo_dumps :: "file_header \<Rightarrow> byte list" where
  "demo_dumps _ = [123, 125]"

theorem safetensors_reconstruction_readable_witness:
  "\<exists>file n h. write_safetensors demo_dumps (example_env\<lparr>dx_env := whole_env\<rparr>) False demo_plain None
      [(''w'', example_meta)] = Inr (file, length (fh_entries h)) \<and>
    le_val (take 8 file) = n \<and> n mod 8 = 0 \<and> demo_loads (take n (drop 8 file)) = Some h \<and>
    sorted_wrt (<) (map fst (fh_entries h)) \<and>
    set (map fst (fh_entries h)) = set (map fst [(''w'', example_meta)]) \<union> set (map fst (get_or demo_plain [])) \<union>
      set (map fst (get_or (None :: (string \<times> tensor) list option) [])) \<and>
    length file = 8 + n + (\<Sum>(_, shape, _, _)\<leftarrow>fh_entries h. 4 * prod_list shape) \<and>
    (\<forall>(nm, shape, b, c) \<in> set (fh_entries h). \<exists>og v. origin_of demo_plain None [(''w'', example_meta)] nm = Some og \<and>
      fetch_values (example_env\<lparr>dx_env := whole_env\<rparr>) False og = Inr v \<and> shape = origin_shape og \<and>
      floats_of_bytes (dx_env (example_env\<lparr>dx_env := whole_env\<rparr>)) ''<f4'' (take (c - b) (drop (8 + n + b) file)) = Inr v)"
proof (rule safetensors_reconstruction_readable)
  have st: "storable whole_env [3, 4]" "storable whole_env [7]"
    by (simp_all add: storable_def whole_env_def)
  show "\<forall>(nm, t) \<in> set (get_or demo_plain []) \<union> set (get_or None []).
      length (snd t) = prod_list (fst t) \<and> storable (dx_env (example_env\<lparr>dx_env := whole_env\<rparr>)) (snd t)"
    using st by (simp add: demo_plain_def get_or_def)
  show "\<forall>(nm, tm) \<in> set [(''w'', example_meta)]. \<exists>v. fetch_values (example_env\<lparr>dx_env := whole_env\<rparr>) False (Quantized tm) = Inr v \<and>
      length v = prod_list (tm_shape tm) \<and> storable (dx_env (example_env\<lparr>dx_env := whole_env\<rparr>)) v"
    using st example_decode_whole by simp (simp add: example_meta_def)
qed (simp_all add: demo_loads_def demo_dumps_def)

end
