(* ===== verification/Transform_Search.thy ===== *)
theory Transform_Search
  imports Metrics Rotate Normalize Numerics
begin

text \<open>
  \<open>orka/quant/transform_search.py\<close>: the scalar-quantization proxy that ranks (normalization, rotation) pairs for a tensor, the storage
  overhead of a pair, and the transformed tensor with its factor to return to original units that the allocator probes.

  Values are real numbers, rounding is to the nearest integer with halves to even. A mean over nothing (nan) is \<open>None\<close>. The
  torch branch of the rotation computes the same values.
\<close>

datatype search_error =
    BadBits | BadBlock | BadNumel | BadFraction | ScaleCount | BadShape | UnsupportedNorm "string option" | UnsupportedRot "string option"
  | RotFail rotate_error | DivideByZero

definition is_value_error :: "search_error \<Rightarrow> bool" where
  "is_value_error e \<longleftrightarrow> e \<noteq> DivideByZero"

definition mean :: "real list \<Rightarrow> real" where
  "mean xs = sum_list xs / real (length xs)"

section \<open>The scalar quantizer\<close>

text \<open>One block: the symmetric range of the width, the scale of its largest magnitude.\<close>

definition level_limit :: "int \<Rightarrow> int" where
  "level_limit bits = max (2 ^ nat (bits - 1) - 1) 1"

definition block_step :: "int \<Rightarrow> real list \<Rightarrow> real" where
  "block_step lv b = (if 0 < abs_max b then abs_max b / of_int lv else 1)"

definition quantize_block :: "int \<Rightarrow> real list \<Rightarrow> real list" where
  "quantize_block lv b = map (\<lambda>v. of_int (clip (- lv) lv (np_round (v / block_step lv b))) * block_step lv b) b"

definition scalar_quant_reconstruct :: "real list \<Rightarrow> int \<Rightarrow> int \<Rightarrow> search_error + real list" where
  "scalar_quant_reconstruct v bits block_size =
     (if v = [] then Inr v
      else if bits < 1 then Inl BadBits
      else if block_size < 1 then Inl BadBlock
      else Inr (take (length v) (concat (map (quantize_block (level_limit bits)) (blocks_of (nat block_size) (padded (nat block_size) v))))))"

definition scalar_quant_proxy :: "real list \<Rightarrow> int \<Rightarrow> int \<Rightarrow> real list option \<Rightarrow> search_error + real" where
  "scalar_quant_proxy v bits block_size original_scales =
     (if v = [] then Inr 0
      else
        bind_err (scalar_quant_reconstruct v bits block_size) (\<lambda>recon.
        (let err = map2 (-) v recon; bs = nat block_size
         in case original_scales of
              None \<Rightarrow> Inr (mean (map (\<lambda>d. d ^ 2) err))
            | Some s \<Rightarrow>
                if length s \<noteq> ceil_div (length v) bs then Inl ScaleCount
                else Inr (mean (take (length v) (concat (map2 (\<lambda>b f. map (\<lambda>d. (d * f) ^ 2) b) (blocks_of bs (padded bs err)) s)))))))"

section \<open>The overhead\<close>

text \<open>\<open>int(round(f * n))\<close>, halves to even.\<close>

definition transform_overhead_bits ::
  "string option \<Rightarrow> string option \<Rightarrow> int \<Rightarrow> int \<Rightarrow> int \<Rightarrow> rat \<Rightarrow> int \<Rightarrow> search_error + int" where
  "transform_overhead_bits normalization rotation numel block_size scale_bits salient_frac salient_bits_each =
     (if numel < 0 then Inl BadNumel
      else if block_size < 1 then Inl BadBlock
      else if \<not> (0 \<le> salient_frac \<and> salient_frac \<le> 1) then Inl BadFraction
      else
        (let n_blocks = (numel + block_size - 1) div block_size
         in Inr (if normalization \<in> {Some ''block-max'', Some ''channel-block-max'', Some ''awq-block-max''} then n_blocks * scale_bits
                 else if normalization = Some ''slrq-block''
                 then n_blocks * scale_bits + np_round (salient_frac * of_int numel) * salient_bits_each
                 else 0)))"

section \<open>The transforms\<close>

definition SCALING_NORMS :: "string list" where
  "SCALING_NORMS = [''block-max'', ''channel-block-max'', ''awq-block-max'', ''slrq-block'']"

definition DEFAULT_TRANSFORM_GRID :: "(string \<times> string) list" where
  "DEFAULT_TRANSFORM_GRID = [(''none'', ''none''), (''block-max'', ''none''), (''none'', ''hadamard''), (''block-max'', ''hadamard'')]"

text \<open>The weight as a matrix: its rows, its columns, its values.\<close>

fun as_matrix :: "tensor \<Rightarrow> search_error + nat \<times> nat \<times> real list" where
  "as_matrix ([], flat) = Inl BadShape"
| "as_matrix ([n], flat) = Inr (1, n, flat)"
| "as_matrix ([r, c], flat) = Inr (r, c, flat)"
| "as_matrix (r # ds, flat) = (if r = 0 then Inl BadShape else Inr (r, prod_list ds, flat))"

definition to_rows :: "nat \<Rightarrow> nat \<Rightarrow> real list \<Rightarrow> real list list" where
  "to_rows r c xs = (if c = 0 then replicate r [] else blocks_of c xs)"

definition scale_flat :: "string option \<Rightarrow> nat \<Rightarrow> real list \<Rightarrow> search_error + real list \<times> real list option" where
  "scale_flat normalization norm_block flat =
     (if normalization \<in> Some ` set SCALING_NORMS then
        (if norm_block = 0 then Inl DivideByZero
         else
           (let blk = blocks_of norm_block (padded norm_block flat);
                scales = map (\<lambda>b. if 0 < abs_max b then abs_max b else 1) blk
            in Inr (take (length flat) (divide_blocks blk scales), Some scales)))
      else if normalization \<in> {Some ''none'', Some ''awq'', None} then Inr (flat, None)
      else Inl (UnsupportedNorm normalization))"

definition rotate_rows :: "string option \<Rightarrow> nat \<Rightarrow> real list list \<Rightarrow> search_error + real list list" where
  "rotate_rows rotation cols rows =
     (if rotation = Some ''hadamard'' then
        bind_err (lift_err RotFail (hadamard_block_size cols)) (\<lambda>hb.
          if hb = 0 then Inl DivideByZero else lift_err RotFail (mapM (block_fwht hb) rows))
      else if rotation \<in> {Some ''none'', None} then Inr rows
      else Inl (UnsupportedRot rotation))"

definition denorm_factor :: "real list option \<Rightarrow> real option" where
  "denorm_factor scales = (case scales of None \<Rightarrow> Some 1 | Some s \<Rightarrow> if s = [] then None else Some (mean (map (\<lambda>x. x ^ 2) s)))"

definition apply_transform ::
  "tensor \<Rightarrow> string option \<Rightarrow> string option \<Rightarrow> nat \<Rightarrow> search_error + real list list \<times> real option" where
  "apply_transform weight normalization rotation norm_block =
     bind_err (as_matrix weight) (\<lambda>(rows, cols, flat).
     bind_err (scale_flat normalization norm_block flat) (\<lambda>(vn, scales).
     bind_err (rotate_rows rotation cols (to_rows rows cols vn)) (\<lambda>wr. Inr (wr, denorm_factor scales))))"

definition scale_blocks :: "nat \<Rightarrow> real list \<Rightarrow> real list option \<Rightarrow> real list" where
  "scale_blocks norm_block xs scales =
     (case scales of
        None \<Rightarrow> xs
      | Some s \<Rightarrow> take (length xs) (concat (map2 (\<lambda>b f. map (\<lambda>v. v * f) b) (blocks_of norm_block (padded norm_block xs)) s)))"

definition transform_proxy_distortion ::
  "tensor \<Rightarrow> string option \<Rightarrow> string option \<Rightarrow> int \<Rightarrow> nat \<Rightarrow> search_error + real" where
  "transform_proxy_distortion weight normalization rotation bits norm_block =
     bind_err (as_matrix weight) (\<lambda>(rows, cols, flat).
       if flat = [] then Inr 0
       else
         bind_err (scale_flat normalization norm_block flat) (\<lambda>(vn, scales).
         bind_err (rotate_rows rotation cols (to_rows rows cols vn)) (\<lambda>wr.
         bind_err (scalar_quant_reconstruct (concat wr) bits (int (length flat))) (\<lambda>recon.
         bind_err (rotate_rows rotation cols (to_rows rows cols (map2 (-) (concat wr) recon))) (\<lambda>err.
           Inr (mean (map (\<lambda>d. d ^ 2) (scale_blocks norm_block (concat err) scales))))))))"

text \<open>A pair that raises a \<open>ValueError\<close> is dropped, any other exception ends the ranking.\<close>

definition rank_step ::
  "tensor \<Rightarrow> int \<Rightarrow> nat \<Rightarrow> ((string \<times> string) \<times> real) list \<Rightarrow> string \<times> string \<Rightarrow> search_error + ((string \<times> string) \<times> real) list" where
  "rank_step weight bits norm_block scored cfg =
     (case transform_proxy_distortion weight (Some (fst cfg)) (Some (snd cfg)) bits norm_block of
        Inr mse \<Rightarrow> Inr (scored @ [(cfg, mse)])
      | Inl e \<Rightarrow> if is_value_error e then Inr scored else Inl e)"

definition rank_transforms ::
  "tensor \<Rightarrow> (string \<times> string) list \<Rightarrow> int \<Rightarrow> nat \<Rightarrow> search_error + ((string \<times> string) \<times> real) list" where
  "rank_transforms weight grid bits norm_block =
     bind_err (foldM (rank_step weight bits norm_block) [] grid) (\<lambda>scored. Inr (sort_key snd scored))"


section \<open>The transform is linear\<close>

lemma rounds_diff: "rounds k (\<lambda>i. f i - g i) = (\<lambda>i. rounds k f i - rounds k g i)"
proof (induction k)
  case (Suc k)
  have "rounds (Suc k) (\<lambda>i. f i - g i) = round_fun k (\<lambda>i. rounds k f i - rounds k g i)" by (simp only: rounds.simps Suc.IH)
  also have "\<dots> = (\<lambda>i. rounds (Suc k) f i - rounds (Suc k) g i)" by (rule ext) (simp add: round_fun_def algebra_simps)
  finally show ?case .
qed simp

lemma fwht_diff:
  assumes "length x = 2 ^ k" and "length y = 2 ^ k" and "fwht x = Inr x'" and "fwht y = Inr y'"
  shows "fwht (map2 (-) x y) = Inr (map2 (-) x' y')"
proof -
  have eq: "rounds k ((!) (map2 (-) x y)) i = rounds k ((!) x) i - rounds k ((!) y) i" if "i < 2 ^ k" for i
    using rounds_cong [of k "(!) (map2 (-) x y)" "\<lambda>i. x ! i - y ! i" k i] that assms(1,2) by (simp add: rounds_diff)
  have "x' = map (\<lambda>i. rounds k ((!) x) i / sqrt (2 ^ k)) [0..<2 ^ k]" "y' = map (\<lambda>i. rounds k ((!) y) i / sqrt (2 ^ k)) [0..<2 ^ k]"
    using assms(3,4) by (simp_all add: fwht_value [OF assms(1)] fwht_value [OF assms(2)])
  moreover have "length (map2 (-) x y) = 2 ^ k" using assms(1,2) by simp
  ultimately show ?thesis
    unfolding fwht_value [OF \<open>length (map2 (-) x y) = 2 ^ k\<close>]
    by (auto simp: eq diff_divide_distrib intro!: nth_equalityI)
qed

text \<open>On rows of the right width the block transform is a total, linear, self-inverse map that keeps the energy.\<close>

definition block_map :: "nat \<Rightarrow> real list \<Rightarrow> real list" where
  "block_map bs x = (case block_fwht bs x of Inr y \<Rightarrow> y | Inl _ \<Rightarrow> x)"

lemma block_map_ok:
  assumes "bs = 2 ^ k" and "bs dvd length x"
  shows "block_fwht bs x = Inr (block_map bs x)" and "block_map bs (block_map bs x) = x"
    and "length (block_map bs x) = length x" and "power_of (block_map bs x) = power_of x"
  using block_fwht_involution [OF assms] by (auto simp: block_map_def)

lemma block_map_concat:
  assumes "bs = 2 ^ k" and "bs dvd length x"
  shows "block_map bs x = concat (map (\<lambda>b. projr (fwht b)) (blocks_of bs x))"
    and "\<And>b. b \<in> set (blocks_of bs x) \<Longrightarrow> length b = 2 ^ k \<and> fwht b = Inr (projr (fwht b)) \<and> length (projr (fwht b)) = 2 ^ k"
proof -
  have bs: "0 < bs" using assms(1) by simp
  show blocks: "length b = 2 ^ k \<and> fwht b = Inr (projr (fwht b)) \<and> length (projr (fwht b)) = 2 ^ k" if "b \<in> set (blocks_of bs x)" for b
  proof -
    have "length b = 2 ^ k" using blocks_of_dvd [OF bs assms(2)] that assms(1) by simp
    then show ?thesis using fwht_involution [of b k] by auto
  qed
  have "mapM fwht (blocks_of bs x) = Inr (map (\<lambda>b. projr (fwht b)) (blocks_of bs x))"
    using blocks by (intro mapM_Inr) blast
  then show "block_map bs x = concat (map (\<lambda>b. projr (fwht b)) (blocks_of bs x))"
    using assms bs by (simp add: block_map_def block_fwht_def Let_def dvd_eq_mod_eq_0)
qed

lemma block_map_diff:
  assumes "bs = 2 ^ k" and "bs dvd length x" and "length y = length x"
  shows "block_map bs (map2 (-) x y) = map2 (-) (block_map bs x) (block_map bs y)"
proof -
  let ?f = "\<lambda>b. projr (fwht b)" and ?X = "blocks_of bs x" and ?Y = "blocks_of bs y"
  have bs: "0 < bs" using assms(1) by simp
  have dvd: "bs dvd length y" "bs dvd length (map2 (-) x y)" using assms(2,3) by simp_all
  note x = block_map_concat [OF assms(1,2)] and y = block_map_concat [OF assms(1) dvd(1)] and d = block_map_concat [OF assms(1) dvd(2)]
  have same: "length ?X = length ?Y" using blocks_of_dvd [OF bs assms(2)] blocks_of_dvd [OF bs dvd(1)] assms(3) by simp
  have rows: "rows_shape (2 ^ k) (length ?X) (map ?f ?X)" "rows_shape (2 ^ k) (length ?X) (map ?f ?Y)"
    using x(2) y(2) same by (auto simp: rows_shape_def)
  have "map ?f (map2 (map2 (-)) ?X ?Y) = map2 (map2 (-)) (map ?f ?X) (map ?f ?Y)"
  proof (rule nth_equalityI)
    fix i assume "i < length (map ?f (map2 (map2 (-)) ?X ?Y))"
    then have i: "i < length ?X" "i < length ?Y" using same by simp_all
    then have "fwht (map2 (-) (?X ! i) (?Y ! i)) = Inr (map2 (-) (?f (?X ! i)) (?f (?Y ! i)))"
      using x(2) [of "?X ! i"] y(2) [of "?Y ! i"] by (intro fwht_diff [of _ k]) simp_all
    then show "map ?f (map2 (map2 (-)) ?X ?Y) ! i = map2 (map2 (-)) (map ?f ?X) (map ?f ?Y) ! i" using i by simp
  qed (simp add: same)
  then show ?thesis
    using blocks_of_map2 [OF bs assms(3) [symmetric], of "(-)"] concat_row_op(1) [OF rows, of "(-)"] x(1) y(1) d(1) by simp
qed

definition rotation_of :: "string option \<Rightarrow> nat \<Rightarrow> real list \<Rightarrow> real list" where
  "rotation_of rot cols = (if rot = Some ''hadamard'' then block_map (projr (hadamard_block_size cols)) else id)"

text \<open>A feasible rotation of a width: what it does to every row of that width.\<close>

lemma rotation_laws:
  assumes "rotate_rows rot cols rows0 = Inr out0" and "0 < cols"
  shows "\<And>rows. \<forall>r \<in> set rows. length r = cols \<Longrightarrow> rotate_rows rot cols rows = Inr (map (rotation_of rot cols) rows)"
    and "\<And>x. length x = cols \<Longrightarrow> length (rotation_of rot cols x) = cols \<and> rotation_of rot cols (rotation_of rot cols x) = x \<and>
      power_of (rotation_of rot cols x) = power_of x"
    and "\<And>x y. length x = cols \<Longrightarrow> length y = cols \<Longrightarrow>
      rotation_of rot cols (map2 (-) x y) = map2 (-) (rotation_of rot cols x) (rotation_of rot cols y)"
proof -
  have "(\<forall>rows. (\<forall>r \<in> set rows. length r = cols) \<longrightarrow> rotate_rows rot cols rows = Inr (map (rotation_of rot cols) rows)) \<and>
    (\<forall>x. length x = cols \<longrightarrow> length (rotation_of rot cols x) = cols \<and> rotation_of rot cols (rotation_of rot cols x) = x \<and>
      power_of (rotation_of rot cols x) = power_of x) \<and>
    (\<forall>x y. length x = cols \<longrightarrow> length y = cols \<longrightarrow>
      rotation_of rot cols (map2 (-) x y) = map2 (-) (rotation_of rot cols x) (rotation_of rot cols y))"
  proof (cases "rot = Some ''hadamard''")
    case True
    then obtain hb where hb: "hadamard_block_size cols = Inr hb"
      using assms(1) by (cases "hadamard_block_size cols") (auto simp: rotate_rows_def)
    then obtain k where k: "hb = 2 ^ k" "hb dvd cols" "0 < hb" using hadamard_block_ok [OF hb assms(2)] by blast
    have R: "rotation_of rot cols = block_map hb" by (simp add: rotation_of_def True hb)
    have "mapM (block_fwht hb) rows = Inr (map (block_map hb) rows)" if "\<forall>r \<in> set rows. length r = cols" for rows
      using that block_map_ok(1) [OF k(1)] k(2) by (intro mapM_Inr) simp
    then show ?thesis
      using block_map_ok [OF k(1)] block_map_diff [OF k(1)] k(2,3) by (simp add: R) (simp add: rotate_rows_def True hb)
  next
    case False
    then show ?thesis using assms(1) by (auto simp: rotation_of_def rotate_rows_def split: if_splits)
  qed
  then show "\<And>rows. \<forall>r \<in> set rows. length r = cols \<Longrightarrow> rotate_rows rot cols rows = Inr (map (rotation_of rot cols) rows)"
    and "\<And>x. length x = cols \<Longrightarrow> length (rotation_of rot cols x) = cols \<and> rotation_of rot cols (rotation_of rot cols x) = x \<and>
      power_of (rotation_of rot cols x) = power_of x"
    and "\<And>x y. length x = cols \<Longrightarrow> length y = cols \<Longrightarrow>
      rotation_of rot cols (map2 (-) x y) = map2 (-) (rotation_of rot cols x) (rotation_of rot cols y)"
    by blast+
qed

section \<open>Scales per block\<close>

lemma length_scale_blocks [simp]:
  "0 < nb \<Longrightarrow> length s = length (blocks_of nb (padded nb xs)) \<Longrightarrow> length (scale_blocks nb xs (Some s)) = length xs"
  using length_padded_flat [of nb xs] by (simp add: scale_blocks_def length_concat_map2)

lemma padded_diff: "length xs = length ys \<Longrightarrow> padded nb (map2 (-) xs ys) = map2 (-) (padded nb xs) (padded nb ys)"
  by (simp add: padded_def zip_append zip_replicate)

lemma scaled_blocks_diff:
  fixes Bs Cs :: "real list list"
  assumes "rows_shape g m Bs" and "rows_shape g m Cs" and "length s = m"
  shows "concat (map2 (\<lambda>b f. map (\<lambda>v. v * f) b) (map2 (map2 (-)) Bs Cs) s) =
    map2 (-) (concat (map2 (\<lambda>b f. map (\<lambda>v. v * f) b) Bs s)) (concat (map2 (\<lambda>b f. map (\<lambda>v. v * f) b) Cs s))"
proof -
  let ?k = "\<lambda>Bs. map2 (\<lambda>b f. map (\<lambda>v. v * f) b) Bs s"
  have len: "length Bs = m" "length Cs = m" using assms by (simp_all add: rows_shape_def)
  have rows: "rows_shape g m (?k Bs)" "rows_shape g m (?k Cs)"
    using assms by (auto simp: rows_shape_def dest!: set_zip_leftD)
  have "?k (map2 (map2 (-)) Bs Cs) = map2 (map2 (-)) (?k Bs) (?k Cs)"
    using len assms(3) by (intro nth_equalityI) (auto simp: left_diff_distrib intro!: nth_equalityI)
  then show ?thesis using concat_row_op(1) [OF rows, of "(-)"] by simp
qed

lemma scale_blocks_diff:
  assumes "0 < nb" and "length xs = length ys" and "length s = length (blocks_of nb (padded nb xs))"
  shows "scale_blocks nb (map2 (-) xs ys) (Some s) = map2 (-) (scale_blocks nb xs (Some s)) (scale_blocks nb ys (Some s))"
proof -
  let ?X = "blocks_of nb (padded nb xs)" and ?Y = "blocks_of nb (padded nb ys)"
  have pad: "length (padded nb xs) = length (padded nb ys)" using assms(2) by (simp add: padded_def)
  have dvd: "nb dvd length (padded nb xs)" "nb dvd length (padded nb ys)" using length_padded_flat [OF assms(1)] by blast+
  have rows: "rows_shape nb (length ?X) ?X" "rows_shape nb (length ?X) ?Y"
    using blocks_of_dvd [OF assms(1) dvd(1)] blocks_of_dvd [OF assms(1) dvd(2)] pad by (simp_all add: rows_shape_def)
  show ?thesis
    using scaled_blocks_diff [OF rows assms(3)] assms(2)
    by (simp add: scale_blocks_def padded_diff blocks_of_map2 [OF assms(1) pad] take_map take_zip)
qed


lemma scale_flat_ok:
  assumes "scale_flat normalization nb flat = Inr (vn, scales)"
  shows "length vn = length flat" and "scale_blocks nb vn scales = flat"
    and "\<And>s. scales = Some s \<Longrightarrow> 0 < nb \<and> (\<forall>xs. length xs = length flat \<longrightarrow> length s = length (blocks_of nb (padded nb xs)) \<and>
      block_max_scales_numpy xs s nb = Inr (scale_blocks nb xs (Some s)))"
proof -
  have "length vn = length flat \<and> scale_blocks nb vn scales = flat \<and>
    (\<forall>s. scales = Some s \<longrightarrow> 0 < nb \<and> (\<forall>xs. length xs = length flat \<longrightarrow> length s = length (blocks_of nb (padded nb xs)) \<and>
      block_max_scales_numpy xs s nb = Inr (scale_blocks nb xs (Some s))))"
  proof (cases "normalization \<in> Some ` set SCALING_NORMS")
    case True
    let ?B = "blocks_of nb (padded nb flat)" and ?s = "map (\<lambda>b. if 0 < abs_max b then abs_max b else 1) (blocks_of nb (padded nb flat))"
    have nb: "0 < nb" and vn: "vn = take (length flat) (divide_blocks ?B ?s)" and sc: "scales = Some ?s"
      using assms True by (auto simp: scale_flat_def Let_def split: if_splits)
    have c: "cuts nb (length flat) ?B" using nb by (rule cuts_padded)
    have "length (divide_blocks ?B ?s) = length (concat ?B)"
      unfolding divide_blocks_def by (rule length_concat_map2) simp_all
    then have len: "length vn = length flat" using vn nb length_padded_flat [OF nb, of flat] by simp
    have count: "length ?s = length (blocks_of nb (padded nb xs))" if "length xs = length flat" for xs
      using cuts_count [OF nb cuts_padded [OF nb, of xs]] cuts_count [OF nb c] that by simp
    have scaled: "block_max_scales_numpy xs ?s nb = Inr (scale_blocks nb xs (Some ?s))" if "length xs = length flat" for xs
      using count [OF that] nb by (simp add: block_max_scales_numpy_def scale_blocks_def)
    have "apply_block_scales vn ?s nb ''numpy'' = Inr (take (length flat) (concat ?B))"
      unfolding vn by (rule scale_back [OF nb c]) auto
    moreover have "take (length flat) (concat ?B) = flat" using nb by (simp add: padded_def)
    ultimately have "block_max_scales_numpy vn ?s nb = Inr flat" by (simp add: apply_block_scales_def)
    then have "scale_blocks nb vn (Some ?s) = flat" using scaled [OF len] by (metis sum.inject(2))
    moreover have "\<forall>xs. length xs = length flat \<longrightarrow> length ?s = length (blocks_of nb (padded nb xs)) \<and>
        block_max_scales_numpy xs ?s nb = Inr (scale_blocks nb xs (Some ?s))"
      using count scaled by blast
    ultimately show ?thesis unfolding sc using len nb by blast
  next
    case False
    then show ?thesis using assms by (auto simp: scale_flat_def scale_blocks_def split: if_splits)
  qed
  then show "length vn = length flat" and "scale_blocks nb vn scales = flat"
    and "\<And>s. scales = Some s \<Longrightarrow> 0 < nb \<and> (\<forall>xs. length xs = length flat \<longrightarrow> length s = length (blocks_of nb (padded nb xs)) \<and>
      block_max_scales_numpy xs s nb = Inr (scale_blocks nb xs (Some s)))"
    by blast+
qed

section \<open>The proxy and the decoder\<close>

text \<open>
  What packing a tensor with the scalar quantizer would return: scaled, rotated, quantized, the rotation undone, and multiplied by
  the stored scales with the decoder's routine.
\<close>

definition proxy_decode :: "tensor \<Rightarrow> string option \<Rightarrow> string option \<Rightarrow> int \<Rightarrow> nat \<Rightarrow> search_error + real list" where
  "proxy_decode weight normalization rotation bits norm_block =
     bind_err (as_matrix weight) (\<lambda>(rows, cols, flat).
     bind_err (scale_flat normalization norm_block flat) (\<lambda>(vn, scales).
     bind_err (rotate_rows rotation cols (to_rows rows cols vn)) (\<lambda>wr.
     bind_err (scalar_quant_reconstruct (concat wr) bits (int (length flat))) (\<lambda>recon.
     bind_err (rotate_rows rotation cols (to_rows rows cols recon)) (\<lambda>undone.
       case scales of
         None \<Rightarrow> Inr (concat undone)
       | Some s \<Rightarrow> (case block_max_scales_numpy (concat undone) s norm_block of Inr d \<Rightarrow> Inr d | Inl _ \<Rightarrow> Inl ScaleCount))))))"

lemma as_matrix_ok:
  assumes "as_matrix (shape, flat) = Inr (r, c, xs)" and "prod_list shape = length flat"
  shows "xs = flat" and "r * c = length flat"
  using assms by (cases "(shape, flat)" rule: as_matrix.cases; auto split: if_splits)+

lemma to_rows_shape:
  assumes "r * c = length xs" and "0 < c"
  shows "rows_shape c r (to_rows r c xs)" and "concat (to_rows r c xs) = xs"
  using blocks_of_dvd [OF assms(2), of xs] assms by (auto simp: to_rows_def rows_shape_def) (metis assms(1) dvd_triv_right nonzero_mult_div_cancel_right not_less_zero)+

lemma to_rows_diff:
  "length xs = length ys \<Longrightarrow> 0 < c \<Longrightarrow> to_rows r c (map2 (-) xs ys) = map2 (map2 (-)) (to_rows r c xs) (to_rows r c ys)"
  by (simp add: to_rows_def blocks_of_map2)

lemma length_quantize_block [simp]: "length (quantize_block lv b) = length b"
  by (simp add: quantize_block_def)

lemma length_scalar_quant:
  assumes "scalar_quant_reconstruct v bits bs = Inr q"
  shows "length q = length v"
proof (cases "v = []")
  case False
  then have bs: "0 < nat bs" and q: "q = take (length v) (concat (map (quantize_block (level_limit bits)) (blocks_of (nat bs) (padded (nat bs) v))))"
    using assms by (auto simp: scalar_quant_reconstruct_def split: if_splits)
  have "length (concat (map (quantize_block (level_limit bits)) Bs)) = length (concat Bs)" for Bs by (induction Bs) simp_all
  then show ?thesis using q bs length_padded_flat [OF bs, of v] by simp
qed (use assms in \<open>simp add: scalar_quant_reconstruct_def\<close>)

text \<open>The proxy is the mean squared difference between the weight and what the decoder would return.\<close>

lemma proxy_is_decode_error:
  assumes "prod_list shape = length flat" and "flat \<noteq> []"
  shows "transform_proxy_distortion (shape, flat) normalization rotation bits nb =
    bind_err (proxy_decode (shape, flat) normalization rotation bits nb) (\<lambda>dec. Inr (mean (map (\<lambda>d. d ^ 2) (map2 (-) flat dec))))"
    and "proxy_decode (shape, flat) normalization rotation bits nb = Inr dec \<Longrightarrow> length dec = length flat"
proof -
  let ?D = "proxy_decode (shape, flat) normalization rotation bits nb"
  have "transform_proxy_distortion (shape, flat) normalization rotation bits nb =
      bind_err ?D (\<lambda>dec. Inr (mean (map (\<lambda>d. d ^ 2) (map2 (-) flat dec)))) \<and> (\<forall>dec. ?D = Inr dec \<longrightarrow> length dec = length flat)"
  proof (cases "as_matrix (shape, flat)")
    case (Inr rcf)
    then obtain r c where m: "as_matrix (shape, flat) = Inr (r, c, flat)" "r * c = length flat"
      using as_matrix_ok [OF _ assms(1)] by (metis prod_cases3)
    have c: "0 < c" using m(2) assms(2) by (cases c) auto
    show ?thesis
    proof (cases "scale_flat normalization nb flat")
      case (Inr vs)
      then obtain vn sc where vs: "scale_flat normalization nb flat = Inr (vn, sc)" by (cases vs) auto
      note scale = scale_flat_ok [OF vs]
      show ?thesis
      proof (cases "rotate_rows rotation c (to_rows r c vn)")
        case wr: (Inr wr)
        let ?R = "rotation_of rotation c"
        note rot = rotation_laws [OF wr c]
        have vrows: "rows_shape c r (to_rows r c vn)" "concat (to_rows r c vn) = vn" using to_rows_shape [of r c vn] m(2) scale(1) c by simp_all
        have wr_eq: "wr = map ?R (to_rows r c vn)" using wr rot(1) [of "to_rows r c vn"] vrows(1) by (simp add: rows_shape_def)
        have wrows: "rows_shape c r wr" using rot(2) vrows(1) by (auto simp: wr_eq rows_shape_def)
        have lenw: "length (concat wr) = length flat" using rows_shape_concat [OF wrows] m(2) by simp
        show ?thesis
        proof (cases "scalar_quant_reconstruct (concat wr) bits (int (length flat))")
          case q: (Inr q)
          have lenq: "length q = length flat" using length_scalar_quant [OF q] lenw by simp
          have qrows: "rows_shape c r (to_rows r c q)" "concat (to_rows r c q) = q" using to_rows_shape [of r c q] m(2) lenq c by simp_all
          let ?undone = "map ?R (to_rows r c q)"
          have brows: "rows_shape c r ?undone" using rot(2) qrows(1) by (auto simp: rows_shape_def)
          have lenb: "length (concat ?undone) = length flat" using rows_shape_concat [OF brows] m(2) by simp
          have undone: "rotate_rows rotation c (to_rows r c q) = Inr ?undone" using rot(1) qrows(1) by (simp add: rows_shape_def)
          have w2: "to_rows r c (concat wr) = wr" using wrows c by (simp add: to_rows_def rows_shape_def blocks_of_concat)
          have diff: "to_rows r c (map2 (-) (concat wr) q) = map2 (map2 (-)) wr (to_rows r c q)"
            using to_rows_diff [of "concat wr" q c r] lenw lenq c w2 by simp
          have "map ?R (map2 (map2 (-)) wr (to_rows r c q)) = map2 (map2 (-)) (to_rows r c vn) ?undone"
          proof (rule nth_equalityI)
            fix i assume "i < length (map ?R (map2 (map2 (-)) wr (to_rows r c q)))"
            then have i: "i < r" using wrows qrows(1) by (simp add: rows_shape_def)
            then have "length (wr ! i) = c" "length (to_rows r c q ! i) = c" "length (to_rows r c vn ! i) = c" "i < length wr"
              using wrows qrows(1) vrows(1) by (simp_all add: rows_shape_def)
            then show "map ?R (map2 (map2 (-)) wr (to_rows r c q)) ! i = map2 (map2 (-)) (to_rows r c vn) ?undone ! i"
              using rot(2,3) i wrows qrows(1) vrows(1) by (simp add: rows_shape_def) (simp add: wr_eq)
          qed (use wrows qrows(1) vrows(1) in \<open>simp add: rows_shape_def\<close>)
          moreover have "\<forall>row \<in> set (map2 (map2 (-)) wr (to_rows r c q)). length row = c"
            using concat_row_op(2) [OF wrows qrows(1), of "(-)"] by (simp add: rows_shape_def)
          ultimately have err: "rotate_rows rotation c (to_rows r c (map2 (-) (concat wr) q)) = Inr (map2 (map2 (-)) (to_rows r c vn) ?undone)"
            unfolding diff using rot(1) by simp
          have conc: "concat (map2 (map2 (-)) (to_rows r c vn) ?undone) = map2 (-) vn (concat ?undone)"
            using concat_row_op(1) [OF vrows(1) brows, of "(-)"] vrows(2) by simp
          have final: "scale_blocks nb (map2 (-) vn (concat ?undone)) sc = map2 (-) flat (scale_blocks nb (concat ?undone) sc) \<and>
              length (scale_blocks nb (concat ?undone) sc) = length flat \<and>
              (case sc of None \<Rightarrow> Inr (concat ?undone)
               | Some s \<Rightarrow> (case block_max_scales_numpy (concat ?undone) s nb of Inr d \<Rightarrow> Inr d | Inl _ \<Rightarrow> Inl ScaleCount)) =
                Inr (scale_blocks nb (concat ?undone) sc)"
          proof (cases sc)
            case None
            then show ?thesis using scale(2) lenb by (simp add: scale_blocks_def)
          next
            case (Some s)
            note nb = scale(3) [OF Some, THEN conjunct1] and per = scale(3) [OF Some, THEN conjunct2, rule_format]
            note vn = per [OF scale(1), THEN conjunct1] and undo = per [OF lenb]
            have "scale_blocks nb (map2 (-) vn (concat ?undone)) (Some s) = map2 (-) flat (scale_blocks nb (concat ?undone) (Some s))"
              using scale_blocks_diff [OF nb _ vn, of "concat ?undone"] scale(1,2) lenb Some by metis
            moreover have "length (scale_blocks nb (concat ?undone) (Some s)) = length flat"
              using length_scale_blocks [OF nb undo [THEN conjunct1]] lenb by (rule trans)
            ultimately show ?thesis using undo [THEN conjunct2] by (simp only: Some option.case sum.case conj_ac simp_thms)
          qed
          show ?thesis
            unfolding transform_proxy_distortion_def proxy_decode_def m(1) bind_err_simps prod.case if_not_P [OF assms(2)] vs wr q undone err conc
            using final by simp
        qed (simp add: transform_proxy_distortion_def proxy_decode_def m vs wr assms(2))
      qed (simp add: transform_proxy_distortion_def proxy_decode_def m vs assms(2))
    qed (simp add: transform_proxy_distortion_def proxy_decode_def m assms(2))
  qed (simp add: transform_proxy_distortion_def proxy_decode_def)
  then show "transform_proxy_distortion (shape, flat) normalization rotation bits nb =
      bind_err ?D (\<lambda>dec. Inr (mean (map (\<lambda>d. d ^ 2) (map2 (-) flat dec))))"
    and "?D = Inr dec \<Longrightarrow> length dec = length flat" by blast+
qed


text \<open>What the search charges for block-max scaling is the stored scales, each at its width.\<close>

lemma overhead_is_stored_scales:
  assumes "scale_flat (Some ''block-max'') nb flat = Inr (vn, Some s)"
  shows "transform_overhead_bits (Some ''block-max'') rot (int (length flat)) (int nb) scale_bits 0 salient = Inr (int (length s) * scale_bits)"
proof -
  have nb: "0 < nb" using scale_flat_ok(3) [OF assms refl] by blast
  have "length s = length (blocks_of nb (padded nb flat))" using scale_flat_ok(3) [OF assms refl] by blast
  then have "length s = ceil_div (length flat) nb" using cuts_count [OF nb cuts_padded [OF nb]] by simp
  then have "int (length s) = (int (length flat) + int nb - 1) div int nb"
    using nb by (simp add: ceil_div_def zdiv_int of_nat_diff)
  then show ?thesis using nb by (simp add: transform_overhead_bits_def)
qed

section \<open>The ranking\<close>

lemma proxy_never_divides_by_zero:
  assumes "flat \<noteq> []" and "0 < nb" and "prod_list shape = length flat"
  shows "transform_proxy_distortion (shape, flat) normalization rotation bits nb \<noteq> Inl DivideByZero"
proof (cases "as_matrix (shape, flat)")
  case (Inr rcf)
  then obtain r c where m: "as_matrix (shape, flat) = Inr (r, c, flat)" "r * c = length flat"
    using as_matrix_ok [OF _ assms(3)] by (metis prod_cases3)
  then have c: "0 < c" using assms(1) by (cases c) auto
  have norm: "scale_flat normalization nb flat \<noteq> Inl DivideByZero" using assms(2) by (simp add: scale_flat_def Let_def)
  have rot: "rotate_rows rotation c rows \<noteq> Inl DivideByZero" for rows
    using hadamard_block_ok [OF _ c] by (auto simp: rotate_rows_def lift_err_def bind_err_def split: sum.splits)
  have scalar: "scalar_quant_reconstruct v bits bs \<noteq> Inl DivideByZero" for v bs by (simp add: scalar_quant_reconstruct_def)
  show ?thesis
    using norm rot scalar assms(1)
    by (auto simp: transform_proxy_distortion_def m(1) bind_err_def split: sum.splits)
next
  case (Inl e)
  then have "e \<noteq> DivideByZero" by (cases "(shape, flat)" rule: as_matrix.cases; auto split: if_splits)
  then show ?thesis using Inl by (simp add: transform_proxy_distortion_def)
qed

text \<open>C40: Ranking the transforms measures decoding. On a nonempty tensor of its shape and with a positive block, the ranking
  always returns, and it returns the configurations of the grid that could be packed and decoded, each with the mean squared
  difference between the tensor and what the decoder's own block-max routine and the inverse rotation return, in ascending
  order and with ties in the order of the grid. A configuration whose width or name is rejected is left out and ends nothing.
\<close>

theorem ranking_measures_decoding:
  assumes "prod_list shape = length flat" and "flat \<noteq> []" and "0 < nb"
  shows "rank_transforms (shape, flat) grid bits nb = Inr (sort_key snd (concat (map (\<lambda>cfg.
    case proxy_decode (shape, flat) (Some (fst cfg)) (Some (snd cfg)) bits nb of
      Inl _ \<Rightarrow> []
    | Inr dec \<Rightarrow> [(cfg, mean (map (\<lambda>d. d ^ 2) (map2 (-) flat dec)))]) grid)))"
proof -
  let ?one = "\<lambda>cfg. case proxy_decode (shape, flat) (Some (fst cfg)) (Some (snd cfg)) bits nb of
      Inl _ \<Rightarrow> [] | Inr dec \<Rightarrow> [(cfg, mean (map (\<lambda>d. d ^ 2) (map2 (-) flat dec)))]"
  have "rank_step (shape, flat) bits nb scored cfg = Inr (scored @ ?one cfg)" for scored cfg
    using proxy_never_divides_by_zero [OF assms(2,3,1), of "Some (fst cfg)" "Some (snd cfg)" bits]
      proxy_is_decode_error(1) [OF assms(1,2), of "Some (fst cfg)" "Some (snd cfg)" bits nb]
    by (auto simp: rank_step_def is_value_error_def bind_err_def split: sum.splits)
  then have "foldM (rank_step (shape, flat) bits nb) scored grid = Inr (scored @ concat (map ?one grid))" for scored
    by (induction grid arbitrary: scored) simp_all
  then show ?thesis by (simp add: rank_transforms_def)
qed

text \<open>A row of two values at two bits: the rejected name is left out and the exact block-max pair moves to the front.\<close>

theorem ranking_measures_decoding_witness:
  "rank_transforms ([2], [3, -1]) [(''none'', ''none''), (''bogus'', ''none''), (''block-max'', ''none'')] 2 1 =
    Inr [((''block-max'', ''none''), 0), ((''none'', ''none''), 1 / 2)]"
proof -
  have floors: "\<lfloor>- 1 / 3 :: real\<rfloor> = - 1" "\<lfloor>- (1 / 3) :: real\<rfloor> = - 1" by (simp_all add: floor_eq_iff)
  then have round: "np_round (- 1 / 3 :: real) = 0" "np_round (- (1 / 3) :: real) = 0" "np_round (1 :: real) = 1" "np_round (- 1 :: real) = - 1"
    using np_round_int [of 1, where ?'a = real] np_round_int [of "- 1", where ?'a = real] by (simp_all add: np_round_def Let_def)
  have cut: "blocks_of k [] = []" "blocks_of (Suc k) (v # vs) = take (Suc k) (v # vs) # blocks_of (Suc k) (drop (Suc k) (v # vs))"
    for k and v :: real and vs by (simp_all add: blocks_of.simps [of _ "[]"] blocks_of.simps [of _ "v # vs"])
  note eval = proxy_decode_def scale_flat_def Let_def SCALING_NORMS_def rotate_rows_def to_rows_def scalar_quant_reconstruct_def
    quantize_block_def level_limit_def block_step_def padded_def cut numeral_2_eq_2 abs_max_def divide_blocks_def clip_def round
    block_max_scales_numpy_def
  have "proxy_decode ([2], [3, -1]) (Some ''none'') (Some ''none'') 2 1 = Inr [3, 0]" by (simp add: eval)
  moreover have "proxy_decode ([2], [3, -1]) (Some ''bogus'') (Some ''none'') 2 1 = Inl (UnsupportedNorm (Some ''bogus''))" by (simp add: eval)
  moreover have "proxy_decode ([2], [3, -1]) (Some ''block-max'') (Some ''none'') 2 1 = Inr [3, -1]" by (simp add: eval)
  ultimately show ?thesis
    using ranking_measures_decoding [of "[2]" "[3, -1]" 1 "[(''none'', ''none''), (''bogus'', ''none''), (''block-max'', ''none'')]" 2]
    by (simp add: mean_def)
qed

end
