(* ===== verification/Vq_Layer.thy ===== *)
theory Vq_Layer
  imports Decode Quant_Spec
begin

unbundle bit_operations_syntax

text \<open>
  \<open>orka/inference/_vq_core.py\<close> and \<open>orka/inference/_vq_build.py\<close>: the layer that serves a packed matrix. Its buffers (indices in
  their storage tier, codebooks, block scales, the sparse correction in CSR form), how they are filled from the files of a
  manifest entry, and the dense weight they stand for.

  Values are real numbers; the cast to fp16 is \<open>round16\<close> of the environment. A buffer of torch has a fixed size, so copying
  into it either fits, repeats a single entry, or raises. The \<open>codebook_size\<close> fields of the manifest, which the decoder does
  not read, are a list beside the entry. Moving buffers between devices changes no value.
\<close>

section \<open>Buffers\<close>

text \<open>Integer buffers of torch: a cast keeps the low bits.\<close>

definition cast_int :: "string \<Rightarrow> int \<Rightarrow> int" where
  "cast_int dt k =
     (if dt = ''uint8'' then k mod 2 ^ 8
      else if dt = ''int16'' then (k + 2 ^ 15) mod 2 ^ 16 - 2 ^ 15
      else (k + 2 ^ 31) mod 2 ^ 32 - 2 ^ 31)"

datatype index_buffer = Flat string "int list" | Planes nat "byte list" "byte list"

record csr =
  cs_rowptr :: "int list"
  cs_col :: "int list"
  cs_val :: "real list"

record vq_layer =
  ly_out :: nat
  ly_in :: nat
  ly_group :: nat
  ly_block :: nat
  ly_index :: "index_buffer list"
  ly_codebooks :: "real list list list"
  ly_scales :: "real list"
  ly_corr :: csr
  ly_cache :: "csr option"
  ly_bias :: "real list option"
  ly_group_major :: bool

text \<open>The width of a stage stored as two byte planes, 0 for the other tiers.\<close>

definition plane_width :: "nat \<Rightarrow> nat" where
  "plane_width k = (let width = index_bits_for_size k in if 8 < width \<and> width \<le> 12 \<and> width - 8 \<in> {2, 4} then width else 0)"

definition index_dtype :: "nat \<Rightarrow> string" where
  "index_dtype k = (if k \<le> 256 then ''uint8'' else if k \<le> 32768 then ''int16'' else ''int32'')"

text \<open>\<open>dst.copy_(src)\<close> for a vector of \<open>n\<close> entries and for a matrix of \<open>k\<close> rows of \<open>g\<close> entries, the source \<open>c\<close> wide.\<close>

definition copy_vec :: "nat \<Rightarrow> 'a list \<Rightarrow> decode_error + 'a list" where
  "copy_vec n src = (if length src = n then Inr src else if length src = 1 then Inr (replicate n (hd src)) else Inl BadAdd)"

definition copy_rows :: "nat \<Rightarrow> nat \<Rightarrow> nat \<Rightarrow> 'a list list \<Rightarrow> decode_error + 'a list list" where
  "copy_rows k g c src =
     (if c = g then copy_vec k src
      else if c = 1 then copy_vec k (map (\<lambda>r. replicate g (hd r)) src)
      else Inl BadAdd)"

text \<open>The high plane: \<open>8 / hb\<close> slots a byte, the first one on top.\<close>

definition hi_vals :: "nat \<Rightarrow> byte list \<Rightarrow> nat list" where
  "hi_vals hb hi = concat (map (\<lambda>b. map (\<lambda>j. drop_bit (8 - (j + 1) * hb) (unat b) AND (2 ^ hb - 1)) [0..<8 div hb]) hi)"

definition stage_indices_int :: "index_buffer \<Rightarrow> int list" where
  "stage_indices_int buf =
     (case buf of
        Flat dt v \<Rightarrow> v
      | Planes w lo hi \<Rightarrow> map2 (\<lambda>l h. int (unat l OR push_bit 8 h)) lo (take (length lo) (hi_vals (w - 8) hi)))"

section \<open>Filling the buffers\<close>

definition half :: "decode_env \<Rightarrow> real \<Rightarrow> real" where
  "half x = round16 (dx_env x)"

definition register_stage ::
  "decode_env \<Rightarrow> nat \<Rightarrow> nat \<Rightarrow> stage_meta \<times> nat \<Rightarrow> decode_error + index_buffer \<times> real list list" where
  "register_stage x grp tot sk =
     (let st = fst sk; k = snd sk; g = get_or (sg_group_size st) grp; n = ceil_div tot grp; w = plane_width k
      in if g = 0 then Inl ZeroDivide
         else
           bind_err (lift_err FormatFail (read_indices (dx_env x) (sg_indices st) (sg_index_bits st) (ceil_div tot g)
                       (get_or (sg_packed st) False) (get_or (sg_encoding st) ''raw'') (dx_files x))) (\<lambda>idxs.
           bind_err (lift_err FormatFail (read_codebook (dx_floats x) (sg_codebook st) g
                       (get_or (sg_codebook_dtype st) ''float16'') (dx_files x))) (\<lambda>cb.
           bind_err
             (if w \<noteq> 0 then
                bind_err (lift_err FormatFail (pack_index_planes w (map (\<lambda>i. nat (i mod 2 ^ 64)) idxs))) (\<lambda>(lo, hi).
                bind_err (copy_vec n lo) (\<lambda>lo'.
                bind_err (copy_vec (ceil_div (n * (w - 8)) 8) hi) (\<lambda>hi'. Inr (Planes w lo' hi'))))
              else
                bind_err (copy_vec n (map (cast_int (index_dtype k)) idxs)) (\<lambda>v. Inr (Flat (index_dtype k) v))) (\<lambda>buf.
           bind_err (copy_rows k grp g (map (map (\<lambda>v. half x (of_rat v))) cb)) (\<lambda>cb'. Inr (buf, cb'))))))"

text \<open>The loaded scales (as read, and cast into the buffer of ones).\<close>

definition register_scales ::
  "decode_env \<Rightarrow> tensor_meta \<Rightarrow> nat \<Rightarrow> nat \<Rightarrow> decode_error + real list option \<times> real list" where
  "register_scales x tm block tot =
     (let n = ceil_div tot block
      in if stores_block_scales (get_or (tm_normalization tm) ''none'') then
           bind_err (read_scales x tm) (\<lambda>full.
           bind_err (copy_vec n (map (half x) (take n full))) (\<lambda>s. Inr (Some (take n full), s)))
         else Inr (None, replicate n 1))"

section \<open>The sparse correction\<close>

text \<open>The value the kernel produces at a flat position, before and after the scales as they were read.\<close>

definition codeword_at :: "nat \<Rightarrow> (index_buffer \<times> real list list) list \<Rightarrow> int \<Rightarrow> decode_error + real" where
  "codeword_at grp stages p =
     foldM (\<lambda>acc (buf, cb).
         bind_err (py_get BadIndex (stage_indices_int buf) (p div int grp)) (\<lambda>i.
         bind_err (py_get BadIndex cb i) (\<lambda>row.
         bind_err (py_get BadIndex row (p mod int grp)) (\<lambda>v. Inr (acc + v))))) 0 stages"

definition scale_at :: "nat \<Rightarrow> real list option \<Rightarrow> int \<Rightarrow> decode_error + real" where
  "scale_at block scales p = (case scales of None \<Rightarrow> Inr 1 | Some s \<Rightarrow> py_get BadIndex s (p div int block))"

definition vq_decoded_at ::
  "nat \<Rightarrow> nat \<Rightarrow> (index_buffer \<times> real list list) list \<Rightarrow> real list option \<Rightarrow> int \<Rightarrow> decode_error + real" where
  "vq_decoded_at grp block stages scales p =
     bind_err (codeword_at grp stages p) (\<lambda>v. bind_err (scale_at block scales p) (\<lambda>f. Inr (v * f)))"

definition dict_update :: "('k \<times> 'v) list \<Rightarrow> ('k \<times> 'v) list \<Rightarrow> ('k \<times> 'v) list" where
  "dict_update kvs d = fold (\<lambda>(k, v). dict_put k v) kvs d"

definition outlier_finals ::
  "decode_env \<Rightarrow> tensor_meta \<Rightarrow> nat \<Rightarrow> nat \<Rightarrow> real list option \<Rightarrow> decode_error + (int \<times> real) list" where
  "outlier_finals x tm block tot scales =
     (case tm_outliers tm of
        None \<Rightarrow> Inr []
      | Some o1 \<Rightarrow>
          if sp_count o1 = 0 then Inr []
          else
            bind_err (lift_err FormatFail (read_outliers (dx_env x) (sp_positions o1) (sp_values o1) (sp_count o1)
                        (get_or (sp_positions_dtype o1) ''uint32'') (get_or (sp_values_dtype o1) ''float32'') (dx_files x)))
              (\<lambda>(ps, vs). mapM (\<lambda>(p, v). bind_err (scale_at block scales p) (\<lambda>f. Inr (p, v * f)))
                 (filter (\<lambda>(p, v). p < int tot) (zip (map to_int64 ps) vs))))"

definition salient_finals ::
  "decode_env \<Rightarrow> tensor_meta \<Rightarrow> nat \<Rightarrow> nat \<Rightarrow> decode_error + (int \<times> real) list" where
  "salient_finals x tm block tot =
     (case tm_salient tm of
        None \<Rightarrow> Inr []
      | Some s \<Rightarrow>
          if sl_count s = 0 then Inr []
          else
            bind_err (lift_err FormatFail (read_salient (dx_env x) (sl_indices s) (sl_weights s) (sl_count s)
                        (sl_indices_bits s) (get_or (sl_weights_dtype s) ''float32'') (dx_files x)))
              (\<lambda>(ix, vs).
                (let n = ceil_div tot block; ix = take n ix; vs = take n vs;
                     ps = map2 (\<lambda>b i. int (b * block) + i) [0..<length ix] ix
                 in Inr (filter (\<lambda>(p, v). p < int tot) (zip ps vs)))))"

text \<open>
  The deltas in CSR order. A negative row makes \<open>np.bincount\<close> raise; the positions are below the total number, so no row is past
  the last one.
\<close>

definition csr_of :: "decode_env \<Rightarrow> nat \<Rightarrow> nat \<Rightarrow> (int \<times> real) list \<Rightarrow> decode_error + csr" where
  "csr_of x n_out n_in deltas =
     (let rows = map (\<lambda>(p, v). p div int n_in) deltas
      in if list_ex (\<lambda>r. r < 0) rows then Inl BadIndex
         else
           (let sorted_deltas = sort_key (\<lambda>(p, v). p div int n_in) deltas;
                counts = map (\<lambda>r. int (count_list rows (int r))) [0..<n_out]
            in Inr \<lparr>cs_rowptr = map (\<lambda>r. cast_int ''int32'' (sum_list (take r counts))) [0..<Suc n_out],
                    cs_col = map (\<lambda>(p, v). cast_int ''int32'' (p mod int n_in)) sorted_deltas,
                    cs_val = map (\<lambda>(p, v). half x v) sorted_deltas\<rparr>))"

definition empty_csr :: "nat \<Rightarrow> csr" where
  "empty_csr n_out = \<lparr>cs_rowptr = replicate (Suc n_out) 0, cs_col = [], cs_val = []\<rparr>"

definition build_csr_correction ::
  "decode_env \<Rightarrow> tensor_meta \<Rightarrow> nat \<Rightarrow> nat \<Rightarrow> nat \<Rightarrow> nat \<Rightarrow> (index_buffer \<times> real list list) list \<Rightarrow> real list option
    \<Rightarrow> decode_error + csr" where
  "build_csr_correction x tm grp block n_out n_in stages scales =
     bind_err (outlier_finals x tm block (n_out * n_in) scales) (\<lambda>outl.
     bind_err (salient_finals x tm block (n_out * n_in)) (\<lambda>sal.
       (let finals = dict_update sal (dict_update outl [])
        in if finals = [] then Inr (empty_csr n_out)
           else
             bind_err (mapM (\<lambda>(p, v). bind_err (vq_decoded_at grp block stages scales p) (\<lambda>w. Inr (p, v - w))) finals)
               (csr_of x n_out n_in))))"

section \<open>Group-major order\<close>

text \<open>\<open>buf.view(r, c).t().contiguous().reshape(-1)\<close>\<close>

definition transpose_flat :: "nat \<Rightarrow> nat \<Rightarrow> 'a list \<Rightarrow> 'a list" where
  "transpose_flat r c xs = map (\<lambda>i. xs ! (i mod r * c + i div r)) [0..<r * c]"

fun is_planes :: "index_buffer \<Rightarrow> bool" where
  "is_planes (Planes w lo hi) = True"
| "is_planes (Flat dt v) = False"

fun transpose_index :: "nat \<Rightarrow> nat \<Rightarrow> index_buffer \<Rightarrow> index_buffer" where
  "transpose_index r c (Flat dt v) = Flat dt (transpose_flat r c v)"
| "transpose_index r c (Planes w lo hi) = Planes w lo hi"

definition to_group_major :: "vq_layer \<Rightarrow> vq_layer" where
  "to_group_major l =
     (if list_ex is_planes (ly_index l) then l
      else if ly_in l mod ly_group l = 0 \<and> ly_in l mod ly_block l = 0 then
        (let gpr = ly_in l div ly_group l; bpr = ly_in l div ly_block l
         in if list_all (\<lambda>b. length (stage_indices_int b) = ly_out l * gpr) (ly_index l) \<and> length (ly_scales l) = ly_out l * bpr
            then l\<lparr>ly_index := map (transpose_index (ly_out l) gpr) (ly_index l),
                   ly_scales := transpose_flat (ly_out l) bpr (ly_scales l), ly_group_major := True\<rparr>
            else l)
      else l)"

definition build_vq_linear ::
  "decode_env \<Rightarrow> tensor_meta \<Rightarrow> nat list \<Rightarrow> real list option \<Rightarrow> decode_error + vq_layer" where
  "build_vq_linear x tm cb_sizes bias =
     (if tm_shape tm = [] then Inl BadIndex
      else
        (let n_out = hd (tm_shape tm); n_in = cols_of (tm_shape tm); grp = tm_group_size tm;
             block = or_nat (tm_block_scale_size tm) 32; tot = n_out * n_in
         in bind_err (resolve_stages tm) (\<lambda>stages.
            if grp = 0 then Inl ZeroDivide
            else
              bind_err (mapM (register_stage x grp tot) (zip stages cb_sizes)) (\<lambda>bufs.
              bind_err (register_scales x tm block tot) (\<lambda>(scales_np, scales).
              bind_err (build_csr_correction x tm grp block n_out n_in bufs scales_np) (\<lambda>corr.
                Inr (to_group_major \<lparr>ly_out = n_out, ly_in = n_in, ly_group = grp, ly_block = block,
                  ly_index = map fst bufs, ly_codebooks = map snd bufs, ly_scales = scales, ly_corr = corr, ly_cache = None,
                  ly_bias = map_option (map (half x)) bias, ly_group_major = False\<rparr>)))))))"

section \<open>The dense weight\<close>

text \<open>The live correction: the buffers, or the cache they were freed into.\<close>

definition correction_csr :: "vq_layer \<Rightarrow> csr option" where
  "correction_csr l = (if cs_col (ly_corr l) \<noteq> [] then Some (ly_corr l) else ly_cache l)"

definition csr_rows :: "csr \<Rightarrow> int list" where
  "csr_rows c = concat (map (\<lambda>r. replicate (nat (cs_rowptr c ! Suc r - cs_rowptr c ! r)) (int r)) [0..<length (cs_rowptr c) - 1])"

definition add_values :: "real list \<Rightarrow> (int \<times> real) list \<Rightarrow> decode_error + real list" where
  "add_values d pvs =
     bind_err (mapM (\<lambda>(p, v). bind_err (py_get BadIndex d p) (\<lambda>w. Inr (p, w + v))) pvs) (put_values d)"

definition row_major :: "vq_layer \<Rightarrow> nat \<Rightarrow> 'a list \<Rightarrow> 'a list" where
  "row_major l n xs = (if ly_group_major l \<and> length xs = n then transpose_flat (n div ly_out l) (ly_out l) xs else xs)"

definition stage_sum :: "vq_layer \<Rightarrow> decode_error + real list" where
  "stage_sum l =
     (let tot = ly_out l * ly_in l; g = ly_group l
      in bind_err
           (foldM (\<lambda>acc (buf, cb).
                bind_err (mapM (py_get BadIndex cb) (row_major l (tot div g) (stage_indices_int buf))) (\<lambda>rows.
                  add_into acc (concat rows)))
              (replicate (ceil_div tot g * g) 0) (zip (ly_index l) (ly_codebooks l)))
           (\<lambda>d. Inr (take tot d)))"

definition scaled_weight :: "vq_layer \<Rightarrow> decode_error + real list" where
  "scaled_weight l =
     bind_err (stage_sum l) (\<lambda>d.
       (let b = ly_block l; n = ceil_div (length d) b
        in Inr (take (length d) (concat (map2 (\<lambda>xs f. map (\<lambda>v. v * f) xs) (blocks_of b (padded b d))
             (take n (row_major l n (ly_scales l))))))))"

definition reconstruct_weight :: "vq_layer \<Rightarrow> decode_error + real list" where
  "reconstruct_weight l =
     bind_err (scaled_weight l) (\<lambda>d.
       case correction_csr l of
         None \<Rightarrow> Inr d
       | Some c \<Rightarrow>
           add_values d (filter (\<lambda>(p, v). p < int (length d))
             (zip (map2 (\<lambda>r k. r * int (ly_in l) + k) (csr_rows c) (cs_col c)) (cs_val c))))"


section \<open>The storage tiers hold the indices\<close>

lemma msb_val_append: "msb_val (a @ b) = msb_val a * 2 ^ length b + msb_val b"
  by (induction a) (simp_all add: power_add algebra_simps)

lemma msb_val_slice:
  assumes "i + h \<le> length p"
  shows "drop_bit (length p - (i + h)) (msb_val p) AND (2 ^ h - 1) = msb_val (take h (drop i p))"
proof -
  let ?a = "take i p" and ?m = "take h (drop i p)" and ?b = "drop (i + h) p"
  have p: "p = ?a @ ?m @ ?b" using append_take_drop_id [of h "drop i p"] by (simp add: add.commute)
  have len: "length ?m = h" "length ?b = length p - (i + h)" using assms by simp_all
  have "msb_val p = (msb_val ?a * 2 ^ h + msb_val ?m) * 2 ^ length ?b + msb_val ?b"
    by (subst p) (simp only: msb_val_append len(1) append_assoc [symmetric])
  moreover have "msb_val ?b < 2 ^ length ?b" by (rule msb_val_less)
  ultimately have "msb_val p div 2 ^ length ?b = msb_val ?a * 2 ^ h + msb_val ?m" by simp
  moreover have "msb_val ?m < 2 ^ h" using msb_val_less [of ?m] len(1) by simp
  moreover have "n AND (2 ^ h - 1) = n mod 2 ^ h" for n :: nat
    by (metis mask_eq_exp_minus_1 take_bit_eq_mask take_bit_eq_mod)
  ultimately show ?thesis unfolding len(2) [symmetric] by (simp add: drop_bit_eq_div)
qed

lemma nth_blocks_of: "0 < k \<Longrightarrow> q < length (blocks_of k xs) \<Longrightarrow> blocks_of k xs ! q = take k (drop (q * k) xs)"
proof (induction k xs arbitrary: q rule: blocks_of.induct)
  case (1 k xs)
  show ?case
  proof (cases q)
    case 0
    then show ?thesis using 1(2,3) by (cases "xs = []") (simp_all add: blocks_of.simps [of k xs])
  next
    case (Suc q')
    have "xs \<noteq> []" using 1(3) by auto
    then show ?thesis
      using 1(1) [of q'] 1(2,3) Suc by (simp add: blocks_of.simps [of k xs] add.commute)
  qed
qed

lemma slot_value:
  assumes q: "q < length (packbits bits)" and slot: "j * h + h \<le> 8" and inb: "q * 8 + (j * h + h) \<le> length bits"
  shows "drop_bit (8 - (j + 1) * h) (unat (packbits bits ! q)) AND (2 ^ h - 1) = msb_val (take h (drop (q * 8 + j * h) bits))"
proof -
  define blk where "blk = take 8 (drop (q * 8) bits)"
  define p where "p = blk @ replicate (8 - length blk) False"
  have blk: "length blk \<le> 8" "j * h + h \<le> length blk" using slot inb by (simp_all add: blk_def)
  have p8: "length p = 8" using blk(1) by (simp add: p_def)
  have "packbits bits ! q = pack_byte blk" using q nth_blocks_of [of 8 q bits] by (simp add: packbits_def blk_def)
  moreover have "msb_val p < 256" using msb_val_less [of p] p8 by simp
  ultimately have byte: "unat (packbits bits ! q) = msb_val p" by (simp only: pack_byte_def unat_byte p_def [symmetric]) simp
  have "drop_bit (8 - (j + 1) * h) (msb_val p) AND (2 ^ h - 1) = msb_val (take h (drop (j * h) p))"
    using msb_val_slice [of "j * h" h p] slot p8 by (simp add: add.commute)
  moreover have "take h (drop (j * h) p) = take h (drop (j * h) blk)" using blk(2) by (simp add: p_def)
  moreover have "take h (drop (j * h) blk) = take h (drop (q * 8 + j * h) bits)"
  proof -
    have "min h (8 - j * h) = h" using slot by simp
    then show ?thesis unfolding blk_def drop_take take_take drop_drop by (simp add: add.commute)
  qed
  ultimately show ?thesis by (simp only: byte)
qed

lemma hi_vals_packed:
  assumes hb: "hb \<in> {2, 4}" and xs: "\<forall>v \<in> set xs. v < 2 ^ hb"
  shows "take (length xs) (hi_vals hb (packbits (bit_matrix hb xs))) = xs"
proof (rule nth_equalityI)
  let ?bits = "bit_matrix hb xs" and ?per = "8 div hb"
  let ?slots = "\<lambda>b. map (\<lambda>j. drop_bit (8 - (j + 1) * hb) (unat b) AND (2 ^ hb - 1)) [0..<?per]"
  have per: "?per * hb = 8" "0 < ?per" "0 < hb" using hb by auto
  let ?B = "map ?slots (packbits ?bits)"
  have width: "\<forall>b \<in> set ?B. length b = ?per" by auto
  have blocks: "length (packbits ?bits) = (length xs * hb + 7) div 8" by (simp add: length_packbits)
  have enough: "length xs \<le> ?per * length (packbits ?bits)"
  proof -
    have "length xs * hb \<le> 8 * ((length xs * hb + 7) div 8)" by linarith
    also have "\<dots> = (?per * hb) * length (packbits ?bits)" by (simp only: per(1) blocks)
    finally have "length xs * hb \<le> (?per * length (packbits ?bits)) * hb" by (simp only: ac_simps)
    then show ?thesis using per(3) by (simp only: mult_le_cancel2)
  qed
  have total: "length (hi_vals hb (packbits ?bits)) = ?per * length (packbits ?bits)"
    using length_concat_blocks [OF width] by (simp add: hi_vals_def)
  then show "length (take (length xs) (hi_vals hb (packbits ?bits))) = length xs" using enough by simp
  fix i assume "i < length (take (length xs) (hi_vals hb (packbits ?bits)))"
  then have i: "i < length xs" by simp
  let ?q = "i div ?per" and ?j = "i mod ?per"
  have q: "?q < length (packbits ?bits)" using i enough per(2) by (simp add: less_mult_imp_div_less mult.commute)
  have j: "?j < ?per" "?q * 8 + ?j * hb = i * hb"
  proof -
    show "?j < ?per" using per(2) by simp
    have "?q * 8 + ?j * hb = (?q * ?per + ?j) * hb" by (simp only: add_mult_distrib mult.assoc per(1))
    then show "?q * 8 + ?j * hb = i * hb" by (simp only: div_mult_mod_eq)
  qed
  have slot: "?j * hb + hb \<le> 8" using mult_le_mono1 [OF Suc_leI [OF j(1)], of hb] by (simp only: per(1) mult_Suc add.commute)
  have "i * hb + hb \<le> length ?bits" using mult_le_mono1 [OF Suc_leI [OF i], of hb] by (simp only: length_bit_matrix mult_Suc add.commute)
  then have inb: "?q * 8 + (?j * hb + hb) \<le> length ?bits" by (simp only: j(2) add.assoc [symmetric])
  have "hi_vals hb (packbits ?bits) ! i = ?B ! ?q ! ?j"
    unfolding hi_vals_def using i enough by (intro concat_nth_blocks [OF width]) simp
  also have "\<dots> = drop_bit (8 - (?j + 1) * hb) (unat (packbits ?bits ! ?q)) AND (2 ^ hb - 1)" using q j(1) by simp
  also have "\<dots> = msb_val (take hb (drop (i * hb) ?bits))" using slot_value [OF q slot inb] by (simp only: j(2))
  also have "\<dots> = msb_val (msb_bits hb (xs ! i))" by (simp only: bit_matrix_row [OF i])
  finally show "take (length xs) (hi_vals hb (packbits ?bits)) ! i = xs ! i"
    using i xs by (simp add: msb_val_msb_bits)
qed

text \<open>A plane layout of 10 or 12 bits gives back the indices it was filled with.\<close>

lemma planes_hold:
  assumes w: "w \<in> {10, 12}" and xs: "\<forall>v \<in> set xs. v < 2 ^ w" and ne: "xs \<noteq> []"
  shows "\<exists>lo hi. pack_index_planes w xs = Inr (lo, hi) \<and> length lo = length xs \<and>
    length hi = ceil_div (length xs * (w - 8)) 8 \<and> stage_indices_int (Planes w lo hi) = map int xs"
proof -
  let ?hi = "map (\<lambda>v. v div 256) xs" and ?lo = "map (\<lambda>v. word_of_nat (v mod 256) :: byte) xs"
  have w63: "w \<le> 63" "8 < w" and hb: "w - 8 \<in> {2, 4}" using w by auto
  have pow: "(2 :: nat) ^ w = 2 ^ (w - 8) * 256" using w by auto
  have big: "v < 2 ^ 64" if "v \<in> set xs" for v
    using xs that power_increasing [of w 64 "2 :: nat"] w by fastforce
  have arr: "map (\<lambda>v. v mod 2 ^ 64) xs = xs" using big by (intro map_idI) simp
  have hi: "\<forall>v \<in> set ?hi. v < 2 ^ (w - 8)" using xs unfolding pow by (auto simp: less_mult_imp_div_less)
  have hi64: "\<forall>v \<in> set ?hi. v < 2 ^ 64" using big by (auto intro: le_less_trans [OF div_le_dividend])
  have chunk: "0 < PACK_CHUNK_INDICES" "8 dvd PACK_CHUNK_INDICES" by (simp_all add: PACK_CHUNK_INDICES_def)
  let ?pk = "packbits (bit_matrix (w - 8) ?hi)"
  have pack: "pack_index_planes w xs = Inr (?lo, ?pk)"
    using w63(2) pack_indices_eq [OF chunk hi64, of "w - 8"] by (simp only: pack_index_planes_def arr Let_def) simp
  have vals: "take (length xs) (hi_vals (w - 8) ?pk) = ?hi" using hi_vals_packed [OF hb hi] by simp
  have join: "unat (word_of_nat (v mod 256) :: byte) OR push_bit 8 (v div 256) = v" for v :: nat
  proof -
    have "unat (word_of_nat (v mod 256) :: byte) = take_bit 8 v" by (simp add: unat_byte take_bit_eq_mod)
    moreover have "push_bit 8 (v div 256) = push_bit 8 (drop_bit 8 v)" by (simp add: drop_bit_eq_div)
    ultimately show ?thesis using bits_ident [of 8 v] disjunctive_add_eq_or [of "push_bit 8 (drop_bit 8 v)" "take_bit 8 v"]
      by (simp add: or.commute) (metis (no_types, lifting) bit_eqI bit_and_iff bit_push_bit_iff bit_take_bit_iff bit_0_eq bot_apply bot_bool_def not_le bit_or_iff bits_ident disjunctive_add_eq_or or.commute)
  qed
  have "stage_indices_int (Planes w ?lo ?pk) = map int xs"
    unfolding stage_indices_int_def index_buffer.case length_map vals
    by (rule nth_equalityI) (simp_all add: join)
  moreover have "length ?pk = ceil_div (length xs * (w - 8)) 8" by (simp add: length_packbits ceil_div_def)
  ultimately show ?thesis using pack by auto
qed


section \<open>Filling the buffers keeps the files' values\<close>

text \<open>
  The stage files a layer can hold: an index below the codebook size for every group, and a codebook of that many rows whose
  values are fp16 values, in the dtype the entry states.
\<close>

definition stage_file :: "decode_env \<Rightarrow> nat \<Rightarrow> nat \<Rightarrow> stage_meta \<times> nat \<Rightarrow> bool" where
  "stage_file x g tot sk \<longleftrightarrow> get_or (sg_group_size (fst sk)) g = g \<and> sg_codebook_dtype (fst sk) \<noteq> None \<and> snd sk \<le> 2 ^ 31 \<and>
     (\<exists>cb idxs. read_stage_arrays x (fst sk) g tot = Inr (cb, idxs) \<and> length cb = snd sk \<and> length idxs = ceil_div tot g \<and>
        (\<forall>r \<in> set cb. length r = g \<and> (\<forall>v \<in> set r. half x v = v)) \<and> (\<forall>i \<in> set idxs. 0 \<le> i \<and> i < int (snd sk)))"

lemma copy_vec_fits [simp]: "length src = n \<Longrightarrow> copy_vec n src = Inr src"
  by (simp add: copy_vec_def)

lemma cast_index: "0 \<le> i \<Longrightarrow> i < int k \<Longrightarrow> k \<le> 2 ^ 31 \<Longrightarrow> cast_int (index_dtype k) i = i"
  by (auto simp: cast_int_def index_dtype_def mod_pos_pos_trivial)

lemma plane_width_cases:
  assumes "plane_width k \<noteq> 0"
  shows "plane_width k \<in> {10, 12}" and "k \<le> 2 ^ plane_width k"
proof -
  have w: "plane_width k = index_bits_for_size k" "index_bits_for_size k - 8 \<in> {2, 4}" "8 < index_bits_for_size k"
    using assms unfolding plane_width_def Let_def by (auto split: if_splits)
  then show "plane_width k \<in> {10, 12}" by auto
  have "1 < k" using w(3) by (cases "k \<le> 1") (auto simp: index_bits_for_size_def split: if_splits)
  then show "k \<le> 2 ^ plane_width k" using clog2_upper [of k] w(1) by (simp add: index_bits_for_size_def)
qed

text \<open>What the two files of a stage hold, as the decoder and as the layer read them.\<close>

lemma stage_file_reads:
  assumes "stage_file x g tot (st, k)" and "0 < g"
  obtains cb idxs c where "read_stage_arrays x st g tot = Inr (cb, idxs)" and "get_or (sg_group_size st) g = g" and "k \<le> 2 ^ 31"
    and "read_indices (dx_env x) (sg_indices st) (sg_index_bits st) (ceil_div tot g)
      (get_or (sg_packed st) False) (get_or (sg_encoding st) ''raw'') (dx_files x) = Inr idxs"
    and "read_codebook (dx_floats x) (sg_codebook st) g (get_or (sg_codebook_dtype st) ''float16'') (dx_files x) = Inr c"
    and "map (map (\<lambda>v. half x (of_rat v))) c = cb" and "length cb = k" and "length idxs = ceil_div tot g"
    and "\<forall>r \<in> set cb. length r = g" and "\<forall>i \<in> set idxs. 0 \<le> i \<and> i < int k"
proof -
  obtain cb idxs where read: "read_stage_arrays x st g tot = Inr (cb, idxs)" and len: "length cb = k" "length idxs = ceil_div tot g"
    and rows: "\<forall>r \<in> set cb. length r = g \<and> (\<forall>v \<in> set r. half x v = v)" and range: "\<forall>i \<in> set idxs. 0 \<le> i \<and> i < int k"
    and st: "get_or (sg_group_size st) g = g" "k \<le> 2 ^ 31" and dt: "sg_codebook_dtype st \<noteq> None"
    using assms(1) by (auto simp: stage_file_def)
  have dtype: "get_or (sg_codebook_dtype st) ''float16'' = get_or (sg_codebook_dtype st) ''float32''" using dt by (auto simp: get_or_def)
  obtain c where c: "read_codebook (dx_floats x) (sg_codebook st) g (get_or (sg_codebook_dtype st) ''float32'') (dx_files x) = Inr c"
    "cb = map (map of_rat) c"
    and ix: "read_indices (dx_env x) (sg_indices st) (sg_index_bits st) (ceil_div tot g)
      (get_or (sg_packed st) False) (get_or (sg_encoding st) ''raw'') (dx_files x) = Inr idxs"
    using read st(1) assms(2) by (auto simp: read_stage_arrays_def Let_def bind_err_eq_Inr)
  have "map (map (\<lambda>v. half x (of_rat v))) c = cb"
    using rows unfolding c(2) by (auto intro!: map_cong)
  then show thesis using that [of cb idxs c] read st ix c(1) len rows range by (simp add: dtype)
qed

lemma register_stage_ok:
  assumes "stage_file x g tot sk" and "0 < g" and "0 < tot"
  obtains cb idxs buf where "read_stage_arrays x (fst sk) g tot = Inr (cb, idxs)"
    and "register_stage x g tot sk = Inr (buf, cb)" and "stage_indices_int buf = idxs"
    and "length idxs = ceil_div tot g" and "\<forall>r \<in> set cb. length r = g" and "\<forall>i \<in> set idxs. 0 \<le> i \<and> i < int (length cb)"
    and "length cb = snd sk"
proof -
  obtain st k where sk: "sk = (st, k)" by (cases sk)
  obtain cb idxs c where read: "read_stage_arrays x st g tot = Inr (cb, idxs)" and st: "get_or (sg_group_size st) g = g" "k \<le> 2 ^ 31"
    and ix: "read_indices (dx_env x) (sg_indices st) (sg_index_bits st) (ceil_div tot g)
      (get_or (sg_packed st) False) (get_or (sg_encoding st) ''raw'') (dx_files x) = Inr idxs"
    and c: "read_codebook (dx_floats x) (sg_codebook st) g (get_or (sg_codebook_dtype st) ''float16'') (dx_files x) = Inr c"
    and cast_cb: "map (map (\<lambda>v. half x (of_rat v))) c = cb" and len: "length cb = k" "length idxs = ceil_div tot g"
    and rows: "\<forall>r \<in> set cb. length r = g" and range: "\<forall>i \<in> set idxs. 0 \<le> i \<and> i < int k"
    by (rule stage_file_reads [OF assms(1) [unfolded sk] assms(2)])
  have "0 < ceil_div tot g" using ceil_div_mult_ge [OF assms(2), of tot] assms(3) by (cases "ceil_div tot g") auto
  then have ne: "idxs \<noteq> []" using len(2) by auto
  obtain buf where buf: "(if plane_width k \<noteq> 0 then
      bind_err (lift_err FormatFail (pack_index_planes (plane_width k) (map (\<lambda>i. nat (i mod 2 ^ 64)) idxs))) (\<lambda>(lo, hi).
      bind_err (copy_vec (ceil_div tot g) lo) (\<lambda>lo'.
      bind_err (copy_vec (ceil_div (ceil_div tot g * (plane_width k - 8)) 8) hi) (\<lambda>hi'. Inr (Planes (plane_width k) lo' hi'))))
    else bind_err (copy_vec (ceil_div tot g) (map (cast_int (index_dtype k)) idxs)) (\<lambda>v. Inr (Flat (index_dtype k) v))) = Inr buf"
    "stage_indices_int buf = idxs"
  proof (cases "plane_width k \<noteq> 0")
    case True
    let ?xs = "map (\<lambda>i. nat (i mod 2 ^ 64)) idxs"
    note w = plane_width_cases [OF True]
    have xs: "?xs = map nat idxs" using range st(2) by (intro map_cong) (auto simp: mod_pos_pos_trivial)
    have "nat i < k" if "i \<in> set idxs" for i using range that by (simp add: nat_less_iff)
    then have "v < 2 ^ plane_width k" if "v \<in> set (map nat idxs)" for v
      using that w(2) by (metis (no_types, lifting) imageE less_le_trans list.set_map)
    then have "\<forall>v \<in> set (map nat idxs). v < 2 ^ plane_width k" by blast
    moreover have "map nat idxs \<noteq> []" using ne by simp
    ultimately obtain lo hi where p: "pack_index_planes (plane_width k) (map nat idxs) = Inr (lo, hi)" "length lo = length idxs"
      "length hi = ceil_div (length idxs * (plane_width k - 8)) 8" "stage_indices_int (Planes (plane_width k) lo hi) = map int (map nat idxs)"
      using planes_hold [OF w(1)] by (metis length_map)
    moreover have "map int (map nat idxs) = idxs" using range by (simp add: map_idI)
    ultimately show thesis
      using that [of "Planes (plane_width k) lo hi", unfolded xs] True by (simp add: len(2))
  next
    case False
    have "map (cast_int (index_dtype k)) idxs = idxs" using range st(2) by (intro map_idI cast_index) auto
    then show thesis using that [of "Flat (index_dtype k) idxs"] False len(2) by (simp add: stage_indices_int_def)
  qed
  have "register_stage x g tot sk = Inr (buf, cb)"
    unfolding register_stage_def sk fst_conv snd_conv Let_def st(1) c ix lift_err_simps bind_err_simps buf(1) cast_cb
    using assms(2) len(1) by (simp add: copy_rows_def)
  then show thesis using that [of cb idxs buf] read buf(2) len rows range by (auto simp: sk)
qed

text \<open>All stages: the pairs the decoder reads are the pairs the buffers hold.\<close>

lemma register_stages_ok:
  assumes "\<forall>sk \<in> set sks. stage_file x g tot sk" and "0 < g" and "0 < tot"
  obtains pairs bufs where "mapM (\<lambda>sk. read_stage_arrays x (fst sk) g tot) sks = Inr pairs"
    and "mapM (register_stage x g tot) sks = Inr bufs"
    and "map (\<lambda>(buf, cb). (cb, stage_indices_int buf)) bufs = pairs"
    and "\<forall>(cb, idxs) \<in> set pairs. length idxs = ceil_div tot g \<and> (\<forall>r \<in> set cb. length r = g) \<and> (\<forall>i \<in> set idxs. 0 \<le> i \<and> i < int (length cb))"
    and "map (\<lambda>b. length (snd b)) bufs = map snd sks"
  using assms(1)
proof (induction sks arbitrary: thesis)
  case Nil
  show ?case by (rule Nil.prems(1) [of "[]" "[]"]) simp_all
next
  case (Cons sk sks)
  have tail: "\<forall>sk \<in> set sks. stage_file x g tot sk" using Cons.prems(2) by (meson list.set_intros(2))
  obtain pairs bufs where IH: "mapM (\<lambda>sk. read_stage_arrays x (fst sk) g tot) sks = Inr pairs"
    "mapM (register_stage x g tot) sks = Inr bufs" "map (\<lambda>(buf, cb). (cb, stage_indices_int buf)) bufs = pairs"
    "\<forall>(cb, idxs) \<in> set pairs. length idxs = ceil_div tot g \<and> (\<forall>r \<in> set cb. length r = g) \<and> (\<forall>i \<in> set idxs. 0 \<le> i \<and> i < int (length cb))"
    "map (\<lambda>b. length (snd b)) bufs = map snd sks"
    by (rule Cons.IH [OF _ tail]) (rule that)
  have "stage_file x g tot sk" using Cons.prems(2) by simp
  then obtain cb idxs buf where h: "read_stage_arrays x (fst sk) g tot = Inr (cb, idxs)"
    "register_stage x g tot sk = Inr (buf, cb)" "stage_indices_int buf = idxs"
    "length idxs = ceil_div tot g" "\<forall>r \<in> set cb. length r = g" "\<forall>i \<in> set idxs. 0 \<le> i \<and> i < int (length cb)" "length cb = snd sk"
    using register_stage_ok [OF _ assms(2,3)] by metis
  show ?case
    by (rule Cons.prems(1) [of "(cb, idxs) # pairs" "(buf, cb) # bufs"]) (use IH h in simp_all)
qed


section \<open>The order of the buffers does not matter\<close>

lemma foldM_mapM: "mapM r xs = Inr ys \<Longrightarrow> foldM (\<lambda>a x. bind_err (r x) (f a)) s xs = foldM f s ys"
proof (induction xs arbitrary: ys s)
  case (Cons x xs)
  then obtain z zs where z: "r x = Inr z" "mapM r xs = Inr zs" "ys = z # zs" by (auto simp: bind_err_eq_Inr)
  then show ?case using Cons.IH [OF z(2)] by (cases "f s z") simp_all
qed simp

lemma foldM_map: "foldM f s (map g xs) = foldM (\<lambda>a x. f a (g x)) s xs"
proof (induction xs arbitrary: s)
  case (Cons x xs)
  then show ?case by (cases "f s (g x)") simp_all
qed simp

lemma foldM_cong: "(\<And>a x. x \<in> set xs \<Longrightarrow> f a x = h a x) \<Longrightarrow> foldM f s xs = foldM h s xs"
proof (induction xs arbitrary: s)
  case (Cons x xs)
  then show ?case by (cases "h s x") auto
qed simp

lemma transpose_flat_twice:
  assumes "length xs = r * c"
  shows "transpose_flat c r (transpose_flat r c xs) = xs"
proof (rule nth_equalityI)
  fix i assume "i < length (transpose_flat c r (transpose_flat r c xs))"
  then have i: "i < r * c" by (simp add: transpose_flat_def mult.commute)
  then have c: "0 < c" by (cases c) simp_all
  have q: "i div c < r" using i by (simp add: less_mult_imp_div_less)
  have "i mod c * r + i div c < c * r"
  proof -
    have "i mod c * r + i div c < i mod c * r + r" using q by simp
    also have "\<dots> = Suc (i mod c) * r" by simp
    also have "\<dots> \<le> c * r" using c by (intro mult_le_mono1) (simp add: Suc_leI)
    finally show ?thesis .
  qed
  then have j: "i mod c * r + i div c < r * c" by (simp add: mult.commute)
  have "(i mod c * r + i div c) mod r = i div c" "(i mod c * r + i div c) div r = i mod c" using q by simp_all
  then show "transpose_flat c r (transpose_flat r c xs) ! i = xs ! i"
    using i j by (simp add: transpose_flat_def mult.commute)
qed (simp add: transpose_flat_def assms mult.commute)

lemma length_transpose_flat [simp]: "length (transpose_flat r c xs) = r * c"
  by (simp add: transpose_flat_def)

lemma row_major_twice:
  assumes "length xs = ly_out l * q" and "ly_group_major l" and "n = ly_out l * q"
  shows "row_major l n (transpose_flat (ly_out l) q xs) = xs"
proof (cases "ly_out l = 0")
  case True
  then show ?thesis using assms by (simp add: row_major_def transpose_flat_def)
next
  case False
  then show ?thesis using assms transpose_flat_twice [OF assms(1)] by (simp add: row_major_def)
qed

lemma add_into_length: "add_into acc v = Inr r \<Longrightarrow> length r = length acc"
  by (auto simp: add_into_def split: if_splits)

lemma stage_sum_length:
  assumes "stage_sum l = Inr d" and "0 < ly_group l"
  shows "length d = ly_out l * ly_in l"
proof -
  let ?n = "ceil_div (ly_out l * ly_in l) (ly_group l) * ly_group l"
  obtain d0 where d0: "foldM (\<lambda>acc (buf, cb). bind_err (mapM (py_get BadIndex cb)
        (row_major l (ly_out l * ly_in l div ly_group l) (stage_indices_int buf))) (\<lambda>rows. add_into acc (concat rows)))
      (replicate ?n 0) (zip (ly_index l) (ly_codebooks l)) = Inr d0" "d = take (ly_out l * ly_in l) d0"
    using assms(1) by (auto simp: stage_sum_def Let_def bind_err_eq_Inr)
  have "length d0 = ?n" by (rule foldM_invariant [OF d0(1)]) (auto simp: bind_err_eq_Inr dest!: add_into_length)
  moreover have "ly_out l * ly_in l \<le> ?n" using ceil_div_mult_ge [OF assms(2), of "ly_out l * ly_in l"] by (simp add: mult.commute)
  ultimately show ?thesis using d0(2) by simp
qed

lemma to_group_major_weight:
  assumes "\<not> ly_group_major l" and "0 < ly_group l" and "0 < ly_block l"
  shows "scaled_weight (to_group_major l) = scaled_weight l" and "reconstruct_weight (to_group_major l) = reconstruct_weight l"
proof -
  show sw: "scaled_weight (to_group_major l) = scaled_weight l"
  proof (cases "to_group_major l = l")
    case False
    let ?l = "to_group_major l" and ?gpr = "ly_in l div ly_group l" and ?bpr = "ly_in l div ly_block l"
    have ok: "\<not> list_ex is_planes (ly_index l)" "ly_in l mod ly_group l = 0" "ly_in l mod ly_block l = 0"
      "list_all (\<lambda>b. length (stage_indices_int b) = ly_out l * ?gpr) (ly_index l)" "length (ly_scales l) = ly_out l * ?bpr"
      and l: "?l = l\<lparr>ly_index := map (transpose_index (ly_out l) ?gpr) (ly_index l),
        ly_scales := transpose_flat (ly_out l) ?bpr (ly_scales l), ly_group_major := True\<rparr>"
      using False unfolding to_group_major_def Let_def by (auto split: if_splits)
    have dims: "ly_out ?l = ly_out l" "ly_in ?l = ly_in l" "ly_group ?l = ly_group l" "ly_block ?l = ly_block l"
      "ly_codebooks ?l = ly_codebooks l" "ly_group_major ?l" by (simp_all add: l)
    have gdvd: "ly_group l dvd ly_in l" "ly_block l dvd ly_in l" using ok(2,3) by (simp_all add: dvd_eq_mod_eq_0)
    have tg: "ly_out l * ly_in l div ly_group l = ly_out l * ?gpr" using gdvd(1) by (simp add: div_mult_swap)
    have idx: "row_major ?l (ly_out l * ?gpr) (stage_indices_int (transpose_index (ly_out l) ?gpr b)) = stage_indices_int b"
      if mem: "b \<in> set (ly_index l)" for b
    proof -
      obtain dt v where b: "b = Flat dt v" using ok(1) mem by (cases b) (auto simp: list_ex_iff)
      have "length v = ly_out l * ?gpr" using ok(4) mem by (auto simp: list_all_iff b stage_indices_int_def)
      then have "row_major ?l (ly_out l * ?gpr) (transpose_flat (ly_out l) ?gpr v) = v"
        by (rule row_major_twice [where l = ?l, unfolded dims(1), OF _ dims(6) refl])
      then show ?thesis by (simp only: b stage_indices_int_def transpose_index.simps index_buffer.case)
    qed
    have zips: "zip (ly_index ?l) (ly_codebooks ?l) =
        map (\<lambda>(b, cb). (transpose_index (ly_out l) ?gpr b, cb)) (zip (ly_index l) (ly_codebooks l))"
      by (simp add: l zip_map1)
    have "stage_sum ?l = stage_sum l"
      unfolding stage_sum_def Let_def zips foldM_map
      unfolding dims(1-3) tg
      by (intro arg_cong2 [where f = bind_err] refl foldM_cong)
        (auto simp: idx row_major_def [of l] assms(1) dest!: set_zip_leftD)
    moreover have "row_major ?l (ceil_div (length d) (ly_block l)) (ly_scales ?l) = ly_scales l"
      if "stage_sum l = Inr d" for d
    proof -
      have "length d = ly_out l * ?bpr * ly_block l" using stage_sum_length [OF that assms(2)] gdvd(2) by (simp add: mult.assoc)
      then have "ceil_div (length d) (ly_block l) = ly_out l * ?bpr" using ceil_div_exact [OF assms(3)] by simp
      moreover have "ly_scales ?l = transpose_flat (ly_out l) ?bpr (ly_scales l)" by (simp add: l)
      ultimately show ?thesis
        by (simp only:) (rule row_major_twice [where l = ?l, unfolded dims(1), OF ok(5) dims(6) refl])
    qed
    ultimately show ?thesis
      unfolding scaled_weight_def Let_def dims(4) using assms(1)
      by (cases "stage_sum l") (simp_all add: row_major_def [of l])
  qed simp
  have "ly_in (to_group_major l) = ly_in l" "correction_csr (to_group_major l) = correction_csr l"
    by (auto simp: to_group_major_def Let_def correction_csr_def)
  then show "reconstruct_weight (to_group_major l) = reconstruct_weight l"
    by (simp add: reconstruct_weight_def sw cong: option.case_cong)
qed


section \<open>The weight without overrides\<close>

lemma scale_blocks_map:
  assumes "0 < bs" and "length s = ceil_div (length d) bs"
  shows "take (length d) (concat (map2 (\<lambda>b f. map (\<lambda>v. v * f) b) (blocks_of bs (padded bs d)) s)) =
    map (\<lambda>i. d ! i * s ! (i div bs)) [0..<length d]"
    and "length s = length (blocks_of bs (padded bs d))"
proof -
  let ?B = "blocks_of bs (padded bs d)"
  let ?S = "map2 (\<lambda>b f. map (\<lambda>v. v * f) b) ?B s"
  have c: "cuts bs (length d) ?B" by (rule cuts_padded [OF assms(1)])
  then show len: "length s = length ?B" using cuts_count [OF assms(1) c] assms(2) by simp
  have lb: "\<forall>b \<in> set ?B. length b = bs" using c unfolding cuts_def by blast
  then have ls: "\<forall>b \<in> set ?S. length b = bs" by (auto dest: set_zip_leftD)
  have n: "length d \<le> bs * length ?B" using ceil_div_mult_ge [OF assms(1), of "length d"] len assms(2) by simp
  have total: "length (concat ?S) = bs * length ?B" using length_concat_blocks [OF ls] len by simp
  show "take (length d) (concat ?S) = map (\<lambda>i. d ! i * s ! (i div bs)) [0..<length d]"
  proof (rule nth_equalityI)
    fix i assume "i < length (take (length d) (concat ?S))"
    then have i: "i < length d" by simp
    then have q: "i div bs < length ?B" using n by (simp add: less_mult_imp_div_less mult.commute)
    have "concat ?S ! i = ?S ! (i div bs) ! (i mod bs)" using i n len by (intro concat_nth_blocks [OF ls]) simp
    also have "\<dots> = ?B ! (i div bs) ! (i mod bs) * s ! (i div bs)" using q len lb assms(1) by simp
    also have "?B ! (i div bs) ! (i mod bs) = concat ?B ! i" using i n by (intro concat_nth_blocks [OF lb, symmetric]) simp
    also have "\<dots> = d ! i" using i assms(1) by (simp add: padded_def nth_append)
    finally show "take (length d) (concat ?S) ! i = map (\<lambda>i. d ! i * s ! (i div bs)) [0..<length d] ! i" using i by simp
  qed (use total n in simp)
qed

text \<open>What the decoder multiplies by is what the layer loads.\<close>

definition plain_entry :: "tensor_meta \<Rightarrow> bool" where
  "plain_entry tm \<longleftrightarrow> get_or (tm_rotation tm) ''none'' \<notin> {''orthogonal'', ''hadamard''} \<and> tm_pillars tm = None \<and> tm_lowrank tm = None \<and>
     get_or (tm_normalization tm) ''none'' \<notin> {''awq'', ''awq-block-max''}"

definition exact_scales :: "decode_env \<Rightarrow> tensor_meta \<Rightarrow> bool" where
  "exact_scales x tm \<longleftrightarrow> (\<forall>s. read_scales x tm = Inr s \<longrightarrow> (\<forall>v \<in> set s. half x v = v))"

lemma serving_scales:
  fixes tm
  defines "bs \<equiv> or_nat (tm_block_scale_size tm) 32"
  assumes "plain_entry tm" and "exact_scales x tm" and "denormalize_numpy x tm d = Inr r"
  obtains snp sc where "register_scales x tm bs (length d) = Inr (snp, sc)" and "length sc = ceil_div (length d) bs"
    and "\<And>p. p < length d \<Longrightarrow> scale_at bs snp (int p) = Inr (sc ! (p div bs))"
    and "\<And>d'. length d' = length d \<Longrightarrow> denormalize_numpy x tm d' = Inr (map (\<lambda>i. d' ! i * sc ! (i div bs)) [0..<length d])"
proof -
  let ?norm = "get_or (tm_normalization tm) ''none''"
  have bs: "0 < bs" by (auto simp: bs_def or_nat_def split: option.splits)
  have q: "p div bs < ceil_div (length d) bs" if "p < length d" for p
    using that ceil_div_mult_ge [OF bs, of "length d"] by (simp add: less_mult_imp_div_less mult.commute)
  show thesis
  proof (cases "stores_block_scales ?norm")
    case True
    then have blk: "?norm = ''block-max'' \<or> ?norm = ''channel-block-max'' \<or> ?norm = ''slrq-block''"
      using assms(2) by (auto simp: plain_entry_def stores_block_scales_def BLOCK_SCALE_NORMALIZATIONS_def)
    then have dn: "denormalize_numpy x tm d' = bind_err (read_scales x tm) (\<lambda>s. lift_err NormFail (apply_block_scales d' s bs ''numpy''))" for d'
      by (auto simp: denormalize_numpy_def Let_def bs_def)
    obtain s where s: "read_scales x tm = Inr s" "apply_block_scales d s bs ''numpy'' = Inr r"
      using assms(4) by (auto simp: dn bind_err_eq_Inr)
    have ls: "length s = ceil_div (length d) bs"
      using s(2) cuts_count [OF bs cuts_padded [OF bs, of d]] bs
      by (auto simp: apply_block_scales_def block_max_scales_numpy_def Let_def split: if_splits)
    have ex: "map (half x) s = s" using assms(3) s(1) by (intro map_idI) (simp add: exact_scales_def)
    show thesis
    proof (rule that [of "Some s" s])
      show "register_scales x tm bs (length d) = Inr (Some s, s)" using True s(1) ls ex by (simp add: register_scales_def)
      show "length s = ceil_div (length d) bs" by (rule ls)
      show "scale_at bs (Some s) (int p) = Inr (s ! (p div bs))" if "p < length d" for p
        using q [OF that] ls by (simp add: scale_at_def flip: of_nat_div)
      show "denormalize_numpy x tm d' = Inr (map (\<lambda>i. d' ! i * s ! (i div bs)) [0..<length d])" if "length d' = length d" for d'
        using scale_blocks_map [OF bs, of s d'] ls that bs
        by (simp add: dn s(1) apply_block_scales_def block_max_scales_numpy_def Let_def)
    qed
  next
    case False
    have dn: "denormalize_numpy x tm d' = Inr d'" for d'
      using assms(2) False by (simp add: denormalize_numpy_def Let_def plain_entry_def stores_block_scales_def BLOCK_SCALE_NORMALIZATIONS_def)
    show thesis
    proof (rule that [of None "replicate (ceil_div (length d) bs) 1"])
      show "denormalize_numpy x tm d' = Inr (map (\<lambda>i. d' ! i * replicate (ceil_div (length d) bs) 1 ! (i div bs)) [0..<length d])"
        if "length d' = length d" for d' using that q by (auto simp: dn intro!: nth_equalityI)
    qed (use False q in \<open>simp_all add: register_scales_def scale_at_def\<close>)
  qed
qed


text \<open>The sum of the stages, position by position.\<close>

definition stage_add :: "real list \<Rightarrow> real list list \<times> int list \<Rightarrow> decode_error + real list" where
  "stage_add acc ci = bind_err (mapM (py_get BadIndex (fst ci)) (snd ci)) (\<lambda>rows. add_into acc (concat rows))"

definition stage_fits :: "nat \<Rightarrow> nat \<Rightarrow> real list list \<times> int list \<Rightarrow> bool" where
  "stage_fits n g ci \<longleftrightarrow> length (snd ci) = n \<and> (\<forall>r \<in> set (fst ci). length r = g) \<and>
     (\<forall>i \<in> set (snd ci). 0 \<le> i \<and> i < int (length (fst ci)))"

lemma stage_add_value:
  assumes "stage_fits n g ci" and "length acc = n * g"
  shows "stage_add acc ci = Inr (map (\<lambda>p. acc ! p + fst ci ! nat (snd ci ! (p div g)) ! (p mod g)) [0..<n * g])"
proof -
  let ?rows = "map (\<lambda>i. fst ci ! nat i) (snd ci)"
  have rows: "mapM (py_get BadIndex (fst ci)) (snd ci) = Inr ?rows"
    using assms(1) by (intro mapM_Inr) (simp add: stage_fits_def)
  have width: "\<forall>r \<in> set ?rows. length r = g"
    using assms(1) by (auto simp: stage_fits_def nat_less_iff)
  have len: "length ?rows = n" "length (concat ?rows) = n * g"
    using assms(1) length_concat_blocks [OF width] by (simp_all add: stage_fits_def mult.commute)
  have at: "concat ?rows ! p = fst ci ! nat (snd ci ! (p div g)) ! (p mod g)" if "p < n * g" for p
  proof -
    have "concat ?rows ! p = ?rows ! (p div g) ! (p mod g)" using that len(1) by (intro concat_nth_blocks [OF width]) (simp add: mult.commute)
    moreover have "p div g < length (snd ci)" using that len(1) by (simp add: less_mult_imp_div_less)
    ultimately show ?thesis by simp
  qed
  have "map2 (+) acc (concat ?rows) = map (\<lambda>p. acc ! p + fst ci ! nat (snd ci ! (p div g)) ! (p mod g)) [0..<n * g]"
    by (rule nth_equalityI) (use assms(2) len(2) at in simp_all)
  then show ?thesis using rows len(2) assms(2) by (simp add: stage_add_def add_into_def)
qed

lemma stage_adds_value:
  assumes "\<forall>ci \<in> set css. stage_fits n g ci" and "length acc = n * g"
  shows "foldM stage_add acc css =
    Inr (map (\<lambda>p. acc ! p + (\<Sum>ci\<leftarrow>css. fst ci ! nat (snd ci ! (p div g)) ! (p mod g))) [0..<n * g])"
  using assms
proof (induction css arbitrary: acc)
  case Nil
  have "map ((!) acc) [0..<n * g] = acc" using Nil.prems(2) map_nth [of acc] by simp
  then show ?case by simp
next
  case (Cons ci css)
  have step: "stage_add acc ci = Inr (map (\<lambda>p. acc ! p + fst ci ! nat (snd ci ! (p div g)) ! (p mod g)) [0..<n * g])"
    using Cons.prems by (intro stage_add_value) simp_all
  show ?case
    unfolding foldM.simps step bind_err_simps
    by (subst Cons.IH) (use Cons.prems in \<open>auto simp: add.assoc\<close>)
qed

text \<open>One stage of a layer: its codebook with its indices.\<close>

abbreviation stage_pair :: "index_buffer \<times> real list list \<Rightarrow> real list list \<times> int list" where
  "stage_pair bc \<equiv> (snd bc, stage_indices_int (fst bc))"

lemma codeword_at_value:
  assumes "\<forall>bc \<in> set bufs. stage_fits n g (stage_pair bc)" and "p < n * g"
  shows "codeword_at g bufs (int p) = Inr (\<Sum>bc\<leftarrow>bufs. snd bc ! nat (stage_indices_int (fst bc) ! (p div g)) ! (p mod g))"
proof -
  have g: "0 < g" "p div g < n" using assms(2) by (cases g; simp add: less_mult_imp_div_less)+
  have "foldM (\<lambda>acc (buf, cb).
         bind_err (py_get BadIndex (stage_indices_int buf) (int p div int g)) (\<lambda>i.
         bind_err (py_get BadIndex cb i) (\<lambda>row.
         bind_err (py_get BadIndex row (int p mod int g)) (\<lambda>v. Inr (acc + v))))) acc bufs =
      Inr (acc + (\<Sum>bc\<leftarrow>bufs. snd bc ! nat (stage_indices_int (fst bc) ! (p div g)) ! (p mod g)))" for acc :: real
    using assms(1)
  proof (induction bufs arbitrary: acc)
    case (Cons bc bufs)
    obtain buf cb where bc: "bc = (buf, cb)" by (cases bc)
    let ?i = "stage_indices_int buf ! (p div g)"
    have fit: "length (stage_indices_int buf) = n" "\<forall>r \<in> set cb. length r = g" "\<forall>i \<in> set (stage_indices_int buf). 0 \<le> i \<and> i < int (length cb)"
      using Cons.prems by (simp_all add: bc stage_fits_def)
    have i: "py_get BadIndex (stage_indices_int buf) (int p div int g) = Inr ?i"
      using g(2) fit(1) by (simp add: py_get_nat flip: of_nat_div)
    have range: "0 \<le> ?i" "?i < int (length cb)" using g(2) fit(1,3) by simp_all
    then have row: "py_get BadIndex cb ?i = Inr (cb ! nat ?i)" by simp
    have "length (cb ! nat ?i) = g" using fit(2) range by (simp add: nat_less_iff)
    then have v: "py_get BadIndex (cb ! nat ?i) (int p mod int g) = Inr (cb ! nat ?i ! (p mod g))"
      using g(1) by (simp add: py_get_nat flip: of_nat_mod)
    show ?case
      unfolding bc foldM.simps prod.case i row v bind_err_simps
      using Cons.IH Cons.prems by (simp add: add.assoc)
  qed simp
  from this [of 0] show ?thesis by (simp add: codeword_at_def)
qed

text \<open>The stages of a manifest entry, with the codebook sizes recorded beside them.\<close>

definition servable :: "decode_env \<Rightarrow> tensor_meta \<Rightarrow> nat list \<Rightarrow> bool" where
  "servable x tm cb_sizes \<longleftrightarrow> (\<exists>stages. resolve_stages tm = Inr stages \<and> length cb_sizes = length stages \<and>
     (let tot = prod_list (tm_shape tm); g = tm_group_size tm
      in 0 < g \<and> tm_shape tm \<noteq> [] \<and> 0 < tot \<and> tot < 2 ^ 31 \<and> tm_packed_values tm = tot \<and>
         ceil_div (tm_padded_values tm) g = ceil_div tot g \<and> (\<forall>sk \<in> set (zip stages cb_sizes). stage_file x g tot sk)))"

lemma servable_stages:
  assumes "servable x tm cb_sizes"
  obtains stages bufs raw where "resolve_stages tm = Inr stages"
    and "mapM (register_stage x (tm_group_size tm) (prod_list (tm_shape tm))) (zip stages cb_sizes) = Inr bufs"
    and "decode_stages x tm = Inr raw" and "prod_list (tm_shape tm) \<le> length raw"
    and "\<And>l. ly_out l * ly_in l = prod_list (tm_shape tm) \<Longrightarrow> ly_group l = tm_group_size tm \<Longrightarrow> \<not> ly_group_major l \<Longrightarrow>
      ly_index l = map fst bufs \<Longrightarrow> ly_codebooks l = map snd bufs \<Longrightarrow> stage_sum l = Inr (take (prod_list (tm_shape tm)) raw)"
    and "\<And>p. p < prod_list (tm_shape tm) \<Longrightarrow> codeword_at (tm_group_size tm) bufs (int p) = Inr (raw ! p)"
    and "\<forall>bc \<in> set bufs. stage_fits (ceil_div (prod_list (tm_shape tm)) (tm_group_size tm)) (tm_group_size tm) (stage_pair bc)"
proof -
  let ?tot = "prod_list (tm_shape tm)" and ?g = "tm_group_size tm"
  let ?n = "ceil_div ?tot ?g"
  obtain stages where st: "resolve_stages tm = Inr stages" "length cb_sizes = length stages" "0 < ?g" "0 < ?tot"
    "ceil_div (tm_padded_values tm) ?g = ?n" "\<forall>sk \<in> set (zip stages cb_sizes). stage_file x ?g ?tot sk"
    using assms by (auto simp: servable_def Let_def)
  obtain pairs bufs where pb: "mapM (\<lambda>sk. read_stage_arrays x (fst sk) ?g ?tot) (zip stages cb_sizes) = Inr pairs"
    "mapM (register_stage x ?g ?tot) (zip stages cb_sizes) = Inr bufs"
    "map (\<lambda>(buf, cb). (cb, stage_indices_int buf)) bufs = pairs"
    "\<forall>(cb, idxs) \<in> set pairs. length idxs = ?n \<and> (\<forall>r \<in> set cb. length r = ?g) \<and> (\<forall>i \<in> set idxs. 0 \<le> i \<and> i < int (length cb))"
    by (rule register_stages_ok [OF st(6,3,4)]) (rule that)
  have pairs: "pairs = map stage_pair bufs" using pb(3) by (simp add: split_def)
  have fits: "\<forall>ci \<in> set pairs. stage_fits ?n ?g ci" using pb(4) by (auto simp: stage_fits_def)
  let ?raw = "map (\<lambda>p. \<Sum>ci\<leftarrow>pairs. fst ci ! nat (snd ci ! (p div ?g)) ! (p mod ?g)) [0..<?n * ?g]"
  have total: "?tot \<le> ?n * ?g" using ceil_div_mult_ge [OF st(3), of ?tot] by (simp add: mult.commute)
  have sum: "foldM stage_add (replicate (?n * ?g) 0) pairs = Inr ?raw"
    using stage_adds_value [OF fits, of "replicate (?n * ?g) 0"] by simp
  have same: "read_stage_arrays x (fst sk) ?g (tm_padded_values tm) = read_stage_arrays x (fst sk) ?g ?tot" if "sk \<in> set (zip stages cb_sizes)" for sk
    using st(5,6) that by (auto simp: read_stage_arrays_def Let_def stage_file_def)
  let ?F = "\<lambda>acc st. bind_err (read_stage_arrays x st ?g (tm_padded_values tm)) (\<lambda>(cb, idxs).
        bind_err (mapM (py_get BadIndex cb) idxs) (\<lambda>rows. add_into acc (concat rows)))"
  have "foldM ?F (replicate (?n * ?g) 0) stages = foldM ?F (replicate (?n * ?g) 0) (map fst (zip stages cb_sizes))"
    using st(2) by simp
  also have "\<dots> = foldM (\<lambda>acc sk. ?F acc (fst sk)) (replicate (?n * ?g) 0) (zip stages cb_sizes)" by (rule foldM_map)
  also have "\<dots> = foldM (\<lambda>acc sk. bind_err (read_stage_arrays x (fst sk) ?g ?tot) (stage_add acc)) (replicate (?n * ?g) 0) (zip stages cb_sizes)"
  proof (rule foldM_cong)
    fix acc sk assume "sk \<in> set (zip stages cb_sizes)"
    then show "?F acc (fst sk) = bind_err (read_stage_arrays x (fst sk) ?g ?tot) (stage_add acc)"
      unfolding same [OF \<open>sk \<in> _\<close>]
      by (intro arg_cong2 [where f = bind_err] refl ext) (simp add: stage_add_def split_def)
  qed
  also have "\<dots> = Inr ?raw" using foldM_mapM [OF pb(1), of stage_add] sum by simp
  finally have raw: "decode_stages x tm = Inr ?raw"
    using st(1,3,5) by (simp add: decode_stages_def Let_def)
  have layer: "stage_sum l = Inr (take ?tot ?raw)" if dims: "ly_out l * ly_in l = ?tot" "ly_group l = ?g" "\<not> ly_group_major l"
    and stages: "ly_index l = map fst bufs" "ly_codebooks l = map snd bufs" for l
  proof -
    have "zip (ly_index l) (ly_codebooks l) = bufs" using stages by (simp add: List.zip_map_fst_snd)
    moreover have "foldM (\<lambda>acc (buf, cb). bind_err (mapM (py_get BadIndex cb) (stage_indices_int buf)) (\<lambda>rows. add_into acc (concat rows)))
        (replicate (?n * ?g) 0) bufs = foldM stage_add (replicate (?n * ?g) 0) pairs"
      unfolding pairs foldM_map by (auto intro!: foldM_cong simp: stage_add_def split_def)
    ultimately show ?thesis
      using dims sum by (simp add: stage_sum_def Let_def row_major_def)
  qed
  have fit: "\<forall>bc \<in> set bufs. stage_fits ?n ?g (stage_pair bc)" using fits by (simp add: pairs)
  have cw: "codeword_at ?g bufs (int p) = Inr (?raw ! p)" if "p < ?tot" for p
    using codeword_at_value [OF fit, of p] that total by (simp add: pairs comp_def)
  show thesis by (rule that [OF st(1) pb(2) raw _ layer cw fit]) (use total in simp_all)
qed


section \<open>Overrides\<close>

lemma put_values_range: "put_values d pvs = Inr d' \<Longrightarrow> (p, v) \<in> set pvs \<Longrightarrow> p < int (length d)"
  by (induction d pvs rule: put_values.induct) (auto simp: Let_def split: if_splits)

text \<open>When positions repeat the last value is the one left.\<close>

lemma put_values_last:
  assumes "\<forall>(p, v) \<in> set pvs. 0 \<le> p \<and> p < int (length d)"
  shows "\<exists>d'. put_values d pvs = Inr d' \<and> length d' = length d \<and>
    (\<forall>i < length d. d' ! i = (case map_of (rev pvs) (int i) of Some v \<Rightarrow> v | None \<Rightarrow> d ! i))"
  using assms
proof (induction d pvs rule: put_values.induct)
  case (2 d p v pvs)
  let ?d = "d[nat p := v]"
  have p: "0 \<le> p" "p < int (length d)" "\<not> p < 0" using "2.prems" by auto
  then have step: "put_values d ((p, v) # pvs) = put_values ?d pvs" by (simp add: Let_def)
  have "\<exists>d'. put_values ?d pvs = Inr d' \<and> length d' = length ?d \<and>
      (\<forall>i < length ?d. d' ! i = (case map_of (rev pvs) (int i) of Some v \<Rightarrow> v | None \<Rightarrow> ?d ! i))"
    using "2.IH" [OF refl] "2.prems" p(1,2) unfolding if_not_P [OF p(3)] by simp
  then obtain d' where d': "put_values ?d pvs = Inr d'" "length d' = length ?d"
    "\<forall>i < length ?d. d' ! i = (case map_of (rev pvs) (int i) of Some v \<Rightarrow> v | None \<Rightarrow> ?d ! i)" by blast
  have "d' ! i = (case map_of (rev ((p, v) # pvs)) (int i) of Some v \<Rightarrow> v | None \<Rightarrow> d ! i)" if "i < length d" for i
    using d'(3) that p by (cases "int i = p") (auto simp: nth_list_update map_add_def split: option.splits)
  then show ?case using d' step by auto
qed simp

lemma map_of_dict_update: "map_of (dict_update kvs d) k = (case map_of (rev kvs) k of Some v \<Rightarrow> Some v | None \<Rightarrow> map_of d k)"
  unfolding dict_update_def by (induction kvs arbitrary: d) (auto simp: map_add_def split: option.splits)

lemma fst_dict_put: "map fst (dict_put k v d) = (if k \<in> set (map fst d) then map fst d else map fst d @ [k])"
proof -
  have "map fst (map (\<lambda>(k', w). (k', if k' = k then v else w)) d) = map fst d" by (induction d) auto
  then show ?thesis by (simp add: dict_put_def)
qed

lemma fst_dict_update: "set (map fst (dict_update kvs d)) = set (map fst kvs) \<union> set (map fst d)"
    "distinct (map fst d) \<Longrightarrow> distinct (map fst (dict_update kvs d))"
  unfolding dict_update_def
  by (induction kvs arbitrary: d) (auto simp: fst_dict_put simp del: set_map split: if_splits)

lemma add_values_nth:
  assumes "\<forall>(p, v) \<in> set pvs. 0 \<le> p \<and> p < int (length d)" and "distinct (map fst pvs)"
  shows "\<exists>d'. add_values d pvs = Inr d' \<and> length d' = length d \<and>
    (\<forall>i < length d. d' ! i = d ! i + (case map_of pvs (int i) of Some v \<Rightarrow> v | None \<Rightarrow> 0))"
proof -
  let ?qs = "map (\<lambda>(p, v). (p, d ! nat p + v)) pvs"
  have fetch: "mapM (\<lambda>(p, v). bind_err (py_get BadIndex d p) (\<lambda>w. Inr (p, w + v))) pvs = Inr ?qs"
    using assms(1) by (intro mapM_Inr) auto
  have fst: "map fst ?qs = map fst pvs" by auto
  have "map_of ?qs (int i) = map_option (\<lambda>v. d ! i + v) (map_of pvs (int i))" for i
    by (induction pvs) auto
  moreover obtain d' where "put_values d ?qs = Inr d'" "length d' = length d"
    "\<forall>i < length d. d' ! i = (case map_of ?qs (int i) of Some v \<Rightarrow> v | None \<Rightarrow> d ! i)"
  proof -
    have "\<forall>(p, v) \<in> set ?qs. 0 \<le> p \<and> p < int (length d)" using assms(1) by auto
    moreover have "distinct (map fst ?qs)" using assms(2) by (simp only: fst)
    ultimately show thesis using put_values_nth [of ?qs d] that by blast
  qed
  ultimately show ?thesis using fetch by (auto simp: add_values_def split: option.splits)
qed

section \<open>The sparse correction\<close>

lemma rows_from_counts:
  fixes rows :: "int list"
  assumes "sorted rows" and "\<forall>r \<in> set rows. 0 \<le> r \<and> r < int n"
  shows "concat (map (\<lambda>r. replicate (count_list rows (int r)) (int r)) [0..<n]) = rows"
  using assms
proof (induction n arbitrary: rows)
  case (Suc n)
  let ?lo = "filter (\<lambda>r. r < int n) rows" and ?hi = "filter (\<lambda>r. \<not> r < int n) rows"
  have split: "rows = ?lo @ ?hi"
    using Suc.prems(1)
  proof (induction rows)
    case (Cons r rows)
    show ?case
    proof (cases "r < int n")
      case False
      then have "\<forall>s \<in> set rows. \<not> s < int n" using Cons.prems by auto
      then have "filter (\<lambda>r. r < int n) rows = []" "filter (\<lambda>r. \<not> r < int n) rows = rows" by (simp_all add: filter_id_conv)
      then show ?thesis using False by simp
    qed (use Cons in simp)
  qed simp
  have hi: "?hi = replicate (count_list rows (int n)) (int n)"
  proof -
    have "\<forall>r \<in> set ?hi. r = int n" using Suc.prems(2) by fastforce
    then have "?hi = replicate (length ?hi) (int n)" by (metis replicate_eqI)
    moreover have "\<forall>r \<in> set rows. \<not> r < int n \<longleftrightarrow> int n = r" using Suc.prems(2) by fastforce
    then have "?hi = filter ((=) (int n)) rows" by (intro filter_cong) auto
    then have "length ?hi = count_list rows (int n)" by (simp add: count_list_eq_length_filter)
    ultimately show ?thesis by simp
  qed
  have "count_list rows (int r) = count_list ?lo (int r)" if "r < n" for r
    using that by (simp add: count_list_eq_length_filter filter_filter) (metis (mono_tags, lifting) of_nat_less_iff)
  then have "concat (map (\<lambda>r. replicate (count_list rows (int r)) (int r)) [0..<n]) =
      concat (map (\<lambda>r. replicate (count_list ?lo (int r)) (int r)) [0..<n])"
    by (intro arg_cong [where f = concat] map_cong) auto
  also have "\<dots> = ?lo" by (rule Suc.IH) (use Suc.prems sorted_wrt_filter in auto)
  finally show ?case using split hi by simp
next
  case 0
  then show ?case by (cases rows) auto
qed

lemma cast_small: "0 \<le> i \<Longrightarrow> i < 2 ^ 31 \<Longrightarrow> cast_int ''int32'' i = i"
  by (simp add: cast_int_def mod_pos_pos_trivial)


lemma csr_reads_back:
  assumes "0 < n_in" and "n_out * n_in < 2 ^ 31" and "\<forall>(p, v) \<in> set D. 0 \<le> p \<and> p < int (n_out * n_in)" and "distinct (map fst D)"
  obtains c where "csr_of x n_out n_in D = Inr c" and "length (cs_col c) = length D"
    and "csr_rows c = map (\<lambda>(p, v). p div int n_in) (sort_key (\<lambda>(p, v). p div int n_in) D)"
    and "cs_col c = map (\<lambda>(p, v). p mod int n_in) (sort_key (\<lambda>(p, v). p div int n_in) D)"
    and "cs_val c = map (\<lambda>(p, v). half x v) (sort_key (\<lambda>(p, v). p div int n_in) D)"
    and "zip (map2 (\<lambda>r k. r * int n_in + k) (csr_rows c) (cs_col c)) (cs_val c) =
      map (\<lambda>(p, v). (p, half x v)) (sort_key (\<lambda>(p, v). p div int n_in) D)"
proof -
  let ?row = "\<lambda>(p :: int, v :: real). p div int n_in"
  let ?rows = "map ?row D" and ?E = "sort_key ?row D"
  let ?counts = "map (\<lambda>r. int (count_list ?rows (int r))) [0..<n_out]"
  have ne: "\<not> list_ex (\<lambda>r. r < 0) (map (\<lambda>(p, v). p div int n_in) D)"
    using assms(1,3) by (auto simp: list_ex_iff not_less pos_imp_zdiv_nonneg_iff)
  have sorted_rows: "sorted (map ?row ?E)" by simp
  have range: "0 \<le> r \<and> r < int n_out" if mem: "r \<in> set (map ?row ?E)" for r
  proof -
    obtain p v where pv: "(p, v) \<in> set D" "r = p div int n_in" using mem by auto
    then have p: "0 \<le> p" "p < int (n_out * n_in)" using assms(3) by auto
    then obtain q where q: "p = int q" "q < n_out * n_in" by (metis nonneg_int_cases of_nat_less_iff)
    then have "q div n_in < n_out" by (simp add: less_mult_imp_div_less)
    then have "p div int n_in < int n_out" by (simp add: q(1) flip: of_nat_div)
    then show ?thesis using p(1) pv(2) assms(1) by (simp add: pos_imp_zdiv_nonneg_iff)
  qed
  have cnt: "count_list (map ?row ?E) q = count_list ?rows q" for q
    by (simp add: count_list_eq_length_filter filter_map filter_sort)
  have rows: "concat (map (\<lambda>r. replicate (count_list ?rows (int r)) (int r)) [0..<n_out]) = map ?row ?E"
    using rows_from_counts [OF sorted_rows, of n_out] range by (simp only: cnt) blast
  have small: "int (length D) < 2 ^ 31"
  proof -
    define N where "N = n_out * n_in"
    have "set (map fst D) \<subseteq> {0..<int N}" using assms(3) unfolding N_def by auto
    from card_mono [OF finite_atLeastLessThan_int this] have "length D \<le> N" unfolding distinct_card [OF assms(4)] by simp
    then have "length D \<le> n_out * n_in" by (simp only: N_def length_map)
    then have "length D < 2 ^ 31" using assms(2) by linarith
    then show ?thesis by simp
  qed
  have total: "sum_list ?counts = int (length D)"
  proof -
    have "length (concat (map (\<lambda>r. replicate (count_list ?rows (int r)) (int r)) [0..<n_out])) = length D" by (simp only: rows) simp
    then have "(\<Sum>r\<leftarrow>[0..<n_out]. count_list ?rows (int r)) = length D" by (simp add: length_concat comp_def)
    moreover have "sum_list ?counts = int (\<Sum>r\<leftarrow>[0..<n_out]. count_list ?rows (int r))"
      by (simp add: comp_def flip: sum_list_of_nat)
    ultimately show ?thesis by simp
  qed
  have ptr: "cast_int ''int32'' (sum_list (take r ?counts)) = sum_list (take r ?counts)" for r
  proof (rule cast_small)
    have nonneg: "0 \<le> sum_list ks" if "set ks \<subseteq> set ?counts" for ks
      using that by (intro sum_list_nonneg) auto
    show "0 \<le> sum_list (take r ?counts)" by (rule nonneg) (rule set_take_subset)
    have "sum_list ?counts = sum_list (take r ?counts) + sum_list (drop r ?counts)" by (metis append_take_drop_id sum_list_append)
    moreover have "0 \<le> sum_list (drop r ?counts)" by (rule nonneg) (rule set_drop_subset)
    ultimately show "sum_list (take r ?counts) < 2 ^ 31" using total small by linarith
  qed
  define c where "c = \<lparr>cs_rowptr = map (\<lambda>r. cast_int ''int32'' (sum_list (take r ?counts))) [0..<Suc n_out],
      cs_col = map (\<lambda>(p, v). cast_int ''int32'' (p mod int n_in)) ?E, cs_val = map (\<lambda>(p, v). half x v) ?E\<rparr>"
  have csr: "csr_of x n_out n_in D = Inr c" using ne by (simp add: csr_of_def c_def Let_def)
  have cols: "cs_col c = map (\<lambda>(p, v). p mod int n_in) ?E"
  proof -
    have "int n_in \<le> 2 ^ 31" if some: "D \<noteq> []"
    proof -
      obtain p v where "(p, v) \<in> set D" using some by (cases D) auto
      then have "0 < n_out" using assms(3) by (cases n_out) fastforce+
      then have "n_in \<le> n_out * n_in" by simp
      then have "n_in < 2 ^ 31" using assms(2) by linarith
      then show ?thesis by simp
    qed
    then have "p mod int n_in < 2 ^ 31" if "D \<noteq> []" for p
      using that assms(1) pos_mod_bound [of "int n_in" p] by (meson less_le_trans of_nat_0_less_iff)
    then have "cast_int ''int32'' (p mod int n_in) = p mod int n_in" if "(p, v) \<in> set D" for p v
      using that assms(1) by (intro cast_small) force+
    then show ?thesis unfolding c_def by (auto intro!: map_cong)
  qed
  have csrrows: "csr_rows c = map ?row ?E"
  proof -
    have "nat (cs_rowptr c ! Suc r - cs_rowptr c ! r) = count_list ?rows (int r)" if "r < n_out" for r
    proof -
      have "take (Suc r) ?counts = take r ?counts @ [int (count_list ?rows (int r))]" using that by (simp add: take_Suc_conv_app_nth)
      then show ?thesis using that by (simp only: c_def csr.simps ptr) (simp add: nth_append del: upt_Suc)
    qed
    moreover have "length (cs_rowptr c) - 1 = n_out" by (simp add: c_def)
    ultimately have "csr_rows c = concat (map (\<lambda>r. replicate (count_list ?rows (int r)) (int r)) [0..<n_out])"
      unfolding csr_rows_def by (intro arg_cong [where f = concat] map_cong) auto
    then show ?thesis by (simp only: rows)
  qed
  have "map2 (\<lambda>r k. r * int n_in + k) (csr_rows c) (cs_col c) = map fst ?E"
    unfolding csrrows cols by (rule nth_equalityI) (auto simp: split_def)
  moreover have vals: "cs_val c = map (\<lambda>(p, v). half x v) ?E" by (simp add: c_def)
  ultimately have "zip (map2 (\<lambda>r k. r * int n_in + k) (csr_rows c) (cs_col c)) (cs_val c) = map (\<lambda>(p, v). (p, half x v)) ?E"
    by (simp add: zip_map1 zip_map2 split_def) (rule nth_equalityI; simp)
  then show thesis using that csr cols csrrows vals by simp
qed


text \<open>Positions below the signed range, and salient positions that are not negative.\<close>

definition small_positions :: "decode_env \<Rightarrow> tensor_meta \<Rightarrow> bool" where
  "small_positions x tm \<longleftrightarrow>
     (\<forall>o1 ps vs. tm_outliers tm = Some o1 \<longrightarrow>
        read_outliers (dx_env x) (sp_positions o1) (sp_values o1) (sp_count o1)
          (get_or (sp_positions_dtype o1) ''uint32'') (get_or (sp_values_dtype o1) ''float32'') (dx_files x) = Inr (ps, vs) \<longrightarrow>
        (\<forall>p \<in> set ps. p < 2 ^ 63)) \<and>
     (\<forall>s ix vs. tm_salient tm = Some s \<longrightarrow>
        read_salient (dx_env x) (sl_indices s) (sl_weights s) (sl_count s) (sl_indices_bits s)
          (get_or (sl_weights_dtype s) ''float32'') (dx_files x) = Inr (ix, vs) \<longrightarrow> (\<forall>i \<in> set ix. 0 \<le> i))"

lemma outliers_written:
  assumes "apply_outliers x tm d = Inr d1" and "small_positions x tm"
    and "\<And>p. p < length d \<Longrightarrow> scale_at bs snp (int p) = Inr (sc ! (p div bs))"
  obtains ov where "\<forall>(p, v) \<in> set ov. 0 \<le> p \<and> p < int (length d)"
    and "\<And>i. i < length d \<Longrightarrow> d1 ! i = (case map_of (rev ov) (int i) of Some v \<Rightarrow> v | None \<Rightarrow> d ! i)"
    and "outlier_finals x tm bs (length d) snp = Inr (map (\<lambda>(p, v). (p, v * sc ! (nat p div bs))) ov)"
proof (cases "tm_outliers tm")
  case None
  show thesis by (rule that [of "[]"]) (use assms(1) None in \<open>simp_all add: apply_outliers_def outlier_finals_def\<close>)
next
  case (Some o1)
  obtain ps vs where r: "read_outliers (dx_env x) (sp_positions o1) (sp_values o1) (sp_count o1)
      (get_or (sp_positions_dtype o1) ''uint32'') (get_or (sp_values_dtype o1) ''float32'') (dx_files x) = Inr (ps, vs)"
    "put_values d (zip (map to_int64 ps) vs) = Inr d1"
    using assms(1) Some by (auto simp: apply_outliers_def bind_err_eq_Inr)
  let ?ov = "zip (map to_int64 ps) vs"
  have pos: "\<forall>p \<in> set ps. p < 2 ^ 63" using assms(2) Some r(1) by (auto simp: small_positions_def)
  have range: "0 \<le> p \<and> p < int (length d)" if "(p, v) \<in> set ?ov" for p v
  proof
    have "p \<in> set (map to_int64 ps)" using that by (rule set_zip_leftD)
    then show "0 \<le> p" using pos by (auto simp: to_int64_def)
    show "p < int (length d)" using put_values_range [OF r(2) that] .
  qed
  obtain d' where d': "put_values d ?ov = Inr d'" "\<forall>i < length d. d' ! i = (case map_of (rev ?ov) (int i) of Some v \<Rightarrow> v | None \<Rightarrow> d ! i)"
    using put_values_last [of ?ov d] range by blast
  have counts: "length vs = sp_count o1" "length ps = length vs"
    using r(1) by (auto simp: read_outliers_def read_float_vector_def bind_err_eq_Inr Let_def split: if_splits)
  have "outlier_finals x tm bs (length d) snp = Inr (map (\<lambda>(p, v). (p, v * sc ! (nat p div bs))) ?ov)"
  proof (cases "sp_count o1 = 0")
    case True
    then show ?thesis using counts Some by (simp add: outlier_finals_def)
  next
    case False
    have "filter (\<lambda>(p, v). p < int (length d)) ?ov = ?ov" using range by (intro filter_True) auto
    moreover have "mapM (\<lambda>(p, v). bind_err (scale_at bs snp p) (\<lambda>f. Inr (p, v * f))) ?ov = Inr (map (\<lambda>(p, v). (p, v * sc ! (nat p div bs))) ?ov)"
    proof (rule mapM_Inr)
      fix pv assume mem: "pv \<in> set ?ov"
      obtain p v where pv: "pv = (p, v)" by (cases pv)
      obtain q where q: "p = int q" "q < length d" using range [of p v] mem unfolding pv by (metis nonneg_int_cases of_nat_less_iff)
      show "(\<lambda>(p, v). bind_err (scale_at bs snp p) (\<lambda>f. Inr (p, v * f))) pv = Inr ((\<lambda>(p, v). (p, v * sc ! (nat p div bs))) pv)"
        unfolding pv prod.case q(1) assms(3) [OF q(2)] by simp
    qed
    ultimately show ?thesis using False Some r(1) by (simp add: outlier_finals_def)
  qed
  then show thesis using that [of ?ov] range d' r(2) by auto
qed

lemma salient_written:
  fixes tm
  defines "bs \<equiv> or_nat (tm_block_scale_size tm) 32"
  assumes "apply_salient x tm d = Inr d1" and "small_positions x tm"
  obtains S where "\<forall>(p, v) \<in> set S. 0 \<le> p \<and> p < int (length d)"
    and "\<And>i. i < length d \<Longrightarrow> d1 ! i = (case map_of (rev S) (int i) of Some v \<Rightarrow> v | None \<Rightarrow> d ! i)"
    and "salient_finals x tm bs (length d) = Inr S"
proof (cases "tm_salient tm")
  case None
  show thesis by (rule that [of "[]"]) (use assms(2) None in \<open>simp_all add: apply_salient_def salient_finals_def\<close>)
next
  case (Some s)
  have bs: "0 < bs" by (auto simp: bs_def or_nat_def split: option.splits)
  obtain ix vs where r: "read_salient (dx_env x) (sl_indices s) (sl_weights s) (sl_count s) (sl_indices_bits s)
      (get_or (sl_weights_dtype s) ''float32'') (dx_files x) = Inr (ix, vs)" "reinject bs ix vs d = Inr d1"
    using assms(2) Some by (auto simp: apply_salient_def bind_err_eq_Inr bs_def)
  let ?at = "\<lambda>ix. map2 (\<lambda>b i. int (b * bs) + i) [0..<length ix] ix"
  let ?low = "filter (\<lambda>(p, v). p < int (length d))" and ?n = "ceil_div (length d) bs"
  have len: "length vs = length ix" and put: "put_values d (?low (zip (?at ix) vs)) = Inr d1"
    using r(2) by (auto simp: reinject_def Let_def split: if_splits)
  have nonneg: "\<forall>i \<in> set ix. 0 \<le> i" using assms(3) Some r(1) by (auto simp: small_positions_def)
  have point: "zip (?at ix) vs = map (\<lambda>b. (int (b * bs) + ix ! b, vs ! b)) [0..<length ix]" if "length vs = length ix" for ix :: "int list" and vs :: "real list"
    using that by (intro nth_equalityI) simp_all
  have range: "0 \<le> p \<and> p < int (length d)" if "(p, v) \<in> set (?low (zip (?at ix) vs))" for p v
  proof -
    have mem: "(p, v) \<in> set (map (\<lambda>b. (int (b * bs) + ix ! b, vs ! b)) [0..<length ix])" "p < int (length d)"
      using that unfolding point [OF len] by auto
    then obtain b where "b < length ix" "p = int (b * bs) + ix ! b" by auto
    moreover from this have "0 \<le> ix ! b" using nonneg by simp
    ultimately show ?thesis using mem(2) by linarith
  qed
  obtain d' where d': "put_values d (?low (zip (?at ix) vs)) = Inr d'"
    "\<forall>i < length d. d' ! i = (case map_of (rev (?low (zip (?at ix) vs))) (int i) of Some v \<Rightarrow> v | None \<Rightarrow> d ! i)"
    using put_values_last [of "?low (zip (?at ix) vs)" d] range by blast
  have "salient_finals x tm bs (length d) = Inr (?low (zip (?at ix) vs))"
  proof (cases "sl_count s = 0")
    case True
    then have "vs = []" using r(1) by (auto simp: read_salient_def read_float_vector_def bind_err_eq_Inr split: if_splits)
    then show ?thesis using True Some by (simp add: salient_finals_def)
  next
    case False
    have far: "length d \<le> b * bs" if "?n \<le> b" for b
    proof -
      have "length d \<le> bs * ?n" by (rule ceil_div_mult_ge [OF bs])
      also have "\<dots> \<le> bs * b" using that by simp
      finally show ?thesis by (simp add: mult.commute)
    qed
    have "?low (map (\<lambda>b. (int (b * bs) + ix ! b, vs ! b)) [0..<length ix]) =
        ?low (map (\<lambda>b. (int (b * bs) + ix ! b, vs ! b)) [0..<min ?n (length ix)])"
    proof -
      have "[0..<length ix] = [0..<min ?n (length ix)] @ [min ?n (length ix)..<length ix]" 
        using upt_add_eq_append [of 0 "min ?n (length ix)" "length ix - min ?n (length ix)"] by simp
      moreover have "?low (map (\<lambda>b. (int (b * bs) + ix ! b, vs ! b)) [min ?n (length ix)..<length ix]) = []"
      proof -
        have "int (length d) \<le> int (b * bs) + ix ! b" if "b \<in> set [min ?n (length ix)..<length ix]" for b
        proof -
          have b: "?n \<le> b" "b < length ix" using that by auto
          then have "0 \<le> ix ! b" using nonneg by simp
          moreover have "int (length d) \<le> int (b * bs)" using far [OF b(1)] by (simp only: of_nat_le_iff)
          ultimately show ?thesis by linarith
        qed
        then show ?thesis by (auto simp: filter_empty_conv not_less)
      qed
      ultimately show ?thesis by (simp only: map_append filter_append append_Nil2)
    qed
    moreover have "map (\<lambda>b. (int (b * bs) + ix ! b, vs ! b)) [0..<min ?n (length ix)] = zip (?at (take ?n ix)) (take ?n vs)"
      using point [of "take ?n vs" "take ?n ix"] len by (auto simp: min.commute intro!: map_cong)
    ultimately have "?low (zip (?at (take ?n ix)) (take ?n vs)) = ?low (zip (?at ix) vs)" by (simp only: point [OF len])
    then show ?thesis using False Some r(1) by (simp add: salient_finals_def Let_def)
  qed
  moreover have "d1 = d'" using d'(1) put by simp
  ultimately show thesis using that [of "?low (zip (?at ix) vs)"] range d'(2) by blast
qed


section \<open>The layer and the decoder\<close>

lemma sorted_deltas_map:
  "distinct (map fst D) \<Longrightarrow> map_of (map (\<lambda>(p, v). (p, h v)) (sort_key f D)) k = map_option h (map_of D k)"
proof -
  assume dist: "distinct (map fst D)"
  have "map_of (map (\<lambda>(p, v). (p, h v)) E) k = map_option h (map_of E k)" for E by (induction E) auto
  moreover have "map_of (sort_key f D) k = map_of D k"
  proof (rule map_of_eqI [THEN fun_cong])
    show "set (map fst (sort_key f D)) = set (map fst D)" by simp
    show "\<forall>k \<in> set (map fst (sort_key f D)). map_of (sort_key f D) k = map_of D k"
    proof
      fix k assume "k \<in> set (map fst (sort_key f D))"
      then obtain v where v: "(k, v) \<in> set D" by auto
      have "distinct (map fst (sort_key f D))" using dist by (metis distinct_map distinct_sort set_sort)
      then show "map_of (sort_key f D) k = map_of D k" using v dist by simp
    qed
  qed
  ultimately show ?thesis by simp
qed

text \<open>What the correction adds, for deltas against the weight without it.\<close>

lemma corrected_weight:
  assumes "scaled_weight l = Inr base" and "csr_of x (ly_out l) (ly_in l) D = Inr c" and "ly_corr l = c" and "ly_cache l = None"
    and "length base = ly_out l * ly_in l" and "ly_out l * ly_in l < 2 ^ 31" and "0 < ly_in l"
    and "\<forall>(p, v) \<in> set D. 0 \<le> p \<and> p < int (length base)" and "distinct (map fst D)"
  shows "\<exists>w. reconstruct_weight l = Inr w \<and> length w = length base \<and>
    (\<forall>i < length base. w ! i = base ! i + (case map_of D (int i) of Some v \<Rightarrow> half x v | None \<Rightarrow> 0))"
proof -
  obtain c' where c': "csr_of x (ly_out l) (ly_in l) D = Inr c'" "length (cs_col c') = length D"
    "zip (map2 (\<lambda>r k. r * int (ly_in l) + k) (csr_rows c') (cs_col c')) (cs_val c') =
      map (\<lambda>(p, v). (p, half x v)) (sort_key (\<lambda>(p, v). p div int (ly_in l)) D)"
    by (rule csr_reads_back [OF assms(7,6) assms(8) [unfolded assms(5)] assms(9), of x])
  have c: "c = c'" using c'(1) assms(2) by simp
  let ?E = "map (\<lambda>(p, v). (p, half x v)) (sort_key (\<lambda>(p, v). p div int (ly_in l)) D)"
  show ?thesis
  proof (cases "D = []")
    case True
    then have "correction_csr l = None" using c'(2) assms(3,4) by (simp add: correction_csr_def c)
    then show ?thesis using assms(1) True by (simp add: reconstruct_weight_def)
  next
    case False
    then have csr: "correction_csr l = Some c'" using c'(2) assms(3) by (auto simp: correction_csr_def c)
    have range: "\<forall>(p, v) \<in> set ?E. 0 \<le> p \<and> p < int (length base)" using assms(8) by auto
    then have "filter (\<lambda>(p, v). p < int (length base)) ?E = ?E" by (intro filter_True) auto
    then have w: "reconstruct_weight l = add_values base ?E" using assms(1) csr c'(3) by (simp add: reconstruct_weight_def)
    have "map fst ?E = map fst (sort_key (\<lambda>(p, v). p div int (ly_in l)) D)" by auto
    then have "distinct (map fst ?E)" using assms(9) by (metis distinct_map distinct_sort set_sort)
    from add_values_nth [OF range this] show ?thesis
      unfolding w sorted_deltas_map [OF assms(9)] by (auto split: option.splits simp: option.case_eq_if)
  qed
qed


lemma bare_entry_simps:
  fixes tm
  defines "bare \<equiv> tm\<lparr>tm_outliers := None, tm_salient := None\<rparr>"
  shows "decode_stages x bare = decode_stages x tm" and "apply_outliers x bare d = Inr d" and "apply_salient x bare d = Inr d"
    and "denormalize_numpy x bare d = denormalize_numpy x tm d"
  by (simp_all add: bare_def decode_stages_def resolve_stages_def apply_outliers_def apply_salient_def denormalize_numpy_def read_scales_def
      cong: if_cong option.case_cong)

text \<open>The parts of the layer, and the decoder's value as the value without overrides and the final values of the overrides.\<close>

lemma served_parts:
  fixes tm
  defines "tot \<equiv> prod_list (tm_shape tm)" and "g \<equiv> tm_group_size tm" and "bs \<equiv> or_nat (tm_block_scale_size tm) 32"
  assumes "plain_entry tm" and "servable x tm cb_sizes" and "exact_scales x tm" and "small_positions x tm" and "decode_tensor x tm = Inr d"
  obtains stages bufs raw snp sc O1 S where "resolve_stages tm = Inr stages" and "mapM (register_stage x g tot) (zip stages cb_sizes) = Inr bufs"
    and "register_scales x tm bs tot = Inr (snp, sc)" and "length sc = ceil_div tot bs" and "tot \<le> length raw"
    and "\<And>l. ly_out l * ly_in l = tot \<Longrightarrow> ly_group l = g \<Longrightarrow> \<not> ly_group_major l \<Longrightarrow>
      ly_index l = map fst bufs \<Longrightarrow> ly_codebooks l = map snd bufs \<Longrightarrow> stage_sum l = Inr (take tot raw)"
    and "\<forall>bc \<in> set bufs. stage_fits (ceil_div tot g) g (stage_pair bc)"
    and "\<And>p. p < tot \<Longrightarrow> vq_decoded_at g bs bufs snp (int p) = Inr (raw ! p * sc ! (p div bs))"
    and "decode_tensor x (tm\<lparr>tm_outliers := None, tm_salient := None\<rparr>) = Inr (map (\<lambda>i. raw ! i * sc ! (i div bs)) [0..<tot])"
    and "outlier_finals x tm bs tot snp = Inr O1" and "salient_finals x tm bs tot = Inr S" and "length d = tot"
    and "\<forall>(p, v) \<in> set O1 \<union> set S. 0 \<le> p \<and> p < int tot"
    and "\<And>i. i < tot \<Longrightarrow> d ! i = (case map_of (rev S) (int i) of Some v \<Rightarrow> v
      | None \<Rightarrow> (case map_of (rev O1) (int i) of Some v \<Rightarrow> v | None \<Rightarrow> raw ! i * sc ! (i div bs)))"
proof -
  have entry: "tm_packed_values tm = tot" using assms(5) by (auto simp: servable_def Let_def tot_def)
  obtain stages bufs raw where st: "resolve_stages tm = Inr stages"
    "mapM (register_stage x g tot) (zip stages cb_sizes) = Inr bufs" "decode_stages x tm = Inr raw" "tot \<le> length raw"
    and sums: "\<And>l. ly_out l * ly_in l = tot \<Longrightarrow> ly_group l = g \<Longrightarrow> \<not> ly_group_major l \<Longrightarrow>
      ly_index l = map fst bufs \<Longrightarrow> ly_codebooks l = map snd bufs \<Longrightarrow> stage_sum l = Inr (take tot raw)"
    and cw: "\<And>p. p < tot \<Longrightarrow> codeword_at g bufs (int p) = Inr (raw ! p)"
    and fit: "\<forall>bc \<in> set bufs. stage_fits (ceil_div tot g) g (stage_pair bc)"
    unfolding tot_def g_def by (rule servable_stages [OF assms(5)]) blast
  let ?raw = "take tot raw"
  have lraw: "length ?raw = tot" using st(4) by simp
  obtain d1 d4 where steps: "apply_outliers x tm ?raw = Inr d1" "denormalize_numpy x tm d1 = Inr d4" "apply_salient x tm d4 = Inr d"
    using assms(4,8) st(3) entry
    by (auto simp: decode_tensor_def bind_err_eq_Inr plain_entry_def apply_pillars_def unrotate_numpy_def Let_def)
  have l1: "length d1 = tot" using sparse_lengths(1) [OF steps(1)] lraw by simp
  obtain snp sc where sc: "register_scales x tm bs tot = Inr (snp, sc)" "length sc = ceil_div tot bs"
    "\<And>p. p < tot \<Longrightarrow> scale_at bs snp (int p) = Inr (sc ! (p div bs))"
    "\<And>d'. length d' = tot \<Longrightarrow> denormalize_numpy x tm d' = Inr (map (\<lambda>i. d' ! i * sc ! (i div bs)) [0..<tot])"
    unfolding bs_def by (rule serving_scales [OF assms(4,6) steps(2), unfolded l1]) blast
  have bare: "decode_tensor x (tm\<lparr>tm_outliers := None, tm_salient := None\<rparr>) = Inr (map (\<lambda>i. raw ! i * sc ! (i div bs)) [0..<tot])"
    using assms(4) entry sc(4) [OF lraw] st(3)
    unfolding decode_tensor_def bare_entry_simps by (simp add: plain_entry_def apply_pillars_def unrotate_numpy_def)
  obtain ov where ov: "\<forall>(p, v) \<in> set ov. 0 \<le> p \<and> p < int tot"
    "\<And>i. i < tot \<Longrightarrow> d1 ! i = (case map_of (rev ov) (int i) of Some v \<Rightarrow> v | None \<Rightarrow> ?raw ! i)"
    "outlier_finals x tm bs tot snp = Inr (map (\<lambda>(p, v). (p, v * sc ! (nat p div bs))) ov)"
    by (rule outliers_written [OF steps(1) assms(7), of bs snp sc, unfolded lraw, OF sc(3)]) blast+
  let ?O = "map (\<lambda>(p, v). (p, v * sc ! (nat p div bs))) ov"
  have d4: "d4 = map (\<lambda>i. d1 ! i * sc ! (i div bs)) [0..<tot]" using sc(4) [OF l1] steps(2) by simp
  then have l4: "length d4 = tot" by simp
  obtain S where S: "\<forall>(p, v) \<in> set S. 0 \<le> p \<and> p < int tot"
    "\<And>i. i < tot \<Longrightarrow> d ! i = (case map_of (rev S) (int i) of Some v \<Rightarrow> v | None \<Rightarrow> d4 ! i)"
    "salient_finals x tm bs tot = Inr S"
    unfolding bs_def by (rule salient_written [OF steps(3) assms(7), unfolded l4]) blast
  have ld: "length d = tot" using sparse_lengths(3) [OF steps(3)] l4 by simp
  have decoded: "vq_decoded_at g bs bufs snp (int p) = Inr (raw ! p * sc ! (p div bs))" if "p < tot" for p
    by (simp add: vq_decoded_at_def cw [OF that] sc(3) [OF that])
  have final: "d ! i = (case map_of (rev S) (int i) of Some v \<Rightarrow> v
      | None \<Rightarrow> (case map_of (rev ?O) (int i) of Some v \<Rightarrow> v | None \<Rightarrow> raw ! i * sc ! (i div bs)))" if i: "i < tot" for i
  proof -
    have "map_of (map (\<lambda>(p, v). (p, v * sc ! (nat p div bs))) xs) (int i) = map_option (\<lambda>v. v * sc ! (i div bs)) (map_of xs (int i))" for xs
      by (induction xs) auto
    then have "map_of (rev ?O) (int i) = map_option (\<lambda>v. v * sc ! (i div bs)) (map_of (rev ov) (int i))"
      by (simp only: rev_map)
    then show ?thesis using i S(2) [OF i] ov(2) [OF i] by (auto simp: d4 split: option.splits)
  qed
  have range: "\<forall>(p, v) \<in> set ?O \<union> set S. 0 \<le> p \<and> p < int tot" using ov(1) S(1) by auto
  show thesis by (rule that [OF st(1,2) sc(1,2) st(4) sums fit decoded bare ov(3) S(3) ld range final])
qed

text \<open>The correction as a list of deltas against the weight without overrides, one a position.\<close>

lemma correction_built:
  assumes "outlier_finals x tm bs (n_out * n_in) snp = Inr O1" and "salient_finals x tm bs (n_out * n_in) = Inr S"
    and "\<forall>(p, v) \<in> set O1 \<union> set S. 0 \<le> p \<and> p < int (n_out * n_in)"
    and "\<And>p. p < n_out * n_in \<Longrightarrow> vq_decoded_at g bs bufs snp (int p) = Inr (b p)" and "0 < n_in" and "n_out * n_in < 2 ^ 31"
  obtains D c where "csr_of x n_out n_in D = Inr c" and "distinct (map fst D)" and "\<forall>(p, v) \<in> set D. 0 \<le> p \<and> p < int (n_out * n_in)"
    and "build_csr_correction x tm g bs n_out n_in bufs snp = Inr (if D = [] then empty_csr n_out else c)"
    and "\<And>i. map_of D (int i) = map_option (\<lambda>v. v - b i)
      (case map_of (rev S) (int i) of Some v \<Rightarrow> Some v | None \<Rightarrow> map_of (rev O1) (int i))"
proof -
  define finals where "finals = dict_update S (dict_update O1 [])"
  have keys: "distinct (map fst finals)" unfolding finals_def by (intro fst_dict_update(2)) simp
  have range: "0 \<le> p \<and> p < int (n_out * n_in)" if "(p, v) \<in> set finals" for p v
  proof -
    have "p \<in> set (map fst finals)" using that by force
    then have "p \<in> fst ` set S \<or> p \<in> fst ` set O1" unfolding finals_def fst_dict_update(1) by force
    then show ?thesis using assms(3) by auto
  qed
  define D where "D = map (\<lambda>(p, v). (p, v - b (nat p))) finals"
  have D: "distinct (map fst D)" "\<forall>(p, v) \<in> set D. 0 \<le> p \<and> p < int (n_out * n_in)"
    using range keys by (auto simp: D_def comp_def split_def)
  have "map_of (map (\<lambda>(p, v). (p, v - b (nat p))) F) (int i) = map_option (\<lambda>v. v - b i) (map_of F (int i))" for i F
    by (induction F) auto
  then have delta: "map_of D (int i) = map_option (\<lambda>v. v - b i) (case map_of (rev S) (int i) of Some v \<Rightarrow> Some v | None \<Rightarrow> map_of (rev O1) (int i))" for i
    unfolding D_def finals_def map_of_dict_update by (simp add: map_of_dict_update split: option.split)
  have deltas: "mapM (\<lambda>(p, v). bind_err (vq_decoded_at g bs bufs snp p) (\<lambda>w. Inr (p, v - w))) finals = Inr D"
    unfolding D_def
  proof (rule mapM_Inr)
    fix pv assume mem: "pv \<in> set finals"
    obtain p v where pv: "pv = (p, v)" by (cases pv)
    obtain q where q: "p = int q" "q < n_out * n_in" using range [of p v] mem unfolding pv by (metis nonneg_int_cases of_nat_less_iff)
    show "(\<lambda>(p, v). bind_err (vq_decoded_at g bs bufs snp p) (\<lambda>w. Inr (p, v - w))) pv = Inr ((\<lambda>(p, v). (p, v - b (nat p))) pv)"
      unfolding pv prod.case q(1) assms(4) [OF q(2)] by simp
  qed
  obtain c where c: "csr_of x n_out n_in D = Inr c" by (rule csr_reads_back [OF assms(5,6) D(2,1)])
  have "finals = [] \<longleftrightarrow> D = []" by (simp add: D_def)
  then have "build_csr_correction x tm g bs n_out n_in bufs snp = Inr (if D = [] then empty_csr n_out else c)"
    using assms(1,2) deltas c by (simp add: build_csr_correction_def finals_def [symmetric] Let_def)
  then show thesis by (rule that [OF c D _ delta])
qed

text \<open>The whole layer before its buffers are reordered.\<close>

lemma layer_assembled:
  fixes tm
  defines "tot \<equiv> prod_list (tm_shape tm)"
  assumes "plain_entry tm" and "servable x tm cb_sizes" and "exact_scales x tm" and "small_positions x tm"
    and "half x 0 = 0" and "decode_tensor x tm = Inr d"
  obtains base stages bufs l D c sc where "decode_tensor x (tm\<lparr>tm_outliers := None, tm_salient := None\<rparr>) = Inr base" and "length base = tot"
    and "length d = tot" and "build_vq_linear x tm cb_sizes bias = Inr (to_group_major l)"
    and "scaled_weight l = Inr base" and "reconstruct_weight l = Inr (map2 (\<lambda>b v. b + half x (v - b)) base d)"
    and "resolve_stages tm = Inr stages" and "mapM (register_stage x (tm_group_size tm) tot) (zip stages cb_sizes) = Inr bufs"
    and "\<forall>bc \<in> set bufs. stage_fits (ceil_div tot (tm_group_size tm)) (tm_group_size tm) (stage_pair bc)"
    and "csr_of x (hd (tm_shape tm)) (cols_of (tm_shape tm)) D = Inr c" and "distinct (map fst D)"
    and "\<forall>(p, v) \<in> set D. 0 \<le> p \<and> p < int tot"
    and "length sc = ceil_div tot (or_nat (tm_block_scale_size tm) 32)"
    and "l = \<lparr>ly_out = hd (tm_shape tm), ly_in = cols_of (tm_shape tm), ly_group = tm_group_size tm,
      ly_block = or_nat (tm_block_scale_size tm) 32, ly_index = map fst bufs, ly_codebooks = map snd bufs, ly_scales = sc,
      ly_corr = (if D = [] then empty_csr (hd (tm_shape tm)) else c), ly_cache = None, ly_bias = map_option (map (half x)) bias,
      ly_group_major = False\<rparr>"
proof -
  let ?g = "tm_group_size tm" and ?bs = "or_nat (tm_block_scale_size tm) 32" and ?out = "hd (tm_shape tm)" and ?in = "cols_of (tm_shape tm)"
  have entry: "0 < ?g" "tm_shape tm \<noteq> []" "0 < tot" "tot < 2 ^ 31" using assms(3) by (auto simp: servable_def Let_def tot_def)
  have dims: "?out * ?in = tot" unfolding tot_def by (rule cols_of_prod [OF entry(2)])
  have pos: "0 < ?in" "0 < ?bs" using dims entry(3) by (cases ?in; auto simp: or_nat_def split: option.splits)+
  obtain stages bufs raw snp sc O1 S where parts: "resolve_stages tm = Inr stages"
    "mapM (register_stage x ?g tot) (zip stages cb_sizes) = Inr bufs" "register_scales x tm ?bs tot = Inr (snp, sc)"
    "length sc = ceil_div tot ?bs" "tot \<le> length raw"
    and sums: "\<And>l. ly_out l * ly_in l = tot \<Longrightarrow> ly_group l = ?g \<Longrightarrow> \<not> ly_group_major l \<Longrightarrow>
      ly_index l = map fst bufs \<Longrightarrow> ly_codebooks l = map snd bufs \<Longrightarrow> stage_sum l = Inr (take tot raw)"
    and fits: "\<forall>bc \<in> set bufs. stage_fits (ceil_div tot ?g) ?g (stage_pair bc)"
    and at_pos: "\<And>p. p < tot \<Longrightarrow> vq_decoded_at ?g ?bs bufs snp (int p) = Inr (raw ! p * sc ! (p div ?bs))"
    and bare: "decode_tensor x (tm\<lparr>tm_outliers := None, tm_salient := None\<rparr>) = Inr (map (\<lambda>i. raw ! i * sc ! (i div ?bs)) [0..<tot])"
    and over: "outlier_finals x tm ?bs tot snp = Inr O1" "salient_finals x tm ?bs tot = Inr S" "length d = tot"
      "\<forall>(p, v) \<in> set O1 \<union> set S. 0 \<le> p \<and> p < int tot"
    and final: "\<And>i. i < tot \<Longrightarrow> d ! i = (case map_of (rev S) (int i) of Some v \<Rightarrow> v
      | None \<Rightarrow> (case map_of (rev O1) (int i) of Some v \<Rightarrow> v | None \<Rightarrow> raw ! i * sc ! (i div ?bs)))"
    unfolding tot_def by (rule served_parts [OF assms(2-5,7)]) blast
  let ?b = "\<lambda>p. raw ! p * sc ! (p div ?bs)"
  let ?base = "map ?b [0..<tot]"
  obtain D c where D: "csr_of x ?out ?in D = Inr c" "distinct (map fst D)" "\<forall>(p, v) \<in> set D. 0 \<le> p \<and> p < int (?out * ?in)"
    "build_csr_correction x tm ?g ?bs ?out ?in bufs snp = Inr (if D = [] then empty_csr ?out else c)"
    "\<And>i. map_of D (int i) = map_option (\<lambda>v. v - ?b i) (case map_of (rev S) (int i) of Some v \<Rightarrow> Some v | None \<Rightarrow> map_of (rev O1) (int i))"
    by (rule correction_built [where b = ?b, of x tm ?bs ?out ?in snp O1 S ?g bufs, unfolded dims, OF over(1,2,4) at_pos pos(1) entry(4)])
      (simp_all add: dims)
  define l where "l = \<lparr>ly_out = ?out, ly_in = ?in, ly_group = ?g, ly_block = ?bs, ly_index = map fst bufs,
    ly_codebooks = map snd bufs, ly_scales = sc, ly_corr = (if D = [] then empty_csr ?out else c), ly_cache = None,
    ly_bias = map_option (map (half x)) bias, ly_group_major = False\<rparr>"
  have build: "build_vq_linear x tm cb_sizes bias = Inr (to_group_major l)"
    using entry(1,2) parts(1-3) D(4) by (simp add: build_vq_linear_def Let_def dims l_def)
  have sum: "stage_sum l = Inr (take tot raw)" by (rule sums) (simp_all add: l_def dims)
  have scaled: "scaled_weight l = Inr ?base"
    using scale_blocks_map(1) [OF pos(2), of sc "take tot raw"] parts(4,5)
    unfolding scaled_weight_def sum bind_err_simps Let_def by (simp add: l_def row_major_def)
  obtain w where w: "reconstruct_weight l = Inr w" "length w = tot"
    "\<And>i. i < tot \<Longrightarrow> w ! i = ?base ! i + (case map_of D (int i) of Some v \<Rightarrow> half x v | None \<Rightarrow> 0)"
  proof (cases "D = []")
    case True
    then have "correction_csr l = None" by (simp add: l_def correction_csr_def empty_csr_def)
    then show thesis using that [of ?base] scaled True by (simp add: reconstruct_weight_def)
  next
    case False
    have "\<exists>w. reconstruct_weight l = Inr w \<and> length w = length ?base \<and>
      (\<forall>i < length ?base. w ! i = ?base ! i + (case map_of D (int i) of Some v \<Rightarrow> half x v | None \<Rightarrow> 0))"
      by (rule corrected_weight [OF scaled, of x D c]) (use False D(1-3) dims entry(4) pos(1) in \<open>simp_all add: l_def\<close>)
    then show thesis using that by auto
  qed
  have "w = map2 (\<lambda>b v. b + half x (v - b)) ?base d"
  proof (rule nth_equalityI)
    fix i assume "i < length w"
    then have i: "i < tot" using w(2) by simp
    have "w ! i = ?base ! i + half x (d ! i - ?base ! i)"
      using w(3) [OF i] final [OF i] i assms(6) by (auto simp: D(5) split: option.splits)
    then show "w ! i = map2 (\<lambda>b v. b + half x (v - b)) ?base d ! i" using i over(3) by simp
  qed (use w(2) over(3) in simp)
  then have rec: "reconstruct_weight l = Inr (map2 (\<lambda>b v. b + half x (v - b)) ?base d)" using w(1) by simp
  show thesis
    by (rule that [OF bare _ over(3) build scaled rec parts(1,2) fits D(1,2) _ parts(4) l_def]) (use D(3) in \<open>simp_all add: dims\<close>)
qed


text \<open>One row of two values, one group and one block: the second codeword, and an outlier at position 1.\<close>

definition serving_env :: decode_env where
  "serving_env = example_env\<lparr>dx_files := [''cb'' \<mapsto> array_bytes 4 [1, 2, 0, 0], ''ix'' \<mapsto> [1], ''op'' \<mapsto> 0 # array_bytes 1 [1],
     ''ov'' \<mapsto> 0 # array_bytes 2 [3]]\<rparr>"

definition serving_meta :: tensor_meta where
  "serving_meta = example_meta\<lparr>tm_shape := [1, 2], tm_block_scale_size := Some 2, tm_stages := [\<lparr>sg_codebook = ''cb'', sg_indices = ''ix'', sg_index_bits = 8,
     sg_group_size = Some 2, sg_codebook_dtype = Some ''float32'', sg_packed = None, sg_encoding = None\<rparr>],
     tm_outliers := Some \<lparr>sp_positions = ''op'', sp_values = ''ov'', sp_count = 1, sp_positions_dtype = Some ''uint8'',
       sp_values_dtype = Some ''float16''\<rparr>\<rparr>"

lemma serving_codebook:
  "fs ''cb'' = Some (array_bytes 4 [1, 2, 0, 0]) \<Longrightarrow> read_codebook (dx_floats serving_env) ''cb'' 2 ''float32'' fs = Inr [[1, 2], [0, 0]]"
proof -
  assume fs: "fs ''cb'' = Some (array_bytes 4 [1, 2, 0, 0])"
  have digits: "digit_val CHR ''4'' = 4" by (simp add: digit_val_def)
  have cb: "array_of_bytes 4 (array_bytes 4 [1, 2, 0, 0]) = [1, 2, 0, 0]" by (rule array_roundtrip) simp_all
  have rows: "blocks_of 2 [1, 2, 0, 0 :: rat] = [[1, 2], [0, 0]]"
    using blocks_of_concat [of "[[1, 2], [0, 0 :: rat]]" 2] by simp
  show ?thesis
    using cb rows fs by (simp add: read_codebook_def serving_env_def example_env_def float_value_dtype_def FLOAT_VALUE_DTYPES_def itemsize_def
        digits reshape_rows_def del: array_bytes_Cons)
qed

lemma serving_files:
  shows "read_stage_arrays serving_env (hd (tm_stages serving_meta)) 2 2 = Inr ([[1, 2], [0, 0]], [1])"
    and "read_outliers grid_env ''op'' ''ov'' 1 ''uint8'' ''float16'' (dx_files serving_env) = Inr ([1], [3 / 2 ^ 24])"
proof -
  have digits: "digit_val CHR ''4'' = 4" "digit_val CHR ''1'' = 1" "digit_val CHR ''2'' = 2" by (simp_all add: digit_val_def)
  have ix: "array_of_bytes 1 [1] = [1]" using blocks_of_concat [of "[[1 :: byte]]" 1] by (simp add: array_of_bytes_def)
  have "read_codebook (dx_floats serving_env) ''cb'' 2 ''float32'' (dx_files serving_env) = Inr [[1, 2], [0, 0]]"
    by (rule serving_codebook) (simp add: serving_env_def del: array_bytes_Cons)
  moreover have "read_indices grid_env ''ix'' 8 1 False ''raw'' (dx_files serving_env) = Inr [1]"
    using ix by (simp add: read_indices_def serving_env_def array_dec_def index_bit_spec_def frombuffer_dt_def itemsize_def digits)
  ultimately show "read_stage_arrays serving_env (hd (tm_stages serving_meta)) 2 2 = Inr ([[1, 2], [0, 0]], [1])"
    by (simp add: read_stage_arrays_def serving_meta_def get_or_def ceil_div_def) (simp add: serving_env_def example_env_def)
  have op: "array_of_bytes 1 (array_bytes 1 [1]) = [1]" by (rule array_roundtrip) simp_all
  have ov: "array_of_bytes 2 (array_bytes 2 [3]) = [3]" by (rule array_roundtrip) simp_all
  show "read_outliers grid_env ''op'' ''ov'' 1 ''uint8'' ''float16'' (dx_files serving_env) = Inr ([1], [3 / 2 ^ 24])"
    using op ov
    by (simp add: read_outliers_def read_float_vector_def read_blob_def serving_env_def floats_of_bytes_def frombuffer_dt_def itemsize_def
        float_value_dtype_def FLOAT_VALUE_DTYPES_def unsigned_value_dtype_def UNSIGNED_VALUE_DTYPES_def digits grid_env_def Let_def
        del: array_bytes_Cons)
qed

lemma serving_stages: "decode_stages serving_env serving_meta = Inr [0, 0]"
proof -
  have "replicate 2 0 = [0, 0 :: real]" by (simp add: numeral_2_eq_2)
  then show ?thesis
    using serving_files(1)
    by (simp add: decode_stages_def resolve_stages_def serving_meta_def example_meta_def key_def ceil_div_def add_into_def)
qed

lemma serving_decode: "decode_tensor serving_env serving_meta = Inr [0, 3 / 2 ^ 24]"
proof -
  have "dx_env serving_env = grid_env" by (simp add: serving_env_def example_env_def)
  then show ?thesis
    using serving_files(2) serving_stages
    by (simp add: decode_tensor_def serving_meta_def example_meta_def apply_outliers_def apply_pillars_def unrotate_numpy_def denormalize_numpy_def
        apply_salient_def get_or_def to_int64_def Let_def)
qed

lemma serving_halves:
  shows "half serving_env 0 = 0" and "half serving_env 1 = 1" and "half serving_env 2 = 2" and "half serving_env (3 / 2 ^ 24) = 3 / 2 ^ 24"
proof -
  have half: "half serving_env (real n) = real n" "half serving_env (real n / 2 ^ 24) = real n / 2 ^ 24" for n
  proof -
    have "round (real m) = int m" for m by (simp add: round_of_nat)
    from this [of "n * 2 ^ 24"] this [of n] show "half serving_env (real n) = real n" "half serving_env (real n / 2 ^ 24) = real n / 2 ^ 24"
      by (simp_all add: half_def round16_def serving_env_def example_env_def grid_env_def)
  qed
  show "half serving_env 0 = 0" "half serving_env 1 = 1" "half serving_env 2 = 2" "half serving_env (3 / 2 ^ 24) = 3 / 2 ^ 24"
    using half(1) [of 0] half(1) [of 1] half(1) [of 2] half(2) [of 3] by simp_all
qed

lemma serving_entry:
  shows "plain_entry serving_meta" and "servable serving_env serving_meta [2]" and "exact_scales serving_env serving_meta"
    and "small_positions serving_env serving_meta"
proof -
  show "plain_entry serving_meta" by (simp add: plain_entry_def serving_meta_def example_meta_def get_or_def)
  show "servable serving_env serving_meta [2]"
    using serving_files(1) serving_halves
    by (simp add: servable_def serving_meta_def example_meta_def resolve_stages_def stage_file_def get_or_def ceil_div_def Let_def)
  show "exact_scales serving_env serving_meta"
    by (simp add: exact_scales_def read_scales_def serving_meta_def example_meta_def key_def)
  show "small_positions serving_env serving_meta"
    using serving_files(2) by (simp add: small_positions_def serving_meta_def example_meta_def get_or_def) (simp add: serving_env_def example_env_def)
qed

lemma serving_bare: "decode_tensor serving_env (serving_meta\<lparr>tm_outliers := None, tm_salient := None\<rparr>) = Inr [0, 0]"
  unfolding decode_tensor_def bare_entry_simps serving_stages
  by (simp add: serving_meta_def example_meta_def apply_pillars_def unrotate_numpy_def denormalize_numpy_def get_or_def)


end
