(* ===== verification/Vq_Forward.thy ===== *)
theory Vq_Forward
  imports Vq_Layer
begin

text \<open>
  The forward pass of the served layer: \<open>orka/inference/dispatch.py\<close>, the Triton kernels of
  \<open>orka/inference/triton_kernels.py\<close>, the custom op of \<open>orka/inference/plane_ops.py\<close>, and the fallback and the life of the
  sparse correction in \<open>orka/inference/_vq_core.py\<close>.

  Modelled is a layer on a GPU for which the compiled CUDA extensions are unavailable, so that their \<open>supported\<close> tests are
  false and the Triton kernels run. A kernel's program instances are independent, one output entry each; the loop over the
  columns is kept. Products and sums are exact; the casts the code writes out (of the input and of every kernel's and every sparse
  product's result to fp16, of the output to the type of the input) are the two functions of \<open>casts\<close>. A flat buffer is read at
  the offsets the kernel computes.
\<close>

record casts =
  cast_half :: "real \<Rightarrow> real"
  cast_input :: "real \<Rightarrow> real"

datatype forward_error = WeightFail decode_error | AssertionFail | MissingBuffer | KernelDivide

section \<open>The life of the correction\<close>

text \<open>The first use wraps the buffers as a sparse tensor, keeps it and frees the buffers.\<close>

definition freed :: csr where
  "freed = \<lparr>cs_rowptr = [], cs_col = [], cs_val = []\<rparr>"

definition correction_sparse :: "vq_layer \<Rightarrow> csr option \<times> vq_layer" where
  "correction_sparse l =
     (case ly_cache l of
        Some c \<Rightarrow> (Some c, l)
      | None \<Rightarrow>
          if cs_col (ly_corr l) = [] then (None, l)
          else (Some (ly_corr l), l\<lparr>ly_cache := Some (ly_corr l), ly_corr := freed\<rparr>))"

text \<open>What a checkpoint stores for the correction.\<close>

definition saved_correction :: "(real \<Rightarrow> real) \<Rightarrow> vq_layer \<Rightarrow> csr" where
  "saved_correction h l =
     (if cs_col (ly_corr l) \<noteq> [] then ly_corr l
      else
        (case correction_csr l of
           None \<Rightarrow> ly_corr l
         | Some c \<Rightarrow> \<lparr>cs_rowptr = map (cast_int ''int32'') (cs_rowptr c), cs_col = map (cast_int ''int32'') (cs_col c),
                      cs_val = map h (cs_val c)\<rparr>))"

text \<open>A sparse matrix times a vector: the entries of a row, each times the input at its column.\<close>

definition sparse_mm :: "nat \<Rightarrow> csr \<Rightarrow> real list \<Rightarrow> real list" where
  "sparse_mm n_out c x =
     map (\<lambda>m. \<Sum>(r, k, v)\<leftarrow>zip (csr_rows c) (zip (cs_col c) (cs_val c)). if r = int m then v * x ! nat k else 0) [0..<n_out]"

definition add_correction :: "casts \<Rightarrow> nat \<Rightarrow> csr option \<Rightarrow> real list \<Rightarrow> real list \<Rightarrow> real list" where
  "add_correction p n_out sp x y = (case sp of None \<Rightarrow> y | Some c \<Rightarrow> map2 (+) y (map (cast_half p) (sparse_mm n_out c x)))"

definition add_bias :: "vq_layer \<Rightarrow> real list \<Rightarrow> real list" where
  "add_bias l y = (case ly_bias l of None \<Rightarrow> y | Some b \<Rightarrow> map2 (+) y b)"

section \<open>The dense fallback\<close>

definition linear :: "nat \<Rightarrow> nat \<Rightarrow> real list \<Rightarrow> real list \<Rightarrow> real list" where
  "linear n_out n_in w x = map (\<lambda>m. \<Sum>k<n_in. x ! k * w ! (m * n_in + k)) [0..<n_out]"

definition forward_python :: "casts \<Rightarrow> vq_layer \<Rightarrow> real list list \<Rightarrow> forward_error + real list list" where
  "forward_python p l xs =
     bind_err (lift_err WeightFail (reconstruct_weight l))
       (\<lambda>w. Inr (map (\<lambda>x. map (cast_input p) (add_bias l (linear (ly_out l) (ly_in l) w x))) xs))"

section \<open>The kernels\<close>

text \<open>The index at an offset: one entry of a flat buffer, or the low byte with its slot of the high plane.\<close>

definition kernel_index :: "index_buffer \<Rightarrow> nat \<Rightarrow> nat" where
  "kernel_index buf i =
     (case buf of
        Flat dt v \<Rightarrow> nat (v ! i)
      | Planes w lo hi \<Rightarrow>
          (let hb = w - 8; per = 8 div hb; shift = 8 - ((i mod per) + 1) * hb
           in unat (lo ! i) OR push_bit 8 (drop_bit shift (unat (hi ! (i * hb div 8))) AND (2 ^ hb - 1))))"

definition index_offset :: "vq_layer \<Rightarrow> nat \<Rightarrow> nat \<Rightarrow> nat" where
  "index_offset l m g = (if ly_group_major l then g * ly_out l + m else m * (ly_in l div ly_group l) + g)"

definition scale_offset :: "vq_layer \<Rightarrow> nat \<Rightarrow> nat \<Rightarrow> nat" where
  "scale_offset l m b = (if ly_group_major l then b * ly_out l + m else m * (ly_in l div ly_block l) + b)"

text \<open>Only the first three stages have pointers.\<close>

definition kernel_stages :: "vq_layer \<Rightarrow> (index_buffer \<times> real list list) list" where
  "kernel_stages l = take 3 (zip (ly_index l) (ly_codebooks l))"

definition decode_row :: "vq_layer \<Rightarrow> real list \<Rightarrow> nat \<Rightarrow> real" where
  "decode_row l x m =
     (\<Sum>g<ly_in l div ly_group l.
        ly_scales l ! scale_offset l m (g div (ly_block l div ly_group l)) *
        (\<Sum>(buf, cb)\<leftarrow>kernel_stages l.
           \<Sum>e<ly_group l. concat cb ! (kernel_index buf (index_offset l m g) * ly_group l + e) * x ! (g * ly_group l + e)))"

definition vq_decode_n1 :: "casts \<Rightarrow> vq_layer \<Rightarrow> real list \<Rightarrow> forward_error + real list" where
  "vq_decode_n1 p l x =
     (if ly_block l div ly_group l = 0 then Inl KernelDivide
      else Inr (map (\<lambda>m. cast_half p (decode_row l x m)) [0..<ly_out l]))"

text \<open>A tile of the weight at row \<open>m\<close> and column \<open>k\<close>, and the loop over tiles of \<open>bk\<close> columns.\<close>

definition tile_weight :: "vq_layer \<Rightarrow> nat \<Rightarrow> nat \<Rightarrow> real" where
  "tile_weight l m k =
     (\<Sum>(buf, cb)\<leftarrow>kernel_stages l.
        concat cb ! (kernel_index buf (index_offset l m (k div ly_group l)) * ly_group l + k mod ly_group l)) *
     ly_scales l ! scale_offset l m (k div ly_block l)"

definition gemm_entry :: "nat \<Rightarrow> vq_layer \<Rightarrow> real list \<Rightarrow> nat \<Rightarrow> real" where
  "gemm_entry bk l x m =
     (\<Sum>t<ceil_div (ly_in l) bk. \<Sum>k\<in>{t * bk..<min (ly_in l) ((t + 1) * bk)}. x ! k * tile_weight l m k)"

definition vq_gemm :: "casts \<Rightarrow> nat \<Rightarrow> vq_layer \<Rightarrow> real list list \<Rightarrow> real list list" where
  "vq_gemm p bk l xs = map (\<lambda>x. map (\<lambda>m. cast_half p (gemm_entry bk l x m)) [0..<ly_out l]) xs"

text \<open>One token takes the decode kernel, any other number the tiled one. Both name the buffers of the first stage.\<close>

definition run_kernel :: "casts \<Rightarrow> nat \<Rightarrow> vq_layer \<Rightarrow> real list list \<Rightarrow> forward_error + real list list" where
  "run_kernel p bk l xs =
     (if ly_index l = [] then Inl MissingBuffer
      else (case xs of [x] \<Rightarrow> bind_err (vq_decode_n1 p l x) (\<lambda>y. Inr [y]) | _ \<Rightarrow> Inr (vq_gemm p bk l xs)))"

section \<open>The dispatcher\<close>

definition vq_linear_forward :: "casts \<Rightarrow> nat \<Rightarrow> vq_layer \<Rightarrow> real list list \<Rightarrow> forward_error + real list list \<times> vq_layer" where
  "vq_linear_forward p bk l xs =
     (if ly_in l mod ly_group l \<noteq> 0 \<or> ly_in l mod ly_block l \<noteq> 0 then Inl AssertionFail
      else
        (let x_2d = map (map (cast_half p)) xs
         in bind_err (run_kernel p bk l x_2d) (\<lambda>ys.
              (case correction_sparse l of
                 (sp, l') \<Rightarrow>
                   Inr (map2 (\<lambda>x y. map (cast_input p) (add_bias l' (add_correction p (ly_out l) sp x y))) x_2d ys, l')))))"

fun width_of :: "index_buffer \<Rightarrow> nat" where
  "width_of (Planes w lo hi) = w"
| "width_of (Flat dt v) = 0"

text \<open>The plane kernels take two stages of one width; the custom op also wants no correction left in the buffers.\<close>

definition planes_uniform :: "vq_layer \<Rightarrow> bool" where
  "planes_uniform l \<longleftrightarrow>
     (let ws = map width_of (ly_index l)
      in ws \<noteq> [] \<and> length ws = 2 \<and> hd ws \<noteq> 0 \<and> list_all (\<lambda>w. w = hd ws) ws \<and> hd ws - 8 \<in> {2, 4})"

definition plane_op_supported :: "vq_layer \<Rightarrow> bool" where
  "plane_op_supported l \<longleftrightarrow> planes_uniform l \<and> cs_col (ly_corr l) = []"

text \<open>The planed path hands the sparse product the input before the cast.\<close>

definition forward_planed :: "casts \<Rightarrow> nat \<Rightarrow> vq_layer \<Rightarrow> real list list \<Rightarrow> forward_error + real list list \<times> vq_layer" where
  "forward_planed p bk l xs =
     (let xf = map (map (cast_half p)) xs
      in if plane_op_supported l
         then bind_err (run_kernel p bk l xf) (\<lambda>ys. Inr (map (\<lambda>y. map (cast_input p) (add_bias l y)) ys, l))
         else
           (case (if planes_uniform l then run_kernel p bk l xf else Inl AssertionFail) of
              Inr ys \<Rightarrow>
                (case (if cs_col (ly_corr l) \<noteq> [] then correction_sparse l else (None, l)) of
                   (sp, l') \<Rightarrow>
                     Inr (map2 (\<lambda>x y. map (cast_input p) (add_bias l' (add_correction p (ly_out l) sp x y))) xs ys, l'))
            | Inl e \<Rightarrow> bind_err (forward_python p l xs) (\<lambda>ys. Inr (ys, l))))"

definition forward :: "casts \<Rightarrow> nat \<Rightarrow> vq_layer \<Rightarrow> real list list \<Rightarrow> forward_error + real list list \<times> vq_layer" where
  "forward p bk l xs = (if list_ex is_planes (ly_index l) then forward_planed p bk l xs else vq_linear_forward p bk l xs)"

text \<open>Any number of calls, one batch after the other.\<close>

fun forwards :: "casts \<Rightarrow> nat \<Rightarrow> vq_layer \<Rightarrow> real list list list \<Rightarrow> forward_error + real list list list \<times> vq_layer" where
  "forwards p bk l [] = Inr ([], l)"
| "forwards p bk l (xs # batches) =
     bind_err (forward p bk l xs) (\<lambda>(ys, l'). bind_err (forwards p bk l' batches) (\<lambda>(yss, l''). Inr (ys # yss, l'')))"


section \<open>Well-formed layers\<close>

text \<open>Buffers of the sizes the layer's shape asks for, indices inside the codebooks, one correction entry a position.\<close>

definition buffer_ok :: "nat \<Rightarrow> index_buffer \<times> real list list \<Rightarrow> nat \<Rightarrow> bool" where
  "buffer_ok g bc n \<longleftrightarrow> stage_fits n g (stage_pair bc) \<and>
     (case fst bc of Flat dt v \<Rightarrow> True | Planes w lo hi \<Rightarrow> w \<in> {10, 12} \<and> length lo = n)"

definition csr_ok :: "nat \<Rightarrow> nat \<Rightarrow> csr \<Rightarrow> bool" where
  "csr_ok n_out n_in c \<longleftrightarrow> length (csr_rows c) = length (cs_col c) \<and> length (cs_val c) = length (cs_col c) \<and>
     (\<forall>r \<in> set (csr_rows c). 0 \<le> r \<and> r < int n_out) \<and> (\<forall>k \<in> set (cs_col c). 0 \<le> k \<and> k < int n_in) \<and>
     distinct (zip (csr_rows c) (cs_col c))"

definition layer_ok :: "vq_layer \<Rightarrow> bool" where
  "layer_ok l \<longleftrightarrow> 0 < ly_group l \<and> 0 < ly_block l \<and> ly_group l dvd ly_in l \<and> ly_block l dvd ly_in l \<and>
     length (ly_codebooks l) = length (ly_index l) \<and>
     (\<forall>bc \<in> set (zip (ly_index l) (ly_codebooks l)). buffer_ok (ly_group l) bc (ly_out l * (ly_in l div ly_group l))) \<and>
     length (ly_scales l) = ly_out l * (ly_in l div ly_block l) \<and>
     (ly_group_major l \<longrightarrow> \<not> list_ex is_planes (ly_index l)) \<and>
     (ly_cache l \<noteq> None \<longrightarrow> cs_col (ly_corr l) = []) \<and>
     (\<forall>c. correction_csr l = Some c \<longrightarrow> csr_ok (ly_out l) (ly_in l) c)"

lemma hi_vals_nth:
  assumes "hb \<in> {2, 4}" and "i < length (hi_vals hb hi)"
  shows "hi_vals hb hi ! i = drop_bit (8 - ((i mod (8 div hb)) + 1) * hb) (unat (hi ! (i * hb div 8))) AND (2 ^ hb - 1)"
proof -
  let ?per = "8 div hb" and ?slots = "\<lambda>b. map (\<lambda>j. drop_bit (8 - (j + 1) * hb) (unat b) AND (2 ^ hb - 1)) [0..<8 div hb]"
  have per: "0 < ?per" "i * hb div 8 = i div ?per" using assms(1) by auto
  have width: "\<forall>b \<in> set (map ?slots hi). length b = ?per" by auto
  have len: "length (hi_vals hb hi) = ?per * length hi" using length_concat_blocks [OF width] by (simp add: hi_vals_def)
  then have q: "i div ?per < length hi" using assms(2) by (simp add: less_mult_imp_div_less mult.commute)
  have "hi_vals hb hi ! i = map ?slots hi ! (i div ?per) ! (i mod ?per)"
    unfolding hi_vals_def using assms(2) len by (intro concat_nth_blocks [OF width]) simp
  then show ?thesis using q per by simp
qed

text \<open>The kernel reads the index the layer stands for.\<close>

lemma kernel_index_value:
  assumes "buffer_ok g bc n" and "i < n"
  shows "kernel_index (fst bc) i = nat (stage_indices_int (fst bc) ! i)"
proof (cases "fst bc")
  case (Planes w lo hi)
  then have w: "w - 8 \<in> {2, 4}" "length lo = n" "length (stage_indices_int (fst bc)) = n"
    using assms(1) by (auto simp: buffer_ok_def stage_fits_def)
  then have enough: "n \<le> length (hi_vals (w - 8) hi)" by (simp add: stage_indices_int_def Planes)
  then show ?thesis
    using assms(2) w hi_vals_nth [OF w(1), of i hi] by (simp add: kernel_index_def stage_indices_int_def Planes Let_def)
qed (simp add: kernel_index_def stage_indices_int_def)

lemma gather:
  assumes "buffer_ok g bc n" and "i < n" and "e < g"
  shows "concat (snd bc) ! (kernel_index (fst bc) i * g + e) = snd bc ! nat (stage_indices_int (fst bc) ! i) ! e"
proof -
  let ?j = "nat (stage_indices_int (fst bc) ! i)"
  have fit: "length (stage_indices_int (fst bc)) = n" "\<forall>r \<in> set (snd bc). length r = g"
    "\<forall>k \<in> set (stage_indices_int (fst bc)). 0 \<le> k \<and> k < int (length (snd bc))"
    using assms(1) by (simp_all add: buffer_ok_def stage_fits_def)
  then have j: "?j < length (snd bc)" using assms(2) by (simp add: nat_less_iff)
  have "?j * g + e < g * length (snd bc)"
  proof -
    have "?j * g + e < Suc ?j * g" using assms(3) by simp
    also have "\<dots> \<le> length (snd bc) * g" using j by (intro mult_le_mono1) (simp add: Suc_leI)
    finally show ?thesis by (simp add: mult.commute)
  qed
  then have "concat (snd bc) ! (?j * g + e) = snd bc ! ((?j * g + e) div g) ! ((?j * g + e) mod g)"
    by (rule concat_nth_blocks [OF fit(2)])
  then show ?thesis using assms kernel_index_value [OF assms(1,2)] by simp
qed

section \<open>The weight of a well-formed layer\<close>

text \<open>The value at row \<open>m\<close> and column \<open>k\<close>, all stages.\<close>

definition weight_at :: "vq_layer \<Rightarrow> nat \<Rightarrow> nat \<Rightarrow> real" where
  "weight_at l m k =
     (\<Sum>bc\<leftarrow>zip (ly_index l) (ly_codebooks l).
        snd bc ! nat (stage_indices_int (fst bc) ! index_offset l m (k div ly_group l)) ! (k mod ly_group l)) *
     ly_scales l ! scale_offset l m (k div ly_block l)"

lemma offset_bound: "m < n \<Longrightarrow> q < r \<Longrightarrow> m * r + q < n * r" for m :: nat
proof -
  assume "m < n" "q < r"
  then have "m * r + q < Suc m * r" "Suc m * r \<le> n * r" by (simp, intro mult_le_mono1) simp
  then show ?thesis by linarith
qed

lemma offsets_in_range:
  assumes "m < ly_out l" and "q < r"
  shows "(if ly_group_major l then q * ly_out l + m else m * r + q) < ly_out l * r"
  using assms offset_bound [of m "ly_out l" q r] offset_bound [of q r m "ly_out l"] by (simp add: mult.commute)

lemma row_major_nth:
  assumes "length xs = ly_out l * r" and "m < ly_out l" and "q < r"
  shows "row_major l (ly_out l * r) xs ! (m * r + q) = xs ! (if ly_group_major l then q * ly_out l + m else m * r + q)"
proof (cases "ly_group_major l")
  case True
  have "m * r + q < r * ly_out l" using offset_bound [OF assms(2,3)] by (simp add: mult.commute)
  then show ?thesis using True assms by (simp add: row_major_def transpose_flat_def)
qed (simp add: row_major_def)

lemma row_major_range: "length xs = ly_out l * r \<Longrightarrow> set (row_major l (ly_out l * r) xs) \<subseteq> set xs \<and> length (row_major l (ly_out l * r) xs) = ly_out l * r"
proof -
  assume len: "length xs = ly_out l * r"
  have "xs ! (i mod r * ly_out l + i div r) \<in> set xs" if "i < r * ly_out l" for i
  proof -
    have "0 < r" "i div r < ly_out l" using that by (cases r; simp add: less_mult_imp_div_less mult.commute)+
    then have "i mod r * ly_out l + i div r < r * ly_out l" by (intro offset_bound) simp_all
    then show ?thesis using len by (simp add: mult.commute)
  qed
  then show ?thesis using len by (cases "ly_out l = 0") (auto simp: row_major_def transpose_flat_def)
qed

lemma scaled_weight_value:
  assumes "layer_ok l"
  shows "scaled_weight l = Inr (map (\<lambda>p. weight_at l (p div ly_in l) (p mod ly_in l)) [0..<ly_out l * ly_in l])"
proof -
  let ?M = "ly_out l" and ?K = "ly_in l" and ?g = "ly_group l" and ?b = "ly_block l" and ?Z = "zip (ly_index l) (ly_codebooks l)"
  have ok: "0 < ?g" "0 < ?b" "?g dvd ?K" "?b dvd ?K" "\<forall>bc \<in> set ?Z. buffer_ok ?g bc (?M * (?K div ?g))" "length (ly_scales l) = ?M * (?K div ?b)"
    using assms by (auto simp: layer_ok_def)
  let ?gpr = "?K div ?g" and ?bpr = "?K div ?b"
  have K: "?K = ?gpr * ?g" "?K = ?bpr * ?b" using ok(3,4) by simp_all
  have tg: "?M * ?K div ?g = ?M * ?gpr" using ok(3) by (simp add: div_mult_swap)
  have total: "?M * ?K = (?M * ?gpr) * ?g" "?M * ?K = (?M * ?bpr) * ?b" using K by (metis mult.assoc)+
  have n: "ceil_div (?M * ?K) ?g = ?M * ?gpr" "ceil_div (?M * ?K) ?b = ?M * ?bpr"
    unfolding total(1) ceil_div_exact [OF ok(1)] by (rule refl) (simp only: total(2) ceil_div_exact [OF ok(2)] flip: total(1))
  let ?pairs = "map (\<lambda>bc. (snd bc, row_major l (?M * ?gpr) (stage_indices_int (fst bc)))) ?Z"
  have fits: "\<forall>ci \<in> set ?pairs. stage_fits (?M * ?gpr) ?g ci"
    using ok(5) row_major_range [of _ l ?gpr] by (fastforce simp: buffer_ok_def stage_fits_def)
  have fold: "foldM (\<lambda>acc (buf, cb). bind_err (mapM (py_get BadIndex cb) (row_major l (?M * ?gpr) (stage_indices_int buf))) (\<lambda>rows.
        add_into acc (concat rows))) acc ?Z = foldM stage_add acc ?pairs" for acc
    unfolding foldM_map by (auto intro!: foldM_cong simp: stage_add_def split_def)
  let ?raw = "map (\<lambda>p. \<Sum>ci\<leftarrow>?pairs. fst ci ! nat (snd ci ! (p div ?g)) ! (p mod ?g)) [0..<?M * ?K]"
  have "foldM stage_add (replicate (?M * ?K) 0) ?pairs = Inr ?raw"
    using stage_adds_value [OF fits, of "replicate (?M * ?K) 0"] unfolding total(1) [symmetric] by (simp cong: map_cong)
  then have sum: "stage_sum l = Inr ?raw"
    unfolding stage_sum_def Let_def tg n(1) fold total(1) [symmetric] by simp
  have rm: "length (row_major l (?M * ?bpr) (ly_scales l)) = ?M * ?bpr" using row_major_range ok(6) by blast
  have "scaled_weight l = Inr (map (\<lambda>i. ?raw ! i * row_major l (?M * ?bpr) (ly_scales l) ! (i div ?b)) [0..<?M * ?K])"
    using scale_blocks_map(1) [OF ok(2), of "row_major l (?M * ?bpr) (ly_scales l)" ?raw] rm
    unfolding scaled_weight_def sum bind_err_simps Let_def by (simp add: n(2))
  also have "\<dots> = Inr (map (\<lambda>p. weight_at l (p div ?K) (p mod ?K)) [0..<?M * ?K])"
  proof -
    have "?raw ! p * row_major l (?M * ?bpr) (ly_scales l) ! (p div ?b) = weight_at l (p div ?K) (p mod ?K)" if p: "p < ?M * ?K" for p
    proof -
      let ?m = "p div ?K" and ?k = "p mod ?K"
      have K0: "0 < ?K" using p by (cases ?K) simp_all
      have m: "?m < ?M" using p by (simp add: less_mult_imp_div_less)
      have k: "?k < ?K" using K0 by simp
      have q: "?k div ?g < ?gpr" "?k div ?b < ?bpr" using k K by (metis less_mult_imp_div_less)+
      have pg: "p div ?g = ?m * ?gpr + ?k div ?g" "p mod ?g = ?k mod ?g" and pb: "p div ?b = ?m * ?bpr + ?k div ?b"
      proof -
        have "p = ?m * ?gpr * ?g + ?k" "p = ?m * ?bpr * ?b + ?k" using div_mult_mod_eq [of p ?K] K by (metis mult.assoc)+
        then show "p div ?g = ?m * ?gpr + ?k div ?g" "p mod ?g = ?k mod ?g" "p div ?b = ?m * ?bpr + ?k div ?b"
          using ok(1,2) by (metis div_mult_self3 less_numeral_extra(3), metis mod_mult_self3, metis div_mult_self3 less_numeral_extra(3))
      qed
      have "row_major l (?M * ?gpr) (stage_indices_int (fst bc)) ! (p div ?g) = stage_indices_int (fst bc) ! index_offset l ?m (?k div ?g)"
        if "bc \<in> set ?Z" for bc
        using ok(5) that row_major_nth [of "stage_indices_int (fst bc)" l ?gpr ?m "?k div ?g"] m q(1)
        by (simp add: pg(1) index_offset_def buffer_ok_def stage_fits_def)
      then have "?raw ! p = (\<Sum>bc\<leftarrow>?Z. snd bc ! nat (stage_indices_int (fst bc) ! index_offset l ?m (?k div ?g)) ! (?k mod ?g))"
        using p by (simp add: comp_def pg(2) cong: map_cong)
      moreover have "row_major l (?M * ?bpr) (ly_scales l) ! (p div ?b) = ly_scales l ! scale_offset l ?m (?k div ?b)"
        using row_major_nth [OF ok(6) m q(2)] by (simp add: pb scale_offset_def)
      ultimately show ?thesis by (simp add: weight_at_def)
    qed
    then show ?thesis by simp
  qed
  finally show ?thesis .
qed


section \<open>The kernels compute the product\<close>

lemma index_offset_range: "m < ly_out l \<Longrightarrow> q < ly_in l div ly_group l \<Longrightarrow> index_offset l m q < ly_out l * (ly_in l div ly_group l)"
  unfolding index_offset_def by (rule offsets_in_range)

lemma kernel_stages_all: "length (ly_index l) \<le> 3 \<Longrightarrow> kernel_stages l = zip (ly_index l) (ly_codebooks l)"
  by (simp add: kernel_stages_def)

lemma stage_gather:
  assumes "layer_ok l" and "bc \<in> set (zip (ly_index l) (ly_codebooks l))" and "m < ly_out l" and "q < ly_in l div ly_group l" and "e < ly_group l"
  shows "concat (snd bc) ! (kernel_index (fst bc) (index_offset l m q) * ly_group l + e) =
    snd bc ! nat (stage_indices_int (fst bc) ! index_offset l m q) ! e"
  using assms index_offset_range [OF assms(3,4)] by (intro gather) (auto simp: layer_ok_def)

lemma tile_weight_value:
  assumes "layer_ok l" and "length (ly_index l) \<le> 3" and "m < ly_out l" and "k < ly_in l"
  shows "tile_weight l m k = weight_at l m k"
proof -
  have g: "0 < ly_group l" "k mod ly_group l < ly_group l" using assms(1) by (auto simp: layer_ok_def)
  have "k < ly_in l div ly_group l * ly_group l" using assms(1,4) by (simp add: layer_ok_def)
  then have q: "k div ly_group l < ly_in l div ly_group l" by (rule less_mult_imp_div_less)
  show ?thesis
    unfolding tile_weight_def weight_at_def kernel_stages_all [OF assms(2)] split_def
    using stage_gather [OF assms(1) _ assms(3) q g(2)] by (simp cong: map_cong)
qed

lemma sum_tiles: "(\<Sum>t<n. \<Sum>k\<in>{t * b..<min K ((t + 1) * b)}. f k) = (\<Sum>k<min K (n * b). f k)" for f :: "nat \<Rightarrow> real"
proof (induction n)
  case (Suc n)
  have "(\<Sum>k<min K (n * b). f k) + (\<Sum>k\<in>{n * b..<min K ((n + 1) * b)}. f k) = (\<Sum>k<min K (Suc n * b). f k)"
  proof (cases "n * b \<le> K")
    case True
    then have "n * b \<le> min K ((n + 1) * b)" by simp
    from sum.atLeastLessThan_concat [OF le0 this, of f] show ?thesis using True by (simp add: lessThan_atLeast0 min_absorb2)
  next
    case False
    then have "min K (n * b) = K" "min K (Suc n * b) = K" "{n * b..<min K ((n + 1) * b)} = {}" by auto
    then show ?thesis by simp
  qed
  then show ?case using Suc by simp
qed simp

lemma gemm_entry_value:
  assumes "layer_ok l" and "length (ly_index l) \<le> 3" and "m < ly_out l" and "0 < bk"
  shows "gemm_entry bk l x m = (\<Sum>k<ly_in l. x ! k * weight_at l m k)"
proof -
  have "min (ly_in l) (ceil_div (ly_in l) bk * bk) = ly_in l" using ceil_div_mult_ge [OF assms(4), of "ly_in l"] by (simp add: mult.commute)
  then have "gemm_entry bk l x m = (\<Sum>k<ly_in l. x ! k * tile_weight l m k)" by (simp only: gemm_entry_def sum_tiles)
  also have "\<dots> = (\<Sum>k<ly_in l. x ! k * weight_at l m k)"
    by (intro sum.cong) (simp_all add: tile_weight_value [OF assms(1-3)])
  finally show ?thesis .
qed

lemma sum_list_sum_swap: "(\<Sum>s\<leftarrow>ss. \<Sum>e<n. f s e * y e) = (\<Sum>e<n. (\<Sum>s\<leftarrow>ss. f s e) * y e)" for f :: "'s \<Rightarrow> nat \<Rightarrow> real"
  by (induction ss) (simp_all add: sum.distrib distrib_right)

lemma sum_groups: "(\<Sum>g<n. \<Sum>e<G. f (g * G + e)) = (\<Sum>k<n * G. f k)" for f :: "nat \<Rightarrow> real"
proof -
  have "(\<Sum>e<G. f (g * G + e)) = sum f {g * G..<g * G + G}" for g
    by (simp add: sum.atLeastLessThan_shift_0 [of f "g * G"] lessThan_atLeast0 comp_def)
  then show ?thesis by (simp add: sum.nat_group)
qed

lemma decode_row_value:
  assumes "layer_ok l" and "length (ly_index l) \<le> 3" and "m < ly_out l" and "ly_group l dvd ly_block l"
  shows "decode_row l x m = (\<Sum>k<ly_in l. x ! k * weight_at l m k)"
proof -
  let ?G = "ly_group l" and ?gpr = "ly_in l div ly_group l" and ?Z = "zip (ly_index l) (ly_codebooks l)"
  have ok: "0 < ?G" "?gpr * ?G = ly_in l" using assms(1) by (auto simp: layer_ok_def)
  have group: "ly_scales l ! scale_offset l m (g div (ly_block l div ?G)) *
      (\<Sum>bc\<leftarrow>?Z. \<Sum>e<?G. concat (snd bc) ! (kernel_index (fst bc) (index_offset l m g) * ?G + e) * x ! (g * ?G + e)) =
      (\<Sum>e<?G. x ! (g * ?G + e) * weight_at l m (g * ?G + e))" if g: "g < ?gpr" for g
  proof -
    have "(\<Sum>bc\<leftarrow>?Z. concat (snd bc) ! (kernel_index (fst bc) (index_offset l m g) * ?G + e)) *
        (ly_scales l ! scale_offset l m (g div (ly_block l div ?G))) = weight_at l m (g * ?G + e)" if e: "e < ?G" for e
    proof -
      have k: "(g * ?G + e) div ?G = g" "(g * ?G + e) mod ?G = e" using e by simp_all
      have "(g * ?G + e) div ly_block l = (g * ?G + e) div (?G * (ly_block l div ?G))" using assms(4) by simp
      then have b: "(g * ?G + e) div ly_block l = g div (ly_block l div ?G)" by (simp only: div_mult2_eq k(1))
      show ?thesis unfolding weight_at_def k b using stage_gather [OF assms(1) _ assms(3) g e] by (simp cong: map_cong)
    qed
    then have e: "(\<Sum>bc\<leftarrow>?Z. concat (snd bc) ! (kernel_index (fst bc) (index_offset l m g) * ?G + e)) * x ! (g * ?G + e) *
        ly_scales l ! scale_offset l m (g div (ly_block l div ?G)) = weight_at l m (g * ?G + e) * x ! (g * ?G + e)" if "e < ?G" for e
      using that by (simp only: mult.assoc mult.commute [of "x ! _"]) (simp only: mult.assoc [symmetric])
    show ?thesis
      unfolding sum_list_sum_swap mult.commute [of "ly_scales l ! _"] sum_distrib_right mult.commute [of "x ! _"]
      by (rule sum.cong [OF refl]) (rule e, simp)
  qed
  have "decode_row l x m = (\<Sum>g<?gpr. \<Sum>e<?G. x ! (g * ?G + e) * weight_at l m (g * ?G + e))"
    unfolding decode_row_def kernel_stages_all [OF assms(2)] split_def by (intro sum.cong refl) (simp add: group)
  then show ?thesis by (simp add: sum_groups [where f = "\<lambda>k. x ! k * weight_at l m k"] ok(2))
qed

text \<open>Whichever kernel a batch takes, it multiplies by the weight without the correction.\<close>

definition kernel_ready :: "vq_layer \<Rightarrow> bool" where
  "kernel_ready l \<longleftrightarrow>
     layer_ok l \<and> 0 < ly_in l \<and> ly_index l \<noteq> [] \<and> length (ly_index l) \<le> 3 \<and> ly_group l dvd ly_block l"

lemma run_kernel_value:
  assumes "kernel_ready l" and "0 < bk" and "scaled_weight l = Inr base"
  shows "run_kernel p bk l xs = Inr (map (\<lambda>x. map (cast_half p) (linear (ly_out l) (ly_in l) base x)) xs)"
proof -
  have ok: "layer_ok l" "length (ly_index l) \<le> 3" "ly_group l dvd ly_block l" "ly_index l \<noteq> []"
    using assms(1) by (auto simp: kernel_ready_def)
  have base: "base = map (\<lambda>p. weight_at l (p div ly_in l) (p mod ly_in l)) [0..<ly_out l * ly_in l]"
    using scaled_weight_value [OF ok(1)] assms(3) by simp
  have entry: "(\<Sum>k<ly_in l. x ! k * weight_at l m k) = (\<Sum>k<ly_in l. x ! k * base ! (m * ly_in l + k))" if "m < ly_out l" for x m
    by (intro sum.cong refl) (use that offset_bound in \<open>simp add: base\<close>)
  have "ly_block l div ly_group l \<noteq> 0" using ok(1,3) by (auto simp: layer_ok_def elim!: dvdE)
  then have one: "vq_decode_n1 p l x = Inr (map (cast_half p) (linear (ly_out l) (ly_in l) base x))" for x
    using decode_row_value [OF ok(1,2) _ ok(3)] entry by (simp add: vq_decode_n1_def linear_def)
  have many: "map (\<lambda>m. cast_half p (gemm_entry bk l x m)) [0..<ly_out l] = map (cast_half p) (linear (ly_out l) (ly_in l) base x)" for x
    using gemm_entry_value [OF ok(1,2) _ assms(2)] entry by (simp add: linear_def)
  show ?thesis unfolding run_kernel_def vq_gemm_def many using one ok(4) by (auto split: list.splits)
qed


section \<open>The correction is added once, wherever it lives\<close>

lemma scaled_weight_cache: "scaled_weight (l\<lparr>ly_cache := s, ly_corr := c\<rparr>) = scaled_weight l"
  by (simp add: scaled_weight_def stage_sum_def row_major_def cong: if_cong)

lemma correction_sparse_view:
  assumes "layer_ok l"
  obtains l' where "correction_sparse l = (correction_csr l, l')" and "correction_csr l' = correction_csr l"
    and "scaled_weight l' = scaled_weight l" and "reconstruct_weight l' = reconstruct_weight l" and "layer_ok l'"
    and "ly_out l' = ly_out l" and "ly_in l' = ly_in l" and "ly_bias l' = ly_bias l" and "ly_index l' = ly_index l"
    and "ly_group l' = ly_group l" and "ly_block l' = ly_block l" and "cs_col (ly_corr l') = []"
proof (cases "ly_cache l = None \<and> cs_col (ly_corr l) \<noteq> []")
  case True
  let ?l = "l\<lparr>ly_cache := Some (ly_corr l), ly_corr := freed\<rparr>"
  have view: "correction_csr ?l = correction_csr l" using True by (simp add: correction_csr_def freed_def)
  have sw: "scaled_weight ?l = scaled_weight l"
    by (rule scaled_weight_cache)
  then have rw: "reconstruct_weight ?l = reconstruct_weight l"
    unfolding reconstruct_weight_def view by (simp cong: option.case_cong)
  have ok: "layer_ok ?l" using assms view unfolding layer_ok_def index_offset_def by (simp add: freed_def)
  have "correction_sparse l = (correction_csr l, ?l)" using True by (simp add: correction_sparse_def correction_csr_def)
  then show thesis using that [of ?l] view sw rw ok by (simp add: freed_def)
next
  case False
  then have "correction_sparse l = (correction_csr l, l)" "cs_col (ly_corr l) = []"
    using assms by (auto simp: correction_sparse_def correction_csr_def layer_ok_def split: option.splits)
  then show thesis using that [of l] assms by simp
qed

lemma lookup_sum:
  assumes "distinct (map fst E)" and "\<forall>(p, v) \<in> set E. 0 \<le> p" and "0 < K"
  shows "(\<Sum>k<K. x ! k * (case map_of E (int (m * K + k)) of Some v \<Rightarrow> v | None \<Rightarrow> 0)) =
    (\<Sum>(p, v)\<leftarrow>E. if p div int K = int m then v * x ! nat (p mod int K) else (0 :: real))"
  using assms(1,2)
proof (induction E)
  case (Cons pv E)
  obtain p v where pv: "pv = (p, v)" by (cases pv)
  let ?look = "\<lambda>E k. case map_of E (int (m * K + k)) of Some v \<Rightarrow> v | None \<Rightarrow> (0 :: real)"
  have p: "0 \<le> p" "p \<notin> fst ` set E" using Cons.prems by (auto simp: pv)
  then obtain q where q: "p = int q" by (metis nonneg_int_cases)
  have "?look (pv # E) k = ?look E k + (if int (m * K + k) = p then v else 0)" for k
  proof -
    have "map_of E p = None" using p(2) by (simp add: map_of_eq_None_iff)
    then show ?thesis by (auto simp: pv)
  qed
  then have "(\<Sum>k<K. x ! k * ?look (pv # E) k) = (\<Sum>k<K. x ! k * ?look E k) + (\<Sum>k<K. x ! k * (if int (m * K + k) = p then v else 0))"
    by (simp add: sum.distrib distrib_left)
  moreover have "(\<Sum>k<K. x ! k * (if int (m * K + k) = p then v else 0)) = (if p div int K = int m then v * x ! nat (p mod int K) else 0)"
  proof -
    have eq: "int (m * K + k) = p \<longleftrightarrow> q div K = m \<and> k = q mod K" if "k < K" for k
      using that by (simp add: q del: of_nat_add of_nat_mult) auto
    have "(\<Sum>k<K. x ! k * (if int (m * K + k) = p then v else 0)) = (\<Sum>k<K. if k = q mod K then (if q div K = m then x ! k * v else 0) else 0)"
    proof (rule sum.cong [OF refl])
      fix k assume "k \<in> {..<K}"
      then have "int (m * K + k) = p \<longleftrightarrow> q div K = m \<and> k = q mod K" using eq by simp
      then show "x ! k * (if int (m * K + k) = p then v else 0) = (if k = q mod K then (if q div K = m then x ! k * v else 0) else 0)"
        by (simp only:) simp
    qed
    also have "\<dots> = (if q div K = m then x ! (q mod K) * v else 0)" using assms(3) by simp
    finally show ?thesis by (simp add: q mult.commute flip: of_nat_div of_nat_mod)
  qed
  ultimately show ?case using Cons by (simp add: pv)
qed simp

lemma corrected_product:
  assumes "layer_ok l" and "scaled_weight l = Inr base" and "0 < ly_in l"
  shows "\<exists>w. reconstruct_weight l = Inr w \<and>
    (\<forall>x. linear (ly_out l) (ly_in l) w x =
      (case correction_csr l of None \<Rightarrow> linear (ly_out l) (ly_in l) base x
       | Some c \<Rightarrow> map2 (+) (linear (ly_out l) (ly_in l) base x) (sparse_mm (ly_out l) c x)))"
proof (cases "correction_csr l")
  case None
  then show ?thesis using assms(2) by (simp add: reconstruct_weight_def)
next
  case (Some c)
  let ?M = "ly_out l" and ?K = "ly_in l" and ?rows = "csr_rows c" and ?cols = "cs_col c" and ?vals = "cs_val c"
  have c: "length ?rows = length ?cols" "length ?vals = length ?cols" "\<forall>r \<in> set ?rows. 0 \<le> r \<and> r < int ?M"
    "\<forall>k \<in> set ?cols. 0 \<le> k \<and> k < int ?K" "distinct (zip ?rows ?cols)"
    using assms(1) Some by (auto simp: layer_ok_def csr_ok_def)
  have lb: "length base = ?M * ?K" using scaled_weight_value [OF assms(1)] assms(2) by auto
  let ?key = "\<lambda>(r, k). r * int ?K + k"
  let ?E = "zip (map2 (\<lambda>r k. r * int ?K + k) ?rows ?cols) ?vals"
  have keys: "map fst ?E = map ?key (zip ?rows ?cols)" using c(1,2) by simp
  have cell: "0 \<le> r \<and> r < int ?M \<and> 0 \<le> k \<and> k < int ?K" if "(r, k) \<in> set (zip ?rows ?cols)" for r k
    using that c(3,4) by (auto dest: set_zip_leftD set_zip_rightD)
  have split: "(r * int ?K + k) div int ?K = r \<and> (r * int ?K + k) mod int ?K = k" if "0 \<le> k" "k < int ?K" for r k
    using that by simp
  have "inj_on ?key (set (zip ?rows ?cols))"
    by (rule inj_onI) (use cell split in \<open>metis (mono_tags, lifting) case_prod_unfold prod.collapse\<close>)
  then have dist: "distinct (map fst ?E)" using c(5) by (simp only: keys distinct_map) 
  have range: "0 \<le> p \<and> p < int (length base)" if "(p, v) \<in> set ?E" for p v
  proof -
    have "p \<in> set (map fst ?E)" using that by force
    then obtain r k where rk: "(r, k) \<in> set (zip ?rows ?cols)" "p = r * int ?K + k" unfolding keys by auto
    note cell [OF rk(1)]
    then obtain r' k' where n: "r = int r'" "k = int k'" "r' < ?M" "k' < ?K" by (metis nonneg_int_cases of_nat_less_iff)
    have "p = int (r' * ?K + k')" by (simp add: rk(2) n)
    moreover have "r' * ?K + k' < length base" unfolding lb by (rule offset_bound [OF n(3,4)])
    ultimately show ?thesis by (simp only: of_nat_less_iff of_nat_0_le_iff simp_thms)
  qed
  have keep: "filter (\<lambda>(p, v). p < int (length base)) ?E = ?E" using range by (intro filter_True) auto
  have "\<forall>(p, v) \<in> set ?E. 0 \<le> p \<and> p < int (length base)" using range by blast
  from add_values_nth [OF this dist] obtain w where w: "add_values base ?E = Inr w"
    "\<forall>i < length base. w ! i = base ! i + (case map_of ?E (int i) of Some v \<Rightarrow> v | None \<Rightarrow> 0)" by blast
  have rec: "reconstruct_weight l = Inr w"
    unfolding reconstruct_weight_def assms(2) bind_err_simps Some option.case keep by (rule w(1))
  have "linear ?M ?K w x = map2 (+) (linear ?M ?K base x) (sparse_mm ?M c x)" for x
  proof (rule nth_equalityI)
    fix m assume "m < length (linear ?M ?K w x)"
    then have m: "m < ?M" by (simp add: linear_def)
    have "(\<Sum>k<?K. x ! k * w ! (m * ?K + k)) =
        (\<Sum>k<?K. x ! k * base ! (m * ?K + k)) + (\<Sum>k<?K. x ! k * (case map_of ?E (int (m * ?K + k)) of Some v \<Rightarrow> v | None \<Rightarrow> 0))"
      unfolding sum.distrib [symmetric] by (intro sum.cong refl) (use w(2) offset_bound [OF m] in \<open>simp add: lb distrib_left\<close>)
    also have "(\<Sum>k<?K. x ! k * (case map_of ?E (int (m * ?K + k)) of Some v \<Rightarrow> v | None \<Rightarrow> 0)) =
        (\<Sum>(p, v)\<leftarrow>?E. if p div int ?K = int m then v * x ! nat (p mod int ?K) else 0)"
      by (rule lookup_sum [OF dist _ assms(3)]) (use range in blast)
    also have "\<dots> = (\<Sum>(r, k, v)\<leftarrow>zip ?rows (zip ?cols ?vals). if r = int m then v * x ! nat k else 0)"
    proof -
      have E: "?E = map (\<lambda>(r, k, v). (r * int ?K + k, v)) (zip ?rows (zip ?cols ?vals))"
        by (rule nth_equalityI) (use c(1,2) in simp_all)
      have "(case (case t of (r, k, v) \<Rightarrow> (r * int ?K + k, v)) of (p, v) \<Rightarrow> if p div int ?K = int m then v * x ! nat (p mod int ?K) else 0) =
          (case t of (r, k, v) \<Rightarrow> if r = int m then v * x ! nat k else 0)" if "t \<in> set (zip ?rows (zip ?cols ?vals))" for t
      proof -
        obtain r k v where t: "t = (r, k, v)" by (cases t)
        then have "0 \<le> k" "k < int ?K" using that c(4) by (auto dest!: set_zip_rightD [of _ "(k, v)"] dest: set_zip_leftD)
        from split [OF this, of r] show ?thesis unfolding t prod.case by (simp only:)
      qed
      then show ?thesis unfolding E map_map comp_def by (intro arg_cong [where f = sum_list] map_cong refl)
    qed
    finally show "linear ?M ?K w x ! m = map2 (+) (linear ?M ?K base x) (sparse_mm ?M c x) ! m"
      using m by (simp add: linear_def sparse_mm_def)
  qed (simp add: linear_def sparse_mm_def)
  then show ?thesis using rec Some by simp
qed


section \<open>A sequence of batches\<close>

text \<open>What the paths return for a row of a batch: a kernel's product with the weight without overrides, cast to fp16, the cast sparse
  product added to it, the bias; or the dense product with the whole weight.\<close>

definition kernel_product :: "casts \<Rightarrow> vq_layer \<Rightarrow> real list \<Rightarrow> real list \<Rightarrow> real list" where
  "kernel_product p l base x = map (cast_half p) (linear (ly_out l) (ly_in l) base (map (cast_half p) x))"

definition corrected_forward :: "casts \<Rightarrow> vq_layer \<Rightarrow> real list \<Rightarrow> real list \<Rightarrow> real list \<Rightarrow> real list" where
  "corrected_forward p l base x_corr x =
     map (cast_input p) (add_bias l (add_correction p (ly_out l) (correction_csr l) x_corr (kernel_product p l base x)))"

definition base_forward :: "casts \<Rightarrow> vq_layer \<Rightarrow> real list \<Rightarrow> real list list \<Rightarrow> real list list" where
  "base_forward p l base xs = map (\<lambda>x. map (cast_input p) (add_bias l (kernel_product p l base x))) xs"

definition dense_forward :: "casts \<Rightarrow> vq_layer \<Rightarrow> real list \<Rightarrow> real list \<Rightarrow> real list" where
  "dense_forward p l w x = map (cast_input p) (add_bias l (linear (ly_out l) (ly_in l) w x))"

definition exact_casts :: "casts \<Rightarrow> bool" where
  "exact_casts p \<longleftrightarrow> (\<forall>v. cast_half p v = v)"

text \<open>A layer with planes of different widths takes the fallback, any other one a kernel.\<close>

definition falls_back :: "vq_layer \<Rightarrow> bool" where
  "falls_back l \<longleftrightarrow> list_ex is_planes (ly_index l) \<and> \<not> planes_uniform l"

definition served :: "casts \<Rightarrow> vq_layer \<Rightarrow> real list \<Rightarrow> real list \<Rightarrow> real list \<Rightarrow> real list" where
  "served p l base w x =
     (if falls_back l then dense_forward p l w x else corrected_forward p l base (map (cast_half p) x) x)"

lemma exact_map: "exact_casts p \<Longrightarrow> map (cast_half p) xs = xs"
  by (simp add: exact_casts_def map_idI)

lemma ready_weights:
  assumes "kernel_ready l"
  obtains base w where "scaled_weight l = Inr base" and "reconstruct_weight l = Inr w"
    and "\<And>p. forward_python p l xs = Inr (map (dense_forward p l w) xs)"
    and "\<And>p x. exact_casts p \<Longrightarrow> corrected_forward p l base x x = dense_forward p l w x"
proof -
  have ok: "layer_ok l" "0 < ly_in l" using assms by (auto simp: kernel_ready_def)
  obtain base where base: "scaled_weight l = Inr base" using scaled_weight_value [OF ok(1)] by simp
  from corrected_product [OF ok(1) base ok(2)] obtain w where w: "reconstruct_weight l = Inr w"
    "\<forall>x. linear (ly_out l) (ly_in l) w x = (case correction_csr l of None \<Rightarrow> linear (ly_out l) (ly_in l) base x
       | Some c \<Rightarrow> map2 (+) (linear (ly_out l) (ly_in l) base x) (sparse_mm (ly_out l) c x))" by blast
  have "forward_python p l xs = Inr (map (dense_forward p l w) xs)" for p
    by (simp add: forward_python_def w(1) lift_err_def dense_forward_def)
  moreover have "corrected_forward p l base x x = dense_forward p l w x" if "exact_casts p" for p x
    using w(2) by (simp add: corrected_forward_def dense_forward_def kernel_product_def add_correction_def exact_map [OF that] split: option.splits)
  ultimately show thesis using that base w(1) by blast
qed

lemma planes_uniform_some: "planes_uniform l \<Longrightarrow> list_ex is_planes (ly_index l)"
  by (cases "ly_index l"; cases "hd (ly_index l)") (auto simp: planes_uniform_def Let_def)

text \<open>What a forward pass may change: the place of the correction and nothing else.\<close>

definition same_layer :: "vq_layer \<Rightarrow> vq_layer \<Rightarrow> bool" where
  "same_layer l l' \<longleftrightarrow> correction_csr l' = correction_csr l \<and> scaled_weight l' = scaled_weight l \<and>
     reconstruct_weight l' = reconstruct_weight l \<and> ly_out l' = ly_out l \<and> ly_in l' = ly_in l \<and> ly_bias l' = ly_bias l \<and>
     ly_index l' = ly_index l \<and> (kernel_ready l \<longrightarrow> kernel_ready l')"

lemma same_layer_refl: "same_layer l l"
  by (simp add: same_layer_def)

lemma same_layer_trans: "same_layer l l' \<Longrightarrow> same_layer l' l'' \<Longrightarrow> same_layer l l''"
  by (simp add: same_layer_def)

lemma same_layer_forms:
  assumes "same_layer l l'"
  shows "add_bias l' = add_bias l" and "forward_python p l' = forward_python p l" and "served p l' = served p l"
    and "base_forward p l' = base_forward p l" and "planes_uniform l' = planes_uniform l"
proof -
  show bias: "add_bias l' = add_bias l" using assms by (simp add: same_layer_def add_bias_def fun_eq_iff)
  show same: "planes_uniform l' = planes_uniform l" using assms by (simp add: same_layer_def planes_uniform_def)
  show "forward_python p l' = forward_python p l" "base_forward p l' = base_forward p l"
    using assms by (simp_all add: same_layer_def forward_python_def bias kernel_product_def base_forward_def fun_eq_iff)
  have "falls_back l' = falls_back l" using assms by (simp add: falls_back_def same same_layer_def)
  then show "served p l' = served p l"
    using assms by (simp add: same_layer_def bias served_def dense_forward_def corrected_forward_def kernel_product_def fun_eq_iff)
qed

lemma correction_sparse_same:
  assumes "kernel_ready l"
  obtains l' where "correction_sparse l = (correction_csr l, l')" and "same_layer l l'" and "cs_col (ly_corr l') = []"
proof -
  have ok: "layer_ok l" using assms by (simp add: kernel_ready_def)
  from correction_sparse_view [OF ok] obtain l' where "correction_sparse l = (correction_csr l, l')"
    "correction_csr l' = correction_csr l" "scaled_weight l' = scaled_weight l" "reconstruct_weight l' = reconstruct_weight l" "layer_ok l'"
    "ly_out l' = ly_out l" "ly_in l' = ly_in l" "ly_bias l' = ly_bias l" "ly_index l' = ly_index l"
    "ly_group l' = ly_group l" "ly_block l' = ly_block l" "cs_col (ly_corr l') = []" by metis
  then show thesis using that by (simp add: same_layer_def kernel_ready_def)
qed

lemma forward_serves:
  assumes "kernel_ready l" and "0 < bk" and "planes_uniform l \<Longrightarrow> correction_csr l = None" and "scaled_weight l = Inr base"
    and "reconstruct_weight l = Inr w"
  obtains l' where "forward p bk l xs = Inr (map (served p l base w) xs, l')" and "same_layer l l'"
proof -
  note run = run_kernel_value [OF assms(1,2,4)]
  obtain l' where l': "correction_sparse l = (correction_csr l, l')" "same_layer l l'" by (rule correction_sparse_same [OF assms(1)])
  have dvd: "ly_in l mod ly_group l = 0" "ly_in l mod ly_block l = 0" using assms(1) by (auto simp: kernel_ready_def layer_ok_def)
  consider "\<not> list_ex is_planes (ly_index l)" | "planes_uniform l" "list_ex is_planes (ly_index l)" | "falls_back l"
    by (auto simp: falls_back_def)
  then show thesis
  proof cases
    case 1
    then have "forward p bk l xs = Inr (map (served p l base w) xs, l')"
      using dvd
      by (simp add: forward_def vq_linear_forward_def run l'(1) served_def falls_back_def corrected_forward_def kernel_product_def
          same_layer_forms(1) [OF l'(2)] zip_same_conv_map map_zip_map2 zip_map1 zip_map2)
    then show thesis using that l'(2) by blast
  next
    case 2
    then have none: "correction_csr l = None" using assms(3) by blast
    then have "plane_op_supported l" using 2(1) by (auto simp: plane_op_supported_def correction_csr_def split: if_splits)
    then have "forward p bk l xs = Inr (map (served p l base w) xs, l)"
      using 2 none
      by (simp add: forward_def forward_planed_def run served_def falls_back_def corrected_forward_def kernel_product_def add_correction_def)
    then show thesis using that same_layer_refl by blast
  next
    case 3
    then have "forward p bk l xs = bind_err (forward_python p l xs) (\<lambda>ys. Inr (ys, l))"
      by (simp add: forward_def forward_planed_def plane_op_supported_def falls_back_def)
    also have "\<dots> = Inr (map (served p l base w) xs, l)"
      using 3 by (simp add: forward_python_def assms(5) lift_err_def served_def dense_forward_def)
    finally show thesis using that same_layer_refl by blast
  qed
qed

lemma forwards_serve:
  assumes "kernel_ready l" and "0 < bk" and "planes_uniform l \<Longrightarrow> correction_csr l = None" and "scaled_weight l = Inr base"
    and "reconstruct_weight l = Inr w"
  shows "\<exists>l'. forwards p bk l batches = Inr (map (map (served p l base w)) batches, l') \<and> same_layer l l'"
  using assms(1,3-5)
proof (induction batches arbitrary: l)
  case (Cons xs batches)
  obtain l' where f: "forward p bk l xs = Inr (map (served p l base w) xs, l')" "same_layer l l'"
    by (rule forward_serves [OF Cons.prems(1) assms(2) Cons.prems(2-4)])
  have "kernel_ready l'" "planes_uniform l' \<Longrightarrow> correction_csr l' = None" "scaled_weight l' = Inr base" "reconstruct_weight l' = Inr w"
    using f(2) Cons.prems by (simp_all add: same_layer_def planes_uniform_def)
  from Cons.IH [OF this] obtain l'' where "forwards p bk l' batches = Inr (map (map (served p l' base w)) batches, l'')"
    "same_layer l' l''" by blast
  then show ?case using f(1) same_layer_trans [OF f(2)] by (auto simp: same_layer_forms(3) [OF f(2)])
qed (simp add: same_layer_refl)

text \<open>A planed layer with a correction: the first batch moves it, and from then on the custom op runs without it.\<close>

lemma planed_forward_first:
  assumes "kernel_ready l" and "0 < bk" and "planes_uniform l" and "cs_col (ly_corr l) \<noteq> []" and "scaled_weight l = Inr base"
  obtains l' where "forward p bk l xs = Inr (map (\<lambda>x. corrected_forward p l base x x) xs, l')" and "same_layer l l'"
    and "cs_col (ly_corr l') = []"
proof -
  obtain l' where l': "correction_sparse l = (correction_csr l, l')" "same_layer l l'" "cs_col (ly_corr l') = []"
    by (rule correction_sparse_same [OF assms(1)])
  have "forward p bk l xs = Inr (map (\<lambda>x. corrected_forward p l base x x) xs, l')"
    using assms planes_uniform_some [OF assms(3)]
    by (simp add: forward_def forward_planed_def plane_op_supported_def run_kernel_value [OF assms(1,2,5)] l'(1)
        corrected_forward_def kernel_product_def same_layer_forms(1) [OF l'(2)] zip_same_conv_map map_zip_map2 zip_map1 zip_map2)
  then show thesis using that l'(2,3) by blast
qed

lemma planed_forward_later:
  assumes "kernel_ready l" and "0 < bk" and "planes_uniform l" and "cs_col (ly_corr l) = []" and "scaled_weight l = Inr base"
  shows "forwards p bk l batches = Inr (map (base_forward p l base) batches, l)"
proof (induction batches)
  case (Cons xs batches)
  have "forward p bk l xs = Inr (base_forward p l base xs, l)"
    using assms planes_uniform_some [OF assms(3)]
    by (simp add: forward_def forward_planed_def plane_op_supported_def run_kernel_value [OF assms(1,2,5)] base_forward_def
        kernel_product_def comp_def)
  then show ?case using Cons by simp
qed simp

section \<open>The checkpoint\<close>

text \<open>A correction as the buffers store it: int32 offsets and columns, fp16 values.\<close>

definition stored_csr :: "(real \<Rightarrow> real) \<Rightarrow> csr \<Rightarrow> bool" where
  "stored_csr h c \<longleftrightarrow> (\<forall>i \<in> set (cs_rowptr c) \<union> set (cs_col c). 0 \<le> i \<and> i < 2 ^ 31) \<and> (\<forall>v \<in> set (cs_val c). h v = v)"

lemma correction_sparse_saved:
  assumes "stored_csr h (ly_corr l)" and "correction_sparse l = (sp, l')"
  shows "stored_csr h (ly_corr l') \<and> saved_correction h l' = saved_correction h l"
proof (cases "ly_cache l = None \<and> cs_col (ly_corr l) \<noteq> []")
  case True
  then have l': "l' = l\<lparr>ly_cache := Some (ly_corr l), ly_corr := freed\<rparr>" using assms(2) by (auto simp: correction_sparse_def)
  have "map (cast_int ''int32'') (cs_rowptr (ly_corr l)) = cs_rowptr (ly_corr l)" "map (cast_int ''int32'') (cs_col (ly_corr l)) = cs_col (ly_corr l)"
    "map h (cs_val (ly_corr l)) = cs_val (ly_corr l)"
    using assms(1) by (auto simp: stored_csr_def cast_small intro!: map_idI)
  then show ?thesis using True by (simp add: l' saved_correction_def correction_csr_def freed_def stored_csr_def)
next
  case False
  then have "l' = l" using assms(2) by (auto simp: correction_sparse_def split: option.splits if_splits)
  then show ?thesis using assms(1) by simp
qed

lemma forward_saved:
  assumes "stored_csr h (ly_corr l)" and "forward p bk l xs = Inr (ys, l')"
  shows "stored_csr h (ly_corr l') \<and> saved_correction h l' = saved_correction h l"
proof -
  obtain sp lc where c: "correction_sparse l = (sp, lc)" by (cases "correction_sparse l")
  have "l' = l \<or> l' = lc"
    using assms(2)
    by (auto simp: forward_def forward_planed_def vq_linear_forward_def Let_def bind_err_eq_Inr c split: if_splits sum.splits prod.splits)
  then show ?thesis using assms(1) correction_sparse_saved [OF assms(1) c] by auto
qed

text \<open>C9: A checkpoint never loses the correction. If the correction's buffers hold int32 offsets and columns and fp16 values, then
  after any sequence of batches, on any path and whatever the layer's shape, the checkpoint stores the correction it would have
  stored before the first batch, although the first batch may have freed the buffers.\<close>

theorem checkpoint_keeps_correction:
  assumes "stored_csr h (ly_corr l)" and "forwards p bk l batches = Inr (outs, l')"
  shows "saved_correction h l' = saved_correction h l"
  using assms
proof (induction batches arbitrary: l outs)
  case (Cons xs batches)
  then obtain ys l1 outs' where f: "forward p bk l xs = Inr (ys, l1)" "forwards p bk l1 batches = Inr (outs', l')"
    by (auto simp: bind_err_eq_Inr)
  from forward_saved [OF Cons.prems(1) f(1)] have "stored_csr h (ly_corr l1)" "saved_correction h l1 = saved_correction h l" by simp_all
  with Cons.IH [OF this(1) f(2)] show ?case by simp
qed simp

text \<open>C6: Every path multiplies by the layer's weight. Take a well-formed layer the Triton kernels accept (one to three stages, the
  group size dividing the block size, both dividing the rows) that does not have both two plane stages of one width and a sparse
  correction. Any sequence of batches runs without an error and every row of every batch is answered by \<open>served\<close>: by the decode
  kernel, the tiled kernel or the plane op alike, the product of the row, cast to fp16, with the weight without overrides, cast to fp16,
  plus the cast product with the correction, plus the bias; by the fallback, the product with the dense weight plus the bias. Where the
  fp16 casts lose nothing these are the same: the product with the dense weight. Afterwards the layer still stands for the same weight.\<close>

theorem every_path_serves_weight:
  assumes "kernel_ready l" and "0 < bk" and "planes_uniform l \<longrightarrow> correction_csr l = None"
  shows "\<exists>base w l'. scaled_weight l = Inr base \<and> reconstruct_weight l = Inr w \<and>
    forwards p bk l batches = Inr (map (map (served p l base w)) batches, l') \<and>
    (exact_casts p \<longrightarrow> mapM (forward_python p l) batches = Inr (map (map (served p l base w)) batches)) \<and>
    reconstruct_weight l' = reconstruct_weight l \<and> correction_csr l' = correction_csr l"
proof -
  obtain base w where W: "scaled_weight l = Inr base" "reconstruct_weight l = Inr w"
    "\<And>p x. exact_casts p \<Longrightarrow> corrected_forward p l base x x = dense_forward p l w x" by (rule ready_weights [OF assms(1)]) blast
  have "mapM (forward_python p l) batches = Inr (map (map (served p l base w)) batches)" if "exact_casts p"
    by (rule mapM_Inr)
      (use W(3) [OF that] in \<open>simp add: forward_python_def W(2) lift_err_def served_def exact_map [OF that] dense_forward_def\<close>)
  moreover from forwards_serve [OF assms(1,2) _ W(1,2), of p batches] assms(3) obtain l' where
    "forwards p bk l batches = Inr (map (map (served p l base w)) batches, l')" "same_layer l l'" by blast
  ultimately show ?thesis using W(1,2) by (auto simp: same_layer_def)
qed

text \<open>C27: Two plane stages of one width and a sparse correction do not go together. The first batch is served with the correction and
  frees the buffers; the custom op then finds no correction in the buffers and accepts the layer, so every later batch is multiplied by
  the weight without the correction, although the layer still stands for the corrected weight. Where the fp16 casts lose nothing, the
  first batch is the product with that weight.\<close>

theorem planed_layer_drops_correction:
  assumes "kernel_ready l" and "0 < bk" and "planes_uniform l" and "cs_col (ly_corr l) \<noteq> []" and "scaled_weight l = Inr base"
  shows "\<exists>first l'. forwards p bk l (xs # batches) = Inr (first # map (base_forward p l base) batches, l') \<and>
    first = map (\<lambda>x. corrected_forward p l base x x) xs \<and> (exact_casts p \<longrightarrow> forward_python p l xs = Inr first) \<and>
    reconstruct_weight l' = reconstruct_weight l"
proof -
  obtain l' where f: "forward p bk l xs = Inr (map (\<lambda>x. corrected_forward p l base x x) xs, l')" "same_layer l l'" "cs_col (ly_corr l') = []"
    by (rule planed_forward_first [OF assms])
  have "kernel_ready l'" "planes_uniform l'" "scaled_weight l' = Inr base"
    using f(2) assms(1,3,5) by (simp_all add: same_layer_def planes_uniform_def)
  from planed_forward_later [OF this(1) assms(2) this(2) f(3) this(3)]
  have "forwards p bk l (xs # batches) = Inr (map (\<lambda>x. corrected_forward p l base x x) xs # map (base_forward p l base) batches, l')"
    using f(1) by (simp add: same_layer_forms(4) [OF f(2)])
  moreover have "exact_casts p \<longrightarrow> forward_python p l xs = Inr (map (\<lambda>x. corrected_forward p l base x x) xs)"
    by (rule ready_weights [OF assms(1), of xs]) (use assms(5) in simp)
  ultimately show ?thesis using f(2) by (simp add: same_layer_def)
qed

section \<open>Concrete layers\<close>

text \<open>One output, two inputs, one group: the codeword (1, 2), and a correction of 3 at column 1.\<close>

definition flat_layer :: vq_layer where
  "flat_layer = \<lparr>ly_out = 1, ly_in = 2, ly_group = 2, ly_block = 2, ly_index = [Flat ''uint8'' [1]],
     ly_codebooks = [[[0, 0], [1, 2]]], ly_scales = [1], ly_corr = \<lparr>cs_rowptr = [0, 1], cs_col = [1], cs_val = [3]\<rparr>,
     ly_cache = None, ly_bias = None, ly_group_major = False\<rparr>"

text \<open>The same product from two stages of 1024 codewords, in planes of width 10.\<close>

definition planed_layer :: vq_layer where
  "planed_layer = flat_layer\<lparr>ly_index := [Planes 10 [0] [0], Planes 10 [0] [0]],
     ly_codebooks := [replicate 1024 [1, 2], replicate 1024 [0, 0]]\<rparr>"

lemma example_corr: "csr_ok 1 2 (ly_corr flat_layer)"
  by (simp add: flat_layer_def csr_ok_def csr_rows_def)

lemma flat_layer_ready: "kernel_ready flat_layer"
  using example_corr
  by (simp add: kernel_ready_def layer_ok_def buffer_ok_def stage_fits_def stage_indices_int_def correction_csr_def)
    (simp add: flat_layer_def stage_fits_def buffer_ok_def stage_indices_int_def)

lemma planed_indices: "stage_indices_int (Planes 10 [0] [0]) = [0]"
  by (simp add: stage_indices_int_def hi_vals_def take_map take_upt)

lemma planed_layer_ready: "kernel_ready planed_layer"
  using example_corr
  by (simp add: kernel_ready_def layer_ok_def buffer_ok_def stage_fits_def planed_indices correction_csr_def planed_layer_def)
    (simp add: flat_layer_def)


text \<open>Casts that keep the whole part.\<close>

definition whole_casts :: casts where
  "whole_casts = \<lparr>cast_half = (\<lambda>v. of_int \<lfloor>v\<rfloor>), cast_input = (\<lambda>v. v)\<rparr>"

lemma flat_layer_weight: "scaled_weight flat_layer = Inr [1, 2]"
proof -
  have ok: "layer_ok flat_layer" using flat_layer_ready by (simp add: kernel_ready_def)
  show ?thesis
    unfolding scaled_weight_value [OF ok]
    by (simp add: weight_at_def flat_layer_def stage_indices_int_def index_offset_def scale_offset_def numeral_2_eq_2)
qed

lemma planed_layer_weight: "scaled_weight planed_layer = Inr [1, 2]"
proof -
  have ok: "layer_ok planed_layer" using planed_layer_ready by (simp add: kernel_ready_def)
  show ?thesis
    unfolding scaled_weight_value [OF ok]
    by (simp add: weight_at_def planed_layer_def flat_layer_def planed_indices index_offset_def scale_offset_def upt_rec)
qed

lemma layer_products:
  "served whole_casts flat_layer [1, 2] w [1, 3 / 2] = [6]" "corrected_forward whole_casts planed_layer [1, 2] [1, 3 / 2] [1, 3 / 2] = [7]"
  "base_forward whole_casts planed_layer [1, 2] [[1, 3 / 2]] = [[3]]"
  by (simp_all add: served_def falls_back_def corrected_forward_def base_forward_def kernel_product_def whole_casts_def planed_layer_def
      flat_layer_def add_bias_def add_correction_def correction_csr_def linear_def sparse_mm_def csr_rows_def numeral_2_eq_2)

theorem every_path_serves_weight_witness:
  "\<exists>l'. forwards whole_casts 64 flat_layer [[[1, 3 / 2]], [[1, 3 / 2], [1, 3 / 2]]] = Inr ([[[6]], [[6], [6]]], l') \<and>
    correction_csr l' = correction_csr flat_layer"
proof -
  have "planes_uniform flat_layer \<longrightarrow> correction_csr flat_layer = None" by (simp add: planes_uniform_def flat_layer_def)
  from every_path_serves_weight [OF flat_layer_ready _ this, of 64 whole_casts "[[[1, 3 / 2]], [[1, 3 / 2], [1, 3 / 2]]]"] show ?thesis
    by (auto simp: flat_layer_weight layer_products)
qed

theorem planed_layer_drops_correction_witness:
  "\<exists>l'. forwards whole_casts 64 planed_layer [[[1, 3 / 2]], [[1, 3 / 2]]] = Inr ([[[7]], [[3]]], l')"
proof -
  have "planes_uniform planed_layer" "cs_col (ly_corr planed_layer) \<noteq> []"
    by (simp_all add: planes_uniform_def planed_layer_def flat_layer_def)
  from planed_layer_drops_correction [OF planed_layer_ready _ this planed_layer_weight, of 64 whole_casts "[[1, 3 / 2]]" "[[[1, 3 / 2]]]"]
  show ?thesis by (auto simp: layer_products)
qed

theorem checkpoint_keeps_correction_witness:
  "saved_correction (\<lambda>v. v) (snd (projr (forwards whole_casts 64 flat_layer [[[1, 1]]]))) = ly_corr flat_layer"
proof -
  have stored: "stored_csr (\<lambda>v. v) (ly_corr flat_layer)" by (simp add: stored_csr_def flat_layer_def)
  obtain w where "reconstruct_weight flat_layer = Inr w" by (rule ready_weights [OF flat_layer_ready]) blast
  moreover have "planes_uniform flat_layer \<Longrightarrow> correction_csr flat_layer = None" by (simp add: planes_uniform_def flat_layer_def)
  ultimately obtain outs l' where f: "forwards whole_casts 64 flat_layer [[[1, 1]]] = Inr (outs, l')"
    using forwards_serve [OF flat_layer_ready _ _ flat_layer_weight, of 64 w whole_casts "[[[1, 1]]]"] by fastforce
  have "saved_correction (\<lambda>v. v) flat_layer = ly_corr flat_layer" by (simp add: saved_correction_def flat_layer_def)
  then show ?thesis using checkpoint_keeps_correction [OF stored f] f by simp
qed

section \<open>Built layers are well-formed\<close>

lemma copy_vec_length: "copy_vec n src = Inr v \<Longrightarrow> length v = n"
  by (auto simp: copy_vec_def split: if_splits)

lemma register_stage_planes:
  "register_stage x g tot sk = Inr (Planes w lo hi, cb) \<Longrightarrow> w \<in> {10, 12} \<and> length lo = ceil_div tot g"
  using plane_width_cases(1) [of "snd sk"]
  by (auto simp: register_stage_def Let_def bind_err_eq_Inr dest!: copy_vec_length split: if_splits)

lemma csr_of_ok:
  assumes "0 < n_in" and "n_out * n_in < 2 ^ 31" and "\<forall>(p, v) \<in> set D. 0 \<le> p \<and> p < int (n_out * n_in)" and "distinct (map fst D)"
    and "csr_of x n_out n_in D = Inr c"
  shows "csr_ok n_out n_in c" and "cs_col c = [] \<longleftrightarrow> D = []"
proof -
  let ?E = "sort_key (\<lambda>(p, v). p div int n_in) D"
  obtain c' where c': "csr_of x n_out n_in D = Inr c'" "csr_rows c' = map (\<lambda>(p, v). p div int n_in) ?E"
    "cs_col c' = map (\<lambda>(p, v). p mod int n_in) ?E" "cs_val c' = map (\<lambda>(p, v). half x v) ?E"
    by (rule csr_reads_back [OF assms(1-4), of x])
  then have c: "csr_rows c = map (\<lambda>(p, v). p div int n_in) ?E" "cs_col c = map (\<lambda>(p, v). p mod int n_in) ?E"
    "cs_val c = map (\<lambda>(p, v). half x v) ?E"
    using assms(5) by simp_all
  have row: "0 \<le> p div int n_in \<and> p div int n_in < int n_out" if "(p, v) \<in> set D" for p v
  proof -
    obtain q where q: "p = int q" "q < n_out * n_in" using assms(3) \<open>(p, v) \<in> set D\<close> by (metis (no_types, lifting) case_prodD nonneg_int_cases of_nat_less_iff)
    then have "q div n_in < n_out" by (simp add: less_mult_imp_div_less)
    then show ?thesis by (simp add: q(1) flip: of_nat_div)
  qed
  have zips: "zip (csr_rows c) (cs_col c) = map (\<lambda>p. (p div int n_in, p mod int n_in)) (map fst ?E)"
    unfolding c by (rule nth_equalityI) (auto simp: split_def)
  have "inj (\<lambda>p. (p div int n_in, p mod int n_in))" by (rule injI) (metis Pair_inject mult_div_mod_eq)
  then have "inj_on (\<lambda>p. (p div int n_in, p mod int n_in)) (set (map fst ?E))" by (rule inj_on_subset) (rule subset_UNIV)
  moreover have "distinct (map fst ?E)" using assms(4) by (metis distinct_map distinct_sort set_sort)
  ultimately have "distinct (zip (csr_rows c) (cs_col c))" unfolding zips distinct_map [of _ "map fst ?E"] by (rule conjI [rotated])
  moreover have "\<forall>r \<in> set (csr_rows c). 0 \<le> r \<and> r < int n_out" using row by (auto simp: c(1))
  moreover have "\<forall>k \<in> set (cs_col c). 0 \<le> k \<and> k < int n_in" using assms(1) by (auto simp: c(2))
  moreover have "length (csr_rows c) = length (cs_col c)" "length (cs_val c) = length (cs_col c)" by (simp_all only: c length_map)
  ultimately show "csr_ok n_out n_in c" unfolding csr_ok_def by blast
  have "cs_col c = [] \<longleftrightarrow> length ?E = 0" by (simp only: c(2) map_is_Nil_conv length_0_conv)
  then show "cs_col c = [] \<longleftrightarrow> D = []" by (simp only: length_sort length_0_conv)
qed

lemma transpose_flat_range: "length xs = r * c \<Longrightarrow> set (transpose_flat r c xs) \<subseteq> set xs"
proof -
  assume len: "length xs = r * c"
  have "xs ! (i mod r * c + i div r) \<in> set xs" if "i < r * c" for i
  proof -
    have "0 < r" "i div r < c" using that by (cases r; simp add: less_mult_imp_div_less mult.commute)+
    then have "i mod r * c + i div r < r * c" by (intro offset_bound) simp_all
    then show ?thesis using len by simp
  qed
  then show ?thesis by (auto simp: transpose_flat_def)
qed

lemma to_group_major_same:
  "ly_out (to_group_major l) = ly_out l" "ly_in (to_group_major l) = ly_in l" "ly_bias (to_group_major l) = ly_bias l"
  "ly_group (to_group_major l) = ly_group l" "ly_block (to_group_major l) = ly_block l" "ly_codebooks (to_group_major l) = ly_codebooks l"
  "ly_cache (to_group_major l) = ly_cache l" "ly_corr (to_group_major l) = ly_corr l" "correction_csr (to_group_major l) = correction_csr l"
  "length (ly_index (to_group_major l)) = length (ly_index l)"
  by (auto simp: to_group_major_def Let_def correction_csr_def)

lemma buffer_ok_transposed:
  assumes "buffer_ok g (buf, cb) (r * c)"
  shows "buffer_ok g (transpose_index r c buf, cb) (r * c)"
proof (cases buf)
  case (Flat dt v)
  then have v: "length v = r * c" "\<forall>i \<in> set v. 0 \<le> i \<and> i < int (length cb)" "\<forall>r \<in> set cb. length r = g"
    using assms by (auto simp: buffer_ok_def stage_fits_def stage_indices_int_def)
  with transpose_flat_range [OF v(1)] have "\<forall>i \<in> set (transpose_flat r c v). 0 \<le> i \<and> i < int (length cb)" by blast
  then show ?thesis using v by (simp add: Flat buffer_ok_def stage_fits_def stage_indices_int_def)
qed (use assms in simp)

lemma to_group_major_ok:
  assumes "layer_ok l"
  shows "layer_ok (to_group_major l)"
proof (cases "to_group_major l = l")
  case False
  let ?gpr = "ly_in l div ly_group l" and ?bpr = "ly_in l div ly_block l"
  have flat: "\<not> list_ex is_planes (ly_index l)"
    and l': "to_group_major l = l\<lparr>ly_index := map (transpose_index (ly_out l) ?gpr) (ly_index l),
      ly_scales := transpose_flat (ly_out l) ?bpr (ly_scales l), ly_group_major := True\<rparr>"
    using False unfolding to_group_major_def Let_def by (auto split: if_splits)
  have "\<not> is_planes (transpose_index (ly_out l) ?gpr b)" if "b \<in> set (ly_index l)" for b
    using flat that by (cases b) (auto simp: list_ex_iff)
  then have "\<not> list_ex is_planes (map (transpose_index (ly_out l) ?gpr) (ly_index l))" by (auto simp: list_ex_iff)
  moreover have "buffer_ok (ly_group l) bc (ly_out l * ?gpr)"
    if "bc \<in> set (zip (map (transpose_index (ly_out l) ?gpr) (ly_index l)) (ly_codebooks l))" for bc
    using that assms buffer_ok_transposed [of "ly_group l" _ _ "ly_out l" ?gpr] by (auto simp: zip_map1 layer_ok_def)
  moreover have "correction_csr (to_group_major l) = correction_csr l" by (rule to_group_major_same)
  ultimately show ?thesis using assms unfolding layer_ok_def l' by simp
qed (use assms in simp)

text \<open>The layer built from a manifest entry whose groups and scale blocks divide its rows.\<close>

lemma built_layer_ready:
  assumes "plain_entry tm" and "servable x tm cb_sizes" and "exact_scales x tm" and "small_positions x tm"
    and "half x 0 = 0" and "decode_tensor x tm = Inr d"
    and "tm_group_size tm dvd cols_of (tm_shape tm)" and "or_nat (tm_block_scale_size tm) 32 dvd cols_of (tm_shape tm)"
    and "tm_group_size tm dvd or_nat (tm_block_scale_size tm) 32" and "cb_sizes \<noteq> []" and "length cb_sizes \<le> 3"
  obtains base l where "decode_tensor x (tm\<lparr>tm_outliers := None, tm_salient := None\<rparr>) = Inr base" and "length base = length d"
    and "build_vq_linear x tm cb_sizes bias = Inr l" and "reconstruct_weight l = Inr (map2 (\<lambda>b v. b + half x (v - b)) base d)"
    and "scaled_weight l = Inr base" and "kernel_ready l" and "ly_out l = hd (tm_shape tm)" and "ly_in l = cols_of (tm_shape tm)"
    and "ly_bias l = map_option (map (half x)) bias"
proof -
  let ?g = "tm_group_size tm" and ?bs = "or_nat (tm_block_scale_size tm) 32" and ?out = "hd (tm_shape tm)" and ?in = "cols_of (tm_shape tm)"
  let ?tot = "prod_list (tm_shape tm)"
  have entry: "0 < ?g" "tm_shape tm \<noteq> []" "0 < ?tot" "?tot < 2 ^ 31" using assms(2) by (auto simp: servable_def Let_def)
  have dims: "?out * ?in = ?tot" by (rule cols_of_prod [OF entry(2)])
  have pos: "0 < ?in" "0 < ?bs" using dims entry(3) by (cases ?in; auto simp: or_nat_def split: option.splits)+
  obtain base stages bufs l D c sc where L: "decode_tensor x (tm\<lparr>tm_outliers := None, tm_salient := None\<rparr>) = Inr base"
    "length base = ?tot" "length d = ?tot" "build_vq_linear x tm cb_sizes bias = Inr (to_group_major l)"
    "scaled_weight l = Inr base" "reconstruct_weight l = Inr (map2 (\<lambda>b v. b + half x (v - b)) base d)" "resolve_stages tm = Inr stages"
    "mapM (register_stage x ?g ?tot) (zip stages cb_sizes) = Inr bufs"
    "\<forall>bc \<in> set bufs. stage_fits (ceil_div ?tot ?g) ?g (stage_pair bc)" "csr_of x ?out ?in D = Inr c" "distinct (map fst D)"
    "\<forall>(p, v) \<in> set D. 0 \<le> p \<and> p < int ?tot" "length sc = ceil_div ?tot ?bs"
    and l: "l = \<lparr>ly_out = ?out, ly_in = ?in, ly_group = ?g, ly_block = ?bs, ly_index = map fst bufs, ly_codebooks = map snd bufs, ly_scales = sc,
      ly_corr = (if D = [] then empty_csr ?out else c), ly_cache = None, ly_bias = map_option (map (half x)) bias, ly_group_major = False\<rparr>"
    by (rule layer_assembled [OF assms(1-6), of bias]) (rule that)
  have stages: "length bufs = length cb_sizes"
    using length_mapM [OF L(8)] L(7) assms(2) by (auto simp: servable_def)
  have exact: "ceil_div ?tot ?g = ?out * (?in div ?g)" "ceil_div ?tot ?bs = ?out * (?in div ?bs)"
    using ceil_div_exact [OF entry(1), of "?out * (?in div ?g)"] ceil_div_exact [OF pos(2), of "?out * (?in div ?bs)"] assms(7,8)
    by (simp_all add: mult.assoc flip: dims)
  have buf: "buffer_ok ?g bc (?out * (?in div ?g))" if mem: "bc \<in> set bufs" for bc
  proof -
    obtain i where i: "i < length bufs" "bufs ! i = bc" using mem by (metis in_set_conv_nth)
    have "i < length (zip stages cb_sizes)" using i(1) length_mapM [OF L(8)] by simp
    from mapM_nth [OF L(8) this] i(2) have reg: "register_stage x ?g ?tot (zip stages cb_sizes ! i) = Inr bc" by simp
    show ?thesis
      unfolding buffer_ok_def exact(1) [symmetric]
      using L(9) mem register_stage_planes [of x ?g ?tot "zip stages cb_sizes ! i" _ _ _ "snd bc"] reg
      by (auto simp: prod_eq_iff split: index_buffer.splits)
  qed
  have csr: "csr_ok ?out ?in c" "cs_col c = [] \<longleftrightarrow> D = []"
    using csr_of_ok [OF pos(1) _ _ L(11) L(10)] L(12) entry(4) by (simp_all add: dims)
  have "layer_ok l"
    unfolding layer_ok_def
    using entry(1) pos assms(7,8) buf exact(2) L(13) csr by (auto simp: l List.zip_map_fst_snd correction_csr_def empty_csr_def split: if_splits)
  then have ready: "kernel_ready (to_group_major l)"
    unfolding kernel_ready_def to_group_major_same length_0_conv [symmetric]
    using to_group_major_ok pos(1) assms(9-11) stages by (simp add: l)
  have "scaled_weight (to_group_major l) = scaled_weight l" "reconstruct_weight (to_group_major l) = reconstruct_weight l"
    by (rule to_group_major_weight; use entry(1) pos(2) in \<open>simp add: l\<close>)+
  with L(1-6) ready show thesis by (intro that [of base "to_group_major l"]) (simp_all add: to_group_major_same l)
qed


lemma built_stage_count: "build_vq_linear x tm cb_sizes bias = Inr l \<Longrightarrow> length (ly_index l) \<le> length cb_sizes"
  unfolding build_vq_linear_def Let_def
  by (auto simp: bind_err_eq_Inr to_group_major_same dest!: length_mapM split: if_splits)


end
