(* ===== verification/Vq_Embedding.thy ===== *)
theory Vq_Embedding
  imports Vq_Layer
begin

text \<open>
  \<open>orka/inference/vq_embedding.py\<close>: an embedding table served from its packed form. Which entries are eligible, how the buffers
  are loaded, and the lookup that decodes the distinct rows of a batch once and copies them to their positions.

  Token ids are integers; indexing a tensor by a negative number counts from the end. All index errors are one error, so it
  does not matter which row of a batch raises it. Values are real numbers with the fp16 cast of the environment.
\<close>

section \<open>Eligibility and loading\<close>

datatype refusal = NotTable | GroupStraddles | BlockStraddles | HasSidecar string | MixedGroups

datatype embedding_error = Refused refusal | EmbeddingFail decode_error | NoStages

definition sidecars_of :: "tensor_meta \<Rightarrow> string list" where
  "sidecars_of tm =
     map fst (filter snd [(''outliers'', tm_outliers tm \<noteq> None), (''salient'', tm_salient tm \<noteq> None),
       (''lowrank'', tm_lowrank tm \<noteq> None), (''pillars'', tm_pillars tm \<noteq> None)])"

definition can_serve :: "tensor_meta \<Rightarrow> decode_error + refusal option" where
  "can_serve tm =
     (if length (tm_shape tm) \<noteq> 2 then Inr (Some NotTable)
      else
        (let dim = tm_shape tm ! 1; grp = tm_group_size tm; block = or_nat (tm_block_scale_size tm) 32
         in if grp = 0 then Inl ZeroDivide
            else if dim mod grp \<noteq> 0 then Inr (Some GroupStraddles)
            else if dim mod block \<noteq> 0 then Inr (Some BlockStraddles)
            else
              (case sidecars_of tm of
                 side # _ \<Rightarrow> Inr (Some (HasSidecar side))
               | [] \<Rightarrow>
                   if list_ex (\<lambda>st. get_or (sg_group_size st) grp \<noteq> grp) (tm_stages tm) then Inr (Some MixedGroups)
                   else Inr None)))"

record vq_embedding =
  em_vocab :: nat
  em_dim :: nat
  em_group :: nat
  em_block :: nat
  em_stages :: "(real list list \<times> int list) list"
  em_scales :: "real list option"

definition load_stage :: "decode_env \<Rightarrow> nat \<Rightarrow> nat \<Rightarrow> stage_meta \<times> nat \<Rightarrow> decode_error + real list list \<times> int list" where
  "load_stage x grp tot sk =
     (case sk of (st, k) \<Rightarrow>
        bind_err (lift_err FormatFail (read_indices (dx_env x) (sg_indices st) (sg_index_bits st) (ceil_div tot grp)
                    (get_or (sg_packed st) False) (get_or (sg_encoding st) ''raw'') (dx_files x))) (\<lambda>raw.
        bind_err (lift_err FormatFail (read_codebook (dx_floats x) (sg_codebook st) grp
                    (get_or (sg_codebook_dtype st) ''float16'') (dx_files x))) (\<lambda>cb.
          Inr (map (map (\<lambda>v. half x (of_rat v))) cb, map (cast_int (index_dtype k)) raw))))"

definition load_scales :: "decode_env \<Rightarrow> tensor_meta \<Rightarrow> nat \<Rightarrow> nat \<Rightarrow> decode_error + real list option" where
  "load_scales x tm block tot =
     (if stores_block_scales (get_or (tm_normalization tm) ''none'') then
        bind_err (read_scales x tm) (\<lambda>full. Inr (Some (map (half x) (take (ceil_div tot block) full))))
      else Inr None)"

definition from_artifact :: "decode_env \<Rightarrow> tensor_meta \<Rightarrow> nat list \<Rightarrow> embedding_error + vq_embedding" where
  "from_artifact x tm cb_sizes =
     bind_err (lift_err EmbeddingFail (can_serve tm)) (\<lambda>why.
       (case why of
          Some r \<Rightarrow> Inl (Refused r)
        | None \<Rightarrow>
            (let vocab = tm_shape tm ! 0; dim = tm_shape tm ! 1; grp = tm_group_size tm; block = or_nat (tm_block_scale_size tm) 32;
                 tot = vocab * dim
             in lift_err EmbeddingFail
                  (bind_err (resolve_stages tm) (\<lambda>stages.
                   bind_err (mapM (load_stage x grp tot) (zip stages cb_sizes)) (\<lambda>loaded.
                   bind_err (load_scales x tm block tot) (\<lambda>scales.
                     Inr \<lparr>em_vocab = vocab, em_dim = dim, em_group = grp, em_block = block, em_stages = loaded, em_scales = scales\<rparr>)))))))"

section \<open>The lookup\<close>

definition stage_row :: "real list list \<times> int list \<Rightarrow> int list \<Rightarrow> embedding_error + real list" where
  "stage_row ci sel =
     lift_err EmbeddingFail
       (bind_err (mapM (py_get BadIndex (snd ci)) sel) (\<lambda>idx.
        bind_err (mapM (py_get BadIndex (fst ci)) idx) (\<lambda>rows. Inr (concat rows))))"

definition scale_row :: "nat \<Rightarrow> real list option \<Rightarrow> int list \<Rightarrow> real list \<Rightarrow> embedding_error + real list" where
  "scale_row block scales sel row =
     (case scales of
        None \<Rightarrow> Inr row
      | Some s \<Rightarrow>
          bind_err (lift_err EmbeddingFail (mapM (py_get BadIndex s) sel)) (\<lambda>fs.
            Inr (concat (map2 (\<lambda>b f. map (\<lambda>v. v * f) b) (blocks_of block row) fs))))"

definition row_sum :: "vq_embedding \<Rightarrow> int list \<Rightarrow> embedding_error + real list option" where
  "row_sum e sel =
     foldM (\<lambda>acc ci. bind_err (stage_row ci sel) (\<lambda>part.
         Inr (Some (case acc of None \<Rightarrow> part | Some a \<Rightarrow> map2 (+) a part)))) None (em_stages e)"

definition embed_row :: "vq_embedding \<Rightarrow> int \<Rightarrow> embedding_error + real list" where
  "embed_row e r =
     (let gpr = em_dim e div em_group e; bpr = em_dim e div em_block e
      in bind_err (row_sum e (map (\<lambda>j. r * int gpr + int j) [0..<gpr])) (\<lambda>out.
           (case out of
              None \<Rightarrow> Inl NoStages
            | Some row \<Rightarrow> scale_row (em_block e) (em_scales e) (map (\<lambda>b. r * int bpr + int b) [0..<bpr]) row)))"

text \<open>\<open>torch.unique\<close> sorts the distinct ids and says where each position finds its own.\<close>

definition unique_ids :: "int list \<Rightarrow> int list" where
  "unique_ids ids = sort (remdups ids)"

definition inverse_of :: "int list \<Rightarrow> int \<Rightarrow> nat" where
  "inverse_of flat i = length (takeWhile (\<lambda>j. j \<noteq> i) flat)"

definition embedding_forward :: "vq_embedding \<Rightarrow> int list \<Rightarrow> embedding_error + real list list" where
  "embedding_forward e ids =
     (if em_stages e = [] then Inl NoStages
      else
        (let flat = unique_ids ids
         in bind_err (mapM (embed_row e) flat) (\<lambda>rows. Inr (map (\<lambda>i. rows ! inverse_of flat i) ids))))"

section \<open>Decoding each distinct row once\<close>

lemma mapM_error: "mapM f xs = Inl e \<Longrightarrow> \<exists>x \<in> set xs. f x = Inl e"
  by (induction xs) (auto simp: bind_err_eq_Inl)

lemma mapM_py_get_error: "mapM (py_get e xs) sel = Inl e' \<Longrightarrow> e' = e"
  by (drule mapM_error) (auto simp: py_get_def Let_def split: if_splits)

lemma lift_err_eq_Inl: "lift_err f m = Inl e \<longleftrightarrow> (\<exists>e'. m = Inl e' \<and> e = f e')"
  by (auto simp: lift_err_def split: sum.splits)

lemma stage_row_error: "stage_row ci sel = Inl e \<Longrightarrow> e = EmbeddingFail BadIndex"
  by (auto simp: stage_row_def lift_err_eq_Inl bind_err_eq_Inl dest: mapM_py_get_error)

lemma row_sum_error: "row_sum e sel = Inl err \<Longrightarrow> err = EmbeddingFail BadIndex"
proof -
  have "foldM (\<lambda>acc ci. bind_err (stage_row ci sel) (\<lambda>part. Inr (Some (case acc of None \<Rightarrow> part | Some a \<Rightarrow> map2 (+) a part)))) acc cis = Inl err \<Longrightarrow>
      err = EmbeddingFail BadIndex" for acc cis
    by (induction cis arbitrary: acc) (auto simp: bind_err_eq_Inl dest: stage_row_error)
  then show "row_sum e sel = Inl err \<Longrightarrow> ?thesis" by (simp add: row_sum_def)
qed

lemma row_sum_some: "row_sum e sel = Inr out \<Longrightarrow> em_stages e \<noteq> [] \<Longrightarrow> out \<noteq> None"
proof -
  let ?f = "\<lambda>acc ci. bind_err (stage_row ci sel) (\<lambda>part. Inr (Some (case acc of None \<Rightarrow> part | Some a \<Rightarrow> map2 (+) a part)))"
  have "foldM ?f acc cis = Inr out \<Longrightarrow> acc \<noteq> None \<or> cis \<noteq> [] \<Longrightarrow> out \<noteq> None" for acc cis
  proof (induction cis arbitrary: acc)
    case (Cons ci cis)
    then obtain part where "foldM ?f (Some (case acc of None \<Rightarrow> part | Some a \<Rightarrow> map2 (+) a part)) cis = Inr out"
      by (auto simp: bind_err_eq_Inr)
    then show ?case by (rule Cons.IH) simp
  qed simp
  then show "row_sum e sel = Inr out \<Longrightarrow> em_stages e \<noteq> [] \<Longrightarrow> ?thesis" unfolding row_sum_def by blast
qed

lemma scale_row_error: "scale_row block scales sel row = Inl err \<Longrightarrow> err = EmbeddingFail BadIndex"
  by (auto simp: scale_row_def bind_err_eq_Inl lift_err_eq_Inl split: option.splits dest: mapM_py_get_error)

lemma embed_row_error:
  assumes "embed_row e r = Inl err" and "em_stages e \<noteq> []"
  shows "err = EmbeddingFail BadIndex"
proof -
  let ?sel = "map (\<lambda>j. r * int (em_dim e div em_group e) + int j) [0..<em_dim e div em_group e]"
  show ?thesis
  proof (cases "row_sum e ?sel")
    case (Inl err')
    then show ?thesis using assms(1) row_sum_error [OF Inl] by (simp add: embed_row_def)
  next
    case (Inr out)
    then obtain row where "out = Some row" using row_sum_some [OF Inr assms(2)] by blast
    then show ?thesis using assms(1) Inr by (auto simp: embed_row_def Let_def dest: scale_row_error)
  qed
qed

lemma inverse_of_nth: "i \<in> set flat \<Longrightarrow> inverse_of flat i < length flat \<and> flat ! inverse_of flat i = i"
  by (induction flat) (auto simp: inverse_of_def)

text \<open>Looking up the distinct rows of a batch once and copying them to their positions gives what looking up every position would
  give: the same rows in the same order, or the same index error.\<close>

theorem embedding_dedup_unobservable:
  assumes "em_stages e \<noteq> []"
  shows "embedding_forward e ids = mapM (embed_row e) ids"
proof (cases "\<exists>i \<in> set ids. \<exists>err. embed_row e i = Inl err")
  case True
  have fails: "mapM (embed_row e) xs = Inl (EmbeddingFail BadIndex)" if "set xs = set ids" for xs
  proof (cases "mapM (embed_row e) xs")
    case (Inl err)
    then obtain i where "embed_row e i = Inl err" using mapM_error by metis
    then show ?thesis using Inl embed_row_error [OF _ assms] by simp
  next
    case (Inr rows)
    obtain i err where "i \<in> set xs" "embed_row e i = Inl err" using True \<open>set xs = set ids\<close> by blast
    then show ?thesis using mapM_nth [OF Inr] by (metis in_set_conv_nth sum.distinct(1))
  qed
  have "set (unique_ids ids) = set ids" by (simp add: unique_ids_def)
  then show ?thesis using assms fails [of ids] fails [of "unique_ids ids"] by (simp add: embedding_forward_def Let_def)
next
  case False
  then have row: "embed_row e i = Inr (projr (embed_row e i))" if "i \<in> set ids" for i
    using that by (cases "embed_row e i") auto
  let ?g = "\<lambda>i. projr (embed_row e i)"
  have flat: "set (unique_ids ids) = set ids" by (simp add: unique_ids_def)
  have "mapM (embed_row e) (unique_ids ids) = Inr (map ?g (unique_ids ids))" "mapM (embed_row e) ids = Inr (map ?g ids)"
    by (rule mapM_Inr; use row flat in simp)+
  then show ?thesis using assms inverse_of_nth [of _ "unique_ids ids"] by (auto simp: embedding_forward_def Let_def flat)
qed

section \<open>The rows are the decoder's rows\<close>

lemma load_stage_ok:
  assumes "stage_file x g tot sk" and "0 < g" and "0 < tot" and "register_stage x g tot sk = Inr bc"
  shows "load_stage x g tot sk = Inr (stage_pair bc)"
proof -
  obtain st k where sk: "sk = (st, k)" by (cases sk)
  obtain cb idxs c where s: "read_stage_arrays x st g tot = Inr (cb, idxs)" "k \<le> 2 ^ 31"
    "read_indices (dx_env x) (sg_indices st) (sg_index_bits st) (ceil_div tot g)
      (get_or (sg_packed st) False) (get_or (sg_encoding st) ''raw'') (dx_files x) = Inr idxs"
    "read_codebook (dx_floats x) (sg_codebook st) g (get_or (sg_codebook_dtype st) ''float16'') (dx_files x) = Inr c"
    "map (map (\<lambda>v. half x (of_rat v))) c = cb" "\<forall>i \<in> set idxs. 0 \<le> i \<and> i < int k"
    by (rule stage_file_reads [OF assms(1) [unfolded sk] assms(2)]) (rule that)
  have "map (cast_int (index_dtype k)) idxs = idxs" using s(2,6) by (intro map_idI cast_index) auto
  then have load: "load_stage x g tot sk = Inr (cb, idxs)" using s(3-5) by (simp add: load_stage_def sk)
  obtain buf where "register_stage x g tot sk = Inr (buf, cb)" "stage_indices_int buf = idxs"
    using register_stage_ok [OF assms(1-3)] s(1) unfolding sk by (metis fst_conv prod.inject sum.inject(2))
  then show ?thesis using load assms(4) by auto
qed

text \<open>One row of one stage, then the sum of the stages, at the positions of the row.\<close>

definition value_at :: "nat \<Rightarrow> real list list \<times> int list \<Rightarrow> nat \<Rightarrow> real" where
  "value_at g ci p = fst ci ! nat (snd ci ! (p div g)) ! (p mod g)"

lemma stage_row_value:
  assumes "stage_fits (vocab * gpr) g ci" and "r < vocab" and "0 < g"
  shows "stage_row ci (map (\<lambda>j. int r * int gpr + int j) [0..<gpr]) = Inr (map (\<lambda>i. value_at g ci (r * (gpr * g) + i)) [0..<gpr * g])"
proof -
  have fit: "length (snd ci) = vocab * gpr" "\<forall>w \<in> set (fst ci). length w = g" "\<forall>i \<in> set (snd ci). 0 \<le> i \<and> i < int (length (fst ci))"
    using assms(1) by (simp_all add: stage_fits_def)
  have sel: "r * gpr + j < length (snd ci)" if "j < gpr" for j
  proof -
    have "r * gpr + j < Suc r * gpr" using that by simp
    also have "\<dots> \<le> vocab * gpr" using assms(2) by (intro mult_le_mono1) simp
    finally show ?thesis by (simp add: fit(1))
  qed
  let ?idx = "map (\<lambda>j. snd ci ! (r * gpr + j)) [0..<gpr]"
  have "mapM (py_get BadIndex (snd ci)) (map (\<lambda>j. int r * int gpr + int j) [0..<gpr]) =
      Inr (map (\<lambda>k. snd ci ! nat k) (map (\<lambda>j. int r * int gpr + int j) [0..<gpr]))"
  proof (rule mapM_Inr)
    fix k assume "k \<in> set (map (\<lambda>j. int r * int gpr + int j) [0..<gpr])"
    then obtain j where j: "k = int (r * gpr + j)" "j < gpr" by auto
    show "py_get BadIndex (snd ci) k = Inr (snd ci ! nat k)" unfolding j(1) nat_int by (rule py_get_nat) (rule sel [OF j(2)])
  qed
  moreover have "map (\<lambda>k. snd ci ! nat k) (map (\<lambda>j. int r * int gpr + int j) [0..<gpr]) = ?idx"
  proof -
    have "nat (int r * int gpr + int j) = r * gpr + j" for j by (simp add: nat_int_add flip: of_nat_mult)
    then show ?thesis by simp
  qed
  ultimately have idx: "mapM (py_get BadIndex (snd ci)) (map (\<lambda>j. int r * int gpr + int j) [0..<gpr]) = Inr ?idx" by simp
  let ?rows = "map (\<lambda>i. fst ci ! nat i) ?idx"
  have range: "0 \<le> snd ci ! (r * gpr + j) \<and> snd ci ! (r * gpr + j) < int (length (fst ci))" if "j < gpr" for j
    using fit(3) sel [OF that] by simp
  have rows: "mapM (py_get BadIndex (fst ci)) ?idx = Inr ?rows" by (rule mapM_Inr) (use range in auto)
  have width: "\<forall>w \<in> set ?rows. length w = g" using fit(2) range by (auto simp: nat_less_iff)
  have "concat ?rows = map (\<lambda>i. value_at g ci (r * (gpr * g) + i)) [0..<gpr * g]"
  proof (rule nth_equalityI)
    show len: "length (concat ?rows) = length (map (\<lambda>i. value_at g ci (r * (gpr * g) + i)) [0..<gpr * g])"
      using length_concat_blocks [OF width] by (simp add: mult.commute)
    fix i assume "i < length (concat ?rows)"
    then have i: "i < gpr * g" using len by simp
    then have q: "i div g < gpr" by (simp add: less_mult_imp_div_less)
    have "concat ?rows ! i = ?rows ! (i div g) ! (i mod g)" using i by (intro concat_nth_blocks [OF width]) (simp add: mult.commute)
    also have "\<dots> = fst ci ! nat (snd ci ! (r * gpr + i div g)) ! (i mod g)" using q by simp
    also have "\<dots> = value_at g ci (r * (gpr * g) + i)"
    proof -
      have e: "r * (gpr * g) + i = i + (r * gpr) * g" by simp
      have "g \<noteq> 0" using assms(3) by simp
      from div_mult_self1 [OF this, of i "r * gpr"] show ?thesis unfolding value_at_def e mod_mult_self1 by simp
    qed
    finally show "concat ?rows ! i = map (\<lambda>i. value_at g ci (r * (gpr * g) + i)) [0..<gpr * g] ! i" using i by simp
  qed
  then show ?thesis by (simp add: stage_row_def idx rows del: map_map)
qed

lemma row_sum_value:
  assumes "\<forall>ci \<in> set (em_stages e). stage_fits (vocab * gpr) g ci" and "r < vocab" and "0 < g" and "em_stages e \<noteq> []"
  shows "row_sum e (map (\<lambda>j. int r * int gpr + int j) [0..<gpr]) =
    Inr (Some (map (\<lambda>i. \<Sum>ci\<leftarrow>em_stages e. value_at g ci (r * (gpr * g) + i)) [0..<gpr * g]))"
proof -
  let ?sel = "map (\<lambda>j. int r * int gpr + int j) [0..<gpr]" and ?v = "\<lambda>ci i. value_at g ci (r * (gpr * g) + i)"
  let ?f = "\<lambda>acc ci. bind_err (stage_row ci ?sel) (\<lambda>part. Inr (Some (case acc of None \<Rightarrow> part | Some a \<Rightarrow> map2 (+) a part)))"
  have later: "foldM ?f (Some (map h [0..<gpr * g])) cis = Inr (Some (map (\<lambda>i. h i + (\<Sum>ci\<leftarrow>cis. ?v ci i)) [0..<gpr * g]))"
    if "\<forall>ci \<in> set cis. stage_fits (vocab * gpr) g ci" for h :: "nat \<Rightarrow> real" and cis
    using that
  proof (induction cis arbitrary: h)
    case (Cons ci cis)
    have step: "?f (Some (map h [0..<gpr * g])) ci = Inr (Some (map (\<lambda>i. h i + ?v ci i) [0..<gpr * g]))"
      using stage_row_value [of vocab gpr g ci r] Cons.prems assms(2,3) by (auto intro: nth_equalityI)
    show ?case unfolding foldM.simps step bind_err_simps using Cons.IH [of "\<lambda>i. h i + ?v ci i"] Cons.prems by (simp add: add.assoc)
  qed simp
  obtain ci cis where cis: "em_stages e = ci # cis" using assms(4) by (cases "em_stages e") auto
  have "?f None ci = Inr (Some (map (?v ci) [0..<gpr * g]))"
    using stage_row_value [of vocab gpr g ci r] assms(1-3) by (simp add: cis)
  then show ?thesis using later [of cis "?v ci"] assms(1) by (simp add: row_sum_def cis)
qed

lemma scale_row_value:
  assumes "length row = bpr * bs" and "0 < bs" and "\<And>b. b < bpr \<Longrightarrow> r * bpr + b < length s"
  shows "scale_row bs (Some s) (map (\<lambda>b. int r * int bpr + int b) [0..<bpr]) row =
    Inr (map (\<lambda>i. row ! i * s ! (r * bpr + i div bs)) [0..<bpr * bs])"
proof -
  let ?fs = "map (\<lambda>b. s ! (r * bpr + b)) [0..<bpr]"
  have n: "nat (int r * int bpr + int b) = r * bpr + b" for b by (simp add: nat_int_add flip: of_nat_mult)
  have "mapM (py_get BadIndex s) (map (\<lambda>b. int r * int bpr + int b) [0..<bpr]) =
      Inr (map (\<lambda>k. s ! nat k) (map (\<lambda>b. int r * int bpr + int b) [0..<bpr]))"
  proof (rule mapM_Inr)
    fix k assume "k \<in> set (map (\<lambda>b. int r * int bpr + int b) [0..<bpr])"
    then obtain b where b: "k = int (r * bpr + b)" "b < bpr" by auto
    show "py_get BadIndex s k = Inr (s ! nat k)" unfolding b(1) nat_int by (rule py_get_nat) (rule assms(3) [OF b(2)])
  qed
  then have fs: "mapM (py_get BadIndex s) (map (\<lambda>b. int r * int bpr + int b) [0..<bpr]) = Inr ?fs" by (simp add: n)
  have "length ?fs = ceil_div (length row) bs" using ceil_div_exact [OF assms(2)] assms(1) by simp
  note blk = scale_blocks_map [OF assms(2) this]
  have pad: "padded bs row = row" using assms(1) by (simp add: padded_def)
  have lb: "\<forall>b \<in> set (blocks_of bs row). length b = bs" using cuts_padded [OF assms(2), of row] unfolding pad cuts_def by blast
  then have "\<forall>b \<in> set (map2 (\<lambda>b f. map (\<lambda>v. v * f) b) (blocks_of bs row) ?fs). length b = bs" by (auto dest: set_zip_leftD)
  from length_concat_blocks [OF this] have "length (concat (map2 (\<lambda>b f. map (\<lambda>v. v * f) b) (blocks_of bs row) ?fs)) = length row"
    using blk(2) assms(1) unfolding pad by simp
  then have "concat (map2 (\<lambda>b f. map (\<lambda>v. v * f) b) (blocks_of bs row) ?fs) = map (\<lambda>i. row ! i * ?fs ! (i div bs)) [0..<length row]"
    using blk(1) unfolding pad by simp
  also have "\<dots> = map (\<lambda>i. row ! i * s ! (r * bpr + i div bs)) [0..<bpr * bs]"
    using assms(1) by (auto simp: less_mult_imp_div_less)
  finally show ?thesis by (simp add: scale_row_def fs lift_err_def)
qed

lemma py_get_Inr: "py_get e xs (int k) = Inr v \<Longrightarrow> k < length xs \<and> v = xs ! k"
  by (auto simp: py_get_def Let_def split: if_splits)

lemma mapM_follow:
  "mapM f xs = Inr ys \<Longrightarrow> (\<And>x y. x \<in> set xs \<Longrightarrow> f x = Inr y \<Longrightarrow> h x = Inr (k y)) \<Longrightarrow> mapM h xs = Inr (map k ys)"
  by (induction xs arbitrary: ys) (auto simp: bind_err_eq_Inr)

lemma loaded_scales:
  assumes "register_scales x tm bs tot = Inr (snp, sc)" and "exact_scales x tm"
  shows "load_scales x tm bs tot = Inr snp"
  using assms by (auto simp: register_scales_def load_scales_def Let_def bind_err_eq_Inr exact_scales_def split: if_splits
      dest: in_set_takeD intro!: map_idI)

lemma can_serve_None:
  assumes "can_serve tm = Inr None"
  shows "length (tm_shape tm) = 2" and "0 < tm_group_size tm" and "tm_group_size tm dvd tm_shape tm ! 1"
    and "or_nat (tm_block_scale_size tm) 32 dvd tm_shape tm ! 1" and "tm_outliers tm = None" and "tm_salient tm = None"
proof -
  show "length (tm_shape tm) = 2" "0 < tm_group_size tm" "tm_group_size tm dvd tm_shape tm ! 1"
    "or_nat (tm_block_scale_size tm) 32 dvd tm_shape tm ! 1"
    using assms by (auto simp: can_serve_def Let_def split: if_splits)
  have "sidecars_of tm = []" using assms by (auto simp: can_serve_def Let_def split: if_splits list.splits)
  then show "tm_outliers tm = None" "tm_salient tm = None" by (auto simp: sidecars_of_def split: if_splits)
qed

text \<open>One row of the loaded table, when its stages and scales give the decoder's values position by position.\<close>

lemma embed_row_value:
  assumes "0 < em_group e" and "em_group e dvd em_dim e" and "0 < em_block e" and "em_block e dvd em_dim e" and "em_stages e \<noteq> []"
    and "\<forall>ci \<in> set (em_stages e). stage_fits (em_vocab e * (em_dim e div em_group e)) (em_group e) ci"
    and "length d = em_vocab e * em_dim e"
    and "\<And>p. p < length d \<Longrightarrow> \<exists>f. scale_at (em_block e) (em_scales e) (int p) = Inr f \<and>
      d ! p = (\<Sum>ci\<leftarrow>em_stages e. value_at (em_group e) ci p) * f"
    and "r < em_vocab e"
  shows "embed_row e (int r) = Inr (take (em_dim e) (drop (r * em_dim e) d))"
proof -
  let ?g = "em_group e" and ?bs = "em_block e" and ?dim = "em_dim e" and ?v = "\<lambda>p. \<Sum>ci\<leftarrow>em_stages e. value_at (em_group e) ci p"
  let ?gpr = "?dim div ?g" and ?bpr = "?dim div ?bs"
  have dim: "?gpr * ?g = ?dim" "?bpr * ?bs = ?dim" using assms(2,4) by simp_all
  have pos: "r * ?dim + i < length d" if "i < ?dim" for i
  proof -
    have "r * ?dim + i < Suc r * ?dim" using that by simp
    also have "\<dots> \<le> em_vocab e * ?dim" using assms(9) by (intro mult_le_mono1) simp
    finally show ?thesis by (simp add: assms(7))
  qed
  have out: "row_sum e (map (\<lambda>j. int r * int ?gpr + int j) [0..<?gpr]) = Inr (Some (map (\<lambda>i. ?v (r * ?dim + i)) [0..<?dim]))"
    using row_sum_value [OF assms(6,9,1,5)] by (simp only: dim(1))
  have target: "take ?dim (drop (r * ?dim) d) = map (\<lambda>i. d ! (r * ?dim + i)) [0..<?dim]"
  proof (rule nth_equalityI)
    have "?dim \<le> length d - r * ?dim" using pos [of "?dim - 1"] by (cases "?dim = 0") auto
    then show "length (take ?dim (drop (r * ?dim) d)) = length (map (\<lambda>i. d ! (r * ?dim + i)) [0..<?dim])" by simp
  qed (use pos in \<open>auto simp: less_imp_le\<close>)
  show ?thesis
  proof (cases "em_scales e")
    case None
    then have "d ! (r * ?dim + i) = ?v (r * ?dim + i)" if "i < ?dim" for i using assms(8) [OF pos [OF that]] by (simp add: scale_at_def)
    then show ?thesis unfolding target using out None by (simp add: embed_row_def scale_row_def)
  next
    case (Some s)
    have block: "(r * ?dim + i) div ?bs = r * ?bpr + i div ?bs" for i
    proof -
      have e: "r * ?dim + i = i + (r * ?bpr) * ?bs" using dim(2) by simp
      have "?bs \<noteq> 0" using assms(3) by simp
      from div_mult_self1 [OF this, of i "r * ?bpr"] show ?thesis unfolding e by simp
    qed
    have at_block: "scale_at ?bs (Some s) (int p) = Inr f \<Longrightarrow> p div ?bs < length s \<and> f = s ! (p div ?bs)" for p f
      unfolding scale_at_def option.case of_nat_div [symmetric] by (rule py_get_Inr)
    have val: "(r * ?dim + i) div ?bs < length s \<and> d ! (r * ?dim + i) = ?v (r * ?dim + i) * s ! ((r * ?dim + i) div ?bs)" if "i < ?dim" for i
      using assms(8) [OF pos [OF that]] unfolding Some by (metis at_block)
    have "r * ?bpr + b < length s" if "b < ?bpr" for b
    proof -
      have "b * ?bs < ?bpr * ?bs" using that assms(3) by simp
      then have "b * ?bs < ?dim" unfolding dim(2) .
      from val [OF this] show ?thesis using assms(3) by (simp add: block)
    qed
    from scale_row_value [OF _ assms(3) this, of "map (\<lambda>i. ?v (r * ?dim + i)) [0..<?dim]"]
    have "scale_row ?bs (Some s) (map (\<lambda>b. int r * int ?bpr + int b) [0..<?bpr]) (map (\<lambda>i. ?v (r * ?dim + i)) [0..<?dim]) =
        Inr (map (\<lambda>i. d ! (r * ?dim + i)) [0..<?dim])"
      using val by (simp add: dim(2) block)
    then show ?thesis unfolding target using out Some by (simp add: embed_row_def Let_def)
  qed
qed


text \<open>The eligibility test does not look at the rotation, the normalization or the column scales of an entry.\<close>

lemma can_serve_ignores_transforms:
  "can_serve (tm\<lparr>tm_rotation := r, tm_rotation_seed := sd, tm_normalization := n, tm_awq_col_scales := a\<rparr>) = can_serve tm"
  by (simp add: can_serve_def sidecars_of_def Let_def)

section \<open>A concrete table\<close>

text \<open>Two rows of two values; the first is the second codeword, the second row the first.\<close>

definition table_env :: decode_env where
  "table_env = serving_env\<lparr>dx_files := (dx_files serving_env)(''ix'' \<mapsto> [1, 0])\<rparr>"

definition table_meta :: tensor_meta where
  "table_meta = serving_meta\<lparr>tm_shape := [2, 2], tm_padded_values := 4, tm_packed_values := 4, tm_outliers := None\<rparr>"

lemma table_files: "read_stage_arrays table_env (hd (tm_stages table_meta)) 2 4 = Inr ([[1, 2], [0, 0]], [1, 0])"
proof -
  have digits: "digit_val CHR ''1'' = 1" by (simp add: digit_val_def)
  have ix: "array_of_bytes 1 [1, 0] = [1, 0]" using blocks_of_concat [of "[[1 :: byte], [0]]" 1] by (simp add: array_of_bytes_def)
  have cb: "read_codebook (dx_floats serving_env) ''cb'' 2 ''float32'' (dx_files table_env) = Inr [[1, 2], [0, 0]]"
    by (rule serving_codebook) (simp add: table_env_def serving_env_def del: array_bytes_Cons)
  have "read_indices grid_env ''ix'' 8 2 False ''raw'' (dx_files table_env) = Inr [1, 0]"
    using ix by (simp add: read_indices_def table_env_def array_dec_def index_bit_spec_def frombuffer_dt_def itemsize_def digits)
  with cb show ?thesis
    by (simp add: read_stage_arrays_def table_meta_def serving_meta_def get_or_def ceil_div_def)
      (simp add: table_env_def serving_env_def example_env_def)
qed

lemma table_half: "half table_env = half serving_env"
  by (simp add: fun_eq_iff half_def table_env_def)

lemma table_decode: "decode_tensor table_env table_meta = Inr [0, 0, 1, 2]"
proof -
  have "replicate 4 0 = [0, 0, 0, 0 :: real]" by (simp add: eval_nat_numeral)
  then have "decode_stages table_env table_meta = Inr [0, 0, 1, 2]"
    using table_files
    by (simp add: decode_stages_def resolve_stages_def table_meta_def serving_meta_def example_meta_def key_def ceil_div_def add_into_def py_get_def)
  then show ?thesis
    by (simp add: decode_tensor_def table_meta_def serving_meta_def example_meta_def apply_outliers_def apply_pillars_def unrotate_numpy_def
        denormalize_numpy_def apply_salient_def get_or_def)
qed

lemma table_entry:
  shows "plain_entry table_meta" and "servable table_env table_meta [2]" and "exact_scales table_env table_meta"
    and "can_serve table_meta = Inr None"
proof -
  show "plain_entry table_meta" by (simp add: plain_entry_def table_meta_def serving_meta_def example_meta_def get_or_def)
  show "servable table_env table_meta [2]"
    using table_files serving_halves
    by (simp add: servable_def table_meta_def serving_meta_def example_meta_def resolve_stages_def stage_file_def get_or_def ceil_div_def
        table_half Let_def)
  show "exact_scales table_env table_meta"
    by (simp add: exact_scales_def read_scales_def table_meta_def serving_meta_def example_meta_def key_def)
  show "can_serve table_meta = Inr None"
    by (simp add: can_serve_def sidecars_of_def table_meta_def serving_meta_def example_meta_def get_or_def or_nat_def)
qed


definition table :: vq_embedding where
  "table = \<lparr>em_vocab = 2, em_dim = 2, em_group = 2, em_block = 2, em_stages = [([[1, 2], [0, 0]], [1, 0])], em_scales = None\<rparr>"

theorem embedding_dedup_unobservable_witness:
  "embedding_forward table [1, 0, 1] = Inr [[1, 2], [0, 0], [1, 2]] \<and> embedding_forward table [1, 2] = Inl (EmbeddingFail BadIndex)"
proof -
  have "em_stages table \<noteq> []" by (simp add: table_def)
  from embedding_dedup_unobservable [OF this] show ?thesis
    by (simp add: table_def embed_row_def row_sum_def stage_row_def scale_row_def py_get_def lift_err_def Let_def)
qed

end
