(* ===== verification/Low_Rank.thy ===== *)
theory Low_Rank
  imports Metrics Merge Names
begin

text \<open>
  \<open>orka/artifact/correct.py\<close>: low-rank corrections. The residual of a packed tensor is factored, the factors are stored as fp16
  sidecars beside its files, and the decoder adds their product as its last step.

  The truncated singular value decomposition is a parameter; only the shapes torch documents for it are used. Arithmetic is
  exact, fp16 storage is \<open>to16\<close> and \<open>of16\<close> of the environment. Of a manifest the list of entries is kept, each with its
  name and the quality numbers this code writes into it.
\<close>

datatype correct_error = CorrectDecode decode_error | CorrectMetric metric_error | NoShape | ResidualShape | BadRank

text \<open>\<open>svd_lowrank(residual, q)\<close> of a matrix of the given rows and columns: \<open>u\<close>, \<open>s\<close>, \<open>v\<close>.\<close>

type_synonym svd = "nat \<Rightarrow> nat \<Rightarrow> nat \<Rightarrow> real list \<Rightarrow> real list list \<times> real list \<times> real list list"

definition svd_shapes :: "svd \<Rightarrow> bool" where
  "svd_shapes svd \<longleftrightarrow> (\<forall>q rows cols m u s v. length m = rows * cols \<longrightarrow> q \<le> min rows cols \<longrightarrow> svd q rows cols m = (u, s, v) \<longrightarrow>
     length u = rows \<and> length s = q \<and> length v = cols \<and> (\<forall>r \<in> set u \<union> set v. length r = q))"

section \<open>One tensor\<close>

definition lowrank_path :: "string \<Rightarrow> string \<Rightarrow> string" where
  "lowrank_path nm ext = ''tensors/'' @ safe_tensor_name nm @ ''.lowrank.'' @ ext"

record outcome =
  oc_files :: store
  oc_meta :: tensor_meta
  oc_quality :: "quality option"
  oc_before :: real
  oc_after :: real
  oc_improved :: bool

text \<open>The two factors at the effective rank: the columns of \<open>u\<close> scaled by \<open>s\<close>, and those of \<open>v\<close>.\<close>

definition factors :: "svd \<Rightarrow> nat \<Rightarrow> nat \<Rightarrow> nat \<Rightarrow> real list \<Rightarrow> real list list \<times> real list list" where
  "factors svd k rows cols residual =
     (case svd (min (k + 4) (min rows cols)) rows cols residual of
        (u, s, v) \<Rightarrow> (map (\<lambda>r. map2 (*) (take k r) (take k s)) u, map (take k) v))"

definition quality_metrics_from_flat :: "real list \<Rightarrow> real list \<Rightarrow> correct_error + quality" where
  "quality_metrics_from_flat source reconstructed = lift_err CorrectMetric (quality_numpy_flat CHUNK_SIZE source reconstructed)"

definition store_factor :: "real env \<Rightarrow> real list list \<Rightarrow> byte list" where
  "store_factor e a = array_bytes 2 (map (to16 e) (concat a))"

text \<open>\<open>None\<close> is a tensor that was packed in part; its entry stays as it is.\<close>

definition correct_tensor :: "svd \<Rightarrow> decode_env \<Rightarrow> string \<Rightarrow> tensor_meta \<Rightarrow> real list \<Rightarrow> nat \<Rightarrow> correct_error + outcome option" where
  "correct_tensor svd x nm tm source rank =
     (if tm_shape tm = [] then Inl NoShape
      else
        (let rows = hd (tm_shape tm); cols = cols_of (tm_shape tm)
         in if tm_packed_values tm \<noteq> rows * cols then Inr None
            else
              (let k = min rank (min rows cols); target = take (rows * cols) source; bare = tm\<lparr>tm_lowrank := None\<rparr>;
                   a_path = lowrank_path nm ''a''; b_path = lowrank_path nm ''b''; r16 = map (map (round16 (dx_env x)))
               in bind_err (lift_err CorrectDecode (decode_tensor x bare)) (\<lambda>decoded.
                  bind_err (quality_metrics_from_flat target decoded) (\<lambda>before.
                  if length target \<noteq> rows * cols then Inl ResidualShape
                  else
                    (case factors svd k rows cols (map2 (-) target decoded) of
                       (a, b) \<Rightarrow>
                         (let written = (dx_files x)(a_path \<mapsto> store_factor (dx_env x) a, b_path \<mapsto> store_factor (dx_env x) b)
                          in bind_err (lift_err CorrectDecode (add_product rows cols decoded (r16 a) (r16 b))) (\<lambda>corrected.
                             bind_err (quality_metrics_from_flat target corrected) (\<lambda>after.
                             if q_mse before \<le> q_mse after then
                               Inr (Some \<lparr>oc_files = written(a_path := None, b_path := None), oc_meta = bare, oc_quality = None,
                                 oc_before = q_mse before, oc_after = q_mse before, oc_improved = False\<rparr>)
                             else
                               Inr (Some \<lparr>oc_files = written,
                                 oc_meta = bare\<lparr>tm_lowrank := Some \<lparr>lr_a = a_path, lr_b = b_path, lr_rank = k, lr_dtype = Some ''float16''\<rparr>\<rparr>,
                                 oc_quality = Some after, oc_before = q_mse before, oc_after = q_mse after, oc_improved = True\<rparr>))))))))))"

section \<open>The artifact\<close>

text \<open>\<open>{t["name"]: t}\<close>: the last entry of a name.\<close>

type_synonym entry = "string \<times> tensor_meta \<times> quality option"

definition entry_at :: "entry list \<Rightarrow> string \<Rightarrow> nat option" where
  "entry_at es nm = (case rev (filter (\<lambda>i. fst (es ! i) = nm) [0..<length es]) of [] \<Rightarrow> None | i # _ \<Rightarrow> Some i)"

definition updated :: "entry \<Rightarrow> outcome option \<Rightarrow> entry" where
  "updated en r =
     (case r of
        None \<Rightarrow> en
      | Some oc \<Rightarrow> (fst en, oc_meta oc, case oc_quality oc of None \<Rightarrow> snd (snd en) | Some q \<Rightarrow> Some q))"

fun correct_all :: "svd \<Rightarrow> decode_env \<Rightarrow> nat \<Rightarrow> nat option \<Rightarrow> nat \<Rightarrow> (string \<times> real list) list \<Rightarrow> store \<Rightarrow> entry list
    \<Rightarrow> correct_error + store \<times> entry list \<times> outcome option list" where
  "correct_all svd x rank max_tensors finished [] s es = Inr (s, es, [])"
| "correct_all svd x rank max_tensors finished ((nm, source) # rest) s es =
     (case entry_at es nm of
        None \<Rightarrow> correct_all svd x rank max_tensors finished rest s es
      | Some i \<Rightarrow>
          if (case max_tensors of None \<Rightarrow> False | Some n \<Rightarrow> n \<le> finished) then Inr (s, es, [])
          else
            bind_err (correct_tensor svd (x\<lparr>dx_files := s\<rparr>) nm (fst (snd (es ! i))) source rank) (\<lambda>r.
            bind_err (correct_all svd x rank max_tensors (Suc finished) rest (case r of None \<Rightarrow> s | Some oc \<Rightarrow> oc_files oc)
                        (es[i := updated (es ! i) r])) (\<lambda>(s', es', rs). Inr (s', es', r # rs))))"

definition correct_artifact ::
  "svd \<Rightarrow> decode_env \<Rightarrow> nat \<Rightarrow> nat option \<Rightarrow> (string \<times> real list) list \<Rightarrow> entry list
    \<Rightarrow> correct_error + store \<times> entry list \<times> outcome option list" where
  "correct_artifact svd x rank max_tensors sources es =
     (if rank < 1 then Inl BadRank else correct_all svd x rank max_tensors 0 sources (dx_files x) es)"

section \<open>The stored factors are the factors that were measured\<close>

lemma factors_shape:
  assumes "svd_shapes svd" and "length m = rows * cols" and "k \<le> min rows cols" and "factors svd k rows cols m = (a, b)"
  shows "length a = rows" and "length b = cols" and "\<forall>r \<in> set a \<union> set b. length r = k"
proof -
  obtain u s v where svd: "svd (min (k + 4) (min rows cols)) rows cols m = (u, s, v)" by (cases "svd (min (k + 4) (min rows cols)) rows cols m")
  have "min (k + 4) (min rows cols) \<le> min rows cols" by (rule min.cobounded2)
  then have sh: "length u = rows" "length s = min (k + 4) (min rows cols)" "length v = cols"
    "\<forall>r \<in> set u \<union> set v. length r = min (k + 4) (min rows cols)"
    using assms(1,2) svd unfolding svd_shapes_def by blast+
  have ab: "a = map (\<lambda>r. map2 (*) (take k r) (take k s)) u" "b = map (take k) v" using assms(4) by (simp_all add: factors_def svd)
  show "length a = rows" "length b = cols" using sh by (simp_all add: ab)
  show "\<forall>r \<in> set a \<union> set b. length r = k" using sh assms(3) by (auto simp: ab)
qed

lemma stored_factor:
  assumes "\<forall>v. to16 e v < 2 ^ 16" and "s p = Some (store_factor e a)" and "\<forall>r \<in> set a. length r = k"
  shows "fromfile 2 p s = Inr (map (to16 e) (concat a))" and "length (concat a) = k * length a"
    and "0 < k \<Longrightarrow> blocks_of k (map (of16 e) (map (to16 e) (concat a))) = map (map (round16 e)) a"
proof -
  have "array_of_bytes 2 (store_factor e a) = map (to16 e) (concat a)"
    unfolding store_factor_def using assms(1) by (intro array_roundtrip) auto
  then show "fromfile 2 p s = Inr (map (to16 e) (concat a))" by (simp add: fromfile_def assms(2)) (simp add: store_factor_def)
  show "length (concat a) = k * length a" using length_concat_blocks [OF assms(3)] .
  have "map (of16 e) (map (to16 e) (concat a)) = concat (map (map (round16 e)) a)" by (simp add: map_concat round16_def [abs_def] comp_def)
  moreover have "\<forall>r \<in> set (map (map (round16 e)) a). length r = k" using assms(3) by auto
  ultimately show "0 < k \<Longrightarrow> blocks_of k (map (of16 e) (map (to16 e) (concat a))) = map (map (round16 e)) a"
    by (simp only:) (rule blocks_of_concat)
qed

lemma read_stored_factors:
  assumes "\<forall>v. to16 (dx_env x) v < 2 ^ 16" and "dx_files x p = Some (store_factor (dx_env x) a)" and "dx_files x q = Some (store_factor (dx_env x) b)"
    and "\<forall>r \<in> set a \<union> set b. length r = k" and "0 < k"
  shows "read_lowrank x \<lparr>lr_a = p, lr_b = q, lr_rank = k, lr_dtype = Some ''float16''\<rparr> =
    Inr (map (map (round16 (dx_env x))) a, map (map (round16 (dx_env x))) b)"
proof -
  have sa: "\<forall>r \<in> set a. length r = k" and sb: "\<forall>r \<in> set b. length r = k" using assms(4) by auto
  note fa = stored_factor [where s = "dx_files x" and p = p, OF assms(1,2) sa]
    and fb = stored_factor [where s = "dx_files x" and p = q, OF assms(1,3) sb]
  show ?thesis
    using fa(1,2) fb(1,2) fa(3) [OF assms(5)] fb(3) [OF assms(5)] assms(5)
    by (simp add: read_lowrank_def get_or_def float_value_dtype_def FLOAT_VALUE_DTYPES_def Let_def del: map_map)
qed

section \<open>One correction\<close>

text \<open>The files an entry reads besides its low-rank sidecars.\<close>

definition without :: "string set \<Rightarrow> store \<Rightarrow> store" where
  "without ps s = s |` (- ps)"

lemma decode_more_files: "decode_tensor (x\<lparr>dx_files := s\<rparr>) tm = Inr d \<Longrightarrow> s \<subseteq>\<^sub>m s' \<Longrightarrow> decode_tensor (x\<lparr>dx_files := s'\<rparr>) tm = Inr d"
  using monotone_decode [of x tm] unfolding monotone_read_def by blast

lemma without_le: "(\<And>p. p \<notin> ps \<Longrightarrow> s' p = s p) \<Longrightarrow> without ps s \<subseteq>\<^sub>m s'"
  by (auto simp: without_def map_le_def restrict_map_def split: if_splits)

lemma map_le_without: "t \<subseteq>\<^sub>m without ps s \<Longrightarrow> t p = Some v \<Longrightarrow> p \<notin> ps \<and> s p = Some v"
  by (force simp: map_le_def without_def restrict_map_def split: if_splits)

lemma lowrank_paths_differ: "lowrank_path nm ''a'' \<noteq> lowrank_path nm' ''b''"
proof
  assume "lowrank_path nm ''a'' = lowrank_path nm' ''b''"
  then have "last (lowrank_path nm ''a'') = last (lowrank_path nm' ''b'')" by (simp only:)
  then show False by (simp add: lowrank_path_def)
qed

lemma decode_corrected:
  assumes "decode_tensor x (tm\<lparr>tm_lowrank := None\<rparr>) = Inr d"
  shows "decode_tensor x (tm\<lparr>tm_lowrank := Some lr\<rparr>) = apply_lowrank_numpy x (tm_shape tm) lr d"
proof -
  let ?lr = "tm\<lparr>tm_lowrank := Some lr\<rparr>" and ?no = "tm\<lparr>tm_lowrank := None\<rparr>"
  have same: "decode_stages x ?lr = decode_stages x ?no" "apply_outliers x ?lr = apply_outliers x ?no" "apply_pillars x ?lr = apply_pillars x ?no"
    "unrotate_numpy x ?lr = unrotate_numpy x ?no" "denormalize_numpy x ?lr = denormalize_numpy x ?no" "apply_salient x ?lr = apply_salient x ?no"
    by (simp_all add: fun_eq_iff decode_stages_def resolve_stages_def apply_outliers_def apply_pillars_def unrotate_numpy_def
        denormalize_numpy_def apply_salient_def read_scales_def cong: if_cong option.case_cong)
  show ?thesis using assms unfolding decode_tensor_def same by (auto simp: bind_err_eq_Inr)
qed

text \<open>Adding a product of factors of the matrix's own shape: every entry gets its row times its column.\<close>

lemma add_product_value:
  assumes "length flat = rows * cols" and "length a = rows" and "length b = cols"
  shows "add_product rows cols flat a b = Inr (concat (map (\<lambda>i. map (\<lambda>j. flat ! (i * cols + j) + row_dot (a ! i) (b ! j)) [0..<cols]) [0..<rows]))"
proof -
  have one: "at_bcast xs i = xs ! i" if "i < length xs" for xs :: "'c list" and i using that by (cases "length xs = 1") (simp_all add: at_bcast_def)
  have "take cols (drop (i * cols) flat) ! j = flat ! (i * cols + j)" "length (take cols (drop (i * cols) flat)) = cols"
    if "i < rows" "j < cols" for i j
  proof -
    have le: "i * cols + cols \<le> length flat" using that(1) unfolding assms(1) by (metis Suc_leI mult_Suc add.commute mult_le_mono1)
    then have "i * cols \<le> length flat" by linarith
    with le show "take cols (drop (i * cols) flat) ! j = flat ! (i * cols + j)" "length (take cols (drop (i * cols) flat)) = cols"
      using that(2) by simp_all
  qed
  then show ?thesis
    using assms(2,3) by (auto simp: add_product_def bcast_def one intro!: arg_cong [where f = concat] map_cong)
qed

lemma length_add_product:
  assumes "length flat = rows * cols" and "length a = rows" and "length b = cols" and "add_product rows cols flat a b = Inr r"
  shows "length r = rows * cols"
proof -
  have "r = concat (map (\<lambda>i. map (\<lambda>j. flat ! (i * cols + j) + row_dot (a ! i) (b ! j)) [0..<cols]) [0..<rows])"
    using add_product_value [OF assms(1-3)] assms(4) by simp
  then show ?thesis by (simp add: length_concat comp_def sum_list_triv)
qed

definition own_files :: "string \<Rightarrow> string set" where
  "own_files nm = {lowrank_path nm ''a'', lowrank_path nm ''b''}"

text \<open>
  What one correction leaves, for an entry whose other files are in \<open>t\<close>: with its own two sidecars added it decodes, the recorded
  errors are those of the decoded values, and the new one is never larger.
\<close>

definition corrected_ok :: "decode_env \<Rightarrow> string \<Rightarrow> store \<Rightarrow> tensor_meta \<Rightarrow> real list \<Rightarrow> real list \<Rightarrow> outcome \<Rightarrow> bool" where
  "corrected_ok x nm t tm target d oc \<longleftrightarrow>
     (\<exists>d'. decode_tensor (x\<lparr>dx_files := t ++ (oc_files oc |` own_files nm)\<rparr>) (oc_meta oc) = Inr d' \<and> length d' = length d \<and>
       oc_before oc = q_mse (quality_between target d) \<and> oc_after oc = q_mse (quality_between target d') \<and> oc_after oc \<le> oc_before oc \<and>
       (oc_improved oc \<longleftrightarrow> oc_after oc < oc_before oc) \<and> (oc_improved oc \<longrightarrow> oc_quality oc = Some (quality_between target d')) \<and>
       (\<not> oc_improved oc \<longrightarrow> oc_meta oc = tm\<lparr>tm_lowrank := None\<rparr> \<and> oc_quality oc = None)) \<and>
     (\<forall>p. p \<notin> own_files nm \<longrightarrow> oc_files oc p = dx_files x p)"

lemma mse_nonneg: "0 \<le> q_mse (quality_between s r)"
  using dot_self_nonneg by (simp add: quality_between_def quality_of_def add_chunk_eq no_totals_def quality_from_totals_def Let_def)

lemma mse_empty: "q_mse (quality_between [] r) = 0"
  by (simp add: quality_between_def quality_of_def quality_from_totals_def Let_def)

lemma kept_correction_decodes:
  assumes "decode_tensor x (tm\<lparr>tm_lowrank := None\<rparr>) = Inr d" and "length d = hd (tm_shape tm) * cols_of (tm_shape tm)" and "tm_shape tm \<noteq> []"
    and "\<forall>v. to16 (dx_env x) v < 2 ^ 16" and "dx_files x (lr_a lr) = Some (store_factor (dx_env x) a)"
    and "dx_files x (lr_b lr) = Some (store_factor (dx_env x) b)" and "\<forall>r \<in> set a \<union> set b. length r = lr_rank lr" and "0 < lr_rank lr"
    and "lr_dtype lr = Some ''float16''"
    and "add_product (hd (tm_shape tm)) (cols_of (tm_shape tm)) d (map (map (round16 (dx_env x))) a) (map (map (round16 (dx_env x))) b) = Inr r"
  shows "decode_tensor x (tm\<lparr>tm_lowrank := Some lr\<rparr>) = Inr r"
proof -
  obtain pa pb k where lr: "lr = \<lparr>lr_a = pa, lr_b = pb, lr_rank = k, lr_dtype = Some ''float16''\<rparr>" using assms(9) by (cases lr) simp
  have "read_lowrank x lr = Inr (map (map (round16 (dx_env x))) a, map (map (round16 (dx_env x))) b)"
    using read_stored_factors [of x pa a pb b k] assms(4-8) by (simp add: lr)
  then have "apply_lowrank_numpy x (tm_shape tm) lr d = Inr r" using assms(2,3,10) by (simp add: apply_lowrank_numpy_def)
  then show ?thesis by (simp only: decode_corrected [OF assms(1)] decode_corrected assms(1))
qed

lemma correct_tensor_ok:
  assumes "svd_shapes svd" and "\<forall>v. to16 (dx_env x) v < 2 ^ 16" and "0 < rank" and "tm_shape tm \<noteq> []"
    and "tm_packed_values tm = prod_list (tm_shape tm)" and "length d = prod_list (tm_shape tm)" and "prod_list (tm_shape tm) \<le> length source"
    and "decode_tensor (x\<lparr>dx_files := t\<rparr>) (tm\<lparr>tm_lowrank := None\<rparr>) = Inr d" and "t \<subseteq>\<^sub>m without (own_files nm) (dx_files x)"
  obtains oc where "correct_tensor svd x nm tm source rank = Inr (Some oc)"
    and "corrected_ok x nm t tm (take (prod_list (tm_shape tm)) source) d oc"
proof -
  let ?rows = "hd (tm_shape tm)" and ?cols = "cols_of (tm_shape tm)" and ?e = "dx_env x" and ?s = "dx_files x"
  let ?pa = "lowrank_path nm ''a''" and ?pb = "lowrank_path nm ''b''" and ?bare = "tm\<lparr>tm_lowrank := None\<rparr>"
  let ?k = "min rank (min ?rows ?cols)" and ?r16 = "map (map (round16 ?e))"
  have n: "prod_list (tm_shape tm) = ?rows * ?cols" by (rule cols_of_prod [OF assms(4), symmetric])
  let ?target = "take (?rows * ?cols) source"
  have t: "length ?target = ?rows * ?cols" "length d = ?rows * ?cols" using assms(6,7) by (simp_all add: n)
  have more: "decode_tensor (x\<lparr>dx_files := s'\<rparr>) ?bare = Inr d" if "t \<subseteq>\<^sub>m s'" for s' by (rule decode_more_files [OF assms(8) that])
  note sub = map_le_without [OF assms(9)]
  have "t \<subseteq>\<^sub>m ?s" using sub by (force simp: map_le_def)
  from more [OF this] have dec: "decode_tensor x ?bare = Inr d" by simp
  have own: "t \<subseteq>\<^sub>m t ++ (s' |` own_files nm)" for s'
    using sub by (force simp: map_le_def map_add_def restrict_map_def)
  have quality: "quality_metrics_from_flat ?target r = Inr (quality_between ?target r)" if "length r = ?rows * ?cols" for r
    using quality_numpy_flat_eq [of CHUNK_SIZE ?target r] that t(1) by (simp add: quality_metrics_from_flat_def CHUNK_SIZE_def lift_err_def)
  obtain a b where ab: "factors svd ?k ?rows ?cols (map2 (-) ?target d) = (a, b)" by (cases "factors svd ?k ?rows ?cols (map2 (-) ?target d)")
  have "?k \<le> min ?rows ?cols" by (rule min.cobounded2)
  have lm: "length (map2 (-) ?target d) = ?rows * ?cols" by (simp only: length_map length_zip t min.idem)
  note sh = factors_shape [OF assms(1) lm \<open>?k \<le> min ?rows ?cols\<close> ab]
  let ?w = "?s(?pa \<mapsto> store_factor ?e a, ?pb \<mapsto> store_factor ?e b)"
  obtain r where r: "add_product ?rows ?cols d (?r16 a) (?r16 b) = Inr r" using add_product_value [OF t(2), of "?r16 a" "?r16 b"] sh by simp
  have lr: "length r = ?rows * ?cols" using length_add_product [OF t(2) _ _ r] sh by simp
  let ?before = "quality_between ?target d" and ?after = "quality_between ?target r"
  note run = correct_tensor_def [of svd x nm tm source rank] assms(4) assms(5) n
  show thesis
  proof (cases "q_mse ?before \<le> q_mse ?after")
    case True
    let ?oc = "\<lparr>oc_files = ?w(?pa := None, ?pb := None), oc_meta = ?bare, oc_quality = None, oc_before = q_mse ?before,
      oc_after = q_mse ?before, oc_improved = False\<rparr>"
    have "correct_tensor svd x nm tm source rank = Inr (Some ?oc)"
      using True t dec quality ab r lr by (simp add: run Let_def)
    moreover have "corrected_ok x nm t tm (take (prod_list (tm_shape tm)) source) d ?oc"
      unfolding corrected_ok_def n outcome.simps
      by (intro conjI exI [of _ d]) (rule more [OF own] | simp add: own_files_def)+
    ultimately show thesis by (rule that)
  next
    case False
    let ?lr = "\<lparr>lr_a = ?pa, lr_b = ?pb, lr_rank = ?k, lr_dtype = Some ''float16''\<rparr>"
    let ?oc = "\<lparr>oc_files = ?w, oc_meta = tm\<lparr>tm_lowrank := Some ?lr\<rparr>, oc_quality = Some ?after, oc_before = q_mse ?before,
      oc_after = q_mse ?after, oc_improved = True\<rparr>"
    have ran: "correct_tensor svd x nm tm source rank = Inr (Some ?oc)"
      using False t dec quality ab r lr by (simp add: run Let_def)
    have "0 < ?rows * ?cols"
    proof (rule ccontr)
      assume "\<not> 0 < ?rows * ?cols"
      then have e: "?target = []" by simp
      show False using False mse_empty mse_nonneg unfolding e by simp
    qed
    then have k: "0 < ?k" using assms(3) by simp
    let ?x = "x\<lparr>dx_files := t ++ (?w |` own_files nm)\<rparr>"
    have "dx_files ?x ?pa = Some (store_factor ?e a)" "dx_files ?x ?pb = Some (store_factor ?e b)"
      using lowrank_paths_differ [of nm nm] by (simp_all add: own_files_def map_add_def)
    then have "decode_tensor ?x (tm\<lparr>tm_lowrank := Some ?lr\<rparr>) = Inr r"
      by (intro kept_correction_decodes [OF more [OF own] t(2) assms(4), of _ _ a b])
        (use assms(2) sh(3) k r in \<open>simp_all add: decode_env.simps\<close>)
    then have "corrected_ok x nm t tm (take (prod_list (tm_shape tm)) source) d ?oc"
      using False lr t(2) by (simp add: corrected_ok_def n own_files_def)
    with ran show thesis by (rule that)
  qed
qed

text \<open>A correction that does not help takes an earlier one away, with its files, and leaves the quality numbers that one had recorded.\<close>

lemma unhelpful_correction_keeps_quality:
  assumes "correct_tensor svd x nm tm source rank = Inr (Some oc)" and "\<not> oc_improved oc"
  shows "updated (nm, tm, q) (Some oc) = (nm, tm\<lparr>tm_lowrank := None\<rparr>, q)" and "p \<in> own_files nm \<Longrightarrow> oc_files oc p = None"
  using assms by (auto simp: correct_tensor_def updated_def own_files_def Let_def bind_err_eq_Inr split: if_splits prod.splits)

section \<open>All corrections of an artifact\<close>

definition sidecar_files :: "entry list \<Rightarrow> string set" where
  "sidecar_files es = (\<Union>en \<in> set es. own_files (fst en))"

text \<open>Entries not corrected before, packed whole, which the decoder reads from other files than the low-rank sidecars of any entry.\<close>

definition correctable :: "decode_env \<Rightarrow> entry list \<Rightarrow> bool" where
  "correctable x es \<longleftrightarrow> distinct (map (\<lambda>en. safe_tensor_name (fst en)) es) \<and>
     (\<forall>(nm, tm, q) \<in> set es. tm_lowrank tm = None \<and> tm_shape tm \<noteq> [] \<and> tm_packed_values tm = prod_list (tm_shape tm) \<and>
       (\<exists>d. decode_tensor (x\<lparr>dx_files := without (sidecar_files es) (dx_files x)\<rparr>) tm = Inr d \<and> length d = prod_list (tm_shape tm)))"

lemma own_files_disjoint: "safe_tensor_name nm \<noteq> safe_tensor_name nm' \<Longrightarrow> own_files nm \<inter> own_files nm' = {}"
  using lowrank_paths_differ by (auto simp: own_files_def) (auto simp: lowrank_path_def)

lemma entry_at_Some: "entry_at es nm = Some i \<Longrightarrow> i < length es \<and> fst (es ! i) = nm"
proof -
  assume "entry_at es nm = Some i"
  then obtain js where "rev (filter (\<lambda>i. fst (es ! i) = nm) [0..<length es]) = i # js" by (auto simp: entry_at_def split: list.splits)
  then have "i \<in> set (rev (filter (\<lambda>i. fst (es ! i) = nm) [0..<length es]))" by (simp only: list.set_intros)
  then show ?thesis by simp
qed

text \<open>An entry is as it was, or it has a correction that was worth keeping.\<close>

definition entry_done :: "decode_env \<Rightarrow> store \<Rightarrow> (string \<times> real list) list \<Rightarrow> entry \<Rightarrow> entry \<Rightarrow> store \<Rightarrow> bool" where
  "entry_done x t sources en0 en s \<longleftrightarrow>
     (en = en0 \<or>
       (\<exists>src tm' d d'. (fst en0, src) \<in> set sources \<and> decode_tensor (x\<lparr>dx_files := t\<rparr>) (fst (snd en0)) = Inr d \<and>
          decode_tensor (x\<lparr>dx_files := t ++ (s |` own_files (fst en0))\<rparr>) tm' = Inr d' \<and>
          en = (fst en0, tm', Some (quality_between (take (prod_list (tm_shape (fst (snd en0)))) src) d')) \<and>
          q_mse (quality_between (take (prod_list (tm_shape (fst (snd en0)))) src) d') \<le>
            q_mse (quality_between (take (prod_list (tm_shape (fst (snd en0)))) src) d)))"

lemma entry_done_name: "entry_done x t sources en0 en s \<Longrightarrow> fst en = fst en0"
  by (auto simp: entry_done_def)

lemma entry_done_frame:
  assumes "entry_done x t sources en0 en s" and "\<And>p. p \<in> own_files (fst en0) \<Longrightarrow> s' p = s p"
  shows "entry_done x t sources en0 en s'"
proof -
  have "s' |` own_files (fst en0) = s |` own_files (fst en0)" using assms(2) by (auto simp: restrict_map_def)
  then show ?thesis using assms(1) by (simp add: entry_done_def)
qed

text \<open>One entry of the pass.\<close>

lemma correct_entry:
  assumes "svd_shapes svd" and "\<forall>v. to16 (dx_env x) v < 2 ^ 16" and "0 < rank" and "correctable x es"
    and "without (sidecar_files es) (dx_files x) = t" and "without (sidecar_files es) s = t" and en: "(nm, tm, q) \<in> set es"
    and "(nm, src) \<in> set sources" and "prod_list (tm_shape tm) \<le> length src"
  obtains oc where "correct_tensor svd (x\<lparr>dx_files := s\<rparr>) nm tm src rank = Inr (Some oc)"
    and "entry_done x t sources (nm, tm, q) (updated (nm, tm, q) (Some oc)) (oc_files oc)"
    and "\<And>p. p \<notin> own_files nm \<Longrightarrow> oc_files oc p = s p" and "without (sidecar_files es) (oc_files oc) = t"
proof -
  let ?x = "x\<lparr>dx_files := s\<rparr>" and ?target = "take (prod_list (tm_shape tm)) src"
  obtain d where d: "tm_lowrank tm = None" "tm_shape tm \<noteq> []" "tm_packed_values tm = prod_list (tm_shape tm)"
    "decode_tensor (x\<lparr>dx_files := t\<rparr>) tm = Inr d" "length d = prod_list (tm_shape tm)"
    using assms(4) en unfolding correctable_def assms(5) [symmetric] by fastforce
  have bare: "tm\<lparr>tm_lowrank := None\<rparr> = tm" using d(1) by (cases tm) simp
  have own: "own_files nm \<subseteq> sidecar_files es" using en by (force simp: sidecar_files_def)
  then have "t \<subseteq>\<^sub>m without (own_files nm) s"
    unfolding assms(6) [symmetric] by (auto simp: map_le_def without_def restrict_map_def split: if_splits)
  moreover have "decode_tensor (?x\<lparr>dx_files := t\<rparr>) (tm\<lparr>tm_lowrank := None\<rparr>) = Inr d" using d(4) by (simp add: bare)
  ultimately obtain oc where oc: "correct_tensor svd ?x nm tm src rank = Inr (Some oc)" "corrected_ok ?x nm t tm ?target d oc"
    using correct_tensor_ok [of svd ?x rank tm d src t nm] assms(1-3,9) d(2,3,5) by auto
  have files: "oc_files oc p = s p" if "p \<notin> own_files nm" for p using oc(2) that by (simp add: corrected_ok_def)
  have finished: "entry_done x t sources (nm, tm, q) (updated (nm, tm, q) (Some oc)) (oc_files oc)"
  proof (cases "oc_improved oc")
    case True
    then obtain d' where "decode_tensor (x\<lparr>dx_files := t ++ (oc_files oc |` own_files nm)\<rparr>) (oc_meta oc) = Inr d'"
      "oc_quality oc = Some (quality_between ?target d')" "q_mse (quality_between ?target d') \<le> q_mse (quality_between ?target d)"
      using oc(2) by (auto simp: corrected_ok_def)
    then show ?thesis using assms(8) d(4) by (auto simp: entry_done_def updated_def)
  next
    case False
    then have "oc_meta oc = tm" "oc_quality oc = None" using oc(2) by (auto simp: corrected_ok_def bare)
    then show ?thesis by (simp add: entry_done_def updated_def)
  qed
  have "without (sidecar_files es) (oc_files oc) = t"
    unfolding assms(6) [symmetric] using own files by (auto simp: without_def restrict_map_def fun_eq_iff)
  then show thesis using that oc(1) finished files by blast
qed

lemma entry_done_other:
  assumes "entry_done x t sources (es ! j) en s" and "correctable x es" and "i < length es" and "j < length es" and "j \<noteq> i"
    and "\<And>p. p \<notin> own_files (fst (es ! i)) \<Longrightarrow> s' p = s p"
  shows "entry_done x t sources (es ! j) en s'"
proof (rule entry_done_frame [OF assms(1)])
  have "safe_tensor_name (fst (es ! j)) \<noteq> safe_tensor_name (fst (es ! i))"
    using assms(2-5) unfolding correctable_def by (metis (no_types, lifting) length_map nth_eq_iff_index_eq nth_map)
  then have "own_files (fst (es ! j)) \<inter> own_files (fst (es ! i)) = {}" by (rule own_files_disjoint)
  then show "s' p = s p" if "p \<in> own_files (fst (es ! j))" for p using assms(6) that by blast
qed

lemma correct_all_ok:
  assumes svd: "svd_shapes svd" "\<forall>v. to16 (dx_env x) v < 2 ^ 16" "0 < rank" and ok: "correctable x es0"
    and long: "\<And>nm src tm q. (nm, src) \<in> set sources \<Longrightarrow> (nm, tm, q) \<in> set es0 \<Longrightarrow> prod_list (tm_shape tm) \<le> length src"
    and t: "t = without (sidecar_files es0) (dx_files x)"
    and st: "length es = length es0" "\<And>i. i < length es0 \<Longrightarrow> entry_done x t sources (es0 ! i) (es ! i) s"
      "\<And>i. i < length es0 \<Longrightarrow> fst (es0 ! i) \<in> fst ` set rest \<Longrightarrow> es ! i = es0 ! i"
      "without (sidecar_files es0) s = t" "distinct (map fst rest)" "set rest \<subseteq> set sources"
  shows "\<exists>s' es' rs. correct_all svd x rank max_tensors finished rest s es = Inr (s', es', rs) \<and> length es' = length es0 \<and>
    without (sidecar_files es0) s' = t \<and> (\<forall>i < length es0. entry_done x t sources (es0 ! i) (es' ! i) s')"
  using st
proof (induction rest arbitrary: finished s es)
  case Nil
  then show ?case by auto
next
  case (Cons nmsrc rest)
  obtain nm src where ns: "nmsrc = (nm, src)" by (cases nmsrc)
  show ?case
  proof (cases "entry_at es nm")
    case None
    show ?thesis unfolding ns correct_all.simps None option.case by (rule Cons.IH) (use Cons.prems in auto)
  next
    case (Some i)
    then have i: "i < length es0" "fst (es ! i) = nm" using entry_at_Some [OF Some] Cons.prems(1) by simp_all
    have nm: "fst (es0 ! i) = nm" using entry_done_name [OF Cons.prems(2) [OF i(1)]] i(2) by simp
    then have same: "es ! i = es0 ! i" using Cons.prems(3) [OF i(1)] by (simp add: ns)
    obtain tm q where en: "es0 ! i = (nm, tm, q)" using nm by (cases "es0 ! i") auto
    then have mem: "(nm, tm, q) \<in> set es0" using i(1) by (metis nth_mem)
    let ?x = "x\<lparr>dx_files := s\<rparr>"
    have src: "(nm, src) \<in> set sources" using Cons.prems(6) by (simp add: ns)
    obtain oc where oc: "correct_tensor svd ?x nm tm src rank = Inr (Some oc)"
      "entry_done x t sources (nm, tm, q) (updated (nm, tm, q) (Some oc)) (oc_files oc)"
      "\<And>p. p \<notin> own_files nm \<Longrightarrow> oc_files oc p = s p" "without (sidecar_files es0) (oc_files oc) = t"
      using correct_entry [OF svd ok t [symmetric] Cons.prems(4) mem src long [OF src mem]] by blast
    let ?es = "es[i := updated (es ! i) (Some oc)]"
    have all: "entry_done x t sources (es0 ! j) (?es ! j) (oc_files oc)" if j: "j < length es0" for j
    proof (cases "j = i")
      case True
      then show ?thesis using oc(2) i(1) Cons.prems(1) by (simp add: same en)
    next
      case False
      then show ?thesis using entry_done_other [OF Cons.prems(2) [OF j] ok i(1) j] oc(3) by (simp add: nm)
    qed
    have untouched: "?es ! j = es0 ! j" if "j < length es0" "fst (es0 ! j) \<in> fst ` set rest" for j
    proof -
      have "fst (es0 ! j) \<noteq> nm" using that(2) Cons.prems(5) by (auto simp: ns)
      then have "j \<noteq> i" using nm by blast
      then show ?thesis using Cons.prems(3) [OF that(1)] that(2) by simp
    qed
    have "\<exists>s' es' rs. correct_all svd x rank max_tensors (Suc finished) rest (oc_files oc) ?es = Inr (s', es', rs) \<and> length es' = length es0 \<and>
        without (sidecar_files es0) s' = t \<and> (\<forall>i < length es0. entry_done x t sources (es0 ! i) (es' ! i) s')"
      by (rule Cons.IH) (use all oc(4) untouched Cons.prems(1,5,6) in auto)
    then obtain s' es' rs where rec: "correct_all svd x rank max_tensors (Suc finished) rest (oc_files oc) ?es = Inr (s', es', rs)"
      "length es' = length es0" "without (sidecar_files es0) s' = t" "\<forall>i < length es0. entry_done x t sources (es0 ! i) (es' ! i) s'" by blast
    show ?thesis
    proof (cases "case max_tensors of None \<Rightarrow> False | Some n \<Rightarrow> n \<le> finished")
      case True
      then show ?thesis using Some Cons.prems by (simp add: ns)
    next
      case False
      have "correct_tensor svd ?x nm (fst (snd (es ! i))) src rank = Inr (Some oc)" using oc(1) by (simp add: same en)
      then show ?thesis using Some False rec by (simp add: ns)
    qed
  qed
qed

text \<open>What a finished entry means for the whole store: it decodes, at no larger error, and its recorded quality is the one of these values.\<close>

lemma entry_done_decodes:
  assumes "entry_done x t sources (nm, tm, q) en s" and "decode_tensor (x\<lparr>dx_files := t\<rparr>) tm = Inr d" and "t \<subseteq>\<^sub>m s"
    and "distinct (map fst sources)"
  shows "\<exists>d'. fst en = nm \<and> decode_tensor (x\<lparr>dx_files := s\<rparr>) (fst (snd en)) = Inr d' \<and>
      (\<forall>src. (nm, src) \<in> set sources \<longrightarrow>
        q_mse (quality_between (take (prod_list (tm_shape tm)) src) d') \<le> q_mse (quality_between (take (prod_list (tm_shape tm)) src) d)) \<and>
      (en = (nm, tm, q) \<or> (\<exists>src. (nm, src) \<in> set sources \<and>
        snd (snd en) = Some (quality_between (take (prod_list (tm_shape tm)) src) d')))"
proof -
  consider "en = (nm, tm, q)" | src tm' d' where "(nm, src) \<in> set sources"
    "decode_tensor (x\<lparr>dx_files := t ++ (s |` own_files nm)\<rparr>) tm' = Inr d'"
    "en = (nm, tm', Some (quality_between (take (prod_list (tm_shape tm)) src) d'))"
    "q_mse (quality_between (take (prod_list (tm_shape tm)) src) d') \<le> q_mse (quality_between (take (prod_list (tm_shape tm)) src) d)"
    using assms(1,2) unfolding entry_done_def by auto
  then show ?thesis
  proof cases
    case 1
    then show ?thesis using decode_more_files [OF assms(2,3)] by auto
  next
    case 2
    have "src' = src" if "(nm, src') \<in> set sources" for src' by (rule eq_key_imp_eq_value [OF assms(4) that 2(1)])
    then have every: "\<forall>src'. (nm, src') \<in> set sources \<longrightarrow> q_mse (quality_between (take (prod_list (tm_shape tm)) src') d') \<le>
        q_mse (quality_between (take (prod_list (tm_shape tm)) src') d)" using 2(4) by blast
    have "t ++ (s |` own_files nm) \<subseteq>\<^sub>m s"
      using assms(3) by (auto simp: map_le_def map_add_def restrict_map_def dom_def split: option.splits if_splits)
    then have "decode_tensor (x\<lparr>dx_files := s\<rparr>) tm' = Inr d'" by (rule decode_more_files [OF 2(2)])
    then show ?thesis
      unfolding 2(3) fst_conv snd_conv by (intro exI [of _ d'] conjI refl every disjI2 exI [of _ src] 2(1))
  qed
qed

text \<open>C32: Correcting an artifact never makes a tensor worse. Take entries that were packed whole and not corrected before, with
  different file names, that decode without the low-rank sidecars, and a checkpoint that lists each tensor once and holds enough
  values. Whatever factors the decomposition returns and at whatever number of tensors the pass stops, it succeeds; every entry then
  decodes, with a mean squared error against its source no larger than before; and an entry is left exactly as it was, or it carries
  the quality numbers of the values its files now decode to.\<close>

theorem correction_never_worse:
  assumes "svd_shapes svd" and "\<forall>v. to16 (dx_env x) v < 2 ^ 16" and "1 \<le> rank" and "correctable x es" and "distinct (map fst sources)"
    and "\<forall>(nm, src) \<in> set sources. \<forall>(nm', tm, q) \<in> set es. nm' = nm \<longrightarrow> prod_list (tm_shape tm) \<le> length src"
  shows "\<exists>s' es' rs. correct_artifact svd x rank max_tensors sources es = Inr (s', es', rs) \<and> length es' = length es \<and>
    (\<forall>i < length es. case es ! i of (nm, tm, q) \<Rightarrow>
      (\<exists>d d'. decode_tensor x tm = Inr d \<and> fst (es' ! i) = nm \<and> decode_tensor (x\<lparr>dx_files := s'\<rparr>) (fst (snd (es' ! i))) = Inr d' \<and>
        (\<forall>src. (nm, src) \<in> set sources \<longrightarrow>
          q_mse (quality_between (take (prod_list (tm_shape tm)) src) d') \<le> q_mse (quality_between (take (prod_list (tm_shape tm)) src) d)) \<and>
        (es' ! i = es ! i \<or> (\<exists>src. (nm, src) \<in> set sources \<and>
          snd (snd (es' ! i)) = Some (quality_between (take (prod_list (tm_shape tm)) src) d')))))"
proof -
  define t where "t = without (sidecar_files es) (dx_files x)"
  have long: "prod_list (tm_shape tm) \<le> length src" if "(nm, src) \<in> set sources" "(nm, tm, q) \<in> set es" for nm src tm q
    using assms(6) that by blast
  have "\<exists>s' es' rs. correct_all svd x rank max_tensors 0 sources (dx_files x) es = Inr (s', es', rs) \<and> length es' = length es \<and>
      without (sidecar_files es) s' = t \<and> (\<forall>i < length es. entry_done x t sources (es ! i) (es' ! i) s')"
    by (rule correct_all_ok [OF assms(1,2) _ assms(4) long t_def]) (use assms(3,5) in \<open>simp_all add: entry_done_def t_def\<close>)
  then obtain s' es' rs where run: "correct_all svd x rank max_tensors 0 sources (dx_files x) es = Inr (s', es', rs)" "length es' = length es"
    "without (sidecar_files es) s' = t" "\<And>i. i < length es \<Longrightarrow> entry_done x t sources (es ! i) (es' ! i) s'" by blast
  have sub: "t \<subseteq>\<^sub>m dx_files x" "t \<subseteq>\<^sub>m s'"
    using without_le [of "sidecar_files es" "dx_files x" "dx_files x"] without_le [of "sidecar_files es" s' s'] run(3) by (simp_all add: t_def)
  have "\<exists>d d'. decode_tensor x tm = Inr d \<and> fst (es' ! i) = nm \<and> decode_tensor (x\<lparr>dx_files := s'\<rparr>) (fst (snd (es' ! i))) = Inr d' \<and>
      (\<forall>src. (nm, src) \<in> set sources \<longrightarrow>
        q_mse (quality_between (take (prod_list (tm_shape tm)) src) d') \<le> q_mse (quality_between (take (prod_list (tm_shape tm)) src) d)) \<and>
      (es' ! i = es ! i \<or> (\<exists>src. (nm, src) \<in> set sources \<and>
        snd (snd (es' ! i)) = Some (quality_between (take (prod_list (tm_shape tm)) src) d')))"
    if i: "i < length es" and en: "es ! i = (nm, tm, q)" for i nm tm q
  proof -
    have "(nm, tm, q) \<in> set es" using i en by (metis nth_mem)
    then obtain d where base: "decode_tensor (x\<lparr>dx_files := t\<rparr>) tm = Inr d" using assms(4) unfolding correctable_def t_def by fastforce
    have "decode_tensor x tm = Inr d" using decode_more_files [OF base sub(1)] by simp
    then show ?thesis using entry_done_decodes [OF run(4) [OF i, unfolded en] base sub(2) assms(5)] unfolding en by blast
  qed
  moreover have "correct_artifact svd x rank max_tensors sources es = Inr (s', es', rs)" using run(1) assms(3) by (simp add: correct_artifact_def)
  ultimately show ?thesis using run(2) by (intro exI [of _ s'] exI [of _ es'] exI [of _ rs] conjI) (auto split: prod.splits)
qed

section \<open>A concrete correction\<close>

text \<open>A decomposition that returns the first column; 16-bit patterns are whole numbers.\<close>

definition column_svd :: svd where
  "column_svd q rows cols m =
     (map (\<lambda>i. map (\<lambda>j. if j = 0 then m ! (i * cols) else 0) [0..<q]) [0..<rows], replicate q 1,
      map (\<lambda>c. map (\<lambda>j. if j = 0 \<and> c = 0 then 1 else 0) [0..<q]) [0..<cols])"

definition correction_env :: decode_env where
  "correction_env = example_env\<lparr>dx_env := whole_env\<lparr>to16 := \<lambda>v. nat \<lfloor>v\<rfloor> mod 2 ^ 16\<rparr>\<rparr>"

lemma correction_decode: "decode_tensor correction_env example_meta = Inr [3, 4]"
proof -
  have "read_indices (whole_env\<lparr>to16 := f\<rparr>) ''ix'' 8 1 False ''raw'' s = read_indices grid_env ''ix'' 8 1 False ''raw'' s" for s f
    by (cases "s ''ix''") (simp_all add: read_indices_def)
  then have "decode_stages correction_env example_meta = decode_stages example_env example_meta"
    by (simp add: decode_stages_def resolve_stages_def example_meta_def key_def read_stage_arrays_def get_or_def ceil_div_def correction_env_def)
      (simp add: example_env_def)
  then show ?thesis
    unfolding decode_tensor_def example_stages
    by (simp add: example_meta_def apply_outliers_def apply_pillars_def unrotate_numpy_def denormalize_numpy_def
        apply_salient_def get_or_def)
qed

lemma column_svd_shapes: "svd_shapes column_svd"
  unfolding svd_shapes_def column_svd_def by auto

lemma correction_ready: "correctable correction_env [(''a'', example_meta, None)]"
proof -
  have "without (sidecar_files [(''a'', example_meta, None)]) (dx_files correction_env) = dx_files correction_env"
    by (auto simp: without_def restrict_map_def fun_eq_iff sidecar_files_def own_files_def lowrank_path_def correction_env_def example_env_def)
  moreover have "correction_env\<lparr>dx_files := dx_files correction_env\<rparr> = correction_env" by simp
  ultimately show ?thesis using correction_decode by (simp add: correctable_def example_meta_def)
qed

theorem correction_never_worse_witness:
  "\<exists>s' en d' rs. correct_artifact column_svd correction_env 1 None [(''a'', [5, 4])] [(''a'', example_meta, None)] = Inr (s', [en], rs) \<and>
    decode_tensor (correction_env\<lparr>dx_files := s'\<rparr>) (fst (snd en)) = Inr d' \<and> q_mse (quality_between [5, 4] d') \<le> 2"
proof -
  have small: "\<forall>v. to16 (dx_env correction_env) v < 2 ^ 16" by (simp add: correction_env_def)
  have shape: "prod_list (tm_shape example_meta) = 2" by (simp add: example_meta_def)
  have mse: "q_mse (quality_between [5, 4] [3, 4]) = 2"
    by (simp add: quality_between_def quality_of_def add_chunk_eq no_totals_def quality_from_totals_def Let_def)
  obtain s' es' rs d d' where c: "correct_artifact column_svd correction_env 1 None [(''a'', [5, 4])] [(''a'', example_meta, None)] = Inr (s', es', rs)"
    "length es' = 1" "decode_tensor correction_env example_meta = Inr d"
    "decode_tensor (correction_env\<lparr>dx_files := s'\<rparr>) (fst (snd (es' ! 0))) = Inr d'"
    "q_mse (quality_between [5, 4] d') \<le> q_mse (quality_between [5, 4] d)"
    using correction_never_worse [OF column_svd_shapes small _ correction_ready, of 1 "[(''a'', [5, 4])]" None] by (auto simp: shape)
  obtain en where "es' = [en]" using c(2) by (auto simp: length_Suc_conv)
  then show ?thesis using c correction_decode mse by auto
qed

end
