(* ===== verification/Spec2Isabelle.thy ===== *)
theory Spec2Isabelle
  imports Rans Bitstream Sidecars Codebook_Store Quant_Spec Names Allocate Lattice Trellis Autoquant Harness Container Kmeans Decode Pack_Threads Manifest Stages Em_Aq Scale_Refine Pack_Plan Outlier_Split Merge Reconstruct Metrics Transform_Search Vq_Forward Vq_Embedding Low_Rank
begin

text \<open>
  Orka packs the weights of a language model into an artifact: every large matrix is normalized per block,
  optionally rotated, cut into groups of values, and each group is replaced by indices into learned codebooks, stage
  after stage on the residual. The artifact is a directory (index streams, codebooks, sidecars, a manifest) or one
  container file; the decoder rebuilds every tensor from the manifest entry. Around that core stand the spec
  language, the bit allocation, two fixed quantizers (E8 lattice, trellis), an entropy coder, and the AutoQuant agent
  that drives packing under a budget. This library models that core from the Python sources under \<open>src/orka\<close>.

  How the theories follow the code:

    \<^item> \<open>Bitstream\<close>, \<open>Sidecars\<close>, \<open>Codebook_Store\<close>: \<open>core/_format.py\<close>. Index layouts at any width; the files of an artifact as a map
      from paths to bytes; fp16 storage with its float32 fallback, outliers, salient weights, codebooks. What
      is written is what is read, file by file.
    \<^item> \<open>Normalize\<close>, \<open>Rotate\<close>: \<open>transforms/normalize.py\<close>, \<open>transforms/rotate.py\<close>, each mode on both backends and its inverse.
    \<^item> \<open>Kmeans\<close>: \<open>codebook/_kmeans_numpy.py\<close>. Assignment and Lloyd iterations.
    \<^item> \<open>Pack_Threads\<close>: the four threads of \<open>pipeline/pack.py\<close>, \<open>pipeline/pack_pipeline.py\<close> and \<open>_runtime/io.py\<close> as a step relation over
      bounded queues and a byte budget: order, safety of the budget, termination, and the one way it blocks.
    \<^item> \<open>Pack_Plan\<close>: \<open>pipeline/pack_config.py\<close> and the planning in \<open>pipeline/pack.py\<close>: argument checks, stage lists, which tensor
      is packed, passed through or left to another partition, and the cut into vectors.
    \<^item> \<open>Outlier_Split\<close>: \<open>transforms/outliers.py\<close> and the frequent-token rows of \<open>pipeline/pack.py\<close>: what is taken out comes back.
    \<^item> \<open>Stages\<close>: the residual stage loop of \<open>pipeline/pack_pipeline.py\<close>.
    \<^item> \<open>Em_Aq\<close>: the joint refinement of the stages in \<open>pipeline/strategies/refinement.py\<close>: the rewritten files decode to the sum that is
      measured, and the error grows by no more than the rounding of the codebooks.
    \<^item> \<open>Scale_Refine\<close>: the least-squares scales of \<open>pipeline/strategies/refinement.py\<close>, read back from the files.
    \<^item> \<open>Manifest\<close>: \<open>pipeline/pack_manifest.py\<close>. What is finalized is what the decoder finds.
    \<^item> \<open>Metrics\<close>: \<open>eval/metrics.py\<close>. Bounds of the quality numbers, and that they are measured on what the decoder returns.
    \<^item> \<open>Decode\<close>: \<open>pipeline/decode.py\<close>, the numpy and the torch decoder.
    \<^item> \<open>Vq_Layer\<close>: \<open>inference/_vq_core.py\<close>, \<open>inference/_vq_build.py\<close>. The layer that serves a packed matrix: its buffers, how they are
      filled, and that they stand for the decoder's tensor.
    \<^item> \<open>Vq_Forward\<close>: \<open>inference/dispatch.py\<close>, \<open>inference/triton_kernels.py\<close>, \<open>inference/plane_ops.py\<close> and the forward pass. Every path
      multiplies by that weight, over any sequence of batches, with one exception that is proved too.
    \<^item> \<open>Vq_Embedding\<close>: \<open>inference/vq_embedding.py\<close>, the lookup that decodes only the rows a batch asks for.
    \<^item> \<open>Low_Rank\<close>: \<open>artifact/correct.py\<close>, low-rank corrections beside a packed tensor: what is stored is what was measured, and no
      tensor gets worse.
    \<^item> \<open>Merge\<close>, \<open>Reconstruct\<close>: \<open>artifact/merge.py\<close>, \<open>artifact/reconstruct.py\<close>. Partitions become one artifact that decodes as they
      did; the decoded checkpoint as one safetensors file whose offsets lead to the decoded values.
    \<^item> \<open>Container\<close>: \<open>artifact/container.py\<close>, the one-file form with its digest.
    \<^item> \<open>Quant_Spec\<close>, \<open>Names\<close>, \<open>Allocate\<close>: \<open>quant/spec.py\<close>; \<open>quant/family.py\<close>, \<open>quant/arch.py\<close>, \<open>autoquant/roles.py\<close>; \<open>quant/allocate.py\<close>.
    \<^item> \<open>Transform_Search\<close>: \<open>quant/transform_search.py\<close>, the proxy that ranks transforms for the allocator.
    \<^item> \<open>Rans\<close>, \<open>Lattice\<close>, \<open>Trellis\<close>: \<open>quant/ans.py\<close>, \<open>quant/lattice.py\<close>, \<open>quant/trellis.py\<close>.
    \<^item> \<open>Autoquant\<close>, \<open>Harness\<close>: the policy, cache and refinement, and the budgeted agent loop of \<open>autoquant\<close>.
    \<^item> \<open>Prelude\<close>, \<open>Bytes\<close>, \<open>Numerics\<close>, \<open>Transitions\<close>: shared lemmas on errors, strings, blocks, bytes, roundings and guarded steps.

  How the code is represented. A raise, an early return or a failed lookup is an \<open>Inl\<close> of the component's error type. Files
  are a \<open>store\<close> passed along. Dicts of the pipeline are records; a missing key is \<open>None\<close>. Tensors are a shape with
  a flat list, or a list of rows. Integers of a fixed width are words or written with their modulus. Tensor arithmetic
  is exact (reals or rationals): roundings matter where the code stores values, and there they are functions of an
  environment (\<open>env\<close>, \<open>floats\<close>) with named laws that IEEE conversions satisfy. The fp16 casts around the kernels of the served
  layer are a record of two functions (\<open>casts\<close>) of which nothing is assumed. Libraries are parameters too: zlib, json,
  torch's truncated decomposition, sha256, QR, \<open>log10\<close>, the language model, packer, probe and verifier of the agent, and the
  choice torch's argmax makes between equal maxima. The quality metrics are a fallible parameter of the manifest entry,
  and \<open>Metrics\<close> supplies the code's own.

  Limits of the models: the number of outliers is the floor of an exact product; token ids are natural numbers; a file
  named like the container's metadata key is outside what the container's codec is assumed to carry; writes at repeated
  positions take the last value; one flag says whether the device of the reconstruction is a GPU.

  What the code does not promise is stated too: int8 codebooks may decode to other values than were measured
  (\<open>Codebook_Store\<close>), a limited run loses the tensors after its last one (\<open>Pack_Plan\<close>), a size-aware allocation may
  overspend (\<open>Allocate\<close>), a stuck refinement returns a map it did not measure (\<open>Autoquant\<close>), a failing finalization can
  block the pack (\<open>Pack_Threads\<close>), and torch and numpy differ on salient ties (\<open>Normalize\<close>).

  Loops end: recursion is structural or has its measure, the agent's loop carries its step bound as fuel, the allocator's
  heap loop shrinks the upgrades left, and renormalization of the entropy coder is a partial function whose
  result is proved to exist for every usable table. The step relation of the pack threads has no infinite run.

  Locales state the contracts: a layout of indices, a sidecar (written, then read, other files untouched) and two of
  them together, guarded steps with an invariant; each is interpreted on the code's definitions and the properties
  use the facts of the interpretations.

  The kernels of the served layer are modelled at one output entry per program instance, at the offsets they compute; their tile
  shapes are the parameter \<open>bk\<close> and change nothing that is proved. The CUDA extensions compiled at run time are taken as
  unavailable, so the Triton kernels run.

  Not modelled, and why: the torch k-means and the CUDA extensions, training and evaluation (they need a live model or a device); the
  integrations with transformers and vLLM (subclasses the frameworks call); command line, reports, progress output and
  memory limits (printing and operating system queries); random seeding of k-means and of rotations (a
  library's generator, here a parameter); the C kernels, the user interface and the vendored projects under \<open>src/research\<close>.
\<close>

end
